(* ===== verification/Prelude.thy ===== *)
theory Prelude
  imports Main "HOL-Library.Multiset" "HOL-Library.AList"
begin

text \<open>
  Shared vocabulary of the development.

  The Python sources raise exceptions and mutate objects.  An operation on an object of
  state type \<open>'s\<close> that returns an \<open>'a\<close> is a value of type \<open>('s, 'a) eff\<close>: it takes
  the state and gives back the outcome (\<open>Inl\<close> an exception, \<open>Inr\<close> the returned value)
  together with the state the object is left in, also when it raises.  Pure fallible
  functions return \<open>py_error + 'a\<close>.  The theory also holds the binary search that the
  scheduler and the decode ledger both use, and list and counting lemmas.
\<close>

named_theorems eff_simps \<open>unfolding of the effect combinators\<close>
named_theorems inv_intro \<open>operations that keep their component's invariant\<close>

section \<open>Exceptions\<close>

text \<open>
  \<open>OutOfFuel\<close> is no exception of the program: it is the outcome of a modelled \<open>while\<close> loop whose
  fuel ran out, that is, of a loop that may not return.
\<close>

datatype py_error =
    ValueError
  | RuntimeError
  | MemoryError
  | TypeError
  | KeyError
  | IndexError
  | AssertionError
  | AttributeError
  | OverflowError
  | AsyncDrainRequired
  | ChainNotFoundError
  | ChainBusyError
  | ChainPrefixMismatchError
  | ChainFingerprintMismatchError
  | ChainGoneError
  | ChainCapacityError
  | ChainOwnerMismatchError
  | StructError
  | ZeroDivisionError
  | OutOfFuel

type_synonym 'a result = "py_error + 'a"

definition bindR :: "'a result \<Rightarrow> ('a \<Rightarrow> 'b result) \<Rightarrow> 'b result" where
  "bindR m f = (case m of Inl e \<Rightarrow> Inl e | Inr x \<Rightarrow> f x)"

lemma bindR_simps [simp]: "bindR (Inl e) f = Inl e" "bindR (Inr x) f = f x"
  by (simp_all add: bindR_def)

lemma bindR_eq_Inr: "bindR m f = Inr y \<longleftrightarrow> (\<exists>x. m = Inr x \<and> f x = Inr y)"
  by (cases m) simp_all

text \<open>A list comprehension whose element expression may raise.\<close>

fun mapR :: "('a \<Rightarrow> 'b result) \<Rightarrow> 'a list \<Rightarrow> 'b list result" where
  "mapR f [] = Inr []"
| "mapR f (x # xs) = bindR (f x) (\<lambda>y. bindR (mapR f xs) (\<lambda>ys. Inr (y # ys)))"

lemma mapR_total: "(\<And>x. x \<in> set xs \<Longrightarrow> f x = Inr (g x)) \<Longrightarrow> mapR f xs = Inr (map g xs)"
  by (induction xs) simp_all

lemma mapR_eq_Inr: "mapR f xs = Inr ys \<longleftrightarrow> list_all2 (\<lambda>x y. f x = Inr y) xs ys"
  by (induction xs arbitrary: ys) (auto simp: bindR_eq_Inr list_all2_Cons1)

text \<open>Subscription of a tuple or list: a negative index counts from the end.\<close>

definition py_index :: "'a list \<Rightarrow> int \<Rightarrow> 'a result" where
  "py_index xs i =
     (if 0 \<le> i \<and> i < int (length xs) then Inr (xs ! nat i)
      else if - int (length xs) \<le> i \<and> i < 0 then Inr (xs ! nat (i + int (length xs)))
      else Inl IndexError)"

section \<open>Stateful operations\<close>

type_synonym ('s, 'a) eff = "'s \<Rightarrow> 'a result \<times> 's"

definition retE :: "'a \<Rightarrow> ('s, 'a) eff" where
  "retE x = (\<lambda>s. (Inr x, s))"

definition raiseE :: "py_error \<Rightarrow> ('s, 'a) eff" where
  "raiseE e = (\<lambda>s. (Inl e, s))"

definition bindE :: "('s, 'a) eff \<Rightarrow> ('a \<Rightarrow> ('s, 'b) eff) \<Rightarrow> ('s, 'b) eff" where
  "bindE m f = (\<lambda>s. case m s of (Inl e, s') \<Rightarrow> (Inl e, s') | (Inr x, s') \<Rightarrow> f x s')"

definition thenE :: "('s, 'a) eff \<Rightarrow> ('s, 'b) eff \<Rightarrow> ('s, 'b) eff" where
  "thenE m n = bindE m (\<lambda>_. n)"

definition getE :: "('s \<Rightarrow> 'a) \<Rightarrow> ('s, 'a) eff" where
  "getE f = (\<lambda>s. (Inr (f s), s))"

definition modifyE :: "('s \<Rightarrow> 's) \<Rightarrow> ('s, unit) eff" where
  "modifyE f = (\<lambda>s. (Inr (), f s))"

definition liftE :: "'a result \<Rightarrow> ('s, 'a) eff" where
  "liftE r = (\<lambda>s. (r, s))"

fun forE :: "'a list \<Rightarrow> ('a \<Rightarrow> ('s, unit) eff) \<Rightarrow> ('s, unit) eff" where
  "forE [] f = retE ()"
| "forE (x # xs) f = thenE (f x) (forE xs f)"

lemma eff_apply [eff_simps]:
  "retE x s = (Inr x, s)" "raiseE e s = (Inl e, s)" "getE f s = (Inr (f s), s)"
  "modifyE g s = (Inr (), g s)" "liftE r s = (r, s)"
  by (simp_all add: retE_def raiseE_def getE_def modifyE_def liftE_def)

lemma bindE_apply [eff_simps]:
  "bindE m k s = (case m s of (Inl e, s') \<Rightarrow> (Inl e, s') | (Inr x, s') \<Rightarrow> k x s')"
  by (simp add: bindE_def)

lemma thenE_apply [eff_simps]:
  "thenE m n s = (case m s of (Inl e, s') \<Rightarrow> (Inl e, s') | (Inr x, s') \<Rightarrow> n s')"
  by (simp add: thenE_def bindE_def)

text \<open>
  \<open>keeps I m\<close>: whatever the outcome, \<open>m\<close> leaves a state satisfying \<open>I\<close> in one.
  \<open>atomic m\<close>: when \<open>m\<close> raises, the state is the one it started in.
\<close>

definition keeps :: "('s \<Rightarrow> bool) \<Rightarrow> ('s, 'a) eff \<Rightarrow> bool" where
  "keeps I m \<longleftrightarrow> (\<forall>s. I s \<longrightarrow> I (snd (m s)))"

definition atomic :: "('s, 'a) eff \<Rightarrow> bool" where
  "atomic m \<longleftrightarrow> (\<forall>s e s'. m s = (Inl e, s') \<longrightarrow> s' = s)"

lemma keepsD: "keeps I m \<Longrightarrow> I s \<Longrightarrow> m s = (r, s') \<Longrightarrow> I s'"
  unfolding keeps_def by (metis snd_conv)

lemma atomicD: "atomic m \<Longrightarrow> m s = (Inl e, s') \<Longrightarrow> s' = s"
  by (auto simp: atomic_def)

lemma keeps_bindE [inv_intro]:
  assumes "keeps I m" and "\<And>x. keeps I (f x)"
  shows "keeps I (bindE m f)"
  using assms unfolding keeps_def bindE_def
  by (force split: prod.splits sum.splits)

lemma keeps_thenE [inv_intro]: "keeps I m \<Longrightarrow> keeps I n \<Longrightarrow> keeps I (thenE m n)"
  unfolding thenE_def by (rule keeps_bindE)

lemma keeps_pure [inv_intro]:
  "keeps I (retE x)" "keeps I (raiseE e)" "keeps I (getE f)" "keeps I (liftE r)"
  by (simp_all add: keeps_def eff_simps)

lemma keeps_forE [inv_intro]: "(\<And>x. x \<in> set xs \<Longrightarrow> keeps I (f x)) \<Longrightarrow> keeps I (forE xs f)"
  by (induction xs) (auto intro: inv_intro)

section \<open>Lists used as Python containers\<close>

text \<open>
  \<open>counter_keys\<close> is the iteration order of \<open>collections.Counter\<close>: each element once,
  at its first occurrence.
\<close>

definition counter_keys :: "'a list \<Rightarrow> 'a list" where
  "counter_keys xs = rev (remdups (rev xs))"

lemma set_counter_keys [simp]: "set (counter_keys xs) = set xs"
  by (simp add: counter_keys_def)

lemma distinct_counter_keys [simp]: "distinct (counter_keys xs)"
  by (simp add: counter_keys_def)

lemma counter_keys_Nil_iff [simp]: "counter_keys xs = [] \<longleftrightarrow> xs = []"
  by (metis set_counter_keys set_empty)

lemma count_list_distinct: "distinct xs \<Longrightarrow> count_list xs x = (if x \<in> set xs then 1 else 0)"
  by (induction xs) auto

lemma count_list_pos_iff: "0 < count_list xs x \<longleftrightarrow> x \<in> set xs"
  by (metis count_list_0_iff gr0I less_numeral_extra(3))

text \<open>
  A Python dict is an association list with distinct keys, in insertion order: assignment to a
  present key keeps its place, to a new key appends.
\<close>

type_synonym ('k, 'v) dict = "('k \<times> 'v) list"

abbreviation dict_set :: "'k \<Rightarrow> 'v \<Rightarrow> ('k, 'v) dict \<Rightarrow> ('k, 'v) dict" where
  "dict_set \<equiv> AList.update"

abbreviation dict_pop :: "'k \<Rightarrow> ('k, 'v) dict \<Rightarrow> ('k, 'v) dict" where
  "dict_pop \<equiv> AList.delete"

definition dict_get :: "('k, 'v) dict \<Rightarrow> 'k \<Rightarrow> 'v \<Rightarrow> 'v" where
  "dict_get d k dflt = (case map_of d k of None \<Rightarrow> dflt | Some v \<Rightarrow> v)"

lemma dict_get_Nil [simp]: "dict_get [] k dflt = dflt"
  by (simp add: dict_get_def)

lemma dict_get_Cons [simp]:
  "dict_get ((k', v) # d) k dflt = (if k = k' then v else dict_get d k dflt)"
  by (simp add: dict_get_def)

lemma dict_get_set [simp]:
  "dict_get (dict_set k v d) k' dflt = (if k' = k then v else dict_get d k' dflt)"
  by (simp add: dict_get_def update_conv')

lemma dict_get_pop [simp]:
  "dict_get (dict_pop k d) k' dflt = (if k' = k then dflt else dict_get d k' dflt)"
  by (auto simp: dict_get_def delete_conv' restrict_map_def)

text \<open>\<open>for name, cost in costs.items(): total[name] = total.get(name, 0) + cost\<close>\<close>

definition dict_add :: "('k, int) dict \<Rightarrow> ('k, int) dict \<Rightarrow> ('k, int) dict" where
  "dict_add tot costs = foldl (\<lambda>t (k, c). dict_set k (dict_get t k 0 + c) t) tot costs"

lemma dict_get_add:
  "distinct (map fst costs) \<Longrightarrow>
   dict_get (dict_add tot costs) k 0 = dict_get tot k 0 + dict_get costs k 0"
proof (induction costs arbitrary: tot)
  case Nil
  then show ?case by (simp add: dict_add_def)
next
  case (Cons p costs)
  obtain k' c where p: "p = (k', c)" by fastforce
  have none: "k' = k \<Longrightarrow> dict_get costs k 0 = 0"
    using Cons.prems p by (force simp: dict_get_def map_of_eq_None_iff split: option.splits)
  have "dict_get (dict_add (dict_set k' (dict_get tot k' 0 + c) tot) costs) k 0 =
    dict_get (dict_set k' (dict_get tot k' 0 + c) tot) k 0 + dict_get costs k 0"
    using Cons by simp
  with none p show ?case by (auto simp: dict_add_def)
qed

text \<open>A dict comprehension \<open>{k: v for ...}\<close>: later pairs overwrite earlier ones.\<close>

definition dict_comp :: "('k \<times> 'v) list \<Rightarrow> ('k, 'v) dict" where
  "dict_comp ps = foldl (\<lambda>d (k, v). dict_set k v d) [] ps"

lemma dict_comp_keys: "map fst ps = map fst qs \<Longrightarrow> map fst (dict_comp ps) = map fst (dict_comp qs)"
proof -
  have "map fst ps = map fst qs \<Longrightarrow> map fst d = map fst e \<Longrightarrow>
    map fst (foldl (\<lambda>d (k, v). dict_set k v d) d ps) = map fst (foldl (\<lambda>d (k, v). dict_set k v d) e qs)"
    for d :: "('a, 'b) dict" and e :: "('a, 'c) dict"
  proof (induction ps arbitrary: d e qs)
    case Nil
    then show ?case by simp
  next
    case (Cons p ps)
    obtain k v where p: "p = (k, v)" by fastforce
    with Cons.prems(1) obtain w qs' where qs: "qs = (k, w) # qs'" and tl: "map fst ps = map fst qs'"
      by (cases qs) auto
    have "map fst (dict_set k v d) = map fst (dict_set k w e)"
      using Cons.prems(2) by (simp add: update_keys)
    from Cons.IH [OF tl this] show ?case by (simp add: p qs)
  qed
  from this [of "[]" "[]"] show "map fst ps = map fst qs \<Longrightarrow> ?thesis" by (simp add: dict_comp_def)
qed

lemma distinct_dict_comp: "distinct (map fst (dict_comp ps))"
proof -
  have "distinct (map fst d) \<Longrightarrow> distinct (map fst (foldl (\<lambda>d (k, v). dict_set k v d) d ps))"
    for d :: "('a, 'b) dict"
    by (induction ps arbitrary: d) (auto simp: distinct_update)
  then show ?thesis by (simp add: dict_comp_def)
qed

lemma dict_comp_mono:
  fixes f g :: "'x \<Rightarrow> int"
  assumes "\<And>x. x \<in> set xs \<Longrightarrow> f x \<le> g x"
  shows "dict_get (dict_comp (map (\<lambda>x. (k x, f x)) xs)) n 0 \<le> dict_get (dict_comp (map (\<lambda>x. (k x, g x)) xs)) n 0"
proof -
  have "(\<And>n. dict_get d n 0 \<le> dict_get e n 0) \<Longrightarrow>
    dict_get (foldl (\<lambda>d (k, v). dict_set k v d) d (map (\<lambda>x. (k x, f x)) xs)) n 0
      \<le> dict_get (foldl (\<lambda>d (k, v). dict_set k v d) e (map (\<lambda>x. (k x, g x)) xs)) n 0" for d e
    using assms by (induction xs arbitrary: d e) simp_all
  then show ?thesis by (simp add: dict_comp_def)
qed

lemma update_fresh: "k \<notin> fst ` set d \<Longrightarrow> dict_set k v d = d @ [(k, v)]"
  by (induction d) auto

lemma set_update_subset: "set (dict_set k v d) \<subseteq> insert (k, v) (set d)"
  by (induction d) auto

lemma dict_comp_distinct: "distinct (map fst ps) \<Longrightarrow> dict_comp ps = ps"
proof -
  have "distinct (map fst (d @ ps)) \<Longrightarrow> foldl (\<lambda>d (k, v). dict_set k v d) d ps = d @ ps" for d
    by (induction ps arbitrary: d) (auto simp: update_fresh)
  from this [of "[]"] show "distinct (map fst ps) \<Longrightarrow> ?thesis" by (simp add: dict_comp_def)
qed

lemma set_dict_comp: "set (dict_comp ps) \<subseteq> set ps"
proof -
  have "set (foldl (\<lambda>d (k, v). dict_set k v d) d ps) \<subseteq> set d \<union> set ps" for d
  proof (induction ps arbitrary: d)
    case (Cons p ps)
    obtain k v where p: "p = (k, v)" by fastforce
    show ?case using Cons.IH [of "dict_set k v d"] set_update_subset [of k v d] by (auto simp: p)
  qed simp
  from this [of "[]"] show ?thesis by (simp add: dict_comp_def)
qed

text \<open>Decimal digits, as in the f-string \<open>f"layer_{layer}"\<close>.\<close>

fun show_nat :: "nat \<Rightarrow> string" where
  "show_nat n =
     (let d = [char_of (48 + n mod 10)] in if n < 10 then d else show_nat (n div 10) @ d)"

declare show_nat.simps [simp del]

definition layer_name :: "nat \<Rightarrow> string" where
  "layer_name l = ''layer_'' @ show_nat l"

section \<open>Binary search for the largest value that fits\<close>

text \<open>
  The loop \<open>while lo < hi: mid = (lo + hi + 1) // 2; if fits(mid): lo = mid else: hi = mid - 1\<close>,
  with the predicate as an argument.
\<close>

function bisect_max :: "(int \<Rightarrow> bool) \<Rightarrow> int \<Rightarrow> int \<Rightarrow> int" where
  "bisect_max fits lo hi =
     (if lo < hi then
        let mid = (lo + hi + 1) div 2 in
        if fits mid then bisect_max fits mid hi else bisect_max fits lo (mid - 1)
      else lo)"
  by pat_completeness auto
termination
  by (relation "measure (\<lambda>(f, lo, hi). nat (hi - lo))") auto

declare bisect_max.simps [simp del]

lemma bisect_max_range: "lo \<le> hi \<Longrightarrow> lo \<le> bisect_max fits lo hi \<and> bisect_max fits lo hi \<le> hi"
proof (induction fits lo hi rule: bisect_max.induct)
  case (1 fits lo hi)
  show ?case
  proof (cases "lo < hi")
    case True
    then have mid: "lo \<le> (lo + hi + 1) div 2 - 1" "(lo + hi + 1) div 2 \<le> hi" by auto
    show ?thesis
      using "1.IH"(1) [OF True refl] "1.IH"(2) [OF True refl] True mid
      by (auto simp: bisect_max.simps [of fits lo hi] Let_def)
  next
    case False
    then have "bisect_max fits lo hi = lo" by (simp add: bisect_max.simps [of fits lo hi])
    with "1.prems" show ?thesis by simp
  qed
qed

lemma bisect_max_fits: "fits lo \<Longrightarrow> fits (bisect_max fits lo hi)"
proof (induction fits lo hi rule: bisect_max.induct)
  case (1 fits lo hi)
  then show ?case
    by (cases "lo < hi") (auto simp: bisect_max.simps [of fits lo hi] Let_def)
qed

text \<open>
  Maximality needs the predicate to be downward closed on the searched interval, which is
  what the sources' comments claim of the cost hooks.
\<close>

lemma bisect_max_greatest:
  assumes "\<And>a b. lo \<le> a \<Longrightarrow> a \<le> b \<Longrightarrow> b \<le> hi \<Longrightarrow> fits b \<Longrightarrow> fits a"
    and "bisect_max fits lo hi < n" and "n \<le> hi"
  shows "\<not> fits n"
  using assms
proof (induction fits lo hi arbitrary: n rule: bisect_max.induct)
  case (1 fits lo hi)
  let ?mid = "(lo + hi + 1) div 2"
  show ?case
  proof (cases "lo < hi")
    case False
    with "1.prems"(2,3) show ?thesis by (simp add: bisect_max.simps [of fits lo hi])
  next
    case True
    then have mid: "lo < ?mid" "?mid \<le> hi" by auto
    show ?thesis
    proof (cases "fits ?mid")
      case fit: True
      have "\<And>a b. ?mid \<le> a \<Longrightarrow> a \<le> b \<Longrightarrow> b \<le> hi \<Longrightarrow> fits b \<Longrightarrow> fits a"
        using "1.prems"(1) mid by force
      then show ?thesis
        using "1.IH"(1) [OF True refl fit, of n] "1.prems"(2,3) True fit
        by (simp add: bisect_max.simps [of fits lo hi] Let_def)
    next
      case unfit: False
      have sub: "\<And>a b. lo \<le> a \<Longrightarrow> a \<le> b \<Longrightarrow> b \<le> ?mid - 1 \<Longrightarrow> fits b \<Longrightarrow> fits a"
        using "1.prems"(1) mid by force
      have less: "bisect_max fits lo (?mid - 1) < n"
        using "1.prems"(2) True unfit by (simp add: bisect_max.simps [of fits lo hi] Let_def)
      show ?thesis
      proof (cases "n \<le> ?mid - 1")
        case True
        with "1.IH"(2) [OF \<open>lo < hi\<close> refl unfit] sub less show ?thesis by blast
      next
        case False
        then have "lo \<le> ?mid" "?mid \<le> n" using mid by auto
        with "1.prems"(1) [of ?mid n] "1.prems"(3) unfit show ?thesis by blast
      qed
    qed
  qed
qed

text \<open>The same loop when evaluating the predicate may raise.\<close>

function bisect_maxR :: "(int \<Rightarrow> bool result) \<Rightarrow> int \<Rightarrow> int \<Rightarrow> int result" where
  "bisect_maxR fits lo hi =
     (if lo < hi then
        let mid = (lo + hi + 1) div 2 in
        bindR (fits mid) (\<lambda>b.
          if b then bisect_maxR fits mid hi else bisect_maxR fits lo (mid - 1))
      else Inr lo)"
  by pat_completeness auto
termination
  by (relation "measure (\<lambda>(f, lo, hi). nat (hi - lo))") auto

declare bisect_maxR.simps [simp del]

lemma bisect_maxR_total:
  "(\<And>n. lo < n \<Longrightarrow> n \<le> hi \<Longrightarrow> fits n = Inr (P n)) \<Longrightarrow> bisect_maxR fits lo hi = Inr (bisect_max P lo hi)"
proof (induction fits lo hi rule: bisect_maxR.induct)
  case (1 fits lo hi)
  show ?case
  proof (cases "lo < hi")
    case False
    then show ?thesis by (simp add: bisect_maxR.simps [of fits lo hi] bisect_max.simps [of P lo hi])
  next
    case True
    define mid where "mid = (lo + hi + 1) div 2"
    have mid: "lo < mid" "mid \<le> hi" using True by (auto simp: mid_def)
    have f: "fits mid = Inr (P mid)" using "1.prems" mid by blast
    have a: "P mid \<Longrightarrow> bisect_maxR fits mid hi = Inr (bisect_max P mid hi)"
      using "1.IH"(1) [OF True mid_def, of "P mid"] "1.prems" mid by force
    have b: "\<not> P mid \<Longrightarrow> bisect_maxR fits lo (mid - 1) = Inr (bisect_max P lo (mid - 1))"
      using "1.IH"(2) [OF True mid_def, of "P mid"] "1.prems" mid by force
    show ?thesis
      using True f a b
      by (simp add: bisect_maxR.simps [of fits lo hi] bisect_max.simps [of P lo hi] Let_def
          flip: mid_def)
  qed
qed

lemma bisect_maxR_fits:
  "fits lo = Inr True \<Longrightarrow> lo \<le> hi \<Longrightarrow> bisect_maxR fits lo hi = Inr n \<Longrightarrow>
   lo \<le> n \<and> n \<le> hi \<and> fits n = Inr True"
proof (induction fits lo hi rule: bisect_maxR.induct)
  case (1 fits lo hi)
  show ?case
  proof (cases "lo < hi")
    case False
    then have "bisect_maxR fits lo hi = Inr lo" by (simp add: bisect_maxR.simps [of fits lo hi])
    with "1.prems" show ?thesis by simp
  next
    case True
    define mid where "mid = (lo + hi + 1) div 2"
    have mid: "lo \<le> mid - 1" "lo < mid" "mid \<le> hi" using True by (auto simp: mid_def)
    from "1.prems"(3) True obtain b where b: "fits mid = Inr b"
      and rest: "(if b then bisect_maxR fits mid hi else bisect_maxR fits lo (mid - 1)) = Inr n"
      by (auto simp: bisect_maxR.simps [of fits lo hi] Let_def bindR_eq_Inr simp flip: mid_def)
    show ?thesis
    proof (cases b)
      case True
      then show ?thesis using "1.IH"(1) [OF \<open>lo < hi\<close> mid_def, of b] b rest mid by simp
    next
      case False
      then show ?thesis using "1.IH"(2) [OF \<open>lo < hi\<close> mid_def, of b] "1.prems"(1) b rest mid by simp
    qed
  qed
qed

end
