(* ===== verification/Page_Allocator.thy ===== *)
theory Page_Allocator
  imports Prelude
begin

text \<open>
  \<open>engine/cache_manager/storage/page_allocator.py\<close>: \<open>PhysicalPageAllocator\<close>, the reference
  counted pool of physical cache pages.  The record holds the object's fields; every method
  is one definition.  The locale \<open>refcount_pool\<close> is what clients of a reference counted
  pool may rely on; it is interpreted on the allocator at the end.
\<close>

section \<open>The model\<close>

record page_allocator =
  num_pages :: int
  reserved_pages :: int
  references :: "int list"
  free_pages :: "int list"
  ownership_epoch :: int

definition PhysicalPageAllocator :: "int \<Rightarrow> int \<Rightarrow> page_allocator result" where
  "PhysicalPageAllocator np rp =
     (if np \<le> 0 \<or> \<not> (0 \<le> rp \<and> rp < np) then Inl ValueError
      else Inr \<lparr>num_pages = np, reserved_pages = rp, references = replicate (nat np) 0,
                free_pages = rev [rp..np - 1], ownership_epoch = 0\<rparr>)"

definition num_free_pages :: "page_allocator \<Rightarrow> int" where
  "num_free_pages s = int (length (free_pages s))"

text \<open>\<open>tuple(self._free.pop() for _ in range(count))\<close>: the popped pages and the rest.\<close>

fun pop_pages :: "nat \<Rightarrow> int list \<Rightarrow> int list \<times> int list" where
  "pop_pages 0 fr = ([], fr)"
| "pop_pages (Suc n) fr = (case pop_pages n (butlast fr) of (ps, fr') \<Rightarrow> (last fr # ps, fr'))"

definition bump_epoch :: "'a list \<Rightarrow> page_allocator \<Rightarrow> page_allocator" where
  "bump_epoch xs s = (if xs = [] then s else s\<lparr>ownership_epoch := ownership_epoch s + 1\<rparr>)"

definition allocate_pages :: "int \<Rightarrow> (page_allocator, int list) eff" where
  "allocate_pages n s =
     (if n < 0 then (Inl ValueError, s)
      else if n > num_free_pages s then (Inl MemoryError, s)
      else case pop_pages (nat n) (free_pages s) of (pages, fr) \<Rightarrow>
        (Inr pages,
         bump_epoch pages
           (s\<lparr>free_pages := fr,
              references := fold (\<lambda>p rs. rs[nat p := 1]) pages (references s)\<rparr>)))"

definition page_counts :: "page_allocator \<Rightarrow> int list \<Rightarrow> (int \<times> int) list result" where
  "page_counts s pages =
     (if \<exists>p\<in>set (counter_keys pages).
           \<not> (reserved_pages s \<le> p \<and> p < num_pages s) \<or> references s ! nat p \<le> 0
      then Inl ValueError
      else Inr (map (\<lambda>p. (p, int (count_list pages p))) (counter_keys pages)))"

definition reference_count :: "int \<Rightarrow> (page_allocator, int) eff" where
  "reference_count p s =
     (case page_counts s [p] of Inl e \<Rightarrow> (Inl e, s) | Inr _ \<Rightarrow> (Inr (references s ! nat p), s))"

definition retain_pages :: "int list \<Rightarrow> (page_allocator, unit) eff" where
  "retain_pages pages s =
     (case page_counts s pages of
        Inl e \<Rightarrow> (Inl e, s)
      | Inr cs \<Rightarrow>
          (Inr (),
           bump_epoch cs
             (s\<lparr>references :=
                  fold (\<lambda>(p, c) rs. rs[nat p := rs ! nat p + c]) cs (references s)\<rparr>)))"

text \<open>The loop body of \<open>release_pages\<close> for one \<open>page, count\<close> entry.\<close>

definition release_page :: "int \<times> int \<Rightarrow> page_allocator \<Rightarrow> page_allocator" where
  "release_page pc s =
     (case pc of (p, c) \<Rightarrow>
        let r = references s ! nat p - c;
            s' = s\<lparr>references := (references s)[nat p := r]\<rparr>
        in if r = 0 then s'\<lparr>free_pages := free_pages s @ [p]\<rparr> else s')"

definition release_pages :: "int list \<Rightarrow> (page_allocator, unit) eff" where
  "release_pages pages s =
     (case page_counts s pages of
        Inl e \<Rightarrow> (Inl e, s)
      | Inr cs \<Rightarrow>
          if \<exists>(p, c)\<in>set cs. c > references s ! nat p then (Inl ValueError, s)
          else (Inr (), bump_epoch cs (fold release_page cs s)))"

section \<open>Invariant\<close>

text \<open>
  \<open>ref_of s p\<close> is the number of references to page \<open>p\<close>.  The free list holds exactly the
  allocatable pages without a reference, each once; reserved pages never have one.
\<close>

definition ref_of :: "page_allocator \<Rightarrow> int \<Rightarrow> int" where
  "ref_of s p = (if 0 \<le> p \<and> p < num_pages s then references s ! nat p else 0)"

definition allocatable :: "page_allocator \<Rightarrow> int \<Rightarrow> bool" where
  "allocatable s p \<longleftrightarrow> reserved_pages s \<le> p \<and> p < num_pages s"

definition pa_inv :: "page_allocator \<Rightarrow> bool" where
  "pa_inv s \<longleftrightarrow>
     0 \<le> reserved_pages s \<and> reserved_pages s < num_pages s \<and>
     length (references s) = nat (num_pages s) \<and>
     distinct (free_pages s) \<and>
     (\<forall>p. p \<in> set (free_pages s) \<longleftrightarrow> allocatable s p \<and> ref_of s p = 0) \<and>
     (\<forall>p. 0 \<le> ref_of s p) \<and>
     (\<forall>p. \<not> allocatable s p \<longrightarrow> ref_of s p = 0)"

lemma pa_invD:
  assumes "pa_inv s"
  shows "0 \<le> reserved_pages s" "reserved_pages s < num_pages s"
    "length (references s) = nat (num_pages s)" "distinct (free_pages s)"
    "p \<in> set (free_pages s) \<longleftrightarrow> allocatable s p \<and> ref_of s p = 0"
    "0 \<le> ref_of s p" "\<not> allocatable s p \<Longrightarrow> ref_of s p = 0"
  using assms by (auto simp: pa_inv_def)

lemma pa_inv_step:
  assumes "pa_inv s" and "num_pages s1 = num_pages s" and "reserved_pages s1 = reserved_pages s"
    and "length (references s1) = length (references s)" and "distinct (free_pages s1)"
    and "\<And>p. p \<in> set (free_pages s1) \<longleftrightarrow> allocatable s p \<and> ref_of s1 p = 0"
    and "\<And>p. 0 \<le> ref_of s1 p" and "\<And>p. \<not> allocatable s p \<Longrightarrow> ref_of s1 p = 0"
  shows "pa_inv s1"
  using assms by (auto simp: pa_inv_def allocatable_def)

lemma bump_epoch_sel [simp]:
  "num_pages (bump_epoch xs s) = num_pages s"
  "reserved_pages (bump_epoch xs s) = reserved_pages s"
  "references (bump_epoch xs s) = references s"
  "free_pages (bump_epoch xs s) = free_pages s"
  by (simp_all add: bump_epoch_def)

lemma ref_of_bump [simp]: "ref_of (bump_epoch xs s) = ref_of s"
  by (auto simp: ref_of_def)

lemma pa_inv_bump [simp]: "pa_inv (bump_epoch xs s) = pa_inv s"
  by (simp add: pa_inv_def allocatable_def)

lemma pop_pages_eq: "n \<le> length fr \<Longrightarrow>
  pop_pages n fr = (rev (drop (length fr - n) fr), take (length fr - n) fr)"
proof (induction n arbitrary: fr)
  case 0
  then show ?case by simp
next
  case (Suc n)
  then obtain fr' x where fr: "fr = fr' @ [x]"
    by (metis Suc_le_length_iff le_0_eq list.size(3) nat.distinct(1) rev_exhaust)
  with Suc have "pop_pages n fr' = (rev (drop (length fr' - n) fr'), take (length fr' - n) fr')"
    by simp
  with fr Suc.prems show ?case by simp
qed

lemma length_fold_update: "length (fold (\<lambda>p rs. rs[f p := g p rs]) ps rs) = length rs"
  by (induction ps arbitrary: rs) simp_all

lemma fold_set_one_nth:
  "nat p < length rs \<Longrightarrow> 0 \<le> p \<Longrightarrow> (\<forall>q\<in>set ps. 0 \<le> q) \<Longrightarrow>
   fold (\<lambda>p rs. rs[nat p := 1]) ps rs ! nat p = (if p \<in> set ps then 1 else rs ! nat p)"
  by (induction ps arbitrary: rs) (auto simp: nth_list_update nat_eq_iff2)

section \<open>Effect of the operations on reference counts\<close>

lemma page_counts_Inr:
  assumes "pa_inv s"
  shows "page_counts s pages = Inr cs \<longleftrightarrow>
    (\<forall>p\<in>set pages. allocatable s p \<and> 0 < ref_of s p) \<and>
    cs = map (\<lambda>p. (p, int (count_list pages p))) (counter_keys pages)"
proof -
  have "(\<not> (reserved_pages s \<le> p \<and> p < num_pages s) \<or> references s ! nat p \<le> 0) \<longleftrightarrow>
    \<not> (allocatable s p \<and> 0 < ref_of s p)" for p
    using pa_invD(1) [OF assms] by (auto simp: allocatable_def ref_of_def)
  then show ?thesis by (auto simp: page_counts_def)
qed

lemma fold_add_nth:
  "distinct (map fst cs) \<Longrightarrow> (\<forall>(q, c)\<in>set cs. 0 \<le> q \<and> nat q < length rs) \<Longrightarrow> 0 \<le> p \<Longrightarrow>
   fold (\<lambda>(p, c) rs. rs[nat p := rs ! nat p + c]) cs rs ! nat p =
     rs ! nat p + (case map_of cs p of None \<Rightarrow> 0 | Some c \<Rightarrow> c)" for cs :: "(int \<times> int) list"
proof (induction cs arbitrary: rs)
  case Nil
  then show ?case by simp
next
  case (Cons pc cs)
  obtain q c where pc: "pc = (q, c)" by fastforce
  have none: "q = p \<Longrightarrow> map_of cs p = None"
    using Cons.prems(1) pc by (force simp: map_of_eq_None_iff)
  have "fold (\<lambda>(p, c) rs. rs[nat p := rs ! nat p + c]) cs (rs[nat q := rs ! nat q + c]) ! nat p =
    rs[nat q := rs ! nat q + c] ! nat p + (case map_of cs p of None \<Rightarrow> 0 | Some c \<Rightarrow> c)"
    using Cons.prems by (intro Cons.IH) auto
  then show ?case
    using Cons.prems none pc by (auto simp: nth_list_update nat_eq_iff2)
qed

lemma length_fold_add:
  "length (fold (\<lambda>(p, c) rs. rs[nat p := rs ! nat p + c]) cs rs) = length rs"
  by (induction cs arbitrary: rs) (auto split: prod.splits)

lemma map_of_counts:
  "map_of (map (\<lambda>p. (p, int (count_list pages p))) (counter_keys pages)) p =
     (if p \<in> set pages then Some (int (count_list pages p)) else None)"
  by (auto simp: map_of_map_restrict restrict_map_def)

lemma allocate_pages_ok:
  assumes inv: "pa_inv s" and n: "0 \<le> n" "n \<le> num_free_pages s"
  obtains pages s' where "allocate_pages n s = (Inr pages, s')" "pa_inv s'"
    "int (length pages) = n" "distinct pages" "set pages \<subseteq> set (free_pages s)"
    "\<And>p. ref_of s' p = ref_of s p + int (count_list pages p)"
    "num_pages s' = num_pages s" "reserved_pages s' = reserved_pages s"
    "num_free_pages s' = num_free_pages s - n"
proof -
  define k where "k = length (free_pages s) - nat n"
  define pages where "pages = rev (drop k (free_pages s))"
  define fr where "fr = take k (free_pages s)"
  define rs where "rs = fold (\<lambda>p rs. rs[nat p := 1]) pages (references s)"
  define s1 where "s1 = s\<lparr>free_pages := fr, references := rs\<rparr>"
  note D = pa_invD [OF inv]
  have k: "k \<le> length (free_pages s)" "nat n = length (free_pages s) - k"
    using n by (auto simp: k_def num_free_pages_def)
  have eq: "allocate_pages n s = (Inr pages, bump_epoch pages s1)"
    using n by (simp add: allocate_pages_def pop_pages_eq num_free_pages_def pages_def fr_def
        rs_def s1_def k_def)
  have split: "free_pages s = fr @ rev pages" by (simp add: fr_def pages_def)
  have dist: "distinct pages" "distinct fr" "set fr \<inter> set pages = {}"
    using D(4) split by (auto simp: distinct_append)
  have sub: "set pages \<subseteq> set (free_pages s)" using split by auto
  have free0: "allocatable s p" "ref_of s p = 0" if "p \<in> set pages" for p
    using that sub D(5) by auto
  have len: "length rs = nat (num_pages s)"
    using D(3) length_fold_update [of nat "\<lambda>_ _. 1" pages "references s"]
    by (simp add: rs_def)
  have pos: "\<forall>q\<in>set pages. 0 \<le> q" using free0(1) D(1) by (force simp: allocatable_def)
  have ref: "ref_of s1 p = ref_of s p + int (count_list pages p)" for p
  proof (cases "0 \<le> p \<and> p < num_pages s")
    case True
    then have "rs ! nat p = (if p \<in> set pages then 1 else references s ! nat p)"
      unfolding rs_def using pos D(3) by (intro fold_set_one_nth) auto
    with True free0 [of p] show ?thesis
      by (auto simp: ref_of_def s1_def count_list_distinct [OF dist(1)])
  next
    case False
    then have "p \<notin> set pages" using free0 [of p] D(1) by (auto simp: allocatable_def)
    with False show ?thesis by (auto simp: ref_of_def s1_def count_notin)
  qed
  have sel: "free_pages s1 = fr" "references s1 = rs" "num_pages s1 = num_pages s"
    "reserved_pages s1 = reserved_pages s" by (simp_all add: s1_def)
  have freeset: "p \<in> set fr \<longleftrightarrow> p \<in> set (free_pages s) \<and> p \<notin> set pages" for p
    using split dist(3) by auto
  have "pa_inv s1"
  proof (rule pa_inv_step [OF inv sel(3,4)])
    show "p \<in> set (free_pages s1) \<longleftrightarrow> allocatable s p \<and> ref_of s1 p = 0" for p
      using D(5,6) by (auto simp: sel freeset ref count_list_distinct [OF dist(1)] free0)
  qed (use D(6,7) free0 len D(3) dist(2) in
      \<open>auto simp: sel ref count_list_distinct [OF dist(1)]\<close>)
  then show thesis
    using eq ref dist(1) sub n sel
    by (intro that [of pages "bump_epoch pages s1"])
      (auto simp: pages_def fr_def num_free_pages_def k_def)
qed

lemma retain_pages_ok:
  assumes inv: "pa_inv s" and ok: "\<forall>p\<in>set pages. allocatable s p \<and> 0 < ref_of s p"
  obtains s' where "retain_pages pages s = (Inr (), s')" "pa_inv s'"
    "\<And>p. ref_of s' p = ref_of s p + int (count_list pages p)"
    "num_pages s' = num_pages s" "reserved_pages s' = reserved_pages s"
    "free_pages s' = free_pages s"
proof -
  define cs where "cs = map (\<lambda>p. (p, int (count_list pages p))) (counter_keys pages)"
  define rs where "rs = fold (\<lambda>(p, c) rs. rs[nat p := rs ! nat p + c]) cs (references s)"
  define s1 where "s1 = s\<lparr>references := rs\<rparr>"
  note D = pa_invD [OF inv]
  have eq: "retain_pages pages s = (Inr (), bump_epoch cs s1)"
    using page_counts_Inr [OF inv, of pages cs] ok by (simp add: retain_pages_def cs_def rs_def s1_def)
  have keys: "map fst cs = counter_keys pages" by (simp add: cs_def comp_def)
  have rng: "\<forall>(q, c)\<in>set cs. 0 \<le> q \<and> nat q < length (references s)"
    using ok D(1,3) by (auto simp: cs_def allocatable_def)
  have sel: "free_pages s1 = free_pages s" "references s1 = rs" "num_pages s1 = num_pages s"
    "reserved_pages s1 = reserved_pages s" by (simp_all add: s1_def)
  have ref: "ref_of s1 p = ref_of s p + int (count_list pages p)" for p
  proof (cases "0 \<le> p \<and> p < num_pages s")
    case True
    then have "rs ! nat p = references s ! nat p + (case map_of cs p of None \<Rightarrow> 0 | Some c \<Rightarrow> c)"
      unfolding rs_def using keys rng by (intro fold_add_nth) auto
    with True show ?thesis
      unfolding cs_def map_of_counts by (auto simp: ref_of_def sel split: if_splits)
  next
    case False
    then have "p \<notin> set pages" using ok D(1) by (force simp: allocatable_def)
    with False show ?thesis by (auto simp: ref_of_def sel)
  qed
  have notin: "\<not> allocatable s p \<Longrightarrow> count_list pages p = 0" for p
    using ok by (auto simp: count_list_0_iff)
  have "pa_inv s1"
  proof (rule pa_inv_step [OF inv sel(3,4)])
    show "p \<in> set (free_pages s1) \<longleftrightarrow> allocatable s p \<and> ref_of s1 p = 0" for p
      using D(5,6) [of p] ok by (auto simp: sel ref count_list_0_iff add_nonneg_eq_0_iff)
  qed (use D(3,4,6,7) notin length_fold_add [of cs "references s"] in \<open>auto simp: sel ref rs_def\<close>)
  then show thesis using eq ref sel by (intro that [of "bump_epoch cs s1"]) auto
qed

lemma release_page_ok:
  assumes inv: "pa_inv s" and p: "allocatable s p" "0 < c" "c \<le> ref_of s p"
  shows "pa_inv (release_page (p, c) s)"
    and "ref_of (release_page (p, c) s) q = ref_of s q - (if q = p then c else 0)"
    and "num_pages (release_page (p, c) s) = num_pages s"
    and "reserved_pages (release_page (p, c) s) = reserved_pages s"
proof -
  let ?s' = "release_page (p, c) s"
  note D = pa_invD [OF inv]
  have rng: "0 \<le> p" "p < num_pages s" using p(1) D(1) by (auto simp: allocatable_def)
  show np: "num_pages ?s' = num_pages s" and rp: "reserved_pages ?s' = reserved_pages s"
    by (simp_all add: release_page_def Let_def)
  have ref: "ref_of ?s' q = ref_of s q - (if q = p then c else 0)" for q
    using rng D(3) by (auto simp: release_page_def Let_def ref_of_def nth_list_update nat_eq_iff2)
  then show "ref_of ?s' q = ref_of s q - (if q = p then c else 0)" .
  have fr: "free_pages ?s' = free_pages s @ (if ref_of s p = c then [p] else [])"
    using rng by (simp add: release_page_def Let_def ref_of_def)
  show "pa_inv ?s'"
  proof (rule pa_inv_step [OF inv np rp])
    show "q \<in> set (free_pages ?s') \<longleftrightarrow> allocatable s q \<and> ref_of ?s' q = 0" for q
      using D(5) [of q] p by (auto simp: fr ref)
    show "distinct (free_pages ?s')" using D(4) D(5) [of p] p by (auto simp: fr)
    show "length (references ?s') = length (references s)"
      by (simp add: release_page_def Let_def)
  qed (use D(6,7) p in \<open>auto simp: ref\<close>)
qed

lemma fold_release_ok:
  assumes "pa_inv s" and "distinct (map fst cs)"
    and "\<forall>(p, c)\<in>set cs. allocatable s p \<and> 0 < c \<and> c \<le> ref_of s p"
  shows "pa_inv (fold release_page cs s) \<and>
    (\<forall>q. ref_of (fold release_page cs s) q =
      ref_of s q - (case map_of cs q of None \<Rightarrow> 0 | Some c \<Rightarrow> c)) \<and>
    num_pages (fold release_page cs s) = num_pages s \<and>
    reserved_pages (fold release_page cs s) = reserved_pages s"
  using assms
proof (induction cs arbitrary: s)
  case Nil
  then show ?case by simp
next
  case (Cons pc cs)
  obtain p c where pc: "pc = (p, c)" by fastforce
  have p: "allocatable s p" "0 < c" "c \<le> ref_of s p" using Cons.prems(3) pc by auto
  note S = release_page_ok [OF Cons.prems(1) p]
  have rest: "\<forall>(p', c')\<in>set cs. allocatable (release_page (p, c) s) p' \<and>
      0 < c' \<and> c' \<le> ref_of (release_page (p, c) s) p'"
    using Cons.prems(2,3) S(2-4) pc by (force simp: allocatable_def)
  have none: "map_of cs p = None" using Cons.prems(2) pc by (force simp: map_of_eq_None_iff)
  have "distinct (map fst cs)" using Cons.prems(2) by simp
  from Cons.IH [OF S(1) this rest] show ?case
    using S(2-4) none by (auto simp: pc)
qed

lemma release_pages_ok:
  assumes inv: "pa_inv s" and ok: "\<forall>p\<in>set pages. int (count_list pages p) \<le> ref_of s p"
  obtains s' where "release_pages pages s = (Inr (), s')" "pa_inv s'"
    "\<And>p. ref_of s' p = ref_of s p - int (count_list pages p)"
    "num_pages s' = num_pages s" "reserved_pages s' = reserved_pages s"
proof -
  define cs where "cs = map (\<lambda>p. (p, int (count_list pages p))) (counter_keys pages)"
  note D = pa_invD [OF inv]
  have pos: "0 < count_list pages p" if "p \<in> set pages" for p
    using that by (simp add: count_list_pos_iff)
  have al: "allocatable s p \<and> 0 < ref_of s p" if "p \<in> set pages" for p
    using ok pos [OF that] that D(7) [of p] by force
  have keys: "map fst cs = counter_keys pages" by (simp add: cs_def comp_def)
  have rng: "references s ! nat p = ref_of s p" if "p \<in> set pages" for p
    using al [OF that] D(1) by (auto simp: ref_of_def allocatable_def)
  have eq: "release_pages pages s = (Inr (), bump_epoch cs (fold release_page cs s))"
    using page_counts_Inr [OF inv, of pages cs] al ok rng
    by (auto simp: release_pages_def cs_def)
  have dist: "distinct (map fst cs)" unfolding keys by simp
  have all: "\<forall>(p, c)\<in>set cs. allocatable s p \<and> 0 < c \<and> c \<le> ref_of s p"
    using al ok pos by (auto simp: cs_def)
  have "ref_of (fold release_page cs s) p = ref_of s p - int (count_list pages p)" for p
    using fold_release_ok [OF inv dist all]
    unfolding cs_def map_of_counts by (auto split: if_splits)
  with eq fold_release_ok [OF inv dist all] show thesis
    by (intro that [of "bump_epoch cs (fold release_page cs s)"]) auto
qed

text \<open>Exactly when the operations raise, and that they change nothing then.\<close>

lemma allocate_pages_raises:
  "(\<exists>e. allocate_pages n s = (Inl e, s)) \<longleftrightarrow> n < 0 \<or> n > num_free_pages s"
  by (auto simp: allocate_pages_def split: prod.splits)

lemma page_counts_raises:
  assumes "pa_inv s" and "\<not> (\<forall>p\<in>set pages. 0 < ref_of s p)"
  shows "page_counts s pages = Inl ValueError"
proof -
  have no: "page_counts s pages \<noteq> Inr cs" for cs
    using page_counts_Inr [OF assms(1)] assms(2) by blast
  show ?thesis
  proof (cases "page_counts s pages")
    case (Inl e)
    then show ?thesis by (auto simp: page_counts_def split: if_splits)
  next
    case (Inr cs)
    with no show ?thesis by blast
  qed
qed

lemma retain_pages_raises:
  assumes "pa_inv s" and "\<not> (\<forall>p\<in>set pages. 0 < ref_of s p)"
  shows "retain_pages pages s = (Inl ValueError, s)"
  using page_counts_raises [OF assms] by (simp add: retain_pages_def)

lemma release_pages_raises:
  assumes inv: "pa_inv s" and bad: "\<not> (\<forall>p\<in>set pages. int (count_list pages p) \<le> ref_of s p)"
  shows "release_pages pages s = (Inl ValueError, s)"
proof (cases "\<forall>p\<in>set pages. 0 < ref_of s p")
  case False
  then show ?thesis using page_counts_raises [OF inv] by (simp add: release_pages_def)
next
  case True
  then have al: "\<forall>p\<in>set pages. allocatable s p \<and> 0 < ref_of s p"
    using pa_invD(7) [OF inv] by force
  then have "references s ! nat p = ref_of s p" if "p \<in> set pages" for p
    using that pa_invD(1) [OF inv] by (auto simp: ref_of_def allocatable_def)
  moreover have "page_counts s pages =
      Inr (map (\<lambda>p. (p, int (count_list pages p))) (counter_keys pages))"
    using page_counts_Inr [OF inv] al by blast
  ultimately show ?thesis
    using bad by (auto simp: release_pages_def not_le)
qed

lemma pages_atomic:
  "atomic (allocate_pages n)" "atomic (retain_pages pages)" "atomic (release_pages pages)"
  by (auto simp: atomic_def allocate_pages_def retain_pages_def release_pages_def
      split: if_splits prod.splits sum.splits)

section \<open>The contract of a reference counted pool\<close>

datatype 'p pool_op = Alloc int | Retain "'p list" | Release "'p list"

text \<open>
  Running a sequence of calls against a pool, where a caller that gets an exception simply
  goes on.  The first component is the ledger an observer of the calls would keep: what was
  handed out and retained, less what was released.
\<close>

fun run_pool :: "(int \<Rightarrow> ('s, 'p list) eff) \<Rightarrow> ('p list \<Rightarrow> ('s, unit) eff) \<Rightarrow>
    ('p list \<Rightarrow> ('s, unit) eff) \<Rightarrow> 'p pool_op list \<Rightarrow> 's \<Rightarrow> ('p \<Rightarrow> int) \<times> 's" where
  "run_pool al re rl [] s = ((\<lambda>_. 0), s)"
| "run_pool al re rl (Alloc n # ops) s =
     (case al n s of (r, s1) \<Rightarrow> case run_pool al re rl ops s1 of (d, s2) \<Rightarrow>
        ((\<lambda>p. d p + (case r of Inl _ \<Rightarrow> 0 | Inr ps \<Rightarrow> int (count_list ps p))), s2))"
| "run_pool al re rl (Retain ps # ops) s =
     (case re ps s of (r, s1) \<Rightarrow> case run_pool al re rl ops s1 of (d, s2) \<Rightarrow>
        ((\<lambda>p. d p + (case r of Inl _ \<Rightarrow> 0 | Inr _ \<Rightarrow> int (count_list ps p))), s2))"
| "run_pool al re rl (Release ps # ops) s =
     (case rl ps s of (r, s1) \<Rightarrow> case run_pool al re rl ops s1 of (d, s2) \<Rightarrow>
        ((\<lambda>p. d p - (case r of Inl _ \<Rightarrow> 0 | Inr _ \<Rightarrow> int (count_list ps p))), s2))"

locale refcount_pool =
  fixes inv :: "'s \<Rightarrow> bool" and ref :: "'s \<Rightarrow> 'p \<Rightarrow> int"
    and al :: "int \<Rightarrow> ('s, 'p list) eff"
    and re :: "'p list \<Rightarrow> ('s, unit) eff"
    and rl :: "'p list \<Rightarrow> ('s, unit) eff"
  assumes alloc_ok: "inv s \<Longrightarrow> al n s = (Inr ps, s') \<Longrightarrow>
      inv s' \<and> distinct ps \<and> (\<forall>p\<in>set ps. ref s p = 0) \<and>
      (\<forall>p. ref s' p = ref s p + int (count_list ps p))"
    and retain_ok: "inv s \<Longrightarrow> re ps s = (Inr u, s') \<Longrightarrow>
      inv s' \<and> (\<forall>p. ref s' p = ref s p + int (count_list ps p))"
    and release_ok: "inv s \<Longrightarrow> rl ps s = (Inr u, s') \<Longrightarrow>
      inv s' \<and> (\<forall>p. ref s' p = ref s p - int (count_list ps p))"
    and release_possible: "inv s \<Longrightarrow> (\<forall>p\<in>set ps. int (count_list ps p) \<le> ref s p) \<Longrightarrow>
      \<exists>s'. rl ps s = (Inr (), s')"
    and ref_nonneg: "inv s \<Longrightarrow> 0 \<le> ref s p"
    and errors_atomic: "atomic (al n)" "atomic (re ps)" "atomic (rl ps)"
begin

lemma run_ledger: "inv s \<Longrightarrow> run_pool al re rl ops s = (d, s') \<Longrightarrow>
  inv s' \<and> (\<forall>p. ref s' p = ref s p + d p)"
proof (induction ops arbitrary: s d s')
  case Nil
  then show ?case by auto
next
  case (Cons op ops)
  have step: ?case if "inv s1" "\<forall>p. ref s1 p = ref s p + c p"
      "(case run_pool al re rl ops s1 of (d2, s2) \<Rightarrow> ((\<lambda>p. d2 p + c p), s2)) = (d, s')" for s1 c
    using that Cons.IH [of s1 _ s'] by (auto split: prod.splits)
  show ?case
  proof (cases op)
    case (Alloc n)
    obtain r s1 where r: "al n s = (r, s1)" by fastforce
    let ?c = "\<lambda>p. case r of Inl _ \<Rightarrow> 0 | Inr ps \<Rightarrow> int (count_list ps p)"
    have "inv s1 \<and> (\<forall>p. ref s1 p = ref s p + ?c p)"
      using r Cons.prems(1) alloc_ok [of s n _ s1] atomicD [OF errors_atomic(1)] by (cases r) auto
    then show ?thesis using Cons.prems(2) r Alloc by (intro step [where c = ?c]) auto
  next
    case (Retain ps)
    obtain r s1 where r: "re ps s = (r, s1)" by fastforce
    let ?c = "\<lambda>p. case r of Inl _ \<Rightarrow> 0 | Inr _ \<Rightarrow> int (count_list ps p)"
    have "inv s1 \<and> (\<forall>p. ref s1 p = ref s p + ?c p)"
      using r Cons.prems(1) retain_ok [of s ps _ s1] atomicD [OF errors_atomic(2)] by (cases r) auto
    then show ?thesis using Cons.prems(2) r Retain by (intro step [where c = ?c]) auto
  next
    case (Release ps)
    obtain r s1 where r: "rl ps s = (r, s1)" by fastforce
    let ?c = "\<lambda>p. - (case r of Inl _ \<Rightarrow> 0 | Inr _ \<Rightarrow> int (count_list ps p))"
    have "inv s1 \<and> (\<forall>p. ref s1 p = ref s p + ?c p)"
      using r Cons.prems(1) release_ok [of s ps _ s1] atomicD [OF errors_atomic(3)] by (cases r) auto
    then show ?thesis using Cons.prems(2) r Release by (intro step [where c = ?c]) auto
  qed
qed

lemma retain_then_release:
  assumes "inv s" and "re ps s = (Inr (), s1)"
  shows "\<exists>s2. rl ps s1 = (Inr (), s2) \<and> (\<forall>p. ref s2 p = ref s p)"
proof -
  have s1: "inv s1" "\<And>p. ref s1 p = ref s p + int (count_list ps p)"
    using retain_ok [OF assms] by auto
  then have "\<forall>p\<in>set ps. int (count_list ps p) \<le> ref s1 p"
    using ref_nonneg [OF assms(1)] by simp
  from release_possible [OF s1(1) this] obtain s2 where "rl ps s1 = (Inr (), s2)" ..
  with release_ok [OF s1(1) this] s1(2) show ?thesis by auto
qed

end

lemma allocate_pages_Inr:
  assumes "pa_inv s" and "allocate_pages n s = (Inr ps, s')"
  shows "pa_inv s' \<and> distinct ps \<and> int (length ps) = n \<and>
    (\<forall>p\<in>set ps. allocatable s p \<and> ref_of s p = 0) \<and>
    (\<forall>p. ref_of s' p = ref_of s p + int (count_list ps p))"
proof -
  have "0 \<le> n" "n \<le> num_free_pages s"
    using assms(2) by (auto simp: allocate_pages_def split: if_splits)
  from allocate_pages_ok [OF assms(1) this] assms(2) pa_invD(5) [OF assms(1)]
  show ?thesis by (metis Pair_inject subsetD sum.inject(2))
qed

interpretation page_pool: refcount_pool pa_inv ref_of allocate_pages retain_pages release_pages
proof (unfold_locales, goal_cases)
  case (1 s n ps s')
  then show ?case using allocate_pages_Inr by blast
next
  case (2 s ps u s')
  then have "\<forall>p\<in>set ps. allocatable s p \<and> 0 < ref_of s p"
    using retain_pages_raises [of s ps] pa_invD(7) [of s] by force
  from retain_pages_ok [OF 2(1) this] 2(2) show ?case by (metis Pair_inject)
next
  case (3 s ps u s')
  then have "\<forall>p\<in>set ps. int (count_list ps p) \<le> ref_of s p"
    using release_pages_raises [of s ps] by force
  from release_pages_ok [OF 3(1) this] 3(2) show ?case by (metis Pair_inject)
next
  case (4 s ps)
  then show ?case using release_pages_ok by blast
qed (simp_all add: pa_invD pages_atomic)

lemma init_pa_inv:
  assumes "PhysicalPageAllocator np rp = Inr s"
  shows "pa_inv s" "ref_of s p = 0"
  using assms
  by (auto simp: PhysicalPageAllocator_def pa_inv_def ref_of_def allocatable_def split: if_splits)

section \<open>Properties\<close>

text \<open>
  C38.  Take a freshly built allocator and any sequence of allocate, retain and release calls,
  some of which may raise.  Afterwards the free list holds exactly the unreferenced
  allocatable pages, each once, reserved pages were never handed out, and the reference count
  of every page is what was granted and retained less what was released.
\<close>

theorem page_ledger_invariant:
  assumes "PhysicalPageAllocator np rp = Inr s0"
    and "run_pool allocate_pages retain_pages release_pages ops s0 = (ledger, s)"
  shows "pa_inv s \<and> (\<forall>p. ref_of s p = ledger p)"
  using page_pool.run_ledger [OF init_pa_inv(1) [OF assms(1)] assms(2)] init_pa_inv(2) [OF assms(1)]
  by simp

theorem page_ledger_invariant_witness:
  "\<exists>s0 ledger s. PhysicalPageAllocator 4 1 = Inr s0 \<and>
     run_pool allocate_pages retain_pages release_pages
       [Alloc 2, Retain [1, 1], Release [1, 2], Release [3], Alloc 9] s0 = (ledger, s) \<and>
     pa_inv s \<and> (\<forall>p. ref_of s p = ledger p) \<and> ref_of s 1 = 2 \<and> free_pages s = [3, 2]"
proof -
  obtain s0 where s0: "PhysicalPageAllocator 4 1 = Inr s0"
    and s0_def: "s0 = \<lparr>num_pages = 4, reserved_pages = 1, references = [0, 0, 0, 0],
      free_pages = [3, 2, 1], ownership_epoch = 0\<rparr>"
    by (simp add: PhysicalPageAllocator_def upto_rec1 numeral_eq_Suc)
  obtain ledger s where run: "run_pool allocate_pages retain_pages release_pages
       [Alloc 2, Retain [1, 1], Release [1, 2], Release [3], Alloc 9] s0 = (ledger, s)"
    by fastforce
  have "ref_of s 1 = 2 \<and> free_pages s = [3, 2]"
    using run unfolding s0_def
    by (auto simp: allocate_pages_def num_free_pages_def bump_epoch_def retain_pages_def
        page_counts_def counter_keys_def release_pages_def release_page_def ref_of_def
        numeral_eq_Suc)
  with page_ledger_invariant [OF s0 run] s0 run show ?thesis by blast
qed

text \<open>
  Allocation never hands out a page somebody still holds: the pages of a successful
  allocation are distinct, allocatable, had no reference before and have exactly one after,
  and the counts of all other pages are unchanged.
\<close>

theorem allocate_never_aliases:
  assumes "pa_inv s" and "allocate_pages n s = (Inr pages, s')"
  shows "distinct pages \<and> int (length pages) = n \<and>
    (\<forall>p\<in>set pages. reserved_pages s \<le> p \<and> p < num_pages s \<and> ref_of s p = 0 \<and> ref_of s' p = 1) \<and>
    (\<forall>p. p \<notin> set pages \<longrightarrow> ref_of s' p = ref_of s p)"
  using allocate_pages_Inr [OF assms]
  by (auto simp: allocatable_def count_list_distinct)

theorem allocate_never_aliases_witness:
  "\<exists>s s'. pa_inv s \<and> allocate_pages 1 s = (Inr [2], s') \<and> ref_of s 2 = 0 \<and> ref_of s' 2 = 1"
proof -
  define s where "s = \<lparr>num_pages = 3, reserved_pages = 0, references = [1, 4, 0],
      free_pages = [2 :: int], ownership_epoch = 5\<rparr>"
  have inv: "pa_inv s"
    by (auto simp: pa_inv_def s_def ref_of_def allocatable_def nth_Cons' nat_eq_iff2)
  obtain s' where al: "allocate_pages 1 s = (Inr [2], s')"
    by (simp add: s_def allocate_pages_def num_free_pages_def bump_epoch_def)
  show ?thesis using inv al allocate_never_aliases [OF inv al] by auto
qed

text \<open>
  C39.  \<open>release_pages\<close> succeeds exactly when no page is given back more often than it is held
  (which includes every invalid, reserved or unallocated page); otherwise it raises
  \<open>ValueError\<close> and leaves the allocator untouched, so a failed release frees nothing.
\<close>

theorem release_pages_exact:
  assumes "pa_inv s"
  shows "if \<forall>p\<in>set pages. int (count_list pages p) \<le> ref_of s p
    then \<exists>s'. release_pages pages s = (Inr (), s') \<and> pa_inv s' \<and>
           (\<forall>p. ref_of s' p = ref_of s p - int (count_list pages p))
    else release_pages pages s = (Inl ValueError, s)"
  using release_pages_raises [OF assms, of pages] release_pages_ok [OF assms, of pages]
  by (metis (lifting))

theorem release_pages_exact_witness:
  "\<exists>s. pa_inv s \<and> release_pages [1, 1] s = (Inl ValueError, s) \<and>
     fst (release_pages [1, 0] s) = Inr ()"
proof -
  define s where "s = \<lparr>num_pages = 3, reserved_pages = 0, references = [1, 1, 0],
      free_pages = [2 :: int], ownership_epoch = 5\<rparr>"
  have inv: "pa_inv s"
    by (auto simp: pa_inv_def s_def ref_of_def allocatable_def nth_Cons' nat_eq_iff2)
  show ?thesis
    using inv release_pages_exact [OF inv, of "[1, 1]"] release_pages_exact [OF inv, of "[1, 0]"]
    by (intro exI [of _ s]) (auto simp: s_def ref_of_def simp flip: ex_simps)
qed

end
