(* ===== verification/Routing_Membership.thy ===== *)
theory Routing_Membership
  imports Prelude
begin

text \<open>
  \<open>engine/prefix_cache.py\<close>, the persistent AVL set behind the routing snapshots:
  \<open>_PrefixCacheRoutingMembershipNode\<close> and its functions, and the wrapper
  \<open>_PrefixCacheRoutingMembership\<close>.  A Python value \<open>node | None\<close> is a \<open>rtree\<close>, with
  \<open>RNone\<close> for \<open>None\<close>; keys are any linearly ordered type (block ids are byte strings).
  The rotations and the balancing step can raise, so they return a \<open>result\<close>; the lemmas
  show that they never do on the trees the operations build.
\<close>

section \<open>The model\<close>

datatype 'a rtree = RNone | RNode (block_id: 'a) "'a rtree" "'a rtree" int

fun routing_membership_height :: "'a rtree \<Rightarrow> int" where
  "routing_membership_height RNone = 0"
| "routing_membership_height (RNode _ _ _ h) = h"

definition make_routing_membership_node :: "'a \<Rightarrow> 'a rtree \<Rightarrow> 'a rtree \<Rightarrow> 'a rtree" where
  "make_routing_membership_node b l r =
     RNode b l r (1 + max (routing_membership_height l) (routing_membership_height r))"

fun rotate_routing_membership_left :: "'a rtree \<Rightarrow> 'a rtree result" where
  "rotate_routing_membership_left (RNode b l (RNode pb pl pr _) _) =
     Inr (make_routing_membership_node pb (make_routing_membership_node b l pl) pr)"
| "rotate_routing_membership_left (RNode b l RNone _) = Inl RuntimeError"
| "rotate_routing_membership_left RNone = Inl AttributeError"

fun rotate_routing_membership_right :: "'a rtree \<Rightarrow> 'a rtree result" where
  "rotate_routing_membership_right (RNode b (RNode pb pl pr _) r _) =
     Inr (make_routing_membership_node pb pl (make_routing_membership_node b pr r))"
| "rotate_routing_membership_right (RNode b RNone r _) = Inl RuntimeError"
| "rotate_routing_membership_right RNone = Inl AttributeError"

fun balance_routing_membership :: "'a rtree \<Rightarrow> 'a rtree result" where
  "balance_routing_membership RNone = Inl AttributeError"
| "balance_routing_membership (RNode b l r h) =
     (let balance = routing_membership_height l - routing_membership_height r in
      if balance > 1 then
        (case l of
           RNone \<Rightarrow> Inl RuntimeError
         | RNode _ ll lr _ \<Rightarrow>
             if routing_membership_height ll < routing_membership_height lr
             then bindR (rotate_routing_membership_left l) (\<lambda>l'.
                    rotate_routing_membership_right (make_routing_membership_node b l' r))
             else rotate_routing_membership_right (RNode b l r h))
      else if balance < - 1 then
        (case r of
           RNone \<Rightarrow> Inl RuntimeError
         | RNode _ rl rr _ \<Rightarrow>
             if routing_membership_height rr < routing_membership_height rl
             then bindR (rotate_routing_membership_right r) (\<lambda>r'.
                    rotate_routing_membership_left (make_routing_membership_node b l r'))
             else rotate_routing_membership_left (RNode b l r h))
      else Inr (RNode b l r h))"

fun insert_routing_membership :: "'a::linorder rtree \<Rightarrow> 'a \<Rightarrow> ('a rtree \<times> bool) result" where
  "insert_routing_membership RNone x = Inr (RNode x RNone RNone 1, True)"
| "insert_routing_membership (RNode b l r h) x =
     (if x = b then Inr (RNode b l r h, False)
      else if x < b then
        bindR (insert_routing_membership l x) (\<lambda>(l', inserted).
          if \<not> inserted then Inr (RNode b l r h, False)
          else bindR (balance_routing_membership (make_routing_membership_node b l' r))
                 (\<lambda>t. Inr (t, True)))
      else
        bindR (insert_routing_membership r x) (\<lambda>(r', inserted).
          if \<not> inserted then Inr (RNode b l r h, False)
          else bindR (balance_routing_membership (make_routing_membership_node b l r'))
                 (\<lambda>t. Inr (t, True))))"

text \<open>The loop of \<open>_minimum_routing_membership_node\<close>: the block id of the leftmost node.\<close>

fun minimum_routing_membership_node :: "'a rtree \<Rightarrow> 'a result" where
  "minimum_routing_membership_node RNone = Inl AttributeError"
| "minimum_routing_membership_node (RNode b l r h) =
     (if l = RNone then Inr b else minimum_routing_membership_node l)"

fun remove_routing_membership :: "'a::linorder rtree \<Rightarrow> 'a \<Rightarrow> ('a rtree \<times> bool) result" where
  "remove_routing_membership RNone x = Inr (RNone, False)"
| "remove_routing_membership (RNode b l r h) x =
     (if x < b then
        bindR (remove_routing_membership l x) (\<lambda>(l', removed).
          if \<not> removed then Inr (RNode b l r h, False)
          else bindR (balance_routing_membership (make_routing_membership_node b l' r))
                 (\<lambda>t. Inr (t, True)))
      else if x > b then
        bindR (remove_routing_membership r x) (\<lambda>(r', removed).
          if \<not> removed then Inr (RNode b l r h, False)
          else bindR (balance_routing_membership (make_routing_membership_node b l r'))
                 (\<lambda>t. Inr (t, True)))
      else if l = RNone then Inr (r, True)
      else if r = RNone then Inr (l, True)
      else
        bindR (minimum_routing_membership_node r) (\<lambda>succ.
        bindR (remove_routing_membership r succ) (\<lambda>(r', removed).
          if \<not> removed then Inl RuntimeError
          else bindR (balance_routing_membership (make_routing_membership_node succ l r'))
                 (\<lambda>t. Inr (t, True)))))"

record 'a routing_membership =
  root :: "'a rtree"
  live_blocks :: int

definition empty_membership :: "'a routing_membership" where
  "empty_membership = \<lparr>root = RNone, live_blocks = 0\<rparr>"

definition membership_height :: "'a routing_membership \<Rightarrow> int" where
  "membership_height m = routing_membership_height (root m)"

fun contains_node :: "'a::linorder rtree \<Rightarrow> 'a \<Rightarrow> bool" where
  "contains_node RNone x = False"
| "contains_node (RNode b l r h) x =
     (if x = b then True else contains_node (if x < b then l else r) x)"

definition contains :: "'a::linorder routing_membership \<Rightarrow> 'a \<Rightarrow> bool" where
  "contains m x = contains_node (root m) x"

definition membership_insert ::
    "'a::linorder routing_membership \<Rightarrow> 'a \<Rightarrow> 'a routing_membership result" where
  "membership_insert m x =
     bindR (insert_routing_membership (root m) x) (\<lambda>(t, inserted).
       if \<not> inserted then Inl RuntimeError
       else Inr \<lparr>root = t, live_blocks = live_blocks m + 1\<rparr>)"

definition membership_remove ::
    "'a::linorder routing_membership \<Rightarrow> 'a \<Rightarrow> 'a routing_membership result" where
  "membership_remove m x =
     bindR (remove_routing_membership (root m) x) (\<lambda>(t, removed).
       if \<not> removed then Inl RuntimeError
       else Inr \<lparr>root = t, live_blocks = live_blocks m - 1\<rparr>)"

section \<open>Order, stored heights and balance\<close>

fun keys :: "'a rtree \<Rightarrow> 'a set" where
  "keys RNone = {}"
| "keys (RNode b l r _) = insert b (keys l \<union> keys r)"

fun ordered :: "'a::linorder rtree \<Rightarrow> bool" where
  "ordered RNone = True"
| "ordered (RNode b l r _) =
     (ordered l \<and> ordered r \<and> (\<forall>x\<in>keys l. x < b) \<and> (\<forall>x\<in>keys r. b < x))"

fun balanced :: "'a rtree \<Rightarrow> bool" where
  "balanced RNone = True"
| "balanced (RNode b l r h) =
     (balanced l \<and> balanced r \<and>
      \<bar>routing_membership_height l - routing_membership_height r\<bar> \<le> 1 \<and>
      h = 1 + max (routing_membership_height l) (routing_membership_height r))"

abbreviation hgt :: "'a rtree \<Rightarrow> int" where "hgt \<equiv> routing_membership_height"
abbreviation mknode :: "'a \<Rightarrow> 'a rtree \<Rightarrow> 'a rtree \<Rightarrow> 'a rtree" where
  "mknode \<equiv> make_routing_membership_node"

lemma finite_keys [simp]: "finite (keys t)"
  by (induction t) auto

lemma mknode_simps [simp]:
  "hgt (mknode b l r) = 1 + max (hgt l) (hgt r)"
  "keys (mknode b l r) = insert b (keys l \<union> keys r)"
  by (simp_all add: make_routing_membership_node_def)

lemma hgt_nonneg: "balanced t \<Longrightarrow> 0 \<le> hgt t"
  by (induction t) auto

lemma hgt_0_iff: "balanced t \<Longrightarrow> hgt t = 0 \<longleftrightarrow> t = RNone"
  by (cases t) (auto dest: hgt_nonneg)

lemma hgt_pos: "balanced t \<Longrightarrow> 0 < hgt t \<Longrightarrow> \<exists>b l r h. t = RNode b l r h"
  by (cases t) auto

text \<open>
  The balancing step on two balanced subtrees whose heights differ by at most two never
  raises, keeps keys and order, and gives a balanced tree of at most the old height.
\<close>

lemma balance_left_heavy:
  assumes bal: "balanced l" "balanced r" and h: "hgt l = hgt r + 2"
  shows "\<exists>t. balance_routing_membership (mknode b l r) = Inr t \<and> balanced t \<and>
    keys t = insert b (keys l \<union> keys r) \<and> (ordered (mknode b l r) \<longrightarrow> ordered t) \<and>
    (hgt t = hgt l \<or> hgt t = hgt l + 1)"
proof -
  have "0 < hgt l" using h hgt_nonneg [OF bal(2)] by simp
  then obtain lb ll lr lh where l: "l = RNode lb ll lr lh" using hgt_pos [OF bal(1)] by blast
  show ?thesis
  proof (cases "hgt ll < hgt lr")
    case False
    with bal h l show ?thesis
      by (auto simp: make_routing_membership_node_def)
  next
    case True
    then have "0 < hgt lr" using bal(1) l hgt_nonneg [of ll] by auto
    then obtain mb ml mr mh where lr: "lr = RNode mb ml mr mh"
      using hgt_pos [of lr] bal(1) l by auto
    with True bal h l show ?thesis
      by (auto simp: make_routing_membership_node_def)
  qed
qed

lemma balance_right_heavy:
  assumes bal: "balanced l" "balanced r" and h: "hgt r = hgt l + 2"
  shows "\<exists>t. balance_routing_membership (mknode b l r) = Inr t \<and> balanced t \<and>
    keys t = insert b (keys l \<union> keys r) \<and> (ordered (mknode b l r) \<longrightarrow> ordered t) \<and>
    (hgt t = hgt r \<or> hgt t = hgt r + 1)"
proof -
  have "0 < hgt r" using h hgt_nonneg [OF bal(1)] by simp
  then obtain rb rl rr rh where r: "r = RNode rb rl rr rh" using hgt_pos [OF bal(2)] by blast
  show ?thesis
  proof (cases "hgt rr < hgt rl")
    case False
    with bal h r show ?thesis
      by (auto simp: make_routing_membership_node_def)
  next
    case True
    then have "0 < hgt rl" using bal(2) r hgt_nonneg [of rr] by auto
    then obtain mb ml mr mh where rl: "rl = RNode mb ml mr mh"
      using hgt_pos [of rl] bal(2) r by auto
    with True bal h r show ?thesis
      by (auto simp: make_routing_membership_node_def)
  qed
qed

lemma balance_mknode:
  assumes "balanced l" "balanced r" "\<bar>hgt l - hgt r\<bar> \<le> 2"
  obtains t where "balance_routing_membership (mknode b l r) = Inr t" "balanced t"
    "keys t = insert b (keys l \<union> keys r)" "ordered (mknode b l r) \<Longrightarrow> ordered t"
    "\<bar>hgt l - hgt r\<bar> \<le> 1 \<Longrightarrow> hgt t = 1 + max (hgt l) (hgt r)"
    "max (hgt l) (hgt r) \<le> hgt t" "hgt t \<le> 1 + max (hgt l) (hgt r)"
proof -
  consider "\<bar>hgt l - hgt r\<bar> \<le> 1" | "hgt l = hgt r + 2" | "hgt r = hgt l + 2"
    using assms(3) by linarith
  then show thesis
  proof cases
    case 1
    then have "\<not> hgt l - hgt r > 1" "\<not> hgt l - hgt r < - 1" by linarith+
    then have "balance_routing_membership (mknode b l r) = Inr (mknode b l r)"
      by (simp add: make_routing_membership_node_def Let_def)
    moreover have "balanced (mknode b l r)"
      using 1 assms(1,2) by (simp add: make_routing_membership_node_def)
    ultimately show thesis by (intro that [of "mknode b l r"]) auto
  next
    case 2
    with balance_left_heavy [OF assms(1,2) 2, of b] show thesis by (auto intro: that)
  next
    case 3
    with balance_right_heavy [OF assms(1,2) 3, of b] show thesis by (auto intro: that)
  qed
qed

lemma ordered_mknode: "ordered (mknode b l r) \<longleftrightarrow>
  ordered l \<and> ordered r \<and> (\<forall>x\<in>keys l. x < b) \<and> (\<forall>x\<in>keys r. b < x)"
  by (simp add: make_routing_membership_node_def)

section \<open>Insertion and removal\<close>

text \<open>
  The height of a node whose one subtree (old height \<open>c\<close>, new height \<open>a\<close>) grew or shrank by at
  most one, after balancing.
\<close>

lemma height_step:
  fixes a b c t h :: int
  assumes "\<bar>a - b\<bar> \<le> 1 \<Longrightarrow> t = 1 + max a b" "max a b \<le> t" "t \<le> 1 + max a b"
    and "a = c \<or> a = c + 1" "h = 1 + max c b" "\<bar>c - b\<bar> \<le> 1"
  shows "t = h \<or> t = h + 1"
  using assms by (cases "\<bar>a - b\<bar> \<le> 1") (auto simp: max_def split: if_splits)

lemma height_step_right:
  fixes a b c t h :: int
  assumes "\<bar>b - a\<bar> \<le> 1 \<Longrightarrow> t = 1 + max b a" "max b a \<le> t" "t \<le> 1 + max b a"
    and "a = c \<or> a = c + 1" "h = 1 + max b c" "\<bar>b - c\<bar> \<le> 1"
  shows "t = h \<or> t = h + 1"
  using assms by (cases "\<bar>b - a\<bar> \<le> 1") (auto simp: max_def split: if_splits)

lemma height_step_down:
  fixes a b c t h :: int
  assumes "\<bar>a - b\<bar> \<le> 1 \<Longrightarrow> t = 1 + max a b" "max a b \<le> t" "t \<le> 1 + max a b"
    and "a = c \<or> a = c - 1" "h = 1 + max c b" "\<bar>c - b\<bar> \<le> 1"
  shows "t = h \<or> t = h - 1"
  using assms by (cases "\<bar>a - b\<bar> \<le> 1") (auto simp: max_def split: if_splits)

lemma height_step_down_right:
  fixes a b c t h :: int
  assumes "\<bar>b - a\<bar> \<le> 1 \<Longrightarrow> t = 1 + max b a" "max b a \<le> t" "t \<le> 1 + max b a"
    and "a = c \<or> a = c - 1" "h = 1 + max b c" "\<bar>b - c\<bar> \<le> 1"
  shows "t = h \<or> t = h - 1"
  using assms by (cases "\<bar>b - a\<bar> \<le> 1") (auto simp: max_def split: if_splits)

text \<open>
  Insertion of a present key returns the tree itself; of a new key, a tree with the key added.
\<close>

lemma insert_correct:
  assumes "balanced t" "ordered t"
  shows "\<exists>t'. insert_routing_membership t x = Inr (t', x \<notin> keys t) \<and> balanced t' \<and> ordered t' \<and>
    keys t' = insert x (keys t) \<and> (hgt t' = hgt t \<or> hgt t' = hgt t + 1)"
  using assms
proof (induction t)
  case RNone
  then show ?case by simp
next
  case (RNode b l r h)
  have bl: "balanced l" "balanced r" "ordered l" "ordered r" using RNode.prems by auto
  have h: "h = 1 + max (hgt l) (hgt r)" "\<bar>hgt l - hgt r\<bar> \<le> 1" using RNode.prems by auto
  consider "x = b" | "x < b" | "b < x" by fastforce
  then show ?case
  proof cases
    case 1
    then show ?thesis using RNode.prems by auto
  next
    case 2
    from RNode.IH(1) [OF bl(1,3)] obtain l' where l':
      "insert_routing_membership l x = Inr (l', x \<notin> keys l)" "balanced l'" "ordered l'"
      "keys l' = insert x (keys l)" "hgt l' = hgt l \<or> hgt l' = hgt l + 1" by blast
    have mem: "x \<in> keys (RNode b l r h) \<longleftrightarrow> x \<in> keys l" using 2 RNode.prems(2) by auto
    have d: "\<bar>hgt l' - hgt r\<bar> \<le> 2" using l'(5) h(2) by linarith
    obtain t where t: "balance_routing_membership (mknode b l' r) = Inr t" "balanced t"
      "keys t = insert b (keys l' \<union> keys r)" "ordered (mknode b l' r) \<Longrightarrow> ordered t"
      "\<bar>hgt l' - hgt r\<bar> \<le> 1 \<Longrightarrow> hgt t = 1 + max (hgt l') (hgt r)"
      "max (hgt l') (hgt r) \<le> hgt t" "hgt t \<le> 1 + max (hgt l') (hgt r)"
      using balance_mknode [OF l'(2) bl(2) d, of b] by blast
    have "ordered t" using t(4) l' RNode.prems(2) 2 by (auto simp: ordered_mknode)
    moreover have "hgt t = h \<or> hgt t = h + 1"
      using height_step [OF t(5-7)] l'(5) h by blast
    moreover have "keys t = insert x (keys (RNode b l r h))" using t(3) l'(4) by auto
    ultimately show ?thesis
      using 2 mem l'(1) t(1,2) RNode.prems by (cases "x \<in> keys l") auto
  next
    case 3
    from RNode.IH(2) [OF bl(2,4)] obtain r' where r':
      "insert_routing_membership r x = Inr (r', x \<notin> keys r)" "balanced r'" "ordered r'"
      "keys r' = insert x (keys r)" "hgt r' = hgt r \<or> hgt r' = hgt r + 1" by blast
    have mem: "x \<in> keys (RNode b l r h) \<longleftrightarrow> x \<in> keys r" using 3 RNode.prems(2) by auto
    have d: "\<bar>hgt l - hgt r'\<bar> \<le> 2" using r'(5) h(2) by linarith
    obtain t where t: "balance_routing_membership (mknode b l r') = Inr t" "balanced t"
      "keys t = insert b (keys l \<union> keys r')" "ordered (mknode b l r') \<Longrightarrow> ordered t"
      "\<bar>hgt l - hgt r'\<bar> \<le> 1 \<Longrightarrow> hgt t = 1 + max (hgt l) (hgt r')"
      "max (hgt l) (hgt r') \<le> hgt t" "hgt t \<le> 1 + max (hgt l) (hgt r')"
      using balance_mknode [OF bl(1) r'(2) d, of b] by blast
    have "ordered t" using t(4) r' RNode.prems(2) 3 by (auto simp: ordered_mknode)
    moreover have "hgt t = h \<or> hgt t = h + 1"
      using height_step_right [OF t(5-7)] r'(5) h by blast
    moreover have "keys t = insert x (keys (RNode b l r h))" using t(3) r'(4) by auto
    ultimately show ?thesis
      using 3 mem r'(1) t(1,2) RNode.prems by (cases "x \<in> keys r") auto
  qed
qed

lemma minimum_correct:
  "ordered t \<Longrightarrow> t \<noteq> RNone \<Longrightarrow>
   \<exists>m. minimum_routing_membership_node t = Inr m \<and> m \<in> keys t \<and> (\<forall>x\<in>keys t. m \<le> x)"
proof (induction t)
  case RNone
  then show ?case by simp
next
  case (RNode b l r h)
  show ?case
  proof (cases "l = RNone")
    case True
    then show ?thesis using RNode.prems by (auto intro: less_imp_le)
  next
    case False
    with RNode obtain m where m: "minimum_routing_membership_node l = Inr m" "m \<in> keys l"
      "\<forall>x\<in>keys l. m \<le> x" by auto
    then have "m < b" using RNode.prems by auto
    with m False RNode.prems show ?thesis by fastforce
  qed
qed

lemma remove_correct:
  assumes "balanced t" "ordered t"
  shows "\<exists>t'. remove_routing_membership t x = Inr (t', x \<in> keys t) \<and> balanced t' \<and> ordered t' \<and>
    keys t' = keys t - {x} \<and> (hgt t' = hgt t \<or> hgt t' = hgt t - 1)"
  using assms
proof (induction t arbitrary: x)
  case RNone
  then show ?case by simp
next
  case (RNode b l r h)
  have bl: "balanced l" "balanced r" "ordered l" "ordered r" using RNode.prems by auto
  have h: "h = 1 + max (hgt l) (hgt r)" "\<bar>hgt l - hgt r\<bar> \<le> 1" using RNode.prems by auto
  have right: "\<exists>t. balance_routing_membership (mknode c l r') = Inr t \<and> balanced t \<and> ordered t \<and>
      keys t = insert c (keys l \<union> keys r') \<and> (hgt t = h \<or> hgt t = h - 1)"
    if r': "balanced r'" "ordered r'" "hgt r' = hgt r \<or> hgt r' = hgt r - 1"
      and c: "\<forall>x\<in>keys l. x < c" "\<forall>x\<in>keys r'. c < x" for r' c
  proof -
    have d: "\<bar>hgt l - hgt r'\<bar> \<le> 2" using r'(3) h(2) by linarith
    show ?thesis
      using balance_mknode [OF bl(1) r'(1) d, of c] height_step_down_right [OF _ _ _ r'(3) h]
        c r'(2) bl(3) by (metis ordered_mknode)
  qed
  consider "x < b" | "b < x" | "x = b" by fastforce
  then show ?case
  proof cases
    case 1
    from RNode.IH(1) [OF bl(1,3)] obtain l' where l':
      "remove_routing_membership l x = Inr (l', x \<in> keys l)" "balanced l'" "ordered l'"
      "keys l' = keys l - {x}" "hgt l' = hgt l \<or> hgt l' = hgt l - 1" by blast
    have mem: "x \<in> keys (RNode b l r h) \<longleftrightarrow> x \<in> keys l" using 1 RNode.prems(2) by auto
    have d: "\<bar>hgt l' - hgt r\<bar> \<le> 2" using l'(5) h(2) by linarith
    have "ordered (mknode b l' r)" using l' RNode.prems(2) by (auto simp: ordered_mknode)
    then obtain t where t: "balance_routing_membership (mknode b l' r) = Inr t" "balanced t"
      "keys t = insert b (keys l' \<union> keys r)" "ordered t" "hgt t = h \<or> hgt t = h - 1"
      using balance_mknode [OF l'(2) bl(2) d, of b] height_step_down [OF _ _ _ l'(5) h] by metis
    moreover have "x \<notin> keys r" using 1 RNode.prems(2) by force
    then have "keys t = keys (RNode b l r h) - {x}" using t(3) l'(4) 1 by auto
    ultimately show ?thesis
      using 1 mem l'(1) RNode.prems by (cases "x \<in> keys l") auto
  next
    case 2
    from RNode.IH(2) [OF bl(2,4)] obtain r' where r':
      "remove_routing_membership r x = Inr (r', x \<in> keys r)" "balanced r'" "ordered r'"
      "keys r' = keys r - {x}" "hgt r' = hgt r \<or> hgt r' = hgt r - 1" by blast
    have mem: "x \<in> keys (RNode b l r h) \<longleftrightarrow> x \<in> keys r" using 2 RNode.prems(2) by auto
    obtain t where t: "balance_routing_membership (mknode b l r') = Inr t" "balanced t" "ordered t"
      "keys t = insert b (keys l \<union> keys r')" "hgt t = h \<or> hgt t = h - 1"
      using right [OF r'(2,3,5), of b] RNode.prems(2) r'(4) by auto
    moreover have "x \<notin> keys l" using 2 RNode.prems(2) by force
    then have "keys t = keys (RNode b l r h) - {x}" using t(4) r'(4) 2 by auto
    ultimately show ?thesis
      using 2 mem r'(1) RNode.prems by (cases "x \<in> keys r") auto
  next
    case 3
    show ?thesis
    proof (cases "l = RNone \<or> r = RNone")
      case True
      then show ?thesis using 3 RNode.prems hgt_nonneg [OF bl(1)] hgt_nonneg [OF bl(2)] by auto
    next
      case False
      obtain m where m: "minimum_routing_membership_node r = Inr m" "m \<in> keys r"
        "\<forall>x\<in>keys r. m \<le> x" using minimum_correct [OF bl(4)] False by blast
      from RNode.IH(2) [OF bl(2,4), of m] m(2) obtain r' where r':
        "remove_routing_membership r m = Inr (r', True)" "balanced r'" "ordered r'"
        "keys r' = keys r - {m}" "hgt r' = hgt r \<or> hgt r' = hgt r - 1" by auto
      have "b < m" using m(2) RNode.prems(2) by auto
      then have c: "\<forall>x\<in>keys l. x < m" "\<forall>x\<in>keys r'. m < x"
        using RNode.prems(2) m(3) r'(4) by (auto intro: less_trans order_le_neq_trans)
      obtain t where t: "balance_routing_membership (mknode m l r') = Inr t" "balanced t" "ordered t"
        "keys t = insert m (keys l \<union> keys r')" "hgt t = h \<or> hgt t = h - 1"
        using right [OF r'(2,3,5) c] by auto
      moreover have "keys t = keys (RNode b l r h) - {b}"
        using t(4) r'(4) m(2) RNode.prems(2) by auto
      ultimately show ?thesis using 3 False m(1) r'(1) by auto
    qed
  qed
qed

lemma contains_node_correct: "ordered t \<Longrightarrow> contains_node t x \<longleftrightarrow> x \<in> keys t"
  by (induction t) (auto dest: less_asym)

text \<open>A balanced tree of height \<open>h\<close> holds at least \<open>2 ^ (h div 2) - 1\<close> keys.\<close>

lemma card_keys_node:
  assumes "ordered (RNode b l r h)"
  shows "card (keys (RNode b l r h)) = Suc (card (keys l) + card (keys r))"
proof -
  have "b \<notin> keys l \<union> keys r" "keys l \<inter> keys r = {}" using assms by fastforce+
  then show ?thesis by (simp add: card_Un_disjoint)
qed

lemma balanced_size:
  "balanced t \<Longrightarrow> ordered t \<Longrightarrow> (2::nat) ^ (nat (hgt t) div 2) \<le> card (keys t) + 1"
proof (induction t)
  case RNone
  then show ?case by simp
next
  case (RNode b l r h)
  have bl: "balanced l" "balanced r" "ordered l" "ordered r" using RNode.prems by auto
  have h: "h = 1 + max (hgt l) (hgt r)" "\<bar>hgt l - hgt r\<bar> \<le> 1" using RNode.prems by auto
  note nn = hgt_nonneg [OF bl(1)] hgt_nonneg [OF bl(2)]
  have half: "nat h div 2 \<le> Suc (nat (hgt x) div 2)" if "x = l \<or> x = r" for x
    using that h nn by (auto simp: max_def split: if_splits)
  have pow: "(2::nat) ^ (nat h div 2) \<le> 2 * 2 ^ (nat (hgt x) div 2)" if "x = l \<or> x = r" for x
    using power_increasing [OF half [OF that], of "2::nat"] by simp
  show ?case
    unfolding card_keys_node [OF RNode.prems(2)]
    using pow [of l] pow [of r] RNode.IH(1) [OF bl(1,3)] RNode.IH(2) [OF bl(2,4)] by simp
qed

section \<open>The contract of a persistent membership set\<close>

text \<open>
  What a routing snapshot and the prefix index rely on: \<open>insert\<close> and \<open>remove\<close> return new
  values and raise exactly on a duplicate and on a missing key.
\<close>

locale membership_set =
  fixes inv :: "'m \<Rightarrow> bool" and elems :: "'m \<Rightarrow> 'k set"
    and emp :: 'm and mem :: "'m \<Rightarrow> 'k \<Rightarrow> bool"
    and ins :: "'m \<Rightarrow> 'k \<Rightarrow> 'm result" and rem :: "'m \<Rightarrow> 'k \<Rightarrow> 'm result"
    and sz :: "'m \<Rightarrow> int"
  assumes emp_ok: "inv emp" "elems emp = {}"
    and mem_ok: "inv m \<Longrightarrow> mem m x \<longleftrightarrow> x \<in> elems m"
    and sz_ok: "inv m \<Longrightarrow> finite (elems m) \<and> sz m = int (card (elems m))"
    and ins_new: "inv m \<Longrightarrow> x \<notin> elems m \<Longrightarrow>
      \<exists>m'. ins m x = Inr m' \<and> inv m' \<and> elems m' = insert x (elems m)"
    and ins_dup: "inv m \<Longrightarrow> x \<in> elems m \<Longrightarrow> ins m x = Inl RuntimeError"
    and rem_old: "inv m \<Longrightarrow> x \<in> elems m \<Longrightarrow>
      \<exists>m'. rem m x = Inr m' \<and> inv m' \<and> elems m' = elems m - {x}"
    and rem_missing: "inv m \<Longrightarrow> x \<notin> elems m \<Longrightarrow> rem m x = Inl RuntimeError"
begin

text \<open>Building a membership set from the blocks of an index, in any order.\<close>

lemma build_ok: "distinct xs \<Longrightarrow> inv m \<Longrightarrow> set xs \<inter> elems m = {} \<Longrightarrow>
  \<exists>m'. foldl (\<lambda>r x. bindR r (\<lambda>m. ins m x)) (Inr m) xs = Inr m' \<and> inv m' \<and>
    elems m' = elems m \<union> set xs"
proof (induction xs arbitrary: m)
  case Nil
  then show ?case by simp
next
  case (Cons x xs)
  then obtain m1 where m1: "ins m x = Inr m1" "inv m1" "elems m1 = insert x (elems m)"
    using ins_new [of m x] by auto
  with Cons.IH [of m1] Cons.prems show ?case by auto
qed

lemma insert_remove_roundtrip:
  assumes "inv m" and "x \<notin> elems m"
  shows "\<exists>m1 m2. ins m x = Inr m1 \<and> rem m1 x = Inr m2 \<and> inv m2 \<and>
    elems m2 = elems m \<and> sz m2 = sz m \<and> (\<forall>y. mem m2 y = mem m y)"
proof -
  obtain m1 where m1: "ins m x = Inr m1" "inv m1" "elems m1 = insert x (elems m)"
    using ins_new [OF assms] by auto
  obtain m2 where m2: "rem m1 x = Inr m2" "inv m2" "elems m2 = elems m1 - {x}"
    using rem_old [OF m1(2), of x] m1(3) by auto
  have "elems m2 = elems m" using m1(3) m2(3) assms(2) by auto
  with m1 m2 show ?thesis using sz_ok [OF m2(2)] sz_ok [OF assms(1)] mem_ok assms(1) by auto
qed

end

definition membership_inv :: "'a::linorder routing_membership \<Rightarrow> bool" where
  "membership_inv m \<longleftrightarrow>
     balanced (root m) \<and> ordered (root m) \<and> live_blocks m = int (card (keys (root m)))"

abbreviation member_keys :: "'a routing_membership \<Rightarrow> 'a set" where
  "member_keys m \<equiv> keys (root m)"

interpretation routing: membership_set membership_inv "\<lambda>m. keys (root m)" empty_membership
  contains membership_insert membership_remove live_blocks
proof (unfold_locales, goal_cases)
  case (5 m x)
  then show ?case
    using insert_correct [of "root m" x] by (auto simp: membership_inv_def membership_insert_def)
next
  case (6 m x)
  then show ?case
    using insert_correct [of "root m" x] by (auto simp: membership_inv_def membership_insert_def)
next
  case (7 m x)
  then have "0 < card (keys (root m))" by (auto simp: card_gt_0_iff)
  with 7 show ?case
    using remove_correct [of "root m" x]
    by (auto simp: membership_inv_def membership_remove_def of_nat_diff Suc_le_eq)
next
  case (8 m x)
  then show ?case
    using remove_correct [of "root m" x] by (auto simp: membership_inv_def membership_remove_def)
qed (simp_all add: membership_inv_def empty_membership_def contains_def contains_node_correct)

section \<open>Properties\<close>

text \<open>
  C40.  The persistent AVL set refines a finite set of block ids: on a well-formed membership,
  \<open>contains\<close> is membership; \<open>insert\<close> of a new id and \<open>remove\<close> of a present id return a
  well-formed membership (ordered, balanced, cached heights and \<open>live_blocks\<close> exact) for the
  set with that id added or removed; a duplicate insert or a missing remove raises
  \<open>RuntimeError\<close>.  No other exception of the rotations or of the balancing can occur.
\<close>

theorem routing_membership_refines_set:
  assumes "membership_inv m"
  shows "(contains m x \<longleftrightarrow> x \<in> member_keys m) \<and>
    (if x \<in> member_keys m
     then membership_insert m x = Inl RuntimeError \<and>
       (\<exists>m'. membership_remove m x = Inr m' \<and> membership_inv m' \<and>
          member_keys m' = member_keys m - {x})
     else membership_remove m x = Inl RuntimeError \<and>
       (\<exists>m'. membership_insert m x = Inr m' \<and> membership_inv m' \<and>
          member_keys m' = insert x (member_keys m)))"
  using routing.mem_ok [OF assms] routing.ins_new [OF assms] routing.ins_dup [OF assms]
    routing.rem_old [OF assms] routing.rem_missing [OF assms] by simp

theorem routing_membership_refines_set_witness:
  "\<exists>m m'. membership_inv m \<and> member_keys m = {1::int, 2, 3} \<and>
     membership_remove m 2 = Inr m' \<and> membership_inv m' \<and> member_keys m' = {1, 3} \<and>
     \<not> contains m 7"
proof -
  define m where "m = \<lparr>root = RNode (2::int) (RNode 1 RNone RNone 1) (RNode 3 RNone RNone 1) 2,
    live_blocks = 3\<rparr>"
  have inv: "membership_inv m" by (simp add: membership_inv_def m_def)
  have keys: "member_keys m = {1, 2, 3}" by (auto simp: m_def)
  have "\<not> contains m 7" using routing_membership_refines_set [OF inv, of 7] keys by auto
  moreover obtain m' where "membership_remove m 2 = Inr m'" "membership_inv m'"
      "member_keys m' = {1, 2, 3} - {2}"
    using routing_membership_refines_set [OF inv, of 2] keys by auto
  moreover have "{1, 2, 3} - {2} = {1, 3 :: int}" by auto
  ultimately show ?thesis using inv keys by metis
qed

text \<open>
  A membership lookup takes logarithmically many steps: a well-formed membership with
  \<open>n\<close> live blocks has a cached height \<open>h\<close> with \<open>2 ^ (h div 2) \<le> n + 1\<close>.
\<close>

theorem routing_membership_height_bound:
  assumes "membership_inv m"
  shows "(2::int) ^ (nat (membership_height m) div 2) \<le> live_blocks m + 1"
proof -
  have "(2::nat) ^ (nat (hgt (root m)) div 2) \<le> card (member_keys m) + 1"
    using assms balanced_size by (auto simp: membership_inv_def)
  then have "int (2 ^ (nat (hgt (root m)) div 2)) \<le> int (card (member_keys m) + 1)"
    by (rule zle_int [THEN iffD2])
  then show ?thesis using assms by (simp add: membership_inv_def membership_height_def)
qed

theorem routing_membership_height_bound_witness:
  "(2::int) ^ (nat (membership_height
      \<lparr>root = RNode (2::int) (RNode 1 RNone RNone 1) (RNode 3 RNone RNone 1) 2,
       live_blocks = 3\<rparr>) div 2) \<le> 4"
  using routing_membership_height_bound
    [of "\<lparr>root = RNode (2::int) (RNode 1 RNone RNone 1) (RNode 3 RNone RNone 1) 2, live_blocks = 3\<rparr>"]
  by (simp add: membership_inv_def)

end
