(* ===== verification/Sampling_Params.thy ===== *)
theory Sampling_Params
  imports Prelude Complex_Main
begin

text \<open>
  \<open>sampling_params.py\<close>: the request parameters, their validation in \<open>__post_init__\<close>, and the
  resolution of the end-of-sequence ids.  Python floats are \<open>pyfloat\<close>: a finite value, an
  infinity, or not-a-number, with the comparisons of IEEE arithmetic (every comparison with
  not-a-number is false).
\<close>

section \<open>Floats as the code compares them\<close>

datatype pyfloat = Fin rat | PosInf | NegInf | NaN

fun flt_less :: "pyfloat \<Rightarrow> pyfloat \<Rightarrow> bool" where
  "flt_less (Fin a) (Fin b) = (a < b)"
| "flt_less (Fin a) PosInf = True"
| "flt_less NegInf (Fin b) = True"
| "flt_less NegInf PosInf = True"
| "flt_less _ _ = False"

definition flt_le :: "pyfloat \<Rightarrow> pyfloat \<Rightarrow> bool" where
  "flt_le a b \<longleftrightarrow> flt_less a b \<or> (a = b \<and> a \<noteq> NaN)"

text \<open>\<open>x != c\<close> for a constant \<open>c\<close> that is not NaN.\<close>

definition flt_neq :: "pyfloat \<Rightarrow> rat \<Rightarrow> bool" where
  "flt_neq a c \<longleftrightarrow> a \<noteq> Fin c"

section \<open>Parameters\<close>

datatype eos_arg = EosNone | EosInt int | EosSeq "int list"

record sampling_params =
  temperature :: pyfloat
  top_p :: pyfloat
  top_k :: int
  presence_penalty :: pyfloat
  repetition_penalty :: pyfloat
  max_tokens :: int
  ignore_eos :: bool
  eos_token_ids :: "int list"
  logprobs :: "int option"
  benchmark_forced_token_ids :: "int list option"

text \<open>
  The constructor with its \<open>__post_init__\<close>: the arguments as the caller gives them (the
  end-of-sequence ids still unnormalised), the checks in the source's order.  Token ids are
  ints here, so the \<open>type(token_id) is not int\<close> test is void.
\<close>

definition normalize_eos :: "eos_arg \<Rightarrow> int list" where
  "normalize_eos v =
     (case v of EosNone \<Rightarrow> [] | EosInt t \<Rightarrow> [t] | EosSeq ts \<Rightarrow> counter_keys ts)"

definition SamplingParams :: "pyfloat \<Rightarrow> pyfloat \<Rightarrow> int \<Rightarrow> pyfloat \<Rightarrow> pyfloat \<Rightarrow> int \<Rightarrow> bool \<Rightarrow>
    eos_arg \<Rightarrow> int option \<Rightarrow> int list option \<Rightarrow> sampling_params result" where
  "SamplingParams temp topp topk pres rept maxt ign eos lp forced =
     (if flt_less temp (Fin 0) then Inl ValueError
      else if \<not> (flt_less (Fin 0) topp \<and> flt_le topp (Fin 1)) then Inl ValueError
      else if topk < 0 then Inl ValueError
      else if \<not> (flt_le (Fin (- 2)) pres \<and> flt_le pres (Fin 2)) then Inl ValueError
      else if \<not> flt_less (Fin 0) rept then Inl ValueError
      else if maxt \<le> 0 then Inl ValueError
      else if \<exists>t\<in>set (normalize_eos eos). t < 0 then Inl ValueError
      else if (case lp of None \<Rightarrow> False | Some n \<Rightarrow> n < 0) then Inl ValueError
      else if (case forced of None \<Rightarrow> False
               | Some vs \<Rightarrow> \<not> ign \<or> int (length vs) \<noteq> maxt \<or> (\<exists>t\<in>set vs. t < 0))
      then Inl ValueError
      else Inr \<lparr>temperature = temp, top_p = topp, top_k = topk, presence_penalty = pres,
                repetition_penalty = rept, max_tokens = maxt, ignore_eos = ign,
                eos_token_ids = normalize_eos eos, logprobs = lp,
                benchmark_forced_token_ids = forced\<rparr>)"

definition validate_for_vocab :: "sampling_params \<Rightarrow> int \<Rightarrow> unit result" where
  "validate_for_vocab p vocab_size =
     (case benchmark_forced_token_ids p of
        None \<Rightarrow> Inr ()
      | Some vs \<Rightarrow> if \<exists>t\<in>set vs. t \<ge> vocab_size then Inl ValueError else Inr ())"

definition as_eos_token_id_set :: "eos_arg \<Rightarrow> int set" where
  "as_eos_token_id_set v = (case v of EosNone \<Rightarrow> {} | EosInt t \<Rightarrow> {t} | EosSeq ts \<Rightarrow> set ts)"

definition resolve_eos_token_ids :: "eos_arg \<Rightarrow> eos_arg \<Rightarrow> int option \<Rightarrow> int set" where
  "resolve_eos_token_ids requested configured fallback =
     (let r = as_eos_token_id_set requested in
      if r \<noteq> {} then r else
      let c = as_eos_token_id_set configured in
      if c \<noteq> {} then c else
      case fallback of None \<Rightarrow> {} | Some t \<Rightarrow> if t \<ge> 0 then {t} else {})"

section \<open>Validated parameters\<close>

definition params_ok :: "'a sampling_params_scheme \<Rightarrow> bool" where
  "params_ok p \<longleftrightarrow>
     \<not> flt_less (temperature p) (Fin 0) \<and>
     (\<exists>q. top_p p = Fin q \<and> 0 < q \<and> q \<le> 1) \<and> 0 \<le> top_k p \<and>
     (\<exists>q. presence_penalty p = Fin q \<and> - 2 \<le> q \<and> q \<le> 2) \<and>
     flt_less (Fin 0) (repetition_penalty p) \<and> 0 < max_tokens p \<and>
     distinct (eos_token_ids p) \<and> (\<forall>t\<in>set (eos_token_ids p). 0 \<le> t) \<and>
     (\<forall>n. logprobs p = Some n \<longrightarrow> 0 \<le> n) \<and>
     (\<forall>vs. benchmark_forced_token_ids p = Some vs \<longrightarrow>
        ignore_eos p \<and> int (length vs) = max_tokens p \<and> (\<forall>t\<in>set vs. 0 \<le> t))"

lemma distinct_normalize_eos [simp]: "distinct (normalize_eos v)"
  by (cases v) (simp_all add: normalize_eos_def)

lemma set_normalize_eos [simp]: "set (normalize_eos v) = as_eos_token_id_set v"
  by (cases v) (simp_all add: normalize_eos_def as_eos_token_id_set_def)

lemma flt_between: "flt_le (Fin a) x \<and> flt_le x (Fin b) \<Longrightarrow> \<exists>q. x = Fin q \<and> a \<le> q \<and> q \<le> b"
  by (cases x) (auto simp: flt_le_def)

lemma flt_pos_le: "flt_less (Fin a) x \<and> flt_le x (Fin b) \<Longrightarrow> \<exists>q. x = Fin q \<and> a < q \<and> q \<le> b"
  by (cases x) (auto simp: flt_le_def)

text \<open>
  Parameters that pass validation are in range: \<open>top_p\<close> is a finite number in \<open>(0, 1]\<close>,
  the presence penalty a finite number in \<open>[-2, 2]\<close>, the repetition penalty positive,
  \<open>max_tokens\<close> positive, the end-of-sequence ids non-negative and without repetition, and a
  forced continuation has exactly \<open>max_tokens\<close> non-negative ids and ignores end-of-sequence.
\<close>

theorem sampling_params_validated:
  assumes "SamplingParams temp topp topk pres rept maxt ign eos lp forced = Inr p"
  shows "params_ok p \<and> set (eos_token_ids p) = as_eos_token_id_set eos \<and> max_tokens p = maxt"
  using assms flt_pos_le [of 0 topp 1] flt_between [of "- 2" pres 2]
  by (auto simp: SamplingParams_def params_ok_def not_less split: if_splits option.splits)

theorem sampling_params_validated_witness:
  "\<exists>p. SamplingParams (Fin 1) (Fin (1 / 2)) 0 (Fin 0) (Fin 1) 2 True (EosSeq [7, 7, 3]) None
      (Some [5, 6]) = Inr p \<and> params_ok p \<and> eos_token_ids p = [7, 3]"
proof -
  obtain p where p: "SamplingParams (Fin 1) (Fin (1 / 2)) 0 (Fin 0) (Fin 1) 2 True
      (EosSeq [7, 7, 3]) None (Some [5, 6]) = Inr p"
    by (simp add: SamplingParams_def normalize_eos_def counter_keys_def flt_le_def as_eos_token_id_set_def)
  moreover have "eos_token_ids p = [7, 3]"
    using p by (auto simp: SamplingParams_def normalize_eos_def counter_keys_def split: if_splits)
  ultimately show ?thesis using sampling_params_validated [OF p] by blast
qed

text \<open>
  A temperature that is not a number passes the check \<open>temperature < 0.0\<close>, although the
  error message says it must be non-negative.
\<close>

lemma nan_temperature_accepted:
  "\<exists>p. SamplingParams NaN (Fin 1) 0 (Fin 0) (Fin 1) 1 False EosNone None None = Inr p \<and>
     temperature p = NaN"
  by (simp add: SamplingParams_def normalize_eos_def as_eos_token_id_set_def flt_le_def)

end
