(* ===== verification/Sequence_State.thy ===== *)
theory Sequence_State
  imports Sampling_Params "HOL-Library.Word"
begin

text \<open>
  \<open>engine/sequence.py\<close>: the per-request state, the incrementally synchronised unique-token
  buffer of the sampling penalties, the recompute-replay state machine, and the compact
  inter-process form (\<open>__getstate__\<close>, \<open>__setstate__\<close>) sent to tensor-parallel workers.
  The sampling fields come first, as an extension of the parameter record.
\<close>

type_synonym bytes = "8 word list"

section \<open>Unique token ids\<close>

text \<open>
  \<open>device_tensor\<close> is an uninitialised buffer (\<open>torch.empty\<close>): an unwritten element is
  \<open>None\<close>.  Devices are compared for equality only and are numbered.
\<close>

record unique_token_ids =
  uvalues :: "int list"
  seen :: "int set"
  device_tensor :: "int option list option"
  device :: "int option"
  vocab_size :: "int option"
  synced_count :: nat

definition unique_add :: "int \<Rightarrow> unique_token_ids \<Rightarrow> unique_token_ids" where
  "unique_add t u =
     (if t \<in> seen u then u
      else u\<lparr>seen := insert t (seen u), uvalues := uvalues u @ [t]\<rparr>)"

definition UniqueTokenIds :: "int list \<Rightarrow> unique_token_ids" where
  "UniqueTokenIds ts =
     fold unique_add ts
       \<lparr>uvalues = [], seen = {}, device_tensor = None, device = None, vocab_size = None,
        synced_count = 0\<rparr>"

definition needs_realloc :: "unique_token_ids \<Rightarrow> int \<Rightarrow> int \<Rightarrow> bool" where
  "needs_realloc u dev vocab \<longleftrightarrow>
     (case device_tensor u of
        None \<Rightarrow> True
      | Some buf \<Rightarrow> device u \<noteq> Some dev \<or> vocab_size u \<noteq> Some vocab \<or>
          length (uvalues u) > length buf)"

definition realloc_tensor :: "int \<Rightarrow> int \<Rightarrow> int \<Rightarrow> unique_token_ids \<Rightarrow> unique_token_ids" where
  "realloc_tensor dev vocab max_new u =
     (let token_count = int (length (uvalues u));
          capacity = max token_count (min vocab (token_count + max 0 max_new))
      in u\<lparr>device_tensor := Some (replicate (nat capacity) None), device := Some dev,
           vocab_size := Some vocab, synced_count := 0\<rparr>)"

text \<open>\<open>target.fill_\<close> and \<open>target.copy_\<close> both write the new values into the slice.\<close>

definition sync_tensor :: "unique_token_ids \<Rightarrow> unique_token_ids" where
  "sync_tensor u =
     (let token_count = length (uvalues u); buf = the (device_tensor u) in
      if synced_count u < token_count then
        u\<lparr>device_tensor := Some (take (synced_count u) buf @
              map Some (drop (synced_count u) (uvalues u)) @ drop token_count buf),
          synced_count := token_count\<rparr>
      else u)"

definition to_tensor :: "int \<Rightarrow> int \<Rightarrow> int \<Rightarrow> (unique_token_ids, int option list option) eff" where
  "to_tensor dev vocab max_new u =
     (if uvalues u = [] then (Inr None, u)
      else if vocab \<le> 0 then (Inl ValueError, u)
      else
        let u1 = (if needs_realloc u dev vocab then realloc_tensor dev vocab max_new u else u);
            u2 = sync_tensor u1
        in (Inr (Some (take (length (uvalues u)) (the (device_tensor u2)))), u2))"

text \<open>
  The buffer starts with the values that were synchronised, and \<open>seen\<close> is the set of values.
\<close>

definition unique_inv :: "unique_token_ids \<Rightarrow> bool" where
  "unique_inv u \<longleftrightarrow>
     distinct (uvalues u) \<and> seen u = set (uvalues u) \<and> synced_count u \<le> length (uvalues u) \<and>
     (case device_tensor u of
        None \<Rightarrow> synced_count u = 0
      | Some buf \<Rightarrow> synced_count u \<le> length buf \<and>
          take (synced_count u) buf = map Some (take (synced_count u) (uvalues u)))"

lemma unique_add_inv: "unique_inv u \<Longrightarrow> unique_inv (unique_add t u)"
  by (auto simp: unique_inv_def unique_add_def split: option.splits)

lemma unique_add_values: "unique_inv u \<Longrightarrow>
  uvalues (unique_add t u) = (if t \<in> set (uvalues u) then uvalues u else uvalues u @ [t])"
  by (auto simp: unique_inv_def unique_add_def)

lemma fold_unique_add_inv: "unique_inv u \<Longrightarrow> unique_inv (fold unique_add ts u)"
  by (induction ts arbitrary: u) (simp_all add: unique_add_inv)

lemma fold_unique_add_set:
  "unique_inv u \<Longrightarrow> set (uvalues (fold unique_add ts u)) = set (uvalues u) \<union> set ts"
  by (induction ts arbitrary: u) (auto simp: unique_add_inv unique_add_values)

lemma UniqueTokenIds_inv: "unique_inv (UniqueTokenIds ts)"
  unfolding UniqueTokenIds_def by (rule fold_unique_add_inv) (simp add: unique_inv_def)

lemma UniqueTokenIds_set: "set (uvalues (UniqueTokenIds ts)) = set ts"
  unfolding UniqueTokenIds_def by (subst fold_unique_add_set) (simp_all add: unique_inv_def)

lemma realloc_tensor_ok:
  assumes "unique_inv u"
  shows "unique_inv (realloc_tensor dev vocab mx u)"
    "uvalues (realloc_tensor dev vocab mx u) = uvalues u"
    "\<exists>buf. device_tensor (realloc_tensor dev vocab mx u) = Some buf \<and> length (uvalues u) \<le> length buf"
  using assms by (auto simp: realloc_tensor_def unique_inv_def Let_def)

lemma to_tensor_ok:
  assumes inv: "unique_inv u" and ne: "uvalues u \<noteq> []" and v: "0 < vocab"
  shows "fst (to_tensor dev vocab mx u) = Inr (Some (map Some (uvalues u)))"
    and "unique_inv (snd (to_tensor dev vocab mx u))"
    and "uvalues (snd (to_tensor dev vocab mx u)) = uvalues u"
proof -
  define u1 where "u1 = (if needs_realloc u dev vocab then realloc_tensor dev vocab mx u else u)"
  obtain buf where u1: "unique_inv u1" "uvalues u1 = uvalues u" "device_tensor u1 = Some buf"
    "length (uvalues u) \<le> length buf"
  proof (cases "needs_realloc u dev vocab")
    case True
    then show thesis using that realloc_tensor_ok [OF inv, of dev vocab mx] by (auto simp: u1_def)
  next
    case False
    then show thesis using that inv by (auto simp: u1_def needs_realloc_def split: option.splits)
  qed
  have eq: "to_tensor dev vocab mx u =
      (Inr (Some (take (length (uvalues u)) (the (device_tensor (sync_tensor u1))))), sync_tensor u1)"
    using ne v by (simp add: to_tensor_def u1_def Let_def)
  have syn: "synced_count u1 \<le> length (uvalues u)"
    "take (synced_count u1) buf = map Some (take (synced_count u1) (uvalues u))"
    using u1 by (auto simp: unique_inv_def)
  define buf' where "buf' = map Some (uvalues u) @ drop (length (uvalues u)) buf"
  have "take (synced_count u1) buf @ map Some (drop (synced_count u1) (uvalues u)) =
      map Some (uvalues u)"
    by (simp add: syn(2) flip: map_append)
  moreover have "buf = map Some (uvalues u) @ drop (length (uvalues u)) buf"
    if "synced_count u1 = length (uvalues u)"
    using that syn(2) append_take_drop_id [of "length (uvalues u)" buf] by simp
  ultimately have st: "device_tensor (sync_tensor u1) = Some buf'"
    using u1 syn(1) by (auto simp: sync_tensor_def Let_def buf'_def simp flip: append_assoc)
  then show "fst (to_tensor dev vocab mx u) = Inr (Some (map Some (uvalues u)))"
    by (simp add: eq buf'_def)
  show "uvalues (snd (to_tensor dev vocab mx u)) = uvalues u"
    by (simp add: eq sync_tensor_def Let_def u1)
  show "unique_inv (snd (to_tensor dev vocab mx u))"
    using st u1 syn(1) by (auto simp: eq sync_tensor_def unique_inv_def Let_def buf'_def)
qed

section \<open>The sequence record\<close>

datatype sequence_status = WAITING | RUNNING | FINISHED

text \<open>\<open>seq_header\<close> holds the fields that travel to the workers, \<open>sequence\<close> adds the rest.\<close>

record seq_header = sampling_params +
  seq_id :: int
  status :: sequence_status
  num_tokens :: int
  num_prompt_tokens :: int
  num_prefilled_tokens :: int
  current_chunk_size :: "int option"
  prefix_cache_enabled :: bool
  prefix_cache_hit_len :: int
  prefix_cache_hit_block_count :: int
  prefix_cache_hit_last_block_id :: "bytes option"
  prefix_cache_block_size :: int
  prefix_cache_method :: string
  chain_id :: "string option"
  chain_status :: string
  chain_reused_tokens :: int
  recompute_replay_cursor :: "int option"
  decode_progress_checkpoint :: int
  multimodal_digest :: "string option"
  multimodal_position_delta :: int
  multimodal_full_prefill :: bool
  context_length :: "int option"
  context_prefix_length :: int

record sequence = seq_header +
  token_ids :: "int list"
  prompt_token_tuple :: "int list option"
  last_token :: "int option"
  num_pending_outputs :: int
  completion_token_logprobs :: "pyfloat option list"
  completion_top_logprobs :: "(int \<times> pyfloat) list option list"
  presence_penalty_tokens :: "unique_token_ids option"
  repetition_penalty_tokens :: "unique_token_ids option"

definition last_opt :: "'a list \<Rightarrow> 'a option" where
  "last_opt xs = (if xs = [] then None else Some (last xs))"

text \<open>The constructor; \<open>sid\<close> is \<open>next(Sequence.counter)\<close>.\<close>

definition Sequence :: "int \<Rightarrow> int list \<Rightarrow> sampling_params \<Rightarrow> int option \<Rightarrow> int \<Rightarrow> sequence result" where
  "Sequence sid tokens params ctx ctx_prefix =
     (if (case ctx of None \<Rightarrow> False | Some c \<Rightarrow> \<not> (0 < c \<and> c < int (length tokens)))
      then Inl ValueError
      else if ctx_prefix < 0 \<or> (ctx = None \<and> ctx_prefix \<noteq> 0) \<or>
          (case ctx of None \<Rightarrow> False | Some c \<Rightarrow> ctx_prefix \<ge> c)
      then Inl ValueError
      else Inr
        \<lparr>temperature = temperature params, top_p = top_p params, top_k = top_k params,
         presence_penalty = presence_penalty params,
         repetition_penalty = repetition_penalty params, max_tokens = max_tokens params,
         ignore_eos = ignore_eos params, eos_token_ids = eos_token_ids params,
         logprobs = logprobs params,
         benchmark_forced_token_ids = benchmark_forced_token_ids params,
         seq_id = sid, status = WAITING, num_tokens = int (length tokens),
         num_prompt_tokens = int (length tokens), num_prefilled_tokens = 0,
         current_chunk_size = None, prefix_cache_enabled = False, prefix_cache_hit_len = 0,
         prefix_cache_hit_block_count = 0, prefix_cache_hit_last_block_id = None,
         prefix_cache_block_size = 0, prefix_cache_method = '''', chain_id = None,
         chain_status = ''disabled'', chain_reused_tokens = 0,
         recompute_replay_cursor = None, decode_progress_checkpoint = 0,
         multimodal_digest = None, multimodal_position_delta = 0,
         multimodal_full_prefill = False, context_length = ctx,
         context_prefix_length = ctx_prefix, token_ids = tokens,
         prompt_token_tuple = Some tokens, last_token = last_opt tokens,
         num_pending_outputs = 0, completion_token_logprobs = [], completion_top_logprobs = [],
         presence_penalty_tokens =
           (if flt_neq (presence_penalty params) 0 then Some (UniqueTokenIds []) else None),
         repetition_penalty_tokens =
           (if flt_neq (repetition_penalty params) 1 then Some (UniqueTokenIds tokens)
            else None)\<rparr>)"

section \<open>Properties of the object (Python's \<open>@property\<close> methods)\<close>

definition has_sampling_penalty :: "sequence \<Rightarrow> bool" where
  "has_sampling_penalty s \<longleftrightarrow> flt_neq (presence_penalty s) 0 \<or> flt_neq (repetition_penalty s) 1"

definition num_completion_tokens :: "'a seq_header_scheme \<Rightarrow> int" where
  "num_completion_tokens s = num_tokens s - num_prompt_tokens s"

definition kv_change_state :: "'a seq_header_scheme \<Rightarrow> string result" where
  "kv_change_state s =
     (if num_prefilled_tokens s = 0 then Inr ''first_prefill''
      else if num_prefilled_tokens s < num_prompt_tokens s then Inr ''prefill''
      else if num_prefilled_tokens s = num_prompt_tokens s then Inr ''decode''
      else Inl ValueError)"

definition is_seq_finished :: "'a seq_header_scheme \<Rightarrow> bool" where
  "is_seq_finished s \<longleftrightarrow> status s = FINISHED"

definition prompt_token_ids :: "sequence \<Rightarrow> int list" where
  "prompt_token_ids s =
     (case prompt_token_tuple s of
        Some ts \<Rightarrow> ts | None \<Rightarrow> take (nat (num_prompt_tokens s)) (token_ids s))"

definition completion_token_ids :: "sequence \<Rightarrow> int list" where
  "completion_token_ids s = drop (nat (num_prompt_tokens s)) (token_ids s)"

definition is_recompute_replay :: "'a seq_header_scheme \<Rightarrow> bool" where
  "is_recompute_replay s \<longleftrightarrow> recompute_replay_cursor s \<noteq> None"

definition is_recompute_prefill :: "'a seq_header_scheme \<Rightarrow> bool" where
  "is_recompute_prefill s \<longleftrightarrow> is_recompute_replay s \<and> num_prefilled_tokens s < num_prompt_tokens s"

definition is_recompute_decode :: "'a seq_header_scheme \<Rightarrow> bool" where
  "is_recompute_decode s \<longleftrightarrow> is_recompute_replay s \<and> num_prefilled_tokens s \<ge> num_prompt_tokens s"

definition replay_decode_token_count :: "'a seq_header_scheme \<Rightarrow> int" where
  "replay_decode_token_count s = max 0 (num_completion_tokens s - 1)"

definition opt_or_zero :: "int option \<Rightarrow> int" where
  "opt_or_zero x = (case x of None \<Rightarrow> 0 | Some n \<Rightarrow> n)"

text \<open>Python's slice \<open>xs[a:b]\<close> for non-negative bounds.\<close>

definition slice :: "int \<Rightarrow> int \<Rightarrow> 'a list \<Rightarrow> 'a list" where
  "slice a b xs = take (nat (b - a)) (drop (nat a) xs)"

definition replay_input_token_ids :: "sequence \<Rightarrow> int list" where
  "replay_input_token_ids s =
     (if \<not> is_recompute_prefill s then []
      else
        let start = num_prefilled_tokens s;
            stop = start + opt_or_zero (current_chunk_size s)
        in if int (length (token_ids s)) = stop - start then token_ids s
           else slice start stop (token_ids s))"

definition decode_input_token :: "sequence \<Rightarrow> int result" where
  "decode_input_token s =
     (if \<not> is_recompute_decode s then
        (case last_token s of None \<Rightarrow> Inl RuntimeError | Some t \<Rightarrow> Inr t)
      else
        let cursor = opt_or_zero (recompute_replay_cursor s) in
        if cursor \<ge> replay_decode_token_count s then Inl RuntimeError
        else if int (length (token_ids s)) > num_prompt_tokens s + cursor
        then Inr (token_ids s ! nat (num_prompt_tokens s + cursor))
        else (case last_token s of None \<Rightarrow> Inl RuntimeError | Some t \<Rightarrow> Inr t))"

definition decode_input_position :: "'a seq_header_scheme \<Rightarrow> int" where
  "decode_input_position s =
     (if is_recompute_decode s then num_prompt_tokens s + opt_or_zero (recompute_replay_cursor s)
      else num_tokens s - 1) + multimodal_position_delta s"

definition should_publish_sample :: "'a seq_header_scheme \<Rightarrow> bool" where
  "should_publish_sample s \<longleftrightarrow> \<not> is_recompute_replay s"

definition is_last_chunk_prefill :: "'a seq_header_scheme \<Rightarrow> bool result" where
  "is_last_chunk_prefill s =
     (case current_chunk_size s of
        None \<Rightarrow> Inl TypeError
      | Some c \<Rightarrow> Inr (num_prefilled_tokens s + c \<ge> num_prompt_tokens s))"

definition prefill_stage_remaining :: "'a seq_header_scheme \<Rightarrow> int" where
  "prefill_stage_remaining s =
     (case context_length s of
        Some c \<Rightarrow> (if num_prefilled_tokens s < c then c else num_prompt_tokens s)
      | None \<Rightarrow> num_prompt_tokens s) - num_prefilled_tokens s"

definition is_context_boundary_prefill :: "'a seq_header_scheme \<Rightarrow> bool" where
  "is_context_boundary_prefill s \<longleftrightarrow>
     (case context_length s of
        None \<Rightarrow> False
      | Some c \<Rightarrow> num_prefilled_tokens s < c \<and>
          num_prefilled_tokens s + opt_or_zero (current_chunk_size s) = c)"

section \<open>State changes\<close>

definition clear_prefix_cache_hit :: "sequence \<Rightarrow> sequence" where
  "clear_prefix_cache_hit s =
     s\<lparr>prefix_cache_enabled := False, prefix_cache_hit_len := 0,
       prefix_cache_hit_block_count := 0, prefix_cache_hit_last_block_id := None,
       prefix_cache_block_size := 0, prefix_cache_method := ''''\<rparr>"

definition start_recompute_replay :: "(sequence, unit) eff" where
  "start_recompute_replay s =
     (if num_completion_tokens s \<le> 0 then (Inl RuntimeError, s)
      else (Inr (), clear_prefix_cache_hit
        (s\<lparr>recompute_replay_cursor := Some 0,
           decode_progress_checkpoint := num_completion_tokens s,
           num_prefilled_tokens := 0, current_chunk_size := None, status := WAITING\<rparr>)))"

definition finish_recompute_replay :: "(sequence, unit) eff" where
  "finish_recompute_replay s =
     (if \<not> is_recompute_replay s then (Inl RuntimeError, s)
      else (Inr (), s\<lparr>recompute_replay_cursor := None,
                      decode_progress_checkpoint := num_completion_tokens s\<rparr>))"

definition advance_recompute_replay :: "(sequence, unit) eff" where
  "advance_recompute_replay s =
     (if \<not> is_recompute_decode s then (Inl RuntimeError, s)
      else
        let s' = s\<lparr>recompute_replay_cursor := Some (opt_or_zero (recompute_replay_cursor s) + 1)\<rparr> in
        if opt_or_zero (recompute_replay_cursor s') \<ge> replay_decode_token_count s'
        then finish_recompute_replay s' else (Inr (), s'))"

definition track_sampling_penalty_token :: "int \<Rightarrow> sequence \<Rightarrow> sequence" where
  "track_sampling_penalty_token t s =
     s\<lparr>presence_penalty_tokens := map_option (unique_add t) (presence_penalty_tokens s),
       repetition_penalty_tokens := map_option (unique_add t) (repetition_penalty_tokens s)\<rparr>"

definition append_token :: "int \<Rightarrow> pyfloat option \<Rightarrow> (int \<times> pyfloat) list option \<Rightarrow> sequence \<Rightarrow> sequence" where
  "append_token t lp tlp s =
     (let s1 = (if has_sampling_penalty s then track_sampling_penalty_token t s else s);
          s2 = s1\<lparr>token_ids := token_ids s1 @ [t]\<rparr>;
          s3 = (if num_completion_tokens s2 \<ge> 0
                then s2\<lparr>completion_token_logprobs := completion_token_logprobs s2 @ [lp],
                        completion_top_logprobs := completion_top_logprobs s2 @ [tlp]\<rparr>
                else s2)
      in s3\<lparr>last_token := Some t, num_tokens := num_tokens s3 + 1\<rparr>)"

text \<open>
  \<open>_sampling_penalty_token_tensor\<close> and its two public wrappers.  The buffer lives inside the
  sequence, so the synchronised state is written back.
\<close>

definition sampling_penalty_token_tensor ::
    "string \<Rightarrow> int \<Rightarrow> int \<Rightarrow> (sequence, int option list option) eff" where
  "sampling_penalty_token_tensor kind dev vocab s =
     (let mx = max 0 (max_tokens s - num_completion_tokens s) in
      if kind = ''presence'' then
        (if \<not> flt_neq (presence_penalty s) 0 then (Inr None, s)
         else case presence_penalty_tokens s of
             None \<Rightarrow> (Inl RuntimeError, s)
           | Some u \<Rightarrow> (case to_tensor dev vocab mx u of (r, u') \<Rightarrow>
               (r, s\<lparr>presence_penalty_tokens := Some u'\<rparr>)))
      else if kind = ''repetition'' then
        (if \<not> flt_neq (repetition_penalty s) 1 then (Inr None, s)
         else case repetition_penalty_tokens s of
             None \<Rightarrow> (Inl RuntimeError, s)
           | Some u \<Rightarrow> (case to_tensor dev vocab mx u of (r, u') \<Rightarrow>
               (r, s\<lparr>repetition_penalty_tokens := Some u'\<rparr>)))
      else (Inl ValueError, s))"

definition presence_penalty_token_ids_tensor :: "int \<Rightarrow> int \<Rightarrow> (sequence, int option list option) eff" where
  "presence_penalty_token_ids_tensor = sampling_penalty_token_tensor ''presence''"

definition repetition_penalty_token_ids_tensor :: "int \<Rightarrow> int \<Rightarrow> (sequence, int option list option) eff" where
  "repetition_penalty_token_ids_tensor = sampling_penalty_token_tensor ''repetition''"

section \<open>The inter-process form\<close>

text \<open>
  The pickled tuple: the header fields in the source's order are the record \<open>seq_header\<close>
  (without the forced tokens, which are not sent), and \<open>data\<close> is a token tuple, a token list or
  a single token.
\<close>

datatype ipc_data = IpcTuple "int list" | IpcList "int list" | IpcToken "int option"

definition ipc_header :: "sequence \<Rightarrow> seq_header" where
  "ipc_header s = (seq_header.truncate s)\<lparr>benchmark_forced_token_ids := None\<rparr>"

definition getstate :: "sequence \<Rightarrow> (seq_header \<times> ipc_data) result" where
  "getstate s =
     (if num_completion_tokens s = 0 \<or> is_recompute_prefill s then
        let chunk = (case current_chunk_size s of Some c \<Rightarrow> c | None \<Rightarrow> num_prompt_tokens s) in
        Inr (ipc_header s,
          (case prompt_token_tuple s of
             Some ts \<Rightarrow>
               if num_prefilled_tokens s = 0 \<and> chunk = num_prompt_tokens s then IpcTuple ts
               else IpcList (slice (num_prefilled_tokens s) (num_prefilled_tokens s + chunk) (token_ids s))
           | None \<Rightarrow>
               IpcList (slice (num_prefilled_tokens s) (num_prefilled_tokens s + chunk) (token_ids s))))
      else if is_recompute_decode s then
        bindR (decode_input_token s) (\<lambda>t. Inr (ipc_header s, IpcToken (Some t)))
      else Inr (ipc_header s, IpcToken (last_token s)))"

definition ipc_extend :: "seq_header \<Rightarrow> int list \<Rightarrow> int list option \<Rightarrow> int option \<Rightarrow> sequence" where
  "ipc_extend h ts pt lt =
     seq_header.extend h
       (sequence.fields ts pt lt 0 [] [] None None)"

text \<open>
  A payload of the other shape (a single token where a chunk is expected, or a chunk where a token is)
  has no well-typed result; the model answers \<open>TypeError\<close>, and \<open>getstate_accepted\<close> below shows that
  \<open>__getstate__\<close> never produces one.
\<close>

definition setstate :: "seq_header \<times> ipc_data \<Rightarrow> sequence result" where
  "setstate w =
     (case w of (h, data) \<Rightarrow>
        if num_completion_tokens h = 0 \<or> is_recompute_prefill h then
          (case data of
             IpcToken _ \<Rightarrow> Inl TypeError
           | IpcTuple ts \<Rightarrow>
               Inr (ipc_extend h ts
                 (if num_prefilled_tokens h = 0 \<and> int (length ts) = num_prompt_tokens h
                  then Some ts else None) (last_opt ts))
           | IpcList ts \<Rightarrow>
               Inr (ipc_extend h ts
                 (if num_prefilled_tokens h = 0 \<and> int (length ts) = num_prompt_tokens h
                  then Some ts else None) (last_opt ts)))
        else
          (case data of
             IpcToken t \<Rightarrow> Inr (ipc_extend h [] None t)
           | _ \<Rightarrow> Inl TypeError))"

lemma getstate_accepted:
  assumes "getstate s = Inr w"
  shows "\<exists>s'. setstate w = Inr s'"
proof -
  have "num_completion_tokens (ipc_header s) = num_completion_tokens s"
    "is_recompute_prefill (ipc_header s) = is_recompute_prefill s"
    by (simp_all add: num_completion_tokens_def is_recompute_prefill_def is_recompute_replay_def
        ipc_header_def seq_header.defs)
  with assms show ?thesis
    by (auto simp: getstate_def setstate_def Let_def bindR_eq_Inr split: if_splits option.splits)
qed

section \<open>Well-formed sequences on rank 0\<close>

definition seq_wf :: "sequence \<Rightarrow> bool" where
  "seq_wf s \<longleftrightarrow>
     num_tokens s = int (length (token_ids s)) \<and> 0 \<le> num_prompt_tokens s \<and>
     num_prompt_tokens s \<le> num_tokens s \<and>
     last_token s = last_opt (token_ids s) \<and>
     prompt_token_tuple s = Some (take (nat (num_prompt_tokens s)) (token_ids s)) \<and>
     0 \<le> num_prefilled_tokens s \<and> num_prefilled_tokens s \<le> num_prompt_tokens s \<and>
     int (length (completion_token_logprobs s)) = num_completion_tokens s \<and>
     int (length (completion_top_logprobs s)) = num_completion_tokens s \<and>
     0 \<le> decode_progress_checkpoint s \<and> decode_progress_checkpoint s \<le> num_completion_tokens s \<and>
     (\<forall>c. recompute_replay_cursor s = Some c \<longrightarrow> 0 < num_completion_tokens s \<and> 0 \<le> c) \<and>
     (\<forall>u. presence_penalty_tokens s = Some u \<longrightarrow>
        unique_inv u \<and> set (uvalues u) = set (completion_token_ids s)) \<and>
     (\<forall>u. repetition_penalty_tokens s = Some u \<longrightarrow>
        unique_inv u \<and> set (uvalues u) = set (token_ids s)) \<and>
     (presence_penalty_tokens s \<noteq> None \<longleftrightarrow> flt_neq (presence_penalty s) 0) \<and>
     (repetition_penalty_tokens s \<noteq> None \<longleftrightarrow> flt_neq (repetition_penalty s) 1)"

lemmas seq_defs = num_completion_tokens_def is_recompute_replay_def is_recompute_prefill_def
  is_recompute_decode_def replay_decode_token_count_def completion_token_ids_def
  has_sampling_penalty_def opt_or_zero_def

lemma Sequence_wf: "Sequence sid ts ps ctx cp = Inr s \<Longrightarrow> seq_wf s \<and> token_ids s = ts \<and> seq_id s = sid"
  using UniqueTokenIds_inv [of ts] UniqueTokenIds_set [of ts]
    UniqueTokenIds_inv [of "[]"] UniqueTokenIds_set [of "[]"]
  by (auto simp: Sequence_def seq_wf_def seq_defs split: if_splits)

lemma append_token_sel [simp]:
  "token_ids (append_token t lp tlp s) = token_ids s @ [t]"
  "num_tokens (append_token t lp tlp s) = num_tokens s + 1"
  "num_prompt_tokens (append_token t lp tlp s) = num_prompt_tokens s"
  "last_token (append_token t lp tlp s) = Some t"
  "prompt_token_tuple (append_token t lp tlp s) = prompt_token_tuple s"
  "num_prefilled_tokens (append_token t lp tlp s) = num_prefilled_tokens s"
  "decode_progress_checkpoint (append_token t lp tlp s) = decode_progress_checkpoint s"
  "recompute_replay_cursor (append_token t lp tlp s) = recompute_replay_cursor s"
  "presence_penalty (append_token t lp tlp s) = presence_penalty s"
  "repetition_penalty (append_token t lp tlp s) = repetition_penalty s"
  "max_tokens (append_token t lp tlp s) = max_tokens s"
  "ignore_eos (append_token t lp tlp s) = ignore_eos s"
  "eos_token_ids (append_token t lp tlp s) = eos_token_ids s"
  "seq_id (append_token t lp tlp s) = seq_id s"
  "status (append_token t lp tlp s) = status s"
  "num_pending_outputs (append_token t lp tlp s) = num_pending_outputs s"
  by (simp_all add: append_token_def track_sampling_penalty_token_def Let_def)

lemma append_token_logprobs:
  assumes "0 \<le> num_completion_tokens s"
  shows "completion_token_logprobs (append_token t lp tlp s) = completion_token_logprobs s @ [lp]"
    and "completion_top_logprobs (append_token t lp tlp s) = completion_top_logprobs s @ [tlp]"
  using assms
  by (simp_all add: append_token_def track_sampling_penalty_token_def Let_def num_completion_tokens_def)

lemma append_token_penalties:
  assumes "seq_wf s"
  shows "presence_penalty_tokens (append_token t lp tlp s) =
      map_option (unique_add t) (presence_penalty_tokens s)"
    and "repetition_penalty_tokens (append_token t lp tlp s) =
      map_option (unique_add t) (repetition_penalty_tokens s)"
  using assms
  by (auto simp: append_token_def track_sampling_penalty_token_def Let_def seq_wf_def
      has_sampling_penalty_def)

lemma append_token_completion:
  "seq_wf s \<Longrightarrow> completion_token_ids (append_token t lp tlp s) = completion_token_ids s @ [t]"
  by (auto simp: completion_token_ids_def seq_wf_def nat_le_iff)

lemma append_token_wf:
  assumes wf: "seq_wf s"
  shows "seq_wf (append_token t lp tlp s)"
proof -
  have nc: "0 \<le> num_completion_tokens s" using wf by (simp add: seq_wf_def num_completion_tokens_def)
  have u: "set (uvalues (unique_add t u)) = insert t (set (uvalues u))" "unique_inv (unique_add t u)"
    if "unique_inv u" for u
    using that unique_add_inv unique_add_values by auto
  show ?thesis
    unfolding seq_wf_def append_token_penalties [OF wf] append_token_completion [OF wf]
    using wf u by (auto simp: seq_wf_def append_token_logprobs [OF nc] num_completion_tokens_def
        last_opt_def)
qed

lemma seq_wf_set_penalty:
  assumes "seq_wf s"
  shows "flt_neq (presence_penalty s) 0 \<Longrightarrow> unique_inv u \<Longrightarrow>
      set (uvalues u) = set (completion_token_ids s) \<Longrightarrow> seq_wf (s\<lparr>presence_penalty_tokens := Some u\<rparr>)"
    and "flt_neq (repetition_penalty s) 1 \<Longrightarrow> unique_inv u \<Longrightarrow>
      set (uvalues u) = set (token_ids s) \<Longrightarrow> seq_wf (s\<lparr>repetition_penalty_tokens := Some u\<rparr>)"
  using assms by (auto simp: seq_wf_def num_completion_tokens_def completion_token_ids_def)

section \<open>Recompute replay\<close>

lemma replay_sel [simp]:
  "token_ids (s\<lparr>recompute_replay_cursor := c\<rparr>) = token_ids s"
  by simp

lemma start_recompute_replay_wf:
  assumes "seq_wf s" and "start_recompute_replay s = (Inr (), s')"
  shows "seq_wf s'" "token_ids s' = token_ids s" "num_prompt_tokens s' = num_prompt_tokens s"
    "recompute_replay_cursor s' = Some 0" "num_prefilled_tokens s' = 0" "status s' = WAITING"
  using assms
  by (auto simp: start_recompute_replay_def clear_prefix_cache_hit_def seq_wf_def seq_defs
      split: if_splits)

lemma finish_recompute_replay_wf:
  "seq_wf s \<Longrightarrow> seq_wf (snd (finish_recompute_replay s))"
  by (auto simp: finish_recompute_replay_def seq_wf_def seq_defs)

lemma advance_recompute_replay_eq:
  assumes "recompute_replay_cursor s = Some c" "num_prefilled_tokens s \<ge> num_prompt_tokens s"
  shows "advance_recompute_replay s =
    (Inr (), if c + 1 < replay_decode_token_count s
      then s\<lparr>recompute_replay_cursor := Some (c + 1)\<rparr>
      else s\<lparr>recompute_replay_cursor := None, decode_progress_checkpoint := num_completion_tokens s\<rparr>)"
  using assms by (auto simp: advance_recompute_replay_def finish_recompute_replay_def seq_defs Let_def)

lemma advance_recompute_replay_wf:
  assumes "seq_wf s"
  shows "seq_wf (snd (advance_recompute_replay s))"
proof (cases "is_recompute_decode s")
  case False
  then show ?thesis using assms by (simp add: advance_recompute_replay_def)
next
  case True
  then obtain c where c: "recompute_replay_cursor s = Some c"
    "num_prefilled_tokens s \<ge> num_prompt_tokens s" by (auto simp: seq_defs)
  show ?thesis
    unfolding advance_recompute_replay_eq [OF c] using assms c
    by (auto simp: seq_wf_def seq_defs)
qed

text \<open>
  The decode loop of a replaying request: each forward pass takes the input token and its
  position and then advances.  The recursion ends because the cursor grows towards the replay
  count.
\<close>

function replay_run :: "sequence \<Rightarrow> ((int \<times> int) list \<times> sequence) result" where
  "replay_run s =
     (if is_recompute_decode s then
        bindR (decode_input_token s) (\<lambda>t.
          bindR (replay_run (snd (advance_recompute_replay s))) (\<lambda>(ps, s').
            Inr ((t, decode_input_position s) # ps, s')))
      else Inr ([], s))"
  by pat_completeness auto
termination
proof (relation "measure (\<lambda>s. if is_recompute_decode s
    then Suc (nat (replay_decode_token_count s - opt_or_zero (recompute_replay_cursor s))) else 0)",
    goal_cases)
  case 1
  show ?case by simp
next
  case (2 s t)
  then obtain c where c: "recompute_replay_cursor s = Some c"
    "num_prefilled_tokens s \<ge> num_prompt_tokens s" by (auto simp: seq_defs)
  show ?case
    using 2 advance_recompute_replay_eq [OF c] c by (auto simp: seq_defs)
qed

declare replay_run.simps [simp del]

lemma replay_run_from:
  assumes "seq_wf s" "recompute_replay_cursor s = Some c" "num_prefilled_tokens s = num_prompt_tokens s"
    and "c < replay_decode_token_count s"
  shows "replay_run s =
    Inr (map (\<lambda>i. (token_ids s ! nat (num_prompt_tokens s + i),
                   num_prompt_tokens s + i + multimodal_position_delta s))
           [c..replay_decode_token_count s - 1],
         s\<lparr>recompute_replay_cursor := None, decode_progress_checkpoint := num_completion_tokens s\<rparr>)"
  using assms
proof (induction s arbitrary: c rule: replay_run.induct)
  case (1 s)
  define s1 where "s1 = snd (advance_recompute_replay s)"
  have dec: "is_recompute_decode s" using "1.prems" by (simp add: seq_defs)
  have "0 \<le> c" using "1.prems" by (auto simp: seq_wf_def)
  then have tok: "decode_input_token s = Inr (token_ids s ! nat (num_prompt_tokens s + c))"
    using dec "1.prems" by (auto simp: decode_input_token_def seq_wf_def seq_defs Let_def)
  have pos: "decode_input_position s = num_prompt_tokens s + c + multimodal_position_delta s"
    using dec "1.prems" by (simp add: decode_input_position_def opt_or_zero_def)
  have s1: "s1 = (if c + 1 < replay_decode_token_count s
      then s\<lparr>recompute_replay_cursor := Some (c + 1)\<rparr>
      else s\<lparr>recompute_replay_cursor := None, decode_progress_checkpoint := num_completion_tokens s\<rparr>)"
    using advance_recompute_replay_eq [of s c] "1.prems" by (simp add: s1_def)
  have wf1: "seq_wf s1" unfolding s1_def by (rule advance_recompute_replay_wf [OF "1.prems"(1)])
  have up: "[c..replay_decode_token_count s - 1] = c # [c + 1..replay_decode_token_count s - 1]"
    using "1.prems"(4) by (simp add: upto_rec1)
  show ?case
  proof (cases "c + 1 < replay_decode_token_count s")
    case True
    have "replay_run s1 =
      Inr (map (\<lambda>i. (token_ids s1 ! nat (num_prompt_tokens s1 + i),
                     num_prompt_tokens s1 + i + multimodal_position_delta s1))
             [c + 1..replay_decode_token_count s1 - 1],
           s1\<lparr>recompute_replay_cursor := None,
              decode_progress_checkpoint := num_completion_tokens s1\<rparr>)"
      using "1.IH" [OF dec] wf1 True "1.prems"(3) s1
      by (simp add: seq_defs flip: s1_def)
    with True s1 dec tok pos up show ?thesis
      by (subst replay_run.simps) (simp add: s1_def [symmetric] seq_defs)
  next
    case False
    then have "replay_run s1 = Inr ([], s1)"
      using s1 by (subst replay_run.simps) (simp add: seq_defs)
    moreover have "[c + 1..replay_decode_token_count s - 1] = []" using False by simp
    ultimately show ?thesis
      using False s1 dec tok pos up by (subst replay_run.simps) (simp add: s1_def [symmetric])
  qed
qed

lemma replay_history_eq:
  assumes "seq_wf s" "0 < num_completion_tokens s"
  shows "map (\<lambda>i. token_ids s ! nat (num_prompt_tokens s + i)) [0..replay_decode_token_count s - 1]
    = butlast (completion_token_ids s)"
proof (rule nth_equalityI)
  have wf: "num_tokens s = int (length (token_ids s))" "0 \<le> num_prompt_tokens s"
    "num_prompt_tokens s \<le> num_tokens s" using assms by (auto simp: seq_wf_def)
  have len: "length [0..replay_decode_token_count s - 1] = nat (num_completion_tokens s - 1)"
    using assms(2) by (simp add: replay_decode_token_count_def)
  show "length (map (\<lambda>i. token_ids s ! nat (num_prompt_tokens s + i))
      [0..replay_decode_token_count s - 1]) = length (butlast (completion_token_ids s))"
    using len wf by (simp add: completion_token_ids_def num_completion_tokens_def nat_diff_distrib)
  fix i
  assume "i < length (map (\<lambda>i. token_ids s ! nat (num_prompt_tokens s + i))
      [0..replay_decode_token_count s - 1])"
  then have i: "i < nat (num_completion_tokens s - 1)" using len by simp
  then have "nat (num_prompt_tokens s + int i) = nat (num_prompt_tokens s) + i" using wf by simp
  moreover have "nat (num_prompt_tokens s) + i < length (token_ids s)"
    using i wf by (simp add: num_completion_tokens_def)
  ultimately show "map (\<lambda>i. token_ids s ! nat (num_prompt_tokens s + i))
      [0..replay_decode_token_count s - 1] ! i = butlast (completion_token_ids s) ! i"
    using i len wf by (auto simp: nth_butlast completion_token_ids_def num_completion_tokens_def
        replay_decode_token_count_def)
qed

section \<open>Workers see the active tokens\<close>

lemma ipc_extend_sel [simp]:
  "token_ids (ipc_extend h ts pt lt) = ts" "last_token (ipc_extend h ts pt lt) = lt"
  "num_tokens (ipc_extend h ts pt lt) = num_tokens h"
  "num_prompt_tokens (ipc_extend h ts pt lt) = num_prompt_tokens h"
  "num_prefilled_tokens (ipc_extend h ts pt lt) = num_prefilled_tokens h"
  "current_chunk_size (ipc_extend h ts pt lt) = current_chunk_size h"
  "recompute_replay_cursor (ipc_extend h ts pt lt) = recompute_replay_cursor h"
  "multimodal_position_delta (ipc_extend h ts pt lt) = multimodal_position_delta h"
  by (simp_all add: ipc_extend_def seq_header.defs sequence.defs)

lemma ipc_header_sel [simp]:
  "num_tokens (ipc_header s) = num_tokens s"
  "num_prompt_tokens (ipc_header s) = num_prompt_tokens s"
  "num_prefilled_tokens (ipc_header s) = num_prefilled_tokens s"
  "current_chunk_size (ipc_header s) = current_chunk_size s"
  "recompute_replay_cursor (ipc_header s) = recompute_replay_cursor s"
  "multimodal_position_delta (ipc_header s) = multimodal_position_delta s"
  by (simp_all add: ipc_header_def seq_header.defs)

lemma ipc_header_extend: "ipc_header (ipc_extend (ipc_header s) ts pt lt) = ipc_header s"
  by (simp add: ipc_header_def ipc_extend_def seq_header.defs sequence.defs)

lemma slice_length: "0 \<le> a \<Longrightarrow> 0 \<le> n \<Longrightarrow> a + n \<le> int (length xs) \<Longrightarrow> length (slice a (a + n) xs) = nat n"
  by (simp add: slice_def)

definition active_chunk :: "sequence \<Rightarrow> int" where
  "active_chunk s = (case current_chunk_size s of Some c \<Rightarrow> c | None \<Rightarrow> num_prompt_tokens s)"

lemma getstate_prefill:
  assumes wf: "seq_wf s" and pre: "num_completion_tokens s = 0 \<or> is_recompute_prefill s"
    and w: "getstate s = Inr w"
  obtains pt lt where
    "setstate w = Inr (ipc_extend (ipc_header s)
       (slice (num_prefilled_tokens s) (num_prefilled_tokens s + active_chunk s) (token_ids s)) pt lt)"
proof -
  have pre': "num_completion_tokens (ipc_header s) = 0 \<or> is_recompute_prefill (ipc_header s)"
    using pre by (simp add: seq_defs)
  have "slice (num_prefilled_tokens s) (num_prefilled_tokens s + num_prompt_tokens s) (token_ids s) =
      take (nat (num_prompt_tokens s)) (token_ids s)" if "num_prefilled_tokens s = 0"
    using that by (simp add: slice_def)
  then show thesis
    using w wf pre pre' that
    by (auto simp: getstate_def setstate_def seq_wf_def active_chunk_def Let_def split: if_splits)
qed

section \<open>Properties\<close>

text \<open>
  C7.  Recompute replay rebuilds exactly the accepted history.  Take a request \<open>u\<close> that is not
  replaying and has more than one completion token, start its replay, and let \<open>s\<close> be any state of it
  in which the prompt is prefilled again (with the tokens, the position offset and the cursor that
  \<open>start_recompute_replay\<close> left).  Its decode steps feed the accepted completion tokens except the
  last, each once and in order, at consecutive positions after the prompt, without any exception; the
  replay then ends by itself with only the cursor and the progress checkpoint of \<open>s\<close> changed, and the
  next decode input is the last accepted token at the position of the uninterrupted request \<open>u\<close>.
\<close>

theorem replay_feeds_accepted_history:
  assumes "seq_wf u" and "\<not> is_recompute_replay u" and "1 < num_completion_tokens u"
    and "start_recompute_replay u = (Inr (), r)"
    and "seq_wf s" and "token_ids s = token_ids r" and "num_prompt_tokens s = num_prompt_tokens r"
    and "multimodal_position_delta s = multimodal_position_delta r"
    and "recompute_replay_cursor s = recompute_replay_cursor r"
    and "num_prefilled_tokens s = num_prompt_tokens s"
  shows "\<exists>steps s'. replay_run s = Inr (steps, s') \<and>
    map fst steps = butlast (completion_token_ids u) \<and>
    map snd steps = map (\<lambda>i. num_prompt_tokens u + i + multimodal_position_delta u)
      [0..num_completion_tokens u - 2] \<and>
    s' = s\<lparr>recompute_replay_cursor := None, decode_progress_checkpoint := num_completion_tokens u\<rparr> \<and>
    \<not> is_recompute_replay s' \<and> token_ids s' = token_ids u \<and> seq_wf s' \<and>
    decode_input_token s' = Inr (last (token_ids u)) \<and>
    decode_input_token s' = decode_input_token u \<and> decode_input_position s' = decode_input_position u"
proof -
  note st = start_recompute_replay_wf [OF assms(1,4)]
  have delta: "multimodal_position_delta r = multimodal_position_delta u"
    using assms(4) by (auto simp: start_recompute_replay_def clear_prefix_cache_hit_def split: if_splits)
  have same: "token_ids s = token_ids u" "num_prompt_tokens s = num_prompt_tokens u"
    "multimodal_position_delta s = multimodal_position_delta u" "recompute_replay_cursor s = Some 0"
    using st delta assms(6-9) by simp_all
  have "num_tokens s = num_tokens u" using assms(1,5) same(1) by (simp add: seq_wf_def)
  with same have nc: "num_completion_tokens s = num_completion_tokens u"
    and comp: "completion_token_ids s = completion_token_ids u"
    by (simp_all add: num_completion_tokens_def completion_token_ids_def)
  define s' where "s' = s\<lparr>recompute_replay_cursor := None,
    decode_progress_checkpoint := num_completion_tokens s\<rparr>"
  have cnt: "0 < replay_decode_token_count s" "replay_decode_token_count s - 1 = num_completion_tokens s - 2"
    using assms(3) nc by (auto simp: replay_decode_token_count_def)
  have run: "replay_run s = Inr (map (\<lambda>i. (token_ids s ! nat (num_prompt_tokens s + i),
      num_prompt_tokens s + i + multimodal_position_delta s)) [0..replay_decode_token_count s - 1], s')"
    unfolding s'_def using replay_run_from [OF assms(5) same(4) assms(10) cnt(1)] .
  have hist: "map (\<lambda>i. token_ids s ! nat (num_prompt_tokens s + i))
      [0..replay_decode_token_count s - 1] = butlast (completion_token_ids s)"
    using replay_history_eq [OF assms(5)] assms(3) nc by simp
  have ne: "token_ids u \<noteq> []" using assms(1,3) by (auto simp: seq_wf_def num_completion_tokens_def)
  have wf': "seq_wf s'" using assms(3,5) nc by (auto simp: s'_def seq_wf_def seq_defs)
  have "decode_input_token s' = Inr (last (token_ids u))"
    using assms(5) ne same(1) by (simp add: s'_def decode_input_token_def seq_wf_def last_opt_def seq_defs)
  moreover have "decode_input_token u = Inr (last (token_ids u))"
    using assms(1,2) ne by (simp add: decode_input_token_def seq_wf_def last_opt_def seq_defs)
  moreover have "decode_input_position s' = decode_input_position u"
    using assms(2) same \<open>num_tokens s = num_tokens u\<close> by (simp add: s'_def decode_input_position_def seq_defs)
  ultimately show ?thesis
    using run hist wf' cnt(2) same nc comp by (auto simp: s'_def seq_defs comp_def)
qed

definition example_params :: sampling_params where
  "example_params =
     \<lparr>temperature = Fin 1, top_p = Fin 1, top_k = 0, presence_penalty = Fin 1,
      repetition_penalty = Fin 1, max_tokens = 16, ignore_eos = False, eos_token_ids = [],
      logprobs = None, benchmark_forced_token_ids = None\<rparr>"

text \<open>A request with prompt \<open>[5, 6]\<close> and accepted completion \<open>[7, 8, 9]\<close>.\<close>

definition example_decoded :: sequence where
  "example_decoded =
     append_token 9 None None (append_token 8 None None (append_token 7 None None
       (projr (Sequence 0 [5, 6] example_params None 0))))"

definition example_replaying :: sequence where
  "example_replaying =
     (snd (start_recompute_replay example_decoded))\<lparr>num_prefilled_tokens := 2\<rparr>"

lemma example_decoded_wf: "seq_wf example_decoded" "token_ids example_decoded = [5, 6, 7, 8, 9]"
  "num_prompt_tokens example_decoded = 2" "num_tokens example_decoded = 5"
  "num_prefilled_tokens example_decoded = 0" "recompute_replay_cursor example_decoded = None"
  "max_tokens example_decoded = 16" "presence_penalty example_decoded = Fin 1"
proof -
  obtain s where s: "Sequence 0 [5, 6] example_params None 0 = Inr s"
    by (simp add: Sequence_def)
  have s': "num_prompt_tokens s = 2" "num_tokens s = 2" "num_prefilled_tokens s = 0"
    "recompute_replay_cursor s = None" "max_tokens s = 16" "presence_penalty s = Fin 1"
    using s by (auto simp: Sequence_def example_params_def)
  show "seq_wf example_decoded"
    unfolding example_decoded_def s by (simp add: append_token_wf Sequence_wf [OF s])
  show "token_ids example_decoded = [5, 6, 7, 8, 9]" "num_prompt_tokens example_decoded = 2"
    "num_tokens example_decoded = 5" "num_prefilled_tokens example_decoded = 0"
    "recompute_replay_cursor example_decoded = None" "max_tokens example_decoded = 16"
    "presence_penalty example_decoded = Fin 1"
    unfolding example_decoded_def s using Sequence_wf [OF s] s' by simp_all
qed

lemma example_replaying_wf: "seq_wf example_replaying" "token_ids example_replaying = [5, 6, 7, 8, 9]"
  "num_prompt_tokens example_replaying = 2" "num_tokens example_replaying = 5"
  "num_prefilled_tokens example_replaying = 2" "recompute_replay_cursor example_replaying = Some 0"
proof -
  have st: "start_recompute_replay example_decoded = (Inr (), snd (start_recompute_replay example_decoded))"
    using example_decoded_wf by (simp add: start_recompute_replay_def num_completion_tokens_def)
  note W = start_recompute_replay_wf [OF example_decoded_wf(1) st]
  have "num_tokens (snd (start_recompute_replay example_decoded)) = 5"
    using W(1,2) example_decoded_wf(2) by (simp add: seq_wf_def)
  with W show "seq_wf example_replaying" "token_ids example_replaying = [5, 6, 7, 8, 9]"
    "num_prompt_tokens example_replaying = 2" "num_tokens example_replaying = 5"
    "num_prefilled_tokens example_replaying = 2" "recompute_replay_cursor example_replaying = Some 0"
    using example_decoded_wf by (auto simp: example_replaying_def seq_wf_def seq_defs)
qed

lemma example_start:
  "start_recompute_replay example_decoded = (Inr (), snd (start_recompute_replay example_decoded))"
  using example_decoded_wf by (simp add: start_recompute_replay_def num_completion_tokens_def)

theorem replay_feeds_accepted_history_witness:
  "\<exists>steps s'. replay_run example_replaying = Inr (steps, s') \<and> map fst steps = [7, 8] \<and>
     decode_input_token s' = Inr 9 \<and> decode_input_position s' = decode_input_position example_decoded"
  using replay_feeds_accepted_history [OF example_decoded_wf(1) _ _ example_start example_replaying_wf(1)]
    example_decoded_wf example_replaying_wf
  by (auto simp: example_replaying_def num_completion_tokens_def completion_token_ids_def
      is_recompute_replay_def)

text \<open>
  C8.  The compact form sent to the tensor-parallel workers loses nothing they need: for every
  well-formed sequence that \<open>__getstate__\<close> can pickle, unpickling succeeds, all header fields and the
  decode position agree; in the prefill phase the worker has exactly the scheduled slice of the tokens,
  and, where that slice lies inside the prompt, the same replay input as rank 0; in the decode phase,
  whatever chunk size is left over from the prefill, it has the same input token as rank 0.
\<close>

theorem ipc_preserves_active_view:
  assumes wf: "seq_wf s" and w: "getstate s = Inr w"
  shows "\<exists>s'. setstate w = Inr s' \<and> ipc_header s' = ipc_header s \<and>
    decode_input_position s' = decode_input_position s \<and>
    (if num_completion_tokens s = 0 \<or> is_recompute_prefill s
     then token_ids s' = slice (num_prefilled_tokens s) (num_prefilled_tokens s + active_chunk s) (token_ids s) \<and>
       (0 \<le> active_chunk s \<and> num_prefilled_tokens s + active_chunk s \<le> num_prompt_tokens s \<longrightarrow>
          replay_input_token_ids s' = replay_input_token_ids s)
     else decode_input_token s' = decode_input_token s)"
proof (cases "num_completion_tokens s = 0 \<or> is_recompute_prefill s")
  case True
  define sl where "sl = slice (num_prefilled_tokens s) (num_prefilled_tokens s + active_chunk s) (token_ids s)"
  obtain pt lt where s': "setstate w = Inr (ipc_extend (ipc_header s) sl pt lt)"
    using getstate_prefill [OF wf True w] unfolding sl_def by blast
  have len: "int (length sl) = active_chunk s"
    if chunk: "0 \<le> active_chunk s" "num_prefilled_tokens s + active_chunk s \<le> num_prompt_tokens s"
    using slice_length [of "num_prefilled_tokens s" "active_chunk s" "token_ids s"] wf chunk
    by (simp add: sl_def seq_wf_def)
  have "replay_input_token_ids (ipc_extend (ipc_header s) sl pt lt) = replay_input_token_ids s"
    if chunk: "0 \<le> active_chunk s" "num_prefilled_tokens s + active_chunk s \<le> num_prompt_tokens s"
  proof (cases "is_recompute_prefill s")
    case False
    then show ?thesis by (simp add: replay_input_token_ids_def seq_defs)
  next
    case rp: True
    have "num_prompt_tokens s < int (length (token_ids s))"
      using rp wf by (auto simp: seq_defs seq_wf_def)
    then show ?thesis
      using rp len [OF chunk] chunk wf
      by (cases "current_chunk_size s")
        (auto simp: replay_input_token_ids_def seq_defs seq_wf_def active_chunk_def sl_def Let_def slice_def)
  qed
  with s' True show ?thesis
    by (auto simp: ipc_header_extend decode_input_position_def seq_defs sl_def)
next
  case False
  have h: "\<not> (num_completion_tokens (ipc_header s) = 0 \<or> is_recompute_prefill (ipc_header s))"
    using False by (simp add: seq_defs)
  show ?thesis
  proof (cases "is_recompute_decode s")
    case True
    then obtain t where t: "decode_input_token s = Inr t" "w = (ipc_header s, IpcToken (Some t))"
      using w False by (auto simp: getstate_def bindR_eq_Inr)
    obtain c where c: "recompute_replay_cursor s = Some c" "0 \<le> c"
      using True wf by (auto simp: seq_defs seq_wf_def)
    have "\<not> c \<ge> replay_decode_token_count s"
      using t(1) True c by (auto simp: decode_input_token_def opt_or_zero_def split: if_splits)
    with t c True wf h False show ?thesis
      by (auto simp: setstate_def ipc_header_extend decode_input_position_def
          decode_input_token_def seq_defs seq_wf_def Let_def)
  next
    case nd: False
    then have "w = (ipc_header s, IpcToken (last_token s))" using w False by (simp add: getstate_def)
    with nd h False show ?thesis
      by (auto simp: setstate_def ipc_header_extend decode_input_position_def
          decode_input_token_def seq_defs)
  qed
qed

text \<open>The stale chunk size 2 of the last prefill step is still there when the request decodes.\<close>

theorem ipc_preserves_active_view_witness:
  "\<exists>w s'. getstate (example_replaying\<lparr>current_chunk_size := Some 2\<rparr>) = Inr w \<and> setstate w = Inr s' \<and>
     current_chunk_size s' = Some 2 \<and> decode_input_token s' = Inr 7"
proof -
  let ?s = "example_replaying\<lparr>current_chunk_size := Some 2\<rparr>"
  note E = example_replaying_wf
  have wf: "seq_wf ?s"
    using E(1) by (auto simp: seq_wf_def num_completion_tokens_def completion_token_ids_def)
  have tok: "decode_input_token ?s = Inr 7"
    using E by (simp add: decode_input_token_def seq_defs)
  have get: "getstate ?s = Inr (ipc_header ?s, IpcToken (Some 7))"
    using E tok by (simp add: getstate_def seq_defs)
  have chunk: "current_chunk_size s' = Some 2" if "ipc_header s' = ipc_header ?s" for s'
    using arg_cong [OF that, of current_chunk_size] by simp
  have "\<exists>s'. setstate (ipc_header ?s, IpcToken (Some 7)) = Inr s' \<and> ipc_header s' = ipc_header ?s \<and>
      decode_input_token s' = Inr 7"
    using ipc_preserves_active_view [OF wf get] tok E by (auto simp: seq_defs)
  with get chunk show ?thesis by blast
qed

text \<open>
  The sampling penalties see the whole history.  With an active penalty and some tokens to
  penalise, the device buffer returned on rank 0 (whatever was synchronised to it before, on
  whatever device) holds each distinct completion token (presence) or each distinct prompt or
  completion token (repetition) exactly once, and no uninitialised element; the sequence stays
  well-formed.
\<close>

theorem penalty_tensors_complete:
  assumes wf: "seq_wf s" and v: "0 < vocab"
  shows "(flt_neq (presence_penalty s) 0 \<and> completion_token_ids s \<noteq> [] \<longrightarrow>
      (\<exists>ts s'. presence_penalty_token_ids_tensor dev vocab s = (Inr (Some (map Some ts)), s') \<and>
        distinct ts \<and> set ts = set (completion_token_ids s) \<and> seq_wf s')) \<and>
    (flt_neq (repetition_penalty s) 1 \<and> token_ids s \<noteq> [] \<longrightarrow>
      (\<exists>ts s'. repetition_penalty_token_ids_tensor dev vocab s = (Inr (Some (map Some ts)), s') \<and>
        distinct ts \<and> set ts = set (token_ids s) \<and> seq_wf s'))"
proof (intro conjI impI)
  define mx where "mx = max 0 (max_tokens s - num_completion_tokens s)"
  assume p: "flt_neq (presence_penalty s) 0 \<and> completion_token_ids s \<noteq> []"
  then obtain u where u: "presence_penalty_tokens s = Some u" "unique_inv u"
    "set (uvalues u) = set (completion_token_ids s)" using wf by (auto simp: seq_wf_def)
  then have "uvalues u \<noteq> []" using p by auto
  note T = to_tensor_ok [OF u(2) this v, of dev mx]
  obtain u' where T': "to_tensor dev vocab mx u = (Inr (Some (map Some (uvalues u))), u')"
    "unique_inv u'" "uvalues u' = uvalues u" using T by (metis prod.collapse)
  show "\<exists>ts s'. presence_penalty_token_ids_tensor dev vocab s = (Inr (Some (map Some ts)), s') \<and>
        distinct ts \<and> set ts = set (completion_token_ids s) \<and> seq_wf s'"
  proof (intro exI conjI)
    show "presence_penalty_token_ids_tensor dev vocab s =
        (Inr (Some (map Some (uvalues u))), s\<lparr>presence_penalty_tokens := Some u'\<rparr>)"
      using p u(1) T'(1) by (simp add: presence_penalty_token_ids_tensor_def
          sampling_penalty_token_tensor_def mx_def Let_def)
    show "seq_wf (s\<lparr>presence_penalty_tokens := Some u'\<rparr>)"
      using seq_wf_set_penalty(1) [OF wf _ T'(2)] p u(3) T'(3) by simp
    show "distinct (uvalues u)" using u(2) by (simp add: unique_inv_def)
  qed (rule u(3))
next
  define mx where "mx = max 0 (max_tokens s - num_completion_tokens s)"
  assume p: "flt_neq (repetition_penalty s) 1 \<and> token_ids s \<noteq> []"
  then obtain u where u: "repetition_penalty_tokens s = Some u" "unique_inv u"
    "set (uvalues u) = set (token_ids s)" using wf by (auto simp: seq_wf_def)
  then have "uvalues u \<noteq> []" using p by auto
  note T = to_tensor_ok [OF u(2) this v, of dev mx]
  obtain u' where T': "to_tensor dev vocab mx u = (Inr (Some (map Some (uvalues u))), u')"
    "unique_inv u'" "uvalues u' = uvalues u" using T by (metis prod.collapse)
  show "\<exists>ts s'. repetition_penalty_token_ids_tensor dev vocab s = (Inr (Some (map Some ts)), s') \<and>
        distinct ts \<and> set ts = set (token_ids s) \<and> seq_wf s'"
  proof (intro exI conjI)
    show "repetition_penalty_token_ids_tensor dev vocab s =
        (Inr (Some (map Some (uvalues u))), s\<lparr>repetition_penalty_tokens := Some u'\<rparr>)"
      using p u(1) T'(1) by (simp add: repetition_penalty_token_ids_tensor_def
          sampling_penalty_token_tensor_def mx_def Let_def)
    show "seq_wf (s\<lparr>repetition_penalty_tokens := Some u'\<rparr>)"
      using seq_wf_set_penalty(2) [OF wf _ T'(2)] p u(3) T'(3) by simp
    show "distinct (uvalues u)" using u(2) by (simp add: unique_inv_def)
  qed (rule u(3))
qed

theorem penalty_tensors_complete_witness:
  "\<exists>ts s'. presence_penalty_token_ids_tensor 0 100 example_decoded = (Inr (Some (map Some ts)), s') \<and>
     distinct ts \<and> set ts = {7, 8, 9}"
  using penalty_tensors_complete [OF example_decoded_wf(1), of 100 0] example_decoded_wf
  by (auto simp: flt_neq_def completion_token_ids_def)

end
