(* ===== verification/Decode_Reservation.thy ===== *)
theory Decode_Reservation
  imports Sequence_State
begin

text \<open>
  \<open>engine/cache_manager/decode_reservation.py\<close>: the ledger of promised decode windows.  A
  ledger entry refers to a live \<open>Sequence\<close> object; here it holds the sequence id, and a store
  \<open>\<sigma>\<close> gives the object of every id, so that a change of the object is seen by every holder.
  The cache manager's hooks are the record \<open>window_hooks\<close>.
\<close>

section \<open>The model\<close>

record window_hooks =
  decode_window_costs :: "sequence \<Rightarrow> int \<Rightarrow> (string, int) dict"
  decode_window_budgets :: "(string, int) dict"

type_synonym seq_store = "int \<Rightarrow> sequence"

record decode_reservations =
  window :: int
  requests :: "(int, int) dict"

definition submitted_output_count :: "sequence \<Rightarrow> int" where
  "submitted_output_count s = num_completion_tokens s + num_pending_outputs s"

definition DecodeReservations :: "int \<Rightarrow> decode_reservations result" where
  "DecodeReservations w = (if w \<le> 0 then Inl ValueError else Inr \<lparr>window = w, requests = []\<rparr>)"

definition release :: "int \<Rightarrow> decode_reservations \<Rightarrow> decode_reservations" where
  "release sid r = r\<lparr>requests := dict_pop sid (requests r)\<rparr>"

definition remaining_window :: "seq_store \<Rightarrow> int \<times> int \<Rightarrow> int" where
  "remaining_window \<sigma> = (\<lambda>(sid, stop). max 0 (stop - submitted_output_count (\<sigma> sid)))"

definition outstanding :: "window_hooks \<Rightarrow> seq_store \<Rightarrow> int option \<Rightarrow> decode_reservations \<Rightarrow> (string, int) dict" where
  "outstanding cm \<sigma> exclude r =
     foldl (\<lambda>t e. if Some (fst e) = exclude then t
                  else if remaining_window \<sigma> e \<noteq> 0
                  then dict_add t (decode_window_costs cm (\<sigma> (fst e)) (remaining_window \<sigma> e))
                  else t)
       [] (requests r)"

definition needs_acquisition :: "seq_store \<Rightarrow> decode_reservations \<Rightarrow> int \<Rightarrow> bool" where
  "needs_acquisition \<sigma> r sid =
     (let submitted = submitted_output_count (\<sigma> sid) in
      if (case map_of (requests r) sid of None \<Rightarrow> False | Some stop \<Rightarrow> submitted < stop) then False
      else submitted < max_tokens (\<sigma> sid) \<and> \<not> is_recompute_replay (\<sigma> sid))"

text \<open>
  The local function \<open>fits\<close> of \<open>_acquire\<close>: \<open>all\<close> stops at the first name that does not fit,
  and reading the budget of an unknown name raises \<open>KeyError\<close>.
\<close>

fun window_fits :: "(string, int) dict \<Rightarrow> (string, int) dict \<Rightarrow> (string, int) dict \<Rightarrow>
    (string, int) dict \<Rightarrow> bool result" where
  "window_fits out reserve budgets [] = Inr True"
| "window_fits out reserve budgets ((name, cost) # costs) =
     (case map_of budgets name of
        None \<Rightarrow> Inl KeyError
      | Some b \<Rightarrow>
          if cost + dict_get out name 0 + dict_get reserve name 0 \<le> b
          then window_fits out reserve budgets costs else Inr False)"

type_synonym ledger_state = "decode_reservations \<times> (string, int) dict"

text \<open>The tokens \<open>_acquire\<close> settles on, or \<open>None\<close> when it returns \<open>False\<close>.\<close>

definition acquire_tokens :: "window_hooks \<Rightarrow> seq_store \<Rightarrow> (string, int) dict \<Rightarrow> (string, int) dict \<Rightarrow>
    bool \<Rightarrow> int \<Rightarrow> ledger_state \<Rightarrow> int option result" where
  "acquire_tokens cm \<sigma> budgets reserve allow_short sid st =
     (case st of (r, out) \<Rightarrow>
        let seq = \<sigma> sid;
            tokens = min (window r) (max_tokens seq - submitted_output_count seq);
            fits = (\<lambda>n. window_fits out reserve budgets (decode_window_costs cm seq n))
        in bindR (fits tokens) (\<lambda>ok.
             if ok then Inr (Some tokens)
             else if \<not> allow_short then Inr None
             else bindR (fits 1) (\<lambda>one.
               if \<not> one then Inr None
               else bindR (bisect_maxR fits 1 tokens) (\<lambda>n. Inr (Some n)))))"

definition acquire_one :: "window_hooks \<Rightarrow> seq_store \<Rightarrow> (string, int) dict \<Rightarrow> (string, int) dict \<Rightarrow>
    bool \<Rightarrow> int \<Rightarrow> (ledger_state, bool) eff" where
  "acquire_one cm \<sigma> budgets reserve allow_short sid st =
     (case acquire_tokens cm \<sigma> budgets reserve allow_short sid st of
        Inl e \<Rightarrow> (Inl e, st)
      | Inr None \<Rightarrow> (Inr False, st)
      | Inr (Some tokens) \<Rightarrow>
          (case st of (r, out) \<Rightarrow>
             (Inr True,
              (r\<lparr>requests := dict_set sid (submitted_output_count (\<sigma> sid) + tokens) (requests r)\<rparr>,
               dict_add out (decode_window_costs cm (\<sigma> sid) tokens)))))"

text \<open>
  The loop of \<open>acquire_many\<close> once the totals are computed; the result is the first sequence
  that cannot be served.
\<close>

fun acquire_loop :: "window_hooks \<Rightarrow> seq_store \<Rightarrow> (string, int) dict \<Rightarrow> (string, int) dict \<Rightarrow>
    bool \<Rightarrow> int list \<Rightarrow> (ledger_state, int option) eff" where
  "acquire_loop cm \<sigma> budgets reserve allow_short [] st = (Inr None, st)"
| "acquire_loop cm \<sigma> budgets reserve allow_short (sid # sids) st =
     (if \<not> needs_acquisition \<sigma> (fst st) sid
      then acquire_loop cm \<sigma> budgets reserve allow_short sids st
      else case acquire_one cm \<sigma> budgets reserve allow_short sid st of
          (Inl e, st') \<Rightarrow> (Inl e, st')
        | (Inr False, st') \<Rightarrow> (Inr (Some sid), st')
        | (Inr True, st') \<Rightarrow> acquire_loop cm \<sigma> budgets reserve allow_short sids st')"

definition acquire_many :: "window_hooks \<Rightarrow> seq_store \<Rightarrow> int list \<Rightarrow> bool \<Rightarrow>
    (string, int) dict option \<Rightarrow> (string, int) dict option \<Rightarrow> (decode_reservations, int option) eff" where
  "acquire_many cm \<sigma> sids allow_short reserve budgets r =
     (case acquire_loop cm \<sigma>
        (case budgets of None \<Rightarrow> decode_window_budgets cm | Some b \<Rightarrow> b)
        (case reserve of None \<Rightarrow> [] | Some p \<Rightarrow> p) allow_short sids (r, outstanding cm \<sigma> None r) of
        (res, (r', out')) \<Rightarrow> (res, r'))"

definition acquire :: "window_hooks \<Rightarrow> seq_store \<Rightarrow> int \<Rightarrow> bool \<Rightarrow> (string, int) dict option \<Rightarrow>
    (string, int) dict option \<Rightarrow> (decode_reservations, bool) eff" where
  "acquire cm \<sigma> sid allow_short reserve budgets r =
     (case acquire_many cm \<sigma> [sid] allow_short reserve budgets r of
        (Inl e, r') \<Rightarrow> (Inl e, r')
      | (Inr x, r') \<Rightarrow> (Inr (x = None), r'))"

section \<open>The ledger total\<close>

text \<open>
  A manager's cost dict has distinct names.  The contribution of one entry, and the total as a
  sum over the entries.
\<close>

definition hooks_ok :: "window_hooks \<Rightarrow> bool" where
  "hooks_ok cm \<longleftrightarrow> (\<forall>s n. distinct (map fst (decode_window_costs cm s n)))"

definition promised :: "window_hooks \<Rightarrow> seq_store \<Rightarrow> string \<Rightarrow> int \<times> int \<Rightarrow> int" where
  "promised cm \<sigma> name e =
     (if remaining_window \<sigma> e \<noteq> 0
      then dict_get (decode_window_costs cm (\<sigma> (fst e)) (remaining_window \<sigma> e)) name 0 else 0)"

lemma foldl_outstanding:
  assumes "hooks_ok cm"
  shows "dict_get (foldl (\<lambda>t e. if Some (fst e) = exclude then t
        else if remaining_window \<sigma> e \<noteq> 0
        then dict_add t (decode_window_costs cm (\<sigma> (fst e)) (remaining_window \<sigma> e)) else t) t es) name 0
    = dict_get t name 0 +
      sum_list (map (promised cm \<sigma> name) (filter (\<lambda>e. Some (fst e) \<noteq> exclude) es))"
  using assms
  by (induction es arbitrary: t) (auto simp: promised_def dict_get_add hooks_ok_def)

lemma outstanding_sum:
  "hooks_ok cm \<Longrightarrow> dict_get (outstanding cm \<sigma> None r) name 0 =
     sum_list (map (promised cm \<sigma> name) (requests r))"
  using foldl_outstanding [of cm None \<sigma> "[]" "requests r" name] by (simp add: outstanding_def)

lemma sum_list_dict_set:
  fixes f :: "'k \<times> 'v \<Rightarrow> int"
  assumes "distinct (map fst d)"
  shows "sum_list (map f (dict_set k v d)) =
    sum_list (map f d) + f (k, v) - (case map_of d k of None \<Rightarrow> 0 | Some v' \<Rightarrow> f (k, v'))"
  using assms
proof (induction d)
  case Nil
  then show ?case by simp
next
  case (Cons p d)
  obtain k' v' where p: "p = (k', v')" by fastforce
  then show ?case using Cons by auto
qed

lemma distinct_dict_set: "distinct (map fst d) \<Longrightarrow> distinct (map fst (dict_set k v d))"
  by (rule distinct_update)

text \<open>The running totals of \<open>acquire_many\<close> are the totals of the ledger as it stands.\<close>

definition ledger_inv :: "window_hooks \<Rightarrow> seq_store \<Rightarrow> ledger_state \<Rightarrow> bool" where
  "ledger_inv cm \<sigma> = (\<lambda>(r, out). 0 < window r \<and> distinct (map fst (requests r)) \<and>
     (\<forall>name. dict_get out name 0 = dict_get (outstanding cm \<sigma> None r) name 0))"

section \<open>One acquisition\<close>

lemma window_fits_True:
  "window_fits out reserve budgets costs = Inr True \<longleftrightarrow>
   (\<forall>(name, c) \<in> set costs. \<exists>b. map_of budgets name = Some b \<and>
      c + dict_get out name 0 + dict_get reserve name 0 \<le> b)"
  by (induction out reserve budgets costs rule: window_fits.induct) (auto split: option.splits)

lemma window_fits_total:
  "fst ` set costs \<subseteq> fst ` set budgets \<Longrightarrow>
   \<exists>b. window_fits out reserve budgets costs = Inr b"
proof (induction out reserve budgets costs rule: window_fits.induct)
  case (2 out reserve budgets name cost costs)
  then obtain b where "map_of budgets name = Some b"
    by (cases "map_of budgets name") (auto simp: map_of_eq_None_iff)
  with 2 show ?case by auto
qed auto

lemma acquire_tokens_fits:
  assumes "acquire_tokens cm \<sigma> budgets reserve allow_short sid (r, out) = Inr (Some n)"
    and "0 < window r" and "submitted_output_count (\<sigma> sid) < max_tokens (\<sigma> sid)"
  shows "1 \<le> n \<and> n \<le> min (window r) (max_tokens (\<sigma> sid) - submitted_output_count (\<sigma> sid)) \<and>
    window_fits out reserve budgets (decode_window_costs cm (\<sigma> sid) n) = Inr True"
proof -
  define t where "t = min (window r) (max_tokens (\<sigma> sid) - submitted_output_count (\<sigma> sid))"
  define fits where "fits = (\<lambda>n. window_fits out reserve budgets (decode_window_costs cm (\<sigma> sid) n))"
  have t: "1 \<le> t" using assms by (simp add: t_def)
  have "fits t = Inr True \<and> n = t \<or> fits 1 = Inr True \<and> bisect_maxR fits 1 t = Inr n"
    using assms(1) by (auto simp: acquire_tokens_def Let_def bindR_eq_Inr fits_def t_def split: if_splits)
  then have "1 \<le> n \<and> n \<le> t \<and> fits n = Inr True"
    using bisect_maxR_fits [of fits 1 t n] t by blast
  then show ?thesis by (simp add: t_def fits_def)
qed

lemma promised_window:
  "0 < n \<Longrightarrow> promised cm \<sigma> name (sid, submitted_output_count (\<sigma> sid) + n) =
     dict_get (decode_window_costs cm (\<sigma> sid) n) name 0"
  by (simp add: promised_def remaining_window_def)

lemma promised_exhausted:
  "needs_acquisition \<sigma> r sid \<Longrightarrow> map_of (requests r) sid = Some stop \<Longrightarrow> promised cm \<sigma> name (sid, stop) = 0"
  by (auto simp: needs_acquisition_def promised_def remaining_window_def Let_def split: if_splits)

lemma outstanding_set:
  assumes "hooks_ok cm" and "distinct (map fst (requests r))" and "needs_acquisition \<sigma> r sid" and "0 < n"
  shows "dict_get (outstanding cm \<sigma> None
      (r\<lparr>requests := dict_set sid (submitted_output_count (\<sigma> sid) + n) (requests r)\<rparr>)) name 0 =
    dict_get (outstanding cm \<sigma> None r) name 0 +
    dict_get (decode_window_costs cm (\<sigma> sid) n) name 0"
  using assms promised_exhausted [OF assms(3)]
  by (auto simp: outstanding_sum sum_list_dict_set promised_window split: option.splits)

lemma acquire_one_inv:
  assumes ok: "hooks_ok cm" and inv: "ledger_inv cm \<sigma> st" and need: "needs_acquisition \<sigma> (fst st) sid"
    and run: "acquire_one cm \<sigma> budgets reserve allow_short sid st = (res, st')"
  shows "ledger_inv cm \<sigma> st'"
proof -
  obtain r out where st: "st = (r, out)" by fastforce
  consider (same) "st' = st"
    | (grant) n where "acquire_tokens cm \<sigma> budgets reserve allow_short sid (r, out) = Inr (Some n)"
        "st' = (r\<lparr>requests := dict_set sid (submitted_output_count (\<sigma> sid) + n) (requests r)\<rparr>,
                dict_add out (decode_window_costs cm (\<sigma> sid) n))"
    using run by (auto simp: acquire_one_def st split: sum.splits option.splits)
  then show ?thesis
  proof cases
    case same
    with inv show ?thesis by simp
  next
    case grant
    have "submitted_output_count (\<sigma> sid) < max_tokens (\<sigma> sid)"
      using need by (auto simp: needs_acquisition_def Let_def split: if_splits)
    then have "0 < n" using acquire_tokens_fits [OF grant(1)] inv by (auto simp: ledger_inv_def st)
    then show ?thesis
      using ok inv need outstanding_set [of cm r \<sigma> sid n]
      by (auto simp: ledger_inv_def grant(2) st distinct_dict_set dict_get_add hooks_ok_def)
  qed
qed

text \<open>
  What one acquisition may do to the promises: \<open>stays_within\<close> says that every name either keeps
  its promised total or is still inside the budget left by the prefill reserve.
\<close>

definition stays_within :: "window_hooks \<Rightarrow> seq_store \<Rightarrow> (string, int) dict \<Rightarrow> (string, int) dict \<Rightarrow>
    decode_reservations \<Rightarrow> decode_reservations \<Rightarrow> bool" where
  "stays_within cm \<sigma> budgets reserve r r' \<longleftrightarrow>
     (\<forall>name. dict_get (outstanding cm \<sigma> None r') name 0 = dict_get (outstanding cm \<sigma> None r) name 0 \<or>
        (\<exists>b. map_of budgets name = Some b \<and>
           dict_get (outstanding cm \<sigma> None r') name 0 + dict_get reserve name 0 \<le> b))"

text \<open>
  \<open>extends\<close>: only requests that needed a window changed, and each new window is nonempty
  and ends within both the configured window and the request's own token limit.
\<close>

definition extends :: "seq_store \<Rightarrow> decode_reservations \<Rightarrow> decode_reservations \<Rightarrow> bool" where
  "extends \<sigma> r r' \<longleftrightarrow> window r' = window r \<and>
     (\<forall>sid. map_of (requests r') sid = map_of (requests r) sid \<or>
        (needs_acquisition \<sigma> r sid \<and>
         (\<exists>stop. map_of (requests r') sid = Some stop \<and> submitted_output_count (\<sigma> sid) < stop \<and>
            stop \<le> min (submitted_output_count (\<sigma> sid) + window r) (max_tokens (\<sigma> sid)))))"

lemma stays_within_refl: "stays_within cm \<sigma> budgets reserve r r"
  by (simp add: stays_within_def)

lemma stays_within_trans:
  "stays_within cm \<sigma> b p r r' \<Longrightarrow> stays_within cm \<sigma> b p r' r'' \<Longrightarrow> stays_within cm \<sigma> b p r r''"
  unfolding stays_within_def by metis

lemma extends_refl: "extends \<sigma> r r"
  by (simp add: extends_def)

lemma needs_acquisition_entry:
  "map_of (requests r') sid = map_of (requests r) sid \<Longrightarrow>
   needs_acquisition \<sigma> r' sid = needs_acquisition \<sigma> r sid"
  by (simp add: needs_acquisition_def)

lemma needs_acquisition_served:
  "map_of (requests r) sid = Some stop \<Longrightarrow> submitted_output_count (\<sigma> sid) < stop \<Longrightarrow>
   \<not> needs_acquisition \<sigma> r sid"
  by (simp add: needs_acquisition_def Let_def)

lemma extends_trans:
  assumes "extends \<sigma> r r'" and "extends \<sigma> r' r''"
  shows "extends \<sigma> r r''"
  using assms needs_acquisition_entry needs_acquisition_served unfolding extends_def by metis

lemma extends_serves: "extends \<sigma> r r' \<Longrightarrow> \<not> needs_acquisition \<sigma> r sid \<Longrightarrow> \<not> needs_acquisition \<sigma> r' sid"
  using needs_acquisition_entry unfolding extends_def by metis

lemma acquire_one_cases:
  assumes ok: "hooks_ok cm" and inv: "ledger_inv cm \<sigma> (r, out)" and need: "needs_acquisition \<sigma> r sid"
    and run: "acquire_one cm \<sigma> budgets reserve allow_short sid (r, out) = (res, (r', out'))"
  shows "stays_within cm \<sigma> budgets reserve r r' \<and> extends \<sigma> r r' \<and>
    (res = Inr True \<longrightarrow> \<not> needs_acquisition \<sigma> r' sid) \<and> (res \<noteq> Inr True \<longrightarrow> r' = r)"
proof -
  have lt: "submitted_output_count (\<sigma> sid) < max_tokens (\<sigma> sid)"
    using need by (auto simp: needs_acquisition_def Let_def split: if_splits)
  consider (same) "r' = r" "res \<noteq> Inr True"
    | (grant) n where "acquire_tokens cm \<sigma> budgets reserve allow_short sid (r, out) = Inr (Some n)"
        "r' = r\<lparr>requests := dict_set sid (submitted_output_count (\<sigma> sid) + n) (requests r)\<rparr>"
        "res = Inr True"
    using run by (auto simp: acquire_one_def split: sum.splits option.splits)
  then show ?thesis
  proof cases
    case same
    then show ?thesis by (simp add: stays_within_refl extends_refl)
  next
    case grant
    have n: "1 \<le> n" "n \<le> min (window r) (max_tokens (\<sigma> sid) - submitted_output_count (\<sigma> sid))"
      and fits: "window_fits out reserve budgets (decode_window_costs cm (\<sigma> sid) n) = Inr True"
      using acquire_tokens_fits [OF grant(1)] inv lt by (auto simp: ledger_inv_def)
    have w: "stays_within cm \<sigma> budgets reserve r r'"
      unfolding stays_within_def
    proof
      fix name
      have tot: "dict_get (outstanding cm \<sigma> None r') name 0 = dict_get out name 0 +
          dict_get (decode_window_costs cm (\<sigma> sid) n) name 0"
        and out: "dict_get out name 0 = dict_get (outstanding cm \<sigma> None r) name 0"
        using outstanding_set [of cm r \<sigma> sid n] ok inv need n
        by (auto simp: grant(2) ledger_inv_def)
      show "dict_get (outstanding cm \<sigma> None r') name 0 = dict_get (outstanding cm \<sigma> None r) name 0 \<or>
        (\<exists>b. map_of budgets name = Some b \<and>
           dict_get (outstanding cm \<sigma> None r') name 0 + dict_get reserve name 0 \<le> b)"
      proof (cases "map_of (decode_window_costs cm (\<sigma> sid) n) name")
        case None
        then show ?thesis using tot out by (simp add: dict_get_def)
      next
        case (Some c)
        then show ?thesis using tot fits map_of_SomeD [OF Some]
          by (force simp: window_fits_True dict_get_def)
      qed
    qed
    have "extends \<sigma> r r'" using n need by (auto simp: extends_def grant(2) update_conv')
    moreover have "\<not> needs_acquisition \<sigma> r' sid"
      using n by (intro needs_acquisition_served) (auto simp: grant(2) update_conv')
    ultimately show ?thesis using w grant(3) by simp
  qed
qed

section \<open>A batch of acquisitions\<close>

lemma acquire_loop_spec:
  assumes "hooks_ok cm" and "ledger_inv cm \<sigma> st"
    and "acquire_loop cm \<sigma> budgets reserve allow_short sids st = (res, st')"
  shows "ledger_inv cm \<sigma> st' \<and> stays_within cm \<sigma> budgets reserve (fst st) (fst st') \<and>
    extends \<sigma> (fst st) (fst st') \<and>
    (res = Inr None \<longrightarrow> (\<forall>sid \<in> set sids. \<not> needs_acquisition \<sigma> (fst st') sid)) \<and>
    (\<forall>sid. res = Inr (Some sid) \<longrightarrow> sid \<in> set sids \<and> needs_acquisition \<sigma> (fst st') sid)"
  using assms(2,3)
proof (induction sids arbitrary: st)
  case Nil
  then show ?case by (auto simp: stays_within_refl extends_refl)
next
  case (Cons sid sids)
  obtain r out where st: "st = (r, out)" by fastforce
  show ?case
  proof (cases "needs_acquisition \<sigma> r sid")
    case False
    then have "acquire_loop cm \<sigma> budgets reserve allow_short sids st = (res, st')"
      using Cons.prems st by simp
    from Cons.IH [OF Cons.prems(1) this] show ?thesis
      using extends_serves [of \<sigma> r "fst st'" sid] False st by auto
  next
    case True
    obtain o1 r1 out1 where one: "acquire_one cm \<sigma> budgets reserve allow_short sid st = (o1, (r1, out1))"
      by (metis prod.collapse)
    have inv1: "ledger_inv cm \<sigma> (r1, out1)"
      using acquire_one_inv [OF assms(1) Cons.prems(1) _ one] True st by simp
    have step: "stays_within cm \<sigma> budgets reserve r r1" "extends \<sigma> r r1"
      "o1 = Inr True \<Longrightarrow> \<not> needs_acquisition \<sigma> r1 sid" "o1 \<noteq> Inr True \<Longrightarrow> r1 = r"
      using acquire_one_cases [OF assms(1) _ True] Cons.prems(1) one st by auto
    show ?thesis
    proof (cases "o1 = Inr True")
      case go: True
      then have "acquire_loop cm \<sigma> budgets reserve allow_short sids (r1, out1) = (res, st')"
        using Cons.prems(2) one True st by simp
      note IH = Cons.IH [OF inv1 this]
      have "stays_within cm \<sigma> budgets reserve r (fst st')" "extends \<sigma> r (fst st')"
        using stays_within_trans [OF step(1)] extends_trans [OF step(2)] IH by simp_all
      moreover have "\<not> needs_acquisition \<sigma> (fst st') sid"
        using extends_serves [of \<sigma> r1 "fst st'" sid] IH step(3) [OF go] by simp
      ultimately show ?thesis using IH st by simp
    next
      case False
      then have "st' = (r1, out1) \<and> (res = Inr (Some sid) \<or> (\<exists>e. res = Inl e))"
        using Cons.prems(2) one True st by (cases o1) auto
      then show ?thesis using step False inv1 True st by auto
    qed
  qed
qed

text \<open>
  C5. Decode windows are never over-committed.  \<open>acquire_many\<close> leaves every resource either
  with the promises it had or with promises that, together with the prefill reserve, stay inside
  the budget; it only touches requests whose window was used up, gives each a nonempty window
  that ends within the configured window and the request's token limit, and reports \<open>None\<close>
  exactly when every request of the batch is served, otherwise an unserved request of the batch.
\<close>

theorem acquire_many_no_overcommit:
  assumes "hooks_ok cm" and "0 < window r" and "distinct (map fst (requests r))"
    and "acquire_many cm \<sigma> sids allow_short (Some reserve) (Some budgets) r = (res, r')"
  shows "(\<forall>name. dict_get (outstanding cm \<sigma> None r') name 0 = dict_get (outstanding cm \<sigma> None r) name 0 \<or>
      (\<exists>b. map_of budgets name = Some b \<and>
         dict_get (outstanding cm \<sigma> None r') name 0 + dict_get reserve name 0 \<le> b))
    \<and> (\<forall>sid. map_of (requests r') sid = map_of (requests r) sid \<or>
        (needs_acquisition \<sigma> r sid \<and>
         (\<exists>stop. map_of (requests r') sid = Some stop \<and> submitted_output_count (\<sigma> sid) < stop \<and>
            stop \<le> min (submitted_output_count (\<sigma> sid) + window r) (max_tokens (\<sigma> sid)))))
    \<and> (res = Inr None \<longrightarrow> (\<forall>sid \<in> set sids. \<not> needs_acquisition \<sigma> r' sid))
    \<and> (\<forall>sid. res = Inr (Some sid) \<longrightarrow> sid \<in> set sids \<and> needs_acquisition \<sigma> r' sid)
    \<and> window r' = window r \<and> distinct (map fst (requests r'))"
proof -
  define st where "st = (r, outstanding cm \<sigma> None r)"
  obtain out' where run: "acquire_loop cm \<sigma> budgets reserve allow_short sids st = (res, (r', out'))"
    using assms(4) by (auto simp: acquire_many_def st_def split: prod.splits)
  have "ledger_inv cm \<sigma> st" using assms by (simp add: ledger_inv_def st_def)
  note spec = acquire_loop_spec [OF assms(1) this run]
  then have a: "stays_within cm \<sigma> budgets reserve r r'" "extends \<sigma> r r'" "ledger_inv cm \<sigma> (r', out')"
    by (simp_all add: st_def)
  show ?thesis
    using a(1) [unfolded stays_within_def] a(2) [unfolded extends_def] a(3) [unfolded ledger_inv_def] spec
    by (simp add: st_def)
qed

lemma append_token_pending: "num_pending_outputs (append_token t lp tlp s) = num_pending_outputs s"
  by (simp add: append_token_def track_sampling_penalty_token_def Let_def split: option.splits)

lemma example_submitted:
  "submitted_output_count example_decoded = 3" "\<not> is_recompute_replay example_decoded"
proof -
  obtain s where s: "Sequence 0 [5, 6] example_params None 0 = Inr s" and p: "num_pending_outputs s = 0"
    by (auto simp: Sequence_def example_params_def)
  have "num_pending_outputs example_decoded = 0"
    unfolding example_decoded_def s by (simp add: append_token_pending p)
  then show "submitted_output_count example_decoded = 3" "\<not> is_recompute_replay example_decoded"
    using example_decoded_wf by (simp_all add: submitted_output_count_def num_completion_tokens_def is_recompute_replay_def)
qed

definition example_hooks :: window_hooks where
  "example_hooks = \<lparr>decode_window_costs = (\<lambda>s n. [(''slots'', n)]), decode_window_budgets = [(''slots'', 9)]\<rparr>"

text \<open>
  Two requests share nine slots, one reserved for prefill, under a window of six tokens: the first
  is served, the second is refused although one slot is free, and the first keeps its window.
\<close>

theorem acquire_many_no_overcommit_witness:
  "\<exists>r'. acquire_many example_hooks (\<lambda>_. example_decoded) [0, 1] False (Some [(''slots'', 1)])
      (Some [(''slots'', 9)]) \<lparr>window = 6, requests = []\<rparr> = (Inr (Some 1), r') \<and>
    dict_get (outstanding example_hooks (\<lambda>_. example_decoded) None r') ''slots'' 0 = 6 \<and>
    needs_acquisition (\<lambda>_. example_decoded) r' 1"
proof -
  let ?run = "acquire_many example_hooks (\<lambda>_. example_decoded) [0, 1] False (Some [(''slots'', 1)])
      (Some [(''slots'', 9)]) \<lparr>window = 6, requests = []\<rparr>"
  have run: "?run = (Inr (Some 1), \<lparr>window = 6, requests = [(0, 9)]\<rparr>)"
    using example_submitted example_decoded_wf(7)
    by (simp add: acquire_many_def outstanding_def needs_acquisition_def acquire_one_def acquire_tokens_def
        example_hooks_def dict_add_def)
  have "needs_acquisition (\<lambda>_. example_decoded) \<lparr>window = 6, requests = [(0, 9)]\<rparr> 1"
    using acquire_many_no_overcommit [OF _ _ _ run] by (simp add: hooks_ok_def example_hooks_def)
  then show ?thesis
    using run example_submitted
    by (simp add: outstanding_def remaining_window_def example_hooks_def dict_add_def)
qed

section \<open>The contract of the cost hooks\<close>

text \<open>
  The comment of \<open>_acquire\<close> relies on the hooks being monotone in the horizon.  Under that
  contract the short window found by bisection is the largest that fits.
\<close>

locale monotone_window_costs =
  fixes cm :: window_hooks
  assumes costs_distinct: "distinct (map fst (decode_window_costs cm s n))"
    and costs_names: "map fst (decode_window_costs cm s m) = map fst (decode_window_costs cm s n)"
    and costs_mono: "1 \<le> m \<Longrightarrow> m \<le> n \<Longrightarrow>
      dict_get (decode_window_costs cm s m) name 0 \<le> dict_get (decode_window_costs cm s n) name 0"
begin

lemma hooks_ok: "hooks_ok cm"
  by (simp add: hooks_ok_def costs_distinct)

lemma cost_entry_mono:
  assumes "1 \<le> m" and "m \<le> n" and "(name, c) \<in> set (decode_window_costs cm s m)"
  shows "\<exists>c'. (name, c') \<in> set (decode_window_costs cm s n) \<and> c \<le> c'"
proof -
  have "name \<in> set (map fst (decode_window_costs cm s m))" using assms(3) by force
  then have "name \<in> set (map fst (decode_window_costs cm s n))" using costs_names [of s m n] by simp
  then obtain c' where c': "(name, c') \<in> set (decode_window_costs cm s n)" by auto
  then have "map_of (decode_window_costs cm s n) name = Some c'"
    "map_of (decode_window_costs cm s m) name = Some c"
    using assms(3) costs_distinct by (auto intro: map_of_is_SomeI)
  then show ?thesis using costs_mono [OF assms(1,2), of s name] c' by (auto simp: dict_get_def)
qed

lemma fits_downward:
  assumes "1 \<le> m" and "m \<le> n"
    and "window_fits out reserve budgets (decode_window_costs cm s n) = Inr True"
  shows "window_fits out reserve budgets (decode_window_costs cm s m) = Inr True"
  unfolding window_fits_True
proof (clarify)
  fix name c assume "(name, c) \<in> set (decode_window_costs cm s m)"
  then obtain c' where "(name, c') \<in> set (decode_window_costs cm s n)" "c \<le> c'"
    using cost_entry_mono [OF assms(1,2)] by blast
  with assms(3) show "\<exists>b. map_of budgets name = Some b \<and> c + dict_get out name 0 + dict_get reserve name 0 \<le> b"
    unfolding window_fits_True by force
qed

lemma acquire_tokens_greatest:
  assumes known: "fst ` set (decode_window_costs cm (\<sigma> sid) 1) \<subseteq> fst ` set budgets"
    and one: "window_fits out reserve budgets (decode_window_costs cm (\<sigma> sid) 1) = Inr True"
    and lim: "limit = min (window r) (max_tokens (\<sigma> sid) - submitted_output_count (\<sigma> sid))" "1 \<le> limit"
  shows "\<exists>n. acquire_tokens cm \<sigma> budgets reserve True sid (r, out) = Inr (Some n) \<and> 1 \<le> n \<and> n \<le> limit \<and>
    window_fits out reserve budgets (decode_window_costs cm (\<sigma> sid) n) = Inr True \<and>
    (\<forall>m. n < m \<and> m \<le> limit \<longrightarrow>
       window_fits out reserve budgets (decode_window_costs cm (\<sigma> sid) m) \<noteq> Inr True)"
proof -
  define f where "f = (\<lambda>n. window_fits out reserve budgets (decode_window_costs cm (\<sigma> sid) n))"
  define P where "P = (\<lambda>n. f n = Inr True)"
  have names: "fst ` set (decode_window_costs cm (\<sigma> sid) n) = fst ` set (decode_window_costs cm (\<sigma> sid) 1)" for n
    by (metis costs_names set_map)
  have tot: "f n = Inr (P n)" for n
    using window_fits_total [of "decode_window_costs cm (\<sigma> sid) n" budgets out reserve] known names [of n]
    by (auto simp: P_def f_def)
  have down: "P a" if "1 \<le> a" "a \<le> b" "P b" for a b
    using fits_downward [OF that(1,2)] that(3) by (simp add: P_def f_def)
  define n where "n = (if P limit then limit else bisect_max P 1 limit)"
  have P1: "P 1" using one by (simp add: P_def f_def)
  have big: "\<not> P m" if "bisect_max P 1 limit < m" "m \<le> limit" for m
    using bisect_max_greatest [of 1 limit P m] down that by blast
  have n: "1 \<le> n" "n \<le> limit" "P n"
    using bisect_max_range [OF lim(2), of P] bisect_max_fits [of P 1 limit] P1 lim(2)
    by (simp_all add: n_def)
  have max: "\<forall>m. n < m \<and> m \<le> limit \<longrightarrow> \<not> P m"
    using big by (simp add: n_def)
  have "acquire_tokens cm \<sigma> budgets reserve True sid (r, out) =
    bindR (f limit) (\<lambda>ok. if ok then Inr (Some limit)
      else bindR (f 1) (\<lambda>one. if \<not> one then Inr None
        else bindR (bisect_maxR f 1 limit) (\<lambda>n. Inr (Some n))))"
    unfolding acquire_tokens_def Let_def f_def lim(1) by simp
  then have "acquire_tokens cm \<sigma> budgets reserve True sid (r, out) = Inr (Some n)"
    using bisect_maxR_total [of 1 limit f P] P1 by (simp add: tot n_def)
  with n max show ?thesis unfolding P_def f_def by blast
qed

end

end
