(* ===== verification/Effect_Logic.thy ===== *)
theory Effect_Logic
  imports Prelude
begin

text \<open>
  Control operators of the stateful code and a small program logic for it.
  \<open>spec P m Q E\<close>: started in a state satisfying \<open>P\<close>, \<open>m\<close> either returns a value and a state
  satisfying \<open>Q\<close> or raises in a state satisfying \<open>E\<close>.  The rules follow the operators, so a
  property of an operation is assembled from those of its parts.
\<close>

named_theorems spec_rules \<open>rules of the program logic, applied forwards over the operators\<close>

section \<open>Control operators\<close>

definition queryE :: "('s \<Rightarrow> 'a result) \<Rightarrow> ('s, 'a) eff" where
  "queryE q = (\<lambda>s. (q s, s))"

text \<open>\<open>try: m finally: f\<close> and \<open>try: m except: f; raise\<close> for a handler that cannot raise.\<close>

definition finallyE :: "('s, 'a) eff \<Rightarrow> ('s \<Rightarrow> 's) \<Rightarrow> ('s, 'a) eff" where
  "finallyE m f = (\<lambda>s. case m s of (r, s') \<Rightarrow> (r, f s'))"

definition on_errorE :: "('s, 'a) eff \<Rightarrow> ('s \<Rightarrow> 's) \<Rightarrow> ('s, 'a) eff" where
  "on_errorE m f = (\<lambda>s. case m s of (Inl e, s') \<Rightarrow> (Inl e, f s') | (Inr x, s') \<Rightarrow> (Inr x, s'))"

text \<open>\<open>with enter(): m\<close>: the exit runs on both ways out and may itself raise.\<close>

definition withE :: "('s, unit) eff \<Rightarrow> ('s, unit) eff \<Rightarrow> ('s, 'a) eff \<Rightarrow> ('s, 'a) eff" where
  "withE enter leave m = thenE enter (\<lambda>s. case m s of (r, s') \<Rightarrow>
     (case leave s' of (Inl e, s'') \<Rightarrow> (Inl e, s'') | (Inr _, s'') \<Rightarrow> (r, s'')))"

lemma queryE_apply [eff_simps]: "queryE q s = (q s, s)"
  by (simp add: queryE_def)

section \<open>The program logic\<close>

definition spec :: "('s \<Rightarrow> bool) \<Rightarrow> ('s, 'a) eff \<Rightarrow> ('a \<Rightarrow> 's \<Rightarrow> bool) \<Rightarrow> ('s \<Rightarrow> bool) \<Rightarrow> bool" where
  "spec P m Q E \<longleftrightarrow> (\<forall>s. P s \<longrightarrow> (case m s of (Inl e, s') \<Rightarrow> E s' | (Inr x, s') \<Rightarrow> Q x s'))"

lemma specI:
  assumes "\<And>s e s'. P s \<Longrightarrow> m s = (Inl e, s') \<Longrightarrow> E s'"
    and "\<And>s x s'. P s \<Longrightarrow> m s = (Inr x, s') \<Longrightarrow> Q x s'"
  shows "spec P m Q E"
  using assms by (auto simp: spec_def split: prod.splits sum.splits)

lemma specD_Inr: "spec P m Q E \<Longrightarrow> P s \<Longrightarrow> m s = (Inr x, s') \<Longrightarrow> Q x s'"
  by (fastforce simp: spec_def split: prod.splits sum.splits)

lemma specD_Inl: "spec P m Q E \<Longrightarrow> P s \<Longrightarrow> m s = (Inl e, s') \<Longrightarrow> E s'"
  by (fastforce simp: spec_def split: prod.splits sum.splits)

lemma spec_weaken:
  assumes "spec P m Q E" and "\<And>s. P' s \<Longrightarrow> P s" and "\<And>x s. Q x s \<Longrightarrow> Q' x s" and "\<And>s. E s \<Longrightarrow> E' s"
  shows "spec P' m Q' E'"
  by (rule specI) (use assms specD_Inr specD_Inl in \<open>metis\<close>)+

lemma spec_bind [spec_rules]:
  assumes "spec P m R E" and "\<And>x. spec (R x) (f x) Q E"
  shows "spec P (bindE m f) Q E"
proof -
  have "case bindE m f s of (Inl e, s') \<Rightarrow> E s' | (Inr x, s') \<Rightarrow> Q x s'" if "P s" for s
  proof (cases "m s")
    case (Pair r s')
    then show ?thesis
      using specD_Inr [OF assms(1) that, of _ s'] specD_Inl [OF assms(1) that, of _ s'] assms(2)
      by (cases r) (auto simp: bindE_apply spec_def)
  qed
  then show ?thesis by (simp add: spec_def)
qed

lemma spec_then [spec_rules]: "spec P m (\<lambda>_. R) E \<Longrightarrow> spec R n Q E \<Longrightarrow> spec P (thenE m n) Q E"
  unfolding thenE_def by (rule spec_bind)

lemma spec_if:
  "(c \<Longrightarrow> spec P m Q E) \<Longrightarrow> (\<not> c \<Longrightarrow> spec P n Q E) \<Longrightarrow> spec P (if c then m else n) Q E"
  by simp

lemma spec_ret: "(\<And>s. P s \<Longrightarrow> Q x s) \<Longrightarrow> spec P (retE x) Q E"
  by (simp add: spec_def eff_simps)

lemma spec_raise: "(\<And>s. P s \<Longrightarrow> E s) \<Longrightarrow> spec P (raiseE e) Q E"
  by (simp add: spec_def eff_simps)

lemma spec_get: "(\<And>s. P s \<Longrightarrow> Q (f s) s) \<Longrightarrow> spec P (getE f) Q E"
  by (simp add: spec_def eff_simps)

lemma spec_modify: "(\<And>s. P s \<Longrightarrow> Q () (g s)) \<Longrightarrow> spec P (modifyE g) Q E"
  by (simp add: spec_def eff_simps)

lemma spec_lift: "(\<And>s x. P s \<Longrightarrow> r = Inr x \<Longrightarrow> Q x s) \<Longrightarrow> (\<And>s. P s \<Longrightarrow> E s) \<Longrightarrow> spec P (liftE r) Q E"
  by (auto simp: spec_def eff_simps split: sum.splits)

lemma spec_query:
  "(\<And>s x. P s \<Longrightarrow> q s = Inr x \<Longrightarrow> Q x s) \<Longrightarrow> (\<And>s. P s \<Longrightarrow> E s) \<Longrightarrow> spec P (queryE q) Q E"
  by (auto simp: spec_def eff_simps split: sum.splits)

text \<open>\<open>yields m A\<close>: every value \<open>m\<close> returns satisfies \<open>A\<close>.\<close>

definition yields :: "('s, 'a) eff \<Rightarrow> ('a \<Rightarrow> bool) \<Rightarrow> bool" where
  "yields m A \<longleftrightarrow> (\<forall>s x s'. m s = (Inr x, s') \<longrightarrow> A x)"

lemma yieldsD: "yields m A \<Longrightarrow> m s = (Inr x, s') \<Longrightarrow> A x"
  by (auto simp: yields_def)

lemma spec_conj:
  assumes "spec P m Q E" and "spec P' m Q' E'"
  shows "spec (\<lambda>s. P s \<and> P' s) m (\<lambda>x s. Q x s \<and> Q' x s) (\<lambda>s. E s \<and> E' s)"
  by (rule specI) (use assms specD_Inr specD_Inl in \<open>metis\<close>)+

lemma spec_yields: "spec P m Q E \<Longrightarrow> yields m A \<Longrightarrow> spec P m (\<lambda>x s. Q x s \<and> A x) E"
  by (rule specI) (auto dest: specD_Inr specD_Inl yieldsD)

text \<open>An operation chosen by the state it starts in.\<close>

lemma spec_state: "(\<And>s. P s \<Longrightarrow> spec (\<lambda>t. t = s) (m s) Q E) \<Longrightarrow> spec P (\<lambda>s. m s s) Q E"
  by (simp add: spec_def)

lemma spec_finally:
  "spec P m (\<lambda>x s. Q x (f s)) (\<lambda>s. E (f s)) \<Longrightarrow> spec P (finallyE m f) Q E"
  by (fastforce simp: spec_def finallyE_def split: prod.splits sum.splits)

lemma spec_on_error:
  "spec P m Q (\<lambda>s. E (f s)) \<Longrightarrow> spec P (on_errorE m f) Q E"
  by (fastforce simp: spec_def on_errorE_def split: prod.splits sum.splits)

lemma spec_with:
  assumes "spec P enter (\<lambda>_. R) E" and "spec R m Q' E'"
    and "\<And>x. spec (Q' x) leave (\<lambda>_. Q x) E" and "spec E' leave (\<lambda>_. E) E"
  shows "spec P (withE enter leave m) Q E"
  unfolding withE_def
proof (rule spec_then [OF assms(1)], rule specI)
  fix s e s'
  assume R: "R s" and run: "(case m s of (r, s') \<Rightarrow>
      (case leave s' of (Inl e, s'') \<Rightarrow> (Inl e, s'') | (Inr _, s'') \<Rightarrow> (r, s''))) = (Inl e, s')"
  obtain r s1 where m: "m s = (r, s1)" by fastforce
  obtain l s2 where l: "leave s1 = (l, s2)" by fastforce
  show "E s'"
    using run m l specD_Inr [OF assms(2) R] specD_Inl [OF assms(2) R]
      specD_Inl [OF assms(3)] specD_Inl [OF assms(4)] specD_Inr [OF assms(4)]
    by (cases r; cases l) fastforce+
next
  fix s x s'
  assume R: "R s" and run: "(case m s of (r, s') \<Rightarrow>
      (case leave s' of (Inl e, s'') \<Rightarrow> (Inl e, s'') | (Inr _, s'') \<Rightarrow> (r, s''))) = (Inr x, s')"
  obtain r s1 where m: "m s = (r, s1)" by fastforce
  obtain l s2 where l: "leave s1 = (l, s2)" by fastforce
  show "Q x s'"
    using run m l specD_Inr [OF assms(2) R] specD_Inr [OF assms(3)]
    by (cases l) fastforce+
qed

text \<open>\<open>keeps I m\<close> is the special case of an invariant on both ways out.\<close>

lemma keeps_spec: "keeps I m \<longleftrightarrow> spec I m (\<lambda>_. I) I"
proof
  show "keeps I m \<Longrightarrow> spec I m (\<lambda>_. I) I" by (rule specI) (metis keepsD)+
  assume *: "spec I m (\<lambda>_. I) I"
  have "I (snd (m s))" if "I s" for s
    using specD_Inr [OF * that, of _ "snd (m s)"] specD_Inl [OF * that, of _ "snd (m s)"]
    by (metis prod.collapse sum.exhaust)
  then show "keeps I m" by (simp add: keeps_def)
qed

lemma yields_bind: "yields m B \<Longrightarrow> (\<And>x. B x \<Longrightarrow> yields (f x) A) \<Longrightarrow> yields (bindE m f) A"
  unfolding yields_def bindE_def by (fastforce split: prod.splits sum.splits)

lemma yields_bind_any: "(\<And>x. yields (f x) A) \<Longrightarrow> yields (bindE m f) A"
  by (rule yields_bind [where B="\<lambda>_. True"]) (simp_all add: yields_def)

lemma yields_then: "yields n A \<Longrightarrow> yields (thenE m n) A"
  unfolding thenE_def by (rule yields_bind_any)

lemma yields_ret: "A x \<Longrightarrow> yields (retE x) A"
  by (simp add: yields_def eff_simps)

lemma yields_raise: "yields (raiseE e) A"
  by (simp add: yields_def eff_simps)

end
