(* ===== verification/Scheduler.thy ===== *)
theory Scheduler
  imports Decode_Reservation Effect_Logic
begin

text \<open>
  \<open>engine/scheduler.py\<close> and \<open>engine/prefill.py\<close>.  Sequences are shared mutable objects: the
  queues hold sequence ids and \<open>store\<close> gives the object of every id.  The memory oracle
  (\<open>MemoryOracle\<close> of \<open>engine/runtime_state.py\<close>) is the record \<open>memory_oracle\<close> of its methods over
  a memory state \<open>'m\<close>: queries read it and may raise, hooks may also change it, and a hook that is
  handed a sequence may change that sequence.  The clock is the hook \<open>monotonic\<close>, in
  nanoseconds.

  The local variables of \<open>_schedule_impl\<close> that outlive a statement are the fields \<open>l_...\<close> of the
  state; every pass starts by resetting them.  Log messages and the debug dump behind
  \<open>SPARSEENGINE_DEBUG_SLOTS\<close> are left out.
\<close>

section \<open>The scheduler's state and its oracle\<close>

datatype prefill_mode = Chunked | Full | RawOffload

definition validate_prefill_execution_mode :: "string \<Rightarrow> prefill_mode result" where
  "validate_prefill_execution_mode mode =
     (if mode = ''chunked'' then Inr Chunked
      else if mode = ''full'' then Inr Full
      else if mode = ''raw_offload'' then Inr RawOffload
      else Inl ValueError)"

text \<open>An opaque object of the oracle, of which only hashability and equality matter.\<close>

datatype opaque = Hashable int | Unhashable

type_synonym resource_id = "string \<times> int"
type_synonym batch_key = "prefill_mode \<times> opaque"
type_synonym mode_key = "int \<times> prefill_mode \<times> opaque"
type_synonym schedule_result = "int list \<times> bool \<times> int list"

record phase_decision =
  pd_phase :: string
  pd_reason :: string
  pd_switched :: bool
  pd_previous_phase :: int
  pd_decode_batch :: int
  pd_prefill_waits :: "(int \<times> bool \<times> int) list"

record sched_config =
  max_num_seqs_in_batch :: int
  max_num_batched_tokens :: int
  max_decoding_seqs :: int
  favor_min_decoding_seqs :: int
  engine_prefill_chunk_size :: int
  scheduler_eos_token_ids :: "int list"

record 'm sched =
  waiting :: "int list"
  decoding :: "int list"
  store :: seq_store
  memory :: 'm
  phase :: string
  prefill_wait_since :: "(int, int) dict"
  phase_started_at :: int
  last_phase_decision :: "phase_decision option"
  phase_reason :: string
  admission_defer_warned_seq_ids :: "int set"
  total_preemptions :: int
  total_recompute_replays :: int
  async_inflight :: int
  l_scheduled :: "int list"
  l_skipped :: "int list"
  l_num_seqs :: int
  l_num_tokens :: int
  l_step_free :: int
  l_logical_free :: int
  l_admission :: "(string, int) dict"
  l_allocation :: "(string, int) dict option"
  l_shared :: "(string, resource_id set) dict"
  l_deferred :: "(int \<times> string \<times> int \<times> int) option"
  l_blocked_step :: "(int \<times> int \<times> int) option"
  l_blocked_capacity :: "(int \<times> int \<times> int \<times> int) option"
  l_blocked_final :: "(int \<times> int \<times> int) option"
  l_decode_free :: int
  l_victim :: "int option"

record 'm memory_oracle =
  monotonic :: "('m, int) eff"
  num_free_slots :: "seq_store \<Rightarrow> 'm \<Rightarrow> int result"
  reserve_decode_windows :: "seq_store \<Rightarrow> int list \<Rightarrow> int list \<Rightarrow> ('m, int option) eff"
  prefill_batched_tokens_margin :: "seq_store \<Rightarrow> 'm \<Rightarrow> int result"
  remaining_prefill_tokens :: "'m \<Rightarrow> sequence \<Rightarrow> int result"
  prefill_execution_mode :: "sequence \<Rightarrow> ('m, string) eff"
  prefill_batch_compatibility_key :: "'m \<Rightarrow> sequence \<Rightarrow> opaque result"
  reset_prefill_execution_state :: "int \<Rightarrow> ('m, unit) eff"
  complete_prefill_execution :: "sequence \<Rightarrow> ('m, unit) eff"
  reserved_prefill_slots :: "'m \<Rightarrow> sequence list \<Rightarrow> int \<Rightarrow> int result"
  should_schedule_full_prefill :: "'m \<Rightarrow> sequence \<Rightarrow> bool result"
  prefill_step_free_slots :: "seq_store \<Rightarrow> 'm \<Rightarrow> int result"
  prefill_step_free_slots_for :: "'m \<Rightarrow> sequence \<Rightarrow> int result"
  prefill_private_slots_for :: "'m \<Rightarrow> sequence \<Rightarrow> int result"
  min_final_prefill_chunk_size :: "'m \<Rightarrow> sequence \<Rightarrow> int result"
  prefill_step_reservation_cost :: "'m \<Rightarrow> sequence \<Rightarrow> int \<Rightarrow> int result"
  decode_step_free_slots :: "seq_store \<Rightarrow> 'm \<Rightarrow> int result"
  decode_step_free_slots_for :: "'m \<Rightarrow> sequence \<Rightarrow> int result"
  decode_step_reservation_cost :: "'m \<Rightarrow> sequence \<Rightarrow> int result"
  step_allocation_budgets :: "seq_store \<Rightarrow> 'm \<Rightarrow> bool \<Rightarrow> (string, int) dict option result"
  step_allocation_costs :: "'m \<Rightarrow> sequence \<Rightarrow> int \<Rightarrow> (string, int) dict result"
  prompt_admission_free_slots :: "seq_store \<Rightarrow> 'm \<Rightarrow> int result"
  prompt_admission_budgets :: "seq_store \<Rightarrow> 'm \<Rightarrow> sequence list \<Rightarrow> int \<Rightarrow> (string, int) dict result"
  prompt_admission_costs :: "'m \<Rightarrow> sequence \<Rightarrow> (string, int) dict result"
  prompt_admission_shared_costs :: "'m \<Rightarrow> sequence \<Rightarrow> (string, (resource_id, int) dict) dict result"
  prompt_logical_reservation_cost :: "'m \<Rightarrow> sequence \<Rightarrow> int result"
  prompt_admission_failure_action :: "seq_store \<Rightarrow> 'm \<Rightarrow> string result"
  on_prompt_admitted :: "(string, int) dict \<Rightarrow> ('m \<times> sequence, unit) eff"
  prefix_cache_hit_refresher :: "('m \<times> sequence, unit) eff"
  prefix_cache_hits_refresher :: "(int list \<Rightarrow> ('m \<times> seq_store, unit) eff) option"
  oracle_clear_prefix_cache_hit :: "('m \<times> sequence, unit) eff"
  capacity_snapshot :: "(('m, unit) eff \<times> ('m, unit) eff) option"
  decode_capacity_reclaimer :: "(seq_store \<Rightarrow> int \<Rightarrow> ('m, int option) eff) option"
  prefill_capacity_reclaimer :: "(seq_store \<Rightarrow> int \<Rightarrow> ('m, bool) eff) option"

text \<open>Running a query, a hook, a hook on one sequence, and a method of a sequence.\<close>

definition askE :: "(seq_store \<Rightarrow> 'm \<Rightarrow> 'a result) \<Rightarrow> ('m sched, 'a) eff" where
  "askE q = queryE (\<lambda>s. q (store s) (memory s))"

definition ask_seqE :: "('m \<Rightarrow> sequence \<Rightarrow> 'a result) \<Rightarrow> int \<Rightarrow> ('m sched, 'a) eff" where
  "ask_seqE q i = queryE (\<lambda>s. q (memory s) (store s i))"

definition hookE :: "('m, 'a) eff \<Rightarrow> ('m sched, 'a) eff" where
  "hookE h = (\<lambda>s. case h (memory s) of (r, m') \<Rightarrow> (r, s\<lparr>memory := m'\<rparr>))"

definition hook_seqE :: "('m \<times> sequence, 'a) eff \<Rightarrow> int \<Rightarrow> ('m sched, 'a) eff" where
  "hook_seqE h i = (\<lambda>s. case h (memory s, store s i) of (r, (m', q')) \<Rightarrow>
     (r, s\<lparr>memory := m', store := (store s)(i := q')\<rparr>))"

definition hook_storeE :: "('m \<times> seq_store, 'a) eff \<Rightarrow> ('m sched, 'a) eff" where
  "hook_storeE h = (\<lambda>s. case h (memory s, store s) of (r, (m', \<sigma>')) \<Rightarrow>
     (r, s\<lparr>memory := m', store := \<sigma>'\<rparr>))"

definition seqE :: "(sequence, 'a) eff \<Rightarrow> int \<Rightarrow> ('m sched, 'a) eff" where
  "seqE f i = (\<lambda>s. case f (store s i) of (r, q') \<Rightarrow> (r, s\<lparr>store := (store s)(i := q')\<rparr>))"

definition set_seqE :: "(sequence \<Rightarrow> sequence) \<Rightarrow> int \<Rightarrow> ('m sched, unit) eff" where
  "set_seqE f i = modifyE (\<lambda>s. s\<lparr>store := (store s)(i := f (store s i))\<rparr>)"

text \<open>\<open>deque.remove\<close>: the first occurrence, \<open>ValueError\<close> when there is none.\<close>

definition remove_decodingE :: "int \<Rightarrow> ('m sched, unit) eff" where
  "remove_decodingE i = (\<lambda>s.
     if i \<in> set (decoding s) then (Inr (), s\<lparr>decoding := remove1 i (decoding s)\<rparr>)
     else (Inl ValueError, s))"

section \<open>Queue operations\<close>

definition is_finished :: "'m sched \<Rightarrow> bool" where
  "is_finished s \<longleftrightarrow> length (waiting s) = 0 \<and> length (decoding s) = 0"

definition wait_setdefaultE :: "'m memory_oracle \<Rightarrow> int \<Rightarrow> ('m sched, unit) eff" where
  "wait_setdefaultE ora i = bindE (hookE (monotonic ora)) (\<lambda>t.
     modifyE (\<lambda>s. if map_of (prefill_wait_since s) i = None
                   then s\<lparr>prefill_wait_since := dict_set i t (prefill_wait_since s)\<rparr> else s))"

definition add :: "'m memory_oracle \<Rightarrow> int \<Rightarrow> ('m sched, unit) eff" where
  "add ora i =
     thenE (bindE (getE is_finished) (\<lambda>fin.
       if fin then bindE (hookE (monotonic ora)) (\<lambda>t.
         modifyE (\<lambda>s. s\<lparr>phase := ''prefill'', phase_started_at := t\<rparr>))
       else retE ()))
     (thenE (wait_setdefaultE ora i) (modifyE (\<lambda>s. s\<lparr>waiting := waiting s @ [i]\<rparr>)))"

definition may_own_slots :: "bool \<Rightarrow> sequence \<Rightarrow> bool" where
  "may_own_slots in_decoding q \<longleftrightarrow> status q = RUNNING \<or> num_prefilled_tokens q > 0 \<or> in_decoding"

text \<open>
  One pass of \<open>abort_many\<close> over a queue.  The queue is drained element by element into
  \<open>retained\<close>; the loop runs over the drained elements, and the queue is refilled at the end.
\<close>

fun abort_queue :: "'m memory_oracle \<Rightarrow> int set \<Rightarrow> bool \<Rightarrow> int list \<Rightarrow> int list \<Rightarrow> (int, bool) dict \<Rightarrow>
    ('m sched, int list \<times> (int, bool) dict) eff" where
  "abort_queue ora req dec [] retained removed = retE (retained, removed)"
| "abort_queue ora req dec (i # queue) retained removed =
     thenE (modifyE (\<lambda>s. if dec then s\<lparr>decoding := queue\<rparr> else s\<lparr>waiting := queue\<rparr>))
     (if i \<notin> req then abort_queue ora req dec queue (retained @ [i]) removed
      else bindE (getE (\<lambda>s. may_own_slots dec (store s i))) (\<lambda>own.
        thenE (set_seqE (\<lambda>q. q\<lparr>status := FINISHED\<rparr>) i)
        (thenE (modifyE (\<lambda>s. s\<lparr>admission_defer_warned_seq_ids := admission_defer_warned_seq_ids s - {i}\<rparr>))
        (thenE (hookE (reset_prefill_execution_state ora i))
          (abort_queue ora req dec queue retained
            (dict_set i (dict_get removed i False \<or> own) removed))))))"

definition abort_many :: "'m memory_oracle \<Rightarrow> int list \<Rightarrow> ('m sched, (int, bool) dict) eff" where
  "abort_many ora ids =
     (if ids = [] then retE []
      else
        thenE (modifyE (\<lambda>s. s\<lparr>prefill_wait_since := fold dict_pop ids (prefill_wait_since s)\<rparr>))
        (bindE (\<lambda>s. abort_queue ora (set ids) False (waiting s) [] [] s) (\<lambda>(kept_w, removed).
         thenE (modifyE (\<lambda>s. s\<lparr>waiting := waiting s @ kept_w\<rparr>))
        (bindE (\<lambda>s. abort_queue ora (set ids) True (decoding s) [] removed s) (\<lambda>(kept_d, removed).
         thenE (modifyE (\<lambda>s. s\<lparr>decoding := decoding s @ kept_d\<rparr>)) (retE removed))))))"

definition abort :: "'m memory_oracle \<Rightarrow> int \<Rightarrow> ('m sched, bool) eff" where
  "abort ora i = bindE (abort_many ora [i]) (\<lambda>removed. retE (dict_get removed i False))"

definition request_may_own_slots :: "int \<Rightarrow> 'm sched \<Rightarrow> bool" where
  "request_may_own_slots i s =
     (if i \<in> set (waiting s) then may_own_slots False (store s i)
      else if i \<in> set (decoding s) then may_own_slots True (store s i) else False)"

section \<open>Prefill buckets\<close>

definition prefill_modeE :: "'m memory_oracle \<Rightarrow> int \<Rightarrow> ('m sched, prefill_mode) eff" where
  "prefill_modeE ora i =
     bindE (\<lambda>s. hookE (prefill_execution_mode ora (store s i)) s) (\<lambda>mode.
       liftE (validate_prefill_execution_mode mode))"

definition prefill_batch_key :: "'m memory_oracle \<Rightarrow> int \<Rightarrow> ('m sched, batch_key) eff" where
  "prefill_batch_key ora i =
     bindE (prefill_modeE ora i) (\<lambda>mode.
     bindE (ask_seqE (prefill_batch_compatibility_key ora) i) (\<lambda>key.
       if key = Unhashable then raiseE TypeError else retE (mode, key)))"

fun mode_counts_loop :: "'m memory_oracle \<Rightarrow> int list \<Rightarrow> (prefill_mode, int) dict \<Rightarrow>
    ('m sched, (prefill_mode, int) dict) eff" where
  "mode_counts_loop ora [] counts = retE counts"
| "mode_counts_loop ora (i # is) counts =
     bindE (prefill_modeE ora i) (\<lambda>m. mode_counts_loop ora is (dict_set m (dict_get counts m 0 + 1) counts))"

definition prefill_execution_mode_counts :: "'m memory_oracle \<Rightarrow> ('m sched, (prefill_mode, int) dict) eff" where
  "prefill_execution_mode_counts ora =
     (\<lambda>s. mode_counts_loop ora (waiting s) [(Chunked, 0), (Full, 0), (RawOffload, 0)] s)"

fun batch_keys_loop :: "'m memory_oracle \<Rightarrow> int list \<Rightarrow> batch_key list \<Rightarrow> ('m sched, batch_key list) eff" where
  "batch_keys_loop ora [] keys = retE keys"
| "batch_keys_loop ora (i # is) keys =
     bindE (prefill_batch_key ora i) (\<lambda>k. batch_keys_loop ora is (List.insert k keys))"

definition prefill_execution_mode_for_batch :: "'m memory_oracle \<Rightarrow> int list \<Rightarrow> ('m sched, prefill_mode) eff" where
  "prefill_execution_mode_for_batch ora seqs =
     bindE (batch_keys_loop ora seqs []) (\<lambda>keys.
       case keys of [(mode, _)] \<Rightarrow> retE mode | _ \<Rightarrow> raiseE RuntimeError)"

definition is_fresh :: "sequence \<Rightarrow> bool" where
  "is_fresh q \<longleftrightarrow> num_prefilled_tokens q = 0 \<and> num_completion_tokens q = 0"

definition refresh_prefill_metadata :: "'m memory_oracle \<Rightarrow> int \<Rightarrow> ('m sched, unit) eff" where
  "refresh_prefill_metadata ora i =
     bindE (getE (\<lambda>s. is_fresh (store s i))) (\<lambda>fresh.
       if fresh then hook_seqE (prefix_cache_hit_refresher ora) i else retE ())"

definition prefill_priority :: "sequence \<Rightarrow> bool \<Rightarrow> int" where
  "prefill_priority q replay_pending =
     (if \<not> replay_pending then 0
      else if 0 < num_prefilled_tokens q \<and> num_prefilled_tokens q < num_prompt_tokens q
      then (if is_recompute_replay q then 1 else 0)
      else (if is_recompute_replay q then 2 else 3))"

definition replay_pending :: "'m sched \<Rightarrow> bool" where
  "replay_pending s \<longleftrightarrow> (\<exists>i\<in>set (waiting s). is_recompute_replay (store s i))"

definition decode_full :: "sched_config \<Rightarrow> 'm sched \<Rightarrow> bool" where
  "decode_full cfg s \<longleftrightarrow> int (length (decoding s)) \<ge> max_decoding_seqs cfg"

definition prefill_candidates :: "sched_config \<Rightarrow> 'm sched \<Rightarrow> int list" where
  "prefill_candidates cfg s =
     filter (\<lambda>i. \<not> (replay_pending s \<and> prefill_priority (store s i) (replay_pending s) = 3) \<and>
                 \<not> (decode_full cfg s \<and> num_prefilled_tokens (store s i) = 0)) (waiting s)"

fun mode_order_loop :: "'m memory_oracle \<Rightarrow> bool \<Rightarrow> int list \<Rightarrow> mode_key list \<Rightarrow> ('m sched, mode_key list) eff" where
  "mode_order_loop ora replay [] modes = retE modes"
| "mode_order_loop ora replay (i # is) modes =
     thenE (if prefix_cache_hits_refresher ora = None then refresh_prefill_metadata ora i else retE ())
     (bindE (getE (\<lambda>s. prefill_priority (store s i) replay)) (\<lambda>p.
      bindE (prefill_batch_key ora i) (\<lambda>k.
        mode_order_loop ora replay is (if (p, k) \<in> set modes then modes else modes @ [(p, k)]))))"

definition prefill_mode_order :: "sched_config \<Rightarrow> 'm memory_oracle \<Rightarrow> ('m sched, mode_key list) eff" where
  "prefill_mode_order cfg ora =
     bindE (getE (\<lambda>s. (replay_pending s, prefill_candidates cfg s))) (\<lambda>(replay, cands).
     thenE (case prefix_cache_hits_refresher ora of
         None \<Rightarrow> retE ()
       | Some refresh \<Rightarrow>
           bindE (getE (\<lambda>s. filter (\<lambda>i. is_fresh (store s i)) cands)) (\<lambda>fresh.
             if fresh \<noteq> [] then hook_storeE (refresh fresh) else retE ()))
     (\<lambda>s. mode_order_loop ora replay
            (sort_key (\<lambda>i. prefill_priority (store s i) replay) cands) [] s))"

fun pop_loop :: "sched_config \<Rightarrow> 'm memory_oracle \<Rightarrow> mode_key \<Rightarrow> bool \<Rightarrow> int list \<Rightarrow> ('m sched, int option) eff" where
  "pop_loop cfg ora target replay [] = retE None"
| "pop_loop cfg ora target replay (i # queue) =
     bindE (getE (\<lambda>s.
       let p = prefill_priority (store s i) replay in
       p = fst target \<and> (\<not> replay \<or> p \<noteq> 3) \<and>
       \<not> (decode_full cfg s \<and> num_prefilled_tokens (store s i) = 0))) (\<lambda>eligible.
     bindE (if eligible then bindE (prefill_batch_key ora i) (\<lambda>k. retE (k = snd target)) else retE False) (\<lambda>ok.
       if ok then thenE (modifyE (\<lambda>s. s\<lparr>waiting := queue\<rparr>)) (retE (Some i))
       else thenE (modifyE (\<lambda>s. s\<lparr>waiting := queue, l_skipped := l_skipped s @ [i]\<rparr>))
              (pop_loop cfg ora target replay queue)))"

definition pop_next_prefill_seq :: "sched_config \<Rightarrow> 'm memory_oracle \<Rightarrow> mode_key \<Rightarrow> bool \<Rightarrow> ('m sched, int option) eff" where
  "pop_next_prefill_seq cfg ora target replay = (\<lambda>s. pop_loop cfg ora target replay (waiting s) s)"

definition can_continue_prefill_batch :: "sched_config \<Rightarrow> prefill_mode \<Rightarrow> int \<Rightarrow> 'm sched \<Rightarrow> bool" where
  "can_continue_prefill_batch cfg target_mode margin s =
     (if waiting s = [] then False
      else if l_scheduled s \<noteq> [] \<and> is_recompute_replay (store s (hd (l_scheduled s))) then False
      else if target_mode = RawOffload then l_scheduled s = [] \<and> l_step_free s > 0
      else l_num_tokens s \<le> max_num_batched_tokens cfg - margin \<and>
           l_num_seqs s < max_num_seqs_in_batch cfg)"

section \<open>Sizing a prefill chunk\<close>

definition prefill_step_tokens :: "sched_config \<Rightarrow> sequence \<Rightarrow> prefill_mode \<Rightarrow> int \<Rightarrow> int \<Rightarrow> int \<Rightarrow> int" where
  "prefill_step_tokens cfg q mode remaining num_batched_tokens step_free =
     (let rem = min remaining (prefill_stage_remaining q) in
      case mode of
        Full \<Rightarrow>
          let available = min (max_num_batched_tokens cfg - num_batched_tokens) step_free in
          if rem \<le> available then rem else 0
      | _ \<Rightarrow> min (min rem (engine_prefill_chunk_size cfg))
               (min (max_num_batched_tokens cfg - num_batched_tokens) step_free))"

definition respect_min_final_prefill_chunk :: "int \<Rightarrow> int \<Rightarrow> int \<Rightarrow> int result" where
  "respect_min_final_prefill_chunk min_final remaining proposed =
     (if min_final < 0 then Inl ValueError
      else let after = remaining - proposed in
        if min_final = 0 \<or> after \<le> 0 \<or> after \<ge> min_final then Inr proposed
        else Inr (max 0 (remaining - min_final)))"

definition allocation_fits :: "'m memory_oracle \<Rightarrow> 'm \<Rightarrow> sequence \<Rightarrow> (string, int) dict \<Rightarrow> int \<Rightarrow> bool result" where
  "allocation_fits ora m q budgets tokens =
     bindR (step_allocation_costs ora m q tokens) (\<lambda>costs.
       Inr (list_all (\<lambda>(name, need). need \<le> dict_get budgets name 0) costs))"

definition max_step_allocation_tokens :: "'m memory_oracle \<Rightarrow> 'm \<Rightarrow> sequence \<Rightarrow> int \<Rightarrow> (string, int) dict option \<Rightarrow>
    int result" where
  "max_step_allocation_tokens ora m q limit budgets =
     (case budgets of
        None \<Rightarrow> Inr limit
      | Some b \<Rightarrow>
          if limit \<le> 0 then Inr limit
          else bindR (allocation_fits ora m q b limit) (\<lambda>ok.
            if ok then Inr limit else bisect_maxR (allocation_fits ora m q b) 0 limit))"

text \<open>\<open>budgets[name] -= need\<close> raises \<open>KeyError\<close> on an unknown name.\<close>

fun charge_budgets :: "(string, int) dict \<Rightarrow> (string, int) dict \<Rightarrow> (string, int) dict result" where
  "charge_budgets [] budgets = Inr budgets"
| "charge_budgets ((name, need) # costs) budgets =
     (case map_of budgets name of
        None \<Rightarrow> Inl KeyError
      | Some b \<Rightarrow> charge_budgets costs (dict_set name (b - need) budgets))"

definition charge_step_allocations :: "'m memory_oracle \<Rightarrow> 'm \<Rightarrow> sequence \<Rightarrow> int \<Rightarrow> (string, int) dict option \<Rightarrow>
    (string, int) dict option result" where
  "charge_step_allocations ora m q tokens budgets =
     (case budgets of
        None \<Rightarrow> Inr None
      | Some b \<Rightarrow> bindR (step_allocation_costs ora m q tokens) (\<lambda>costs.
          bindR (charge_budgets costs b) (\<lambda>b'. Inr (Some b'))))"

record prefill_plan =
  plan_remaining :: int
  plan_free :: int
  plan_proposed :: int
  plan_tokens :: int

text \<open>The head of the candidate loop: the tokens still to prefill and the slots it may use.\<close>

definition candidate_capacity :: "'m memory_oracle \<Rightarrow> prefill_mode \<Rightarrow> int \<Rightarrow> 'm sched \<Rightarrow> (int \<times> int) result" where
  "candidate_capacity ora mode i s =
     (let m = memory s; q = store s i in
      bindR (remaining_prefill_tokens ora m q) (\<lambda>remaining.
      bindR (prefill_step_free_slots_for ora m q) (\<lambda>free_for.
      bindR (should_schedule_full_prefill ora m q) (\<lambda>staging.
      bindR (if mode \<noteq> RawOffload \<and> \<not> staging
             then bindR (prefill_private_slots_for ora m q) (\<lambda>private.
               Inr (min (l_step_free s + private) free_for))
             else Inr free_for) (\<lambda>free.
        if remaining \<le> 0 then Inl ValueError else Inr (remaining, free))))))"

text \<open>The chunk size, up to \<open>_respect_min_final_prefill_chunk\<close>.\<close>

definition size_chunk :: "sched_config \<Rightarrow> 'm memory_oracle \<Rightarrow> prefill_mode \<Rightarrow> int \<Rightarrow> 'm sched \<Rightarrow> int \<Rightarrow> int \<Rightarrow>
    prefill_plan result" where
  "size_chunk cfg ora mode i s remaining free =
     (let m = memory s; q = store s i;
          can = prefill_step_tokens cfg q mode remaining (l_num_tokens s) free in
      bindR (max_step_allocation_tokens ora m q can (l_allocation s)) (\<lambda>alloc.
      let free' = (if can > 0 \<and> alloc < can then min free alloc else free);
          can' = (if mode = Chunked then alloc else if alloc < can then 0 else can) in
      bindR (min_final_prefill_chunk_size ora m q) (\<lambda>min_final.
      bindR (respect_min_final_prefill_chunk min_final remaining can') (\<lambda>tokens.
        Inr \<lparr>plan_remaining = remaining, plan_free = free', plan_proposed = can', plan_tokens = tokens\<rparr>))))"

definition plan_prefill :: "sched_config \<Rightarrow> 'm memory_oracle \<Rightarrow> prefill_mode \<Rightarrow> int \<Rightarrow> 'm sched \<Rightarrow> prefill_plan result" where
  "plan_prefill cfg ora mode i s =
     bindR (candidate_capacity ora mode i s) (\<lambda>(remaining, free). size_chunk cfg ora mode i s remaining free)"

text \<open>The branch \<open>can_prefill_tokens <= 0\<close>: note why, and put the candidate at the tail.\<close>

definition block_prefill :: "sched_config \<Rightarrow> 'm memory_oracle \<Rightarrow> prefill_mode \<Rightarrow> prefill_plan \<Rightarrow> int \<Rightarrow> ('m sched, unit) eff" where
  "block_prefill cfg ora mode plan i =
     bindE (ask_seqE (min_final_prefill_chunk_size ora) i) (\<lambda>min_final.
     modifyE (\<lambda>s.
       s\<lparr>l_blocked_final :=
           (if min_final > 0 \<and> plan_remaining plan \<le> min_final \<and>
               plan_proposed plan < plan_remaining plan \<and> l_blocked_final s = None
            then Some (i, min_final, plan_proposed plan) else l_blocked_final s),
         l_blocked_capacity :=
           (if plan_free plan \<le> 0 \<and> l_step_free s > 0 \<and> l_blocked_capacity s = None
            then Some (i, plan_remaining plan, plan_free plan, l_step_free s)
            else l_blocked_capacity s),
         l_blocked_step :=
           (if mode = Full
            then Some (i, plan_remaining plan,
              min (max_num_batched_tokens cfg - l_num_tokens s) (plan_free plan))
            else l_blocked_step s),
         waiting := waiting s @ [i]\<rparr>))"

section \<open>Admitting a prompt\<close>

definition charged_sum :: "(string, resource_id set) dict \<Rightarrow> string \<Rightarrow> (resource_id, int) dict \<Rightarrow> int" where
  "charged_sum charged name resources =
     sum_list (map snd (filter (\<lambda>(r, _). r \<in> dict_get charged name {}) resources))"

fun adjust_costs :: "(string, resource_id set) dict \<Rightarrow> (string, (resource_id, int) dict) dict \<Rightarrow> (string, int) dict \<Rightarrow>
    (string, int) dict result" where
  "adjust_costs charged [] costs = Inr costs"
| "adjust_costs charged ((name, resources) # shared) costs =
     (let c = dict_get costs name 0 - charged_sum charged name resources in
      if c < 0 then Inl RuntimeError
      else adjust_costs charged shared (dict_set name c costs))"

fun failed_budget :: "(string, int) dict \<Rightarrow> (string, int) dict \<Rightarrow> (string \<times> int \<times> int) option" where
  "failed_budget budgets [] = None"
| "failed_budget budgets ((name, need) # costs) =
     (if dict_get budgets name 0 < need then Some (name, need, dict_get budgets name 0)
      else failed_budget budgets costs)"

definition deduct_costs :: "(string, int) dict \<Rightarrow> (string, int) dict \<Rightarrow> (string, int) dict" where
  "deduct_costs costs budgets = foldl (\<lambda>b (name, need). dict_set name (dict_get b name 0 - need) b) budgets costs"

definition charge_shared :: "(string, (resource_id, int) dict) dict \<Rightarrow> (string, resource_id set) dict \<Rightarrow> (string, resource_id set) dict" where
  "charge_shared shared charged =
     foldl (\<lambda>c (name, resources). dict_set name (dict_get c name {} \<union> fst ` set resources) c) charged shared"

definition defer_prompt :: "int \<Rightarrow> string \<times> int \<times> int \<Rightarrow> ('m sched, unit) eff" where
  "defer_prompt i failed =
     modifyE (\<lambda>s. s\<lparr>l_deferred := (if l_deferred s = None then Some (i, failed) else l_deferred s),
        admission_defer_warned_seq_ids := insert i (admission_defer_warned_seq_ids s),
        waiting := waiting s @ [i]\<rparr>)"

text \<open>The result is \<open>False\<close> when the prompt was deferred.\<close>

definition admit_prompt :: "'m memory_oracle \<Rightarrow> int \<Rightarrow> ('m sched, bool) eff" where
  "admit_prompt ora i =
     bindE (ask_seqE (prompt_admission_costs ora) i) (\<lambda>raw_costs.
     bindE (ask_seqE (prompt_admission_shared_costs ora) i) (\<lambda>shared.
     bindE (queryE (\<lambda>s. adjust_costs (l_shared s) shared raw_costs)) (\<lambda>costs.
     bindE (getE (\<lambda>s. failed_budget (l_admission s) costs)) (\<lambda>failed.
       case failed of
         Some f \<Rightarrow>
           bindE (askE (prompt_admission_failure_action ora)) (\<lambda>action.
             if action = ''defer'' then thenE (defer_prompt i f) (retE False)
             else raiseE RuntimeError)
       | None \<Rightarrow>
           thenE (modifyE (\<lambda>s.
             s\<lparr>admission_defer_warned_seq_ids := admission_defer_warned_seq_ids s - {i},
               l_admission := deduct_costs costs (l_admission s)\<rparr>))
           (thenE (set_seqE (\<lambda>q. q\<lparr>status := RUNNING\<rparr>) i)
           (thenE (hook_seqE (on_prompt_admitted ora raw_costs) i)
           (thenE (set_seqE (\<lambda>q. if prefix_cache_hit_len q > 0
                                then q\<lparr>num_prefilled_tokens := prefix_cache_hit_len q\<rparr> else q) i)
           (bindE (ask_seqE (prompt_logical_reservation_cost ora) i) (\<lambda>logical.
            bindE (getE (\<lambda>s. logical - sum_list (map (\<lambda>(name, r). charged_sum (l_shared s) name r) shared))) (\<lambda>need.
            bindE (getE l_logical_free) (\<lambda>free.
              if free < need then raiseE RuntimeError
              else thenE (modifyE (\<lambda>s. s\<lparr>l_logical_free := l_logical_free s - need,
                                         l_shared := charge_shared shared (l_shared s)\<rparr>))
                     (retE True)))))))))))) "

text \<open>The tail of the loop body: fix the chunk, account for it and schedule the sequence.\<close>

definition commit_prefill :: "'m memory_oracle \<Rightarrow> int \<Rightarrow> int \<Rightarrow> ('m sched, unit) eff" where
  "commit_prefill ora tokens i =
     thenE (set_seqE (\<lambda>q. q\<lparr>current_chunk_size := Some tokens\<rparr>) i)
     (thenE (modifyE (\<lambda>s. s\<lparr>l_num_seqs := l_num_seqs s + 1, l_num_tokens := l_num_tokens s + tokens\<rparr>))
     (bindE (queryE (\<lambda>s. prefill_step_reservation_cost ora (memory s) (store s i) tokens)) (\<lambda>cost.
     thenE (modifyE (\<lambda>s. s\<lparr>l_step_free := max 0 (l_step_free s - cost)\<rparr>))
     (bindE (queryE (\<lambda>s. charge_step_allocations ora (memory s) (store s i) tokens (l_allocation s))) (\<lambda>alloc.
     thenE (modifyE (\<lambda>s. s\<lparr>l_allocation := alloc\<rparr>))
     (thenE (set_seqE (\<lambda>q. q\<lparr>status := RUNNING\<rparr>) i)
            (modifyE (\<lambda>s. s\<lparr>l_scheduled := l_scheduled s @ [i]\<rparr>))))))))"

text \<open>One turn of the candidate loop; \<open>False\<close> when the loop must stop (raw offload runs alone).\<close>

definition consider_prefill :: "sched_config \<Rightarrow> 'm memory_oracle \<Rightarrow> prefill_mode \<Rightarrow> int \<Rightarrow> ('m sched, bool) eff" where
  "consider_prefill cfg ora mode i =
     bindE (queryE (plan_prefill cfg ora mode i)) (\<lambda>plan.
       if plan_tokens plan \<le> 0 then thenE (block_prefill cfg ora mode plan i) (retE True)
       else bindE (\<lambda>s. if num_prefilled_tokens (store s i) = 0 then admit_prompt ora i s else retE True s)
         (\<lambda>admitted.
           if \<not> admitted then retE True
           else thenE (commit_prefill ora (plan_tokens plan) i) (retE (mode \<noteq> RawOffload))))"

fun prefill_bucket_loop :: "nat \<Rightarrow> sched_config \<Rightarrow> 'm memory_oracle \<Rightarrow> int \<Rightarrow> mode_key \<Rightarrow> bool \<Rightarrow> ('m sched, unit) eff" where
  "prefill_bucket_loop 0 cfg ora margin target replay = retE ()"
| "prefill_bucket_loop (Suc n) cfg ora margin target replay =
     bindE (getE (can_continue_prefill_batch cfg (fst (snd target)) margin)) (\<lambda>go.
       if \<not> go then retE ()
       else bindE (pop_next_prefill_seq cfg ora target replay) (\<lambda>popped.
         case popped of
           None \<Rightarrow> retE ()
         | Some i \<Rightarrow> bindE (consider_prefill cfg ora (fst (snd target)) i) (\<lambda>again.
             if again then prefill_bucket_loop n cfg ora margin target replay else retE ())))"

definition prefill_bucket :: "sched_config \<Rightarrow> 'm memory_oracle \<Rightarrow> int \<Rightarrow> bool \<Rightarrow> mode_key \<Rightarrow> ('m sched, unit) eff" where
  "prefill_bucket cfg ora margin replay target =
     thenE (modifyE (\<lambda>s. s\<lparr>l_skipped := []\<rparr>))
     (finallyE (\<lambda>s. prefill_bucket_loop (length (waiting s)) cfg ora margin target replay s)
       (\<lambda>s. s\<lparr>waiting := l_skipped s @ waiting s, l_skipped := []\<rparr>))"

fun prefill_phase :: "sched_config \<Rightarrow> 'm memory_oracle \<Rightarrow> int \<Rightarrow> bool \<Rightarrow> mode_key list \<Rightarrow> ('m sched, unit) eff" where
  "prefill_phase cfg ora margin replay [] = retE ()"
| "prefill_phase cfg ora margin replay (target # targets) =
     bindE (getE l_scheduled) (\<lambda>scheduled.
       if scheduled \<noteq> [] then retE ()
       else thenE (prefill_bucket cfg ora margin replay target) (prefill_phase cfg ora margin replay targets))"

section \<open>Preemption\<close>

text \<open>
  The end of a preemption: the victim goes to the tail of the waiting queue, and decode requests
  already popped in this round go back.
\<close>

definition requeue_victim :: "int \<Rightarrow> ('m sched, schedule_result) eff" where
  "requeue_victim victim =
     thenE (modifyE (\<lambda>s. s\<lparr>waiting := waiting s @ [victim],
         decoding := l_scheduled s @ decoding s, l_scheduled := [],
         total_preemptions := total_preemptions s + 1\<rparr>))
     (retE ([], False, [victim]))"

definition preempt_decode_victim :: "'m memory_oracle \<Rightarrow> int \<Rightarrow> ('m sched, schedule_result) eff" where
  "preempt_decode_victim ora victim =
     bindE (getE (\<lambda>s.
       (async_inflight s \<noteq> 0,
        num_completion_tokens (store s victim) > 0 \<and> decoding s = [] \<and>
        \<not> (replay_pending s \<and>
           num_completion_tokens (store s victim) > decode_progress_checkpoint (store s victim)),
        num_completion_tokens (store s victim) > 0))) (\<lambda>(busy, stuck, produced).
       if busy then
         thenE (modifyE (\<lambda>s. s\<lparr>decoding := l_scheduled s @ victim # decoding s\<rparr>)) (raiseE AsyncDrainRequired)
       else if stuck then
         thenE (modifyE (\<lambda>s. s\<lparr>decoding := l_scheduled s @ victim # decoding s\<rparr>)) (raiseE RuntimeError)
       else
         thenE (set_seqE (\<lambda>q. q\<lparr>status := WAITING\<rparr>) victim)
         (thenE (if produced
                 then thenE (seqE start_recompute_replay victim)
                   (modifyE (\<lambda>s. s\<lparr>total_recompute_replays := total_recompute_replays s + 1\<rparr>))
                 else set_seqE (\<lambda>q. q\<lparr>num_prefilled_tokens := 0\<rparr>) victim)
         (thenE (modifyE (\<lambda>s. s\<lparr>store := (\<lambda>i. if i \<in> set (decoding s)
             then (store s i)\<lparr>decode_progress_checkpoint := num_completion_tokens (store s i)\<rparr>
             else store s i)\<rparr>))
         (thenE (hook_seqE (oracle_clear_prefix_cache_hit ora) victim)
         (thenE (hookE (reset_prefill_execution_state ora victim))
         (thenE (wait_setdefaultE ora victim) (requeue_victim victim)))))))"

definition reclaim_decode_capacity :: "(seq_store \<Rightarrow> int \<Rightarrow> ('m, int option) eff) \<Rightarrow> int \<Rightarrow> ('m sched, int option) eff" where
  "reclaim_decode_capacity reclaimer failure =
     bindE (getE async_inflight) (\<lambda>busy.
       if busy \<noteq> 0 then raiseE AsyncDrainRequired
       else (\<lambda>s. hookE (reclaimer (store s) failure) s))"

section \<open>Decode selection\<close>

definition output_budget_left :: "sequence \<Rightarrow> bool" where
  "output_budget_left q \<longleftrightarrow> num_completion_tokens q + num_pending_outputs q < max_tokens q"

text \<open>
  Whether a candidate fits in this step: \<open>None\<close> when it does not, otherwise the slots it costs.  The
  decode loop asks for the candidate's free slots before its cost, the preview the other way round,
  which decides whose exception is seen when both hooks raise.
\<close>

definition fits_step :: "'m memory_oracle \<Rightarrow> 'm \<Rightarrow> sequence \<Rightarrow> int \<Rightarrow> (string, int) dict option \<Rightarrow>
    int \<Rightarrow> int \<Rightarrow> int option result" where
  "fits_step ora m q free budgets free_for cost =
     (if min free free_for < cost then Inr None
      else bindR (max_step_allocation_tokens ora m q 1 budgets) (\<lambda>n.
        Inr (if n = 0 then None else Some cost)))"

definition decode_fits :: "'m memory_oracle \<Rightarrow> 'm \<Rightarrow> sequence \<Rightarrow> int \<Rightarrow> (string, int) dict option \<Rightarrow>
    int option result" where
  "decode_fits ora m q free budgets =
     bindR (decode_step_free_slots_for ora m q) (\<lambda>free_for.
     bindR (decode_step_reservation_cost ora m q) (\<lambda>cost. fits_step ora m q free budgets free_for cost))"

definition preview_fits :: "'m memory_oracle \<Rightarrow> 'm \<Rightarrow> sequence \<Rightarrow> int \<Rightarrow> (string, int) dict option \<Rightarrow>
    int option result" where
  "preview_fits ora m q free budgets =
     bindR (decode_step_reservation_cost ora m q) (\<lambda>cost.
     bindR (decode_step_free_slots_for ora m q) (\<lambda>free_for. fits_step ora m q free budgets free_for cost))"

fun eligible_loop :: "sched_config \<Rightarrow> 'm memory_oracle \<Rightarrow> 'm \<Rightarrow> seq_store \<Rightarrow> int \<Rightarrow>
    (string, int) dict option \<Rightarrow> int list \<Rightarrow> int list \<Rightarrow> int list result" where
  "eligible_loop cfg ora m \<sigma> free budgets batch [] = Inr batch"
| "eligible_loop cfg ora m \<sigma> free budgets batch (i # is) =
     (if \<not> output_budget_left (\<sigma> i) then eligible_loop cfg ora m \<sigma> free budgets batch is
      else bindR (preview_fits ora m (\<sigma> i) free budgets) (\<lambda>fit.
        case fit of
          None \<Rightarrow> if free \<le> 0 then Inr batch else eligible_loop cfg ora m \<sigma> free budgets batch is
        | Some cost \<Rightarrow>
            bindR (charge_step_allocations ora m (\<sigma> i) 1 budgets) (\<lambda>budgets'.
              if int (length (batch @ [i])) = max_decoding_seqs cfg then Inr (batch @ [i])
              else eligible_loop cfg ora m \<sigma> (free - cost) budgets' (batch @ [i]) is)))"

definition eligible_decode_batch :: "sched_config \<Rightarrow> 'm memory_oracle \<Rightarrow> 'm sched \<Rightarrow> int list result" where
  "eligible_decode_batch cfg ora s =
     (if decoding s = [] then Inr []
      else bindR (decode_step_free_slots ora (store s) (memory s)) (\<lambda>free.
        bindR (step_allocation_budgets ora (store s) (memory s) False) (\<lambda>budgets.
          eligible_loop cfg ora (memory s) (store s) (max 0 free) budgets [] (decoding s))))"

text \<open>The decode loop; its counter is \<open>decode_scan_budget\<close>.\<close>

fun decode_loop :: "nat \<Rightarrow> sched_config \<Rightarrow> 'm memory_oracle \<Rightarrow> ('m sched, unit) eff" where
  "decode_loop 0 cfg ora s = (Inr (), s)"
| "decode_loop (Suc n) cfg ora s =
     (if decoding s = [] \<or> \<not> l_num_seqs s < max_decoding_seqs cfg then (Inr (), s)
      else
        let i = hd (decoding s); s1 = s\<lparr>decoding := tl (decoding s)\<rparr> in
        if \<not> output_budget_left (store s i)
        then decode_loop n cfg ora (s1\<lparr>decoding := decoding s1 @ [i]\<rparr>)
        else case decode_fits ora (memory s) (store s i) (l_decode_free s) (l_allocation s) of
            Inl e \<Rightarrow> (Inl e, s1)
          | Inr None \<Rightarrow>
              if l_decode_free s > 0
              then decode_loop n cfg ora
                (s1\<lparr>l_victim := (if l_victim s = None then Some i else l_victim s), decoding := decoding s1 @ [i]\<rparr>)
              else if l_scheduled s \<noteq> []
              then (Inr (), s1\<lparr>l_victim := (if l_victim s = None then Some i else l_victim s),
                              decoding := decoding s1 @ [i]\<rparr>)
              else (Inr (), s1\<lparr>l_victim := Some i, decoding := i # decoding s1\<rparr>)
          | Inr (Some cost) \<Rightarrow>
              (case charge_step_allocations ora (memory s) (store s i) 1 (l_allocation s) of
                 Inl e \<Rightarrow> (Inl e, s1\<lparr>l_decode_free := l_decode_free s - cost\<rparr>)
               | Inr budgets \<Rightarrow> decode_loop n cfg ora
                   (s1\<lparr>l_decode_free := l_decode_free s - cost, l_allocation := budgets,
                      l_num_seqs := l_num_seqs s + 1, l_scheduled := l_scheduled s @ [i]\<rparr>)))"

section \<open>One pass of \<open>_schedule_impl\<close>\<close>

text \<open>A pass ends with a result, or by calling \<open>_schedule_impl\<close> again with weaker permissions.\<close>

datatype pass_outcome = Done schedule_result | RetryDecode | RetryPrefill bool

definition reset_locals :: "('m sched, unit) eff" where
  "reset_locals = modifyE (\<lambda>s. s\<lparr>l_scheduled := [], l_skipped := [], l_num_seqs := 0, l_num_tokens := 0,
     l_step_free := 0, l_logical_free := 0, l_admission := [], l_allocation := None, l_shared := [],
     l_deferred := None, l_blocked_step := None, l_blocked_capacity := None, l_blocked_final := None,
     l_decode_free := 0, l_victim := None\<rparr>)"

fun overdue_loop :: "'m memory_oracle \<Rightarrow> int list \<Rightarrow> ('m sched, bool) eff" where
  "overdue_loop ora [] = retE False"
| "overdue_loop ora (since # rest) = bindE (hookE (monotonic ora)) (\<lambda>t.
     if t - since \<ge> 60000000000 then retE True else overdue_loop ora rest)"

text \<open>
  Decode affinity: with \<open>favor_min_decoding_seqs\<close> set, a large enough decode batch keeps the
  decode phase.  Returns whether prefill is overdue and the batch chosen, if any.
\<close>

definition decode_affinity :: "sched_config \<Rightarrow> 'm memory_oracle \<Rightarrow> int option \<Rightarrow>
    ('m sched, bool \<times> int list option) eff" where
  "decode_affinity cfg ora failure =
     thenE (modifyE (\<lambda>s. s\<lparr>phase_reason := ''prefill_priority''\<rparr>))
     (if favor_min_decoding_seqs cfg = 0 then retE (False, None)
      else bindE (\<lambda>s. overdue_loop ora (map snd (prefill_wait_since s)) s) (\<lambda>overdue.
        thenE (modifyE (\<lambda>s. s\<lparr>phase_reason :=
            (if overdue then ''prefill_wait_timeout''
             else if phase s = ''prefill'' then ''prefill_continue'' else ''decode_below_threshold'')\<rparr>))
        (bindE (getE (\<lambda>s. phase s = ''decode'' \<and> \<not> overdue \<and> failure = None)) (\<lambda>try_decode.
          if \<not> try_decode then retE (overdue, None)
          else bindE (queryE (eligible_decode_batch cfg ora)) (\<lambda>batch.
            bindE (getE waiting) (\<lambda>w.
              if batch \<noteq> [] \<and> (w = [] \<or> int (length batch) \<ge> favor_min_decoding_seqs cfg)
              then thenE (modifyE (\<lambda>s. s\<lparr>phase_reason := (if w = [] then ''no_prefill'' else ''decode_affinity'')\<rparr>))
                     (retE (overdue, Some batch))
              else retE (overdue, None)))))))"

text \<open>Reading the capacities; the result is the token margin of a prefill batch.\<close>

definition read_capacities :: "sched_config \<Rightarrow> 'm memory_oracle \<Rightarrow> ('m sched, int) eff" where
  "read_capacities cfg ora =
     bindE (askE (num_free_slots ora)) (\<lambda>physical.
     bindE (getE (\<lambda>s. waiting s \<noteq> [])) (\<lambda>have_waiting.
     bindE (if have_waiting then
         bindE (queryE (\<lambda>s. reserved_prefill_slots ora (memory s) (map (store s) (waiting s))
           (engine_prefill_chunk_size cfg))) (\<lambda>reserved.
         bindE (askE (prompt_admission_free_slots ora)) (\<lambda>admission_free.
         bindE (askE (prefill_step_free_slots ora)) (\<lambda>step_free.
         bindE (queryE (\<lambda>s. prompt_admission_budgets ora (store s) (memory s) (map (store s) (waiting s))
           (engine_prefill_chunk_size cfg))) (\<lambda>budgets.
         bindE (askE (prefill_batched_tokens_margin ora)) (\<lambda>margin.
         thenE (modifyE (\<lambda>s. s\<lparr>l_logical_free := max 0 (admission_free - reserved), l_step_free := step_free,
             l_admission := budgets\<rparr>))
         (retE margin))))))
       else thenE (modifyE (\<lambda>s. s\<lparr>l_logical_free := 0, l_step_free := physical, l_admission := []\<rparr>)) (retE 0))
     (\<lambda>margin.
     bindE (askE (decode_step_free_slots ora)) (\<lambda>decode_free.
     thenE (modifyE (\<lambda>s. s\<lparr>l_decode_free := max 0 decode_free\<rparr>))
     (bindE (if have_waiting then askE (\<lambda>\<sigma> m. step_allocation_budgets ora \<sigma> m True) else retE None) (\<lambda>budgets.
     thenE (modifyE (\<lambda>s. s\<lparr>l_allocation := budgets\<rparr>)) (retE margin)))))))"

definition sort_overdue :: "('m sched, unit) eff" where
  "sort_overdue = (\<lambda>s.
     if \<exists>i\<in>set (waiting s). map_of (prefill_wait_since s) i = None then (Inl KeyError, s)
     else (Inr (), s\<lparr>waiting := sort_key (\<lambda>i. dict_get (prefill_wait_since s) i 0) (waiting s)\<rparr>))"

definition run_prefill :: "sched_config \<Rightarrow> 'm memory_oracle \<Rightarrow> int \<Rightarrow> ('m sched, unit) eff" where
  "run_prefill cfg ora margin =
     bindE (\<lambda>s. if waiting s \<noteq> [] \<and> \<not> (replay_pending s \<and> decoding s \<noteq> [])
                then prefill_mode_order cfg ora s else retE [] s) (\<lambda>order.
     bindE (getE replay_pending) (\<lambda>replay. prefill_phase cfg ora margin replay order))"

text \<open>
  The end of a pass that selected nothing: the guards in the order of the code, each only when no
  decode request is left.
\<close>

definition idle_outcome :: "'m memory_oracle \<Rightarrow> bool \<Rightarrow> bool \<Rightarrow> ('m sched, pass_outcome) eff" where
  "idle_outcome ora allow_prefill allow_decode =
     bindE (\<lambda>s.
       case prefill_capacity_reclaimer ora of
         None \<Rightarrow> (Inr False, s)
       | Some reclaimer \<Rightarrow>
           if decoding s = [] \<and> waiting s \<noteq> [] \<and> allow_prefill \<and>
              (l_deferred s \<noteq> None \<or> l_step_free s \<le> 0 \<or> l_blocked_capacity s \<noteq> None)
           then if async_inflight s \<noteq> 0 then (Inl AsyncDrainRequired, s)
             else hookE (reclaimer (store s)
               (case l_deferred s of Some d \<Rightarrow> fst d
                | None \<Rightarrow> (case l_blocked_capacity s of Some b \<Rightarrow> fst b | None \<Rightarrow> hd (waiting s)))) s
           else (Inr False, s)) (\<lambda>reclaimed.
       if reclaimed then retE (RetryPrefill allow_decode)
       else bindE (getE (\<lambda>s. decoding s = [] \<and>
              (l_blocked_step s \<noteq> None \<or> l_blocked_final s \<noteq> None \<or>
               l_blocked_capacity s \<noteq> None \<or> l_deferred s \<noteq> None))) (\<lambda>dead.
         if dead then raiseE RuntimeError else retE (Done ([], False, []))))"

definition handle_blocked_decode :: "'m memory_oracle \<Rightarrow> bool \<Rightarrow> int \<Rightarrow> ('m sched, pass_outcome) eff" where
  "handle_blocked_decode ora allow_decode v =
     bindE (case decode_capacity_reclaimer ora of
         Some reclaimer \<Rightarrow>
           if allow_decode
           then bindE (reclaim_decode_capacity reclaimer v) (\<lambda>failure. retE (failure = None))
           else retE False
       | None \<Rightarrow> retE False) (\<lambda>reclaimed.
       if reclaimed then retE RetryDecode
       else thenE (modifyE (\<lambda>s. s\<lparr>decoding := remove1 v (decoding s)\<rparr>))
         (bindE (preempt_decode_victim ora v) (\<lambda>r. retE (Done r))))"

definition finish_decode :: "int list \<Rightarrow> int option \<Rightarrow> ('m sched, pass_outcome) eff" where
  "finish_decode scheduled victim =
     thenE (modifyE (\<lambda>s. s\<lparr>decoding := scheduled @ decoding s, l_scheduled := []\<rparr>))
     (thenE (modifyE (\<lambda>s. case victim of None \<Rightarrow> s
            | Some v \<Rightarrow> s\<lparr>decoding := v # remove1 v (decoding s)\<rparr>))
       (retE (Done (scheduled, False, []))))"

definition run_decode :: "sched_config \<Rightarrow> 'm memory_oracle \<Rightarrow> bool \<Rightarrow> bool \<Rightarrow> ('m sched, pass_outcome) eff" where
  "run_decode cfg ora allow_prefill allow_decode =
     thenE (modifyE (\<lambda>s. s\<lparr>phase_reason := (if waiting s \<noteq> [] then ''prefill_unavailable'' else ''no_prefill'')\<rparr>))
     (bindE (askE (\<lambda>\<sigma> m. step_allocation_budgets ora \<sigma> m False)) (\<lambda>budgets.
      thenE (modifyE (\<lambda>s. s\<lparr>l_allocation := budgets, l_victim := None\<rparr>))
      (thenE (\<lambda>s. decode_loop (length (decoding s)) cfg ora s)
      (bindE (getE (\<lambda>s. (l_scheduled s, l_victim s))) (\<lambda>(scheduled, victim).
        if scheduled \<noteq> [] then finish_decode scheduled victim
        else case victim of
            Some v \<Rightarrow> handle_blocked_decode ora allow_decode v
          | None \<Rightarrow> idle_outcome ora allow_prefill allow_decode)))))"

text \<open>
  The reservation step at the head of a pass: the failing request after the optional reclaim, and
  whether decode reclaim is still allowed.
\<close>

definition reserve_windows :: "'m memory_oracle \<Rightarrow> bool \<Rightarrow> ('m sched, int option \<times> bool) eff" where
  "reserve_windows ora allow_decode =
     bindE (\<lambda>s. hookE (reserve_decode_windows ora (store s) (decoding s) (waiting s)) s) (\<lambda>failure.
       case (failure, decode_capacity_reclaimer ora) of
         (Some f, Some reclaimer) \<Rightarrow>
           if allow_decode
           then bindE (reclaim_decode_capacity reclaimer f) (\<lambda>failure'. retE (failure', False))
           else retE (failure, allow_decode)
       | _ \<Rightarrow> retE (failure, allow_decode))"

definition preempt_reserved :: "'m memory_oracle \<Rightarrow> int \<Rightarrow> ('m sched, pass_outcome) eff" where
  "preempt_reserved ora f =
     thenE (remove_decodingE f) (bindE (preempt_decode_victim ora f) (\<lambda>r. retE (Done r)))"

text \<open>With several decode requests the failing one is preempted before anything else is tried.\<close>

definition preempt_first :: "sched_config \<Rightarrow> 'm memory_oracle \<Rightarrow> int \<Rightarrow> ('m sched, pass_outcome) eff" where
  "preempt_first cfg ora f =
     thenE (remove_decodingE f)
     (thenE (askE (num_free_slots ora))
     (thenE (queryE (\<lambda>s. reserved_prefill_slots ora (memory s) (map (store s) (waiting s))
         (engine_prefill_chunk_size cfg)))
     (bindE (preempt_decode_victim ora f) (\<lambda>r. retE (Done r)))))"

definition prefill_or_decode :: "sched_config \<Rightarrow> 'm memory_oracle \<Rightarrow> bool \<Rightarrow> bool \<Rightarrow> int option \<Rightarrow> bool \<Rightarrow>
    ('m sched, pass_outcome) eff" where
  "prefill_or_decode cfg ora allow_prefill allow_decode failure overdue =
     bindE (read_capacities cfg ora) (\<lambda>margin.
     thenE (if overdue then sort_overdue else retE ())
     (thenE (run_prefill cfg ora margin)
     (bindE (getE l_scheduled) (\<lambda>scheduled.
       if scheduled \<noteq> [] then retE (Done (scheduled, True, []))
       else case failure of
           Some f \<Rightarrow> preempt_reserved ora f
         | None \<Rightarrow> run_decode cfg ora allow_prefill allow_decode))))"

definition schedule_step :: "sched_config \<Rightarrow> 'm memory_oracle \<Rightarrow> bool \<Rightarrow> bool \<Rightarrow> int option \<Rightarrow>
    ('m sched, pass_outcome) eff" where
  "schedule_step cfg ora allow_prefill allow_decode failure =
     bindE (decode_affinity cfg ora failure) (\<lambda>(overdue, batch).
       case batch of
         Some b \<Rightarrow> retE (Done (b, False, []))
       | None \<Rightarrow> prefill_or_decode cfg ora allow_prefill allow_decode failure overdue)"

definition schedule_pass :: "sched_config \<Rightarrow> 'm memory_oracle \<Rightarrow> bool \<Rightarrow> bool \<Rightarrow> ('m sched, pass_outcome) eff" where
  "schedule_pass cfg ora allow_prefill allow_decode =
     thenE reset_locals
     (bindE (reserve_windows ora allow_decode) (\<lambda>(failure, allow_decode).
      bindE (getE (\<lambda>s. length (decoding s) > 1)) (\<lambda>several.
        if failure \<noteq> None \<and> several then preempt_first cfg ora (the failure)
        else schedule_step cfg ora allow_prefill allow_decode failure)))"

section \<open>The recursion of \<open>_schedule_impl\<close>\<close>

definition weaker :: "bool \<Rightarrow> bool \<Rightarrow> pass_outcome \<Rightarrow> bool" where
  "weaker allow_prefill allow_decode out \<longleftrightarrow>
     (case out of Done _ \<Rightarrow> True
      | RetryDecode \<Rightarrow> allow_decode
      | RetryPrefill d \<Rightarrow> allow_prefill \<and> (d \<longrightarrow> allow_decode))"

lemma weaker_simps [simp]:
  "weaker ap ad (Done r)" "weaker ap ad RetryDecode = ad" "weaker ap ad (RetryPrefill d) = (ap \<and> (d \<longrightarrow> ad))"
  by (simp_all add: weaker_def)

lemma idle_outcome_weaker: "yields (idle_outcome ora ap ad) (weaker ap ad)"
  unfolding idle_outcome_def
  by (rule yields_bind [where B="\<lambda>r. r \<longrightarrow> ap"])
    (auto simp: yields_def eff_simps split: option.splits if_splits)

lemma preempt_done: "yields (bindE (preempt_decode_victim ora v) (\<lambda>r. retE (Done r))) (weaker ap ad)"
  by (intro yields_bind_any yields_ret) simp

lemma handle_blocked_decode_weaker: "yields (handle_blocked_decode ora ad v) (weaker ap ad)"
  unfolding handle_blocked_decode_def
  by (rule yields_bind [where B="\<lambda>r. r \<longrightarrow> ad"])
    (auto simp: yields_def eff_simps split: option.splits prod.splits sum.splits)

lemma finish_decode_weaker: "yields (finish_decode scheduled victim) (weaker ap ad)"
  unfolding finish_decode_def by (intro yields_then yields_ret) simp

lemma run_decode_weaker: "yields (run_decode cfg ora ap ad) (weaker ap ad)"
  unfolding run_decode_def
  by (intro yields_then yields_bind_any)
    (auto intro: idle_outcome_weaker handle_blocked_decode_weaker finish_decode_weaker split: option.splits)

lemma reserve_windows_weaker: "yields (reserve_windows ora ad) (\<lambda>(f, d). d \<longrightarrow> ad)"
proof -
  have "yields (case (failure, decode_capacity_reclaimer ora) of
         (Some f, Some reclaimer) \<Rightarrow>
           if ad then bindE (reclaim_decode_capacity reclaimer f) (\<lambda>failure'. retE (failure', False))
           else retE (failure, ad)
       | _ \<Rightarrow> retE (failure, ad)) (\<lambda>(f, d). d \<longrightarrow> ad)" for failure
    by (cases failure; cases "decode_capacity_reclaimer ora") (auto intro!: yields_ret yields_bind_any)
  then show ?thesis unfolding reserve_windows_def by (rule yields_bind_any)
qed

lemma weaker_mono: "weaker ap d out \<Longrightarrow> (d \<longrightarrow> ad) \<Longrightarrow> weaker ap ad out"
  by (cases out) auto

lemma prefill_or_decode_weaker: "yields (prefill_or_decode cfg ora ap ad failure overdue) (weaker ap ad)"
  unfolding prefill_or_decode_def
  by (intro yields_then yields_bind_any)
    (auto intro: yields_ret yields_then run_decode_weaker preempt_done simp: preempt_reserved_def
      split: option.splits)

lemma schedule_step_weaker: "yields (schedule_step cfg ora ap ad failure) (weaker ap ad)"
  unfolding schedule_step_def
  by (rule yields_bind_any) (simp add: prefill_or_decode_weaker yields_ret split: prod.split option.split)

lemma preempt_first_weaker: "yields (preempt_first cfg ora f) (weaker ap ad)"
  unfolding preempt_first_def by (intro yields_then preempt_done)

lemma schedule_pass_weaker: "yields (schedule_pass cfg ora ap ad) (weaker ap ad)"
proof -
  have "yields (schedule_step cfg ora ap d failure) (weaker ap ad)" if "d \<longrightarrow> ad" for d failure
    using schedule_step_weaker [of cfg ora ap d failure] weaker_mono [OF _ that] by (simp add: yields_def)
  then show ?thesis
    unfolding schedule_pass_def
    by (intro yields_then yields_bind [OF reserve_windows_weaker])
      (auto intro!: yields_bind_any preempt_first_weaker)
qed

function schedule_impl :: "sched_config \<Rightarrow> 'm memory_oracle \<Rightarrow> bool \<Rightarrow> bool \<Rightarrow> ('m sched, schedule_result) eff" where
  "schedule_impl cfg ora allow_prefill allow_decode s =
     (case schedule_pass cfg ora allow_prefill allow_decode s of
        (Inl e, s') \<Rightarrow> (Inl e, s')
      | (Inr (Done r), s') \<Rightarrow> (Inr r, s')
      | (Inr RetryDecode, s') \<Rightarrow> schedule_impl cfg ora allow_prefill False s'
      | (Inr (RetryPrefill allow_decode'), s') \<Rightarrow> schedule_impl cfg ora False allow_decode' s')"
  by pat_completeness auto
termination
proof (relation "measure (\<lambda>(cfg, ora, ap, ad, s). of_bool ap + of_bool ad)")
  fix cfg :: sched_config and ora :: "'m memory_oracle" and ap ad d s x y b
  assume "(x, y) = schedule_pass cfg ora ap ad s" "x = Inr b"
  then have w: "weaker ap ad b" using yieldsD [OF schedule_pass_weaker, of cfg ora ap ad s b y] by simp
  show "b = RetryDecode \<Longrightarrow> ((cfg, ora, ap, False, y), cfg, ora, ap, ad, s)
      \<in> measure (\<lambda>(cfg, ora, ap, ad, s). of_bool ap + of_bool ad)"
    using w by simp
  show "b = RetryPrefill d \<Longrightarrow> ((cfg, ora, False, d, y), cfg, ora, ap, ad, s)
      \<in> measure (\<lambda>(cfg, ora, ap, ad, s). of_bool ap + of_bool ad)"
    using w by auto
qed simp

declare schedule_impl.simps [simp del]

section \<open>The public operations\<close>

text \<open>
  The handler of \<open>schedule\<close>: whatever was popped and not put back before an exception returns to
  its queue.
\<close>

definition restore_queues :: "int list \<Rightarrow> int list \<Rightarrow> 'm sched \<Rightarrow> 'm sched" where
  "restore_queues waiting_before decoding_before s =
     (let owned = set (waiting s) \<union> set (decoding s);
          s1 = s\<lparr>waiting := waiting s @ filter (\<lambda>i. i \<notin> owned) waiting_before\<rparr>
      in s1\<lparr>decoding := decoding s1 @ filter (\<lambda>i. i \<notin> owned \<and> i \<notin> set (waiting s1)) decoding_before\<rparr>)"

fun note_waiting :: "int \<Rightarrow> int list \<Rightarrow> (int, int) dict \<Rightarrow> (int, int) dict" where
  "note_waiting now [] d = d"
| "note_waiting now (i # is) d =
     note_waiting now is (if map_of d i = None then dict_set i now d else d)"

text \<open>The phase bookkeeping after a successful pass.\<close>

fun pop_waits :: "int \<Rightarrow> seq_store \<Rightarrow> int list \<Rightarrow> (int, int) dict \<Rightarrow> (int \<times> bool \<times> int) list \<times> (int, int) dict" where
  "pop_waits now \<sigma> [] d = ([], d)"
| "pop_waits now \<sigma> (i # is) d =
     (case pop_waits now \<sigma> is (dict_pop i d) of (ws, d') \<Rightarrow>
       ((i, num_prefilled_tokens (\<sigma> i) > 0, now - dict_get d i now) # ws, d'))"

definition record_phase :: "int \<Rightarrow> schedule_result \<Rightarrow> 'm sched \<Rightarrow> 'm sched" where
  "record_phase now result s =
     (case result of (seqs, is_prefill, _) \<Rightarrow>
       if seqs = [] then s
       else
         let new_phase = (if is_prefill then ''prefill'' else ''decode'');
             (waits, since) = (if is_prefill then pop_waits now (store s) seqs (prefill_wait_since s)
                               else ([], prefill_wait_since s));
             switched = (new_phase \<noteq> phase s)
         in s\<lparr>prefill_wait_since := since,
              last_phase_decision := Some \<lparr>pd_phase = new_phase, pd_reason = phase_reason s,
                pd_switched = switched, pd_previous_phase = now - phase_started_at s,
                pd_decode_batch = (if is_prefill then 0 else int (length seqs)), pd_prefill_waits = waits\<rparr>,
              phase_started_at := (if switched then now else phase_started_at s),
              phase := new_phase\<rparr>)"

definition schedule :: "sched_config \<Rightarrow> 'm memory_oracle \<Rightarrow> ('m sched, schedule_result) eff" where
  "schedule cfg ora =
     bindE (hookE (monotonic ora)) (\<lambda>now.
     thenE (modifyE (\<lambda>s. s\<lparr>prefill_wait_since := note_waiting now (waiting s) (prefill_wait_since s)\<rparr>))
     (bindE (getE (\<lambda>s. (waiting s, decoding s))) (\<lambda>(waiting_before, decoding_before).
     thenE (modifyE (\<lambda>s. s\<lparr>last_phase_decision := None\<rparr>))
     (bindE (on_errorE
         (case capacity_snapshot ora of
            None \<Rightarrow> schedule_impl cfg ora True True
          | Some (enter, leave) \<Rightarrow> withE (hookE enter) (hookE leave) (schedule_impl cfg ora True True))
         (restore_queues waiting_before decoding_before)) (\<lambda>result.
     thenE (modifyE (record_phase now result)) (retE result))))))"

definition hits_stop :: "sched_config \<Rightarrow> int \<Rightarrow> sequence \<Rightarrow> bool" where
  "hits_stop cfg token q \<longleftrightarrow>
     (\<not> ignore_eos q \<and>
      token \<in> resolve_eos_token_ids (EosSeq (eos_token_ids q)) (EosSeq (scheduler_eos_token_ids cfg)) None) \<or>
     num_completion_tokens q = max_tokens q"

type_synonym sampled = "int \<times> int \<times> pyfloat option \<times> (int \<times> pyfloat) list option"

text \<open>\<open>current_chunk_size\<close> is set before a prefill step; adding \<open>None\<close> is a \<open>TypeError\<close>.\<close>

definition advance_prefill :: "int \<Rightarrow> ('m sched, unit) eff" where
  "advance_prefill i = seqE (\<lambda>q. case current_chunk_size q of
     None \<Rightarrow> (Inl TypeError, q)
   | Some c \<Rightarrow> (Inr (), q\<lparr>num_prefilled_tokens := num_prefilled_tokens q + c\<rparr>)) i"

definition accept_token :: "sched_config \<Rightarrow> bool \<Rightarrow> bool \<Rightarrow> sampled \<Rightarrow> ('m sched, unit) eff" where
  "accept_token cfg retain_finished in_prefill = (\<lambda>(i, token, lp, tlp).
     thenE (set_seqE (append_token token lp tlp) i)
     (bindE (getE (\<lambda>s. hits_stop cfg token (store s i))) (\<lambda>stop.
       if \<not> stop then retE ()
       else thenE (set_seqE (\<lambda>q. q\<lparr>status := FINISHED\<rparr>) i)
         (if retain_finished then retE ()
          else (\<lambda>s. if \<not> in_prefill \<and> i \<notin> set (decoding s) then (Inr (), s) else remove_decodingE i s)))))"

definition postprocess_prefill_one :: "sched_config \<Rightarrow> 'm memory_oracle \<Rightarrow> bool \<Rightarrow> sampled \<Rightarrow> ('m sched, unit) eff" where
  "postprocess_prefill_one cfg ora retain_finished smp =
     (let i = fst smp in
      thenE (advance_prefill i)
      (bindE (getE (\<lambda>s. num_prefilled_tokens (store s i) < num_prompt_tokens (store s i))) (\<lambda>partial.
        if partial then
          thenE (set_seqE (\<lambda>q. q\<lparr>status := WAITING\<rparr>) i)
          (thenE (wait_setdefaultE ora i) (modifyE (\<lambda>s. s\<lparr>waiting := i # waiting s\<rparr>)))
        else
          thenE (\<lambda>s. hookE (complete_prefill_execution ora (store s i)) s)
          (thenE (set_seqE (\<lambda>q. q\<lparr>status := RUNNING\<rparr>) i)
          (thenE (modifyE (\<lambda>s. s\<lparr>decoding := decoding s @ [i]\<rparr>))
          (bindE (getE (\<lambda>s. (is_recompute_replay (store s i), replay_decode_token_count (store s i) = 0)))
            (\<lambda>(replay, none_left).
              if replay then (if none_left then seqE finish_recompute_replay i else retE ())
              else accept_token cfg retain_finished True smp)))))))"

definition postprocess_decode_one :: "sched_config \<Rightarrow> bool \<Rightarrow> sampled \<Rightarrow> ('m sched, unit) eff" where
  "postprocess_decode_one cfg retain_finished smp =
     bindE (getE (\<lambda>s. is_recompute_decode (store s (fst smp)))) (\<lambda>replay.
       if replay then seqE advance_recompute_replay (fst smp)
       else accept_token cfg retain_finished False smp)"

text \<open>\<open>zip\<close> stops at the shortest list; an absent or empty logprob list stands for all \<open>None\<close>.\<close>

definition sampled_rows :: "int list \<Rightarrow> int list \<Rightarrow> pyfloat option list \<Rightarrow> (int \<times> pyfloat) list option list \<Rightarrow>
    sampled list" where
  "sampled_rows seqs tokens lps tlps =
     zip seqs (zip tokens (zip (if lps = [] then replicate (length seqs) None else lps)
                               (if tlps = [] then replicate (length seqs) None else tlps)))"

definition postprocess :: "sched_config \<Rightarrow> 'm memory_oracle \<Rightarrow> int list \<Rightarrow> int list \<Rightarrow> bool \<Rightarrow> pyfloat option list \<Rightarrow>
    (int \<times> pyfloat) list option list \<Rightarrow> bool \<Rightarrow> ('m sched, unit) eff" where
  "postprocess cfg ora seqs tokens is_prefill lps tlps retain_finished =
     forE (sampled_rows seqs tokens lps tlps)
       (if is_prefill then postprocess_prefill_one cfg ora retain_finished
        else postprocess_decode_one cfg retain_finished)"

end
