(* ===== verification/Scheduler_Queues.thy ===== *)
theory Scheduler_Queues
  imports Scheduler
begin

text \<open>
  No request is ever lost or duplicated by the scheduler.  Whatever the oracle's methods do, and
  whether \<open>schedule\<close> returns or raises, every request that was queued is afterwards in exactly one
  of the waiting queue, the decoding queue and the prefill batch handed out.
\<close>

section \<open>Operations that leave the queues alone\<close>

definition queues :: "'m sched \<Rightarrow> int list \<times> int list \<times> int list \<times> int list" where
  "queues s = (waiting s, decoding s, l_scheduled s, l_skipped s)"

definition quiet :: "('m sched, 'a) eff \<Rightarrow> bool" where
  "quiet m \<longleftrightarrow> (\<forall>s. queues (snd (m s)) = queues s)"

named_theorems quiet_rules \<open>operations that leave the queues alone\<close>

lemma quiet_bind [quiet_rules]: "quiet m \<Longrightarrow> (\<And>x. quiet (f x)) \<Longrightarrow> quiet (bindE m f)"
  unfolding quiet_def
proof (intro allI)
  fix s
  assume *: "\<forall>s. queues (snd (m s)) = queues s" "\<And>x. \<forall>s. queues (snd (f x s)) = queues s"
  obtain r s1 where m: "m s = (r, s1)" by fastforce
  then have "queues s1 = queues s" using *(1) by (metis snd_conv)
  with *(2) m show "queues (snd (bindE m f s)) = queues s" by (cases r) (simp_all add: bindE_apply)
qed

lemma quiet_then [quiet_rules]: "quiet m \<Longrightarrow> quiet n \<Longrightarrow> quiet (thenE m n)"
  unfolding thenE_def by (rule quiet_bind)

lemma quiet_if [quiet_rules]: "quiet m \<Longrightarrow> quiet n \<Longrightarrow> quiet (if c then m else n)"
  by simp

lemma quiet_basic [quiet_rules]:
  "quiet (retE x)" "quiet (raiseE e)" "quiet (getE f)" "quiet (liftE r)" "quiet (queryE q)"
  "quiet (askE q')" "quiet (ask_seqE q'' i)" "quiet (hookE h)" "quiet (hook_seqE h' i)"
  "quiet (hook_storeE h'')" "quiet (seqE g i)" "quiet (set_seqE k i)"
  by (simp_all add: quiet_def eff_simps askE_def ask_seqE_def hookE_def hook_seqE_def hook_storeE_def
      seqE_def set_seqE_def queues_def split: prod.splits)

lemma quiet_modify: "(\<And>s. queues (g s) = queues s) \<Longrightarrow> quiet (modifyE g)"
  by (simp add: quiet_def eff_simps)

lemma quiet_state: "(\<And>s. quiet (m s)) \<Longrightarrow> quiet (\<lambda>s. m s s)"
  by (simp add: quiet_def)

lemma quiet_hook_state [quiet_rules]: "quiet (\<lambda>s. hookE (h s) s)"
  by (rule quiet_state) (rule quiet_basic)

lemma quiet_spec:
  assumes "quiet m" and "\<And>s s'. queues s' = queues s \<Longrightarrow> P s \<Longrightarrow> P s'" and "\<And>s. P s \<Longrightarrow> E s"
  shows "spec P m (\<lambda>_. P) E"
proof (rule specI)
  show "E s'" if "P s" "m s = (Inl e, s')" for s e s'
    using assms that unfolding quiet_def by (metis snd_conv)
  show "P s'" if "P s" "m s = (Inr x, s')" for s x s'
    using assms that unfolding quiet_def by (metis snd_conv)
qed

lemma spec_each: "(\<And>s. P s \<Longrightarrow> spec (\<lambda>t. t = s) m Q E) \<Longrightarrow> spec P m Q E"
  by (simp add: spec_def)

lemma quiet_wait_setdefault [quiet_rules]: "quiet (wait_setdefaultE ora i)"
  unfolding wait_setdefaultE_def by (intro quiet_rules quiet_modify) (simp add: queues_def)

lemma quiet_batch_key [quiet_rules]: "quiet (prefill_batch_key ora i)"
  unfolding prefill_batch_key_def prefill_modeE_def by (intro quiet_rules)

lemma quiet_mode_order_loop [quiet_rules]: "quiet (mode_order_loop ora replay is modes)"
  by (induction "is" arbitrary: modes)
    (auto intro!: quiet_rules simp: refresh_prefill_metadata_def)

lemma quiet_mode_order [quiet_rules]: "quiet (prefill_mode_order cfg ora)"
proof -
  have "quiet (\<lambda>s. mode_order_loop ora replay (sort_key (\<lambda>i. prefill_priority (store s i) replay) cands) [] s)"
    for replay cands
    by (rule quiet_state) (rule quiet_mode_order_loop)
  then show ?thesis
    unfolding prefill_mode_order_def
    by (auto intro!: quiet_rules split: option.splits)
qed

lemma quiet_affinity [quiet_rules]: "quiet (decode_affinity cfg ora failure)"
proof -
  have "quiet (overdue_loop ora xs)" for xs
    by (induction xs) (auto intro!: quiet_rules)
  then have loop: "quiet (\<lambda>s. overdue_loop ora (map snd (prefill_wait_since s)) s)"
    by (rule quiet_state)
  show ?thesis
    unfolding decode_affinity_def
    by (intro quiet_rules quiet_modify loop) (simp_all add: queues_def)
qed

lemma quiet_read_capacities [quiet_rules]: "quiet (read_capacities cfg ora)"
  unfolding read_capacities_def by (intro quiet_rules quiet_modify) (simp_all add: queues_def)

lemma quiet_reclaim [quiet_rules]: "quiet (reclaim_decode_capacity reclaimer f)"
  unfolding reclaim_decode_capacity_def by (intro quiet_rules)

lemma quiet_reserve [quiet_rules]: "quiet (reserve_windows ora ad)"
proof -
  have "quiet (case (failure, decode_capacity_reclaimer ora) of
         (Some f, Some reclaimer) \<Rightarrow>
           if ad then bindE (reclaim_decode_capacity reclaimer f) (\<lambda>failure'. retE (failure', False))
           else retE (failure, ad)
       | _ \<Rightarrow> retE (failure, ad))" for failure
    by (cases failure; cases "decode_capacity_reclaimer ora") (auto intro!: quiet_rules)
  then show ?thesis
    unfolding reserve_windows_def by (intro quiet_rules)
qed

section \<open>Ownership\<close>

definition queued :: "'m sched \<Rightarrow> int multiset" where
  "queued s = mset (waiting s) + mset (decoding s)"

definition owned :: "'m sched \<Rightarrow> int multiset" where
  "owned s = queued s + mset (l_scheduled s) + mset (l_skipped s)"

lemma queued_queues: "queues s' = queues s \<Longrightarrow> queued s' = queued s"
  and owned_queues: "queues s' = queues s \<Longrightarrow> owned s' = owned s"
  by (simp_all add: queues_def queued_def owned_def)

text \<open>\<open>holds M s\<close>: everything is in place; \<open>minus i M s\<close>: everything but the candidate \<open>i\<close>.\<close>

abbreviation holds :: "int multiset \<Rightarrow> 'm sched \<Rightarrow> bool" where
  "holds M s \<equiv> owned s = M"

abbreviation lacks :: "int \<Rightarrow> int multiset \<Rightarrow> 'm sched \<Rightarrow> bool" where
  "lacks i M s \<equiv> add_mset i (owned s) = M"

abbreviation safe :: "int multiset \<Rightarrow> 'm sched \<Rightarrow> bool" where
  "safe M s \<equiv> queued s + mset (l_skipped s) \<subseteq># M"

lemma holds_safe: "holds M s \<Longrightarrow> safe M s"
  by (auto simp: owned_def subset_mset.le_iff_add)

lemma lacks_safe: "lacks i M s \<Longrightarrow> safe M s"
  by (auto simp: owned_def subset_mset.le_iff_add)

lemma quiet_holds: "quiet m \<Longrightarrow> spec (holds M) m (\<lambda>_. holds M) (safe M)"
  by (rule quiet_spec) (simp_all add: holds_safe, metis owned_queues)

lemma quiet_lacks: "quiet m \<Longrightarrow> spec (lacks i M) m (\<lambda>_. lacks i M) (safe M)"
  by (rule quiet_spec) (simp_all add: lacks_safe, metis owned_queues)

section \<open>The prefill phase\<close>

lemma holds_modify: "(\<And>s. owned (g s) = owned s) \<Longrightarrow> spec (holds M) (modifyE g) (\<lambda>_. holds M) (safe M)"
  by (rule spec_modify) simp

lemma lacks_modify: "(\<And>s. owned (g s) = owned s) \<Longrightarrow> spec (lacks i M) (modifyE g) (\<lambda>_. lacks i M) (safe M)"
  by (rule spec_modify) simp

definition popped_spec :: "int multiset \<Rightarrow> int option \<Rightarrow> 'm sched \<Rightarrow> bool" where
  "popped_spec M r s \<longleftrightarrow> (case r of None \<Rightarrow> holds M s | Some i \<Rightarrow> lacks i M s)"

lemma popped_spec_simps [simp]: "popped_spec M None = holds M" "popped_spec M (Some i) = lacks i M"
  by (simp_all add: popped_spec_def fun_eq_iff)

lemma pop_loop_owned:
  "spec (\<lambda>s. holds M s \<and> waiting s = ws) (pop_loop cfg ora target replay ws) (popped_spec M) (safe M)"
proof (induction ws)
  case Nil
  show ?case unfolding pop_loop.simps by (rule spec_ret) (simp add: popped_spec_def)
next
  case (Cons i ws)
  let ?P = "\<lambda>s. holds M s \<and> waiting s = i # ws"
  have key: "spec ?P (if el then bindE (prefill_batch_key ora i) (\<lambda>k. retE (k = snd target)) else retE False)
    (\<lambda>_. ?P) (safe M)" for el
    by (rule quiet_spec) (auto intro!: quiet_rules simp: holds_safe owned_def queued_def queues_def)
  show ?case
    unfolding pop_loop.simps
  proof (rule spec_bind [where R="\<lambda>_. ?P"])
    show "spec ?P (getE f) (\<lambda>_. ?P) (safe M)" for f :: "'a sched \<Rightarrow> bool" by (rule spec_get)
    show "spec ?P (bindE (if el then bindE (prefill_batch_key ora i) (\<lambda>k. retE (k = snd target)) else retE False)
      (\<lambda>ok. if ok then thenE (modifyE (\<lambda>s. s\<lparr>waiting := ws\<rparr>)) (retE (Some i))
        else thenE (modifyE (\<lambda>s. s\<lparr>waiting := ws, l_skipped := l_skipped s @ [i]\<rparr>))
          (pop_loop cfg ora target replay ws))) (popped_spec M) (safe M)" for el
    proof (rule spec_bind [OF key])
      show "spec ?P (if ok then thenE (modifyE (\<lambda>s. s\<lparr>waiting := ws\<rparr>)) (retE (Some i))
        else thenE (modifyE (\<lambda>s. s\<lparr>waiting := ws, l_skipped := l_skipped s @ [i]\<rparr>))
          (pop_loop cfg ora target replay ws)) (popped_spec M) (safe M)" for ok
      proof (cases ok)
        case True
        have "spec ?P (thenE (modifyE (\<lambda>s. s\<lparr>waiting := ws\<rparr>)) (retE (Some i))) (popped_spec M) (safe M)"
          by (rule spec_then [where R="lacks i M"], rule spec_modify)
            (auto simp: owned_def queued_def popped_spec_def intro!: spec_ret)
        with True show ?thesis by simp
      next
        case False
        have "spec ?P (modifyE (\<lambda>s. s\<lparr>waiting := ws, l_skipped := l_skipped s @ [i]\<rparr>))
          (\<lambda>_ s. holds M s \<and> waiting s = ws) (safe M)"
          by (rule spec_modify) (auto simp: owned_def queued_def)
        from spec_then [OF this Cons.IH] False show ?thesis by simp
      qed
    qed
  qed
qed

lemma pop_next_owned: "spec (holds M) (pop_next_prefill_seq cfg ora target replay) (popped_spec M) (safe M)"
  unfolding pop_next_prefill_seq_def
  by (rule spec_state) (rule spec_weaken [OF pop_loop_owned], auto)

lemma block_prefill_owned: "spec (lacks i M) (block_prefill cfg ora mode plan i) (\<lambda>_. holds M) (safe M)"
  unfolding block_prefill_def
  by (rule spec_bind [OF quiet_lacks], intro quiet_rules, rule spec_modify)
    (auto simp: owned_def queued_def)

definition admit_post :: "int \<Rightarrow> int multiset \<Rightarrow> bool \<Rightarrow> 'm sched \<Rightarrow> bool" where
  "admit_post i M ok s \<longleftrightarrow> (if ok then lacks i M s else holds M s)"

lemma admit_post_simps [simp]: "admit_post i M True = lacks i M" "admit_post i M False = holds M"
  by (simp_all add: admit_post_def fun_eq_iff)

lemma defer_owned: "spec (lacks i M) (thenE (defer_prompt i f) (retE False)) (admit_post i M) (safe M)"
  unfolding defer_prompt_def
  by (rule spec_then [where R="holds M"], rule spec_modify)
    (auto simp: owned_def queued_def admit_post_def intro!: spec_ret)

lemma quiet_admitted: "quiet m \<Longrightarrow> yields m (\<lambda>ok. ok) \<Longrightarrow> spec (lacks i M) m (admit_post i M) (safe M)"
proof (rule specI)
  assume m: "quiet m" "yields m (\<lambda>ok. ok)"
  note q = quiet_lacks [OF m(1), of i M]
  show "safe M s'" if "lacks i M s" "m s = (Inl e, s')" for s e s' using specD_Inl [OF q that] .
  show "admit_post i M x s'" if "lacks i M s" "m s = (Inr x, s')" for s x s'
    using specD_Inr [OF q that] yieldsD [OF m(2) that(2)] by (simp add: admit_post_def)
qed

lemma admit_prompt_owned: "spec (lacks i M) (admit_prompt ora i) (admit_post i M) (safe M)"
proof -
  have branch: "spec (lacks i M) (case failed of
         Some f \<Rightarrow>
           bindE (askE (prompt_admission_failure_action ora)) (\<lambda>action.
             if action = ''defer'' then thenE (defer_prompt i f) (retE False)
             else raiseE RuntimeError)
       | None \<Rightarrow> m) (admit_post i M) (safe M)"
    if "quiet m" "yields m (\<lambda>ok. ok)" for failed and m :: "('a sched, bool) eff"
  proof (cases failed)
    case None
    then show ?thesis using quiet_admitted [OF that] by simp
  next
    case (Some f)
    have "spec (lacks i M) (bindE (askE (prompt_admission_failure_action ora)) (\<lambda>action.
        if action = ''defer'' then thenE (defer_prompt i f) (retE False) else raiseE RuntimeError))
        (admit_post i M) (safe M)"
      by (intro spec_bind [OF quiet_lacks] quiet_rules)
        (auto intro: defer_owned spec_raise lacks_safe)
    with Some show ?thesis by simp
  qed
  show ?thesis
    unfolding admit_prompt_def
    by (intro spec_bind [OF quiet_lacks] branch quiet_rules quiet_modify yields_then yields_bind_any)
      (auto intro!: yields_then yields_ret yields_raise simp: queues_def)
qed

lemma commit_prefill_owned: "spec (lacks i M) (commit_prefill ora tokens i) (\<lambda>_. holds M) (safe M)"
  unfolding commit_prefill_def
  by (intro spec_then [OF quiet_lacks] spec_bind [OF quiet_lacks] quiet_rules quiet_modify spec_modify)
    (auto simp: queues_def owned_def queued_def)

lemma consider_prefill_owned: "spec (lacks i M) (consider_prefill cfg ora mode i) (\<lambda>_. holds M) (safe M)"
proof -
  have admit: "spec (lacks i M) (\<lambda>s. if num_prefilled_tokens (store s i) = 0 then admit_prompt ora i s else retE True s)
      (admit_post i M) (safe M)"
    using admit_prompt_owned [of i M ora] by (simp add: spec_def admit_post_def eff_simps)
  have commit: "spec (admit_post i M admitted)
      (if \<not> admitted then retE True else thenE (commit_prefill ora tokens i) (retE (mode \<noteq> RawOffload)))
      (\<lambda>_. holds M) (safe M)" for admitted tokens
    by (cases admitted) (auto intro!: spec_ret spec_then [OF commit_prefill_owned])
  have block: "spec (lacks i M) (thenE (block_prefill cfg ora mode plan i) (retE True)) (\<lambda>_. holds M) (safe M)" for plan
    by (rule spec_then [OF block_prefill_owned]) (rule spec_ret)
  show ?thesis
    unfolding consider_prefill_def
    by (intro spec_bind [OF quiet_lacks] quiet_rules) (auto intro: block spec_bind [OF admit commit])
qed

lemma prefill_bucket_loop_owned:
  "spec (holds M) (prefill_bucket_loop n cfg ora margin target replay) (\<lambda>_. holds M) (safe M)"
proof (induction n)
  case 0
  show ?case unfolding prefill_bucket_loop.simps by (rule spec_ret)
next
  case (Suc n)
  have turn: "spec (popped_spec M p) (case p of
        None \<Rightarrow> retE ()
      | Some i \<Rightarrow> bindE (consider_prefill cfg ora (fst (snd target)) i) (\<lambda>again.
          if again then prefill_bucket_loop n cfg ora margin target replay else retE ()))
      (\<lambda>_. holds M) (safe M)" for p
    by (cases p) (auto intro!: spec_ret spec_bind [OF consider_prefill_owned] Suc.IH)
  show ?case
    unfolding prefill_bucket_loop.simps
    by (intro spec_bind [OF quiet_holds] quiet_rules)
      (auto intro!: spec_ret spec_bind [OF pop_next_owned turn])
qed

text \<open>Outside a bucket nothing is skipped.\<close>

abbreviation settled :: "int multiset \<Rightarrow> 'm sched \<Rightarrow> bool" where
  "settled M s \<equiv> holds M s \<and> l_skipped s = []"

lemma quiet_settled: "quiet m \<Longrightarrow> spec (settled M) m (\<lambda>_. settled M) (safe M)"
  by (rule quiet_spec) (auto simp: holds_safe queues_def owned_def queued_def)

lemma prefill_bucket_owned:
  "spec (settled M) (prefill_bucket cfg ora margin replay target) (\<lambda>_. settled M) (safe M)"
proof -
  let ?loop = "\<lambda>s. prefill_bucket_loop (length (waiting s)) cfg ora margin target replay s"
  let ?fin = "\<lambda>s. s\<lparr>waiting := l_skipped s @ waiting s, l_skipped := []\<rparr>"
  have "spec (settled M) ?loop (\<lambda>_. holds M) (safe M)"
    by (rule spec_state) (rule spec_weaken [OF prefill_bucket_loop_owned], auto)
  then have loop: "spec (settled M) ?loop (\<lambda>_ s. settled M (?fin s)) (\<lambda>s. safe M (?fin s))"
    by (rule spec_weaken) (auto simp: owned_def queued_def ac_simps)
  have "spec (settled M) (modifyE (\<lambda>s. s\<lparr>l_skipped := []\<rparr>)) (\<lambda>_. settled M) (safe M)"
    by (rule spec_modify) (auto simp: owned_def queued_def)
  then show ?thesis
    unfolding prefill_bucket_def by (rule spec_then)
      (rule spec_finally [where Q="\<lambda>_. settled M" and E="safe M", OF loop])
qed

lemma prefill_phase_owned:
  "spec (settled M) (prefill_phase cfg ora margin replay targets) (\<lambda>_. settled M) (safe M)"
proof (induction targets)
  case Nil
  show ?case unfolding prefill_phase.simps by (rule spec_ret)
next
  case (Cons t ts)
  show ?case
    unfolding prefill_phase.simps
    by (intro spec_bind [OF quiet_settled] quiet_rules)
      (auto intro!: spec_ret spec_then [OF prefill_bucket_owned Cons.IH])
qed

lemma run_prefill_owned: "spec (settled M) (run_prefill cfg ora margin) (\<lambda>_. settled M) (safe M)"
proof -
  have "quiet (\<lambda>s. if waiting s \<noteq> [] \<and> \<not> (replay_pending s \<and> decoding s \<noteq> [])
      then prefill_mode_order cfg ora s else retE [] s)"
    using quiet_mode_order [of cfg ora] by (simp add: quiet_def eff_simps)
  then show ?thesis
    unfolding run_prefill_def
    by (intro spec_bind [OF quiet_settled] quiet_rules prefill_phase_owned)
qed

section \<open>Preemption and decode\<close>

text \<open>\<open>idle M\<close>: no request is in the hands of the pass.\<close>

abbreviation at_rest :: "int multiset \<Rightarrow> 'm sched \<Rightarrow> bool" where
  "at_rest M s \<equiv> queued s = M \<and> l_scheduled s = [] \<and> l_skipped s = []"

lemma quiet_at_rest: "quiet m \<Longrightarrow> spec (at_rest M) m (\<lambda>_. at_rest M) (safe M)"
  by (rule quiet_spec) (auto simp: queues_def queued_def)

definition without :: "int \<Rightarrow> int multiset \<Rightarrow> 'm sched \<Rightarrow> bool" where
  "without v M s \<longleftrightarrow> add_mset v (queued s) = M \<and> l_scheduled s = [] \<and> l_skipped s = []"

lemma quiet_without: "quiet m \<Longrightarrow> spec (without v M) m (\<lambda>_. without v M) (safe M)"
  by (rule quiet_spec) (auto simp: queues_def queued_def without_def)

lemma preempt_owned:
  "spec (without v M) (preempt_decode_victim ora v) (\<lambda>r s. at_rest M s \<and> r = ([], False, [v])) (safe M)"
proof -
  have put_back: "spec (without v M)
      (thenE (modifyE (\<lambda>s. s\<lparr>decoding := l_scheduled s @ v # decoding s\<rparr>)) (raiseE e))
      (\<lambda>r s. at_rest M s \<and> r = ([], False, [v])) (safe M)" for e
    by (rule spec_then [where R="safe M"], rule spec_modify)
      (auto simp: without_def queued_def intro!: spec_raise)
  have requeue: "spec (without v M) (requeue_victim v) (\<lambda>r s. at_rest M s \<and> r = ([], False, [v])) (safe M)"
    unfolding requeue_victim_def
    by (rule spec_then [where R="at_rest M"], rule spec_modify)
      (auto simp: without_def queued_def intro!: spec_ret)
  show ?thesis
    unfolding preempt_decode_victim_def split_beta
    apply (rule spec_bind [OF quiet_without], rule quiet_rules)
    apply (intro spec_if put_back)
    apply (intro spec_then [OF quiet_without] quiet_rules quiet_modify requeue; simp add: queues_def)
    done
qed

lemma preempt_done_owned:
  "spec (without v M) (bindE (preempt_decode_victim ora v) (\<lambda>r. retE (Done r)))
     (\<lambda>out s. at_rest M s \<and> out = Done ([], False, [v])) (safe M)"
  by (rule spec_bind [OF preempt_owned]) (rule spec_ret, simp)

lemma remove_decoding_owned: "spec (at_rest M) (remove_decodingE f) (\<lambda>_. without f M) (safe M)"
  by (rule specI) (auto simp: remove_decodingE_def without_def queued_def split: if_splits)

text \<open>
  While \<open>n\<close> requests are still to be scanned they are the front of the decoding queue; a request
  that was blocked stands behind them.
\<close>

definition scanning :: "nat \<Rightarrow> int multiset \<Rightarrow> 'm sched \<Rightarrow> bool" where
  "scanning n M s \<longleftrightarrow> settled M s \<and>
     (\<exists>rest app. decoding s = rest @ app \<and> length rest = n \<and> (\<forall>v. l_victim s = Some v \<longrightarrow> v \<in> set app))"

definition scanned :: "int multiset \<Rightarrow> 'm sched \<Rightarrow> bool" where
  "scanned M s \<longleftrightarrow> settled M s \<and> (\<forall>v. l_victim s = Some v \<longrightarrow> v \<in> set (decoding s))"

lemma scanning_scanned: "scanning n M s \<Longrightarrow> scanned M s"
  by (auto simp: scanning_def scanned_def)

lemma scanningE:
  assumes "scanning (Suc n) M s"
  obtains i rest app where "decoding s = i # rest @ app" "length rest = n"
    "\<forall>v. l_victim s = Some v \<longrightarrow> v \<in> set app" "settled M s"
  using assms unfolding scanning_def by (metis append_Cons length_Suc_conv)

definition loop_post :: "int multiset \<Rightarrow> unit result \<times> 'm sched \<Rightarrow> bool" where
  "loop_post M r \<longleftrightarrow> (case r of (Inl e, s') \<Rightarrow> safe M s' | (Inr x, s') \<Rightarrow> scanned M s')"

lemma loop_post_simps [simp]: "loop_post M (Inl e, s) = safe M s" "loop_post M (Inr x, s) = scanned M s"
  by (simp_all add: loop_post_def)

lemma decode_turn:
  assumes sc: "scanning (Suc n) M s" and IH: "\<And>t. scanning n M t \<Longrightarrow> loop_post M (decode_loop n cfg ora t)"
  shows "loop_post M (decode_loop (Suc n) cfg ora s)"
proof -
  obtain i rest app where d: "decoding s = i # rest @ app" "length rest = n"
    "\<forall>v. l_victim s = Some v \<longrightarrow> v \<in> set app" and own: "settled M s"
    by (rule scanningE [OF sc])
  have M: "mset (waiting s) + mset (i # rest @ app) + mset (l_scheduled s) = M"
    using own d(1) by (auto simp: owned_def queued_def)
  have turned: "scanning n M (s\<lparr>l_victim := x, decoding := (rest @ app) @ [i]\<rparr>)"
    if "x = l_victim s \<or> x = Some i" for x
    unfolding scanning_def
    by (intro conjI exI [of _ rest] exI [of _ "app @ [i]"])
      (use own d that M in \<open>auto simp: owned_def queued_def\<close>)
  have stay: "scanning n M (s\<lparr>decoding := (rest @ app) @ [i]\<rparr>)"
    using turned [of "l_victim s"] by simp
  have accept: "scanning n M (s\<lparr>decoding := rest @ app, l_decode_free := c, l_allocation := b,
      l_num_seqs := k, l_scheduled := l_scheduled s @ [i]\<rparr>)" for c b k
    unfolding scanning_def
    by (intro conjI exI [of _ rest] exI [of _ app])
      (use own d M in \<open>auto simp: owned_def queued_def\<close>)
  have head: "scanned M (s\<lparr>l_victim := Some i, decoding := i # rest @ app\<rparr>)"
    using own d M by (auto simp: scanned_def owned_def queued_def)
  have lost: "safe M (s\<lparr>decoding := rest @ app\<rparr>)" "safe M (s\<lparr>decoding := rest @ app, l_decode_free := c\<rparr>)" for c
    using own M by (auto simp: queued_def simp flip: M)
  consider (full) "\<not> l_num_seqs s < max_decoding_seqs cfg"
    | (spent) "l_num_seqs s < max_decoding_seqs cfg" "\<not> output_budget_left (store s i)"
    | (run) "l_num_seqs s < max_decoding_seqs cfg" "output_budget_left (store s i)" by blast
  then show ?thesis
  proof cases
    case full
    then show ?thesis using scanning_scanned [OF sc] by simp
  next
    case spent
    then show ?thesis using IH [OF stay] d(1) by simp
  next
    case run
    show ?thesis
    proof (cases "decode_fits ora (memory s) (store s i) (l_decode_free s) (l_allocation s)")
      case (Inl e)
      then show ?thesis using run d(1) lost by simp
    next
      case (Inr fit)
      show ?thesis
      proof (cases fit)
        case None
        have v: "loop_post M (decode_loop n cfg ora
            (s\<lparr>l_victim := (if l_victim s = None then Some i else l_victim s), decoding := (rest @ app) @ [i]\<rparr>))"
          "scanned M (s\<lparr>l_victim := (if l_victim s = None then Some i else l_victim s), decoding := (rest @ app) @ [i]\<rparr>)"
          using IH [OF turned] scanning_scanned [OF turned] by auto
        have "decode_loop (Suc n) cfg ora s =
          (let s' = s\<lparr>l_victim := (if l_victim s = None then Some i else l_victim s), decoding := (rest @ app) @ [i]\<rparr>
           in if l_decode_free s > 0 then decode_loop n cfg ora s'
              else if l_scheduled s \<noteq> [] then (Inr (), s')
              else (Inr (), s\<lparr>l_victim := Some i, decoding := i # rest @ app\<rparr>))"
          using run d(1) Inr None by (simp add: Let_def)
        then show ?thesis using v head by (simp add: Let_def del: decode_loop.simps)
      next
        case (Some cost)
        then show ?thesis using run d(1) Inr lost IH [OF accept]
          by (cases "charge_step_allocations ora (memory s) (store s i) 1 (l_allocation s)") simp_all
      qed
    qed
  qed
qed

lemma decode_loop_owned: "spec (scanning n M) (decode_loop n cfg ora) (\<lambda>_. scanned M) (safe M)"
proof -
  have "scanning n M s \<Longrightarrow> loop_post M (decode_loop n cfg ora s)" for s
  proof (induction n arbitrary: s)
    case 0
    then show ?case by (simp add: scanning_scanned)
  next
    case (Suc n)
    then show ?case by (intro decode_turn) blast+
  qed
  then show ?thesis by (simp add: spec_def loop_post_def)
qed

text \<open>
  What a pass promises: a result accounts for every request, and a retry starts from a state in
  which every request is queued.
\<close>

definition pass_post :: "int multiset \<Rightarrow> pass_outcome \<Rightarrow> 'm sched \<Rightarrow> bool" where
  "pass_post M out s \<longleftrightarrow>
     (case out of
        Done (seqs, is_prefill, _) \<Rightarrow> queued s + (if is_prefill then mset seqs else {#}) = M
      | _ \<Rightarrow> queued s = M)"

lemma finish_decode_owned:
  "spec (\<lambda>s. scanned M s \<and> (scheduled, victim) = (l_scheduled s, l_victim s)) (finish_decode scheduled victim)
    (pass_post M) (safe M)"
proof -
  let ?P = "\<lambda>s. queued s = M \<and> (\<forall>v. victim = Some v \<longrightarrow> v \<in> set (decoding s))"
  have 1: "spec (\<lambda>s. scanned M s \<and> (scheduled, victim) = (l_scheduled s, l_victim s))
      (modifyE (\<lambda>s. s\<lparr>decoding := scheduled @ decoding s, l_scheduled := []\<rparr>)) (\<lambda>_. ?P) (safe M)"
    by (intro spec_modify) (auto simp: owned_def queued_def ac_simps scanned_def)
  have 2: "spec ?P (modifyE (\<lambda>s. case victim of None \<Rightarrow> s
      | Some v \<Rightarrow> s\<lparr>decoding := v # remove1 v (decoding s)\<rparr>)) (\<lambda>_ s. queued s = M) (safe M)"
    by (rule spec_modify) (auto simp: queued_def split: option.split)
  show ?thesis
    unfolding finish_decode_def
    by (rule spec_then [OF 1], rule spec_then [OF 2], rule spec_ret) (simp add: pass_post_def)
qed

lemma handle_blocked_owned:
  "spec (\<lambda>s. at_rest M s \<and> v \<in> set (decoding s)) (handle_blocked_decode ora ad v) (pass_post M) (safe M)"
proof -
  let ?P = "\<lambda>s. at_rest M s \<and> v \<in> set (decoding s)"
  have reclaim: "spec ?P (case decode_capacity_reclaimer ora of
         Some reclaimer \<Rightarrow>
           if ad then bindE (reclaim_decode_capacity reclaimer v) (\<lambda>failure. retE (failure = None))
           else retE False
       | None \<Rightarrow> retE False) (\<lambda>_. ?P) (safe M)"
    by (rule quiet_spec)
      (auto simp: queues_def queued_def intro!: quiet_rules split: option.split)
  have drop: "spec ?P (modifyE (\<lambda>s. s\<lparr>decoding := remove1 v (decoding s)\<rparr>)) (\<lambda>_. without v M) (safe M)"
    by (rule spec_modify) (auto simp: without_def queued_def)
  have preempt: "spec ?P (thenE (modifyE (\<lambda>s. s\<lparr>decoding := remove1 v (decoding s)\<rparr>))
      (bindE (preempt_decode_victim ora v) (\<lambda>r. retE (Done r)))) (pass_post M) (safe M)"
    by (rule spec_then [OF drop], rule spec_weaken [OF preempt_done_owned]) (auto simp: pass_post_def)
  show ?thesis
    unfolding handle_blocked_decode_def
    by (rule spec_bind [OF reclaim], intro spec_if spec_ret preempt) (simp add: pass_post_def)
qed

lemma idle_owned: "spec (at_rest M) (idle_outcome ora ap ad) (pass_post M) (safe M)"
proof -
  have "quiet (\<lambda>s. case prefill_capacity_reclaimer ora of
         None \<Rightarrow> (Inr False, s)
       | Some reclaimer \<Rightarrow>
           if decoding s = [] \<and> waiting s \<noteq> [] \<and> ap \<and>
              (l_deferred s \<noteq> None \<or> l_step_free s \<le> 0 \<or> l_blocked_capacity s \<noteq> None)
           then if async_inflight s \<noteq> 0 then (Inl AsyncDrainRequired, s)
             else hookE (reclaimer (store s)
               (case l_deferred s of Some d \<Rightarrow> fst d
                | None \<Rightarrow> (case l_blocked_capacity s of Some b \<Rightarrow> fst b | None \<Rightarrow> hd (waiting s)))) s
           else (Inr False, s))"
    by (auto simp: quiet_def hookE_def queues_def split: option.split prod.split)
  note first = quiet_at_rest [OF this, of M]
  show ?thesis
    unfolding idle_outcome_def
    by (rule spec_bind [OF first], intro spec_if spec_ret spec_raise spec_bind [OF quiet_at_rest] quiet_rules)
      (auto simp: pass_post_def)
qed

lemma run_decode_owned:
  fixes ora :: "'m memory_oracle"
  shows "spec (at_rest M) (run_decode cfg ora ap ad) (pass_post M) (safe M)"
proof -
  have start: "spec (\<lambda>s. at_rest M s \<and> l_victim s = None) (\<lambda>s. decode_loop (length (decoding s)) cfg ora s)
      (\<lambda>_. scanned M) (safe M)"
  proof (rule spec_state [of _ "\<lambda>s. decode_loop (length (decoding s)) cfg ora"])
    fix s :: "'m sched" assume "at_rest M s \<and> l_victim s = None"
    then have "scanning (length (decoding s)) M s" by (auto simp: scanning_def owned_def)
    then show "spec (\<lambda>t. t = s) (decode_loop (length (decoding s)) cfg ora) (\<lambda>_. scanned M) (safe M)"
      by (intro spec_weaken [OF decode_loop_owned]) auto
  qed
  have choose: "spec (\<lambda>s. scanned M s \<and> p = (l_scheduled s, l_victim s))
      (case p of (scheduled, victim) \<Rightarrow>
        if scheduled \<noteq> [] then finish_decode scheduled victim
        else case victim of
            Some v \<Rightarrow> handle_blocked_decode ora ad v
          | None \<Rightarrow> idle_outcome ora ap ad) (pass_post M) (safe M)" for p
  proof (cases p)
    case p: (Pair scheduled victim)
    consider "scheduled \<noteq> []" | "scheduled = []" "victim = None" | v where "scheduled = []" "victim = Some v"
      by (cases victim) auto
    then show ?thesis
    proof cases
      case 1
      with p show ?thesis using finish_decode_owned [of M scheduled victim] by simp
    next
      case 2
      have "spec (\<lambda>s. scanned M s \<and> p = (l_scheduled s, l_victim s)) (idle_outcome ora ap ad) (pass_post M) (safe M)"
        by (rule spec_weaken [OF idle_owned]) (use 2 p in \<open>auto simp: scanned_def owned_def\<close>)
      with 2 p show ?thesis by simp
    next
      case 3
      have "spec (\<lambda>s. scanned M s \<and> p = (l_scheduled s, l_victim s)) (handle_blocked_decode ora ad v) (pass_post M) (safe M)"
        by (rule spec_weaken [OF handle_blocked_owned]) (use 3 p in \<open>auto simp: scanned_def owned_def\<close>)
      with 3 p show ?thesis by simp
    qed
  qed
  show ?thesis
    unfolding run_decode_def
    apply (rule spec_then [OF quiet_at_rest], rule quiet_modify, simp add: queues_def)
    apply (rule spec_bind [OF quiet_at_rest], rule quiet_rules)
    apply (rule spec_then [where R="\<lambda>s. at_rest M s \<and> l_victim s = None"])
     apply (rule spec_modify, simp add: queued_def)
    apply (rule spec_then [OF start])
    apply (rule spec_bind [OF _ choose])
    apply (rule spec_get, simp)
    done
qed

section \<open>A whole scheduling call\<close>

lemma preempt_first_owned: "spec (at_rest M) (preempt_first cfg ora f) (pass_post M) (safe M)"
  unfolding preempt_first_def
  by (rule spec_then [OF remove_decoding_owned], intro spec_then [OF quiet_without] quiet_rules)
    (rule spec_weaken [OF preempt_done_owned], auto simp: pass_post_def)

lemma preempt_reserved_owned: "spec (at_rest M) (preempt_reserved ora f) (pass_post M) (safe M)"
  unfolding preempt_reserved_def
  by (rule spec_then [OF remove_decoding_owned], rule spec_weaken [OF preempt_done_owned])
    (auto simp: pass_post_def)

lemma sort_overdue_owned: "spec (at_rest M) sort_overdue (\<lambda>_. at_rest M) (safe M)"
  by (rule specI) (auto simp: sort_overdue_def queued_def split: if_splits)

lemma prefill_or_decode_owned:
  "spec (at_rest M) (prefill_or_decode cfg ora ap ad failure overdue) (pass_post M) (safe M)"
proof -
  have sort: "spec (at_rest M) (if overdue then sort_overdue else retE ()) (\<lambda>_. at_rest M) (safe M)"
    by (intro spec_if sort_overdue_owned spec_ret)
  have prefill: "spec (at_rest M) (run_prefill cfg ora margin) (\<lambda>_. settled M) (safe M)" for margin
    by (rule spec_weaken [OF run_prefill_owned]) (auto simp: owned_def)
  have choose: "spec (\<lambda>s. settled M s \<and> l_scheduled s = scheduled)
      (if scheduled \<noteq> [] then retE (Done (scheduled, True, []))
       else case failure of Some f \<Rightarrow> preempt_reserved ora f | None \<Rightarrow> run_decode cfg ora ap ad)
      (pass_post M) (safe M)" for scheduled
  proof (cases "scheduled = []")
    case False
    then show ?thesis by (auto intro!: spec_ret simp: pass_post_def owned_def)
  next
    case True
    have "spec (at_rest M) (case failure of Some f \<Rightarrow> preempt_reserved ora f | None \<Rightarrow> run_decode cfg ora ap ad)
        (pass_post M) (safe M)"
      by (cases failure) (simp_all add: run_decode_owned preempt_reserved_owned)
    then have "spec (\<lambda>s. settled M s \<and> l_scheduled s = scheduled)
        (case failure of Some f \<Rightarrow> preempt_reserved ora f | None \<Rightarrow> run_decode cfg ora ap ad)
        (pass_post M) (safe M)"
      by (rule spec_weaken) (auto simp: owned_def True)
    with True show ?thesis by simp
  qed
  show ?thesis
    unfolding prefill_or_decode_def
    by (rule spec_bind [OF quiet_at_rest], rule quiet_rules, rule spec_then [OF sort], rule spec_then [OF prefill],
        rule spec_bind [OF _ choose], rule spec_get) simp
qed

lemma schedule_pass_owned:
  "spec (\<lambda>s. queued s = M) (schedule_pass cfg ora ap ad) (pass_post M) (safe M)"
proof -
  have reset: "spec (\<lambda>s. queued s = M) reset_locals (\<lambda>_. at_rest M) (safe M)"
    unfolding reset_locals_def by (rule spec_modify) (simp add: queued_def)
  have step: "spec (at_rest M) (schedule_step cfg ora ap d failure) (pass_post M) (safe M)" for d failure
  proof -
    have affine: "spec (at_rest M) (retE (Done (b, False, []))) (pass_post M) (safe M)" for b
      by (rule spec_ret) (simp add: pass_post_def)
    show ?thesis
      unfolding schedule_step_def
      by (rule spec_bind [OF quiet_at_rest], rule quiet_rules)
        (simp add: affine prefill_or_decode_owned split: prod.split option.split)
  qed
  show ?thesis
    unfolding schedule_pass_def split_beta
    by (rule spec_then [OF reset], intro spec_bind [OF quiet_at_rest] quiet_rules spec_if preempt_first_owned step)
qed

lemma schedule_impl_owned:
  "queued s = M \<Longrightarrow>
   (case schedule_impl cfg ora ap ad s of
      (Inl e, s') \<Rightarrow> safe M s' | (Inr r, s') \<Rightarrow> pass_post M (Done r) s')"
proof (induction cfg ora ap ad s rule: schedule_impl.induct)
  case (1 cfg ora ap ad s)
  obtain o1 s1 where pass: "schedule_pass cfg ora ap ad s = (o1, s1)" by fastforce
  note post = specD_Inr [OF schedule_pass_owned "1.prems", of cfg ora ap ad] and
    err = specD_Inl [OF schedule_pass_owned "1.prems", of cfg ora ap ad]
  show ?case
  proof (cases o1)
    case (Inl e)
    then show ?thesis using pass err by (simp add: schedule_impl.simps [of cfg ora ap ad s])
  next
    case (Inr out)
    then have p: "pass_post M out s1" using pass post by simp
    show ?thesis
    proof (cases out)
      case (Done r)
      then show ?thesis using pass p Inr by (simp add: schedule_impl.simps [of cfg ora ap ad s])
    next
      case RetryDecode
      then have "queued s1 = M" using p by (simp add: pass_post_def)
      then show ?thesis using pass Inr RetryDecode "1.IH"(1) [of o1 s1]
        by (simp add: schedule_impl.simps [of cfg ora ap ad s])
    next
      case (RetryPrefill d)
      then have "queued s1 = M" using p by (simp add: pass_post_def)
      then show ?thesis using pass Inr RetryPrefill "1.IH"(2) [of o1 s1]
        by (simp add: schedule_impl.simps [of cfg ora ap ad s])
    qed
  qed
qed

text \<open>Restoring the queues puts every missing request back exactly once.\<close>

lemma restore_queues_exact:
  assumes dist: "distinct (w @ d)" and sub: "queued s \<subseteq># mset w + mset d"
  shows "queued (restore_queues w d s) = mset w + mset d"
proof -
  have "count (mset (waiting s @ decoding s)) x \<le> count (mset (w @ d)) x" for x
    using mset_subset_eq_count [OF sub] by (simp add: queued_def)
  then have "count (mset (waiting s @ decoding s)) x \<le> 1" for x
    using dist by (metis distinct_count_atmost_1 le_trans linorder_le_cases order.refl zero_le)
  then have "distinct (waiting s @ decoding s)"
    unfolding distinct_count_atmost_1 by (metis count_eq_zero_iff le_neq_implies_less less_one set_mset_mset)
  then have ds: "distinct (waiting s)" "distinct (decoding s)" "set (waiting s) \<inter> set (decoding s) = {}"
    by simp_all
  have ss: "set (waiting s) \<union> set (decoding s) \<subseteq> set w \<union> set d"
    using set_mset_mono [OF sub] by (simp add: queued_def)
  define t where "t = restore_queues w d s"
  have t: "waiting t = waiting s @ filter (\<lambda>i. i \<notin> set (waiting s) \<union> set (decoding s)) w"
    "decoding t = decoding s @ filter (\<lambda>i. i \<notin> set (waiting s) \<union> set (decoding s) \<and> i \<notin> set (waiting t)) d"
    by (simp_all add: t_def restore_queues_def Let_def)
  have "distinct (waiting t @ decoding t)"
    using ds dist by (auto simp: t)
  moreover have "set (waiting t @ decoding t) = set (w @ d)"
    using ss by (auto simp: t)
  ultimately have "mset (waiting t @ decoding t) = mset (w @ d)"
    using dist set_eq_iff_mset_eq_distinct by blast
  then show ?thesis by (simp add: queued_def t_def)
qed

text \<open>The stages of \<open>schedule\<close>, as in its code.\<close>

abbreviation subqueued :: "int multiset \<Rightarrow> 'm sched \<Rightarrow> bool" where
  "subqueued M t \<equiv> queued t \<subseteq># M"

lemma schedule_impl_spec:
  "spec (\<lambda>t. queued t = M) (schedule_impl cfg ora ap ad) (\<lambda>r. pass_post M (Done r)) (subqueued M)"
proof (rule specI)
  show "subqueued M t'" if "queued t = M" "schedule_impl cfg ora ap ad t = (Inl e, t')" for t e t'
    using schedule_impl_owned [OF that(1), of cfg ora ap ad] that(2)
      subset_mset.order_trans [OF mset_subset_eq_add_left [of "queued t'" "mset (l_skipped t')"]] by simp
  show "pass_post M (Done x) t'" if "queued t = M" "schedule_impl cfg ora ap ad t = (Inr x, t')" for t x t'
    using schedule_impl_owned [OF that(1), of cfg ora ap ad] that(2) by simp
qed

lemma pass_post_sub: "pass_post M (Done r) t \<Longrightarrow> subqueued M t"
  by (cases r) (auto simp: pass_post_def split: if_splits)

definition snapshot_impl :: "sched_config \<Rightarrow> 'm memory_oracle \<Rightarrow> ('m sched, schedule_result) eff" where
  "snapshot_impl cfg ora =
     (case capacity_snapshot ora of
        None \<Rightarrow> schedule_impl cfg ora True True
      | Some (enter, leave) \<Rightarrow> withE (hookE enter) (hookE leave) (schedule_impl cfg ora True True))"

lemma snapshot_impl_spec:
  "spec (\<lambda>t. queued t = M) (snapshot_impl cfg ora) (\<lambda>r. pass_post M (Done r)) (subqueued M)"
proof -
  have enter: "spec (\<lambda>t. queued t = M) (hookE h) (\<lambda>_ t. queued t = M) (subqueued M)" for h :: "('a, unit) eff"
    by (rule quiet_spec) (auto simp: quiet_basic queues_def queued_def)
  have leave: "spec (pass_post M (Done r)) (hookE h) (\<lambda>_. pass_post M (Done r)) (subqueued M)"
    "spec (subqueued M) (hookE h) (\<lambda>_. subqueued M) (subqueued M)" for r and h :: "('a, unit) eff"
    by (rule quiet_spec; auto simp: quiet_basic queues_def queued_def pass_post_def pass_post_sub split: prod.splits)+
  show ?thesis
    using schedule_impl_spec spec_with [OF enter schedule_impl_spec leave]
    by (auto simp: snapshot_impl_def split: option.split)
qed

lemma restored_spec:
  assumes "distinct (w @ d)"
  shows "spec (\<lambda>t. waiting t = w \<and> decoding t = d) (on_errorE (snapshot_impl cfg ora) (restore_queues w d))
    (\<lambda>r. pass_post (mset w + mset d) (Done r)) (\<lambda>t. queued t = mset w + mset d)"
  by (rule spec_on_error, rule spec_weaken [OF snapshot_impl_spec])
    (use restore_queues_exact [OF assms] in \<open>auto simp: queued_def\<close>)

lemma recorded_spec:
  "spec (pass_post M (Done r)) (thenE (modifyE (record_phase now r)) (retE r)) (\<lambda>r. pass_post M (Done r)) E"
  by (intro spec_then [where R="pass_post M (Done r)"] spec_modify spec_ret)
    (auto simp: pass_post_def queued_def record_phase_def Let_def split: prod.splits)

lemma schedule_spec:
  assumes "distinct (w @ d)"
  shows "spec (\<lambda>t. waiting t = w \<and> decoding t = d) (schedule cfg ora)
    (\<lambda>r. pass_post (mset w + mset d) (Done r)) (\<lambda>t. queued t = mset w + mset d)"
proof -
  let ?P = "\<lambda>t. waiting t = w \<and> decoding t = d"
  let ?Q = "\<lambda>r. pass_post (mset w + mset d) (Done r)"
  let ?E = "\<lambda>t. queued t = mset w + mset d"
  have clock: "spec ?P (hookE (monotonic ora)) (\<lambda>_. ?P) ?E"
    by (rule quiet_spec) (auto simp: quiet_basic queues_def queued_def)
  have body: "spec (\<lambda>t. ?P t \<and> p = (w, d)) (case p of (waiting_before, decoding_before) \<Rightarrow>
      thenE (modifyE (\<lambda>s. s\<lparr>last_phase_decision := None\<rparr>))
      (bindE (on_errorE (snapshot_impl cfg ora) (restore_queues waiting_before decoding_before)) (\<lambda>result.
       thenE (modifyE (record_phase now result)) (retE result)))) ?Q ?E" for now p
  proof (cases "p = (w, d)")
    case True
    have "spec (\<lambda>t. ?P t \<and> p = (w, d)) (modifyE (\<lambda>s. s\<lparr>last_phase_decision := None\<rparr>)) (\<lambda>_. ?P) ?E"
      by (rule spec_modify) simp
    from spec_then [OF this spec_bind [OF restored_spec [OF assms] recorded_spec]] show ?thesis
      by (simp add: True)
  qed (simp add: spec_def)
  show ?thesis
    unfolding schedule_def snapshot_impl_def [symmetric]
    by (rule spec_bind [OF clock], rule spec_then [where R="?P"], rule spec_modify, simp,
        rule spec_bind [OF _ body], rule spec_get) simp
qed

text \<open>
  C1. \<open>schedule\<close> conserves requests.  For any oracle and any queues without duplicates: when it
  returns, the requests in the two queues, together with the batch if it is a prefill batch, are
  exactly the requests that were queued; when it raises, whatever raised and wherever, the queues
  hold exactly the requests they held before.
\<close>

theorem schedule_conserves_requests:
  assumes "distinct (waiting s @ decoding s)" and "schedule cfg ora s = (res, s')"
  shows "case res of
      Inr (seqs, is_prefill, _) \<Rightarrow>
        mset (waiting s') + mset (decoding s') + (if is_prefill then mset seqs else {#}) =
        mset (waiting s) + mset (decoding s)
    | Inl _ \<Rightarrow> mset (waiting s') + mset (decoding s') = mset (waiting s) + mset (decoding s)"
  using specD_Inr [OF schedule_spec [OF assms(1)], of s cfg ora] specD_Inl [OF schedule_spec [OF assms(1)], of s cfg ora]
    assms(2)
  by (cases res) (fastforce simp: pass_post_def queued_def)+

end
