(* ===== verification/Scheduler_Decode.thy ===== *)
theory Scheduler_Decode
  imports Scheduler_Queues "HOL-Library.Sublist"
begin

text \<open>
  The decode half of the scheduler: \<open>_eligible_decode_batch\<close> mirrors the decode loop, and what a
  decode batch may contain.
\<close>

section \<open>The preview mirrors the loop\<close>

definition loop_batch :: "unit result \<times> 'm sched \<Rightarrow> int list result" where
  "loop_batch r = (case r of (Inl e, _) \<Rightarrow> Inl e | (Inr _, s') \<Rightarrow> Inr (l_scheduled s'))"

lemma loop_batch_simps [simp]: "loop_batch (Inl e, s) = Inl e" "loop_batch (Inr u, s) = Inr (l_scheduled s)"
  by (simp_all add: loop_batch_def)

lemma decode_loop_full:
  "\<not> l_num_seqs s < max_decoding_seqs cfg \<Longrightarrow> loop_batch (decode_loop n cfg ora s) = Inr (l_scheduled s)"
  by (cases n) simp_all

text \<open>
  \<open>mirrors D p l\<close>: the preview \<open>p\<close> and the loop \<open>l\<close> give the same batch or the same exception, or they
  stopped at a request of \<open>D\<close> both of whose hooks raise, each with the exception of the hook it asks
  first.
\<close>

definition mirrors :: "'m memory_oracle \<Rightarrow> 'm \<Rightarrow> seq_store \<Rightarrow> int set \<Rightarrow> 'a result \<Rightarrow> 'a result \<Rightarrow> bool" where
  "mirrors ora m \<sigma> D p l \<longleftrightarrow>
     p = l \<or> (\<exists>i\<in>D. \<exists>e e'. decode_step_reservation_cost ora m (\<sigma> i) = Inl e \<and>
               decode_step_free_slots_for ora m (\<sigma> i) = Inl e' \<and> p = Inl e \<and> l = Inl e')"

lemma preview_fits_decode_fits:
  assumes "decode_fits ora m q free budgets = Inr fit"
  shows "preview_fits ora m q free budgets = Inr fit"
  using assms by (auto simp: decode_fits_def preview_fits_def bindR_eq_Inr)

lemma mirrors_fits:
  "mirrors ora m \<sigma> {i} (preview_fits ora m (\<sigma> i) free budgets) (decode_fits ora m (\<sigma> i) free budgets)"
  by (cases "decode_step_reservation_cost ora m (\<sigma> i)"; cases "decode_step_free_slots_for ora m (\<sigma> i)")
    (simp_all add: mirrors_def decode_fits_def preview_fits_def)

lemma eligible_loop_mirrors:
  assumes "decoding s = rest @ app" and "n = length rest" and "set rest \<subseteq> D"
    and "l_num_seqs s = int (length (l_scheduled s))" and "l_num_seqs s < max_decoding_seqs cfg"
  shows "mirrors ora (memory s) (store s) D
    (eligible_loop cfg ora (memory s) (store s) (l_decode_free s) (l_allocation s) (l_scheduled s) rest)
    (loop_batch (decode_loop n cfg ora s))"
  using assms
proof (induction n arbitrary: s rest app)
  case 0
  then show ?case by (simp add: mirrors_def)
next
  case (Suc n)
  then obtain i rest' where rest: "rest = i # rest'" "length rest' = n" by (metis length_Suc_conv)
  have d: "decoding s = i # rest' @ app" using Suc.prems rest by simp
  let ?fit = "decode_fits ora (memory s) (store s i) (l_decode_free s) (l_allocation s)"
  let ?pfit = "preview_fits ora (memory s) (store s i) (l_decode_free s) (l_allocation s)"
  show ?case
  proof (cases "output_budget_left (store s i)")
    case False
    with Suc.IH [of "s\<lparr>decoding := (rest' @ app) @ [i]\<rparr>" rest' "app @ [i]"] Suc.prems d rest show ?thesis
      by simp
  next
    case True
    consider e where "?fit = Inl e" | "?fit = Inr None" | cost where "?fit = Inr (Some cost)"
      by (cases ?fit; cases "projr ?fit") auto
    then show ?thesis
    proof cases
      case 1
      then show ?thesis
        using mirrors_fits [of ora "memory s" "store s" i "l_decode_free s" "l_allocation s"]
          True d rest Suc.prems by (auto simp: mirrors_def)
    next
      case 2
      show ?thesis
        using Suc.IH [of "s\<lparr>l_victim := (if l_victim s = None then Some i else l_victim s),
            decoding := (rest' @ app) @ [i]\<rparr>" rest' "app @ [i]"] 2 preview_fits_decode_fits [OF 2]
          True d rest Suc.prems
        by (cases "l_decode_free s > 0") (simp_all add: Let_def mirrors_def)
    next
      case 3
      note p = preview_fits_decode_fits [OF 3]
      show ?thesis
      proof (cases "charge_step_allocations ora (memory s) (store s i) 1 (l_allocation s)")
        case (Inl e)
        then show ?thesis using 3 p True d rest Suc.prems by (simp add: mirrors_def)
      next
        case (Inr b)
        define t where "t = s\<lparr>decoding := rest' @ app, l_decode_free := l_decode_free s - cost,
          l_allocation := b, l_num_seqs := l_num_seqs s + 1, l_scheduled := l_scheduled s @ [i]\<rparr>"
        have run: "decode_loop (Suc n) cfg ora s = decode_loop n cfg ora t"
          using 3 Inr True d Suc.prems by (simp add: t_def)
        have same: "memory t = memory s" "store t = store s" by (simp_all add: t_def)
        show ?thesis
        proof (cases "l_num_seqs t < max_decoding_seqs cfg")
          case below: True
          have "mirrors ora (memory t) (store t) D
            (eligible_loop cfg ora (memory t) (store t) (l_decode_free t) (l_allocation t) (l_scheduled t) rest')
            (loop_batch (decode_loop n cfg ora t))"
            by (rule Suc.IH [where app=app]) (use below Suc.prems rest in \<open>simp_all add: t_def\<close>)
          moreover have "eligible_loop cfg ora (memory s) (store s) (l_decode_free s) (l_allocation s)
              (l_scheduled s) (i # rest') =
            eligible_loop cfg ora (memory t) (store t) (l_decode_free t) (l_allocation t) (l_scheduled t) rest'"
            using p Inr True below Suc.prems(4) by (simp add: t_def)
          ultimately show ?thesis by (simp only: run rest same)
        next
          case False
          moreover have "eligible_loop cfg ora (memory s) (store s) (l_decode_free s) (l_allocation s)
              (l_scheduled s) (i # rest') = Inr (l_scheduled s @ [i])"
            using p Inr True False Suc.prems(4,5) by (simp add: t_def)
          ultimately show ?thesis
            using decode_loop_full [OF False, of n ora] by (simp only: run rest) (simp add: t_def mirrors_def)
        qed
      qed
    qed
  qed
qed

text \<open>
  C4. \<open>_eligible_decode_batch\<close> is an exact preview of the decode phase.  With at least one decode
  slot configured, on the state in which the decode phase starts its loop, the preview returns
  the batch the loop selects, or raises what the loop raises, without touching the queues.  The one
  difference is the exception seen when both hooks of one queued request raise: the preview asks for the
  reservation cost first, the loop for the free slots.
\<close>

theorem eligible_decode_batch_mirrors:
  assumes "1 \<le> max_decoding_seqs cfg"
    and "decode_step_free_slots ora (store s) (memory s) = Inr free"
    and "step_allocation_budgets ora (store s) (memory s) False = Inr budgets"
    and "l_scheduled s = []" and "l_num_seqs s = 0"
    and "l_decode_free s = max 0 free" and "l_allocation s = budgets"
  shows "eligible_decode_batch cfg ora s =
      (case decode_loop (length (decoding s)) cfg ora s of
         (Inl e, _) \<Rightarrow> Inl e | (Inr _, s') \<Rightarrow> Inr (l_scheduled s')) \<or>
    (\<exists>i\<in>set (decoding s). \<exists>e e'. decode_step_reservation_cost ora (memory s) (store s i) = Inl e \<and>
       decode_step_free_slots_for ora (memory s) (store s i) = Inl e' \<and>
       eligible_decode_batch cfg ora s = Inl e \<and> fst (decode_loop (length (decoding s)) cfg ora s) = Inl e')"
proof -
  obtain r t where run: "decode_loop (length (decoding s)) cfg ora s = (r, t)" by fastforce
  show ?thesis
    using eligible_loop_mirrors [of s "decoding s" "[]" "length (decoding s)" "set (decoding s)" cfg ora] assms run
    by (cases "decoding s = []"; cases r) (auto simp: eligible_decode_batch_def mirrors_def)
qed

section \<open>What a decode batch contains\<close>

text \<open>The slots a batch costs, as the hooks report them.\<close>

definition batch_cost :: "'m memory_oracle \<Rightarrow> 'm \<Rightarrow> seq_store \<Rightarrow> int list \<Rightarrow> int" where
  "batch_cost ora m \<sigma> is =
     sum_list (map (\<lambda>i. case decode_step_reservation_cost ora m (\<sigma> i) of Inl _ \<Rightarrow> 0 | Inr c \<Rightarrow> c) is)"

text \<open>
  \<open>step_need\<close> is what one decode step of a request costs of the allocation \<open>name\<close>; \<open>step_uses\<close> says
  that the request has such a cost at all.
\<close>

definition step_need :: "'m memory_oracle \<Rightarrow> 'm \<Rightarrow> sequence \<Rightarrow> string \<Rightarrow> int" where
  "step_need ora m q name =
     (case step_allocation_costs ora m q 1 of Inl _ \<Rightarrow> 0 | Inr costs \<Rightarrow> dict_get costs name 0)"

definition step_uses :: "'m memory_oracle \<Rightarrow> 'm \<Rightarrow> sequence \<Rightarrow> string \<Rightarrow> bool" where
  "step_uses ora m q name \<longleftrightarrow>
     (case step_allocation_costs ora m q 1 of Inl _ \<Rightarrow> False | Inr costs \<Rightarrow> name \<in> fst ` set costs)"

text \<open>The allocations a batch uses all have a budget, and the batch stays within each of them.\<close>

definition within_budgets :: "'m memory_oracle \<Rightarrow> 'm \<Rightarrow> seq_store \<Rightarrow> (string, int) dict \<Rightarrow> int list \<Rightarrow> bool" where
  "within_budgets ora m \<sigma> b is \<longleftrightarrow>
     (\<forall>name. (\<exists>i\<in>set is. step_uses ora m (\<sigma> i) name) \<longrightarrow>
        (\<exists>v. map_of b name = Some v \<and> sum_list (map (\<lambda>i. step_need ora m (\<sigma> i) name) is) \<le> v))"

definition dict_costs :: "'m memory_oracle \<Rightarrow> 'm \<Rightarrow> sequence \<Rightarrow> bool" where
  "dict_costs ora m q \<longleftrightarrow>
     (case step_allocation_costs ora m q 1 of Inl _ \<Rightarrow> True | Inr costs \<Rightarrow> distinct (map fst costs))"

lemma within_budgets_Nil [simp]: "within_budgets ora m \<sigma> b []"
  by (simp add: within_budgets_def)

lemma step_need_unused: "\<not> step_uses ora m q name \<Longrightarrow> step_need ora m q name = 0"
  by (auto simp: step_uses_def step_need_def dict_get_def map_of_eq_None_iff split: sum.splits option.splits)
    (metis fst_conv imageI map_of_SomeD)

lemma max_step_allocation_one:
  assumes "max_step_allocation_tokens ora m q 1 (Some b) = Inr n" and "n \<noteq> 0"
  shows "allocation_fits ora m q b 1 = Inr True"
  using assms
  by (auto simp: max_step_allocation_tokens_def bindR_eq_Inr Let_def
      bisect_maxR.simps [of _ 0 1] bisect_maxR.simps [of _ 0 0] split: if_splits)

lemma charge_budgets_map:
  assumes "charge_budgets costs b = Inr b'" and "distinct (map fst costs)"
  shows "map_of b' name = (case map_of costs name of
      None \<Rightarrow> map_of b name | Some need \<Rightarrow> map_option (\<lambda>v. v - need) (map_of b name))"
    and "name \<in> fst ` set costs \<Longrightarrow> map_of b name \<noteq> None"
proof -
  have "map_of b' name = (case map_of costs name of
      None \<Rightarrow> map_of b name | Some need \<Rightarrow> map_option (\<lambda>v. v - need) (map_of b name)) \<and>
    (name \<in> fst ` set costs \<longrightarrow> map_of b name \<noteq> None)"
    using assms
  proof (induction costs b rule: charge_budgets.induct)
    case (2 nm need costs b)
    then obtain v where v: "map_of b nm = Some v" "charge_budgets costs (dict_set nm (v - need) b) = Inr b'"
      by (auto split: option.splits)
    have fresh: "map_of costs nm = None" using "2.prems"(2) by (simp add: map_of_eq_None_iff)
    show ?case
      using "2.IH" [OF v] "2.prems"(2) v(1) fresh
      by (cases "name = nm") (auto simp: update_conv' split: option.splits)
  qed simp
  then show "map_of b' name = (case map_of costs name of
      None \<Rightarrow> map_of b name | Some need \<Rightarrow> map_option (\<lambda>v. v - need) (map_of b name))"
    "name \<in> fst ` set costs \<Longrightarrow> map_of b name \<noteq> None" by blast+
qed

text \<open>One accepted request more: its cost was checked against what the budgets still had, and charged.\<close>

lemma within_budgets_Cons:
  assumes fits: "allocation_fits ora m (\<sigma> i) b 1 = Inr True" and dict: "dict_costs ora m (\<sigma> i)"
    and charge: "charge_step_allocations ora m (\<sigma> i) 1 (Some b) = Inr (Some b')"
    and rest: "within_budgets ora m \<sigma> b' new"
  shows "within_budgets ora m \<sigma> b (i # new)"
  unfolding within_budgets_def
proof (intro allI impI)
  fix name
  assume used: "\<exists>j\<in>set (i # new). step_uses ora m (\<sigma> j) name"
  obtain costs where costs: "step_allocation_costs ora m (\<sigma> i) 1 = Inr costs" "charge_budgets costs b = Inr b'"
    using charge by (auto simp: charge_step_allocations_def bindR_eq_Inr)
  have dist: "distinct (map fst costs)" using dict costs by (simp add: dict_costs_def)
  note C = charge_budgets_map [OF costs(2) dist, of name]
  let ?sum = "sum_list (map (\<lambda>j. step_need ora m (\<sigma> j) name) new)"
  have uses: "step_uses ora m (\<sigma> i) name \<longleftrightarrow> map_of costs name \<noteq> None"
    using costs(1) by (simp add: step_uses_def map_of_eq_None_iff)
  have new: "(\<exists>v. map_of b' name = Some v \<and> ?sum \<le> v) \<or> (\<forall>j\<in>set new. \<not> step_uses ora m (\<sigma> j) name) \<and> ?sum = 0"
  proof (cases "\<exists>j\<in>set new. step_uses ora m (\<sigma> j) name")
    case False
    then have "map (\<lambda>j. step_need ora m (\<sigma> j) name) new = map (\<lambda>_. 0) new"
      by (intro map_cong) (auto simp: step_need_unused)
    then have "?sum = sum_list (map (\<lambda>_. 0) new)" by (rule arg_cong)
    with False show ?thesis by simp
  qed (use rest in \<open>auto simp: within_budgets_def\<close>)
  show "\<exists>v. map_of b name = Some v \<and> sum_list (map (\<lambda>j. step_need ora m (\<sigma> j) name) (i # new)) \<le> v"
  proof (cases "map_of costs name")
    case None
    then have "step_need ora m (\<sigma> i) name = 0" "map_of b' name = map_of b name"
      using uses step_need_unused C(1) by auto
    then show ?thesis using new used uses None by auto
  next
    case (Some need)
    then have "name \<in> fst ` set costs" by (metis map_of_eq_None_iff option.distinct(1))
    then obtain v where v: "map_of b name = Some v" using C(2) by auto
    have "need \<le> v"
      using fits costs(1) map_of_SomeD [OF Some] v
      by (auto simp: allocation_fits_def list_all_iff dict_get_def split: sum.splits)
    moreover have "step_need ora m (\<sigma> i) name = need"
      using costs(1) Some by (simp add: step_need_def dict_get_def)
    moreover have "map_of b' name = Some (v - need)" using C(1) Some v by simp
    ultimately show ?thesis using new v by auto
  qed
qed

lemma preview_fits_Some:
  assumes "preview_fits ora m q free budgets = Inr (Some cost)"
  shows "decode_step_reservation_cost ora m q = Inr cost" and "cost \<le> free"
    and "budgets = Some b \<Longrightarrow> allocation_fits ora m q b 1 = Inr True"
  using assms max_step_allocation_one [of ora m q b]
  by (auto simp: preview_fits_def fits_step_def bindR_eq_Inr split: if_splits)

lemma eligible_loop_batch:
  assumes "eligible_loop cfg ora m \<sigma> free budgets batch is = Inr result" and "0 \<le> free"
    and "int (length batch) < max_decoding_seqs cfg"
  shows "\<exists>new. result = batch @ new \<and> subseq new is \<and> (\<forall>i\<in>set new. output_budget_left (\<sigma> i)) \<and>
    int (length result) \<le> max_decoding_seqs cfg \<and> batch_cost ora m \<sigma> new \<le> free \<and>
    (\<forall>b. budgets = Some b \<longrightarrow> (\<forall>i\<in>set is. dict_costs ora m (\<sigma> i)) \<longrightarrow> within_budgets ora m \<sigma> b new)"
  using assms
proof (induction "is" arbitrary: free budgets batch)
  case Nil
  then show ?case by (auto simp: batch_cost_def)
next
  case (Cons i "is")
  let ?goal = "\<exists>new. result = batch @ new \<and> subseq new (i # is) \<and> (\<forall>j\<in>set new. output_budget_left (\<sigma> j)) \<and>
    int (length result) \<le> max_decoding_seqs cfg \<and> batch_cost ora m \<sigma> new \<le> free \<and>
    (\<forall>b. budgets = Some b \<longrightarrow> (\<forall>j\<in>set (i # is). dict_costs ora m (\<sigma> j)) \<longrightarrow> within_budgets ora m \<sigma> b new)"
  have skip: ?goal if "eligible_loop cfg ora m \<sigma> free budgets batch is = Inr result"
    using Cons.IH [OF that Cons.prems(2,3)] list_emb_Cons [of "(=)" _ "is" i] by auto
  show ?case
  proof (cases "output_budget_left (\<sigma> i)")
    case False
    then show ?thesis using Cons.prems skip by simp
  next
    case True
    then obtain fit where fit: "preview_fits ora m (\<sigma> i) free budgets = Inr fit"
      using Cons.prems(1) by (cases "preview_fits ora m (\<sigma> i) free budgets") auto
    show ?thesis
    proof (cases fit)
      case None
      then show ?thesis
        using Cons.prems True fit skip by (cases "free \<le> 0") (auto simp: batch_cost_def)
    next
      case (Some cost)
      note c = preview_fits_Some [OF fit [unfolded Some]]
      from Cons.prems(1) True fit Some obtain b where
        b: "charge_step_allocations ora m (\<sigma> i) 1 budgets = Inr b"
        by (cases "charge_step_allocations ora m (\<sigma> i) 1 budgets") auto
      have one: "batch_cost ora m \<sigma> (i # xs) = cost + batch_cost ora m \<sigma> xs" for xs
        using c(1) by (simp add: batch_cost_def)
      have charged: "within_budgets ora m \<sigma> b0 (i # xs)"
        if x: "budgets = Some b0" "dict_costs ora m (\<sigma> i)" "\<forall>b1. b = Some b1 \<longrightarrow> within_budgets ora m \<sigma> b1 xs" for b0 xs
      proof -
        obtain b1 where "b = Some b1"
          using b x(1) by (auto simp: charge_step_allocations_def bindR_eq_Inr)
        then show ?thesis using within_budgets_Cons [of ora m \<sigma> i b0 b1 xs] x c(3) b by blast
      qed
      show ?thesis
      proof (cases "int (length (batch @ [i])) = max_decoding_seqs cfg")
        case full: True
        then have "result = batch @ [i]" using Cons.prems(1) True fit Some b by simp
        then show ?thesis using full True one [of "[]"] c(2) charged [of _ "[]"]
          by (intro exI [of _ "[i]"]) (auto simp: batch_cost_def)
      next
        case False
        then have "eligible_loop cfg ora m \<sigma> (free - cost) b (batch @ [i]) is = Inr result"
          using Cons.prems(1) True fit Some b by simp
        from Cons.IH [OF this] c(2) False Cons.prems(3) obtain new where
          "result = (batch @ [i]) @ new" "subseq new is" "\<forall>j\<in>set new. output_budget_left (\<sigma> j)"
          "int (length result) \<le> max_decoding_seqs cfg" "batch_cost ora m \<sigma> new \<le> free - cost"
          "\<forall>b1. b = Some b1 \<longrightarrow> (\<forall>j\<in>set is. dict_costs ora m (\<sigma> j)) \<longrightarrow> within_budgets ora m \<sigma> b1 new" by auto
        then show ?thesis using True one [of new] charged [of _ new] by (intro exI [of _ "i # new"]) auto
      qed
    qed
  qed
qed

text \<open>
  C3. A decode batch previewed by \<open>_eligible_decode_batch\<close> (and so, by the mirror property, one
  selected by the decode phase) is a subsequence of the decoding queue in queue order, every member
  still may produce a token, it has at most \<open>max_decoding_seqs\<close> members, and the reservation costs
  of its members together stay within the free decode slots.  When the oracle reports step allocation
  budgets and its cost dicts have each name once, every allocation some member uses has a budget, and
  the costs of all members together do not exceed it.
\<close>

theorem decode_batch_sound:
  assumes "1 \<le> max_decoding_seqs cfg"
    and "decode_step_free_slots ora (store s) (memory s) = Inr free"
    and "eligible_decode_batch cfg ora s = Inr batch"
  shows "subseq batch (decoding s) \<and>
    (\<forall>i\<in>set batch. num_completion_tokens (store s i) + num_pending_outputs (store s i) < max_tokens (store s i)) \<and>
    int (length batch) \<le> max_decoding_seqs cfg \<and>
    batch_cost ora (memory s) (store s) batch \<le> max 0 free \<and>
    (\<forall>b. step_allocation_budgets ora (store s) (memory s) False = Inr (Some b) \<longrightarrow>
       (\<forall>i\<in>set (decoding s). dict_costs ora (memory s) (store s i)) \<longrightarrow>
       (\<forall>i\<in>set batch. \<forall>name. step_uses ora (memory s) (store s i) name \<longrightarrow>
          (\<exists>v. map_of b name = Some v \<and>
             sum_list (map (\<lambda>j. step_need ora (memory s) (store s j) name) batch) \<le> v)))"
proof (cases "decoding s = []")
  case True
  then show ?thesis using assms by (simp add: eligible_decode_batch_def batch_cost_def)
next
  case False
  then obtain b where b: "step_allocation_budgets ora (store s) (memory s) False = Inr b"
    and "eligible_loop cfg ora (memory s) (store s) (max 0 free) b [] (decoding s) = Inr batch"
    using assms by (auto simp: eligible_decode_batch_def bindR_eq_Inr)
  from eligible_loop_batch [OF this(2)] assms(1) have sound: "subseq batch (decoding s)"
    "\<forall>i\<in>set batch. output_budget_left (store s i)" "int (length batch) \<le> max_decoding_seqs cfg"
    "batch_cost ora (memory s) (store s) batch \<le> max 0 free"
    "\<forall>b1. b = Some b1 \<longrightarrow> (\<forall>i\<in>set (decoding s). dict_costs ora (memory s) (store s i)) \<longrightarrow>
       within_budgets ora (memory s) (store s) b1 batch" by auto
  have budget: "\<exists>v. map_of b1 name = Some v \<and>
      sum_list (map (\<lambda>j. step_need ora (memory s) (store s j) name) batch) \<le> v"
    if "within_budgets ora (memory s) (store s) b1 batch" "i \<in> set batch" "step_uses ora (memory s) (store s i) name"
    for b1 i name
    using that unfolding within_budgets_def by blast
  show ?thesis using sound(1-4) sound(5) budget b by (simp add: output_budget_left_def)
qed

end
