(* ===== verification/Scheduler_Prefill.thy ===== *)
theory Scheduler_Prefill
  imports Scheduler_Queues
begin

text \<open>
  The prefill half of the scheduler: the chunk sizes of a batch respect the step's token limit and
  the batch its sequence limit, and a recompute replay runs alone.
\<close>

section \<open>Chunk sizes\<close>

lemma bisect_maxR_range:
  "lo \<le> hi \<Longrightarrow> bisect_maxR fits lo hi = Inr n \<Longrightarrow> lo \<le> n \<and> n \<le> hi"
proof (induction fits lo hi rule: bisect_maxR.induct)
  case (1 fits lo hi)
  show ?case
  proof (cases "lo < hi")
    case False
    then have "bisect_maxR fits lo hi = Inr lo" by (simp add: bisect_maxR.simps [of fits lo hi])
    with "1.prems" show ?thesis by simp
  next
    case True
    define mid where "mid = (lo + hi + 1) div 2"
    have mid: "lo \<le> mid - 1" "lo < mid" "mid \<le> hi" using True by (auto simp: mid_def)
    from "1.prems"(2) True obtain b where
      "(if b then bisect_maxR fits mid hi else bisect_maxR fits lo (mid - 1)) = Inr n"
      by (auto simp: bisect_maxR.simps [of fits lo hi] Let_def bindR_eq_Inr simp flip: mid_def)
    then show ?thesis
      using "1.IH"(1) [OF True mid_def, of b] "1.IH"(2) [OF True mid_def, of b] mid by (cases b) auto
  qed
qed

lemma max_step_allocation_le:
  assumes "max_step_allocation_tokens ora m q limit budgets = Inr n"
  shows "n \<le> limit"
proof -
  consider "n = limit" | b where "0 < limit" "bisect_maxR (allocation_fits ora m q b) 0 limit = Inr n"
    using assms by (auto simp: max_step_allocation_tokens_def bindR_eq_Inr split: option.splits if_splits)
  then show ?thesis
  proof cases
    case 2
    then show ?thesis using bisect_maxR_range [of 0 limit "allocation_fits ora m q b" n] by simp
  qed simp
qed

lemma respect_min_final_le:
  "respect_min_final_prefill_chunk mf remaining proposed = Inr n \<Longrightarrow> 0 < n \<Longrightarrow> n \<le> proposed"
  by (auto simp: respect_min_final_prefill_chunk_def Let_def split: if_splits)

lemma prefill_step_tokens_le:
  "0 < prefill_step_tokens cfg q mode remaining used free \<Longrightarrow>
   prefill_step_tokens cfg q mode remaining used free \<le> max_num_batched_tokens cfg - used \<and>
   prefill_step_tokens cfg q mode remaining used free \<le> min remaining (prefill_stage_remaining q) \<and>
   prefill_step_tokens cfg q mode remaining used free \<le> free"
  by (cases mode) (auto simp: prefill_step_tokens_def Let_def split: if_splits)

text \<open>
  A planned chunk fits the tokens left in the step, what remains of the prompt and of its current
  stage, and, unless it is staged elsewhere, the free slots of the step.
\<close>

lemma plan_prefill_fits:
  assumes "plan_prefill cfg ora mode i s = Inr plan" and "0 < plan_tokens plan"
  shows "plan_tokens plan \<le> max_num_batched_tokens cfg - l_num_tokens s"
    and "plan_tokens plan \<le> min (plan_remaining plan) (prefill_stage_remaining (store s i))"
proof -
  from assms(1) obtain remaining free where "size_chunk cfg ora mode i s remaining free = Inr plan"
    by (auto simp: plan_prefill_def bindR_eq_Inr)
  then obtain alloc can can' mf where
    *: "can = prefill_step_tokens cfg (store s i) mode remaining (l_num_tokens s) free"
      "max_step_allocation_tokens ora (memory s) (store s i) can (l_allocation s) = Inr alloc"
      "can' = (if mode = Chunked then alloc else if alloc < can then 0 else can)"
      "respect_min_final_prefill_chunk mf remaining can' = Inr (plan_tokens plan)"
      "plan_remaining plan = remaining"
    unfolding size_chunk_def Let_def bindR_eq_Inr by force
  have "plan_tokens plan \<le> can'" using respect_min_final_le [OF *(4) assms(2)] .
  moreover have "can' \<le> can" using max_step_allocation_le [OF *(2)] *(3) calculation assms(2)
    by (auto split: if_splits)
  ultimately have "plan_tokens plan \<le> can" "0 < can" using assms(2) by linarith+
  then show "plan_tokens plan \<le> max_num_batched_tokens cfg - l_num_tokens s"
    "plan_tokens plan \<le> min (plan_remaining plan) (prefill_stage_remaining (store s i))"
    using prefill_step_tokens_le [of cfg "store s i" mode remaining "l_num_tokens s" free] *(1,5) by linarith+
qed

section \<open>Batch limits\<close>

definition chunk_of :: "seq_store \<Rightarrow> int \<Rightarrow> int" where
  "chunk_of \<sigma> i = opt_or_zero (current_chunk_size (\<sigma> i))"

definition batch_ok :: "sched_config \<Rightarrow> 'm sched \<Rightarrow> bool" where
  "batch_ok cfg s \<longleftrightarrow>
     l_num_seqs s = int (length (l_scheduled s)) \<and>
     l_num_tokens s = sum_list (map (chunk_of (store s)) (l_scheduled s)) \<and>
     (\<forall>i\<in>set (l_scheduled s). 0 < chunk_of (store s) i) \<and>
     (l_scheduled s \<noteq> [] \<longrightarrow> l_num_tokens s \<le> max_num_batched_tokens cfg) \<and>
     int (length (l_scheduled s)) \<le> max 1 (max_num_seqs_in_batch cfg)"

text \<open>\<open>local A m\<close>: \<open>m\<close> leaves the batch and its counters alone and changes only sequences of \<open>A\<close>.\<close>

definition batch_view :: "'m sched \<Rightarrow> int list \<times> int \<times> int" where
  "batch_view s = (l_scheduled s, l_num_seqs s, l_num_tokens s)"

definition local :: "int set \<Rightarrow> ('m sched, 'a) eff \<Rightarrow> bool" where
  "local A m \<longleftrightarrow> (\<forall>s. batch_view (snd (m s)) = batch_view s \<and> (\<forall>j. j \<notin> A \<longrightarrow> store (snd (m s)) j = store s j))"

named_theorems local_rules \<open>operations that leave the batch alone\<close>

lemma local_bind [local_rules]: "local A m \<Longrightarrow> (\<And>x. local A (f x)) \<Longrightarrow> local A (bindE m f)"
  unfolding local_def
proof (intro allI)
  fix s
  assume *: "\<forall>s. batch_view (snd (m s)) = batch_view s \<and> (\<forall>j. j \<notin> A \<longrightarrow> store (snd (m s)) j = store s j)"
    "\<And>x. \<forall>s. batch_view (snd (f x s)) = batch_view s \<and> (\<forall>j. j \<notin> A \<longrightarrow> store (snd (f x s)) j = store s j)"
  obtain r s1 where m: "m s = (r, s1)" by fastforce
  then have "batch_view s1 = batch_view s \<and> (\<forall>j. j \<notin> A \<longrightarrow> store s1 j = store s j)" using *(1) by (metis snd_conv)
  with *(2) m show "batch_view (snd (bindE m f s)) = batch_view s \<and> (\<forall>j. j \<notin> A \<longrightarrow> store (snd (bindE m f s)) j = store s j)"
    by (cases r) (simp_all add: bindE_apply)
qed

lemma local_then [local_rules]: "local A m \<Longrightarrow> local A n \<Longrightarrow> local A (thenE m n)"
  unfolding thenE_def by (rule local_bind)

lemma local_if [local_rules]: "local A m \<Longrightarrow> local A n \<Longrightarrow> local A (if c then m else n)"
  by simp

lemma local_basic [local_rules]:
  "local A (retE x)" "local A (raiseE e)" "local A (getE f)" "local A (liftE r)" "local A (queryE q)"
  "local A (askE q')" "local A (ask_seqE q'' i)" "local A (hookE h)"
  by (simp_all add: local_def eff_simps askE_def ask_seqE_def hookE_def batch_view_def split: prod.splits)

lemma local_seq: "i \<in> A \<Longrightarrow> local A (hook_seqE h i)" "i \<in> A \<Longrightarrow> local A (seqE g i)" "i \<in> A \<Longrightarrow> local A (set_seqE k i)"
  by (auto simp: local_def eff_simps hook_seqE_def seqE_def set_seqE_def batch_view_def split: prod.splits)

lemma local_modify: "(\<And>s. batch_view (g s) = batch_view s \<and> store (g s) = store s) \<Longrightarrow> local A (modifyE g)"
  by (simp add: local_def eff_simps)

lemma local_state: "(\<And>s. local A (m s)) \<Longrightarrow> local A (\<lambda>s. m s s)"
  by (simp add: local_def)

lemma local_hook_state [local_rules]: "local A (\<lambda>s. hookE (h s) s)"
  by (rule local_state) (rule local_basic)

lemma local_batch_key [local_rules]: "local A (prefill_batch_key ora i)"
  unfolding prefill_batch_key_def prefill_modeE_def by (intro local_rules)

lemma local_pop [local_rules]: "local A (pop_next_prefill_seq cfg ora target replay)"
proof -
  have "local A (pop_loop cfg ora target replay ws)" for ws
    by (induction ws) (auto intro!: local_rules local_modify simp: batch_view_def)
  then show ?thesis unfolding pop_next_prefill_seq_def by (rule local_state)
qed

lemma local_block [local_rules]: "local A (block_prefill cfg ora mode plan i)"
  unfolding block_prefill_def by (intro local_rules local_modify) (simp add: batch_view_def)

lemma local_admit: "local {i} (admit_prompt ora i)"
  unfolding admit_prompt_def defer_prompt_def
  by (intro local_rules)
    (auto intro!: local_rules local_modify local_seq simp: batch_view_def split: option.splits)

text \<open>A batch survives an operation that does not touch its members.\<close>

lemma batch_ok_local:
  assumes "batch_view t = batch_view s" and "\<forall>j. j \<notin> A \<longrightarrow> store t j = store s j"
    and "A \<inter> set (l_scheduled s) = {}" and "batch_ok cfg s"
  shows "batch_ok cfg t"
proof -
  have same: "\<forall>j\<in>set (l_scheduled s). chunk_of (store t) j = chunk_of (store s) j"
    using assms(2,3) by (auto simp: chunk_of_def)
  then have tot: "sum_list (map (chunk_of (store t)) (l_scheduled s)) = sum_list (map (chunk_of (store s)) (l_scheduled s))"
    by (metis map_eq_conv)
  have view: "l_scheduled t = l_scheduled s" "l_num_seqs t = l_num_seqs s" "l_num_tokens t = l_num_tokens s"
    using assms(1) by (simp_all add: batch_view_def)
  from assms(4) same show ?thesis unfolding batch_ok_def view tot by auto
qed

definition room :: "sched_config \<Rightarrow> 'm sched \<Rightarrow> bool" where
  "room cfg s \<longleftrightarrow> l_scheduled s = [] \<or> l_num_seqs s < max_num_seqs_in_batch cfg"

text \<open>The candidate \<open>i\<close> may join with \<open>n\<close> tokens.\<close>

definition joinable :: "sched_config \<Rightarrow> int \<Rightarrow> int \<Rightarrow> 'm sched \<Rightarrow> bool" where
  "joinable cfg i n s \<longleftrightarrow> batch_ok cfg s \<and> room cfg s \<and> i \<notin> set (l_scheduled s) \<and>
     n \<le> max_num_batched_tokens cfg - l_num_tokens s"

abbreviation anyhow :: "'m sched \<Rightarrow> bool" where
  "anyhow s \<equiv> True"

lemma local_spec:
  assumes "local A m" and "\<And>s. P s \<Longrightarrow> A \<inter> set (l_scheduled s) = {}"
    and "\<And>s t. batch_view t = batch_view s \<Longrightarrow> (batch_ok cfg s \<Longrightarrow> batch_ok cfg t) \<Longrightarrow> P s \<Longrightarrow> P t"
  shows "spec P m (\<lambda>_. P) anyhow"
proof (rule specI)
  fix s x s' assume "P s" "m s = (Inr x, s')"
  moreover then have "batch_view s' = batch_view s" "\<forall>j. j \<notin> A \<longrightarrow> store s' j = store s j"
    using assms(1) unfolding local_def by (metis snd_conv)+
  ultimately show "P s'" using assms(2,3) batch_ok_local by blast
qed simp

lemma joinable_local: "local {i} m \<Longrightarrow> spec (joinable cfg i n) m (\<lambda>_. joinable cfg i n) anyhow"
  by (rule local_spec [where cfg=cfg]) (auto simp: joinable_def batch_view_def room_def)

lemma batch_local: "local {} m \<Longrightarrow> spec (batch_ok cfg) m (\<lambda>_. batch_ok cfg) anyhow"
  by (rule local_spec [where cfg=cfg]) auto

lemma commit_prefill_effect:
  assumes "commit_prefill ora n i s = (Inr u, s')"
  shows "l_scheduled s' = l_scheduled s @ [i]" "l_num_seqs s' = l_num_seqs s + 1"
    "l_num_tokens s' = l_num_tokens s + n"
    "store s' = (store s)(i := (store s i)\<lparr>current_chunk_size := Some n, status := RUNNING\<rparr>)"
  using assms
  by (auto simp: commit_prefill_def eff_simps set_seqE_def split: prod.splits sum.splits)

lemma commit_prefill_batch:
  assumes "0 < n"
  shows "spec (joinable cfg i n) (commit_prefill ora n i) (\<lambda>_. batch_ok cfg) anyhow"
proof (rule specI)
  fix s u s' assume j: "joinable cfg i n s" and run: "commit_prefill ora n i s = (Inr u, s')"
  note e = commit_prefill_effect [OF run]
  have chunk: "chunk_of (store s') j = (if j = i then n else chunk_of (store s) j)" for j
    by (simp add: e(4) chunk_of_def opt_or_zero_def)
  have tot: "sum_list (map (chunk_of (store s')) (l_scheduled s)) = sum_list (map (chunk_of (store s)) (l_scheduled s))"
    by (rule arg_cong [where f=sum_list], rule map_cong) (use j in \<open>auto simp: chunk joinable_def\<close>)
  from j show "batch_ok cfg s'"
    unfolding batch_ok_def joinable_def e(1-3)
    using assms chunk tot by (auto simp: room_def)
qed simp

lemma consider_prefill_batch:
  "spec (\<lambda>s. batch_ok cfg s \<and> room cfg s \<and> i \<notin> set (l_scheduled s)) (consider_prefill cfg ora mode i)
     (\<lambda>_. batch_ok cfg) anyhow"
proof -
  let ?P = "\<lambda>s. batch_ok cfg s \<and> room cfg s \<and> i \<notin> set (l_scheduled s)"
  have plan: "spec ?P (queryE (plan_prefill cfg ora mode i))
      (\<lambda>plan s. batch_ok cfg s \<and> (0 < plan_tokens plan \<longrightarrow> joinable cfg i (plan_tokens plan) s)) anyhow"
    by (rule spec_query) (use plan_prefill_fits(1) in \<open>auto simp: joinable_def\<close>)
  have block: "spec (batch_ok cfg) (thenE (block_prefill cfg ora mode plan i) (retE True)) (\<lambda>_. batch_ok cfg) anyhow" for plan
    by (rule batch_local) (intro local_rules)
  have admit: "local {i} (\<lambda>s. if num_prefilled_tokens (store s i) = 0 then admit_prompt ora i s else retE True s)"
    using local_admit [of i ora] by (simp add: local_def eff_simps)
  have join: "spec (joinable cfg i n)
      (bindE (\<lambda>s. if num_prefilled_tokens (store s i) = 0 then admit_prompt ora i s else retE True s) (\<lambda>admitted.
        if \<not> admitted then retE True else thenE (commit_prefill ora n i) (retE (mode \<noteq> RawOffload))))
      (\<lambda>_. batch_ok cfg) anyhow" if "0 < n" for n
    by (rule spec_bind [OF joinable_local [OF admit]])
      (auto intro!: spec_if spec_ret spec_then [OF commit_prefill_batch [OF that]] simp: joinable_def)
  show ?thesis
    unfolding consider_prefill_def
    by (rule spec_bind [OF plan], intro spec_if)
      (rule spec_weaken [OF block], auto intro: spec_weaken [OF join])
qed

lemma can_continue_room: "can_continue_prefill_batch cfg mode margin s \<Longrightarrow> room cfg s"
  by (auto simp: can_continue_prefill_batch_def room_def split: if_splits)

text \<open>With every request in one place only, a popped candidate is not in the batch.\<close>

abbreviation single :: "int multiset \<Rightarrow> bool" where
  "single M \<equiv> \<forall>x. count M x \<le> 1"

lemma lacks_fresh: "single M \<Longrightarrow> lacks i M s \<Longrightarrow> i \<notin> set (l_scheduled s)"
proof
  assume one: "single M" and l: "lacks i M s" and "i \<in> set (l_scheduled s)"
  then have "0 < count (mset (l_scheduled s)) i" by (simp add: count_greater_zero_iff)
  moreover have "count M i = Suc (count (queued s) i + count (mset (l_scheduled s)) i + count (mset (l_skipped s)) i)"
    by (simp add: owned_def flip: l)
  ultimately show False using spec [OF one, of i] by linarith
qed

lemma prefill_bucket_loop_batch:
  assumes "single M"
  shows "spec (\<lambda>s. holds M s \<and> batch_ok cfg s) (prefill_bucket_loop n cfg ora margin target replay)
    (\<lambda>_ s. holds M s \<and> batch_ok cfg s) anyhow"
proof (induction n)
  case 0
  show ?case unfolding prefill_bucket_loop.simps by (rule spec_ret)
next
  case (Suc n)
  let ?J = "\<lambda>s. holds M s \<and> batch_ok cfg s"
  have "spec (\<lambda>s. batch_ok cfg s \<and> room cfg s) (pop_next_prefill_seq cfg ora target replay)
      (\<lambda>_ s. batch_ok cfg s \<and> room cfg s) anyhow"
    by (rule local_spec [OF local_pop [of "{}"], where cfg=cfg]) (auto simp: room_def batch_view_def)
  note pop = spec_conj [OF pop_next_owned [of M] this]
  note weigh = spec_conj [OF consider_prefill_owned [of _ M] consider_prefill_batch [of cfg]]
  have turn: "spec (\<lambda>s. popped_spec M p s \<and> batch_ok cfg s \<and> room cfg s) (case p of
        None \<Rightarrow> retE ()
      | Some i \<Rightarrow> bindE (consider_prefill cfg ora (fst (snd target)) i) (\<lambda>again.
          if again then prefill_bucket_loop n cfg ora margin target replay else retE ())) (\<lambda>_. ?J) anyhow" for p
  proof (cases p)
    case None
    then show ?thesis by (auto intro!: spec_ret)
  next
    case (Some i)
    have "spec (\<lambda>s. popped_spec M p s \<and> batch_ok cfg s \<and> room cfg s) (consider_prefill cfg ora (fst (snd target)) i)
        (\<lambda>_. ?J) anyhow"
      by (rule spec_weaken [OF weigh]) (use Some lacks_fresh [OF assms] in auto)
    moreover have "spec ?J (if again then prefill_bucket_loop n cfg ora margin target replay else retE ()) (\<lambda>_. ?J) anyhow"
      for again by (intro spec_if Suc.IH spec_ret)
    ultimately show ?thesis using Some by (auto intro: spec_bind)
  qed
  have pop': "spec (\<lambda>s. ?J s \<and> (go \<longrightarrow> room cfg s)) (pop_next_prefill_seq cfg ora target replay)
      (\<lambda>p s. popped_spec M p s \<and> batch_ok cfg s \<and> room cfg s) anyhow" if go for go
    by (rule spec_weaken [OF pop]) (use that in auto)
  show ?case
    unfolding prefill_bucket_loop.simps
    by (rule spec_bind [where R="\<lambda>go s. ?J s \<and> (go \<longrightarrow> room cfg s)"], rule spec_get,
        use can_continue_room in blast, intro spec_if spec_ret)
      (simp, rule spec_bind [OF pop' turn], simp)
qed

lemma prefill_bucket_batch:
  assumes "single M"
  shows "spec (\<lambda>s. settled M s \<and> batch_ok cfg s) (prefill_bucket cfg ora margin replay target)
    (\<lambda>_ s. settled M s \<and> batch_ok cfg s) anyhow"
proof -
  let ?loop = "\<lambda>s. prefill_bucket_loop (length (waiting s)) cfg ora margin target replay s"
  have fin: "batch_ok cfg (s\<lparr>waiting := l_skipped s @ waiting s, l_skipped := []\<rparr>) = batch_ok cfg s" for s
    by (simp add: batch_ok_def)
  have loop: "spec (\<lambda>s. settled M s \<and> batch_ok cfg s) ?loop (\<lambda>_ s. holds M s \<and> batch_ok cfg s) anyhow"
    by (rule spec_state) (rule spec_weaken [OF prefill_bucket_loop_batch [OF assms]], auto)
  have "spec (\<lambda>s. settled M s \<and> batch_ok cfg s) (finallyE ?loop
      (\<lambda>s. s\<lparr>waiting := l_skipped s @ waiting s, l_skipped := []\<rparr>)) (\<lambda>_ s. settled M s \<and> batch_ok cfg s) anyhow"
    by (rule spec_finally, rule spec_weaken [OF loop]) (auto simp: fin owned_def queued_def ac_simps)
  then show ?thesis
    unfolding prefill_bucket_def
    by (rule spec_then [rotated, where R="\<lambda>s. settled M s \<and> batch_ok cfg s"], intro spec_modify)
      (auto simp: owned_def queued_def batch_ok_def)
qed

lemma prefill_phase_batch:
  assumes "single M"
  shows "spec (\<lambda>s. settled M s \<and> batch_ok cfg s) (prefill_phase cfg ora margin replay targets)
    (\<lambda>_ s. settled M s \<and> batch_ok cfg s) anyhow"
proof (induction targets)
  case Nil
  show ?case unfolding prefill_phase.simps by (rule spec_ret)
next
  case (Cons t ts)
  show ?case
    unfolding prefill_phase.simps
    by (rule spec_bind [OF spec_get], assumption, intro spec_if spec_ret spec_then [OF prefill_bucket_batch [OF assms] Cons.IH])
qed

section \<open>From the prefill phase to the caller\<close>

text \<open>Only the prefill phase hands out prefill batches.\<close>

definition no_prefill :: "pass_outcome \<Rightarrow> bool" where
  "no_prefill out \<longleftrightarrow> (\<forall>seqs pre. out \<noteq> Done (seqs, True, pre))"

lemma no_prefill_simps [simp]:
  "no_prefill (Done (a, False, b))" "no_prefill RetryDecode" "no_prefill (RetryPrefill d)"
  by (simp_all add: no_prefill_def)

lemma preempt_no_prefill: "yields (bindE (preempt_decode_victim ora v) (\<lambda>r. retE (Done r))) no_prefill"
proof (rule yields_bind [where B="\<lambda>r. r = ([], False, [v])"])
  show "yields (preempt_decode_victim ora v) (\<lambda>r. r = ([], False, [v]))"
    unfolding preempt_decode_victim_def requeue_victim_def
    by (intro yields_bind_any) (auto intro!: yields_then yields_raise yields_ret)
qed (auto intro: yields_ret)

lemma idle_no_prefill: "yields (idle_outcome ora ap ad) no_prefill"
  unfolding idle_outcome_def
  by (intro yields_bind_any) (auto intro!: yields_bind_any yields_ret yields_raise)

lemma handle_blocked_no_prefill: "yields (handle_blocked_decode ora ad v) no_prefill"
  unfolding handle_blocked_decode_def
  by (intro yields_bind_any) (auto intro: yields_ret yields_then preempt_no_prefill)

lemma finish_decode_no_prefill: "yields (finish_decode scheduled victim) no_prefill"
  unfolding finish_decode_def by (intro yields_then yields_ret) simp

lemma run_decode_no_prefill: "yields (run_decode cfg ora ap ad) no_prefill"
  unfolding run_decode_def
  by (intro yields_then yields_bind_any)
    (simp add: idle_no_prefill handle_blocked_no_prefill finish_decode_no_prefill split: prod.split option.split)

lemma preempt_reserved_no_prefill: "yields (preempt_reserved ora f) no_prefill"
  unfolding preempt_reserved_def by (intro yields_then preempt_no_prefill)

lemma preempt_first_no_prefill: "yields (preempt_first cfg ora f) no_prefill"
  unfolding preempt_first_def by (intro yields_then preempt_no_prefill)

definition prefill_result :: "sched_config \<Rightarrow> pass_outcome \<Rightarrow> 'm sched \<Rightarrow> bool" where
  "prefill_result cfg out s \<longleftrightarrow>
     (\<forall>seqs pre. out = Done (seqs, True, pre) \<longrightarrow>
        pre = [] \<and> seqs \<noteq> [] \<and> l_scheduled s = seqs \<and> batch_ok cfg s)"

lemma no_prefill_result: "yields m no_prefill \<Longrightarrow> spec P m (prefill_result cfg) anyhow"
  by (rule specI) (auto simp: prefill_result_def no_prefill_def dest: yieldsD)

text \<open>Before the prefill phase the batch is empty.\<close>

definition clean :: "int multiset \<Rightarrow> 'm sched \<Rightarrow> bool" where
  "clean M s \<longleftrightarrow> at_rest M s \<and> batch_view s = ([], 0, 0)"

lemma clean_batch: "clean M s \<Longrightarrow> settled M s \<and> batch_ok cfg s"
  by (auto simp: clean_def owned_def batch_ok_def batch_view_def)

lemma clean_spec:
  assumes "quiet m" and "local UNIV m"
  shows "spec (clean M) m (\<lambda>_. clean M) anyhow"
proof (rule specI)
  fix s x s' assume "clean M s" "m s = (Inr x, s')"
  moreover then have "queues s' = queues s" "batch_view s' = batch_view s"
    using assms unfolding quiet_def local_def by (metis snd_conv)+
  ultimately show "clean M s'" by (auto simp: clean_def queues_def queued_def batch_view_def)
qed simp

lemma local_mode_order: "local UNIV (prefill_mode_order cfg ora)"
proof -
  have loop: "local UNIV (mode_order_loop ora replay is modes)" for replay "is" modes
    by (induction "is" arbitrary: modes)
      (auto intro!: local_rules local_seq simp: refresh_prefill_metadata_def)
  have "local UNIV (\<lambda>s. mode_order_loop ora replay (sort_key (\<lambda>i. prefill_priority (store s i) replay) cands) [] s)"
    for replay cands by (rule local_state) (rule loop)
  moreover have "local UNIV (hook_storeE h)" for h :: "('a \<times> seq_store, unit) eff"
    by (auto simp: local_def hook_storeE_def batch_view_def split: prod.splits)
  ultimately show ?thesis
    unfolding prefill_mode_order_def by (auto intro!: local_rules split: option.splits)
qed

lemma local_affinity: "local UNIV (decode_affinity cfg ora failure)"
proof -
  have "local UNIV (overdue_loop ora xs)" for xs
    by (induction xs) (auto intro!: local_rules)
  then have loop: "local UNIV (\<lambda>s. overdue_loop ora (map snd (prefill_wait_since s)) s)"
    by (rule local_state)
  show ?thesis
    unfolding decode_affinity_def
    by (intro local_rules local_modify loop) (simp_all add: batch_view_def)
qed

lemma local_read_capacities: "local UNIV (read_capacities cfg ora)"
  unfolding read_capacities_def by (intro local_rules local_modify) (simp_all add: batch_view_def)

lemma local_reclaim: "local UNIV (reclaim_decode_capacity reclaimer f)"
  unfolding reclaim_decode_capacity_def by (intro local_rules)

lemma local_reserve: "local UNIV (reserve_windows ora ad)"
proof -
  have "local UNIV (case (failure, decode_capacity_reclaimer ora) of
         (Some f, Some reclaimer) \<Rightarrow>
           if ad then bindE (reclaim_decode_capacity reclaimer f) (\<lambda>failure'. retE (failure', False))
           else retE (failure, ad)
       | _ \<Rightarrow> retE (failure, ad))" for failure
    by (cases failure; cases "decode_capacity_reclaimer ora") (auto intro!: local_rules local_reclaim)
  then show ?thesis unfolding reserve_windows_def by (intro local_rules)
qed

lemma run_prefill_batch:
  assumes "single M"
  shows "spec (clean M) (run_prefill cfg ora margin) (\<lambda>_ s. settled M s \<and> batch_ok cfg s) anyhow"
proof -
  have order: "spec (clean M) (\<lambda>s. if waiting s \<noteq> [] \<and> \<not> (replay_pending s \<and> decoding s \<noteq> [])
      then prefill_mode_order cfg ora s else retE [] s) (\<lambda>_. clean M) anyhow"
    by (rule clean_spec)
      (use quiet_mode_order [of cfg ora] local_mode_order [of cfg ora] in \<open>auto simp: quiet_def local_def eff_simps\<close>)
  have phase: "spec (clean M) (prefill_phase cfg ora margin replay ks) (\<lambda>_ s. settled M s \<and> batch_ok cfg s) anyhow"
    for replay ks
    by (rule spec_weaken [OF prefill_phase_batch [OF assms]]) (use clean_batch in auto)
  show ?thesis
    unfolding run_prefill_def
    by (rule spec_bind [OF order], rule spec_bind [OF spec_get phase])
qed

lemma prefill_or_decode_batch:
  assumes "single M"
  shows "spec (clean M) (prefill_or_decode cfg ora ap ad failure overdue) (prefill_result cfg) anyhow"
proof -
  have sort: "spec (clean M) (if overdue then sort_overdue else retE ()) (\<lambda>_. clean M) anyhow"
    by (rule specI)
      (auto simp: sort_overdue_def clean_def queued_def batch_view_def eff_simps split: if_splits)
  have choose: "spec (\<lambda>s. (settled M s \<and> batch_ok cfg s) \<and> scheduled = l_scheduled s)
      (if scheduled \<noteq> [] then retE (Done (scheduled, True, []))
       else case failure of Some f \<Rightarrow> preempt_reserved ora f | None \<Rightarrow> run_decode cfg ora ap ad)
      (prefill_result cfg) anyhow" for scheduled
  proof (rule spec_if)
    show "spec (\<lambda>s. (settled M s \<and> batch_ok cfg s) \<and> scheduled = l_scheduled s) (retE (Done (scheduled, True, [])))
        (prefill_result cfg) anyhow" if "scheduled \<noteq> []"
      by (rule spec_ret) (use that in \<open>auto simp: prefill_result_def\<close>)
    show "spec (\<lambda>s. (settled M s \<and> batch_ok cfg s) \<and> scheduled = l_scheduled s)
        (case failure of Some f \<Rightarrow> preempt_reserved ora f | None \<Rightarrow> run_decode cfg ora ap ad) (prefill_result cfg) anyhow"
      by (rule no_prefill_result)
        (simp add: run_decode_no_prefill preempt_reserved_no_prefill split: option.split)
  qed
  show ?thesis
    unfolding prefill_or_decode_def
    by (rule spec_bind [OF clean_spec], rule quiet_rules, rule local_read_capacities, rule spec_then [OF sort],
        rule spec_then [OF run_prefill_batch [OF assms]], rule spec_bind [OF spec_get choose]) simp
qed

lemma schedule_pass_batch:
  assumes "single M"
  shows "spec (\<lambda>s. queued s = M) (schedule_pass cfg ora ap ad) (prefill_result cfg) anyhow"
proof -
  have reset: "spec (\<lambda>s. queued s = M) reset_locals (\<lambda>_. clean M) anyhow"
    unfolding reset_locals_def by (rule spec_modify) (simp add: clean_def queued_def batch_view_def)
  have affine: "spec (clean M) (retE (Done (b, False, []))) (prefill_result cfg) anyhow" for b
    by (rule spec_ret) (simp add: prefill_result_def)
  have step: "spec (clean M) (schedule_step cfg ora ap d failure) (prefill_result cfg) anyhow" for d failure
    unfolding schedule_step_def
    by (rule spec_bind [OF clean_spec], rule quiet_rules, rule local_affinity)
      (simp add: affine prefill_or_decode_batch [OF assms] split: prod.split option.split)
  show ?thesis
    unfolding schedule_pass_def split_beta
    by (rule spec_then [OF reset], rule spec_bind [OF clean_spec], rule quiet_rules, rule local_reserve,
        rule spec_bind [OF spec_get], assumption,
        intro spec_if step no_prefill_result preempt_first_no_prefill)
qed

lemma schedule_impl_batch:
  "single M \<Longrightarrow> queued s = M \<Longrightarrow> schedule_impl cfg ora ap ad s = (Inr r, s') \<Longrightarrow> prefill_result cfg (Done r) s'"
proof (induction cfg ora ap ad s rule: schedule_impl.induct)
  case (1 cfg ora ap ad s)
  obtain o1 s1 where pass: "schedule_pass cfg ora ap ad s = (o1, s1)" by fastforce
  then obtain out where o1: "o1 = Inr out"
    using "1.prems"(3) by (cases o1) (auto simp: schedule_impl.simps [of cfg ora ap ad s])
  note owned = specD_Inr [OF schedule_pass_owned "1.prems"(2) pass [unfolded o1]]
  note batch = specD_Inr [OF schedule_pass_batch [OF "1.prems"(1)] "1.prems"(2) pass [unfolded o1]]
  show ?case
  proof (cases out)
    case (Done r')
    then show ?thesis using "1.prems"(3) pass o1 batch by (simp add: schedule_impl.simps [of cfg ora ap ad s])
  next
    case RetryDecode
    then show ?thesis
      using "1.IH"(1) [of o1 s1] "1.prems"(1,3) pass o1 owned
      by (simp add: schedule_impl.simps [of cfg ora ap ad s] pass_post_def)
  next
    case (RetryPrefill d)
    then show ?thesis
      using "1.IH"(2) [of o1 s1] "1.prems"(1,3) pass o1 owned
      by (simp add: schedule_impl.simps [of cfg ora ap ad s] pass_post_def)
  qed
qed

text \<open>A successful \<open>schedule\<close> is a successful \<open>_schedule_impl\<close> on the same queues.\<close>

lemma snapshot_impl_from:
  assumes "snapshot_impl cfg ora t = (Inr r, t')"
  shows "\<exists>u u'. waiting u = waiting t \<and> decoding u = decoding t \<and>
    schedule_impl cfg ora True True u = (Inr r, u') \<and> store t' = store u' \<and> batch_view t' = batch_view u'"
proof (cases "capacity_snapshot ora")
  case None
  then show ?thesis using assms by (auto simp: snapshot_impl_def)
next
  case (Some p)
  obtain enter leave where p: "p = (enter, leave)" by fastforce
  obtain e u where e: "hookE enter t = (Inr e, u)" and
    body: "(case schedule_impl cfg ora True True u of (r, s') \<Rightarrow>
      (case hookE leave s' of (Inl e, s'') \<Rightarrow> (Inl e, s'') | (Inr _, s'') \<Rightarrow> (r, s''))) = (Inr r, t')"
    using assms by (auto simp: snapshot_impl_def Some p withE_def thenE_apply split: prod.splits sum.splits)
  obtain r' u' where impl: "schedule_impl cfg ora True True u = (r', u')" by fastforce
  then obtain x where "hookE leave u' = (Inr x, t')" "r' = Inr r"
    using body by (auto split: prod.splits sum.splits)
  with e impl show ?thesis
    by (intro exI [of _ u] exI [of _ u']) (auto simp: hookE_def batch_view_def split: prod.splits)
qed

lemma schedule_from_impl:
  assumes "schedule cfg ora s = (Inr r, s')"
  shows "\<exists>u u'. waiting u = waiting s \<and> decoding u = decoding s \<and>
    schedule_impl cfg ora True True u = (Inr r, u') \<and> store s' = store u' \<and> batch_view s' = batch_view u'"
proof -
  obtain now s1 where clock: "hookE (monotonic ora) s = (Inr now, s1)"
    using assms by (cases "hookE (monotonic ora) s"; cases "fst (hookE (monotonic ora) s)")
      (auto simp: schedule_def bindE_apply)
  define t where "t = s1\<lparr>prefill_wait_since := note_waiting now (waiting s1) (prefill_wait_since s1),
    last_phase_decision := None\<rparr>"
  have t: "waiting t = waiting s1" "decoding t = decoding s1" by (simp_all add: t_def)
  have run: "schedule cfg ora s = bindE (on_errorE (snapshot_impl cfg ora) (restore_queues (waiting s1) (decoding s1)))
      (\<lambda>result. thenE (modifyE (record_phase now result)) (retE result)) t"
    using clock unfolding schedule_def snapshot_impl_def [symmetric] by (simp add: eff_simps t_def)
  obtain q t' where q: "snapshot_impl cfg ora t = (q, t')" by fastforce
  have snap: "snapshot_impl cfg ora t = (Inr r, t')" and s': "s' = record_phase now r t'"
    using assms q by (cases q; simp add: run eff_simps on_errorE_def)+
  have "store s' = store t'" "batch_view s' = batch_view t'"
    by (simp_all add: s' record_phase_def Let_def batch_view_def split: prod.splits)
  moreover have "waiting s1 = waiting s" "decoding s1 = decoding s"
    using clock by (auto simp: hookE_def split: prod.splits)
  ultimately show ?thesis using snapshot_impl_from [OF snap] t by metis
qed

text \<open>
  C2. A prefill batch respects the step limits.  Whatever the oracle answers, when \<open>schedule\<close>
  returns a prefill batch it is nonempty, has at most \<open>max_num_seqs_in_batch\<close> members (a single raw
  offload request is exempt), every member got a positive chunk, the chunks add up to at most
  \<open>max_num_batched_tokens\<close>, and nothing was preempted.
\<close>

theorem prefill_batch_within_limits:
  assumes "distinct (waiting s @ decoding s)"
    and "schedule cfg ora s = (Inr (seqs, True, preempted), s')"
  shows "preempted = [] \<and> seqs \<noteq> [] \<and>
    int (length seqs) \<le> max 1 (max_num_seqs_in_batch cfg) \<and>
    (\<forall>i\<in>set seqs. \<exists>c. current_chunk_size (store s' i) = Some c \<and> 0 < c) \<and>
    sum_list (map (\<lambda>i. opt_or_zero (current_chunk_size (store s' i))) seqs) \<le> max_num_batched_tokens cfg"
proof -
  obtain u u' where u: "waiting u = waiting s" "decoding u = decoding s"
    "schedule_impl cfg ora True True u = (Inr (seqs, True, preempted), u')"
    "store s' = store u'" "batch_view s' = batch_view u'"
    using schedule_from_impl [OF assms(2)] by blast
  have "count (queued u) x \<le> 1" for x
    using assms(1) distinct_count_atmost_1 [of "waiting s @ decoding s"] by (simp add: queued_def u)
  then have "prefill_result cfg (Done (seqs, True, preempted)) u'"
    using schedule_impl_batch [OF _ refl u(3)] by blast
  then have res: "preempted = []" "seqs \<noteq> []" "l_scheduled u' = seqs" and ok: "batch_ok cfg u'"
    by (auto simp: prefill_result_def)
  have pos: "\<exists>c. current_chunk_size (store s' i) = Some c \<and> 0 < c" if "i \<in> set seqs" for i
    using ok res(3) that
    by (cases "current_chunk_size (store s' i)") (auto simp: batch_ok_def chunk_of_def opt_or_zero_def u(4))
  show ?thesis
    using ok res pos unfolding batch_ok_def chunk_of_def u(4) by simp
qed

end
