(* ===== verification/Cost_Hooks.thy ===== *)
theory Cost_Hooks
  imports Decode_Reservation
begin

text \<open>
  The decode-window hooks of the cache managers: the default of \<open>cache_manager/base.py\<close> and
  the overrides of \<open>head_slots.py\<close>, \<open>fp8.py\<close>, \<open>methods/quest.py\<close>,
  \<open>methods/h2o.py\<close> and \<open>methods/streamingllm.py\<close>.  Each hook is a function of the part of
  the manager's state that it reads.  Every one of them meets the contract the ledger relies on.
\<close>

section \<open>The hooks\<close>

definition base_decode_window_budgets :: "int \<Rightarrow> (string, int) dict" where
  "base_decode_window_budgets admission_free_slots = [(''slots'', admission_free_slots)]"

definition base_decode_window_costs :: "sequence \<Rightarrow> int \<Rightarrow> (string, int) dict" where
  "base_decode_window_costs s tokens = [(''slots'', tokens)]"

definition base_hooks :: "int \<Rightarrow> window_hooks" where
  "base_hooks admission_free_slots =
     \<lparr>decode_window_costs = base_decode_window_costs,
      decode_window_budgets = base_decode_window_budgets admission_free_slots\<rparr>"

text \<open>Row table of a manager: \<open>seq_id_to_row\<close> and the per-row lengths; block and page sizes.\<close>

record row_table =
  seq_id_to_row :: "(int, nat) dict"
  row_seq_lens :: "nat \<Rightarrow> int"
  page_size :: nat

definition row_len :: "row_table \<Rightarrow> int \<Rightarrow> int" where
  "row_len t sid =
     (case map_of (seq_id_to_row t) sid of None \<Rightarrow> 0 | Some row \<Rightarrow> row_seq_lens t row)"

definition required_new_pages :: "row_table \<Rightarrow> int \<Rightarrow> int \<Rightarrow> int" where
  "required_new_pages t sid n =
     (let cur_len = row_len t sid;
          before_pages = (cur_len + int (page_size t) - 1) div int (page_size t);
          after_len = cur_len + n;
          after_pages = (after_len + int (page_size t) - 1) div int (page_size t)
      in max 0 (after_pages - before_pages))"

definition quest_decode_window_costs :: "row_table \<Rightarrow> sequence \<Rightarrow> int \<Rightarrow> (string, int) dict" where
  "quest_decode_window_costs t s tokens =
     [(''slots'', required_new_pages t (seq_id s) tokens * int (page_size t))]"

definition quest_hooks :: "row_table \<Rightarrow> int \<Rightarrow> window_hooks" where
  "quest_hooks t admission_free_slots =
     \<lparr>decode_window_costs = quest_decode_window_costs t,
      decode_window_budgets = base_decode_window_budgets admission_free_slots\<rparr>"

definition fp8_decode_window_costs :: "bool \<Rightarrow> row_table \<Rightarrow> sequence \<Rightarrow> int \<Rightarrow> (string, int) dict" where
  "fp8_decode_window_costs prefix_offload_enabled t s tokens =
     (let block = int (page_size t); start = row_len t (seq_id s) in
      [(''slots'', if prefix_offload_enabled
                   then tokens + ((start + tokens) div block - start div block) * block else tokens)])"

definition fp8_hooks :: "bool \<Rightarrow> row_table \<Rightarrow> int \<Rightarrow> window_hooks" where
  "fp8_hooks prefix_offload_enabled t admission_free_slots =
     \<lparr>decode_window_costs = fp8_decode_window_costs prefix_offload_enabled t,
      decode_window_budgets = base_decode_window_budgets admission_free_slots\<rparr>"

text \<open>
  Managers with one pool per KV layer: the layer indices, the free slots of each layer and the
  resident length of a request in each layer (\<open>chain_physical_residency\<close>, which a decoding
  request always has; the \<open>RuntimeError\<close> for a request without rows is not modelled).
\<close>

record layer_pools =
  kv_layers :: "nat list"
  layer_free_slots :: "nat \<Rightarrow> int"
  residency :: "int \<Rightarrow> int list"

definition layer_decode_window_budgets :: "layer_pools \<Rightarrow> (string, int) dict" where
  "layer_decode_window_budgets p = dict_comp (map (\<lambda>l. (layer_name l, layer_free_slots p l)) (kv_layers p))"

record h2o_config =
  h2o_decode_eviction :: bool
  h2o_decode_budget :: int
  h2o_decode_eviction_interval :: int

definition decode_append_peak :: "h2o_config \<Rightarrow> int \<Rightarrow> int \<Rightarrow> int" where
  "decode_append_peak c resident tokens =
     (if h2o_decode_eviction c \<and> tokens \<noteq> 0
      then min (resident + tokens)
        (max (resident + 1) (h2o_decode_budget c + h2o_decode_eviction_interval c))
      else resident + tokens)"

definition h2o_decode_window_costs :: "h2o_config \<Rightarrow> layer_pools \<Rightarrow> sequence \<Rightarrow> int \<Rightarrow> (string, int) dict" where
  "h2o_decode_window_costs c p s tokens =
     dict_comp (map (\<lambda>(l, resident). (layer_name l, decode_append_peak c resident (max 0 tokens) - resident))
       (zip (kv_layers p) (residency p (seq_id s))))"

definition h2o_hooks :: "h2o_config \<Rightarrow> layer_pools \<Rightarrow> window_hooks" where
  "h2o_hooks c p =
     \<lparr>decode_window_costs = h2o_decode_window_costs c p, decode_window_budgets = layer_decode_window_budgets p\<rparr>"

definition streamingllm_decode_window_costs :: "int \<Rightarrow> int \<Rightarrow> layer_pools \<Rightarrow> sequence \<Rightarrow> int \<Rightarrow>
    (string, int) dict" where
  "streamingllm_decode_window_costs sink_keep_tokens recent_keep_tokens p s n =
     (let tokens = max 0 n; budget = sink_keep_tokens + recent_keep_tokens in
      dict_comp (map (\<lambda>(l, resident). (layer_name l,
          if budget > 0 then min tokens (max 1 (2 * budget - resident)) else tokens))
        (zip (kv_layers p) (residency p (seq_id s)))))"

definition streamingllm_hooks :: "int \<Rightarrow> int \<Rightarrow> layer_pools \<Rightarrow> window_hooks" where
  "streamingllm_hooks sink_keep_tokens recent_keep_tokens p =
     \<lparr>decode_window_costs = streamingllm_decode_window_costs sink_keep_tokens recent_keep_tokens p,
      decode_window_budgets = layer_decode_window_budgets p\<rparr>"

record head_pools =
  head_kv_layers :: "nat list"
  free_counts :: "int list"
  scratch_slot_reserve :: int
  num_kv_heads :: nat

definition head_decode_window_budgets :: "head_pools \<Rightarrow> (string, int) dict" where
  "head_decode_window_budgets p =
     dict_comp (map (\<lambda>(l, free). (layer_name l, max 0 (free - scratch_slot_reserve p * int (num_kv_heads p))))
       (zip (head_kv_layers p) (free_counts p)))"

definition head_decode_window_costs :: "head_pools \<Rightarrow> sequence \<Rightarrow> int \<Rightarrow> (string, int) dict" where
  "head_decode_window_costs p s tokens =
     dict_comp (map (\<lambda>l. (layer_name l, tokens * int (num_kv_heads p))) (head_kv_layers p))"

definition head_hooks :: "head_pools \<Rightarrow> window_hooks" where
  "head_hooks p =
     \<lparr>decode_window_costs = head_decode_window_costs p, decode_window_budgets = head_decode_window_budgets p\<rparr>"

section \<open>Every hook meets the ledger's contract\<close>

lemma div_mono_nat: "a \<le> b \<Longrightarrow> a div int k \<le> b div int k"
  by (cases "k = 0") (simp_all add: zdiv_mono1)

lemma div_mono_times: "a \<le> b \<Longrightarrow> (a div int k - c) * int k \<le> (b div int k - c) * int k"
  by (simp add: div_mono_nat mult_right_mono)

interpretation base: monotone_window_costs "base_hooks free" for free
  by unfold_locales (simp_all add: base_hooks_def base_decode_window_costs_def)

lemma required_new_pages_mono: "m \<le> n \<Longrightarrow> required_new_pages t i m \<le> required_new_pages t i n"
  using div_mono_nat [of "row_len t i + m + int (page_size t) - 1" "row_len t i + n + int (page_size t) - 1" "page_size t"]
  by (simp add: required_new_pages_def Let_def add_ac)

interpretation quest: monotone_window_costs "quest_hooks t free" for t free
  by unfold_locales
    (simp_all add: quest_hooks_def quest_decode_window_costs_def required_new_pages_mono mult_right_mono)

interpretation fp8: monotone_window_costs "fp8_hooks off t free" for off t free
proof
  fix s :: sequence and m n :: int and name :: string
  show "distinct (map fst (decode_window_costs (fp8_hooks off t free) s n))"
    "map fst (decode_window_costs (fp8_hooks off t free) s m) =
     map fst (decode_window_costs (fp8_hooks off t free) s n)"
    by (simp_all add: fp8_hooks_def fp8_decode_window_costs_def Let_def)
  assume "1 \<le> m" "m \<le> n"
  then show "dict_get (decode_window_costs (fp8_hooks off t free) s m) name 0
      \<le> dict_get (decode_window_costs (fp8_hooks off t free) s n) name 0"
    using div_mono_times [of "row_len t (seq_id s) + m" "row_len t (seq_id s) + n" "page_size t"
        "row_len t (seq_id s) div int (page_size t)"]
    by (simp add: fp8_hooks_def fp8_decode_window_costs_def Let_def)
qed

text \<open>A hook that is a dict comprehension over fixed keys is monotone if each entry is.\<close>

lemma comp_hooks_monotone:
  assumes "\<And>s n. decode_window_costs cm s n = dict_comp (map (\<lambda>x. (k x, f n x)) (xs s))"
    and "\<And>m n x. 1 \<le> m \<Longrightarrow> m \<le> n \<Longrightarrow> f m x \<le> f n x"
  shows "monotone_window_costs cm"
proof
  fix s m n name
  show "distinct (map fst (decode_window_costs cm s n))"
    by (simp add: assms(1) distinct_dict_comp)
  show "map fst (decode_window_costs cm s m) = map fst (decode_window_costs cm s n)"
    unfolding assms(1) by (rule dict_comp_keys) simp
  assume "1 \<le> m" "m \<le> n"
  then show "dict_get (decode_window_costs cm s m) name 0 \<le> dict_get (decode_window_costs cm s n) name 0"
    unfolding assms(1) by (intro dict_comp_mono assms(2))
qed

lemma decode_append_peak_mono:
  "1 \<le> m \<Longrightarrow> m \<le> n \<Longrightarrow> decode_append_peak c resident m \<le> decode_append_peak c resident n"
  by (auto simp: decode_append_peak_def)

interpretation h2o: monotone_window_costs "h2o_hooks c p" for c p
  by (rule comp_hooks_monotone [where k="\<lambda>(l, _). layer_name l"
        and f="\<lambda>n (_, resident). decode_append_peak c resident (max 0 n) - resident"
        and xs="\<lambda>s. zip (kv_layers p) (residency p (seq_id s))"])
    (auto simp: h2o_hooks_def h2o_decode_window_costs_def decode_append_peak_mono split_def)

interpretation streamingllm: monotone_window_costs "streamingllm_hooks sink recent p" for sink recent p
  by (rule comp_hooks_monotone [where k="\<lambda>(l, _). layer_name l"
        and f="\<lambda>n (_, resident). if sink + recent > 0
          then min (max 0 n) (max 1 (2 * (sink + recent) - resident)) else max 0 n"
        and xs="\<lambda>s. zip (kv_layers p) (residency p (seq_id s))"])
    (auto simp: streamingllm_hooks_def streamingllm_decode_window_costs_def split_def Let_def)

interpretation head_slots: monotone_window_costs "head_hooks p" for p
  by (rule comp_hooks_monotone [where k=layer_name and f="\<lambda>n _. n * int (num_kv_heads p)"
        and xs="\<lambda>s. head_kv_layers p"])
    (auto simp: head_hooks_def head_decode_window_costs_def mult_right_mono)

section \<open>Short windows\<close>

text \<open>
  C6. A sole request is never stalled by the size of a whole window: with \<open>allow_short\<close> and any
  of the managers' own hooks, \<open>acquire\<close> succeeds as soon as one token fits, and the window it
  records is the largest one, up to the configured window and the request's token limit, that fits
  beside the promises already made and the prefill reserve; it never raises on known pools.
\<close>

theorem acquire_short_window_maximal:
  assumes hooks: "cm \<in> {base_hooks free, quest_hooks t free, fp8_hooks off t free, h2o_hooks c p,
      streamingllm_hooks sink recent p, head_hooks hp}"
    and known: "fst ` set (decode_window_costs cm (\<sigma> sid) 1) \<subseteq> fst ` set budgets"
    and need: "needs_acquisition \<sigma> r sid" and "0 < window r"
    and fits: "fits = (\<lambda>n. window_fits (outstanding cm \<sigma> None r) reserve budgets
      (decode_window_costs cm (\<sigma> sid) n) = Inr True)"
    and limit: "limit = min (window r) (max_tokens (\<sigma> sid) - submitted_output_count (\<sigma> sid))"
    and "fits 1"
  shows "\<exists>n r'. acquire cm \<sigma> sid True (Some reserve) (Some budgets) r = (Inr True, r') \<and>
    map_of (requests r') sid = Some (submitted_output_count (\<sigma> sid) + n) \<and>
    1 \<le> n \<and> n \<le> limit \<and> fits n \<and> (\<forall>m. n < m \<and> m \<le> limit \<longrightarrow> \<not> fits m)"
proof -
  have mono: "monotone_window_costs cm"
    using hooks base.monotone_window_costs_axioms quest.monotone_window_costs_axioms
      fp8.monotone_window_costs_axioms h2o.monotone_window_costs_axioms
      streamingllm.monotone_window_costs_axioms head_slots.monotone_window_costs_axioms by blast
  have "1 \<le> limit"
    using need \<open>0 < window r\<close> by (auto simp: limit needs_acquisition_def Let_def split: if_splits)
  moreover have "window_fits (outstanding cm \<sigma> None r) reserve budgets (decode_window_costs cm (\<sigma> sid) 1) = Inr True"
    using \<open>fits 1\<close> by (simp add: fits)
  ultimately obtain n where n: "acquire_tokens cm \<sigma> budgets reserve True sid (r, outstanding cm \<sigma> None r) = Inr (Some n)"
    "1 \<le> n" "n \<le> limit" "fits n" "\<forall>m. n < m \<and> m \<le> limit \<longrightarrow> \<not> fits m"
    using monotone_window_costs.acquire_tokens_greatest [OF mono, of \<sigma> sid, OF known _ limit] unfolding fits by blast
  then have "acquire cm \<sigma> sid True (Some reserve) (Some budgets) r =
    (Inr True, r\<lparr>requests := dict_set sid (submitted_output_count (\<sigma> sid) + n) (requests r)\<rparr>)"
    using need by (simp add: acquire_def acquire_many_def acquire_one_def)
  with n(2-) show ?thesis by (simp add: update_conv')
qed

theorem acquire_short_window_maximal_witness:
  "\<exists>n r'. acquire (base_hooks 4) (\<lambda>_. example_decoded) 0 True (Some [(''slots'', 1)]) (Some [(''slots'', 4)])
      \<lparr>window = 6, requests = []\<rparr> = (Inr True, r') \<and> map_of (requests r') 0 = Some (3 + n) \<and> n = 3"
proof -
  let ?r = "\<lparr>window = 6, requests = []\<rparr> :: decode_reservations"
  let ?fits = "\<lambda>n. window_fits (outstanding (base_hooks 4) (\<lambda>_. example_decoded) None ?r) [(''slots'', 1)]
    [(''slots'', 4)] (decode_window_costs (base_hooks 4) example_decoded n) = Inr True"
  have fits: "?fits n \<longleftrightarrow> n \<le> 3" for n
    by (auto simp: base_hooks_def base_decode_window_costs_def outstanding_def)
  have "\<exists>n r'. acquire (base_hooks 4) (\<lambda>_. example_decoded) 0 True (Some [(''slots'', 1)]) (Some [(''slots'', 4)]) ?r
      = (Inr True, r') \<and> map_of (requests r') 0 = Some (submitted_output_count example_decoded + n) \<and>
    1 \<le> n \<and> n \<le> 6 \<and> ?fits n \<and> (\<forall>m. n < m \<and> m \<le> 6 \<longrightarrow> \<not> ?fits m)"
    by (rule acquire_short_window_maximal [of _ 4 _ _ _ _ _ _ _ "\<lambda>_. example_decoded" 0])
      (use example_submitted example_decoded_wf(7) fits in
        \<open>auto simp: base_hooks_def base_decode_window_costs_def needs_acquisition_def outstanding_def\<close>)
  then obtain n r' where *: "acquire (base_hooks 4) (\<lambda>_. example_decoded) 0 True (Some [(''slots'', 1)]) (Some [(''slots'', 4)]) ?r
      = (Inr True, r')" "map_of (requests r') 0 = Some (3 + n)" "n \<le> 3" "\<forall>m. n < m \<and> m \<le> 6 \<longrightarrow> \<not> m \<le> 3"
    unfolding fits example_submitted by blast
  from this(4) have "\<not> n < 3" by force
  with \<open>n \<le> 3\<close> have "n = 3" by simp
  with * show ?thesis by blast
qed

end
