(* ===== verification/Runtime_State.thy ===== *)
theory Runtime_State
  imports Scheduler Cost_Hooks
begin

text \<open>
  \<open>engine/runtime_state.py\<close> as the provider of the scheduler's memory oracle, over the scheduler
  hooks of a cache manager, with the defaults of \<open>engine/cache_manager/base.py\<close>.  The optional
  prefix-cache and chain-cache coordinators are represented by what the oracle reads of them.
\<close>

section \<open>The scheduler hooks of a cache manager\<close>

record 'k cache_manager =
  cm_num_free_slots :: "'k \<Rightarrow> int"
  cm_prefill_batched_tokens_margin :: "'k \<Rightarrow> int"
  cm_remaining_prefill_tokens :: "'k \<Rightarrow> sequence \<Rightarrow> int"
  cm_prefill_execution_mode :: "sequence \<Rightarrow> 'k \<Rightarrow> string \<times> 'k"
  cm_prefill_batch_compatibility_key :: "'k \<Rightarrow> sequence \<Rightarrow> opaque"
  cm_reset_prefill_execution_state :: "int \<Rightarrow> 'k \<Rightarrow> 'k"
  cm_complete_prefill_execution :: "sequence \<Rightarrow> 'k \<Rightarrow> 'k"
  cm_prefill_reservation_owned_by_chain :: "sequence \<Rightarrow> bool"
  cm_reserved_prefill_slots :: "'k \<Rightarrow> sequence list \<Rightarrow> int \<Rightarrow> int"
  cm_prefill_step_free_slots :: "'k \<Rightarrow> int"
  cm_should_schedule_full_prefill :: "'k \<Rightarrow> sequence \<Rightarrow> bool"
  cm_prefill_step_free_slots_for :: "'k \<Rightarrow> sequence \<Rightarrow> int"
  cm_prefill_private_slots_for :: "'k \<Rightarrow> sequence \<Rightarrow> int"
  cm_min_final_prefill_chunk_size :: "'k \<Rightarrow> sequence \<Rightarrow> int"
  cm_prefill_step_reservation_cost :: "'k \<Rightarrow> sequence \<Rightarrow> int \<Rightarrow> int"
  cm_step_allocation_budgets :: "'k \<Rightarrow> (string, int) dict option"
  cm_step_allocation_costs :: "'k \<Rightarrow> sequence \<Rightarrow> int \<Rightarrow> (string, int) dict result"
  cm_window_hooks :: "'k \<Rightarrow> window_hooks"
  cm_prefill_capacity_after_decode_reservations :: "'k \<Rightarrow> int \<Rightarrow> (string, int) dict \<Rightarrow> bool \<Rightarrow> int"
  cm_decode_step_free_slots :: "'k \<Rightarrow> int"
  cm_decode_step_free_slots_for :: "'k \<Rightarrow> sequence \<Rightarrow> int"
  cm_decode_step_reservation_cost :: "'k \<Rightarrow> sequence \<Rightarrow> int"
  cm_prompt_admission_free_slots :: "'k \<Rightarrow> int"
  cm_prompt_admission_cost :: "'k \<Rightarrow> sequence \<Rightarrow> int"
  cm_prompt_logical_reservation_cost :: "'k \<Rightarrow> sequence \<Rightarrow> int"
  cm_prompt_admission_failure_action :: "'k \<Rightarrow> string"
  cm_prompt_admission_budgets :: "'k \<Rightarrow> sequence list \<Rightarrow> int \<Rightarrow> (string, int) dict"
  cm_prompt_admission_costs :: "'k \<Rightarrow> sequence \<Rightarrow> (string, int) dict"
  cm_prompt_admission_shared_costs :: "'k \<Rightarrow> sequence \<Rightarrow> (string, (int, int) dict) dict"
  cm_on_prompt_admitted :: "(string, int) dict \<Rightarrow> ('k \<times> sequence, unit) eff"
  cm_refresh_prefix_cache_hit :: "('k \<times> sequence, unit) eff"
  cm_clear_prefix_cache_hit :: "('k \<times> sequence, unit) eff"

subsection \<open>The defaults of the base class\<close>

record base_cache =
  free_slots :: int
  raw_offload_prefill_phases :: "(int, bool) dict"

definition base_remaining_prefill_tokens :: "sequence \<Rightarrow> int" where
  "base_remaining_prefill_tokens q =
     num_prompt_tokens q - max (num_prefilled_tokens q) (prefix_cache_hit_len q)"

definition base_prefill_execution_mode :: "sequence \<Rightarrow> 'k \<Rightarrow> string \<times> 'k" where
  "base_prefill_execution_mode q k = (''chunked'', k)"

text \<open>
  Raw-offload staging is sticky for one prefill lifecycle: once chosen it stays until the
  lifecycle is reset, or the request changes between a first prefill and a replay.
\<close>

definition apply_sticky_raw_offload_mode :: "sequence \<Rightarrow> string \<Rightarrow> base_cache \<Rightarrow> string \<times> base_cache" where
  "apply_sticky_raw_offload_mode q mode k =
     (let sid = seq_id q;
          replay_phase = is_recompute_replay q;
          phases = (case map_of (raw_offload_prefill_phases k) sid of
                      Some previous \<Rightarrow>
                        if previous \<noteq> replay_phase then dict_pop sid (raw_offload_prefill_phases k)
                        else raw_offload_prefill_phases k
                    | None \<Rightarrow> raw_offload_prefill_phases k)
      in if map_of phases sid \<noteq> None
         then (''raw_offload'', k\<lparr>raw_offload_prefill_phases := phases\<rparr>)
         else if mode = ''raw_offload''
         then (mode, k\<lparr>raw_offload_prefill_phases := dict_set sid replay_phase phases\<rparr>)
         else (mode, k\<lparr>raw_offload_prefill_phases := phases\<rparr>))"

definition base_reset_prefill_execution_state :: "int \<Rightarrow> base_cache \<Rightarrow> base_cache" where
  "base_reset_prefill_execution_state sid k =
     k\<lparr>raw_offload_prefill_phases := dict_pop sid (raw_offload_prefill_phases k)\<rparr>"

definition base_complete_prefill_execution :: "sequence \<Rightarrow> base_cache \<Rightarrow> base_cache" where
  "base_complete_prefill_execution q = base_reset_prefill_execution_state (seq_id q)"

definition partially_prefilled :: "sequence \<Rightarrow> bool" where
  "partially_prefilled q \<longleftrightarrow> 0 < num_prefilled_tokens q \<and> num_prefilled_tokens q < num_prompt_tokens q"

definition base_reserved_prefill_slots :: "sequence list \<Rightarrow> int \<Rightarrow> int" where
  "base_reserved_prefill_slots waiting_seqs chunk =
     sum_list (map (\<lambda>q. num_prompt_tokens q - num_prefilled_tokens q) (filter partially_prefilled waiting_seqs))"

text \<open>\<open>max(reserved.values(), default=0)\<close>\<close>

definition max_value :: "(string, int) dict \<Rightarrow> int" where
  "max_value d = (if d = [] then 0 else Max (snd ` set d))"

definition base_prefill_capacity_after_decode_reservations :: "int \<Rightarrow> (string, int) dict \<Rightarrow> bool \<Rightarrow> int" where
  "base_prefill_capacity_after_decode_reservations free reserved admission = free - max_value reserved"

definition base_prompt_admission_cost :: "sequence \<Rightarrow> int" where
  "base_prompt_admission_cost q = num_prompt_tokens q - prefix_cache_hit_len q"

definition base_prompt_admission_budgets :: "base_cache \<Rightarrow> sequence list \<Rightarrow> int \<Rightarrow> (string, int) dict" where
  "base_prompt_admission_budgets k waiting_seqs chunk =
     [(''slots'', max 0 (free_slots k - base_reserved_prefill_slots waiting_seqs chunk))]"

definition base_prompt_admission_costs :: "sequence \<Rightarrow> (string, int) dict" where
  "base_prompt_admission_costs q = [(''slots'', base_prompt_admission_cost q)]"

definition base_clear_prefix_cache_hit :: "('k \<times> sequence, unit) eff" where
  "base_clear_prefix_cache_hit = (\<lambda>(k, q). (Inr (), (k, clear_prefix_cache_hit q)))"

definition base_manager :: "base_cache cache_manager" where
  "base_manager =
     \<lparr>cm_num_free_slots = free_slots,
      cm_prefill_batched_tokens_margin = (\<lambda>_. 0),
      cm_remaining_prefill_tokens = (\<lambda>_. base_remaining_prefill_tokens),
      cm_prefill_execution_mode = base_prefill_execution_mode,
      cm_prefill_batch_compatibility_key = (\<lambda>_ _. Hashable 0),
      cm_reset_prefill_execution_state = base_reset_prefill_execution_state,
      cm_complete_prefill_execution = base_complete_prefill_execution,
      cm_prefill_reservation_owned_by_chain = (\<lambda>_. False),
      cm_reserved_prefill_slots = (\<lambda>_. base_reserved_prefill_slots),
      cm_prefill_step_free_slots = free_slots,
      cm_should_schedule_full_prefill = (\<lambda>_ _. False),
      cm_prefill_step_free_slots_for = (\<lambda>k _. free_slots k),
      cm_prefill_private_slots_for = (\<lambda>_ _. 0),
      cm_min_final_prefill_chunk_size = (\<lambda>_ _. 0),
      cm_prefill_step_reservation_cost = (\<lambda>_ _ n. n),
      cm_step_allocation_budgets = (\<lambda>_. None),
      cm_step_allocation_costs = (\<lambda>_ _ _. Inl RuntimeError),
      cm_window_hooks = (\<lambda>k. base_hooks (free_slots k)),
      cm_prefill_capacity_after_decode_reservations = (\<lambda>_. base_prefill_capacity_after_decode_reservations),
      cm_decode_step_free_slots = free_slots,
      cm_decode_step_free_slots_for = (\<lambda>k _. free_slots k),
      cm_decode_step_reservation_cost = (\<lambda>_ _. 1),
      cm_prompt_admission_free_slots = free_slots,
      cm_prompt_admission_cost = (\<lambda>_. base_prompt_admission_cost),
      cm_prompt_logical_reservation_cost = (\<lambda>_. base_prompt_admission_cost),
      cm_prompt_admission_failure_action = (\<lambda>_. ''defer''),
      cm_prompt_admission_budgets = base_prompt_admission_budgets,
      cm_prompt_admission_costs = (\<lambda>_. base_prompt_admission_costs),
      cm_prompt_admission_shared_costs = (\<lambda>_ _. []),
      cm_on_prompt_admitted = (\<lambda>_ s. (Inr (), s)),
      cm_refresh_prefix_cache_hit = base_clear_prefix_cache_hit,
      cm_clear_prefix_cache_hit = base_clear_prefix_cache_hit\<rparr>"

section \<open>\<open>RuntimeState\<close>\<close>

text \<open>
  What the oracle reads of the two coordinators; \<open>chain_keys\<close> is \<open>chain_capacity_keys\<close> when the
  manager defines it, \<open>chain_layers\<close> its KV layer indices.
\<close>

record 'k prefix_side =
  step_reclaimable_slots :: "'k \<Rightarrow> int"
  admission_reclaimable_slots :: "'k \<Rightarrow> int"
  side_block_size :: int
  prefix_hit_evictable_slots :: "'k \<Rightarrow> sequence \<Rightarrow> int"
  prefix_hit_shared_costs :: "'k \<Rightarrow> sequence \<Rightarrow> (int, int) dict"
  side_refresh_prefix_cache_hit :: "('k \<times> sequence, unit) eff"

record 'k chain_side =
  outstanding_active_reservations :: "'k \<Rightarrow> int set \<Rightarrow> int list"
  chain_keys :: "string list option"
  chain_layers :: "nat list"

record 'k runtime_config =
  cache_manager_of :: "'k cache_manager"
  prefix_cache_coordinator :: "'k prefix_side option"
  chain_cache_coordinator :: "'k chain_side option"
  runtime_prefill_chunk_size :: int
  max_num_seqs_in_gpu :: int

record 'k runtime =
  cache :: 'k
  reservations :: decode_reservations
  resident_seq_ids :: "int list"

definition mixed_prefix_step_reclaimable_slots :: "'k runtime_config \<Rightarrow> 'k \<Rightarrow> int" where
  "mixed_prefix_step_reclaimable_slots c k =
     (case prefix_cache_coordinator c of None \<Rightarrow> 0 | Some p \<Rightarrow> step_reclaimable_slots p k)"

definition mixed_prefix_admission_reclaimable_slots :: "'k runtime_config \<Rightarrow> 'k \<Rightarrow> int" where
  "mixed_prefix_admission_reclaimable_slots c k =
     (case prefix_cache_coordinator c of None \<Rightarrow> 0 | Some p \<Rightarrow> admission_reclaimable_slots p k)"

definition mixed_prefix_boundary_limit :: "'k runtime_config \<Rightarrow> sequence \<Rightarrow> int" where
  "mixed_prefix_boundary_limit c q =
     (case prefix_cache_coordinator c of
        None \<Rightarrow> num_prompt_tokens q - num_prefilled_tokens q
      | Some p \<Rightarrow>
          if side_block_size p \<le> 0 then num_prompt_tokens q - num_prefilled_tokens q
          else let start = max (num_prefilled_tokens q) (prefix_cache_hit_len q);
                   remaining = num_prompt_tokens q - start
               in if remaining \<le> 0 then 0
                  else let to_boundary = side_block_size p - start mod side_block_size p
                       in min remaining (if to_boundary = 0 then side_block_size p else to_boundary))"

text \<open>\<open>decode_reservations.outstanding()\<close> under the manager's present costs.\<close>

definition outstanding_now :: "'k runtime_config \<Rightarrow> seq_store \<Rightarrow> 'k runtime \<Rightarrow> (string, int) dict" where
  "outstanding_now c \<sigma> rt = outstanding (cm_window_hooks (cache_manager_of c) (cache rt)) \<sigma> None (reservations rt)"

definition is_layer_name :: "string \<Rightarrow> bool" where
  "is_layer_name name \<longleftrightarrow> take 6 name = ''layer_''"

definition pending_prefill :: "(string, int) dict \<Rightarrow> int \<Rightarrow> (string, int) dict \<Rightarrow> (string, int) dict" where
  "pending_prefill prefill scalar budgets =
     map (\<lambda>(name, free). (name,
       case map_of prefill name of
         Some p \<Rightarrow> max 0 (free - p)
       | None \<Rightarrow> if is_layer_name name then scalar else 0)) budgets"

definition add_to_pending :: "(string, int) dict \<Rightarrow> (string \<times> int) list \<Rightarrow> (string, int) dict" where
  "add_to_pending pending charges =
     foldl (\<lambda>d (name, slots). case map_of d name of None \<Rightarrow> d | Some v \<Rightarrow> dict_set name (v + slots) d) pending charges"

definition chain_pending :: "'k runtime_config \<Rightarrow> 'k \<Rightarrow> sequence list \<Rightarrow> (string, int) dict \<Rightarrow> (string, int) dict" where
  "chain_pending c k waiting_seqs pending =
     (case chain_cache_coordinator c of
        None \<Rightarrow> pending
      | Some ch \<Rightarrow>
          let partial_ids = seq_id ` set (filter (\<lambda>q. partially_prefilled q \<and>
                \<not> cm_prefill_reservation_owned_by_chain (cache_manager_of c) q) waiting_seqs);
              slots = outstanding_active_reservations ch k partial_ids
          in case chain_keys ch of
               Some keys \<Rightarrow> add_to_pending pending (zip keys slots)
             | None \<Rightarrow>
                 let p = add_to_pending pending (zip (map layer_name (chain_layers ch)) slots)
                 in add_to_pending p [(''slots'', if slots = [] then 0 else Max (set slots))])"

definition rt_reserve_decode_windows :: "'k runtime_config \<Rightarrow> seq_store \<Rightarrow> int list \<Rightarrow> int list \<Rightarrow>
    ('k runtime, int option) eff" where
  "rt_reserve_decode_windows c \<sigma> dec wai rt =
     (if \<not> (\<exists>i\<in>set dec. needs_acquisition \<sigma> (reservations rt) i) then (Inr None, rt)
      else
        let cm = cache_manager_of c; k = cache rt; hooks = cm_window_hooks cm k;
            step = runtime_prefill_chunk_size c; wseqs = map \<sigma> wai;
            budgets = decode_window_budgets hooks;
            scalar = cm_reserved_prefill_slots cm k wseqs step;
            pending = chain_pending c k wseqs
              (pending_prefill (cm_prompt_admission_budgets cm k wseqs step) scalar budgets);
            extra = mixed_prefix_step_reclaimable_slots c k
        in if extra > 0 \<and> map_of budgets ''slots'' = None then (Inl RuntimeError, rt)
           else
             let budgets' = (if extra > 0 then dict_set ''slots'' (dict_get budgets ''slots'' 0 + extra) budgets
                             else budgets);
                 pending' = (if extra > 0 then dict_set ''slots'' (max (dict_get pending ''slots'' 0) scalar) pending
                             else pending)
             in (case acquire_many hooks \<sigma> dec (length dec = 1) (Some pending') (Some budgets') (reservations rt) of
                   (res, r') \<Rightarrow> (res, rt\<lparr>reservations := r'\<rparr>)))"

definition rt_prefill_step_free_slots :: "'k runtime_config \<Rightarrow> seq_store \<Rightarrow> 'k runtime \<Rightarrow> int" where
  "rt_prefill_step_free_slots c \<sigma> rt =
     (let cm = cache_manager_of c; k = cache rt; free = cm_prefill_step_free_slots cm k;
          reserved = outstanding_now c \<sigma> rt;
          free' = (if reserved \<noteq> [] then cm_prefill_capacity_after_decode_reservations cm k free reserved False else free)
      in max 0 (free' + mixed_prefix_step_reclaimable_slots c k))"

definition rt_prefill_execution_mode :: "'k runtime_config \<Rightarrow> sequence \<Rightarrow> ('k runtime, string) eff" where
  "rt_prefill_execution_mode c q rt =
     (if multimodal_full_prefill q then (Inr ''full'', rt)
      else case cm_prefill_execution_mode (cache_manager_of c) q (cache rt) of
          (mode, k') \<Rightarrow> (Inr mode, rt\<lparr>cache := k'\<rparr>))"

definition rt_prefill_step_free_slots_for :: "'k runtime_config \<Rightarrow> 'k runtime \<Rightarrow> sequence \<Rightarrow> int" where
  "rt_prefill_step_free_slots_for c rt q =
     (let free = cm_prefill_step_free_slots_for (cache_manager_of c) (cache rt) q
                 + mixed_prefix_step_reclaimable_slots c (cache rt)
      in if prefix_cache_coordinator c = None then free else min free (mixed_prefix_boundary_limit c q))"

definition rt_decode_step_free_slots :: "'k runtime_config \<Rightarrow> 'k runtime \<Rightarrow> int" where
  "rt_decode_step_free_slots c rt =
     cm_decode_step_free_slots (cache_manager_of c) (cache rt) + mixed_prefix_step_reclaimable_slots c (cache rt)"

definition rt_decode_step_free_slots_for :: "'k runtime_config \<Rightarrow> 'k runtime \<Rightarrow> sequence \<Rightarrow> int" where
  "rt_decode_step_free_slots_for c rt q =
     cm_decode_step_free_slots_for (cache_manager_of c) (cache rt) q + mixed_prefix_step_reclaimable_slots c (cache rt)"

definition rt_step_allocation_budgets :: "'k runtime_config \<Rightarrow> seq_store \<Rightarrow> 'k runtime \<Rightarrow> bool \<Rightarrow>
    (string, int) dict option" where
  "rt_step_allocation_budgets c \<sigma> rt is_prefill =
     (case cm_step_allocation_budgets (cache_manager_of c) (cache rt) of
        None \<Rightarrow> None
      | Some budgets \<Rightarrow> Some (if is_prefill
          then map (\<lambda>(name, free). (name, max 0 (free - dict_get (outstanding_now c \<sigma> rt) name 0))) budgets
          else budgets))"

definition rt_prompt_admission_free_slots :: "'k runtime_config \<Rightarrow> seq_store \<Rightarrow> 'k runtime \<Rightarrow> int" where
  "rt_prompt_admission_free_slots c \<sigma> rt =
     (let cm = cache_manager_of c; k = cache rt; free = cm_prompt_admission_free_slots cm k;
          reserved = outstanding_now c \<sigma> rt;
          free' = (if reserved \<noteq> [] then cm_prefill_capacity_after_decode_reservations cm k free reserved True else free)
      in max 0 (free' + mixed_prefix_admission_reclaimable_slots c k))"

text \<open>Adding reclaimable slots to the one budget that can hold them.\<close>

definition add_extra_slots :: "int \<Rightarrow> (string, int) dict \<Rightarrow> (string, int) dict result" where
  "add_extra_slots extra budgets =
     (if extra \<le> 0 then Inr budgets
      else if map_of budgets ''slots'' \<noteq> None
      then Inr (dict_set ''slots'' (dict_get budgets ''slots'' 0 + extra) budgets)
      else case budgets of
          [(key, v)] \<Rightarrow> Inr [(key, v + extra)]
        | _ \<Rightarrow> Inl RuntimeError)"

definition rt_prompt_admission_budgets :: "'k runtime_config \<Rightarrow> seq_store \<Rightarrow> 'k runtime \<Rightarrow> sequence list \<Rightarrow> int \<Rightarrow>
    (string, int) dict result" where
  "rt_prompt_admission_budgets c \<sigma> rt waiting_seqs chunk =
     (let cm = cache_manager_of c; k = cache rt in
      bindR (add_extra_slots (mixed_prefix_admission_reclaimable_slots c k)
               (cm_prompt_admission_budgets cm k waiting_seqs chunk)) (\<lambda>budgets.
        let reserved = outstanding_now c \<sigma> rt;
            deducted = map (\<lambda>(name, v). (name,
              if name = ''slots'' \<and> reserved \<noteq> []
              then max 0 (cm_prefill_capacity_after_decode_reservations cm k v reserved True)
              else max 0 (v - dict_get reserved name 0))) budgets
        in Inr (dict_set ''resident_seqs''
             (max 0 (max_num_seqs_in_gpu c - int (length (resident_seq_ids rt)))) deducted)))"

definition hit_evictable :: "'k runtime_config \<Rightarrow> 'k \<Rightarrow> sequence \<Rightarrow> int" where
  "hit_evictable c k q = (case prefix_cache_coordinator c of None \<Rightarrow> 0 | Some p \<Rightarrow> prefix_hit_evictable_slots p k q)"

definition rt_prompt_logical_reservation_cost :: "'k runtime_config \<Rightarrow> 'k runtime \<Rightarrow> sequence \<Rightarrow> int" where
  "rt_prompt_logical_reservation_cost c rt q =
     cm_prompt_logical_reservation_cost (cache_manager_of c) (cache rt) q + hit_evictable c (cache rt) q"

definition rt_on_prompt_admitted :: "'k runtime_config \<Rightarrow> (string, int) dict \<Rightarrow> ('k runtime \<times> sequence, unit) eff" where
  "rt_on_prompt_admitted c costs = (\<lambda>(rt, q).
     case cm_on_prompt_admitted (cache_manager_of c) costs (cache rt, q) of
       (Inl e, (k', q')) \<Rightarrow> (Inl e, (rt\<lparr>cache := k'\<rparr>, q'))
     | (Inr u, (k', q')) \<Rightarrow>
         (Inr (), (rt\<lparr>cache := k', resident_seq_ids :=
            (if dict_get costs ''resident_seqs'' 0 > 0 then List.insert (seq_id q) (resident_seq_ids rt)
             else resident_seq_ids rt)\<rparr>, q')))"

definition rt_prompt_admission_costs :: "'k runtime_config \<Rightarrow> 'k runtime \<Rightarrow> sequence \<Rightarrow> (string, int) dict result" where
  "rt_prompt_admission_costs c rt q =
     (let costs = dict_set ''resident_seqs'' (if seq_id q \<in> set (resident_seq_ids rt) then 0 else 1)
            (cm_prompt_admission_costs (cache_manager_of c) (cache rt) q);
          extra = hit_evictable c (cache rt) q
      in if extra \<le> 0 then Inr costs
         else if map_of costs ''slots'' \<noteq> None
         then Inr (dict_set ''slots'' (dict_get costs ''slots'' 0 + extra) costs)
         else case filter (\<lambda>(name, _). name \<noteq> ''resident_seqs'') costs of
             [(key, v)] \<Rightarrow> Inr (dict_set key (v + extra) costs)
           | _ \<Rightarrow> Inl RuntimeError)"

definition rt_prompt_admission_shared_costs :: "'k runtime_config \<Rightarrow> 'k runtime \<Rightarrow> sequence \<Rightarrow>
    (string, (resource_id, int) dict) dict result" where
  "rt_prompt_admission_shared_costs c rt q =
     (let shared = map (\<lambda>(name, resources). (name, map (\<lambda>(r, cost). ((''cache'', r), cost)) resources))
            (cm_prompt_admission_shared_costs (cache_manager_of c) (cache rt) q)
      in case prefix_cache_coordinator c of
           None \<Rightarrow> Inr shared
         | Some p \<Rightarrow>
             let resources = prefix_hit_shared_costs p (cache rt) q in
             if resources = [] then Inr shared
             else bindR (rt_prompt_admission_costs c rt q) (\<lambda>costs.
               let names = filter (\<lambda>name. name \<noteq> ''resident_seqs'') (map fst costs);
                   mixed = map (\<lambda>(r, cost). ((''mixed'', r), cost)) resources;
                   put = (\<lambda>budget. dict_set budget
                     (foldl (\<lambda>d (r, cost). dict_set r cost d) (dict_get shared budget []) mixed) shared)
               in if ''slots'' \<in> set (map fst costs) then Inr (put ''slots'')
                  else case names of [budget] \<Rightarrow> Inr (put budget) | _ \<Rightarrow> Inl RuntimeError))"

definition rt_refresh_prefix_cache_hit :: "'k runtime_config \<Rightarrow> ('k runtime \<times> sequence, unit) eff" where
  "rt_refresh_prefix_cache_hit c = (\<lambda>(rt, q).
     let cm = cache_manager_of c;
         hook = (if multimodal_digest q \<noteq> None then cm_clear_prefix_cache_hit cm
                 else case prefix_cache_coordinator c of
                     Some p \<Rightarrow> side_refresh_prefix_cache_hit p
                   | None \<Rightarrow> cm_refresh_prefix_cache_hit cm)
     in case hook (cache rt, q) of (res, (k', q')) \<Rightarrow> (res, (rt\<lparr>cache := k'\<rparr>, q')))"

definition rt_clear_prefix_cache_hit :: "'k runtime_config \<Rightarrow> ('k runtime \<times> sequence, unit) eff" where
  "rt_clear_prefix_cache_hit c = (\<lambda>(rt, q).
     case cm_clear_prefix_cache_hit (cache_manager_of c) (cache rt, q) of
       (res, (k', q')) \<Rightarrow> (res, (rt\<lparr>cache := k'\<rparr>, q')))"

text \<open>\<open>RuntimeState\<close> as the scheduler sees it.  The clock is read from the platform.\<close>

definition runtime_oracle :: "'k runtime_config \<Rightarrow> ('k runtime, int) eff \<Rightarrow> 'k runtime memory_oracle" where
  "runtime_oracle c clock =
     (let cm = cache_manager_of c in
      \<lparr>monotonic = clock,
       num_free_slots = (\<lambda>_ rt. Inr (cm_num_free_slots cm (cache rt))),
       reserve_decode_windows = rt_reserve_decode_windows c,
       prefill_batched_tokens_margin = (\<lambda>_ rt. Inr (cm_prefill_batched_tokens_margin cm (cache rt))),
       remaining_prefill_tokens = (\<lambda>rt q. Inr (cm_remaining_prefill_tokens cm (cache rt) q)),
       prefill_execution_mode = rt_prefill_execution_mode c,
       prefill_batch_compatibility_key = (\<lambda>rt q. Inr (cm_prefill_batch_compatibility_key cm (cache rt) q)),
       reset_prefill_execution_state = (\<lambda>i rt. (Inr (), rt\<lparr>cache := cm_reset_prefill_execution_state cm i (cache rt)\<rparr>)),
       complete_prefill_execution = (\<lambda>q rt. (Inr (), rt\<lparr>cache := cm_complete_prefill_execution cm q (cache rt)\<rparr>)),
       reserved_prefill_slots = (\<lambda>rt qs n. Inr (cm_reserved_prefill_slots cm (cache rt) qs n)),
       should_schedule_full_prefill = (\<lambda>rt q. Inr (cm_should_schedule_full_prefill cm (cache rt) q)),
       prefill_step_free_slots = (\<lambda>\<sigma> rt. Inr (rt_prefill_step_free_slots c \<sigma> rt)),
       prefill_step_free_slots_for = (\<lambda>rt q. Inr (rt_prefill_step_free_slots_for c rt q)),
       prefill_private_slots_for = (\<lambda>rt q. Inr (cm_prefill_private_slots_for cm (cache rt) q)),
       min_final_prefill_chunk_size = (\<lambda>rt q. Inr (cm_min_final_prefill_chunk_size cm (cache rt) q)),
       prefill_step_reservation_cost = (\<lambda>rt q n. Inr (cm_prefill_step_reservation_cost cm (cache rt) q n)),
       decode_step_free_slots = (\<lambda>_ rt. Inr (rt_decode_step_free_slots c rt)),
       decode_step_free_slots_for = (\<lambda>rt q. Inr (rt_decode_step_free_slots_for c rt q)),
       decode_step_reservation_cost = (\<lambda>rt q. Inr (cm_decode_step_reservation_cost cm (cache rt) q)),
       step_allocation_budgets = (\<lambda>\<sigma> rt p. Inr (rt_step_allocation_budgets c \<sigma> rt p)),
       step_allocation_costs = (\<lambda>rt q n. cm_step_allocation_costs cm (cache rt) q n),
       prompt_admission_free_slots = (\<lambda>\<sigma> rt. Inr (rt_prompt_admission_free_slots c \<sigma> rt)),
       prompt_admission_budgets = rt_prompt_admission_budgets c,
       prompt_admission_costs = rt_prompt_admission_costs c,
       prompt_admission_shared_costs = rt_prompt_admission_shared_costs c,
       prompt_logical_reservation_cost = (\<lambda>rt q. Inr (rt_prompt_logical_reservation_cost c rt q)),
       prompt_admission_failure_action = (\<lambda>_ rt. Inr (cm_prompt_admission_failure_action cm (cache rt))),
       on_prompt_admitted = rt_on_prompt_admitted c,
       prefix_cache_hit_refresher = rt_refresh_prefix_cache_hit c,
       prefix_cache_hits_refresher = None,
       oracle_clear_prefix_cache_hit = rt_clear_prefix_cache_hit c,
       capacity_snapshot = None,
       decode_capacity_reclaimer = None,
       prefill_capacity_reclaimer = None\<rparr>)"

end
