(* ===== verification/Scheduler_Examples.thy ===== *)
theory Scheduler_Examples
  imports Scheduler_Queues Scheduler_Decode Scheduler_Prefill Runtime_State
begin

text \<open>
  The scheduler on a concrete runtime: the default cache manager with sixteen free slots, a fresh
  request \<open>0\<close> with a five-token prompt waiting and a request \<open>1\<close> in decode.
\<close>

definition example_fresh :: sequence where
  "example_fresh = projr (Sequence 0 [3, 1, 4, 1, 5] example_params None 0)"

definition example_store :: seq_store where
  "example_store i = (if i = 0 then example_fresh else example_decoded)"

definition example_runtime_config :: "base_cache runtime_config" where
  "example_runtime_config = \<lparr>cache_manager_of = base_manager, prefix_cache_coordinator = None,
     chain_cache_coordinator = None, runtime_prefill_chunk_size = 4, max_num_seqs_in_gpu = 8\<rparr>"

definition example_runtime :: "base_cache runtime" where
  "example_runtime = \<lparr>cache = \<lparr>free_slots = 16, raw_offload_prefill_phases = []\<rparr>,
     reservations = \<lparr>window = 4, requests = []\<rparr>, resident_seq_ids = [1]\<rparr>"

definition example_oracle :: "base_cache runtime memory_oracle" where
  "example_oracle = runtime_oracle example_runtime_config (\<lambda>rt. (Inr 0, rt))"

definition example_sched_config :: sched_config where
  "example_sched_config = \<lparr>max_num_seqs_in_batch = 4, max_num_batched_tokens = 8, max_decoding_seqs = 4,
     favor_min_decoding_seqs = 0, engine_prefill_chunk_size = 4, scheduler_eos_token_ids = [2]\<rparr>"

definition example_sched :: "int list \<Rightarrow> int list \<Rightarrow> base_cache runtime sched" where
  "example_sched wai dec = \<lparr>waiting = wai, decoding = dec, store = example_store, memory = example_runtime,
     phase = ''prefill'', prefill_wait_since = [], phase_started_at = 0, last_phase_decision = None,
     phase_reason = ''prefill_priority'', admission_defer_warned_seq_ids = {}, total_preemptions = 0,
     total_recompute_replays = 0, async_inflight = 0, l_scheduled = [], l_skipped = [], l_num_seqs = 0,
     l_num_tokens = 0, l_step_free = 0, l_logical_free = 0, l_admission = [], l_allocation = None,
     l_shared = [], l_deferred = None, l_blocked_step = None, l_blocked_capacity = None,
     l_blocked_final = None, l_decode_free = 16, l_victim = None\<rparr>"

lemma example_fresh_fields [simp]:
  "seq_id example_fresh = 0" "num_prompt_tokens example_fresh = 5" "num_tokens example_fresh = 5"
  "num_prefilled_tokens example_fresh = 0" "recompute_replay_cursor example_fresh = None"
  "prefix_cache_hit_len example_fresh = 0" "context_length example_fresh = None"
  "multimodal_full_prefill example_fresh = False" "multimodal_digest example_fresh = None"
  "max_tokens example_fresh = 16" "num_pending_outputs example_fresh = 0"
  by (simp_all add: example_fresh_def Sequence_def example_params_def)

text \<open>The example oracle, field by field, so that its record is never unfolded inside a state.\<close>

lemmas example_unfold = example_oracle_def runtime_oracle_def example_runtime_config_def base_manager_def Let_def
  outstanding_now_def mixed_prefix_step_reclaimable_slots_def mixed_prefix_admission_reclaimable_slots_def
  hit_evictable_def add_extra_slots_def

lemma example_oracle_fields [simp]:
  "monotonic example_oracle rt = (Inr 0, rt)"
  "num_free_slots example_oracle \<sigma> rt = Inr (free_slots (cache rt))"
  "prefill_batched_tokens_margin example_oracle \<sigma> rt = Inr 0"
  "remaining_prefill_tokens example_oracle rt q = Inr (base_remaining_prefill_tokens q)"
  "prefill_batch_compatibility_key example_oracle rt q = Inr (Hashable 0)"
  "reserved_prefill_slots example_oracle rt qs n = Inr (base_reserved_prefill_slots qs n)"
  "should_schedule_full_prefill example_oracle rt q = Inr False"
  "prefill_private_slots_for example_oracle rt q = Inr 0"
  "min_final_prefill_chunk_size example_oracle rt q = Inr 0"
  "prefill_step_reservation_cost example_oracle rt q n = Inr n"
  "decode_step_reservation_cost example_oracle rt q = Inr 1"
  "prefix_cache_hits_refresher example_oracle = None"
  "capacity_snapshot example_oracle = None" "decode_capacity_reclaimer example_oracle = None"
  by (simp_all add: example_unfold)

lemma example_oracle_capacity [simp]:
  "prefill_step_free_slots_for example_oracle rt q = Inr (free_slots (cache rt))"
  "decode_step_free_slots example_oracle \<sigma> rt = Inr (free_slots (cache rt))"
  "decode_step_free_slots_for example_oracle rt q = Inr (free_slots (cache rt))"
  "step_allocation_budgets example_oracle \<sigma> rt p = Inr None"
  "prompt_admission_shared_costs example_oracle rt q = Inr []"
  "prompt_logical_reservation_cost example_oracle rt q = Inr (base_prompt_admission_cost q)"
  "prompt_admission_costs example_oracle rt q = Inr (dict_set ''resident_seqs''
     (if seq_id q \<in> set (resident_seq_ids rt) then 0 else 1) [(''slots'', base_prompt_admission_cost q)])"
  by (simp_all add: example_unfold rt_prefill_step_free_slots_for_def rt_decode_step_free_slots_def
      rt_decode_step_free_slots_for_def rt_step_allocation_budgets_def rt_prompt_admission_shared_costs_def
      rt_prompt_logical_reservation_cost_def rt_prompt_admission_costs_def base_prompt_admission_costs_def)

lemma example_oracle_hooks [simp]:
  "prefill_execution_mode example_oracle q rt = (Inr (if multimodal_full_prefill q then ''full'' else ''chunked''), rt)"
  "prefix_cache_hit_refresher example_oracle (rt, q) = (Inr (), (rt, clear_prefix_cache_hit q))"
  "on_prompt_admitted example_oracle costs (rt, q) = (Inr (), (rt\<lparr>resident_seq_ids :=
     (if dict_get costs ''resident_seqs'' 0 > 0 then List.insert (seq_id q) (resident_seq_ids rt)
      else resident_seq_ids rt)\<rparr>, q))"
  by (simp_all add: example_unfold rt_prefill_execution_mode_def base_prefill_execution_mode_def
      rt_refresh_prefix_cache_hit_def base_clear_prefix_cache_hit_def rt_on_prompt_admitted_def)

lemma example_oracle_reserved [simp]:
  assumes "requests (reservations rt) = []"
  shows "prefill_step_free_slots example_oracle \<sigma> rt = Inr (max 0 (free_slots (cache rt)))"
    "prompt_admission_free_slots example_oracle \<sigma> rt = Inr (max 0 (free_slots (cache rt)))"
    "prompt_admission_budgets example_oracle \<sigma> rt qs n =
       Inr [(''slots'', max 0 (free_slots (cache rt) - base_reserved_prefill_slots qs n)),
            (''resident_seqs'', max 0 (8 - int (length (resident_seq_ids rt))))]"
  using assms
  by (simp_all add: example_unfold rt_prefill_step_free_slots_def rt_prompt_admission_free_slots_def
      rt_prompt_admission_budgets_def base_prompt_admission_budgets_def outstanding_def)

lemma example_reserve [simp]:
  "reserve_decode_windows example_oracle \<sigma> [] wai rt = (Inr None, rt)"
  by (simp add: example_unfold rt_reserve_decode_windows_def)

lemmas run_simps = schedule_def schedule_impl.simps schedule_pass_def schedule_step_def reset_locals_def
  reserve_windows_def decode_affinity_def prefill_or_decode_def read_capacities_def run_prefill_def
  prefill_mode_order_def prefill_candidates_def replay_pending_def prefill_priority_def is_recompute_replay_def
  refresh_prefill_metadata_def is_fresh_def num_completion_tokens_def hookE_def askE_def ask_seqE_def hook_seqE_def
  on_errorE_def decode_full_def prefill_batch_key_def prefill_modeE_def validate_prefill_execution_mode_def
  prefill_bucket_def finallyE_def can_continue_prefill_batch_def pop_next_prefill_seq_def consider_prefill_def
  plan_prefill_def candidate_capacity_def size_chunk_def base_remaining_prefill_tokens_def prefill_step_tokens_def
  prefill_stage_remaining_def max_step_allocation_tokens_def respect_min_final_prefill_chunk_def admit_prompt_def
  base_prompt_admission_cost_def deduct_costs_def set_seqE_def commit_prefill_def charge_step_allocations_def
  charge_shared_def base_reserved_prefill_slots_def partially_prefilled_def clear_prefix_cache_hit_def record_phase_def
  block_prefill_def

lemma example_prefill:
  "\<exists>s'. schedule example_sched_config example_oracle (example_sched [0] []) = (Inr ([0], True, []), s')"
  by (simp add: run_simps eff_simps example_sched_def example_sched_config_def example_store_def example_runtime_def Let_def)

section \<open>The scheduler's properties at work\<close>

theorem schedule_conserves_requests_witness:
  "\<exists>s'. schedule example_sched_config example_oracle (example_sched [0] []) = (Inr ([0], True, []), s') \<and>
    mset (waiting s') + mset (decoding s') = {#}"
proof -
  obtain s' where run: "schedule example_sched_config example_oracle (example_sched [0] []) = (Inr ([0], True, []), s')"
    using example_prefill by blast
  moreover have "mset (waiting s') + mset (decoding s') + {#0#} = {#0#}"
    using schedule_conserves_requests [OF _ run] by (simp add: example_sched_def)
  ultimately show ?thesis by auto
qed

theorem prefill_batch_within_limits_witness:
  "\<exists>s' c. schedule example_sched_config example_oracle (example_sched [0] []) = (Inr ([0], True, []), s') \<and>
    current_chunk_size (store s' 0) = Some c \<and> 0 < c \<and> c \<le> 8"
proof -
  obtain s' where run: "schedule example_sched_config example_oracle (example_sched [0] []) = (Inr ([0], True, []), s')"
    using example_prefill by blast
  moreover obtain c where "current_chunk_size (store s' 0) = Some c" "0 < c" "c \<le> 8"
    using prefill_batch_within_limits [OF _ run]
    by (auto simp: example_sched_def example_sched_config_def opt_or_zero_def)
  ultimately show ?thesis by blast
qed

lemma example_decode_preview:
  "eligible_decode_batch example_sched_config example_oracle (example_sched [0] [1]) = Inr [1]"
  using example_submitted example_decoded_wf(7)
  by (simp add: eligible_decode_batch_def example_sched_def example_sched_config_def example_store_def
      example_runtime_def output_budget_left_def submitted_output_count_def preview_fits_def
      fits_step_def
      max_step_allocation_tokens_def charge_step_allocations_def)

theorem eligible_decode_batch_mirrors_witness:
  "\<exists>s'. decode_loop 1 example_sched_config example_oracle (example_sched [0] [1]) = (Inr (), s') \<and>
    l_scheduled s' = [1]"
proof -
  obtain r s' where loop: "decode_loop 1 example_sched_config example_oracle (example_sched [0] [1]) = (r, s')"
    by fastforce
  have "eligible_decode_batch example_sched_config example_oracle (example_sched [0] [1]) =
      (case (r, s') of (Inl e, _) \<Rightarrow> Inl e | (Inr _, s') \<Rightarrow> Inr (l_scheduled s'))"
    using eligible_decode_batch_mirrors [of example_sched_config example_oracle "example_sched [0] [1]" 16 None] loop
    by (simp add: example_sched_def example_sched_config_def example_runtime_def)
  then show ?thesis using example_decode_preview loop by (cases r) auto
qed

text \<open>An oracle with step allocation budgets: three blocks, and every token of a step costs one.\<close>

definition budget_oracle :: "base_cache runtime memory_oracle" where
  "budget_oracle = example_oracle\<lparr>step_allocation_budgets := (\<lambda>_ _ _. Inr (Some [(''blocks'', 3)])),
     step_allocation_costs := (\<lambda>_ _ n. Inr [(''blocks'', n)])\<rparr>"

lemma budget_oracle_fields [simp]:
  "step_allocation_budgets budget_oracle \<sigma> rt p = Inr (Some [(''blocks'', 3)])"
  "step_allocation_costs budget_oracle rt q n = Inr [(''blocks'', n)]"
  "decode_step_free_slots budget_oracle \<sigma> rt = Inr (free_slots (cache rt))"
  "decode_step_free_slots_for budget_oracle rt q = Inr (free_slots (cache rt))"
  "decode_step_reservation_cost budget_oracle rt q = Inr 1"
  by (simp_all add: budget_oracle_def)

lemma budget_decode_preview:
  "eligible_decode_batch example_sched_config budget_oracle (example_sched [0] [1]) = Inr [1]"
  using example_submitted example_decoded_wf(7)
  by (simp add: eligible_decode_batch_def example_sched_def example_sched_config_def example_store_def
      example_runtime_def output_budget_left_def submitted_output_count_def preview_fits_def fits_step_def
      max_step_allocation_tokens_def allocation_fits_def dict_get_def charge_step_allocations_def)

theorem decode_batch_sound_witness:
  "eligible_decode_batch example_sched_config budget_oracle (example_sched [0] [1]) = Inr [1] \<and>
   batch_cost budget_oracle example_runtime example_store [1] \<le> 16 \<and>
   (\<exists>v. map_of [(''blocks'', 3)] ''blocks'' = Some v \<and>
      step_need budget_oracle example_runtime (example_store 1) ''blocks'' \<le> v)"
  using decode_batch_sound [OF _ _ budget_decode_preview] budget_decode_preview
  by (simp add: example_sched_def example_sched_config_def example_runtime_def dict_costs_def step_uses_def)

end
