(* ===== verification/Runtime_Layout.thy ===== *)
theory Runtime_Layout
  imports Prelude
begin

text \<open>
  \<open>models/layout.py\<close>: \<open>RuntimeLayout\<close>, the map between the layers of a network and the layers of
  its KV cache.
\<close>

record runtime_layout =
  num_layers :: int
  num_kv_layers :: int
  full_attention_layer_indices :: "int list"
  linear_attention_layer_indices :: "int list"
  layer_idx_to_kv_idx :: "int option list"
  kv_idx_to_layer_idx :: "int list"
  kv_num_heads :: "int list"
  kv_head_dims :: "int list"

definition is_full_attention :: "runtime_layout \<Rightarrow> int \<Rightarrow> bool result" where
  "is_full_attention ly i = bindR (py_index (layer_idx_to_kv_idx ly) i) (\<lambda>k. Inr (k \<noteq> None))"

definition is_linear_attention :: "runtime_layout \<Rightarrow> int \<Rightarrow> bool result" where
  "is_linear_attention ly i = bindR (py_index (layer_idx_to_kv_idx ly) i) (\<lambda>k. Inr (k = None))"

definition kv_layer_index :: "runtime_layout \<Rightarrow> int \<Rightarrow> int result" where
  "kv_layer_index ly i =
     bindR (py_index (layer_idx_to_kv_idx ly) i)
       (\<lambda>k. case k of None \<Rightarrow> Inl RuntimeError | Some kv \<Rightarrow> Inr kv)"

end
