(* ===== verification/Recurrent_State.thy ===== *)
theory Recurrent_State
  imports Runtime_Layout Effect_Logic
begin

text \<open>
  \<open>engine/recurrent_state_manager.py\<close>: the preallocated pool of recurrent-state rows of the linear
  attention layers, one row per resident sequence and a scratch row for the padding of static decode
  batches.  A tensor is its shape, dtype and device with the flat list of its elements; a pool buffer
  is the list of its rows.  Sequences are represented by their \<open>seq_id\<close>, the only field the manager
  reads.  The size of a torch dtype, the state of stream capture and the wait for an event are
  parameters.
\<close>

section \<open>Schema\<close>

type_synonym dtype = nat

datatype torch_device = Cpu | Accelerator nat

record tensor_spec =
  ts_name :: string
  ts_shape :: "int list"
  ts_dtype :: dtype

definition RecurrentTensorSpec :: "string \<Rightarrow> int list \<Rightarrow> dtype \<Rightarrow> tensor_spec result" where
  "RecurrentTensorSpec nm sh dt =
     (if nm = [] \<or> sh = [] \<or> (\<exists>d\<in>set sh. d \<le> 0) then Inl ValueError
      else Inr \<lparr>ts_name = nm, ts_shape = sh, ts_dtype = dt\<rparr>)"

definition spec_nbytes :: "(dtype \<Rightarrow> int) \<Rightarrow> tensor_spec \<Rightarrow> int" where
  "spec_nbytes element_size ts = prod_list (ts_shape ts) * element_size (ts_dtype ts)"

record state_spec =
  spec_name :: string
  tensor_specs :: "tensor_spec list"

definition RecurrentStateSpec :: "string \<Rightarrow> tensor_spec list \<Rightarrow> state_spec result" where
  "RecurrentStateSpec nm specs =
     (let names = map ts_name specs in
      if nm = [] \<or> names = [] \<or> [] \<in> set names \<or> \<not> distinct names then Inl ValueError
      else Inr \<lparr>spec_name = nm, tensor_specs = specs\<rparr>)"

definition state_names :: "state_spec \<Rightarrow> string list" where
  "state_names sp = map ts_name (tensor_specs sp)"

definition bytes_per_layer :: "(dtype \<Rightarrow> int) \<Rightarrow> state_spec \<Rightarrow> int" where
  "bytes_per_layer element_size sp = sum_list (map (spec_nbytes element_size) (tensor_specs sp))"

definition bytes_for_layers :: "(dtype \<Rightarrow> int) \<Rightarrow> state_spec \<Rightarrow> int \<Rightarrow> int" where
  "bytes_for_layers element_size sp n = bytes_per_layer element_size sp * n"

record recurrent_capacity =
  rc_row_capacity :: int
  total_rows :: int
  rc_bytes_per_row :: int
  rc_pool_bytes :: int
  supported_active_sequences :: int

section \<open>State\<close>

record 'v tensor =
  t_shape :: "int list"
  t_dtype :: dtype
  t_device :: torch_device
  t_data :: "'v list"

record 'v pool_buffer =
  b_shape :: "int list"
  b_dtype :: dtype
  b_device :: torch_device
  b_rows :: "'v list list"

record 'v recurrent_payload =
  token_count :: int
  layer_states :: "(int, (string, 'v tensor) dict) dict"

record recurrent_config =
  max_num_seqs_in_gpu :: int
  recurrent_state_max_bytes :: "int option"
  prefix_cache_block_size :: int
  recurrent_state_pool_bytes :: int
  recurrent_state_bytes_per_row :: int
  recurrent_state_row_capacity :: int
  prefix_recurrent_bytes_per_block :: int
  recurrent_state_allocator_peak_before_bytes :: int
  recurrent_state_allocator_peak_after_bytes :: int

record 'v recurrent =
  r_config :: recurrent_config
  r_layout :: runtime_layout
  r_spec :: state_spec
  r_device :: torch_device
  row_capacity :: nat
  bytes_per_row :: int
  pool_bytes :: int
  scratch_row :: nat
  seq_id_to_row :: "(int, nat) dict"
  row_to_seq_id :: "int option list"
  free_rows :: "nat list"
  layer_buffers :: "(int, (string, 'v pool_buffer) dict) dict"
  decode_state_indices :: "(int, torch_device \<times> nat list) dict"
  pending_prefix_payloads :: "(int, 'v recurrent_payload \<times> (int, nat) dict) dict"

text \<open>What the manager asks of the device runtime.\<close>

record device_runtime =
  is_stream_capturing :: bool
  wait_event :: "nat \<Rightarrow> unit result"

section \<open>Construction\<close>

definition resolve_capacity ::
  "(dtype \<Rightarrow> int) \<Rightarrow> recurrent_config \<Rightarrow> state_spec \<Rightarrow> int \<Rightarrow> recurrent_capacity result" where
  "resolve_capacity element_size cfg sp n =
     (if n \<le> 0 then Inl ValueError
      else
        let bpr = bytes_for_layers element_size sp n;
            cap = max_num_seqs_in_gpu cfg;
            tot = cap + 1;
            pool = tot * bpr
        in if (case recurrent_state_max_bytes cfg of None \<Rightarrow> False | Some lmt \<Rightarrow> pool > lmt)
           then Inl RuntimeError
           else Inr \<lparr>rc_row_capacity = cap, total_rows = tot, rc_bytes_per_row = bpr,
                      rc_pool_bytes = pool, supported_active_sequences = cap\<rparr>)"

definition zeros :: "int list \<Rightarrow> 'v::zero list" where
  "zeros sh = replicate (prod_list (map nat sh)) 0"

definition new_buffer :: "torch_device \<Rightarrow> nat \<Rightarrow> tensor_spec \<Rightarrow> 'v::zero pool_buffer" where
  "new_buffer dev rows ts =
     \<lparr>b_shape = ts_shape ts, b_dtype = ts_dtype ts, b_device = dev,
      b_rows = replicate rows (zeros (ts_shape ts))\<rparr>"

definition RecurrentStateManager ::
  "(dtype \<Rightarrow> int) \<Rightarrow> recurrent_config \<Rightarrow> runtime_layout \<Rightarrow> torch_device \<Rightarrow> (int \<times> int) option \<Rightarrow>
   state_spec \<Rightarrow> 'v::zero recurrent result" where
  "RecurrentStateManager element_size cfg ly dev platform_peaks sp =
     (let layers = linear_attention_layer_indices ly in
      bindR (resolve_capacity element_size cfg sp (int (length layers))) (\<lambda>cap.
        if rc_row_capacity cap \<le> 0 then Inl ValueError
        else
          let n = nat (rc_row_capacity cap);
              peaks = (case platform_peaks of None \<Rightarrow> (0, 0) | Some p \<Rightarrow> p)
          in Inr
            \<lparr>r_config = cfg\<lparr>recurrent_state_pool_bytes := rc_pool_bytes cap,
                            recurrent_state_bytes_per_row := rc_bytes_per_row cap,
                            recurrent_state_row_capacity := rc_row_capacity cap,
                            prefix_recurrent_bytes_per_block := rc_bytes_per_row cap,
                            recurrent_state_allocator_peak_before_bytes := fst peaks,
                            recurrent_state_allocator_peak_after_bytes := snd peaks\<rparr>,
             r_layout = ly, r_spec = sp, r_device = dev,
             row_capacity = n, bytes_per_row = rc_bytes_per_row cap, pool_bytes = rc_pool_bytes cap,
             scratch_row = n, seq_id_to_row = [], row_to_seq_id = replicate n None,
             free_rows = [0..<n],
             layer_buffers =
               dict_comp (map (\<lambda>l. (l, dict_comp
                 (map (\<lambda>ts. (ts_name ts, new_buffer dev (nat (total_rows cap)) ts)) (tensor_specs sp))))
                 layers),
             decode_state_indices = [], pending_prefix_payloads = []\<rparr>))"

section \<open>Rows\<close>

definition map_rows :: "(int list \<Rightarrow> 'v list list \<Rightarrow> 'v list list) \<Rightarrow> 'v recurrent \<Rightarrow> 'v recurrent" where
  "map_rows f s = s\<lparr>layer_buffers := map (\<lambda>(l, bs). (l, map (\<lambda>(n, b).
     (n, b\<lparr>b_rows := f (b_shape b) (b_rows b)\<rparr>)) bs)) (layer_buffers s)\<rparr>"

definition allocate_row :: "int \<Rightarrow> ('v::zero recurrent, nat) eff" where
  "allocate_row sid s =
     (case map_of (seq_id_to_row s) sid of
        Some r \<Rightarrow> (Inr r, s)
      | None \<Rightarrow>
          (case free_rows s of
             [] \<Rightarrow> (Inl RuntimeError, s)
           | r # rest \<Rightarrow>
               (Inr r,
                map_rows (\<lambda>sh rows. rows[r := zeros sh])
                  (s\<lparr>free_rows := rest, seq_id_to_row := dict_set sid r (seq_id_to_row s),
                     row_to_seq_id := (row_to_seq_id s)[r := Some sid]\<rparr>))))"

definition ensure_buffer :: "'v recurrent \<Rightarrow> int \<Rightarrow> string \<Rightarrow> 'v tensor \<Rightarrow> 'v pool_buffer result" where
  "ensure_buffer s l nm val =
     (case map_of (layer_buffers s) l of
        None \<Rightarrow> Inl RuntimeError
      | Some bs \<Rightarrow>
          (case map_of bs nm of
             None \<Rightarrow> Inl RuntimeError
           | Some b \<Rightarrow>
               if (length (b_rows b), b_shape b) \<noteq> (row_capacity s + 1, t_shape val) then Inl RuntimeError
               else if b_dtype b \<noteq> t_dtype val \<or> b_device b \<noteq> t_device val then Inl RuntimeError
               else Inr b))"

definition prepare_step :: "int list \<Rightarrow> ('v::zero recurrent, unit) eff" where
  "prepare_step sids = forE sids (\<lambda>sid. bindE (allocate_row sid) (\<lambda>_. retE ()))"

definition row_of :: "'v recurrent \<Rightarrow> int \<Rightarrow> nat result" where
  "row_of s sid = (case map_of (seq_id_to_row s) sid of None \<Rightarrow> Inl KeyError | Some r \<Rightarrow> Inr r)"

definition prepare_decode_static :: "int list \<Rightarrow> int \<Rightarrow> torch_device \<Rightarrow> ('v::zero recurrent, unit) eff" where
  "prepare_decode_static sids tb dev =
     thenE (prepare_step sids)
       (if tb < int (length sids) then raiseE RuntimeError
        else bindE (queryE (\<lambda>s. mapR (row_of s) sids)) (\<lambda>rows.
          bindE (getE (\<lambda>s. (rows @ replicate (nat tb - length sids) (scratch_row s),
                             map_of (decode_state_indices s) tb))) (\<lambda>(idx, cur).
            if (case cur of None \<Rightarrow> False | Some (d, _) \<Rightarrow> d \<noteq> dev) then raiseE RuntimeError
            else modifyE (\<lambda>s. s\<lparr>decode_state_indices :=
                   dict_set tb (dev, idx) (decode_state_indices s)\<rparr>))))"

definition free_seq :: "int \<Rightarrow> ('v recurrent, unit) eff" where
  "free_seq sid s =
     (let s1 = s\<lparr>pending_prefix_payloads := dict_pop sid (pending_prefix_payloads s)\<rparr>;
          s2 = s1\<lparr>seq_id_to_row := dict_pop sid (seq_id_to_row s)\<rparr>
      in case map_of (seq_id_to_row s) sid of
           None \<Rightarrow> (Inr (), s2)
         | Some r \<Rightarrow>
             if r \<ge> length (row_to_seq_id s) then (Inl IndexError, s2)
             else if row_to_seq_id s ! r \<noteq> Some sid then (Inl RuntimeError, s2)
             else (Inr (), s2\<lparr>row_to_seq_id := (row_to_seq_id s)[r := None],
                              free_rows := free_rows s @ [r]\<rparr>))"

definition reset_after_warmup :: "('v::zero recurrent, unit) eff" where
  "reset_after_warmup =
     modifyE (\<lambda>s. map_rows (\<lambda>sh rows. map (\<lambda>_. zeros sh) rows)
       (s\<lparr>pending_prefix_payloads := [], seq_id_to_row := [],
          row_to_seq_id := replicate (row_capacity s) None, free_rows := [0..<row_capacity s]\<rparr>))"

section \<open>Layer states\<close>

definition row_tensor :: "nat \<Rightarrow> 'v pool_buffer \<Rightarrow> 'v tensor" where
  "row_tensor r b = \<lparr>t_shape = b_shape b, t_dtype = b_dtype b, t_device = b_device b, t_data = b_rows b ! r\<rparr>"

definition write_row :: "int \<Rightarrow> string \<Rightarrow> nat \<Rightarrow> 'v list \<Rightarrow> 'v recurrent \<Rightarrow> 'v recurrent" where
  "write_row l nm r xs s =
     s\<lparr>layer_buffers := map (\<lambda>(l', bs). (l', if l' = l then map (\<lambda>(n, b).
         (n, if n = nm then b\<lparr>b_rows := (b_rows b)[r := xs]\<rparr> else b)) bs else bs)) (layer_buffers s)\<rparr>"

definition copy_states :: "int \<Rightarrow> nat \<Rightarrow> (string, 'v tensor) dict \<Rightarrow> ('v recurrent, unit) eff" where
  "copy_states l r states =
     forE states (\<lambda>(nm, val).
       bindE (queryE (\<lambda>s. ensure_buffer s l nm val)) (\<lambda>_. modifyE (write_row l nm r (t_data val))))"

definition set_layer_state :: "int \<Rightarrow> int \<Rightarrow> (string, 'v::zero tensor) dict \<Rightarrow> ('v recurrent, unit) eff" where
  "set_layer_state sid l states =
     bindE (queryE (\<lambda>s. is_linear_attention (r_layout s) l)) (\<lambda>lin.
       if \<not> lin then raiseE RuntimeError
       else bindE (getE (\<lambda>s. state_names (r_spec s))) (\<lambda>names.
         if (\<exists>nm\<in>set names. nm \<notin> fst ` set states) \<or> (\<exists>nm\<in>fst ` set states. nm \<notin> set names)
         then raiseE RuntimeError
         else bindE (allocate_row sid) (\<lambda>r. copy_states l r states)))"

text \<open>
  The readiness event is taken out of the pending entry before the checks, so an entry whose
  materialisation raised no longer has it.
\<close>

definition materialize_pending_prefix_layer ::
  "device_runtime \<Rightarrow> int \<Rightarrow> int \<Rightarrow> ('v::zero recurrent, unit) eff" where
  "materialize_pending_prefix_layer rt sid l s =
     (case map_of (pending_prefix_payloads s) sid of
        None \<Rightarrow> (Inr (), s)
      | Some (payload, events) \<Rightarrow>
          (case map_of (layer_states payload) l of
             None \<Rightarrow> (Inr (), s)
           | Some state \<Rightarrow>
               (case map_of events l of
                  None \<Rightarrow> (Inl RuntimeError, s)
                | Some ev \<Rightarrow>
                    let events' = dict_pop l events;
                        s1 = s\<lparr>pending_prefix_payloads :=
                               dict_set sid (payload, events') (pending_prefix_payloads s)\<rparr>
                    in if is_stream_capturing rt then (Inl RuntimeError, s1)
                       else thenE (liftE (wait_event rt ev))
                              (thenE (set_layer_state sid l state)
                                (modifyE (\<lambda>t. if events' = [] then
                                   t\<lparr>pending_prefix_payloads := dict_pop sid (pending_prefix_payloads t)\<rparr>
                                   else t))) s1)))"

text \<open>
  \<open>layer_view\<close> is the read of \<open>get_layer_state\<close> after its first line: the rows as they are, without the
  materialisation of a deferred payload, which \<open>get_layer_state\<close> does first.
\<close>

definition layer_view :: "'v recurrent \<Rightarrow> int \<Rightarrow> int \<Rightarrow> (string, 'v tensor) dict option" where
  "layer_view s sid l =
     (case (map_of (seq_id_to_row s) sid, map_of (layer_buffers s) l) of
        (Some r, Some bs) \<Rightarrow> if bs = [] then None else Some (map (\<lambda>(n, b). (n, row_tensor r b)) bs)
      | _ \<Rightarrow> None)"

definition get_layer_state ::
  "device_runtime \<Rightarrow> int \<Rightarrow> int \<Rightarrow> ('v::zero recurrent, (string, 'v tensor) dict option) eff" where
  "get_layer_state rt sid l =
     thenE (materialize_pending_prefix_layer rt sid l) (getE (\<lambda>s. layer_view s sid l))"

definition activation_state_name :: "state_spec \<Rightarrow> string option" where
  "activation_state_name sp =
     (if ''conv_state'' \<in> set (state_names sp) then Some ''conv_state''
      else if card (set (map ts_dtype (tensor_specs sp))) = 1 then Some (hd (state_names sp))
      else None)"

definition decode_rows :: "'v recurrent \<Rightarrow> int list \<Rightarrow> nat list result" where
  "decode_rows s sids =
     mapR (\<lambda>sid. case map_of (seq_id_to_row s) sid of None \<Rightarrow> Inl RuntimeError | Some r \<Rightarrow> Inr r) sids"

text \<open>The checks of the pool against the schema, up to the activation dtype.\<close>

definition spec_dtypes :: "state_spec \<Rightarrow> (string, dtype) dict" where
  "spec_dtypes sp = dict_comp (map (\<lambda>t. (ts_name t, ts_dtype t)) (tensor_specs sp))"

definition pool_matches_schema :: "'v recurrent \<Rightarrow> int \<Rightarrow> torch_device \<Rightarrow> bool" where
  "pool_matches_schema s l dev \<longleftrightarrow>
     (\<forall>nm\<in>set (state_names (r_spec s)).
        case map_of (layer_buffers s) l of
          None \<Rightarrow> False
        | Some bs \<Rightarrow>
            (case map_of bs nm of
               None \<Rightarrow> False
             | Some b \<Rightarrow> map_of (spec_dtypes (r_spec s)) nm = Some (b_dtype b) \<and> b_device b = dev))"

definition activation_matches :: "state_spec \<Rightarrow> dtype \<Rightarrow> bool" where
  "activation_matches sp dt \<longleftrightarrow>
     (case activation_state_name sp of
        None \<Rightarrow> True
      | Some nm \<Rightarrow> map_of (spec_dtypes sp) nm = Some dt)"

definition zero_scratch :: "int \<Rightarrow> 'v::zero recurrent \<Rightarrow> 'v recurrent" where
  "zero_scratch l s =
     s\<lparr>layer_buffers := map (\<lambda>(l', bs). (l', if l' = l then map (\<lambda>(n, b).
         (n, if n \<in> set (state_names (r_spec s))
             then b\<lparr>b_rows := (b_rows b)[scratch_row s := zeros (b_shape b)]\<rparr> else b)) bs else bs))
       (layer_buffers s)\<rparr>"

definition get_decode_layer_state ::
  "device_runtime \<Rightarrow> int list \<Rightarrow> int \<Rightarrow> int \<Rightarrow> dtype \<Rightarrow> torch_device \<Rightarrow>
   ('v::zero recurrent, (string, 'v pool_buffer) dict \<times> nat list) eff" where
  "get_decode_layer_state rt sids l tb dt dev =
     thenE (forE sids (\<lambda>sid. materialize_pending_prefix_layer rt sid l))
       (if tb < int (length sids) then raiseE RuntimeError
        else bindE (getE (\<lambda>s. pool_matches_schema s l dev \<and> activation_matches (r_spec s) dt)) (\<lambda>ok.
          if \<not> ok then raiseE RuntimeError
          else bindE (queryE (\<lambda>s. decode_rows s sids)) (\<lambda>rows.
            thenE (modifyE (zero_scratch l)) (\<lambda>s.
              case map_of (decode_state_indices s) tb of
                None \<Rightarrow> (Inl RuntimeError, s)
              | Some (d, idx) \<Rightarrow>
                  if d = Cpu \<and> idx \<noteq> rows @ replicate (nat tb - length sids) (scratch_row s)
                  then (Inl RuntimeError, s)
                  else (Inr (map (\<lambda>nm. (nm, the (map_of (the (map_of (layer_buffers s) l)) nm)))
                               (state_names (r_spec s)), idx), s)))))"

section \<open>Prefix snapshots\<close>

definition off_boundary :: "'v recurrent \<Rightarrow> int \<Rightarrow> bool" where
  "off_boundary s tc \<longleftrightarrow>
     prefix_cache_block_size (r_config s) > 0 \<and> tc mod prefix_cache_block_size (r_config s) \<noteq> 0"

text \<open>The comprehension over the pool, skipping the layers that are not linear.\<close>

fun snapshot_layers ::
  "runtime_layout \<Rightarrow> nat \<Rightarrow> (int, (string, 'v pool_buffer) dict) dict \<Rightarrow>
   (int, (string, 'v tensor) dict) dict result" where
  "snapshot_layers ly r [] = Inr []"
| "snapshot_layers ly r ((l, bs) # rest) =
     bindR (is_linear_attention ly l) (\<lambda>lin.
       bindR (snapshot_layers ly r rest) (\<lambda>tl.
         Inr (if lin then (l, map (\<lambda>(n, b). (n, row_tensor r b)) bs) # tl else tl)))"

definition build_prefix_recurrent_payload :: "int \<Rightarrow> int \<Rightarrow> ('v recurrent, 'v recurrent_payload) eff" where
  "build_prefix_recurrent_payload sid tc s =
     (if tc \<le> 0 then (Inl ValueError, s)
      else if off_boundary s tc then (Inl ValueError, s)
      else case map_of (seq_id_to_row s) sid of
             None \<Rightarrow> (Inl RuntimeError, s)
           | Some r \<Rightarrow>
               (bindR (snapshot_layers (r_layout s) r (layer_buffers s))
                  (\<lambda>ls. Inr \<lparr>token_count = tc, layer_states = ls\<rparr>), s))"

definition attach_prefix_recurrent_payload ::
  "int \<Rightarrow> 'v::zero recurrent_payload option \<Rightarrow> (int, nat) dict option \<Rightarrow> ('v recurrent, unit) eff" where
  "attach_prefix_recurrent_payload sid payload readiness_events =
     (case payload of
        None \<Rightarrow> retE ()
      | Some p \<Rightarrow>
          if token_count p \<le> 0 then raiseE RuntimeError
          else bindE (getE (\<lambda>s. off_boundary s (token_count p))) (\<lambda>offb.
            if offb then raiseE RuntimeError
            else (case readiness_events of
               Some evs \<Rightarrow>
                 if fst ` set evs \<noteq> fst ` set (layer_states p) then raiseE RuntimeError
                 else bindE (allocate_row sid) (\<lambda>_.
                   modifyE (\<lambda>s. s\<lparr>pending_prefix_payloads :=
                     dict_set sid (p, evs) (pending_prefix_payloads s)\<rparr>))
             | None \<Rightarrow> forE (layer_states p) (\<lambda>(l, state). set_layer_state sid l state))))"

definition prefix_recurrent_snapshot_nbytes :: "'v recurrent \<Rightarrow> int" where
  "prefix_recurrent_snapshot_nbytes s = bytes_per_row s"

definition prefix_recurrent_payload_nbytes ::
  "(dtype \<Rightarrow> int) \<Rightarrow> 'v recurrent_payload option \<Rightarrow> int" where
  "prefix_recurrent_payload_nbytes element_size payload =
     (case payload of
        None \<Rightarrow> 0
      | Some p \<Rightarrow> sum_list (map (\<lambda>(l, state). sum_list (map (\<lambda>(n, t).
          prod_list (t_shape t) * element_size (t_dtype t)) state)) (layer_states p)))"

section \<open>Geometry, cells and ownership\<close>

text \<open>
  \<open>geom\<close> is what never changes of the pool after construction: which layers and tensors it has, their
  shapes, dtypes, devices and row counts.  \<open>cell s l n r\<close> is the content of row \<open>r\<close> of tensor \<open>n\<close> of
  layer \<open>l\<close>.
\<close>

type_synonym buffer_geom = "string \<times> int list \<times> dtype \<times> torch_device \<times> nat"

definition buffer_geom :: "string \<times> 'v pool_buffer \<Rightarrow> buffer_geom" where
  "buffer_geom p = (fst p, b_shape (snd p), b_dtype (snd p), b_device (snd p), length (b_rows (snd p)))"

definition geom :: "'v recurrent \<Rightarrow> (int, buffer_geom list) dict" where
  "geom s = map (\<lambda>(l, bs). (l, map buffer_geom bs)) (layer_buffers s)"

definition cell :: "'v recurrent \<Rightarrow> int \<Rightarrow> string \<Rightarrow> nat \<Rightarrow> 'v list option" where
  "cell s l n r =
     (case map_of (layer_buffers s) l of
        None \<Rightarrow> None
      | Some bs \<Rightarrow> map_option (\<lambda>b. b_rows b ! r) (map_of bs n))"

definition static :: "'v recurrent \<Rightarrow>
    recurrent_config \<times> runtime_layout \<times> state_spec \<times> nat \<times> nat \<times> (int, buffer_geom list) dict" where
  "static s = (r_config s, r_layout s, r_spec s, row_capacity s, scratch_row s, geom s)"

text \<open>
  Every resident sequence owns one row, no two share one, and the free list is exactly the unowned
  rows, each once.
\<close>

definition own_inv :: "'v recurrent \<Rightarrow> bool" where
  "own_inv s \<longleftrightarrow>
     length (row_to_seq_id s) = row_capacity s \<and> distinct (free_rows s) \<and>
     (\<forall>r. r \<in> set (free_rows s) \<longleftrightarrow> r < row_capacity s \<and> row_to_seq_id s ! r = None) \<and>
     (\<forall>sid r. map_of (seq_id_to_row s) sid = Some r \<longleftrightarrow>
        r < row_capacity s \<and> row_to_seq_id s ! r = Some sid)"

definition pool_inv :: "'v recurrent \<Rightarrow> bool" where
  "pool_inv s \<longleftrightarrow>
     scratch_row s = row_capacity s \<and> state_names (r_spec s) \<noteq> [] \<and> distinct (state_names (r_spec s)) \<and>
     distinct (map fst (geom s)) \<and>
     (\<forall>(l, g)\<in>set (geom s).
        map fst g = state_names (r_spec s) \<and> is_linear_attention (r_layout s) l = Inr True \<and>
        (\<forall>(n, sh, dt, dev, k)\<in>set g. k = row_capacity s + 1))"

lemma pool_inv_static: "static s = static t \<Longrightarrow> pool_inv s = pool_inv t"
  by (simp add: static_def pool_inv_def)

lemma map_of_map_key: "map_of (map (\<lambda>(k, v). (k, f k v)) xs) k = map_option (f k) (map_of xs k)"
  by (induction xs) auto

lemma map_of_geom: "map_of (geom s) l = map_option (map buffer_geom) (map_of (layer_buffers s) l)"
  by (simp add: geom_def map_of_map)

lemma map_of_buffer_geom:
  "map_of (map buffer_geom bs) n =
     map_option (\<lambda>b. (b_shape b, b_dtype b, b_device b, length (b_rows b))) (map_of bs n)"
  by (induction bs) (auto simp: buffer_geom_def)

lemma fst_buffer_geom [simp]: "fst (buffer_geom p) = fst p"
  by (simp add: buffer_geom_def)

lemma map_of_pick:
  assumes "distinct (map fst xs)" and "(k, v) \<in> set xs"
  shows "map_of xs k = Some v"
  using assms by simp

text \<open>The writes of the manager: whole rows everywhere, or one row of one tensor.\<close>

lemma static_updates [simp]:
  "static (s\<lparr>seq_id_to_row := x1\<rparr>) = static s" "static (s\<lparr>row_to_seq_id := x2\<rparr>) = static s"
  "static (s\<lparr>free_rows := x3\<rparr>) = static s" "static (s\<lparr>decode_state_indices := x4\<rparr>) = static s"
  "static (s\<lparr>pending_prefix_payloads := x5\<rparr>) = static s"
  by (simp_all add: static_def geom_def)

lemma cell_updates [simp]:
  "cell (s\<lparr>seq_id_to_row := x1\<rparr>) = cell s" "cell (s\<lparr>row_to_seq_id := x2\<rparr>) = cell s"
  "cell (s\<lparr>free_rows := x3\<rparr>) = cell s" "cell (s\<lparr>decode_state_indices := x4\<rparr>) = cell s"
  "cell (s\<lparr>pending_prefix_payloads := x5\<rparr>) = cell s"
  by (simp_all add: cell_def fun_eq_iff)

lemma own_updates [simp]:
  "own_inv (s\<lparr>layer_buffers := x1\<rparr>) = own_inv s" "own_inv (s\<lparr>decode_state_indices := x2\<rparr>) = own_inv s"
  "own_inv (s\<lparr>pending_prefix_payloads := x3\<rparr>) = own_inv s"
  by (simp_all add: own_inv_def)

lemma map_rows_sel [simp]:
  "seq_id_to_row (map_rows f s) = seq_id_to_row s" "row_to_seq_id (map_rows f s) = row_to_seq_id s"
  "free_rows (map_rows f s) = free_rows s" "row_capacity (map_rows f s) = row_capacity s"
  "pending_prefix_payloads (map_rows f s) = pending_prefix_payloads s"
  "own_inv (map_rows f s) = own_inv s"
  by (simp_all add: map_rows_def)

lemma write_row_sel [simp]:
  "seq_id_to_row (write_row l n r xs s) = seq_id_to_row s" "row_to_seq_id (write_row l n r xs s) = row_to_seq_id s"
  "free_rows (write_row l n r xs s) = free_rows s" "row_capacity (write_row l n r xs s) = row_capacity s"
  "pending_prefix_payloads (write_row l n r xs s) = pending_prefix_payloads s"
  "own_inv (write_row l n r xs s) = own_inv s"
  by (simp_all add: write_row_def)

lemma zero_scratch_sel [simp]:
  "seq_id_to_row (zero_scratch l s) = seq_id_to_row s"
  "decode_state_indices (zero_scratch l s) = decode_state_indices s"
  "scratch_row (zero_scratch l s) = scratch_row s" "own_inv (zero_scratch l s) = own_inv s"
  by (simp_all add: zero_scratch_def)

lemma static_map_rows [simp]:
  assumes "\<And>sh rows. length (f sh rows) = length rows"
  shows "static (map_rows f s) = static s"
  using assms by (auto simp: static_def geom_def map_rows_def buffer_geom_def)

lemma static_write_row [simp]: "static (write_row l n r xs s) = static s"
  by (auto simp: static_def geom_def write_row_def buffer_geom_def)

lemma static_zero_scratch [simp]: "static (zero_scratch l s) = static s"
  by (auto simp: static_def geom_def zero_scratch_def buffer_geom_def)

definition has_row :: "'v recurrent \<Rightarrow> int \<Rightarrow> string \<Rightarrow> nat \<Rightarrow> bool" where
  "has_row s l n r \<longleftrightarrow>
     (\<exists>bs b. map_of (layer_buffers s) l = Some bs \<and> map_of bs n = Some b \<and> r < length (b_rows b))"

lemma has_row_static:
  fixes s t :: "'v recurrent"
  shows "static s = static t \<Longrightarrow> has_row s l n r = has_row t l n r"
proof -
  have "has_row s l n r \<longleftrightarrow> (\<exists>g sh dt dev k. map_of (geom s) l = Some g \<and> map_of g n = Some (sh, dt, dev, k) \<and> r < k)"
    for s :: "'v recurrent"
    by (force simp: has_row_def map_of_geom map_of_buffer_geom)
  then show "static s = static t \<Longrightarrow> ?thesis" by (simp add: static_def)
qed

lemma cell_map_rows_other: "r' \<noteq> r \<Longrightarrow> cell (map_rows (\<lambda>sh rows. rows[r := g sh]) s) l n r' = cell s l n r'"
  by (auto simp: cell_def map_rows_def map_of_map option.map_comp comp_def cong: option.case_cong)

lemma cell_write_row:
  "cell (write_row l n r xs s) l' n' r' =
     (if l' = l \<and> n' = n \<and> r' = r \<and> has_row s l n r then Some xs else cell s l' n' r')"
  by (auto simp: cell_def write_row_def has_row_def map_of_map_key map_option_case not_less
      list_update_beyond split: option.splits)

lemma cell_zero_scratch: "r \<noteq> scratch_row s \<Longrightarrow> cell (zero_scratch l s) l' n r = cell s l' n r"
  by (auto simp: cell_def zero_scratch_def map_of_map_key map_option_case split: option.splits)

lemma pool_inv_entry:
  assumes "pool_inv s" and "map_of (geom s) l = Some g"
  shows "map fst g = state_names (r_spec s)" "is_linear_attention (r_layout s) l = Inr True"
    "(n, sh, dt, dev, k) \<in> set g \<Longrightarrow> k = row_capacity s + 1"
    "(n, x) \<in> set g \<Longrightarrow> n \<in> set (state_names (r_spec s))"
proof -
  have "(l, g) \<in> set (geom s)" using assms(2) by (rule map_of_SomeD)
  with assms(1) have "map fst g = state_names (r_spec s) \<and> is_linear_attention (r_layout s) l = Inr True \<and>
    (\<forall>(n, sh, dt, dev, k)\<in>set g. k = row_capacity s + 1)"
    unfolding pool_inv_def by blast
  then show "map fst g = state_names (r_spec s)" "is_linear_attention (r_layout s) l = Inr True"
    "(n, sh, dt, dev, k) \<in> set g \<Longrightarrow> k = row_capacity s + 1"
    by auto
  then show "(n, x) \<in> set g \<Longrightarrow> n \<in> set (state_names (r_spec s))"
    by (metis image_eqI fst_conv list.set_map)
qed

lemma pool_inv_has_row:
  assumes "pool_inv s" and "l \<in> fst ` set (layer_buffers s)" and "n \<in> set (state_names (r_spec s))"
    and "r \<le> row_capacity s"
  shows "has_row s l n r"
proof -
  from assms(2) obtain bs where bs: "map_of (layer_buffers s) l = Some bs"
    by (metis map_of_eq_None_iff option.exhaust)
  then have "map_of (geom s) l = Some (map buffer_geom bs)" by (simp add: map_of_geom)
  note g = pool_inv_entry [OF assms(1) this]
  then have "map fst bs = state_names (r_spec s)" by (simp add: comp_def)
  with assms(3) have "n \<in> fst ` set bs" by (metis list.set_map)
  then obtain b where b: "map_of bs n = Some b"
    by (metis map_of_eq_None_iff option.exhaust)
  then have "(n, b) \<in> set bs" by (rule map_of_SomeD)
  then have "(n, b_shape b, b_dtype b, b_device b, length (b_rows b)) \<in> set (map buffer_geom bs)"
    by (force simp: buffer_geom_def)
  then have "length (b_rows b) = row_capacity s + 1" by (rule g(3))
  with bs b assms(4) show ?thesis by (auto simp: has_row_def)
qed

text \<open>A layer view is determined by the geometry, the owner's row and the cells of that row.\<close>

lemma layer_view_geom:
  assumes "pool_inv s"
  shows "layer_view s sid l =
    (case (map_of (seq_id_to_row s) sid, map_of (geom s) l) of
       (Some r, Some g) \<Rightarrow> Some (map (\<lambda>(n, sh, dt, dev, k).
          (n, \<lparr>t_shape = sh, t_dtype = dt, t_device = dev, t_data = the (cell s l n r)\<rparr>)) g)
     | _ \<Rightarrow> None)"
proof (cases "map_of (layer_buffers s) l")
  case None
  then show ?thesis by (simp add: layer_view_def map_of_geom split: option.splits)
next
  case (Some bs)
  then have g: "map_of (geom s) l = Some (map buffer_geom bs)" by (simp add: map_of_geom)
  with assms have nm: "map fst bs = state_names (r_spec s)"
    using pool_inv_entry(1) by (fastforce simp: comp_def)
  with assms have d: "distinct (map fst bs)" and ne: "bs \<noteq> []" by (auto simp: pool_inv_def)
  have "cell s l n r = Some (b_rows b ! r)" if "(n, b) \<in> set bs" for n b r
    using Some map_of_pick [OF d that] by (simp add: cell_def)
  with Some g ne show ?thesis
    by (auto simp: layer_view_def row_tensor_def buffer_geom_def split: option.splits)
qed

lemma layer_view_cong:
  assumes "pool_inv s" and "static t = static s"
    and "map_of (seq_id_to_row t) sid' = Some r'" and "map_of (seq_id_to_row s) sid = Some r"
    and "\<And>n. n \<in> set (state_names (r_spec s)) \<Longrightarrow> cell t l n r' = cell s l n r"
  shows "layer_view t sid' l = layer_view s sid l"
proof -
  have "pool_inv t" using assms(1,2) pool_inv_static by blast
  moreover have "geom t = geom s" using assms(2) by (simp add: static_def)
  moreover have "n \<in> set (state_names (r_spec s))" if "map_of (geom s) l = Some g" "(n, x) \<in> set g" for g n x
    using pool_inv_entry(4) [OF assms(1) that(1)] that(2) by blast
  ultimately show ?thesis
    using assms by (auto simp: layer_view_geom split: option.splits)
qed

section \<open>Every operation keeps ownership and geometry\<close>

definition good :: "recurrent_config \<times> runtime_layout \<times> state_spec \<times> nat \<times> nat \<times> (int, buffer_geom list) dict \<Rightarrow>
    'v recurrent \<Rightarrow> bool" where
  "good k s \<longleftrightarrow> own_inv s \<and> static s = k"

lemma own_invD:
  assumes "own_inv s"
  shows "length (row_to_seq_id s) = row_capacity s" "distinct (free_rows s)"
    "r \<in> set (free_rows s) \<longleftrightarrow> r < row_capacity s \<and> row_to_seq_id s ! r = None"
    "map_of (seq_id_to_row s) sid = Some r \<longleftrightarrow> r < row_capacity s \<and> row_to_seq_id s ! r = Some sid"
  using assms by (auto simp: own_inv_def)

lemma own_inv_allocate:
  assumes "own_inv s" and "map_of (seq_id_to_row s) sid = None" and "free_rows s = r # rest"
  shows "own_inv (s\<lparr>free_rows := rest, seq_id_to_row := dict_set sid r (seq_id_to_row s),
                    row_to_seq_id := (row_to_seq_id s)[r := Some sid]\<rparr>)"
proof -
  note inv = own_invD [OF assms(1)]
  have r: "r < row_capacity s" "row_to_seq_id s ! r = None" "r \<notin> set rest" "distinct rest"
    using inv(2) inv(3) [of r] assms(3) by auto
  have rest: "q \<in> set rest \<longleftrightarrow> q \<noteq> r \<and> q < row_capacity s \<and> row_to_seq_id s ! q = None" for q
    using inv(3) [of q] assms(3) r(3) by auto
  have "row_to_seq_id s ! q \<noteq> Some sid" if "q < row_capacity s" for q
    using inv(4) [of sid q] assms(2) that by simp
  then show ?thesis
    using r rest inv(1) inv(4) by (auto simp: own_inv_def update_conv' nth_list_update)
qed

lemma keeps_allocate_row [inv_intro]: "keeps (good k) (allocate_row sid)"
  by (auto simp: keeps_def good_def allocate_row_def own_inv_allocate split: option.splits list.splits)

lemma own_inv_free:
  assumes "own_inv s" and "map_of (seq_id_to_row s) sid = Some r"
  shows "own_inv (s\<lparr>seq_id_to_row := dict_pop sid (seq_id_to_row s), row_to_seq_id := (row_to_seq_id s)[r := None],
                    free_rows := free_rows s @ [r]\<rparr>)"
proof -
  note len = own_invD(1) [OF assms(1)] and dist = own_invD(2) [OF assms(1)]
    and free = own_invD(3) [OF assms(1)] and own = own_invD(4) [OF assms(1)]
  have r: "r < row_capacity s" "row_to_seq_id s ! r = Some sid" using own assms(2) by blast+
  have only: "q = r" if "q < row_capacity s" "row_to_seq_id s ! q = Some sid" for q
    using own [of sid q] that assms(2) by simp
  have 1: "distinct (free_rows s @ [r])" using dist free [of r] r by simp
  have 2: "q \<in> set (free_rows s @ [r]) \<longleftrightarrow> q < row_capacity s \<and> (row_to_seq_id s)[r := None] ! q = None" for q
    using free [of q] r len by (auto simp: nth_list_update)
  have 3: "map_of (dict_pop sid (seq_id_to_row s)) i = Some q \<longleftrightarrow>
      q < row_capacity s \<and> (row_to_seq_id s)[r := None] ! q = Some i" for i q
  proof (cases "i = sid")
    case True
    have "(row_to_seq_id s)[r := None] ! q \<noteq> Some sid" if "q < row_capacity s"
      using that only [OF that] r(1) len by (cases "q = r") auto
    with True show ?thesis by (auto simp: delete_conv')
  next
    case False
    have "(row_to_seq_id s)[r := None] ! q = Some i \<longleftrightarrow> row_to_seq_id s ! q = Some i"
      using False r len by (cases "q = r") simp_all
    with False own [of i q] show ?thesis by (simp add: delete_conv')
  qed
  show ?thesis unfolding own_inv_def
    by (intro conjI allI) (use 1 2 3 len in \<open>simp_all\<close>)
qed

lemma free_seq_eq:
  assumes "own_inv s" and "map_of (seq_id_to_row s) sid = Some r"
  shows "free_seq sid s =
    (Inr (), s\<lparr>seq_id_to_row := dict_pop sid (seq_id_to_row s), row_to_seq_id := (row_to_seq_id s)[r := None],
               free_rows := free_rows s @ [r], pending_prefix_payloads := dict_pop sid (pending_prefix_payloads s)\<rparr>)"
  using own_invD(1) [OF assms(1)] own_invD(4) [OF assms(1), of sid r] assms(2)
  by (simp add: free_seq_def Let_def)

lemma keeps_free_seq [inv_intro]: "keeps (good k) (free_seq sid :: ('v recurrent, unit) eff)"
proof -
  have "good k (snd (free_seq sid s))" if inv: "good k s" for s :: "'v recurrent"
  proof (cases "map_of (seq_id_to_row s) sid")
    case None
    then have "dict_pop sid (seq_id_to_row s) = seq_id_to_row s"
      by (simp add: map_of_eq_None_iff delete_id)
    with None that show ?thesis by (simp add: free_seq_def Let_def good_def own_inv_def)
  next
    case (Some r)
    have own: "own_inv s" and k: "static s = k" using inv by (simp_all add: good_def)
    show ?thesis
      unfolding free_seq_eq [OF own Some] good_def snd_conv own_updates(3)
      using own_inv_free [OF own Some] k by simp
  qed
  then show ?thesis by (simp add: keeps_def)
qed

lemma keeps_query [inv_intro]: "keeps I (queryE q)"
  by (simp add: keeps_def eff_simps)

lemma keeps_modify [inv_intro]: "(\<And>s. I s \<Longrightarrow> I (f s)) \<Longrightarrow> keeps I (modifyE f)"
  by (simp add: keeps_def eff_simps)

lemma keeps_prepare_step [inv_intro]: "keeps (good k) (prepare_step sids)"
  unfolding prepare_step_def by (intro inv_intro)

lemma keeps_prepare_decode_static [inv_intro]: "keeps (good k) (prepare_decode_static sids tb dev)"
  unfolding prepare_decode_static_def
  by (auto intro!: inv_intro split: option.splits simp: good_def)

lemma keeps_reset [inv_intro]: "keeps (good k) reset_after_warmup"
  unfolding reset_after_warmup_def
  by (intro inv_intro) (auto simp: good_def own_inv_def)

lemma keeps_set_layer_state [inv_intro]: "keeps (good k) (set_layer_state sid l states)"
  unfolding set_layer_state_def copy_states_def
  by (auto intro!: inv_intro simp: good_def)

lemma keeps_good_pending:
  "good k s \<Longrightarrow> good k (s\<lparr>pending_prefix_payloads := x\<rparr>)"
  by (simp add: good_def)

lemma keeps_materialize [inv_intro]: "keeps (good k) (materialize_pending_prefix_layer rt sid l)"
proof -
  have m: "keeps (good k) (thenE (liftE w) (thenE (set_layer_state sid l state) (modifyE (\<lambda>t. if b then
      t\<lparr>pending_prefix_payloads := dict_pop sid (pending_prefix_payloads t)\<rparr> else t))))" for w state b
    by (intro inv_intro) (simp add: good_def)
  show ?thesis
    unfolding keeps_def materialize_pending_prefix_layer_def Let_def
    by (auto intro!: keepsD [OF m keeps_good_pending surjective_pairing] keeps_good_pending
        split: option.splits)
qed

lemma keeps_get_layer_state [inv_intro]: "keeps (good k) (get_layer_state rt sid l)"
  unfolding get_layer_state_def by (intro inv_intro)

lemma keeps_get_decode_layer_state [inv_intro]: "keeps (good k) (get_decode_layer_state rt sids l tb dt dev)"
proof -
  have tail: "keeps (good k) (\<lambda>s. case map_of (decode_state_indices s) tb of
                None \<Rightarrow> (Inl RuntimeError, s)
              | Some (d, idx) \<Rightarrow>
                  if d = Cpu \<and> idx \<noteq> rows @ replicate (nat tb - length sids) (scratch_row s)
                  then (Inl RuntimeError, s)
                  else (Inr (map (\<lambda>nm. (nm, the (map_of (the (map_of (layer_buffers s) l)) nm)))
                               (state_names (r_spec s)), idx), s))" for rows
    by (auto simp: keeps_def split: option.splits)
  show ?thesis
    unfolding get_decode_layer_state_def
    by (auto intro!: inv_intro tail simp: good_def)
qed

lemma keeps_build [inv_intro]: "keeps (good k) (build_prefix_recurrent_payload sid tc)"
  by (auto simp: keeps_def build_prefix_recurrent_payload_def split: option.splits)

lemma keeps_attach [inv_intro]: "keeps (good k) (attach_prefix_recurrent_payload sid p evs)"
  unfolding attach_prefix_recurrent_payload_def
  by (auto intro!: inv_intro simp: good_def split: option.splits)

section \<open>Reachable managers\<close>

definition recurrent_init :: "'v::zero recurrent \<Rightarrow> bool" where
  "recurrent_init s \<longleftrightarrow>
     (\<exists>element_size cfg ly dev peaks nm specs sp.
        RecurrentStateSpec nm specs = Inr sp \<and>
        (\<forall>l\<in>set (linear_attention_layer_indices ly). is_linear_attention ly l = Inr True) \<and>
        RecurrentStateManager element_size cfg ly dev peaks sp = Inr s)"

inductive recurrent_step :: "'v::zero recurrent \<Rightarrow> 'v recurrent \<Rightarrow> bool" where
  "recurrent_step s (snd (prepare_step sids s))"
| "recurrent_step s (snd (prepare_decode_static sids tb dev s))"
| "recurrent_step s (snd (free_seq sid s))"
| "recurrent_step s (snd (reset_after_warmup s))"
| "recurrent_step s (snd (set_layer_state sid l states s))"
| "recurrent_step s (snd (get_layer_state rt sid l s))"
| "recurrent_step s (snd (get_decode_layer_state rt sids l tb dt dev s))"
| "recurrent_step s (snd (build_prefix_recurrent_payload sid tc s))"
| "recurrent_step s (snd (attach_prefix_recurrent_payload sid payload evs s))"

lemma recurrent_init_ok:
  assumes "recurrent_init s"
  shows "own_inv s \<and> pool_inv s"
proof -
  from assms obtain element_size cfg ly dev peaks nm specs sp cap where
    sp: "RecurrentStateSpec nm specs = Inr sp" and
    lin: "\<forall>l\<in>set (linear_attention_layer_indices ly). is_linear_attention ly l = Inr True" and
    mgr: "RecurrentStateManager element_size cfg ly dev peaks sp = Inr s" and
    cap: "resolve_capacity element_size cfg sp (int (length (linear_attention_layer_indices ly))) = Inr cap"
    by (auto simp: recurrent_init_def RecurrentStateManager_def Let_def bindR_eq_Inr)
  have names: "state_names sp \<noteq> []" "distinct (state_names sp)"
    using sp by (auto simp: RecurrentStateSpec_def state_names_def Let_def split: if_splits)
  have tot: "total_rows cap = rc_row_capacity cap + 1"
    using cap by (auto simp: resolve_capacity_def Let_def split: if_splits)
  let ?ps = "map (\<lambda>ts. (ts_name ts, new_buffer dev (nat (total_rows cap)) ts :: 'a pool_buffer)) (tensor_specs sp)"
  have ps: "dict_comp ?ps = ?ps" "map fst ?ps = state_names sp"
    using names(2) by (auto simp: state_names_def comp_def intro!: dict_comp_distinct)
  have s: "layer_buffers s = dict_comp (map (\<lambda>l. (l, ?ps)) (linear_attention_layer_indices ly))"
      "row_capacity s = nat (rc_row_capacity cap)" "scratch_row s = row_capacity s" "r_spec s = sp"
      "r_layout s = ly" "seq_id_to_row s = []" "row_to_seq_id s = replicate (row_capacity s) None"
      "free_rows s = [0..<row_capacity s]" "rc_row_capacity cap > 0"
    using mgr cap ps(1)
    by (auto simp: RecurrentStateManager_def Let_def split: if_splits)
  have g: "map fst g = state_names sp \<and> l \<in> set (linear_attention_layer_indices ly) \<and>
      (\<forall>(n, sh, dt, dev, k)\<in>set g. k = row_capacity s + 1)" if "(l, g) \<in> set (geom s)" for l g
  proof -
    from that obtain bs where "(l, bs) \<in> set (layer_buffers s)" "g = map buffer_geom bs"
      by (auto simp: geom_def)
    moreover from this(1) have "l \<in> set (linear_attention_layer_indices ly)" "bs = ?ps"
      using set_dict_comp [of "map (\<lambda>l. (l, ?ps)) (linear_attention_layer_indices ly)"] s(1) by auto
    ultimately show ?thesis
      using ps(2) s(2,9) tot by (auto simp: comp_def buffer_geom_def new_buffer_def state_names_def)
  qed
  have "distinct (map fst (geom s))"
    using distinct_dict_comp [of "map (\<lambda>l. (l, ?ps)) (linear_attention_layer_indices ly)"]
    by (simp add: geom_def s(1) comp_def case_prod_beta)
  then have "pool_inv s"
    unfolding pool_inv_def using g lin names s(3-5) by fastforce
  moreover have "own_inv s" by (auto simp: own_inv_def s(6-8))
  ultimately show ?thesis by simp
qed

lemma keeps_good_run:
  assumes "\<And>k. keeps (good k) m" and "own_inv s"
  shows "own_inv (snd (m s)) \<and> static (snd (m s)) = static s"
  using assms(1) [of "static s"] assms(2) by (simp add: keeps_def good_def)

lemma recurrent_step_good: "recurrent_step s t \<Longrightarrow> own_inv s \<Longrightarrow> own_inv t \<and> static t = static s"
  by (induction rule: recurrent_step.induct; rule keeps_good_run; (rule inv_intro | assumption))

lemma recurrent_steps_good: "recurrent_step\<^sup>*\<^sup>* s t \<Longrightarrow> own_inv s \<Longrightarrow> own_inv t \<and> static t = static s"
  by (induction rule: rtranclp_induct) (use recurrent_step_good in \<open>auto\<close>)

lemma recurrent_reachable_ok:
  "recurrent_init s0 \<Longrightarrow> recurrent_step\<^sup>*\<^sup>* s0 s \<Longrightarrow> own_inv s \<and> pool_inv s \<and> static s = static s0"
  using recurrent_init_ok recurrent_steps_good pool_inv_static by blast

end
