(* ===== verification/Recurrent_Snapshots.thy ===== *)
theory Recurrent_Snapshots
  imports Recurrent_State
begin

text \<open>
  What the recurrent-state manager promises: rows are owned once, a sequence sees exactly the states
  written for it, a prefix snapshot restores them at any later time, and the padding of a static decode
  batch never touches a live row.
\<close>

section \<open>Writing layer states\<close>

lemma alist_repr: "distinct (map fst xs) \<Longrightarrow> map (\<lambda>k. (k, the (map_of xs k))) (map fst xs) = xs"
  by (auto simp: comp_def intro!: map_idI)

lemma alist_eqI: "map fst xs = map fst ys \<Longrightarrow> distinct (map fst xs) \<Longrightarrow> map_of xs = map_of ys \<Longrightarrow> xs = ys"
  using alist_repr [of xs] alist_repr [of ys] by simp

lemma ensure_buffer_geom:
  "ensure_buffer s l n t = Inr b \<Longrightarrow>
     \<exists>g. map_of (geom s) l = Some g \<and> map_of g n = Some (t_shape t, t_dtype t, t_device t, row_capacity s + 1)"
  by (auto simp: ensure_buffer_def map_of_geom map_of_buffer_geom split: option.splits if_splits)

lemma ensure_buffer_ok:
  assumes "map_of (geom s) l = Some g"
    and "map_of g n = Some (t_shape t, t_dtype t, t_device t, row_capacity s + 1)"
  shows "\<exists>b. ensure_buffer s l n t = Inr b"
  using assms by (auto simp: ensure_buffer_def map_of_geom map_of_buffer_geom)

lemma copy_states_Nil: "copy_states l r [] s = (Inr (), s)"
  by (simp add: copy_states_def eff_simps)

lemma copy_states_Cons:
  "copy_states l r ((n, t) # states) s =
     (case ensure_buffer s l n t of
        Inl e \<Rightarrow> (Inl e, s)
      | Inr _ \<Rightarrow> copy_states l r states (write_row l n r (t_data t) s))"
  by (simp add: copy_states_def eff_simps split: sum.splits)

lemma copy_states_frame:
  "copy_states l r states s = (out, s') \<Longrightarrow>
     static s' = static s \<and> seq_id_to_row s' = seq_id_to_row s \<and> free_rows s' = free_rows s \<and>
     pending_prefix_payloads s' = pending_prefix_payloads s \<and>
     (\<forall>l' n r'. l' \<noteq> l \<or> r' \<noteq> r \<or> n \<notin> fst ` set states \<longrightarrow> cell s' l' n r' = cell s l' n r')"
proof (induction states arbitrary: s)
  case Nil
  then show ?case by (simp add: copy_states_Nil)
next
  case (Cons p states)
  obtain n t where p: "p = (n, t)" by fastforce
  show ?case
  proof (cases "ensure_buffer s l n t")
    case (Inl e)
    with Cons.prems show ?thesis by (simp add: p copy_states_Cons)
  next
    case (Inr b)
    with Cons.prems have "copy_states l r states (write_row l n r (t_data t) s) = (out, s')"
      by (simp add: p copy_states_Cons)
    from Cons.IH [OF this] show ?thesis by (auto simp: p cell_write_row)
  qed
qed

lemma copy_states_done:
  "copy_states l r states s = (Inr (), s') \<Longrightarrow> distinct (map fst states) \<Longrightarrow>
   (\<And>n. n \<in> fst ` set states \<Longrightarrow> has_row s l n r) \<Longrightarrow> (n, t) \<in> set states \<Longrightarrow>
     cell s' l n r = Some (t_data t) \<and>
     (\<exists>g. map_of (geom s) l = Some g \<and> map_of g n = Some (t_shape t, t_dtype t, t_device t, row_capacity s + 1))"
proof (induction states arbitrary: s)
  case (Cons p states)
  obtain m u where p: "p = (m, u)" by fastforce
  let ?s = "write_row l m r (t_data u) s"
  from Cons.prems(1) obtain b where ens: "ensure_buffer s l m u = Inr b"
    and run: "copy_states l r states ?s = (Inr (), s')"
    by (auto simp: p copy_states_Cons split: sum.splits)
  have rows: "n \<in> fst ` set states \<Longrightarrow> has_row ?s l n r" for n
    using Cons.prems(3) has_row_static [OF static_write_row, of l m r "t_data u" s] by (simp add: p)
  show ?case
  proof (cases "(n, t) = (m, u)")
    case True
    then have "n \<notin> fst ` set states" using Cons.prems(2) by (auto simp: p)
    then have "cell s' l n r = cell ?s l n r" using copy_states_frame [OF run] by blast
    moreover have "has_row s l n r" using Cons.prems(3) True by (auto simp: p)
    ultimately show ?thesis using True ensure_buffer_geom [OF ens] by (simp add: cell_write_row)
  next
    case False
    then have "(n, t) \<in> set states" using Cons.prems(4) by (auto simp: p)
    from Cons.IH [OF run _ rows this] Cons.prems(2) have
      "cell s' l n r = Some (t_data t) \<and> (\<exists>g. map_of (geom ?s) l = Some g \<and>
        map_of g n = Some (t_shape t, t_dtype t, t_device t, row_capacity ?s + 1))"
      by (simp add: p)
    moreover have "geom ?s = geom s" using static_write_row [of l m r "t_data u" s] by (simp add: static_def)
    ultimately show ?thesis by simp
  qed
qed simp

lemma copy_states_total:
  assumes "map_of (geom s) l = Some g"
    and "\<And>n t. (n, t) \<in> set states \<Longrightarrow> map_of g n = Some (t_shape t, t_dtype t, t_device t, row_capacity s + 1)"
  shows "\<exists>s'. copy_states l r states s = (Inr (), s')"
  using assms
proof (induction states arbitrary: s)
  case Nil
  then show ?case by (simp add: copy_states_Nil)
next
  case (Cons p states)
  obtain n t where p: "p = (n, t)" by fastforce
  obtain b where b: "ensure_buffer s l n t = Inr b"
    using ensure_buffer_ok [OF Cons.prems(1)] Cons.prems(2) p by (metis list.set_intros(1))
  let ?s = "write_row l n r (t_data t) s"
  have "geom ?s = geom s" using static_write_row [of l n r "t_data t" s] by (simp add: static_def)
  then have "\<exists>s'. copy_states l r states ?s = (Inr (), s')"
    using Cons.IH [of ?s] Cons.prems by simp
  then show ?case by (simp add: p copy_states_Cons b)
qed

text \<open>Allocation: a resident sequence keeps its row, a new one gets a row nobody owns.\<close>

lemma allocate_row_run:
  assumes "own_inv s" and "allocate_row sid s = (Inr r, s')"
  shows "own_inv s' \<and> static s' = static s \<and> map_of (seq_id_to_row s') = (map_of (seq_id_to_row s))(sid \<mapsto> r) \<and>
     r < row_capacity s \<and> pending_prefix_payloads s' = pending_prefix_payloads s \<and>
     (\<forall>l n r'. r' \<noteq> r \<longrightarrow> cell s' l n r' = cell s l n r') \<and>
     (map_of (seq_id_to_row s) sid \<noteq> None \<longrightarrow> s' = s) \<and>
     (\<forall>sid'. sid' \<noteq> sid \<longrightarrow> map_of (seq_id_to_row s) sid' \<noteq> Some r)"
proof (cases "map_of (seq_id_to_row s) sid")
  case (Some q)
  with assms(2) have [simp]: "q = r" "s' = s" by (simp_all add: allocate_row_def)
  have "r < row_capacity s \<and> row_to_seq_id s ! r = Some sid" using own_invD(4) [OF assms(1)] Some by simp
  moreover have "map_of (seq_id_to_row s) sid' \<noteq> Some r" if "sid' \<noteq> sid" for sid'
    using own_invD(4) [OF assms(1), of sid' r] that calculation by auto
  ultimately show ?thesis using Some assms(1) by auto
next
  case None
  with assms(2) obtain rest where fr: "free_rows s = r # rest"
    and s': "s' = map_rows (\<lambda>sh rows. rows[r := zeros sh])
               (s\<lparr>free_rows := rest, seq_id_to_row := dict_set sid r (seq_id_to_row s),
                  row_to_seq_id := (row_to_seq_id s)[r := Some sid]\<rparr>)"
    by (auto simp: allocate_row_def split: list.splits)
  have r: "r < row_capacity s" "row_to_seq_id s ! r = None"
    using own_invD(3) [OF assms(1), of r] fr by auto
  have "map_of (seq_id_to_row s) sid' \<noteq> Some r" for sid'
    using own_invD(4) [OF assms(1), of sid' r] r by simp
  with r None own_inv_allocate [OF assms(1) None fr] show ?thesis
    by (simp add: s' cell_map_rows_other update_conv')
qed

lemma allocate_row_total:
  "map_of (seq_id_to_row s) sid \<noteq> None \<or> free_rows s \<noteq> [] \<Longrightarrow> \<exists>r s'. allocate_row sid s = (Inr r, s')"
  by (auto simp: allocate_row_def split: option.splits list.splits)

lemma set_layer_state_run:
  assumes "set_layer_state sid l states s = (Inr (), s')"
  obtains r s1 where "allocate_row sid s = (Inr r, s1)" "copy_states l r states s1 = (Inr (), s')"
    "fst ` set states = set (state_names (r_spec s))"
  using assms
  by (auto simp: set_layer_state_def eff_simps split: if_splits sum.splits prod.splits)

text \<open>A successful write is what the owner reads; nobody else notices.\<close>

lemma set_layer_state_frame:
  assumes "own_inv s" and "pool_inv s" and "set_layer_state sid l states s = (Inr (), s')"
  shows "own_inv s' \<and> static s' = static s \<and> pending_prefix_payloads s' = pending_prefix_payloads s \<and>
    map_of (seq_id_to_row s') sid \<noteq> None \<and>
    (\<forall>sid' l'. sid' \<noteq> sid \<or> (l' \<noteq> l \<and> map_of (seq_id_to_row s) sid \<noteq> None) \<longrightarrow>
       layer_view s' sid' l' = layer_view s sid' l')"
proof -
  obtain r s1 where alloc: "allocate_row sid s = (Inr r, s1)"
    and copy: "copy_states l r states s1 = (Inr (), s')"
    and "fst ` set states = set (state_names (r_spec s))"
    using set_layer_state_run [OF assms(3)] by blast
  note A = allocate_row_run [OF assms(1) alloc]
  note F = copy_states_frame [OF copy]
  have own': "own_inv s'" and st: "static s' = static s"
    using keeps_good_run [where m="set_layer_state sid l states" and s=s, OF keeps_set_layer_state assms(1)]
      assms(3) by auto
  have "layer_view s' sid' l' = layer_view s sid' l'"
    if "sid' \<noteq> sid \<or> (l' \<noteq> l \<and> map_of (seq_id_to_row s) sid \<noteq> None)" for sid' l'
  proof (cases "map_of (seq_id_to_row s) sid'")
    case None
    then have "map_of (seq_id_to_row s') sid' = None" using that A F by auto
    with None show ?thesis by (simp add: layer_view_def)
  next
    case (Some q)
    then have row': "map_of (seq_id_to_row s') sid' = Some q"
      using that A F by (cases "sid' = sid") auto
    have "cell s' l' n q = cell s l' n q" for n
    proof (cases "sid' = sid")
      case True
      with that have "l' \<noteq> l" "s1 = s" using A by auto
      with F show ?thesis by simp
    next
      case False
      then have "q \<noteq> r" using A Some by auto
      with A F show ?thesis by simp
    qed
    then show ?thesis using layer_view_cong [OF assms(2) st row' Some] by simp
  qed
  with own' st A F show ?thesis by simp
qed

lemma copy_states_layer:
  assumes "copy_states l r states s = (Inr (), s')" and "states \<noteq> []"
  shows "\<exists>g. map_of (geom s) l = Some g"
proof (cases states)
  case (Cons p xs)
  obtain n u where "p = (n, u)" by fastforce
  with Cons assms(1) show ?thesis
    using ensure_buffer_geom [of s l n u] by (auto simp: copy_states_Cons split: sum.splits)
qed (use assms(2) in simp)

lemma map_of_view:
  "map_of (map (\<lambda>(n, sh, dt, dev, k). (n, \<lparr>t_shape = sh, t_dtype = dt, t_device = dev, t_data = d n\<rparr>)) g) n =
     map_option (\<lambda>(sh, dt, dev, k). \<lparr>t_shape = sh, t_dtype = dt, t_device = dev, t_data = d n\<rparr>) (map_of g n)"
  by (induction g) auto

lemma set_layer_state_view:
  assumes "own_inv s" and "pool_inv s" and "distinct (map fst states)"
    and "set_layer_state sid l states s = (Inr (), s')"
  shows "\<exists>view. layer_view s' sid l = Some view \<and> map fst view = state_names (r_spec s) \<and> map_of view = map_of states"
proof -
  obtain r s1 where alloc: "allocate_row sid s = (Inr r, s1)"
    and copy: "copy_states l r states s1 = (Inr (), s')"
    and keys: "fst ` set states = set (state_names (r_spec s))"
    using set_layer_state_run [OF assms(4)] by blast
  note A = allocate_row_run [OF assms(1) alloc]
  note F = copy_states_frame [OF copy]
  have st: "static s' = static s" "static s1 = static s" using A F by simp_all
  then have pool: "pool_inv s'" "pool_inv s1" using assms(2) pool_inv_static by blast+
  have geom: "geom s' = geom s" "geom s1 = geom s" "r_spec s1 = r_spec s" "row_capacity s1 = row_capacity s"
    using st by (simp_all add: static_def)
  have "states \<noteq> []" using keys assms(2) by (auto simp: pool_inv_def)
  then obtain g where g: "map_of (geom s) l = Some g" using copy_states_layer [OF copy] geom by auto
  then have "l \<in> fst ` set (layer_buffers s1)"
    using geom(2) map_of_geom [of s1 l] by (metis map_of_eq_None_iff option.map_disc_iff option.distinct(1))
  then have has: "has_row s1 l n r" if "n \<in> fst ` set states" for n
    using pool_inv_has_row [OF pool(2)] that keys geom A by auto
  have tensor: "cell s' l n r = Some (t_data t) \<and> map_of g n = Some (t_shape t, t_dtype t, t_device t, row_capacity s + 1)"
    if "(n, t) \<in> set states" for n t
    using copy_states_done [OF copy assms(3) has that] g geom by simp
  define view where "view = map (\<lambda>(n, sh, dt, dev, k).
      (n, \<lparr>t_shape = sh, t_dtype = dt, t_device = dev, t_data = the (cell s' l n r)\<rparr>)) g"
  have view: "layer_view s' sid l = Some view"
    using A F g by (simp add: layer_view_geom [OF pool(1)] geom view_def)
  have vnames: "map fst view = state_names (r_spec s)"
    using pool_inv_entry(1) [OF assms(2) g] by (simp add: view_def comp_def case_prod_beta)
  have "map_of view n = map_of states n" for n
  proof (cases "map_of states n")
    case None
    then have "n \<notin> fst ` set view" using keys vnames by (metis list.set_map map_of_eq_None_iff)
    with None show ?thesis by (metis map_of_eq_None_iff)
  next
    case (Some t)
    with tensor [OF map_of_SomeD [OF Some]] show ?thesis by (simp add: view_def map_of_view)
  qed
  with view vnames show ?thesis by blast
qed

section \<open>Snapshots\<close>

text \<open>The layer states a snapshot holds: for every layer of the pool, the owner's view.\<close>

lemma snapshot_layers_linear:
  "(\<And>l bs. (l, bs) \<in> set bufs \<Longrightarrow> is_linear_attention ly l = Inr True) \<Longrightarrow>
   snapshot_layers ly r bufs = Inr (map (\<lambda>(l, bs). (l, map (\<lambda>(n, b). (n, row_tensor r b)) bs)) bufs)"
proof (induction bufs)
  case (Cons x bufs)
  obtain l bs where x: "x = (l, bs)" by fastforce
  have "is_linear_attention ly l = Inr True" using Cons.prems [of l bs] by (simp add: x)
  moreover have "snapshot_layers ly r bufs = Inr (map (\<lambda>(l, bs). (l, map (\<lambda>(n, b). (n, row_tensor r b)) bs)) bufs)"
    by (rule Cons.IH) (use Cons.prems in auto)
  ultimately show ?case by (simp add: x)
qed simp

lemma build_cases:
  assumes "build_prefix_recurrent_payload sid tc s = (Inr p, s1)"
  shows "s1 = s" "tc > 0" "\<not> off_boundary s tc"
    "\<exists>r. map_of (seq_id_to_row s) sid = Some r \<and>
       bindR (snapshot_layers (r_layout s) r (layer_buffers s)) (\<lambda>ls. Inr \<lparr>token_count = tc, layer_states = ls\<rparr>) = Inr p"
  using assms unfolding build_prefix_recurrent_payload_def
  by (auto split: if_split_asm option.split_asm)

lemma build_run:
  assumes "pool_inv s" and "build_prefix_recurrent_payload sid tc s = (Inr p, s1)"
  shows "s1 = s \<and> token_count p = tc \<and> tc > 0 \<and> \<not> off_boundary s tc \<and> map_of (seq_id_to_row s) sid \<noteq> None \<and>
    map fst (layer_states p) = map fst (geom s) \<and> (\<forall>l. map_of (layer_states p) l = layer_view s sid l)"
proof -
  from assms(2) obtain r where r: "map_of (seq_id_to_row s) sid = Some r"
    and p: "bindR (snapshot_layers (r_layout s) r (layer_buffers s)) (\<lambda>ls. Inr \<lparr>token_count = tc, layer_states = ls\<rparr>) = Inr p"
    using build_cases(4) by blast
  note rest = build_cases(1-3) [OF assms(2)]
  have gb: "map_of (geom s) l = Some (map buffer_geom bs)" if "(l, bs) \<in> set (layer_buffers s)" for l bs
  proof (rule map_of_pick)
    show "distinct (map fst (geom s))" using assms(1) by (simp add: pool_inv_def)
    show "(l, map buffer_geom bs) \<in> set (geom s)" using that by (force simp: geom_def)
  qed
  then have "is_linear_attention (r_layout s) l = Inr True" if "(l, bs) \<in> set (layer_buffers s)" for l bs
    using pool_inv_entry(2) [OF assms(1)] that by blast
  then have "snapshot_layers (r_layout s) r (layer_buffers s) =
      Inr (map (\<lambda>(l, bs). (l, map (\<lambda>(n, b). (n, row_tensor r b)) bs)) (layer_buffers s))"
    by (intro snapshot_layers_linear) blast
  with p have
    p': "p = \<lparr>token_count = tc, layer_states = map (\<lambda>(l, bs). (l, map (\<lambda>(n, b). (n, row_tensor r b)) bs)) (layer_buffers s)\<rparr>"
    by simp
  have "bs \<noteq> []" if "map_of (layer_buffers s) l = Some bs" for l bs
    using pool_inv_entry(1) [OF assms(1), of l "map buffer_geom bs"] that assms(1)
    by (auto simp: map_of_geom pool_inv_def)
  then have "map_of (layer_states p) l = layer_view s sid l" for l
    by (auto simp: p' r layer_view_def map_of_map split: option.splits)
  moreover have "map fst (layer_states p) = map fst (geom s)"
    by (simp add: p' geom_def comp_def case_prod_beta)
  ultimately show ?thesis using r rest p' by simp
qed

text \<open>A view of one manager can be written into any manager of the same geometry with a row to give.\<close>

lemma set_view_total:
  assumes "own_inv t" and "pool_inv s" and "static t = static s" and "layer_view s src l = Some view"
    and "map_of (seq_id_to_row t) dst \<noteq> None \<or> free_rows t \<noteq> []"
  shows "\<exists>t'. set_layer_state dst l view t = (Inr (), t') \<and> layer_view t' dst l = Some view"
proof -
  have pool: "pool_inv t" using assms(2,3) pool_inv_static by blast
  have geom: "geom t = geom s" "r_spec t = r_spec s" "r_layout t = r_layout s" "row_capacity t = row_capacity s"
    using assms(3) by (simp_all add: static_def)
  from assms(2,4) obtain r g where g: "map_of (geom s) l = Some g"
    and view: "view = map (\<lambda>(n, sh, dt, dev, k).
      (n, \<lparr>t_shape = sh, t_dtype = dt, t_device = dev, t_data = the (cell s l n r)\<rparr>)) g"
    by (auto simp: layer_view_geom split: option.splits)
  have names: "map fst view = state_names (r_spec s)" "distinct (map fst view)"
    using pool_inv_entry(1) [OF assms(2) g] assms(2)
    by (simp_all add: view comp_def case_prod_beta pool_inv_def)
  obtain q t1 where alloc: "allocate_row dst t = (Inr q, t1)" using allocate_row_total [OF assms(5)] by blast
  have t1: "geom t1 = geom s" "row_capacity t1 = row_capacity s"
    using allocate_row_run [OF assms(1) alloc] assms(3) by (simp_all add: static_def)
  have "distinct (map fst g)" using pool_inv_entry(1) [OF assms(2) g] assms(2) by (simp add: pool_inv_def)
  then have "map_of g n = Some (t_shape u, t_dtype u, t_device u, row_capacity s + 1)"
    if "(n, u) \<in> set view" for n u
    using that pool_inv_entry(3) [OF assms(2) g] by (force simp: view)
  then obtain t' where copy: "copy_states l q view t1 = (Inr (), t')"
    using copy_states_total [of t1 l g view q] g t1 by auto
  have "fst ` set view = set (state_names (r_spec s))" using names(1) by (metis list.set_map)
  then have run: "set_layer_state dst l view t = (Inr (), t')"
    using pool_inv_entry(2) [OF assms(2) g] alloc copy geom
    by (auto simp: set_layer_state_def eff_simps)
  from set_layer_state_view [OF assms(1) pool names(2) run] obtain v where
    v: "layer_view t' dst l = Some v" "map fst v = state_names (r_spec t)" "map_of v = map_of view" by blast
  then have "v = view" using names geom by (metis alist_eqI)
  with run v show ?thesis by blast
qed

lemma attach_loop:
  assumes "pool_inv s" and "own_inv t" and "static t = static s"
    and "map_of (seq_id_to_row t) dst \<noteq> None \<or> free_rows t \<noteq> []"
    and "distinct (map fst xs)" and "\<And>l view. (l, view) \<in> set xs \<Longrightarrow> layer_view s src l = Some view"
  shows "\<exists>t'. forE xs (\<lambda>(l, state). set_layer_state dst l state) t = (Inr (), t') \<and>
    (\<forall>l\<in>fst ` set xs. layer_view t' dst l = layer_view s src l) \<and>
    (\<forall>l. l \<notin> fst ` set xs \<longrightarrow> map_of (seq_id_to_row t) dst \<noteq> None \<longrightarrow> layer_view t' dst l = layer_view t dst l) \<and>
    (\<forall>sid l. sid \<noteq> dst \<longrightarrow> layer_view t' sid l = layer_view t sid l) \<and> static t' = static t \<and>
    pending_prefix_payloads t' = pending_prefix_payloads t"
  using assms(2-)
proof (induction xs arbitrary: t)
  case Nil
  then show ?case by (simp add: eff_simps)
next
  case (Cons x xs)
  obtain l view where x: "x = (l, view)" by fastforce
  have lv: "layer_view s src l = Some view" using Cons.prems(5) x by simp
  have pool: "pool_inv t" using assms(1) Cons.prems(2) pool_inv_static by blast
  obtain t1 where run: "set_layer_state dst l view t = (Inr (), t1)" and new: "layer_view t1 dst l = Some view"
    using set_view_total [OF Cons.prems(1) assms(1) Cons.prems(2) lv Cons.prems(3)] by blast
  note fr = set_layer_state_frame [OF Cons.prems(1) pool run]
  obtain t' where run': "forE xs (\<lambda>(l, state). set_layer_state dst l state) t1 = (Inr (), t')"
    and views: "\<forall>l\<in>fst ` set xs. layer_view t' dst l = layer_view s src l"
      "\<forall>l. l \<notin> fst ` set xs \<longrightarrow> layer_view t' dst l = layer_view t1 dst l"
      "\<forall>sid l. sid \<noteq> dst \<longrightarrow> layer_view t' sid l = layer_view t1 sid l" "static t' = static t1"
      "pending_prefix_payloads t' = pending_prefix_payloads t1"
    using Cons.IH [of t1] Cons.prems fr x by auto
  have "l \<notin> fst ` set xs" using Cons.prems(4) x by simp
  then show ?case
    using run run' views new lv fr by (auto simp: x eff_simps)
qed

lemma layer_view_None: "pool_inv s \<Longrightarrow> map_of (geom s) l = None \<Longrightarrow> layer_view s sid l = None"
  by (simp add: layer_view_geom split: option.splits)

section \<open>Properties\<close>

lemma card_owned_free:
  assumes "own_inv s"
  shows "card (dom (map_of (seq_id_to_row s))) + length (free_rows s) = row_capacity s"
proof -
  let ?m = "map_of (seq_id_to_row s)"
  note own = own_invD(4) [OF assms] and free = own_invD(3) [OF assms]
  have inj: "inj_on (the \<circ> ?m) (dom ?m)"
  proof (rule inj_onI)
    fix a b
    assume "a \<in> dom ?m" "b \<in> dom ?m" "(the \<circ> ?m) a = (the \<circ> ?m) b"
    then obtain r where "?m a = Some r" "?m b = Some r" by auto
    then show "a = b" unfolding own by simp
  qed
  have img: "(the \<circ> ?m) ` dom ?m \<union> set (free_rows s) = {..<row_capacity s}"
  proof (rule set_eqI)
    fix r
    have "r \<in> (the \<circ> ?m) ` dom ?m \<longleftrightarrow> (\<exists>sid. ?m sid = Some r)" by (force simp: dom_def)
    moreover have "(\<exists>sid. ?m sid = Some r) \<or> r \<in> set (free_rows s) \<longleftrightarrow> r < row_capacity s"
      unfolding own free by (metis not_None_eq)
    ultimately show "r \<in> (the \<circ> ?m) ` dom ?m \<union> set (free_rows s) \<longleftrightarrow> r \<in> {..<row_capacity s}" by blast
  qed
  have disj: "(the \<circ> ?m) ` dom ?m \<inter> set (free_rows s) = {}" using own free by fastforce
  have "card ((the \<circ> ?m) ` dom ?m) + card (set (free_rows s)) = row_capacity s"
    using card_Un_disjoint [OF _ _ disj] img by (simp add: finite_dom_map_of)
  then show ?thesis
    using card_image [OF inj] distinct_card [OF own_invD(2) [OF assms]] by simp
qed

text \<open>
  C13. Recurrent rows are owned once.  In every manager reached from a fresh one by any sequence of
  operations, successful or failing, no two sequences share a row, no sequence owns the scratch row or
  a row of the free list, owned and free rows together are the whole pool, \<open>free_seq\<close> never raises,
  and a row is refused exactly to a non-resident sequence when every row is owned.
\<close>

theorem recurrent_rows_owned_once:
  assumes "recurrent_init s0" and "recurrent_step\<^sup>*\<^sup>* s0 s"
  shows "(\<forall>a b r. map_of (seq_id_to_row s) a = Some r \<and> map_of (seq_id_to_row s) b = Some r \<longrightarrow> a = b) \<and>
    (\<forall>a r. map_of (seq_id_to_row s) a = Some r \<longrightarrow> r \<noteq> scratch_row s \<and> r \<notin> set (free_rows s)) \<and>
    card (dom (map_of (seq_id_to_row s))) + length (free_rows s) = row_capacity s0 \<and>
    (\<forall>sid. fst (free_seq sid s) = Inr ()) \<and>
    (\<forall>sid. fst (allocate_row sid s) = Inl RuntimeError \<longleftrightarrow>
       map_of (seq_id_to_row s) sid = None \<and> card (dom (map_of (seq_id_to_row s))) = row_capacity s0)"
proof -
  note ok = recurrent_reachable_ok [OF assms]
  then have own: "own_inv s" and pool: "pool_inv s" and cap: "row_capacity s = row_capacity s0"
    by (simp_all add: static_def)
  note D = own_invD [OF own]
  have 1: "a = b" if "map_of (seq_id_to_row s) a = Some r" "map_of (seq_id_to_row s) b = Some r" for a b r
    using D(4) [of a r] D(4) [of b r] that by simp
  have 2: "r \<noteq> scratch_row s \<and> r \<notin> set (free_rows s)" if "map_of (seq_id_to_row s) a = Some r" for a r
    using D(4) [of a r] D(3) [of r] that pool by (auto simp: pool_inv_def)
  have 3: "fst (free_seq sid s) = Inr ()" for sid
    using free_seq_eq [OF own, of sid]
    by (cases "map_of (seq_id_to_row s) sid") (simp_all add: free_seq_def Let_def)
  have 4: "fst (allocate_row sid s) = Inl RuntimeError \<longleftrightarrow>
      map_of (seq_id_to_row s) sid = None \<and> free_rows s = []" for sid
    by (auto simp: allocate_row_def split: option.splits list.splits)
  show ?thesis
    using 1 2 3 4 card_owned_free [OF own] cap by (intro conjI allI) auto
qed

text \<open>
  A sequence reads what was written for it and nothing else.  A successful \<open>set_layer_state\<close> makes
  the state of that layer exactly the tensors it was given, and leaves every other sequence, and every
  other layer of a sequence that was already resident, as it was.
\<close>

theorem recurrent_layer_state_isolated:
  assumes "recurrent_init s0" and "recurrent_step\<^sup>*\<^sup>* s0 s" and "distinct (map fst states)"
    and "set_layer_state sid l states s = (Inr (), s')"
  shows "(\<exists>view. layer_view s' sid l = Some view \<and> map_of view = map_of states) \<and>
    (\<forall>sid' l'. sid' \<noteq> sid \<or> (l' \<noteq> l \<and> map_of (seq_id_to_row s) sid \<noteq> None) \<longrightarrow>
       layer_view s' sid' l' = layer_view s sid' l')"
proof -
  note ok = recurrent_reachable_ok [OF assms(1,2)]
  show ?thesis
    using set_layer_state_view [of s states sid l s'] set_layer_state_frame [of s sid l states s'] ok assms(3,4)
    by blast
qed

text \<open>
  Without a deferred payload on the sequence, \<open>get_layer_state\<close> returns the rows and changes nothing.
\<close>

lemma get_layer_state_direct:
  "map_of (pending_prefix_payloads s) sid = None \<Longrightarrow>
   get_layer_state rt sid l s = (Inr (layer_view s sid l), s)"
  by (simp add: get_layer_state_def materialize_pending_prefix_layer_def eff_simps)

text \<open>
  C14. Snapshot and restore is a round trip.  A payload built for a sequence can be attached to any
  sequence at any later time, as long as that sequence is resident or a row is free.  If neither the
  source at the time of the snapshot nor the destination at the time of the attach has a deferred
  payload waiting, then every layer that \<open>get_layer_state\<close> returns for the destination afterwards is
  the one it returned for the source when the snapshot was taken.  In any case no row of another
  sequence and no deferred payload changes.  (With a deferred payload still waiting on the destination,
  the next \<open>get_layer_state\<close> would write that older payload over the attached rows.)
\<close>

theorem recurrent_snapshot_roundtrip:
  assumes "recurrent_init s0" and "recurrent_step\<^sup>*\<^sup>* s0 s" and "recurrent_step\<^sup>*\<^sup>* s t"
    and "build_prefix_recurrent_payload src tc s = (Inr p, s1)"
    and "map_of (seq_id_to_row t) dst \<noteq> None \<or> free_rows t \<noteq> []"
  shows "\<exists>t'. attach_prefix_recurrent_payload dst (Some p) None t = (Inr (), t') \<and>
    (map_of (pending_prefix_payloads s) src = None \<longrightarrow> map_of (pending_prefix_payloads t) dst = None \<longrightarrow>
       (\<forall>rt l. \<exists>v. get_layer_state rt src l s = (Inr v, s) \<and> get_layer_state rt dst l t' = (Inr v, t'))) \<and>
    (\<forall>sid l. sid \<noteq> dst \<longrightarrow> layer_view t' sid l = layer_view t sid l) \<and>
    pending_prefix_payloads t' = pending_prefix_payloads t"
proof -
  note ok = recurrent_reachable_ok [OF assms(1,2)]
  then have own: "own_inv t" and st: "static t = static s" using recurrent_steps_good [OF assms(3)] by auto
  from ok have pool: "pool_inv s" by simp
  note b = build_run [OF pool assms(4)]
  have keys: "distinct (map fst (layer_states p))" using b pool by (simp add: pool_inv_def)
  have "layer_view s src l = Some view" if "(l, view) \<in> set (layer_states p)" for l view
    using b map_of_pick [OF keys that] by simp
  from attach_loop [OF pool own st assms(5) keys this] obtain t' where
    run: "forE (layer_states p) (\<lambda>(l, state). set_layer_state dst l state) t = (Inr (), t')"
    and v: "\<forall>l\<in>fst ` set (layer_states p). layer_view t' dst l = layer_view s src l"
      "\<forall>sid l. sid \<noteq> dst \<longrightarrow> layer_view t' sid l = layer_view t sid l" "static t' = static t"
      "pending_prefix_payloads t' = pending_prefix_payloads t" by blast
  have "layer_view t' dst l = layer_view s src l" for l
  proof (cases "l \<in> fst ` set (layer_states p)")
    case False
    then have "map_of (geom s) l = None" using b by (metis list.set_map map_of_eq_None_iff)
    moreover have "pool_inv t'" "geom t' = geom s"
      using pool st v(3) pool_inv_static by (metis, simp add: static_def)
    ultimately show ?thesis using layer_view_None pool by metis
  qed (use v(1) in blast)
  moreover have "\<not> off_boundary t (token_count p)" using b st by (simp add: off_boundary_def static_def)
  ultimately show ?thesis
    using run v(2,4) b
    by (auto simp: attach_prefix_recurrent_payload_def eff_simps get_layer_state_direct)
qed

text \<open>
  Deferred restore.  When the payload is attached with one readiness event per layer, nothing is
  copied yet, but the first read of a layer waits for its event and returns what the source read when
  the snapshot was taken.
\<close>

theorem recurrent_deferred_restore:
  assumes "recurrent_init s0" and "recurrent_step\<^sup>*\<^sup>* s0 s" and "recurrent_step\<^sup>*\<^sup>* s t"
    and "build_prefix_recurrent_payload src tc s = (Inr p, s1)"
    and "map_of (seq_id_to_row t) dst \<noteq> None \<or> free_rows t \<noteq> []"
    and "fst ` set evs = fst ` set (layer_states p)"
    and "\<not> is_stream_capturing rt" and "\<forall>ev. wait_event rt ev = Inr ()"
    and "l \<in> fst ` set (layer_states p)"
  shows "\<exists>t1 t2. attach_prefix_recurrent_payload dst (Some p) (Some evs) t = (Inr (), t1) \<and>
    get_layer_state rt dst l t1 = (Inr (layer_view s src l), t2)"
proof -
  note ok = recurrent_reachable_ok [OF assms(1,2)]
  then have own: "own_inv t" and st: "static t = static s" using recurrent_steps_good [OF assms(3)] by auto
  from ok have pool: "pool_inv s" by simp
  note b = build_run [OF pool assms(4)]
  obtain r ta where alloc: "allocate_row dst t = (Inr r, ta)" using allocate_row_total [OF assms(5)] by blast
  note A = allocate_row_run [OF own alloc]
  define t1 where "t1 = ta\<lparr>pending_prefix_payloads := dict_set dst (p, evs) (pending_prefix_payloads ta)\<rparr>"
  have "\<not> off_boundary t (token_count p)" using b st by (simp add: off_boundary_def static_def)
  then have attach: "attach_prefix_recurrent_payload dst (Some p) (Some evs) t = (Inr (), t1)"
    using b alloc assms(6) by (simp add: attach_prefix_recurrent_payload_def eff_simps t1_def)
  obtain ev where ev: "map_of evs l = Some ev" using assms(6,9) by (metis map_of_eq_None_iff option.exhaust)
  obtain view where view: "map_of (layer_states p) l = Some view"
    using assms(9) by (metis map_of_eq_None_iff option.exhaust)
  with b have lv: "layer_view s src l = Some view" by simp
  define t1' where "t1' = t1\<lparr>pending_prefix_payloads := dict_set dst (p, dict_pop l evs) (pending_prefix_payloads t1)\<rparr>"
  have "own_inv t1'" "static t1' = static s" "map_of (seq_id_to_row t1') dst \<noteq> None"
    using A st by (simp_all add: t1'_def t1_def)
  then obtain t2 where set: "set_layer_state dst l view t1' = (Inr (), t2)" "layer_view t2 dst l = Some view"
    using set_view_total [OF _ pool _ lv] by blast
  let ?fin = "\<lambda>t. if dict_pop l evs = [] then
      t\<lparr>pending_prefix_payloads := dict_pop dst (pending_prefix_payloads t)\<rparr> else t"
  have "materialize_pending_prefix_layer rt dst l t1 = (Inr (), ?fin t2)"
    using view ev set(1) assms(7,8)
    by (simp add: materialize_pending_prefix_layer_def t1'_def t1_def eff_simps Let_def update_conv')
  moreover have "layer_view (?fin t2) dst l = Some view"
    using set(2) by (auto simp: layer_view_def split: option.splits)
  ultimately show ?thesis
    using attach lv by (simp add: get_layer_state_def eff_simps)
qed

section \<open>Static decode batches\<close>

text \<open>
  A static decode batch addresses exactly its sequences.  After \<open>prepare_decode_static\<close> the index
  buffer of that batch size holds the row of every sequence in batch order, padded with the scratch row,
  which no sequence owns; distinct sequences have distinct rows.  Clearing the scratch row before a
  decode step therefore changes the state of no sequence.
\<close>

theorem static_decode_rows:
  assumes "recurrent_init s0" and "recurrent_step\<^sup>*\<^sup>* s0 s"
    and "prepare_decode_static sids tb dev s = (Inr (), s')"
  shows "(\<exists>rows. map_of (decode_state_indices s') tb = Some (dev, rows @ replicate (nat tb - length sids) (scratch_row s')) \<and>
      map (map_of (seq_id_to_row s')) sids = map Some rows \<and> (distinct sids \<longrightarrow> distinct rows)) \<and>
    (\<forall>sid. map_of (seq_id_to_row s') sid \<noteq> Some (scratch_row s')) \<and>
    (\<forall>l sid l'. layer_view (zero_scratch l s') sid l' = layer_view s' sid l')"
proof -
  note ok = recurrent_reachable_ok [OF assms(1,2)]
  have s': "own_inv s'" "static s' = static s"
    using keeps_good_run [where m="prepare_decode_static sids tb dev" and s=s, OF keeps_prepare_decode_static] ok assms(3)
    by auto
  then have pool: "pool_inv s'" using ok pool_inv_static by blast
  from assms(3) obtain s1 rows where s1: "prepare_step sids s = (Inr (), s1)" and rows: "mapR (row_of s1) sids = Inr rows"
    and upd: "s' = s1\<lparr>decode_state_indices := dict_set tb (dev, rows @ replicate (nat tb - length sids) (scratch_row s1))
                (decode_state_indices s1)\<rparr>"
    by (auto simp: prepare_decode_static_def eff_simps split: sum.splits prod.splits if_splits option.splits)
  have rows': "map (map_of (seq_id_to_row s')) sids = map Some rows"
    using rows unfolding mapR_eq_Inr upd
    by (induction rule: list_all2_induct) (auto simp: row_of_def split: option.splits)
  note D = own_invD [OF s'(1)]
  have "distinct rows" if "distinct sids"
  proof -
    have "inj_on (map_of (seq_id_to_row s')) (set sids)"
    proof (rule inj_onI)
      fix a b assume "a \<in> set sids" "b \<in> set sids" and eq: "map_of (seq_id_to_row s') a = map_of (seq_id_to_row s') b"
      then have "map_of (seq_id_to_row s') a \<in> set (map Some rows)" using rows' by (metis image_eqI list.set_map)
      then obtain r where "map_of (seq_id_to_row s') a = Some r" by auto
      with eq show "a = b" using D(4) [of a r] D(4) [of b r] by simp
    qed
    with that have "distinct (map Some rows)" using rows' by (metis distinct_map)
    then show ?thesis by (simp add: distinct_map)
  qed
  moreover have scratch: "map_of (seq_id_to_row s') sid \<noteq> Some (scratch_row s')" for sid
    using D(4) [of sid "scratch_row s'"] pool by (simp add: pool_inv_def)
  moreover have "layer_view (zero_scratch l s') sid l' = layer_view s' sid l'" for l sid l'
  proof (cases "map_of (seq_id_to_row s') sid")
    case None
    then show ?thesis by (simp add: layer_view_def)
  next
    case (Some r)
    then have "r \<noteq> scratch_row s'" using scratch by auto
    then show ?thesis
      using Some layer_view_cong [OF pool static_zero_scratch _ Some] by (simp add: cell_zero_scratch)
  qed
  ultimately show ?thesis using rows' by (auto simp: upd update_conv')
qed

section \<open>A concrete manager\<close>

text \<open>
  Two layers, the second one linear with a single tensor of two elements; two rows.  Sequence 7 is
  given the state \<open>[5, 6]\<close>.
\<close>

definition example_layout :: runtime_layout where
  "example_layout =
     \<lparr>num_layers = 2, num_kv_layers = 1, full_attention_layer_indices = [0], linear_attention_layer_indices = [1],
      layer_idx_to_kv_idx = [Some 0, None], kv_idx_to_layer_idx = [0], kv_num_heads = [], kv_head_dims = []\<rparr>"

definition example_spec :: state_spec where
  "example_spec = \<lparr>spec_name = ''gdn'', tensor_specs = [\<lparr>ts_name = ''conv_state'', ts_shape = [2], ts_dtype = 1\<rparr>]\<rparr>"

definition example_config :: recurrent_config where
  "example_config =
     \<lparr>max_num_seqs_in_gpu = 2, recurrent_state_max_bytes = Some 100, prefix_cache_block_size = 4,
      recurrent_state_pool_bytes = 0, recurrent_state_bytes_per_row = 0, recurrent_state_row_capacity = 0,
      prefix_recurrent_bytes_per_block = 0, recurrent_state_allocator_peak_before_bytes = 0,
      recurrent_state_allocator_peak_after_bytes = 0\<rparr>"

definition example_manager :: "int recurrent" where
  "example_manager = projr (RecurrentStateManager (\<lambda>_. 2) example_config example_layout Cpu None example_spec)"

definition example_state :: "(string, int tensor) dict" where
  "example_state = [(''conv_state'', \<lparr>t_shape = [2], t_dtype = 1, t_device = Cpu, t_data = [5, 6]\<rparr>)]"

definition example_running :: "int recurrent" where
  "example_running = snd (set_layer_state 7 1 example_state example_manager)"

definition example_runtime :: device_runtime where
  "example_runtime = \<lparr>is_stream_capturing = False, wait_event = (\<lambda>_. Inr ())\<rparr>"

lemma example_manager_init: "recurrent_init example_manager"
proof -
  have spec: "RecurrentStateSpec ''gdn'' (tensor_specs example_spec) = Inr example_spec" by code_simp
  have lin: "\<forall>l\<in>set (linear_attention_layer_indices example_layout). is_linear_attention example_layout l = Inr True"
    by code_simp
  have "isl (RecurrentStateManager (\<lambda>_. 2) example_config example_layout Cpu None example_spec :: int recurrent result) = False"
    by (simp add: RecurrentStateManager_def resolve_capacity_def example_config_def example_layout_def
        bytes_for_layers_def bytes_per_layer_def spec_nbytes_def example_spec_def Let_def)
  then have "RecurrentStateManager (\<lambda>_. 2) example_config example_layout Cpu None example_spec = Inr example_manager"
    unfolding example_manager_def by (metis sum.collapse(2))
  with spec lin show ?thesis unfolding recurrent_init_def by blast
qed

lemma example_running_eq: "set_layer_state 7 1 example_state example_manager = (Inr (), example_running)"
proof -
  have "fst (set_layer_state 7 1 example_state example_manager) = Inr ()" by code_simp
  then show ?thesis unfolding example_running_def by (metis prod.collapse)
qed

lemma example_running_step: "recurrent_step\<^sup>*\<^sup>* example_manager example_running"
  unfolding example_running_def by (rule r_into_rtranclp) (rule recurrent_step.intros)

theorem recurrent_rows_owned_once_witness:
  "recurrent_init example_manager \<and> recurrent_step\<^sup>*\<^sup>* example_manager example_running \<and>
   map_of (seq_id_to_row example_running) 7 = Some 0 \<and>
   card (dom (map_of (seq_id_to_row example_running))) + length (free_rows example_running) = row_capacity example_manager \<and>
   fst (free_seq 7 example_running) = Inr ()"
proof -
  have "map_of (seq_id_to_row example_running) 7 = Some 0" by code_simp
  then show ?thesis
    using recurrent_rows_owned_once [OF example_manager_init example_running_step] example_manager_init
      example_running_step by blast
qed

theorem recurrent_layer_state_isolated_witness:
  "set_layer_state 7 1 example_state example_manager = (Inr (), example_running) \<and>
   (\<exists>view. layer_view example_running 7 1 = Some view \<and> map_of view = map_of example_state)"
proof -
  have "distinct (map fst example_state)" by code_simp
  from recurrent_layer_state_isolated [OF example_manager_init rtranclp.rtrancl_refl this example_running_eq]
  show ?thesis using example_running_eq by blast
qed

definition example_payload :: "int recurrent_payload" where
  "example_payload = \<lparr>token_count = 4, layer_states = [(1, example_state)]\<rparr>"

lemma example_build: "build_prefix_recurrent_payload 7 4 example_running = (Inr example_payload, example_running)"
proof -
  have "fst (build_prefix_recurrent_payload 7 4 example_running) = Inr example_payload" by code_simp
  then show ?thesis by (metis build_cases(1) prod.collapse)
qed

lemma example_free_row: "map_of (seq_id_to_row example_running) 8 \<noteq> None \<or> free_rows example_running \<noteq> []"
  by code_simp

theorem recurrent_snapshot_roundtrip_witness:
  "\<exists>t' v. attach_prefix_recurrent_payload 8 (Some example_payload) None example_running = (Inr (), t') \<and>
     get_layer_state example_runtime 7 1 example_running = (Inr v, example_running) \<and>
     get_layer_state example_runtime 8 1 t' = (Inr v, t') \<and>
     layer_view t' 7 1 = layer_view example_running 7 1"
proof -
  have "map_of (pending_prefix_payloads example_running) 7 = None"
    "map_of (pending_prefix_payloads example_running) 8 = None" by code_simp+
  with recurrent_snapshot_roundtrip [OF example_manager_init example_running_step rtranclp.rtrancl_refl
      example_build example_free_row]
  show ?thesis by fastforce
qed

theorem recurrent_deferred_restore_witness:
  "\<exists>t1 t2. attach_prefix_recurrent_payload 8 (Some example_payload) (Some [(1, 0)]) example_running = (Inr (), t1) \<and>
     get_layer_state example_runtime 8 1 t1 = (Inr (layer_view example_running 7 1), t2)"
  by (rule recurrent_deferred_restore [OF example_manager_init example_running_step rtranclp.rtrancl_refl
      example_build example_free_row])
    (simp_all add: example_payload_def example_runtime_def)

theorem static_decode_rows_witness:
  "\<exists>s'. prepare_decode_static [7] 2 Cpu example_running = (Inr (), s') \<and>
     (\<exists>rows. map_of (decode_state_indices s') 2 = Some (Cpu, rows @ [scratch_row s']) \<and>
        map (map_of (seq_id_to_row s')) [7] = map Some rows)"
proof -
  have "fst (prepare_decode_static [7] 2 Cpu example_running) = Inr ()" by code_simp
  then obtain s' where "prepare_decode_static [7] 2 Cpu example_running = (Inr (), s')"
    by (metis prod.collapse)
  then show ?thesis
    using static_decode_rows [OF example_manager_init example_running_step] by fastforce
qed

end
