(* ===== verification/Head_Slots.thy ===== *)
theory Head_Slots
  imports Effect_Logic "HOL-Library.Sublist"
begin

text \<open>
  \<open>engine/cache_manager/head_slot_allocator.py\<close>: \<open>HeadSlotAllocator\<close>, the ledger that gives every
  (layer, KV head) of a resident sequence its own physical slots.  The numpy arrays indexed by
  \<open>[layer, row, head]\<close> are functions of these three indices to the array over the last axis; the
  per-layer stack of free slots is the whole array with its fill count.  Append plans are the values
  \<open>plan_append\<close> returns; what numpy does with a hand-made plan that points outside the arrays is not
  modelled.
\<close>

section \<open>The model\<close>

record head_append_plan =
  plan_generation :: nat
  plan_seq_ids :: "int list"
  plan_rows :: "nat list"
  plan_positions :: "int list list"

record head_slots =
  capacities :: "nat list"
  heads :: nat
  width :: nat
  hs_rows :: nat
  slots :: "nat \<Rightarrow> nat \<Rightarrow> nat \<Rightarrow> int list"
  positions :: "nat \<Rightarrow> nat \<Rightarrow> nat \<Rightarrow> int list"
  lengths :: "nat \<Rightarrow> nat \<Rightarrow> nat \<Rightarrow> nat"
  free :: "int list list"
  free_counts :: "nat list"
  seq_rows :: "(int, nat) dict"
  hs_free_rows :: "nat list"
  generation :: nat

definition HeadSlotAllocator :: "int list \<Rightarrow> int \<Rightarrow> int \<Rightarrow> int \<Rightarrow> head_slots result" where
  "HeadSlotAllocator caps hd_n wd rws =
     (if caps = [] \<or> (\<exists>x\<in>set (caps @ [hd_n, wd, rws]). x \<le> 0) then Inl ValueError
      else Inr \<lparr>capacities = map nat caps, heads = nat hd_n, width = nat wd, hs_rows = nat rws,
                slots = (\<lambda>l r h. replicate (nat wd) (- 1)),
                positions = (\<lambda>l r h. replicate (nat wd) (- 1)),
                lengths = (\<lambda>l r h. 0),
                free = map (\<lambda>n. map int [0..<nat n]) caps, free_counts = map nat caps,
                seq_rows = [], hs_free_rows = rev [0..<nat rws], generation = 0\<rparr>)"

abbreviation layers :: "head_slots \<Rightarrow> nat" where
  "layers s \<equiv> length (capacities s)"

definition available_tokens :: "head_slots \<Rightarrow> int list \<Rightarrow> int result" where
  "available_tokens s reserved =
     bindR (mapR (\<lambda>i. bindR (if reserved = [] then Inr 0 else py_index reserved (int i))
                    (\<lambda>x. Inr ((int (free_counts s ! i) - x) div int (heads s)))) [0..<layers s])
       (\<lambda>xs. Inr (Min (set xs)))"

definition append_capacity :: "head_slots \<Rightarrow> int \<Rightarrow> int list \<Rightarrow> int result" where
  "append_capacity s sid reserved =
     bindR (available_tokens s reserved) (\<lambda>avail.
       case map_of (seq_rows s) sid of
         None \<Rightarrow> Inr (if hs_free_rows s = [] then 0 else max 0 (min avail (int (width s))))
       | Some row \<Rightarrow>
           Inr (max 0 (min avail
             (Min ((\<lambda>(l, h). int (width s) - int (lengths s l row h)) ` ({..<layers s} \<times> {..<heads s}))))))"

definition int32_max :: int where
  "int32_max = 2147483647"

fun consecutive :: "int list \<Rightarrow> bool" where
  "consecutive (a # b # xs) = (b = a + 1 \<and> consecutive (b # xs))"
| "consecutive _ = True"

definition positions_ok :: "int list \<Rightarrow> bool" where
  "positions_ok pos \<longleftrightarrow> pos \<noteq> [] \<and> (\<forall>p\<in>set pos. 0 \<le> p \<and> p \<le> int32_max) \<and> consecutive pos"

text \<open>New sequences take their rows from the end of \<open>free_rows\<close>, in batch order.\<close>

fun assign_rows :: "head_slots \<Rightarrow> int list \<Rightarrow> nat list \<Rightarrow> nat list" where
  "assign_rows s [] fr = []"
| "assign_rows s (sid # sids) fr =
     (case map_of (seq_rows s) sid of
        Some r \<Rightarrow> r # assign_rows s sids fr
      | None \<Rightarrow> hd fr # assign_rows s sids (tl fr))"

definition row_fits :: "head_slots \<Rightarrow> nat \<Rightarrow> int list \<Rightarrow> bool" where
  "row_fits s row pos \<longleftrightarrow> (\<forall>l<layers s. \<forall>h<heads s. lengths s l row h + length pos \<le> width s)"

definition row_follows :: "head_slots \<Rightarrow> nat \<Rightarrow> int list \<Rightarrow> bool" where
  "row_follows s row pos \<longleftrightarrow>
     (\<forall>l<layers s. \<forall>h<heads s. lengths s l row h > 0 \<longrightarrow>
        positions s l row h ! (lengths s l row h - 1) < hd pos)"

fun check_rows :: "head_slots \<Rightarrow> (int list \<times> nat) list \<Rightarrow> unit result" where
  "check_rows s [] = Inr ()"
| "check_rows s ((pos, row) # xs) =
     (if \<not> row_fits s row pos then Inl RuntimeError
      else if \<not> row_follows s row pos then Inl ValueError
      else check_rows s xs)"

definition plan_append :: "head_slots \<Rightarrow> (int \<times> int list) list \<Rightarrow> head_append_plan result" where
  "plan_append s requests =
     (let ids = map fst requests in
      if ids = [] \<or> \<not> distinct ids then Inl ValueError
      else if \<exists>(sid, pos)\<in>set requests. \<not> positions_ok pos then Inl ValueError
      else
        let new = length (filter (\<lambda>sid. sid \<notin> fst ` set (seq_rows s)) ids);
            need = heads s * sum_list (map (\<lambda>(sid, pos). length pos) requests)
        in if new > length (hs_free_rows s) \<or> (\<exists>c\<in>set (free_counts s). c < need) then Inl RuntimeError
           else
             let rows = assign_rows s ids (rev (hs_free_rows s))
             in bindR (check_rows s (zip (map snd requests) rows)) (\<lambda>_.
                  Inr \<lparr>plan_generation = generation s, plan_seq_ids = ids, plan_rows = rows,
                       plan_positions = map snd requests\<rparr>))"

text \<open>Slice assignment \<open>xs[i : i + len(ys)] = ys\<close>.\<close>

definition splice :: "'a list \<Rightarrow> nat \<Rightarrow> 'a list \<Rightarrow> 'a list" where
  "splice xs i ys = take i xs @ ys @ drop (i + length ys) xs"

text \<open>Slot of appended token \<open>i\<close> and head \<open>h\<close> in layer \<open>l\<close>: the reshaped top of the free stack.\<close>

definition selected_slot :: "head_slots \<Rightarrow> nat \<Rightarrow> nat \<Rightarrow> nat \<Rightarrow> nat \<Rightarrow> int" where
  "selected_slot s cnt l i h = free s ! l ! (free_counts s ! l - cnt * heads s + i * heads s + h)"

definition take_row :: "int \<Rightarrow> nat \<Rightarrow> (head_slots, unit) eff" where
  "take_row sid row s =
     (if sid \<in> fst ` set (seq_rows s) then (Inr (), s)
      else if hs_free_rows s = [] then (Inl IndexError, s)
      else if last (hs_free_rows s) \<noteq> row
        then (Inl AssertionError, s\<lparr>hs_free_rows := butlast (hs_free_rows s)\<rparr>)
        else (Inr (), s\<lparr>hs_free_rows := butlast (hs_free_rows s), seq_rows := dict_set sid row (seq_rows s)\<rparr>))"

definition append_row :: "nat \<Rightarrow> int list \<Rightarrow> head_slots \<Rightarrow> head_slots" where
  "append_row row pos s =
     (let cnt = length pos;
          touched = (\<lambda>l r h. r = row \<and> l < layers s \<and> h < heads s)
      in s\<lparr>slots := (\<lambda>l r h. if touched l r h
             then splice (slots s l r h) (lengths s l r h) (map (\<lambda>i. selected_slot s cnt l i h) [0..<cnt])
             else slots s l r h),
           positions := (\<lambda>l r h. if touched l r h then splice (positions s l r h) (lengths s l r h) pos
             else positions s l r h),
           free_counts := map (\<lambda>c. c - cnt * heads s) (free_counts s),
           lengths := (\<lambda>l r h. if touched l r h then lengths s l r h + cnt else lengths s l r h)\<rparr>)"

text \<open>What one request contributes to the returned arrays, per layer, token and head.\<close>

definition batch_writes :: "nat \<Rightarrow> head_slots \<Rightarrow> int list list list" where
  "batch_writes cnt s = map (\<lambda>l. map (\<lambda>i. map (selected_slot s cnt l i) [0..<heads s]) [0..<cnt]) [0..<layers s]"

definition batch_columns :: "nat \<Rightarrow> nat \<Rightarrow> head_slots \<Rightarrow> nat list list list" where
  "batch_columns row cnt s = map (\<lambda>l. map (\<lambda>i. map (\<lambda>h. lengths s l row h + i) [0..<heads s]) [0..<cnt]) [0..<layers s]"

fun apply_loop :: "(int \<times> nat \<times> int list) list \<Rightarrow>
    (head_slots, (int list list list \<times> nat list list list) list) eff" where
  "apply_loop [] = retE []"
| "apply_loop ((sid, row, pos) # xs) =
     thenE (take_row sid row)
       (bindE (getE (\<lambda>s. (batch_writes (length pos) s, batch_columns row (length pos) s))) (\<lambda>w.
          thenE (modifyE (append_row row pos))
            (bindE (apply_loop xs) (\<lambda>ws. retE (w # ws)))))"

definition join_tokens :: "nat \<Rightarrow> 'a list list list \<Rightarrow> 'a list list" where
  "join_tokens n parts = map (\<lambda>l. concat (map (\<lambda>p. p ! l) parts)) [0..<n]"

definition apply_append :: "head_append_plan \<Rightarrow> (head_slots, int list list list \<times> nat list list list) eff" where
  "apply_append plan s =
     (if plan_generation plan \<noteq> generation s then (Inl RuntimeError, s)
      else bindE (apply_loop (zip (plan_seq_ids plan) (zip (plan_rows plan) (plan_positions plan)))) (\<lambda>ws.
        thenE (modifyE (\<lambda>s. s\<lparr>generation := generation s + 1\<rparr>))
          (retE (join_tokens (layers s) (map fst ws), join_tokens (layers s) (map snd ws)))) s)"

definition selection_ok :: "nat \<Rightarrow> int list \<Rightarrow> bool" where
  "selection_ok n idx \<longleftrightarrow> idx \<noteq> [] \<and> 0 \<le> hd idx \<and> last idx < int n \<and> sorted_wrt (<) idx"

text \<open>The selections are integer lists, so the test of the dtype and the dimension is always passed.\<close>

definition validate_selection :: "head_slots \<Rightarrow> int \<Rightarrow> int list list list \<Rightarrow> unit result" where
  "validate_selection s sid selections =
     (case map_of (seq_rows s) sid of
        None \<Rightarrow> Inl KeyError
      | Some row \<Rightarrow>
          if length selections \<noteq> layers s \<or> (\<exists>x\<in>set selections. length x \<noteq> heads s) then Inl ValueError
          else if \<exists>l<layers s. \<exists>h<heads s. \<not> selection_ok (lengths s l row h) (selections ! l ! h)
          then Inl ValueError else Inr ())"

definition drop_indices :: "'a list \<Rightarrow> int list \<Rightarrow> 'a list" where
  "drop_indices xs idx = map (nth xs) (filter (\<lambda>i. int i \<notin> set idx) [0..<length xs])"

definition take_indices :: "'a list \<Rightarrow> int list \<Rightarrow> 'a list" where
  "take_indices xs idx = map (\<lambda>i. xs ! nat i) idx"

definition compact_head :: "nat \<Rightarrow> nat \<Rightarrow> nat \<Rightarrow> int list \<Rightarrow> head_slots \<Rightarrow> head_slots" where
  "compact_head l row h idx s =
     (let n = lengths s l row h;
          old = take n (slots s l row h);
          discarded = drop_indices old idx;
          k = length idx;
          start = free_counts s ! l
      in s\<lparr>free := (free s)[l := splice (free s ! l) start discarded],
           free_counts := (free_counts s)[l := start + length discarded],
           slots := (slots s)(l := (slots s l)(row := (slots s l row)(h :=
             take_indices old idx @ replicate (n - k) (- 1) @ drop n (slots s l row h)))),
           positions := (positions s)(l := (positions s l)(row := (positions s l row)(h :=
             take_indices (positions s l row h) idx @ replicate (n - k) (- 1) @ drop n (positions s l row h)))),
           lengths := (lengths s)(l := (lengths s l)(row := (lengths s l row)(h := k)))\<rparr>)"

text \<open>The loops over layers and heads; the count of discarded entries of each layer is returned.\<close>

fun compact_heads :: "nat \<Rightarrow> nat \<Rightarrow> nat \<Rightarrow> int list list \<Rightarrow> head_slots \<Rightarrow> nat \<times> head_slots" where
  "compact_heads l row h [] s = (0, s)"
| "compact_heads l row h (idx # sel) s =
     (case compact_heads l row (Suc h) sel (compact_head l row h idx s) of
        (c, s') \<Rightarrow> (length (drop_indices (take (lengths s l row h) (slots s l row h)) idx) + c, s'))"

fun compact_layers :: "nat \<Rightarrow> nat \<Rightarrow> int list list list \<Rightarrow> head_slots \<Rightarrow> nat list \<times> head_slots" where
  "compact_layers l row [] s = ([], s)"
| "compact_layers l row (sel # sels) s =
     (case compact_heads l row 0 sel s of (c, s1) \<Rightarrow>
        (case compact_layers (Suc l) row sels s1 of (cs, s2) \<Rightarrow> (c # cs, s2)))"

definition compact :: "int \<Rightarrow> int list list list \<Rightarrow> (head_slots, nat list) eff" where
  "compact sid selections s =
     (case validate_selection s sid selections of
        Inl e \<Rightarrow> (Inl e, s)
      | Inr _ \<Rightarrow>
          (case map_of (seq_rows s) sid of
             None \<Rightarrow> (Inl KeyError, s)
           | Some row \<Rightarrow>
               (case compact_layers 0 row selections s of (released, s') \<Rightarrow>
                  (Inr released, s'\<lparr>generation := generation s' + 1\<rparr>))))"

definition release_cell :: "nat \<Rightarrow> nat \<Rightarrow> nat \<Rightarrow> head_slots \<Rightarrow> head_slots" where
  "release_cell row l h s =
     (let n = lengths s l row h; start = free_counts s ! l
      in s\<lparr>free := (free s)[l := splice (free s ! l) start (take n (slots s l row h))],
           free_counts := (free_counts s)[l := start + n]\<rparr>)"

definition free_head_seq :: "int \<Rightarrow> (head_slots, unit) eff" where
  "free_head_seq sid s =
     (case map_of (seq_rows s) sid of
        None \<Rightarrow> (Inr (), s)
      | Some row \<Rightarrow>
          let s1 = s\<lparr>seq_rows := dict_pop sid (seq_rows s)\<rparr>;
              s2 = fold (\<lambda>(l, h). release_cell row l h)
                     (List.product [0..<layers s] [0..<heads s]) s1;
              clear = (\<lambda>l r. r = row \<and> l < layers s)
          in (Inr (), s2\<lparr>slots := (\<lambda>l r h. if clear l r \<and> h < heads s then replicate (width s) (- 1) else slots s2 l r h),
                         positions := (\<lambda>l r h. if clear l r \<and> h < heads s then replicate (width s) (- 1) else positions s2 l r h),
                         lengths := (\<lambda>l r h. if clear l r \<and> h < heads s then 0 else lengths s2 l r h),
                         hs_free_rows := hs_free_rows s2 @ [row], generation := generation s2 + 1\<rparr>))"

definition allocated :: "head_slots \<Rightarrow> nat \<Rightarrow> int list" where
  "allocated s l = filter (\<lambda>x. x \<ge> 0) (concat (map (\<lambda>(r, h). slots s l r h) (List.product [0..<hs_rows s] [0..<heads s])))"

definition layer_asserts :: "head_slots \<Rightarrow> nat \<Rightarrow> bool" where
  "layer_asserts s l \<longleftrightarrow>
     (let fr = take (free_counts s ! l) (free s ! l); al = allocated s l; cap = capacities s ! l
      in length al = sum_list (map (\<lambda>(r, h). lengths s l r h) (List.product [0..<hs_rows s] [0..<heads s])) \<and>
         length al + length fr = cap \<and>
         sort (al @ fr) = map int [0..<cap])"

definition reserved_asserts :: "head_slots \<Rightarrow> nat \<Rightarrow> int \<Rightarrow> bool" where
  "reserved_asserts s l x \<longleftrightarrow>
     (let fr = take (free_counts s ! l) (free s ! l); al = allocated s l
      in 0 \<le> x \<and> x \<le> int (length fr) \<and>
         int (capacities s ! l) = int (length al) + (int (length fr) - x) + x)"

fun assert_layers :: "head_slots \<Rightarrow> int list \<Rightarrow> nat list \<Rightarrow> unit result" where
  "assert_layers s reserved [] = Inr ()"
| "assert_layers s reserved (l # ls) =
     (if \<not> layer_asserts s l then Inl AssertionError
      else if reserved = [] then assert_layers s reserved ls
      else bindR (py_index reserved (int l)) (\<lambda>x.
        if \<not> reserved_asserts s l x then Inl AssertionError else assert_layers s reserved ls))"

definition assert_invariants :: "head_slots \<Rightarrow> int list \<Rightarrow> unit result" where
  "assert_invariants s reserved = assert_layers s reserved [0..<layers s]"

section \<open>Stacks of free slots\<close>

definition stack :: "head_slots \<Rightarrow> nat \<Rightarrow> int list" where
  "stack s l = take (free_counts s ! l) (free s ! l)"

definition stacks_ok :: "head_slots \<Rightarrow> bool" where
  "stacks_ok s \<longleftrightarrow>
     length (free s) = layers s \<and> length (free_counts s) = layers s \<and>
     (\<forall>l<layers s. length (free s ! l) = capacities s ! l \<and> free_counts s ! l \<le> capacities s ! l)"

lemma stacks_okD:
  assumes "stacks_ok s"
  shows "length (free s) = layers s" "length (free_counts s) = layers s"
    "l < layers s \<Longrightarrow> length (free s ! l) = capacities s ! l"
    "l < layers s \<Longrightarrow> free_counts s ! l \<le> capacities s ! l"
    "l < layers s \<Longrightarrow> length (stack s l) = free_counts s ! l"
  using assms by (auto simp: stacks_ok_def stack_def)

lemma length_splice [simp]: "i + length ys \<le> length xs \<Longrightarrow> length (splice xs i ys) = length xs"
  by (simp add: splice_def)

lemma take_splice: "i + length ys \<le> length xs \<Longrightarrow> take (i + length ys) (splice xs i ys) = take i xs @ ys"
  by (simp add: splice_def)

lemma nth_splice_beyond: "i + length ys \<le> c \<Longrightarrow> c < length xs \<Longrightarrow> splice xs i ys ! c = xs ! c"
  by (auto simp: splice_def nth_append)

text \<open>Pushing onto the stack of one layer, the write both \<open>compact\<close> and \<open>free_seq\<close> perform.\<close>

definition push :: "nat \<Rightarrow> int list \<Rightarrow> head_slots \<Rightarrow> head_slots" where
  "push l ys s =
     s\<lparr>free := (free s)[l := splice (free s ! l) (free_counts s ! l) ys],
       free_counts := (free_counts s)[l := free_counts s ! l + length ys]\<rparr>"

lemma push_sel [simp]:
  "capacities (push l ys s) = capacities s" "heads (push l ys s) = heads s" "width (push l ys s) = width s"
  "hs_rows (push l ys s) = hs_rows s" "slots (push l ys s) = slots s" "positions (push l ys s) = positions s"
  "lengths (push l ys s) = lengths s" "seq_rows (push l ys s) = seq_rows s"
  "hs_free_rows (push l ys s) = hs_free_rows s" "generation (push l ys s) = generation s"
  by (simp_all add: push_def)

lemma push_stack:
  assumes "stacks_ok s" and "l < layers s" and "length (stack s l) + length ys \<le> capacities s ! l"
  shows "stacks_ok (push l ys s)" "stack (push l ys s) l = stack s l @ ys"
    "l' \<noteq> l \<Longrightarrow> stack (push l ys s) l' = stack s l'"
  using assms stacks_okD [OF assms(1)]
  by (auto simp: stacks_ok_def push_def stack_def nth_list_update take_splice)

section \<open>Invariant\<close>

definition in_use :: "head_slots \<Rightarrow> nat \<Rightarrow> nat \<Rightarrow> nat \<Rightarrow> int list" where
  "in_use s l r h = take (lengths s l r h) (slots s l r h)"

definition owned :: "head_slots \<Rightarrow> nat \<Rightarrow> int multiset" where
  "owned s l = (\<Sum>r<hs_rows s. \<Sum>h<heads s. mset (in_use s l r h))"

definition cell_ok :: "nat \<Rightarrow> int list \<Rightarrow> int list \<Rightarrow> nat \<Rightarrow> bool" where
  "cell_ok w sl ps n \<longleftrightarrow>
     length sl = w \<and> length ps = w \<and> n \<le> w \<and> (\<forall>c. n \<le> c \<and> c < w \<longrightarrow> sl ! c = - 1) \<and>
     sorted_wrt (<) (take n ps) \<and> (\<forall>p\<in>set (take n ps). 0 \<le> p \<and> p \<le> int32_max)"

definition rows_ok :: "head_slots \<Rightarrow> bool" where
  "rows_ok s \<longleftrightarrow>
     distinct (hs_free_rows s) \<and>
     (\<forall>r. r \<in> set (hs_free_rows s) \<longleftrightarrow> r < hs_rows s \<and> r \<notin> ran (map_of (seq_rows s))) \<and>
     (\<forall>a r. map_of (seq_rows s) a = Some r \<longrightarrow> r < hs_rows s) \<and>
     inj_on (map_of (seq_rows s)) (dom (map_of (seq_rows s))) \<and>
     (\<forall>r\<in>set (hs_free_rows s). \<forall>l<layers s. \<forall>h<heads s. lengths s l r h = 0)"

definition cells_ok :: "head_slots \<Rightarrow> bool" where
  "cells_ok s \<longleftrightarrow>
     (\<forall>l<layers s. \<forall>r<hs_rows s. \<forall>h<heads s. cell_ok (width s) (slots s l r h) (positions s l r h) (lengths s l r h))"

definition conserved :: "head_slots \<Rightarrow> bool" where
  "conserved s \<longleftrightarrow> (\<forall>l<layers s. owned s l + mset (stack s l) = mset (map int [0..<capacities s ! l]))"

definition hs_inv :: "head_slots \<Rightarrow> bool" where
  "hs_inv s \<longleftrightarrow> 0 < heads s \<and> 0 < width s \<and> 0 < layers s \<and> stacks_ok s \<and> rows_ok s \<and> cells_ok s \<and> conserved s"

lemma hs_inv_init:
  assumes "HeadSlotAllocator caps hd_n wd rws = Inr s"
  shows "hs_inv s"
proof -
  have s: "s = \<lparr>capacities = map nat caps, heads = nat hd_n, width = nat wd, hs_rows = nat rws,
                slots = (\<lambda>l r h. replicate (nat wd) (- 1)), positions = (\<lambda>l r h. replicate (nat wd) (- 1)),
                lengths = (\<lambda>l r h. 0), free = map (\<lambda>n. map int [0..<nat n]) caps, free_counts = map nat caps,
                seq_rows = [], hs_free_rows = rev [0..<nat rws], generation = 0\<rparr>"
    and ok: "caps \<noteq> []" "\<forall>x\<in>set (caps @ [hd_n, wd, rws]). x > 0"
    using assms by (auto simp: HeadSlotAllocator_def not_le split: if_splits)
  have "stacks_ok s" by (simp add: s stacks_ok_def)
  moreover have "rows_ok s" by (simp add: s rows_ok_def)
  moreover have "cells_ok s" by (simp add: s cells_ok_def cell_ok_def)
  moreover have "conserved s" by (simp add: s conserved_def owned_def in_use_def stack_def)
  ultimately show ?thesis using ok by (simp add: hs_inv_def s)
qed

text \<open>Changing one cell of the ledger changes what the layer owns by that cell.\<close>

lemma sum_row_change:
  fixes f g :: "nat \<Rightarrow> nat \<Rightarrow> 'a::comm_monoid_add"
  assumes "row < R" and "\<And>r h. r \<noteq> row \<Longrightarrow> g r h = f r h"
  shows "(\<Sum>r<R. \<Sum>h<H. g r h) + (\<Sum>h<H. f row h) = (\<Sum>r<R. \<Sum>h<H. f r h) + (\<Sum>h<H. g row h)"
proof -
  have "(\<Sum>r<R. \<Sum>h<H. g r h) = (\<Sum>h<H. g row h) + (\<Sum>r\<in>{..<R} - {row}. \<Sum>h<H. g r h)"
    "(\<Sum>r<R. \<Sum>h<H. f r h) = (\<Sum>h<H. f row h) + (\<Sum>r\<in>{..<R} - {row}. \<Sum>h<H. f r h)"
    using assms(1) by (simp_all add: sum.remove)
  moreover have "(\<Sum>r\<in>{..<R} - {row}. \<Sum>h<H. g r h) = (\<Sum>r\<in>{..<R} - {row}. \<Sum>h<H. f r h)"
    using assms(2) by simp
  ultimately show ?thesis by (simp add: ac_simps)
qed

section \<open>Appending\<close>

lemma upt_blocks: "map g [0..<C * H] = concat (map (\<lambda>i. map (\<lambda>h. g (i * H + h)) [0..<H]) [0..<C])"
proof (induction C)
  case (Suc C)
  have "[0..<Suc C * H] = [0..<C * H] @ map (\<lambda>h. C * H + h) [0..<H]"
    using map_add_upt [of "C * H" H] upt_add_eq_append [of 0 "C * H" H] by (simp add: add.commute)
  with Suc show ?case by simp
qed simp

lemma mset_blocks:
  "mset (map g [0..<C * H]) = (\<Sum>h<H. mset (map (\<lambda>i. g (i * H + h)) [0..<C]))"
proof -
  have one: "mset (map f [0..<n]) = (\<Sum>i<n. {#f i#})" for f :: "nat \<Rightarrow> 'a" and n
    by (induction n) simp_all
  have "mset (map g [0..<C * H]) = (\<Sum>i<C. \<Sum>h<H. {#g (i * H + h)#})"
    unfolding upt_blocks
    by (simp add: mset_concat sum_list_sum_nth one [symmetric] atLeast0LessThan comp_def)
  also have "\<dots> = (\<Sum>h<H. \<Sum>i<C. {#g (i * H + h)#})" by (rule sum.swap)
  also have "\<dots> = (\<Sum>h<H. mset (map (\<lambda>i. g (i * H + h)) [0..<C]))" by (simp only: one)
  finally show ?thesis .
qed

lemma append_row_sel [simp]:
  "capacities (append_row row pos s) = capacities s" "heads (append_row row pos s) = heads s"
  "width (append_row row pos s) = width s" "hs_rows (append_row row pos s) = hs_rows s"
  "free (append_row row pos s) = free s" "seq_rows (append_row row pos s) = seq_rows s"
  "hs_free_rows (append_row row pos s) = hs_free_rows s" "generation (append_row row pos s) = generation s"
  "free_counts (append_row row pos s) = map (\<lambda>c. c - length pos * heads s) (free_counts s)"
  by (simp_all add: append_row_def Let_def)

lemma append_row_cells:
  "r \<noteq> row \<Longrightarrow> slots (append_row row pos s) l r h = slots s l r h"
  "r \<noteq> row \<Longrightarrow> positions (append_row row pos s) l r h = positions s l r h"
  "r \<noteq> row \<Longrightarrow> lengths (append_row row pos s) l r h = lengths s l r h"
  "l < layers s \<Longrightarrow> h < heads s \<Longrightarrow> slots (append_row row pos s) l row h =
     splice (slots s l row h) (lengths s l row h) (map (\<lambda>i. selected_slot s (length pos) l i h) [0..<length pos])"
  "l < layers s \<Longrightarrow> h < heads s \<Longrightarrow> positions (append_row row pos s) l row h =
     splice (positions s l row h) (lengths s l row h) pos"
  "l < layers s \<Longrightarrow> h < heads s \<Longrightarrow> lengths (append_row row pos s) l row h = lengths s l row h + length pos"
  by (simp_all add: append_row_def Let_def)

definition can_append :: "head_slots \<Rightarrow> nat \<Rightarrow> int list \<Rightarrow> bool" where
  "can_append s row pos \<longleftrightarrow>
     row < hs_rows s \<and> positions_ok pos \<and> row_fits s row pos \<and> row_follows s row pos \<and>
     (\<forall>l<layers s. length pos * heads s \<le> free_counts s ! l)"

lemma consecutive_sorted: "consecutive pos \<Longrightarrow> sorted_wrt (<) pos"
proof (induction pos rule: consecutive.induct)
  case (1 a b xs)
  then have "sorted_wrt (<) (b # xs)" "a < b" by auto
  then show ?case by (auto intro: less_trans)
qed simp_all

lemma append_in_use:
  assumes "cells_ok s" and "can_append s row pos" and "l < layers s" and "h < heads s"
  shows "in_use (append_row row pos s) l row h =
    in_use s l row h @ map (\<lambda>i. selected_slot s (length pos) l i h) [0..<length pos]"
proof -
  have "lengths s l row h + length pos \<le> length (slots s l row h)"
    using assms by (auto simp: can_append_def row_fits_def cells_ok_def cell_ok_def)
  then show ?thesis
    using take_splice [of "lengths s l row h" "map (\<lambda>i. selected_slot s (length pos) l i h) [0..<length pos]"
        "slots s l row h"]
    by (simp add: in_use_def append_row_cells assms)
qed

lemma append_cell_ok:
  assumes "cells_ok s" and "can_append s row pos" and "l < layers s" and "h < heads s"
  shows "cell_ok (width s) (slots (append_row row pos s) l row h) (positions (append_row row pos s) l row h)
    (lengths (append_row row pos s) l row h)"
proof -
  have old: "cell_ok (width s) (slots s l row h) (positions s l row h) (lengths s l row h)"
    and fits: "lengths s l row h + length pos \<le> width s"
    and pos: "pos \<noteq> []" "\<forall>p\<in>set pos. 0 \<le> p \<and> p \<le> int32_max" "sorted_wrt (<) pos"
    using assms consecutive_sorted
    by (auto simp: can_append_def row_fits_def cells_ok_def positions_ok_def)
  let ?n = "lengths s l row h" and ?ps = "positions s l row h"
  have tk: "take (?n + length pos) (splice ?ps ?n pos) = take ?n ?ps @ pos"
    using old fits by (intro take_splice) (simp add: cell_ok_def)
  have "p < q" if "p \<in> set (take ?n ?ps)" "q \<in> set pos" for p q
  proof -
    from that(1) have n: "0 < ?n" by (cases ?n) auto
    have lst: "?ps ! (?n - 1) < hd pos"
      using assms(2-4) n by (auto simp: can_append_def row_follows_def)
    from that(1) obtain i where i: "i < ?n" "p = ?ps ! i" by (auto simp: in_set_conv_nth)
    have "p \<le> ?ps ! (?n - 1)"
    proof (cases "i = ?n - 1")
      case False
      then have "take ?n ?ps ! i < take ?n ?ps ! (?n - 1)"
        using old i n by (intro sorted_wrt_nth_less [of "(<)"]) (auto simp: cell_ok_def)
      with i n show ?thesis by simp
    qed (use i in simp)
    moreover have "hd pos \<le> q" using pos(1,3) that(2) by (cases pos) auto
    ultimately show ?thesis using lst by simp
  qed
  then have "sorted_wrt (<) (take ?n ?ps @ pos)"
    using old pos(3) by (auto simp: cell_ok_def sorted_wrt_append)
  then show ?thesis
    using old fits pos(2) tk
    by (auto simp: cell_ok_def append_row_cells assms nth_splice_beyond)
qed

lemma append_stack:
  assumes "stacks_ok s" and "can_append s row pos" and "l < layers s"
  shows "mset (stack s l) = mset (stack (append_row row pos s) l) +
    (\<Sum>h<heads s. mset (map (\<lambda>i. selected_slot s (length pos) l i h) [0..<length pos]))"
proof -
  let ?c = "free_counts s ! l" and ?n = "length pos * heads s" and ?f = "free s ! l"
  have le: "?n \<le> ?c" "?c \<le> length ?f"
    using assms stacks_okD [OF assms(1)] by (auto simp: can_append_def)
  have "stack s l = take (?c - ?n) ?f @ map (\<lambda>k. ?f ! (?c - ?n + k)) [0..<?n]"
  proof (rule nth_equalityI)
    show "stack s l ! i = (take (?c - ?n) ?f @ map (\<lambda>k. ?f ! (?c - ?n + k)) [0..<?n]) ! i"
      if "i < length (stack s l)" for i
      using that le by (auto simp: stack_def nth_append)
  qed (use le in \<open>auto simp: stack_def\<close>)
  then have "mset (stack s l) = mset (take (?c - ?n) ?f) + mset (map (\<lambda>k. ?f ! (?c - ?n + k)) [0..<?n])"
    by simp
  also have "mset (map (\<lambda>k. ?f ! (?c - ?n + k)) [0..<?n]) =
      (\<Sum>h<heads s. mset (map (\<lambda>i. selected_slot s (length pos) l i h) [0..<length pos]))"
    unfolding mset_blocks selected_slot_def by (simp add: add.assoc)
  finally show ?thesis
    using assms stacks_okD [OF assms(1)] by (simp add: stack_def)
qed

lemma append_row_inv:
  assumes "hs_inv s" and "can_append s row pos" and "row \<notin> set (hs_free_rows s)"
  shows "hs_inv (append_row row pos s)"
proof -
  let ?s = "append_row row pos s"
  have st: "stacks_ok s" and cells: "cells_ok s" and cons: "conserved s" and rows: "rows_ok s"
    using assms(1) by (simp_all add: hs_inv_def)
  have "stacks_ok ?s" using stacks_okD [OF st] by (auto simp: stacks_ok_def intro: order.trans [OF diff_le_self])
  moreover have "rows_ok ?s"
    using rows assms(3) by (auto simp: rows_ok_def append_row_cells) (metis append_row_cells(3))
  moreover have "cells_ok ?s"
    unfolding cells_ok_def
  proof (intro allI impI)
    fix l r h
    assume "l < layers ?s" "r < hs_rows ?s" "h < heads ?s"
    then show "cell_ok (width ?s) (slots ?s l r h) (positions ?s l r h) (lengths ?s l r h)"
      using append_cell_ok [OF cells assms(2)] cells by (cases "r = row") (auto simp: append_row_cells cells_ok_def)
  qed
  moreover have "conserved ?s"
    unfolding conserved_def
  proof (intro allI impI)
    fix l assume "l < layers ?s"
    then have l: "l < layers s" by simp
    have row: "row < hs_rows s" using assms(2) by (simp add: can_append_def)
    have use: "(\<Sum>h<heads s. mset (in_use ?s l row h)) = (\<Sum>h<heads s. mset (in_use s l row h)) +
        (\<Sum>h<heads s. mset (map (\<lambda>i. selected_slot s (length pos) l i h) [0..<length pos]))"
      using append_in_use [OF cells assms(2) l] by (simp add: sum.distrib)
    have "owned ?s l = owned s l +
        (\<Sum>h<heads s. mset (map (\<lambda>i. selected_slot s (length pos) l i h) [0..<length pos]))"
      using sum_row_change [OF row, of "\<lambda>r h. mset (in_use ?s l r h)" "\<lambda>r h. mset (in_use s l r h)" "heads s"] use
      by (simp add: owned_def in_use_def append_row_cells)
    then have "owned ?s l + mset (stack ?s l) = owned s l + mset (stack s l)"
      unfolding append_stack [OF st assms(2) l] by (simp only: ac_simps)
    then show "owned ?s l + mset (stack ?s l) = mset (map int [0..<capacities ?s ! l])"
      using cons l by (simp add: conserved_def)
  qed
  ultimately show ?thesis using assms(1) by (simp add: hs_inv_def)
qed

text \<open>A plan applied in the state it was made in.\<close>

definition logical :: "head_slots \<Rightarrow> nat \<Rightarrow> nat \<Rightarrow> nat \<Rightarrow> int list" where
  "logical s l r h = take (lengths s l r h) (positions s l r h)"

definition is_new :: "head_slots \<Rightarrow> int \<Rightarrow> bool" where
  "is_new s sid \<longleftrightarrow> sid \<notin> fst ` set (seq_rows s)"

lemma is_new_iff: "is_new s sid \<longleftrightarrow> map_of (seq_rows s) sid = None"
  by (simp add: is_new_def map_of_eq_None_iff)

lemma rev_butlast: "rev (butlast xs) = tl (rev xs)"
  by (cases xs rule: rev_cases) simp_all

lemma assign_rows_subset:
  "length (filter (is_new s) sids) \<le> length fr \<Longrightarrow>
   set (assign_rows s sids fr) \<subseteq> {r. \<exists>a\<in>set sids. map_of (seq_rows s) a = Some r} \<union> set fr"
proof (induction s sids fr rule: assign_rows.induct)
  case (2 s sid sids fr)
  show ?case
  proof (cases "map_of (seq_rows s) sid")
    case None
    then have "fr \<noteq> []" "length (filter (is_new s) sids) \<le> length (tl fr)"
      using "2.prems" is_new_iff [of s sid] by auto
    then show ?thesis using "2.IH"(1) [OF None] None by (auto dest: list.set_sel)
  next
    case (Some r)
    then show ?thesis using "2.IH"(2) [OF Some] "2.prems" by (auto simp: is_new_iff)
  qed
qed simp

lemma assign_rows_cong:
  "(\<And>a. a \<in> set sids \<Longrightarrow> map_of (seq_rows s) a = map_of (seq_rows t) a) \<Longrightarrow> assign_rows s sids fr = assign_rows t sids fr"
proof (induction sids arbitrary: fr)
  case (Cons a sids)
  then have "map_of (seq_rows s) a = map_of (seq_rows t) a" "assign_rows s sids fr = assign_rows t sids fr" for fr
    by auto
  then show ?case by (simp split: option.splits)
qed simp

definition claim_row :: "int \<Rightarrow> nat \<Rightarrow> head_slots \<Rightarrow> head_slots" where
  "claim_row sid row s =
     (if is_new s sid then s\<lparr>hs_free_rows := butlast (hs_free_rows s), seq_rows := dict_set sid row (seq_rows s)\<rparr> else s)"

lemma claim_row_sel [simp]:
  "capacities (claim_row sid row s) = capacities s" "heads (claim_row sid row s) = heads s"
  "width (claim_row sid row s) = width s" "hs_rows (claim_row sid row s) = hs_rows s"
  "slots (claim_row sid row s) = slots s" "positions (claim_row sid row s) = positions s"
  "lengths (claim_row sid row s) = lengths s" "free (claim_row sid row s) = free s"
  "free_counts (claim_row sid row s) = free_counts s" "generation (claim_row sid row s) = generation s"
  by (simp_all add: claim_row_def)

lemma claim_row_run:
  assumes "rows_ok s" and "is_new s sid \<Longrightarrow> hs_free_rows s \<noteq> []"
    and "row = hd (assign_rows s [sid] (rev (hs_free_rows s)))"
  shows "take_row sid row s = (Inr (), claim_row sid row s)"
    "map_of (seq_rows (claim_row sid row s)) = (map_of (seq_rows s))(sid \<mapsto> row)"
    "rows_ok (claim_row sid row s)" "row < hs_rows s" "row \<notin> set (hs_free_rows (claim_row sid row s))"
    "is_new s sid \<Longrightarrow> row \<in> set (hs_free_rows s)"
proof -
  note ok = assms(1) [unfolded rows_ok_def]
  show "take_row sid row s = (Inr (), claim_row sid row s)"
    using assms(2,3) is_new_iff [of s sid]
    by (cases "map_of (seq_rows s) sid") (auto simp: take_row_def claim_row_def is_new_def hd_rev)
  show upd: "map_of (seq_rows (claim_row sid row s)) = (map_of (seq_rows s))(sid \<mapsto> row)"
    using assms(3) by (auto simp: claim_row_def update_conv' is_new_iff split: option.splits)
  show new: "is_new s sid \<Longrightarrow> row \<in> set (hs_free_rows s)"
    using assms(2,3) by (auto simp: is_new_iff hd_rev)
  show "row < hs_rows s"
    using new ok assms(3) by (cases "is_new s sid") (auto simp: is_new_iff)
  have split: "is_new s sid \<Longrightarrow> hs_free_rows s = butlast (hs_free_rows s) @ [row]"
    using assms(2,3) by (auto simp: is_new_iff hd_rev)
  show notfree: "row \<notin> set (hs_free_rows (claim_row sid row s))"
  proof (cases "is_new s sid")
    case True
    then have "distinct (butlast (hs_free_rows s) @ [row])" using split ok by metis
    with True show ?thesis by (simp add: claim_row_def)
  next
    case False
    then have "row \<in> ran (map_of (seq_rows s))" using assms(3) by (auto simp: is_new_iff ran_def)
    with False ok show ?thesis by (auto simp: claim_row_def)
  qed
  show "rows_ok (claim_row sid row s)"
  proof (cases "is_new s sid")
    case True
    then have none: "map_of (seq_rows s) sid = None" by (simp add: is_new_iff)
    have fr: "set (hs_free_rows s) = insert row (set (hs_free_rows (claim_row sid row s)))"
      using split [OF True] True by (metis claim_row_def head_slots.select_convs(11) head_slots.surjective
          head_slots.update_convs(10,11) insert_is_Un set_append sup.commute list.set(1,2))
    have d: "distinct (hs_free_rows (claim_row sid row s))"
      using ok True by (simp add: claim_row_def distinct_butlast)
    have free: "r \<in> set (hs_free_rows s) \<longleftrightarrow> r < hs_rows s \<and> r \<notin> ran (map_of (seq_rows s))" for r
      using ok by blast
    have nr: "row \<notin> ran (map_of (seq_rows s))" "row < hs_rows s" using free new True by blast+
    have "r \<in> set (hs_free_rows (claim_row sid row s)) \<longleftrightarrow>
        r < hs_rows s \<and> r \<notin> ran (map_of (seq_rows (claim_row sid row s)))" for r
      unfolding upd using fr notfree free [of r] none by (cases "r = row") (auto simp: ran_map_upd)
    moreover have "inj_on (map_of (seq_rows (claim_row sid row s))) (dom (map_of (seq_rows (claim_row sid row s))))"
      unfolding upd using ok nr by (auto simp: inj_on_def ran_def dom_def)
    ultimately show ?thesis
      unfolding rows_ok_def using d nr ok fr by (auto simp: upd)
  qed (use assms(1) in \<open>simp add: claim_row_def\<close>)
qed

lemma logical_append:
  assumes "cells_ok s" and "can_append s row pos" and "l < layers s" and "h < heads s"
  shows "logical (append_row row pos s) l row h = logical s l row h @ pos"
proof -
  have "lengths s l row h + length pos \<le> length (positions s l row h)"
    using assms by (auto simp: can_append_def row_fits_def cells_ok_def cell_ok_def)
  then show ?thesis by (simp add: logical_def append_row_cells assms take_splice)
qed

definition same_row :: "head_slots \<Rightarrow> head_slots \<Rightarrow> nat \<Rightarrow> bool" where
  "same_row s t r \<longleftrightarrow>
     (\<forall>l h. slots t l r h = slots s l r h \<and> positions t l r h = positions s l r h \<and> lengths t l r h = lengths s l r h)"

lemma same_row_append: "r \<noteq> row \<Longrightarrow> same_row s (append_row row pos s) r"
  by (simp add: same_row_def append_row_cells)

lemma same_row_trans: "same_row s t r \<Longrightarrow> same_row t u r \<Longrightarrow> same_row s u r"
  by (simp add: same_row_def)

lemma check_rows_iff:
  "check_rows s xs = Inr () \<longleftrightarrow> (\<forall>(pos, row)\<in>set xs. row_fits s row pos \<and> row_follows s row pos)"
  by (induction s xs rule: check_rows.induct) auto

definition batch_ok :: "head_slots \<Rightarrow> (int \<times> int list) list \<Rightarrow> nat list \<Rightarrow> bool" where
  "batch_ok s reqs rows \<longleftrightarrow>
     distinct (map fst reqs) \<and> (\<forall>(sid, pos)\<in>set reqs. positions_ok pos) \<and>
     length (filter (is_new s) (map fst reqs)) \<le> length (hs_free_rows s) \<and>
     (\<forall>l<layers s. heads s * sum_list (map (\<lambda>(sid, pos). length pos) reqs) \<le> free_counts s ! l) \<and>
     rows = assign_rows s (map fst reqs) (rev (hs_free_rows s)) \<and>
     (\<forall>(pos, row)\<in>set (zip (map snd reqs) rows). row_fits s row pos \<and> row_follows s row pos)"

lemma length_assign_rows [simp]: "length (assign_rows s sids fr) = length sids"
  by (induction s sids fr rule: assign_rows.induct) (simp_all split: option.splits)

lemma batch_ok_step:
  assumes "rows_ok s" and "stacks_ok s" and "batch_ok s ((sid, pos) # reqs) rows"
  defines "row \<equiv> hd rows" and "t \<equiv> append_row (hd rows) pos (claim_row sid (hd rows) s)"
  shows "rows = row # tl rows" "is_new s sid \<Longrightarrow> hs_free_rows s \<noteq> []"
    "row = hd (assign_rows s [sid] (rev (hs_free_rows s)))"
    "batch_ok t reqs (tl rows)" "row \<notin> set (tl rows)" "can_append (claim_row sid row s) row pos"
proof -
  note B = assms(3) [unfolded batch_ok_def]
  show nonempty: "is_new s sid \<Longrightarrow> hs_free_rows s \<noteq> []" using B by auto
  show rows: "rows = row # tl rows" using B by (cases rows) (auto simp: row_def split: option.splits)
  show row: "row = hd (assign_rows s [sid] (rev (hs_free_rows s)))"
    using B by (auto simp: row_def split: option.splits)
  note C = claim_row_run [OF assms(1) nonempty row]
  have t_rows: "map_of (seq_rows t) = (map_of (seq_rows s))(sid \<mapsto> row)" using C(2) by (simp add: t_def row_def)
  have t_free: "hs_free_rows t = (if is_new s sid then butlast (hs_free_rows s) else hs_free_rows s)"
    by (simp add: t_def claim_row_def)
  have fresh: "sid \<notin> set (map fst reqs)" using B by simp
  have new: "is_new t a = is_new s a" if "a \<in> set (map fst reqs)" for a
    using that fresh by (auto simp: is_new_iff t_rows)
  then have fl: "filter (is_new t) (map fst reqs) = filter (is_new s) (map fst reqs)" by (rule filter_cong [OF refl])
  have tl: "tl rows = assign_rows t (map fst reqs) (rev (hs_free_rows t))"
  proof -
    have "assign_rows t (map fst reqs) fr = assign_rows s (map fst reqs) fr" for fr
      by (rule assign_rows_cong) (use fresh t_rows in auto)
    with B show ?thesis by (auto simp: t_free is_new_iff rev_butlast split: option.splits)
  qed
  have cnt: "length (filter (is_new t) (map fst reqs)) \<le> length (hs_free_rows t)"
    using B by (auto simp: fl t_free)
  show notin: "row \<notin> set (tl rows)"
  proof
    assume "row \<in> set (tl rows)"
    then have "(\<exists>a\<in>set (map fst reqs). map_of (seq_rows t) a = Some row) \<or> row \<in> set (hs_free_rows t)"
      using assign_rows_subset [of t "map fst reqs" "rev (hs_free_rows t)"] cnt unfolding tl by auto
    moreover have "row \<notin> set (hs_free_rows t)" using C(5) by (simp add: t_def row_def)
    moreover have "inj_on (map_of (seq_rows t)) (dom (map_of (seq_rows t)))"
      using C(3) by (simp add: rows_ok_def t_def row_def)
    moreover have "map_of (seq_rows t) sid = Some row" by (simp add: t_rows)
    ultimately show False using fresh by (metis domI inj_onD)
  qed
  have zips: "set (zip (map snd ((sid, pos) # reqs)) rows) = insert (pos, row) (set (zip (map snd reqs) (tl rows)))"
    by (subst rows) simp
  have rest: "row_fits t r p \<and> row_follows t r p" if "(p, r) \<in> set (zip (map snd reqs) (tl rows))" for p r
  proof -
    have "r \<noteq> row" using that notin by (auto dest: set_zip_rightD)
    moreover have "row_fits s r p \<and> row_follows s r p" using B zips that by blast
    ultimately show ?thesis
      by (simp add: row_fits_def row_follows_def t_def append_row_cells row_def)
  qed
  show "can_append (claim_row sid row s) row pos"
    using B C(4) zips by (auto simp: can_append_def row_fits_def row_follows_def algebra_simps
        intro: order.trans [OF _ add_leD1])
  have "heads s * sum_list (map (\<lambda>(sid, pos). length pos) reqs) \<le> free_counts t ! l" if "l < layers s" for l
    using B that stacks_okD(2) [OF assms(2)] by (auto simp: t_def algebra_simps)
  then show "batch_ok t reqs (tl rows)"
    using B cnt tl rest by (auto simp: batch_ok_def t_def)
qed

lemma hs_inv_claim:
  assumes "hs_inv s" and "rows_ok (claim_row sid row s)"
  shows "hs_inv (claim_row sid row s)"
  using assms
  by (simp add: hs_inv_def stacks_ok_def cells_ok_def conserved_def owned_def in_use_def stack_def)

lemma apply_loop_ok:
  "hs_inv s \<Longrightarrow> batch_ok s reqs rows \<Longrightarrow>
   \<exists>ws s'. apply_loop (zip (map fst reqs) (zip rows (map snd reqs))) s = (Inr ws, s') \<and> hs_inv s' \<and>
     layers s' = layers s \<and> heads s' = heads s \<and> generation s' = generation s \<and>
     map_of (seq_rows s') = map_of (seq_rows s) ++ map_of (zip (map fst reqs) rows) \<and>
     free_counts s' = map (\<lambda>c. c - heads s * sum_list (map (\<lambda>(sid, pos). length pos) reqs)) (free_counts s) \<and>
     (\<forall>k<length reqs. \<forall>l<layers s. \<forall>h<heads s.
        logical s' l (rows ! k) h = logical s l (rows ! k) h @ snd (reqs ! k)) \<and>
     (\<forall>r. r \<notin> set rows \<longrightarrow> same_row s s' r)"
proof (induction reqs arbitrary: s rows)
  case Nil
  then show ?case by (auto simp: eff_simps same_row_def batch_ok_def)
next
  case (Cons req reqs)
  obtain sid pos where req: "req = (sid, pos)" by fastforce
  have inv: "rows_ok s" "stacks_ok s" "cells_ok s" using Cons.prems(1) by (simp_all add: hs_inv_def)
  define row where "row = hd rows"
  define c where "c = claim_row sid row s"
  define t where "t = append_row row pos c"
  note B = batch_ok_step [OF inv(1,2) Cons.prems(2) [unfolded req], folded row_def, folded c_def, folded t_def]
  note C = claim_row_run [OF inv(1) B(2,3), folded c_def]
  have cinv: "hs_inv c" unfolding c_def by (rule hs_inv_claim [OF Cons.prems(1)]) (use C(3) in \<open>simp add: c_def\<close>)
  then have ccells: "cells_ok c" by (simp add: hs_inv_def)
  have tinv: "hs_inv t" unfolding t_def by (rule append_row_inv [OF cinv B(6) C(5)])
  have sel: "layers c = layers s" "heads c = heads s" "layers t = layers s" "heads t = heads s"
    "generation t = generation s" "map_of (seq_rows t) = (map_of (seq_rows s))(sid \<mapsto> row)"
    "free_counts t = map (\<lambda>c. c - length pos * heads s) (free_counts s)"
    using C(2) by (simp_all add: t_def c_def)
  obtain ws s' where run: "apply_loop (zip (map fst reqs) (zip (tl rows) (map snd reqs))) t = (Inr ws, s')"
    and inv': "hs_inv s'" and sel': "layers s' = layers t" "heads s' = heads t" "generation s' = generation t"
    and rows': "map_of (seq_rows s') = map_of (seq_rows t) ++ map_of (zip (map fst reqs) (tl rows))"
    and fc': "free_counts s' = map (\<lambda>c. c - heads t * sum_list (map (\<lambda>(sid, pos). length pos) reqs)) (free_counts t)"
    and log': "\<And>k l h. k < length reqs \<Longrightarrow> l < layers t \<Longrightarrow> h < heads t \<Longrightarrow>
        logical s' l (tl rows ! k) h = logical t l (tl rows ! k) h @ snd (reqs ! k)"
    and same': "\<And>r. r \<notin> set (tl rows) \<Longrightarrow> same_row t s' r"
    using Cons.IH [OF tinv B(4)] by blast
  have same: "same_row s t r" if "r \<noteq> row" for r
    using same_row_append [OF that, of c pos] by (simp add: t_def c_def same_row_def)
  have "sid \<notin> set (map fst reqs)" using Cons.prems(2) by (simp add: batch_ok_def req)
  then have fresh: "sid \<notin> dom (map_of (zip (map fst reqs) (tl rows)))"
    by (meson domD map_of_SomeD set_zip_leftD)
  have logk: "logical s' l (rows ! k) h = logical s l (rows ! k) h @ snd ((req # reqs) ! k)"
    if k: "k < length (req # reqs)" and l: "l < layers s" and h: "h < heads s" for k l h
  proof (cases k)
    case 0
    have "rows ! 0 = row" by (subst B(1)) simp
    moreover have "logical s' l row h = logical t l row h" using same' [OF B(5)] by (simp add: logical_def same_row_def)
    moreover have "logical t l row h = logical c l row h @ pos"
      using logical_append [OF ccells B(6)] l h sel by (simp add: t_def)
    moreover have "logical c l row h = logical s l row h" by (simp add: c_def logical_def)
    ultimately show ?thesis by (simp add: 0 req)
  next
    case (Suc j)
    have len: "length (tl rows) = length reqs" using B(4) by (simp add: batch_ok_def)
    have "rows ! Suc j = tl rows ! j" by (subst B(1)) simp
    moreover have "tl rows ! j \<noteq> row" using B(5) k len Suc by (metis Suc_less_eq length_Cons nth_mem)
    moreover have "logical t l r h = logical s l r h" if "r \<noteq> row" for r
      using same [OF that] by (simp add: logical_def same_row_def)
    ultimately show ?thesis using log' [of j l h] k l h sel Suc by simp
  qed
  have go: "apply_loop (zip (map fst (req # reqs)) (zip rows (map snd (req # reqs)))) s =
      (Inr ((batch_writes (length pos) c, batch_columns row (length pos) c) # ws), s')"
    by (subst B(1)) (use run C(1) in \<open>simp add: req eff_simps t_def c_def\<close>)
  have seq': "map_of (seq_rows s') = map_of (seq_rows s) ++ map_of (zip (map fst (req # reqs)) rows)"
    by (subst B(1)) (use rows' fresh sel in \<open>simp add: req map_add_upd_left\<close>)
  have fc: "free_counts s' = map (\<lambda>c. c - heads s * sum_list (map (\<lambda>(sid, pos). length pos) (req # reqs))) (free_counts s)"
    using fc' sel by (simp add: req comp_def algebra_simps)
  have rest: "same_row s s' r" if "r \<notin> set rows" for r
    using same [of r] same' [of r] same_row_trans that B(1) by (metis list.set_intros)
  show ?case
    using go inv' sel sel' seq' fc logk rest by (intro exI [of _ "(batch_writes (length pos) c, batch_columns row (length pos) c) # ws"] exI [of _ s']) simp
qed

lemma plan_append_ok:
  assumes "stacks_ok s" and "plan_append s reqs = Inr plan"
  shows "batch_ok s reqs (plan_rows plan)" "plan_generation plan = generation s" "reqs \<noteq> []"
    "plan_seq_ids plan = map fst reqs" "plan_positions plan = map snd reqs"
proof -
  have "length (filter (\<lambda>sid. sid \<notin> fst ` set (seq_rows s)) (map fst reqs)) = length (filter (is_new s) (map fst reqs))"
    by (simp add: is_new_def [abs_def])
  moreover have "(\<exists>c\<in>set (free_counts s). c < n) \<longleftrightarrow> \<not> (\<forall>l<layers s. n \<le> free_counts s ! l)" for n
    using stacks_okD(2) [OF assms(1)] by (metis in_set_conv_nth not_le)
  ultimately show "batch_ok s reqs (plan_rows plan)" "plan_generation plan = generation s" "reqs \<noteq> []"
    "plan_seq_ids plan = map fst reqs" "plan_positions plan = map snd reqs"
    using assms(2)
    by (auto simp: plan_append_def Let_def bindR_eq_Inr check_rows_iff batch_ok_def split: if_splits)
qed

section \<open>Compaction\<close>

lemma selection_props:
  assumes "selection_ok n idx"
  shows "\<forall>i\<in>set idx. 0 \<le> i \<and> i < int n" "distinct idx" "length idx \<le> n" "idx \<noteq> []"
proof -
  have s: "sorted_wrt (<) idx" and ne: "idx \<noteq> []" and b: "0 \<le> hd idx" "last idx < int n"
    using assms by (simp_all add: selection_ok_def)
  have "hd idx \<le> i" "i \<le> last idx" if "i \<in> set idx" for i
  proof -
    show "hd idx \<le> i" using that s by (cases idx) auto
    show "i \<le> last idx" using that s by (cases idx rule: rev_cases) (auto simp: sorted_wrt_append)
  qed
  with b show bd: "\<forall>i\<in>set idx. 0 \<le> i \<and> i < int n" by force
  show d: "distinct idx" using s by (simp add: strict_sorted_iff)
  have "set idx \<subseteq> int ` {..<n}" using bd by (auto simp: image_iff) (metis nat_int nat_less_iff lessThan_iff int_nat_eq)
  then have "card (set idx) \<le> n" by (metis card_image_le card_lessThan card_mono finite_imageI finite_lessThan le_trans)
  then show "length idx \<le> n" using d by (simp add: distinct_card)
  show "idx \<noteq> []" by (rule ne)
qed

lemma selection_partition:
  assumes "selection_ok (length xs) idx"
  shows "mset (take_indices xs idx) + mset (drop_indices xs idx) = mset xs"
proof -
  note p = selection_props [OF assms]
  let ?P = "\<lambda>i. int i \<in> set idx"
  have d: "distinct (map nat idx)" using p(1,2) by (auto simp: distinct_map intro!: inj_onI) (metis int_nat_eq)
  have "set (map nat idx) = set (filter ?P [0..<length xs])" using p(1) by (force simp: image_iff)
  then have "mset (map nat idx) = mset (filter ?P [0..<length xs])"
    using d set_eq_iff_mset_eq_distinct [of "map nat idx" "filter ?P [0..<length xs]"]
    by (metis distinct_filter distinct_upt)
  then have "mset (map (nth xs) (map nat idx)) = mset (map (nth xs) (filter ?P [0..<length xs]))"
    by (metis mset_map)
  then have "mset (take_indices xs idx) + mset (drop_indices xs idx) =
      mset (map (nth xs) (filter ?P [0..<length xs])) + mset (map (nth xs) (filter (\<lambda>i. \<not> ?P i) [0..<length xs]))"
    by (simp add: take_indices_def drop_indices_def comp_def)
  also have "\<dots> = image_mset (nth xs) (mset (filter ?P [0..<length xs]) + mset (filter (\<lambda>i. \<not> ?P i) [0..<length xs]))"
    by simp
  also have "mset (filter ?P [0..<length xs]) + mset (filter (\<lambda>i. \<not> ?P i) [0..<length xs]) = mset [0..<length xs]"
    by (metis mset_filter multiset_partition)
  also have "image_mset (nth xs) (mset [0..<length xs]) = mset xs" by (metis map_nth mset_map)
  finally show ?thesis .
qed

definition write_cell :: "nat \<Rightarrow> nat \<Rightarrow> nat \<Rightarrow> int list \<Rightarrow> int list \<Rightarrow> nat \<Rightarrow> head_slots \<Rightarrow> head_slots" where
  "write_cell l row h sl ps n s =
     s\<lparr>slots := (slots s)(l := (slots s l)(row := (slots s l row)(h := sl))),
       positions := (positions s)(l := (positions s l)(row := (positions s l row)(h := ps))),
       lengths := (lengths s)(l := (lengths s l)(row := (lengths s l row)(h := n)))\<rparr>"

lemma compact_head_eq:
  "compact_head l row h idx s =
     write_cell l row h
       (take_indices (in_use s l row h) idx @ replicate (lengths s l row h - length idx) (- 1)
          @ drop (lengths s l row h) (slots s l row h))
       (take_indices (positions s l row h) idx @ replicate (lengths s l row h - length idx) (- 1)
          @ drop (lengths s l row h) (positions s l row h))
       (length idx) (push l (drop_indices (in_use s l row h) idx) s)"
  by (simp add: compact_head_def write_cell_def push_def in_use_def Let_def)

lemma owned_write_cell:
  assumes "row < hs_rows s" and "h < heads s"
  shows "owned (write_cell l row h sl ps n s) l + mset (in_use s l row h) = owned s l + mset (take n sl)"
proof -
  let ?t = "write_cell l row h sl ps n s"
  have "(\<Sum>r<hs_rows s. \<Sum>h<heads s. mset (in_use ?t l r h)) + (\<Sum>h<heads s. mset (in_use s l row h)) =
      (\<Sum>r<hs_rows s. \<Sum>h<heads s. mset (in_use s l r h)) + (\<Sum>h<heads s. mset (in_use ?t l row h))"
    by (rule sum_row_change [OF assms(1)]) (simp add: in_use_def write_cell_def)
  moreover have "(\<Sum>h<heads s. mset (in_use ?t l row h)) + mset (in_use s l row h) =
      (\<Sum>h<heads s. mset (in_use s l row h)) + mset (take n sl)"
  proof -
    have "(\<Sum>h'\<in>{..<heads s} - {h}. mset (in_use ?t l row h')) = (\<Sum>h'\<in>{..<heads s} - {h}. mset (in_use s l row h'))"
      by (rule sum.cong) (auto simp: in_use_def write_cell_def)
    moreover have "in_use ?t l row h = take n sl" by (simp add: in_use_def write_cell_def)
    ultimately show ?thesis
      using assms(2) sum.remove [of "{..<heads s}" h "\<lambda>h. mset (in_use ?t l row h)"]
        sum.remove [of "{..<heads s}" h "\<lambda>h. mset (in_use s l row h)"] by (simp add: ac_simps)
  qed
  ultimately have "owned ?t l + mset (in_use s l row h) + (\<Sum>h<heads s. mset (in_use s l row h)) =
      owned s l + mset (take n sl) + (\<Sum>h<heads s. mset (in_use s l row h))"
    unfolding owned_def by (simp add: write_cell_def [of l row h sl ps n s] ac_simps)
  then show ?thesis by simp
qed

lemma in_use_bound:
  assumes "hs_inv s" and "l < layers s" and "row < hs_rows s" and "h < heads s"
  shows "mset (in_use s l row h) \<subseteq># owned s l" "length (in_use s l row h) = lengths s l row h"
    "length (stack s l) + length (in_use s l row h) \<le> capacities s ! l"
proof -
  have "mset (in_use s l row h) \<subseteq># (\<Sum>h<heads s. mset (in_use s l row h))"
    using assms(4) by (simp add: sum.remove [of "{..<heads s}" h])
  also have "\<dots> \<subseteq># owned s l"
    unfolding owned_def using assms(3) by (simp add: sum.remove [of "{..<hs_rows s}" row])
  finally show sub: "mset (in_use s l row h) \<subseteq># owned s l" .
  show "length (in_use s l row h) = lengths s l row h"
    using assms by (auto simp: hs_inv_def cells_ok_def cell_ok_def in_use_def)
  have "owned s l + mset (stack s l) = mset (map int [0..<capacities s ! l])"
    using assms(1,2) by (simp add: hs_inv_def conserved_def)
  then have "size (owned s l) + length (stack s l) = capacities s ! l"
    by (metis length_map length_upt minus_nat.diff_0 size_mset size_union)
  with size_mset_mono [OF sub] show "length (stack s l) + length (in_use s l row h) \<le> capacities s ! l"
    by simp
qed

lemma write_cell_sel [simp]:
  "capacities (write_cell l row h sl ps n s) = capacities s" "heads (write_cell l row h sl ps n s) = heads s"
  "width (write_cell l row h sl ps n s) = width s" "hs_rows (write_cell l row h sl ps n s) = hs_rows s"
  "free (write_cell l row h sl ps n s) = free s" "free_counts (write_cell l row h sl ps n s) = free_counts s"
  "seq_rows (write_cell l row h sl ps n s) = seq_rows s" "hs_free_rows (write_cell l row h sl ps n s) = hs_free_rows s"
  "generation (write_cell l row h sl ps n s) = generation s" "stack (write_cell l row h sl ps n s) = stack s"
  "stacks_ok (write_cell l row h sl ps n s) = stacks_ok s"
  by (simp_all add: write_cell_def stack_def [abs_def] stacks_ok_def)

lemma write_cell_other:
  "(l', row', h') \<noteq> (l, row, h) \<Longrightarrow>
     slots (write_cell l row h sl ps n s) l' row' h' = slots s l' row' h' \<and>
     positions (write_cell l row h sl ps n s) l' row' h' = positions s l' row' h' \<and>
     lengths (write_cell l row h sl ps n s) l' row' h' = lengths s l' row' h'"
  by (auto simp: write_cell_def)

lemma write_cell_here:
  "slots (write_cell l row h sl ps n s) l row h = sl" "positions (write_cell l row h sl ps n s) l row h = ps"
  "lengths (write_cell l row h sl ps n s) l row h = n"
  by (simp_all add: write_cell_def)

lemma sorted_take_indices:
  assumes "selection_ok n idx" and "n \<le> length xs" and "sorted_wrt (<) (take n xs)"
  shows "sorted_wrt (<) (take_indices xs idx)"
proof -
  note p = selection_props [OF assms(1)]
  have "sorted_wrt (<) idx" using assms(1) by (simp add: selection_ok_def)
  then have "sorted_wrt (\<lambda>i j. xs ! nat i < xs ! nat j) idx"
  proof (rule sorted_wrt_mono_rel [rotated])
    fix i j assume ij: "i \<in> set idx" "j \<in> set idx" "i < j"
    then have "nat i < nat j" "nat j < n" "nat i < n" using p(1) by auto
    with sorted_wrt_nth_less [OF assms(3), of "nat i" "nat j"] assms(2)
    show "xs ! nat i < xs ! nat j" by simp
  qed
  then show ?thesis by (simp add: take_indices_def sorted_wrt_map)
qed

text \<open>The two halves of a compaction: the rewritten cell and the slots pushed back.\<close>

definition kept_slots :: "head_slots \<Rightarrow> nat \<Rightarrow> nat \<Rightarrow> nat \<Rightarrow> int list \<Rightarrow> int list" where
  "kept_slots s l row h idx =
     take_indices (in_use s l row h) idx @ replicate (lengths s l row h - length idx) (- 1)
       @ drop (lengths s l row h) (slots s l row h)"

definition kept_positions :: "head_slots \<Rightarrow> nat \<Rightarrow> nat \<Rightarrow> nat \<Rightarrow> int list \<Rightarrow> int list" where
  "kept_positions s l row h idx =
     take_indices (positions s l row h) idx @ replicate (lengths s l row h - length idx) (- 1)
       @ drop (lengths s l row h) (positions s l row h)"

lemma compact_head_split:
  "compact_head l row h idx s =
     write_cell l row h (kept_slots s l row h idx) (kept_positions s l row h idx) (length idx)
       (push l (drop_indices (in_use s l row h) idx) s)"
  by (simp add: compact_head_eq kept_slots_def kept_positions_def)

lemma compact_cell_ok:
  assumes old: "cell_ok (width s) (slots s l row h) (positions s l row h) (lengths s l row h)"
    and sel_ok: "selection_ok (lengths s l row h) idx"
  shows "cell_ok (width s) (kept_slots s l row h idx) (kept_positions s l row h idx) (length idx)"
  unfolding cell_ok_def kept_slots_def kept_positions_def
proof (intro conjI allI impI ballI)
  note sel = selection_props [OF sel_ok]
  let ?n = "lengths s l row h"
  let ?ps = "take_indices (positions s l row h) idx @ replicate (?n - length idx) (- 1) @ drop ?n (positions s l row h)"
  show "sorted_wrt (<) (take (length idx) ?ps)"
    using sorted_take_indices [OF sel_ok, of "positions s l row h"] old by (simp add: cell_ok_def take_indices_def)
  fix p assume "p \<in> set (take (length idx) ?ps)"
  then have "p \<in> set (take_indices (positions s l row h) idx)" by (simp add: take_indices_def)
  then obtain i where "i \<in> set idx" "p = positions s l row h ! nat i" by (auto simp: take_indices_def)
  moreover from this sel(1) have "nat i < ?n" by auto
  ultimately have "p \<in> set (take ?n (positions s l row h))"
    using old by (auto simp: cell_ok_def in_set_conv_nth intro!: exI [of _ "nat i"])
  with old show "0 \<le> p" "p \<le> int32_max" by (auto simp: cell_ok_def)
qed (use old selection_props [OF sel_ok] in \<open>auto simp: cell_ok_def nth_append take_indices_def in_use_def\<close>)

lemma compact_owned:
  assumes "hs_inv s" and "l < layers s" and "row < hs_rows s" and "h < heads s"
    and "selection_ok (lengths s l row h) idx"
  shows "owned (compact_head l row h idx s) l + mset (drop_indices (in_use s l row h) idx) = owned s l"
    "l' \<noteq> l \<Longrightarrow> owned (compact_head l row h idx s) l' = owned s l'"
    "length (stack s l) + length (drop_indices (in_use s l row h) idx) \<le> capacities s ! l"
proof -
  let ?use = "in_use s l row h" and ?gone = "drop_indices (in_use s l row h) idx" and ?u = "compact_head l row h idx s"
  note U = in_use_bound [OF assms(1-4)]
  have part: "mset (take_indices ?use idx) + mset ?gone = mset ?use"
    using selection_partition [of ?use idx] assms(5) U(2) by simp
  then have "length ?gone \<le> length ?use" by (metis add_leE order_refl size_mset size_union)
  then show "length (stack s l) + length ?gone \<le> capacities s ! l" using U(3) by simp
  have "owned ?u l + mset ?use = owned s l + mset (take_indices ?use idx)"
    using owned_write_cell [of row "push l ?gone s" h l "kept_slots s l row h idx" "kept_positions s l row h idx" "length idx"]
      assms(3,4) by (simp add: compact_head_split in_use_def take_indices_def kept_slots_def owned_def)
  then have "owned ?u l + mset ?gone + mset (take_indices ?use idx) = owned s l + mset (take_indices ?use idx)"
    unfolding part [symmetric] by (simp only: ac_simps)
  then show "owned ?u l + mset ?gone = owned s l" by simp
  show "owned ?u l' = owned s l'" if "l' \<noteq> l"
    unfolding owned_def compact_head_split
    by (intro sum.cong refl) (simp_all add: in_use_def write_cell_def that)
qed

lemma compact_head_inv:
  assumes "hs_inv s" and "l < layers s" and "row < hs_rows s" and "row \<notin> set (hs_free_rows s)" and "h < heads s"
    and "selection_ok (lengths s l row h) idx"
  shows "hs_inv (compact_head l row h idx s)"
proof -
  let ?gone = "drop_indices (in_use s l row h) idx" and ?u = "compact_head l row h idx s"
  note O = compact_owned [OF assms(1-3,5,6)]
  have st: "stacks_ok s" and cells: "cells_ok s" and rows: "rows_ok s" and cons: "conserved s"
    using assms(1) by (simp_all add: hs_inv_def)
  note P = push_stack [OF st assms(2) O(3)]
  have "cell_ok (width s) (kept_slots s l row h idx) (kept_positions s l row h idx) (length idx)"
    using compact_cell_ok cells assms by (simp add: cells_ok_def)
  then have "cell_ok (width s) (slots ?u l' r' h') (positions ?u l' r' h') (lengths ?u l' r' h')"
    if "l' < layers s" "r' < hs_rows s" "h' < heads s" for l' r' h'
    using that cells unfolding compact_head_split
    by (cases "(l', r', h') = (l, row, h)") (auto simp: write_cell_here write_cell_other cells_ok_def)
  then have "cells_ok ?u" by (simp add: cells_ok_def compact_head_split)
  moreover have "owned ?u l' + mset (stack ?u l') = mset (map int [0..<capacities s ! l'])" if "l' < layers s" for l'
  proof (cases "l' = l")
    case True
    have "owned ?u l + mset (stack ?u l) = owned ?u l + mset ?gone + mset (stack s l)"
      using P(2) by (simp add: compact_head_split ac_simps)
    with True cons that O(1) show ?thesis by (simp add: conserved_def)
  next
    case False
    with O(2) cons that P(3) show ?thesis by (simp add: conserved_def compact_head_split)
  qed
  then have "conserved ?u" by (simp add: conserved_def compact_head_split)
  moreover have "rows_ok ?u"
    using rows assms(4) by (auto simp: rows_ok_def compact_head_split write_cell_def)
  ultimately show ?thesis using assms(1) P(1) by (simp add: hs_inv_def compact_head_split)
qed

definition same_cell :: "head_slots \<Rightarrow> head_slots \<Rightarrow> nat \<Rightarrow> nat \<Rightarrow> nat \<Rightarrow> bool" where
  "same_cell s t l r h \<longleftrightarrow>
     slots t l r h = slots s l r h \<and> positions t l r h = positions s l r h \<and> lengths t l r h = lengths s l r h"

definition selected :: "head_slots \<Rightarrow> head_slots \<Rightarrow> nat \<Rightarrow> nat \<Rightarrow> nat \<Rightarrow> int list \<Rightarrow> bool" where
  "selected s t l r h idx \<longleftrightarrow>
     logical t l r h = take_indices (logical s l r h) idx \<and> in_use t l r h = take_indices (in_use s l r h) idx"

lemma selected_cong:
  "same_cell s s' l r h \<Longrightarrow> same_cell t t' l r h \<Longrightarrow> selected s t l r h idx \<Longrightarrow> selected s' t' l r h idx"
  by (simp add: selected_def same_cell_def logical_def in_use_def)

lemma same_cell_refl [simp]: "same_cell s s l r h"
  by (simp add: same_cell_def)

lemma same_cell_trans: "same_cell s t l r h \<Longrightarrow> same_cell t u l r h \<Longrightarrow> same_cell s u l r h"
  by (simp add: same_cell_def)

lemma same_cell_sym: "same_cell s t l r h \<Longrightarrow> same_cell t s l r h"
  by (simp add: same_cell_def)

lemma compact_head_effect:
  assumes "hs_inv s" and "l < layers s" and "row < hs_rows s" and "h < heads s"
    and "selection_ok (lengths s l row h) idx"
  shows "selected s (compact_head l row h idx s) l row h idx"
    "(l', r', h') \<noteq> (l, row, h) \<Longrightarrow> same_cell s (compact_head l row h idx s) l' r' h'"
    "free_counts (compact_head l row h idx s) =
       (free_counts s)[l := free_counts s ! l + length (drop_indices (in_use s l row h) idx)]"
proof -
  note sel = selection_props [OF assms(5)]
  have "positions s l row h ! nat i = logical s l row h ! nat i" if "i \<in> set idx" for i
    using sel(1) that by (auto simp: logical_def)
  then have "take_indices (positions s l row h) idx = take_indices (logical s l row h) idx"
    by (simp add: take_indices_def)
  then show "selected s (compact_head l row h idx s) l row h idx"
    by (simp add: selected_def compact_head_split logical_def [of "write_cell l row h a b c d" for a b c d]
        in_use_def [of "write_cell l row h a b c d" for a b c d] write_cell_here kept_slots_def kept_positions_def take_indices_def)
  show "(l', r', h') \<noteq> (l, row, h) \<Longrightarrow> same_cell s (compact_head l row h idx s) l' r' h'"
    by (simp add: compact_head_split same_cell_def write_cell_other)
  show "free_counts (compact_head l row h idx s) =
       (free_counts s)[l := free_counts s ! l + length (drop_indices (in_use s l row h) idx)]"
    by (simp add: compact_head_split push_def)
qed

lemma compact_head_sel [simp]:
  "capacities (compact_head l row h idx s) = capacities s" "heads (compact_head l row h idx s) = heads s"
  "hs_rows (compact_head l row h idx s) = hs_rows s" "seq_rows (compact_head l row h idx s) = seq_rows s"
  "hs_free_rows (compact_head l row h idx s) = hs_free_rows s" "generation (compact_head l row h idx s) = generation s"
  "width (compact_head l row h idx s) = width s"
  by (simp_all add: compact_head_split)

definition frame_eq :: "head_slots \<Rightarrow> head_slots \<Rightarrow> bool" where
  "frame_eq s t \<longleftrightarrow>
     capacities t = capacities s \<and> heads t = heads s \<and> hs_rows t = hs_rows s \<and> seq_rows t = seq_rows s \<and>
     hs_free_rows t = hs_free_rows s \<and> generation t = generation s \<and> length (free_counts t) = length (free_counts s)"

lemma compact_heads_ok:
  "compact_heads l row h sel s = (c, t) \<Longrightarrow> hs_inv s \<Longrightarrow> l < layers s \<Longrightarrow> row < hs_rows s \<Longrightarrow>
   row \<notin> set (hs_free_rows s) \<Longrightarrow> h + length sel \<le> heads s \<Longrightarrow>
   (\<And>j. j < length sel \<Longrightarrow> selection_ok (lengths s l row (h + j)) (sel ! j)) \<Longrightarrow>
   hs_inv t \<and> frame_eq s t \<and> free_counts t = (free_counts s)[l := free_counts s ! l + c] \<and>
   (\<forall>j<length sel. selected s t l row (h + j) (sel ! j)) \<and>
   (\<forall>l' r' h'. l' \<noteq> l \<or> r' \<noteq> row \<or> h' < h \<or> h + length sel \<le> h' \<longrightarrow> same_cell s t l' r' h')"
proof (induction sel arbitrary: h s c)
  case Nil
  then show ?case by (simp add: frame_eq_def)
next
  case (Cons idx sel)
  let ?s1 = "compact_head l row h idx s"
  obtain c1 where run: "compact_heads l row (Suc h) sel ?s1 = (c1, t)"
    and c: "c = length (drop_indices (in_use s l row h) idx) + c1"
    using Cons.prems(1) by (auto simp: in_use_def split: prod.splits)
  have sel0: "selection_ok (lengths s l row h) idx" using Cons.prems(7) [of 0] by simp
  have h: "h < heads s" using Cons.prems(6) by simp
  note E = compact_head_effect [OF Cons.prems(2-4) h sel0]
  have inv1: "hs_inv ?s1" using compact_head_inv [OF Cons.prems(2-5) h sel0] .
  have later: "selection_ok (lengths ?s1 l row (Suc h + j)) (sel ! j)" if "j < length sel" for j
    using Cons.prems(7) [of "Suc j"] that E(2) [of l row "Suc h + j"] by (simp add: same_cell_def)
  have I: "hs_inv t \<and> frame_eq ?s1 t \<and> free_counts t = (free_counts ?s1)[l := free_counts ?s1 ! l + c1] \<and>
     (\<forall>j<length sel. selected ?s1 t l row (Suc h + j) (sel ! j)) \<and>
     (\<forall>l' r' h'. l' \<noteq> l \<or> r' \<noteq> row \<or> h' < Suc h \<or> Suc h + length sel \<le> h' \<longrightarrow> same_cell ?s1 t l' r' h')"
    by (rule Cons.IH [OF run inv1 _ _ _ _ later]) (use Cons.prems in auto)
  have "selected s t l row (h + j) ((idx # sel) ! j)" if "j < length (idx # sel)" for j
  proof (cases j)
    case 0
    have "same_cell ?s1 t l row h" using I by simp
    then show ?thesis using E(1) selected_cong [OF same_cell_refl] 0 by simp
  next
    case (Suc k)
    then have "selected ?s1 t l row (h + j) (sel ! k)" using I that by simp
    moreover have "same_cell ?s1 s l row (h + j)" using E(2) Suc by (auto intro: same_cell_sym)
    ultimately show ?thesis using selected_cong [OF _ same_cell_refl] Suc by simp
  qed
  moreover have "same_cell s t l' r' h'"
    if "l' \<noteq> l \<or> r' \<noteq> row \<or> h' < h \<or> h + length (idx # sel) \<le> h'" for l' r' h'
    using that I E(2) [of l' r' h'] by (auto intro: same_cell_trans)
  moreover have "frame_eq s t" using I by (simp add: frame_eq_def E(3))
  moreover have "free_counts t = (free_counts s)[l := free_counts s ! l + c]"
    using I stacks_okD(2) [of s] Cons.prems(2,3) by (simp add: E(3) c hs_inv_def add.assoc)
  ultimately show ?case using I by blast
qed

lemma compact_layers_ok:
  "compact_layers l row sels s = (cs, t) \<Longrightarrow> hs_inv s \<Longrightarrow> row < hs_rows s \<Longrightarrow>
   row \<notin> set (hs_free_rows s) \<Longrightarrow> l + length sels \<le> layers s \<Longrightarrow>
   (\<And>x. x \<in> set sels \<Longrightarrow> length x = heads s) \<Longrightarrow>
   (\<And>i j. i < length sels \<Longrightarrow> j < heads s \<Longrightarrow> selection_ok (lengths s (l + i) row j) (sels ! i ! j)) \<Longrightarrow>
   hs_inv t \<and> frame_eq s t \<and> length cs = length sels \<and>
   (\<forall>i<length sels. free_counts t ! (l + i) = free_counts s ! (l + i) + cs ! i) \<and>
   (\<forall>i<length sels. \<forall>j<heads s. selected s t (l + i) row j (sels ! i ! j)) \<and>
   (\<forall>l' r' h'. r' \<noteq> row \<or> l' < l \<longrightarrow> same_cell s t l' r' h') \<and>
   (\<forall>l'<l. free_counts t ! l' = free_counts s ! l')"
proof (induction sels arbitrary: l s cs)
  case Nil
  then show ?case by (simp add: frame_eq_def)
next
  case (Cons sel sels)
  obtain c s1 cs1 where heads_run: "compact_heads l row 0 sel s = (c, s1)"
    and run: "compact_layers (Suc l) row sels s1 = (cs1, t)" and cs: "cs = c # cs1"
    using Cons.prems(1) by (auto split: prod.splits)
  have len: "length sel = heads s" using Cons.prems(6) by simp
  have H: "hs_inv s1 \<and> frame_eq s s1 \<and> free_counts s1 = (free_counts s)[l := free_counts s ! l + c] \<and>
     (\<forall>j<length sel. selected s s1 l row (0 + j) (sel ! j)) \<and>
     (\<forall>l' r' h'. l' \<noteq> l \<or> r' \<noteq> row \<or> h' < 0 \<or> 0 + length sel \<le> h' \<longrightarrow> same_cell s s1 l' r' h')"
    by (rule compact_heads_ok [OF heads_run Cons.prems(2) _ Cons.prems(3,4)])
      (use Cons.prems(5) Cons.prems(7) [of 0] len in auto)
  have later: "selection_ok (lengths s1 (Suc l + i) row j) (sels ! i ! j)" if "i < length sels" "j < heads s1" for i j
  proof -
    have "same_cell s s1 (Suc l + i) row j" using H by simp
    then show ?thesis using Cons.prems(7) [of "Suc i" j] that H by (simp add: same_cell_def frame_eq_def)
  qed
  have I: "hs_inv t \<and> frame_eq s1 t \<and> length cs1 = length sels \<and>
   (\<forall>i<length sels. free_counts t ! (Suc l + i) = free_counts s1 ! (Suc l + i) + cs1 ! i) \<and>
   (\<forall>i<length sels. \<forall>j<heads s1. selected s1 t (Suc l + i) row j (sels ! i ! j)) \<and>
   (\<forall>l' r' h'. r' \<noteq> row \<or> l' < Suc l \<longrightarrow> same_cell s1 t l' r' h') \<and>
   (\<forall>l'<Suc l. free_counts t ! l' = free_counts s1 ! l')"
    by (rule Cons.IH [OF run _ _ _ _ _ later]) (use H Cons.prems in \<open>auto simp: frame_eq_def\<close>)
  have hd: "heads s1 = heads s" "l < length (free_counts s)"
    using H Cons.prems(2,5) stacks_okD(2) [of s] by (auto simp: frame_eq_def hs_inv_def)
  have "selected s t (l + i) row j ((sel # sels) ! i ! j)" if "i < length (sel # sels)" "j < heads s" for i j
  proof (cases i)
    case 0
    have "selected s s1 l row j (sel ! j)" "same_cell s1 t l row j" using H I that len by auto
    then show ?thesis using selected_cong [OF same_cell_refl] 0 by simp
  next
    case (Suc k)
    then have "selected s1 t (l + i) row j (sels ! k ! j)" "same_cell s1 s (l + i) row j"
      using H I that hd by (auto intro: same_cell_sym)
    then show ?thesis using selected_cong [OF _ same_cell_refl] Suc by simp
  qed
  moreover have "free_counts t ! (l + i) = free_counts s ! (l + i) + cs ! i" if "i < length (sel # sels)" for i
    using that H I hd by (cases i) (auto simp: cs)
  moreover have "same_cell s t l' r' h'" if "r' \<noteq> row \<or> l' < l" for l' r' h'
  proof -
    have "same_cell s s1 l' r' h'" "same_cell s1 t l' r' h'" using that H I by auto
    then show ?thesis by (rule same_cell_trans)
  qed
  moreover have "frame_eq s t" using H I by (simp add: frame_eq_def)
  moreover have "length cs = length (sel # sels)" "\<forall>l'<l. free_counts t ! l' = free_counts s ! l'"
    using H I by (simp_all add: cs)
  ultimately show ?case using I by blast
qed

section \<open>Release\<close>

lemma release_cell_push: "length (take (lengths s l row h) (slots s l row h)) = lengths s l row h \<Longrightarrow>
    release_cell row l h s = push l (in_use s l row h) s"
  by (simp add: release_cell_def push_def in_use_def Let_def)

lemma sum_list_cond: "sum_list (map (\<lambda>h. if P then f h else (0::nat)) xs) = (if P then sum_list (map f xs) else 0)"
  by (induction xs) auto

lemma concat_map_Nil [simp]: "concat (map (\<lambda>x. []) xs) = []"
  by (induction xs) auto

lemma release_fold:
  "stacks_ok s \<Longrightarrow> (\<And>l h. (l, h) \<in> set ps \<Longrightarrow> l < layers s \<and> length (in_use s l row h) = lengths s l row h) \<Longrightarrow>
   (\<And>l. l < layers s \<Longrightarrow> length (stack s l) + sum_list (map (\<lambda>(l', h). if l' = l then lengths s l row h else 0) ps)
      \<le> capacities s ! l) \<Longrightarrow>
   \<exists>t. fold (\<lambda>(l, h). release_cell row l h) ps s = t \<and> stacks_ok t \<and>
     (\<forall>l<layers s. stack t l = stack s l @ concat (map (\<lambda>(l', h). if l' = l then in_use s l row h else []) ps)) \<and>
     t = s\<lparr>free := free t, free_counts := free_counts t\<rparr>"
proof (induction ps arbitrary: s)
  case Nil
  then show ?case by simp
next
  case (Cons p ps)
  obtain l0 h0 where p: "p = (l0, h0)" by fastforce
  have l0: "l0 < layers s" "length (in_use s l0 row h0) = lengths s l0 row h0" using Cons.prems(2) p by auto
  let ?s1 = "push l0 (in_use s l0 row h0) s"
  have rel: "release_cell row l0 h0 s = ?s1" using l0(2) by (intro release_cell_push) (simp add: in_use_def)
  have room: "length (stack s l0) + length (in_use s l0 row h0) \<le> capacities s ! l0"
    using Cons.prems(3) [OF l0(1)] l0(2) by (simp add: p)
  note P = push_stack [OF Cons.prems(1) l0(1) room]
  have iu: "in_use ?s1 l row h = in_use s l row h" for l h by (simp add: in_use_def)
  have "\<exists>t. fold (\<lambda>(l, h). release_cell row l h) ps ?s1 = t \<and> stacks_ok t \<and>
     (\<forall>l<layers ?s1. stack t l = stack ?s1 l @ concat (map (\<lambda>(l', h). if l' = l then in_use ?s1 l row h else []) ps)) \<and>
     t = ?s1\<lparr>free := free t, free_counts := free_counts t\<rparr>"
  proof (rule Cons.IH)
    show "stacks_ok ?s1" by (rule P(1))
    show "l < layers ?s1 \<and> length (in_use ?s1 l row h) = lengths ?s1 l row h" if "(l, h) \<in> set ps" for l h
      using Cons.prems(2) [of l h] that by (simp add: iu)
    show "length (stack ?s1 l) + sum_list (map (\<lambda>(l', h). if l' = l then lengths ?s1 l row h else 0) ps) \<le> capacities ?s1 ! l"
      if "l < layers ?s1" for l
      using Cons.prems(3) [of l] that P(2,3) l0(2) by (cases "l = l0") (simp_all add: p cong: if_cong)
  qed
  then obtain t where t: "fold (\<lambda>(l, h). release_cell row l h) ps ?s1 = t" "stacks_ok t"
    "t = ?s1\<lparr>free := free t, free_counts := free_counts t\<rparr>"
    "\<And>l. l < layers s \<Longrightarrow> stack t l = stack ?s1 l @ concat (map (\<lambda>(l', h). if l' = l then in_use s l row h else []) ps)"
    by (auto simp: iu cong: if_cong)
  have "t = s\<lparr>free := free t, free_counts := free_counts t\<rparr>"
    by (subst t(3)) (simp add: push_def)
  moreover have "stack t l = stack s l @ concat (map (\<lambda>(l', h). if l' = l then in_use s l row h else []) (p # ps))"
    if "l < layers s" for l
    using t(4) [OF that] P(2,3) by (cases "l = l0") (simp_all add: p)
  ultimately show ?case using t(1,2) by (simp add: p rel)
qed

lemma concat_product_layer:
  assumes "l < L"
  shows "concat (map (\<lambda>(l', h). if l' = l then f h else []) (List.product [0..<L] [0..<H])) = concat (map f [0..<H])"
proof -
  have "concat (map (\<lambda>(l', h). if l' = l then f h else []) (List.product xs [0..<H])) =
      concat (map (\<lambda>l'. if l' = l then concat (map f [0..<H]) else []) xs)" for xs :: "nat list"
    by (induction xs) (simp_all add: comp_def)
  moreover have "concat (map (\<lambda>l'. if l' = l then c else []) [0..<L]) = c" for c :: "'a list"
    using assms
  proof (induction L)
    case (Suc L)
    show ?case
    proof (cases "l = L")
      case True
      have "concat (map (\<lambda>l'. if l' = l then c else []) [0..<L]) = []" by (simp add: True)
      with True show ?thesis by simp
    next
      case False
      with Suc show ?thesis by simp
    qed
  qed simp
  ultimately show ?thesis by simp
qed

lemma mset_concat_upt: "mset (concat (map f [0..<n])) = (\<Sum>h<n. mset (f h))"
  by (induction n) (simp_all add: add.commute)

lemma sum_list_as_concat: "sum_list (map (\<lambda>(l', h). if l' = l then length (f h) else 0) ps) =
    length (concat (map (\<lambda>(l', h). if l' = l then f h else []) ps))"
  by (induction ps) auto

lemma row_owned:
  assumes "hs_inv s" and "l < layers s" and "row < hs_rows s"
  shows "length (concat (map (in_use s l row) [0..<heads s])) + length (stack s l) \<le> capacities s ! l"
proof -
  have "(\<Sum>h<heads s. mset (in_use s l row h)) \<subseteq># owned s l"
    unfolding owned_def using assms(3) by (simp add: sum.remove [of "{..<hs_rows s}" row])
  then have "mset (concat (map (in_use s l row) [0..<heads s])) \<subseteq># owned s l" by (simp add: mset_concat_upt)
  from size_mset_mono [OF this] have "length (concat (map (in_use s l row) [0..<heads s])) \<le> size (owned s l)"
    by (simp only: size_mset)
  moreover have "owned s l + mset (stack s l) = mset (map int [0..<capacities s ! l])"
    using assms(1,2) by (simp add: hs_inv_def conserved_def)
  then have "size (owned s l) + length (stack s l) = capacities s ! l"
    by (metis length_map length_upt minus_nat.diff_0 size_mset size_union)
  ultimately show ?thesis by simp
qed

text \<open>Forgetting a row: its cells are cleared once their slots are back on the stacks.\<close>

definition clear_row :: "nat \<Rightarrow> head_slots \<Rightarrow> head_slots" where
  "clear_row row s =
     s\<lparr>slots := (\<lambda>l r h. if (r = row \<and> l < layers s) \<and> h < heads s then replicate (width s) (- 1) else slots s l r h),
       positions := (\<lambda>l r h. if (r = row \<and> l < layers s) \<and> h < heads s then replicate (width s) (- 1) else positions s l r h),
       lengths := (\<lambda>l r h. if (r = row \<and> l < layers s) \<and> h < heads s then 0 else lengths s l r h),
       hs_free_rows := hs_free_rows s @ [row], generation := generation s + 1\<rparr>"

lemma free_head_seq_eq:
  assumes "hs_inv s" and "map_of (seq_rows s) sid = Some row"
  shows "\<exists>t. free_head_seq sid s = (Inr (), clear_row row t) \<and> stacks_ok t \<and>
    t = s\<lparr>seq_rows := dict_pop sid (seq_rows s), free := free t, free_counts := free_counts t\<rparr> \<and>
    (\<forall>l<layers s. stack t l = stack s l @ concat (map (in_use s l row) [0..<heads s]))"
proof -
  let ?s1 = "s\<lparr>seq_rows := dict_pop sid (seq_rows s)\<rparr>" and ?ps = "List.product [0..<layers s] [0..<heads s]"
  have row: "row < hs_rows s" using assms by (auto simp: hs_inv_def rows_ok_def)
  have sel: "in_use ?s1 = in_use s" "stack ?s1 = stack s" "lengths ?s1 = lengths s"
    by (simp_all add: in_use_def [abs_def] stack_def [abs_def])
  have "\<exists>t. fold (\<lambda>(l, h). release_cell row l h) ?ps ?s1 = t \<and> stacks_ok t \<and>
     (\<forall>l<layers ?s1. stack t l = stack ?s1 l @ concat (map (\<lambda>(l', h). if l' = l then in_use ?s1 l row h else []) ?ps)) \<and>
     t = ?s1\<lparr>free := free t, free_counts := free_counts t\<rparr>"
  proof (rule release_fold)
    show "stacks_ok ?s1" using assms(1) by (simp add: hs_inv_def stacks_ok_def)
    show len: "l < layers ?s1 \<and> length (in_use ?s1 l row h) = lengths ?s1 l row h" if "(l, h) \<in> set ?ps" for l h
      using that in_use_bound(2) [OF assms(1) _ row] by (auto simp: sel)
    fix l assume l: "l < layers ?s1"
    have eq: "map (\<lambda>(l', h). if l' = l then lengths ?s1 l row h else 0) ?ps =
        map (\<lambda>(l', h). if l' = l then length (in_use s l row h) else 0) ?ps"
      using len by (intro map_cong) (auto simp: sel)
    have "l < layers s" using l by simp
    then have "sum_list (map (\<lambda>(l', h). if l' = l then lengths ?s1 l row h else 0) ?ps) =
        length (concat (map (in_use s l row) [0..<heads s]))"
      by (simp only: eq sum_list_as_concat [of l "in_use s l row" ?ps] concat_product_layer)
    then show "length (stack ?s1 l) + sum_list (map (\<lambda>(l', h). if l' = l then lengths ?s1 l row h else 0) ?ps) \<le> capacities ?s1 ! l"
      using row_owned [OF assms(1) _ row, of l] l by (simp add: sel)
  qed
  then obtain t where t: "fold (\<lambda>(l, h). release_cell row l h) ?ps ?s1 = t" "stacks_ok t"
    "t = ?s1\<lparr>free := free t, free_counts := free_counts t\<rparr>"
    "\<And>l. l < layers s \<Longrightarrow> stack t l = stack s l @ concat (map (\<lambda>(l', h). if l' = l then in_use s l row h else []) ?ps)"
    by (auto simp: sel cong: if_cong)
  have dims: "capacities t = capacities s" "heads t = heads s" "width t = width s"
    by (subst t(3), simp)+
  have "free_head_seq sid s = (Inr (), clear_row row t)"
    unfolding free_head_seq_def clear_row_def Let_def using assms(2) by (simp add: t(1) dims cong: if_cong)
  moreover have "stack t l = stack s l @ concat (map (in_use s l row) [0..<heads s])" if "l < layers s" for l
    using t(4) [OF that] concat_product_layer [OF that, of "in_use s l row" "heads s"] by simp
  ultimately show ?thesis using t(2,3) by blast
qed

lemma free_head_seq_inv:
  assumes "hs_inv s" and "map_of (seq_rows s) sid = Some row" and "free_head_seq sid s = (Inr (), u)"
  shows "hs_inv u" "\<And>l. l < layers s \<Longrightarrow> stack u l = stack s l @ concat (map (in_use s l row) [0..<heads s])"
    "map_of (seq_rows u) = (map_of (seq_rows s))(sid := None)" "\<And>l r h. r \<noteq> row \<Longrightarrow> same_cell s u l r h"
    "layers u = layers s" "heads u = heads s"
proof -
  obtain t where run: "u = clear_row row t" and st: "stacks_ok t"
    and t: "t = s\<lparr>seq_rows := dict_pop sid (seq_rows s), free := free t, free_counts := free_counts t\<rparr>"
    and stk: "\<And>l. l < layers s \<Longrightarrow> stack t l = stack s l @ concat (map (in_use s l row) [0..<heads s])"
    using free_head_seq_eq [OF assms(1,2)] assms(3) by auto
  have dims: "capacities t = capacities s" "heads t = heads s" "width t = width s" "hs_rows t = hs_rows s"
    "slots t = slots s" "positions t = positions s" "lengths t = lengths s" "hs_free_rows t = hs_free_rows s"
    "seq_rows t = dict_pop sid (seq_rows s)"
    by (subst t, simp)+
  note R = assms(1) [unfolded hs_inv_def rows_ok_def]
  have row: "row < hs_rows s" "row \<notin> set (hs_free_rows s)" using R assms(2) by (auto simp: ran_def)
  show seq: "map_of (seq_rows u) = (map_of (seq_rows s))(sid := None)"
    by (simp add: run clear_row_def dims delete_conv')
  show stk': "stack u l = stack s l @ concat (map (in_use s l row) [0..<heads s])" if "l < layers s" for l
    using stk [OF that] by (simp add: run clear_row_def stack_def)
  show "same_cell s u l r h" if "r \<noteq> row" for l r h
    using that by (simp add: same_cell_def run clear_row_def dims)
  show lay: "layers u = layers s" "heads u = heads s" by (simp_all add: run clear_row_def dims)
  have "stacks_ok u" using st by (simp add: run clear_row_def stacks_ok_def)
  moreover have "cells_ok u"
    using R by (auto simp: cells_ok_def cell_ok_def run clear_row_def dims)
  moreover have "rows_ok u"
  proof -
    have inj: "map_of (seq_rows s) a \<noteq> Some row" if "a \<noteq> sid" for a
      using R assms(2) that by (metis domI inj_onD)
    then have ran: "ran (map_of (seq_rows u)) = ran (map_of (seq_rows s)) - {row}"
      unfolding seq using assms(2) by (auto simp: ran_def) (metis option.inject)
    show ?thesis
      unfolding rows_ok_def ran
      using R row inj by (auto simp: run clear_row_def dims delete_conv' inj_on_def dom_def)
  qed
  moreover have "owned u l + mset (stack u l) = mset (map int [0..<capacities s ! l])" if l: "l < layers s" for l
  proof -
    have "owned u l + (\<Sum>h<heads s. mset (in_use s l row h)) = owned s l + (\<Sum>h<heads s. mset (in_use u l row h))"
      using sum_row_change [OF row(1), of "\<lambda>r h. mset (in_use u l r h)" "\<lambda>r h. mset (in_use s l r h)" "heads s"]
      by (simp add: owned_def in_use_def run clear_row_def dims)
    moreover have "(\<Sum>h<heads s. mset (in_use u l row h)) = {#}"
      using l by (simp add: in_use_def run clear_row_def dims)
    ultimately have "owned u l + mset (stack u l) = owned s l + mset (stack s l)"
      using stk' [OF l] by (simp add: mset_concat_upt ac_simps)
    with R l show ?thesis by (simp add: conserved_def)
  qed
  then have "conserved u" by (simp add: conserved_def run clear_row_def dims)
  ultimately show "hs_inv u" using R by (simp add: hs_inv_def run clear_row_def dims)
qed

section \<open>Reachable ledgers\<close>

inductive head_step :: "head_slots \<Rightarrow> head_slots \<Rightarrow> bool" where
  append: "plan_append s requests = Inr plan \<Longrightarrow> head_step s (snd (apply_append plan s))"
| stale: "plan_generation plan \<noteq> generation s \<Longrightarrow> head_step s (snd (apply_append plan s))"
| compact: "head_step s (snd (compact sid selections s))"
| free: "head_step s (snd (free_head_seq sid s))"

definition head_reachable :: "head_slots \<Rightarrow> bool" where
  "head_reachable s \<longleftrightarrow>
     (\<exists>caps hd_n wd rws s0. HeadSlotAllocator caps hd_n wd rws = Inr s0 \<and> head_step\<^sup>*\<^sup>* s0 s)"

lemma generation_inv [simp]: "hs_inv (s\<lparr>generation := g\<rparr>) = hs_inv s"
  by (simp add: hs_inv_def stacks_ok_def rows_ok_def cells_ok_def conserved_def owned_def in_use_def stack_def)

lemma apply_append_ok:
  assumes "hs_inv s" and "plan_append s reqs = Inr plan"
  obtains out s' where "apply_append plan s = (Inr out, s')" "hs_inv s'" "layers s' = layers s" "heads s' = heads s"
    "map_of (seq_rows s') = map_of (seq_rows s) ++ map_of (zip (map fst reqs) (plan_rows plan))"
    "free_counts s' = map (\<lambda>c. c - heads s * sum_list (map (\<lambda>(sid, pos). length pos) reqs)) (free_counts s)"
    "\<And>k l h. k < length reqs \<Longrightarrow> l < layers s \<Longrightarrow> h < heads s \<Longrightarrow>
       logical s' l (plan_rows plan ! k) h = logical s l (plan_rows plan ! k) h @ snd (reqs ! k)"
    "\<And>r l h. r \<notin> set (plan_rows plan) \<Longrightarrow> same_cell s s' l r h"
proof -
  have st: "stacks_ok s" using assms(1) by (simp add: hs_inv_def)
  note P = plan_append_ok [OF st assms(2)]
  obtain ws t where run: "apply_loop (zip (map fst reqs) (zip (plan_rows plan) (map snd reqs))) s = (Inr ws, t)"
    and T: "hs_inv t \<and> layers t = layers s \<and> heads t = heads s \<and> generation t = generation s \<and>
     map_of (seq_rows t) = map_of (seq_rows s) ++ map_of (zip (map fst reqs) (plan_rows plan)) \<and>
     free_counts t = map (\<lambda>c. c - heads s * sum_list (map (\<lambda>(sid, pos). length pos) reqs)) (free_counts s) \<and>
     (\<forall>k<length reqs. \<forall>l<layers s. \<forall>h<heads s.
        logical t l (plan_rows plan ! k) h = logical s l (plan_rows plan ! k) h @ snd (reqs ! k)) \<and>
     (\<forall>r. r \<notin> set (plan_rows plan) \<longrightarrow> same_row s t r)"
    using apply_loop_ok [OF assms(1) P(1)] by blast
  show thesis
  proof (rule that)
    show "apply_append plan s = (Inr (join_tokens (layers s) (map fst ws), join_tokens (layers s) (map snd ws)),
        t\<lparr>generation := generation t + 1\<rparr>)"
      using run P by (simp add: apply_append_def eff_simps)
  qed (use T in \<open>auto simp: logical_def same_row_def same_cell_def\<close>)
qed

lemma compact_ok:
  assumes "hs_inv s" and "compact sid selections s = (Inr released, s')"
  obtains row where "map_of (seq_rows s) sid = Some row" "hs_inv s'" "layers s' = layers s" "heads s' = heads s"
    "length released = layers s"
    "\<And>l. l < layers s \<Longrightarrow> free_counts s' ! l = free_counts s ! l + released ! l"
    "\<And>l h. l < layers s \<Longrightarrow> h < heads s \<Longrightarrow> selected s s' l row h (selections ! l ! h)"
    "\<And>l r h. r \<noteq> row \<Longrightarrow> same_cell s s' l r h"
proof -
  from assms(2) obtain row t where row: "map_of (seq_rows s) sid = Some row"
    and valid: "validate_selection s sid selections = Inr ()"
    and run: "compact_layers 0 row selections s = (released, t)" and s': "s' = t\<lparr>generation := generation t + 1\<rparr>"
    by (auto simp: compact_def split: sum.splits option.splits prod.splits)
  have V: "length selections = layers s" "\<And>x. x \<in> set selections \<Longrightarrow> length x = heads s"
    "\<And>l h. l < layers s \<Longrightarrow> h < heads s \<Longrightarrow> selection_ok (lengths s l row h) (selections ! l ! h)"
    using valid row by (auto simp: validate_selection_def split: if_splits)
  have R: "row < hs_rows s" "row \<notin> set (hs_free_rows s)"
    using assms(1) row by (auto simp: hs_inv_def rows_ok_def ran_def)
  have T: "hs_inv t \<and> frame_eq s t \<and> length released = length selections \<and>
   (\<forall>i<length selections. free_counts t ! (0 + i) = free_counts s ! (0 + i) + released ! i) \<and>
   (\<forall>i<length selections. \<forall>j<heads s. selected s t (0 + i) row j (selections ! i ! j)) \<and>
   (\<forall>l' r' h'. r' \<noteq> row \<or> l' < 0 \<longrightarrow> same_cell s t l' r' h') \<and> (\<forall>l'<0. free_counts t ! l' = free_counts s ! l')"
    by (rule compact_layers_ok [OF run assms(1) R]) (use V in auto)
  show thesis
    by (rule that [OF row]) (use T V(1) in \<open>auto simp: s' frame_eq_def same_cell_def selected_def logical_def in_use_def\<close>)
qed

lemma compact_error: "compact sid selections s = (Inl e, s') \<Longrightarrow> s' = s"
  by (auto simp: compact_def split: sum.splits option.splits prod.splits)

lemma head_step_inv: "head_step s t \<Longrightarrow> hs_inv s \<Longrightarrow> hs_inv t"
proof (induction rule: head_step.induct)
  case (append s requests plan)
  then show ?case by (metis apply_append_ok snd_conv)
next
  case (stale plan s)
  then show ?case by (simp add: apply_append_def)
next
  case (compact s sid selections)
  then show ?case by (metis compact_error compact_ok prod.collapse sum.exhaust)
next
  case (free s sid)
  show ?case
  proof (cases "map_of (seq_rows s) sid")
    case None
    with free show ?thesis by (simp add: free_head_seq_def)
  next
    case (Some row)
    then show ?thesis using free_head_seq_eq [OF free Some] free_head_seq_inv(1) [OF free Some] by auto
  qed
qed

lemma head_reachable_inv:
  assumes "head_reachable s"
  shows "hs_inv s"
proof -
  obtain caps hd_n wd rws s0 where init: "HeadSlotAllocator caps hd_n wd rws = Inr s0" and steps: "head_step\<^sup>*\<^sup>* s0 s"
    using assms by (auto simp: head_reachable_def)
  from steps show ?thesis
    by (induction rule: rtranclp_induct) (use hs_inv_init [OF init] head_step_inv in auto)
qed

end
