(* ===== verification/Head_Slot_Ledger.thy ===== *)
theory Head_Slot_Ledger
  imports Head_Slots
begin

text \<open>
  What the head-slot ledger promises: no slot has two owners, a plan that was accepted can be applied,
  compaction keeps exactly the selected entries, and the advertised append capacity is usable.
\<close>

section \<open>The ledger's own assertions\<close>

lemma mset_allocated:
  assumes "hs_inv s" and "l < layers s"
  shows "mset (allocated s l) = owned s l"
proof -
  have cell: "filter (\<lambda>x. x \<ge> 0) (slots s l r h) = in_use s l r h" if rh: "r < hs_rows s" "h < heads s" for r h
  proof -
    have c: "cell_ok (width s) (slots s l r h) (positions s l r h) (lengths s l r h)"
      using assms rh by (simp add: hs_inv_def cells_ok_def)
    have "x \<ge> 0" if "x \<in> set (in_use s l r h)" for x
    proof -
      have "x \<in># owned s l" using mset_subset_eqD [OF in_use_bound(1) [OF assms rh]] that by simp
      then have "x \<in># mset (map int [0..<capacities s ! l])"
        using assms by (metis conserved_def hs_inv_def union_iff)
      then show ?thesis by auto
    qed
    then have 1: "filter (\<lambda>x. x \<ge> 0) (in_use s l r h) = in_use s l r h" by simp
    have "\<forall>x\<in>set (drop (lengths s l r h) (slots s l r h)). x = - 1"
      using c by (auto simp: cell_ok_def in_set_conv_nth)
    then have 2: "filter (\<lambda>x. x \<ge> 0) (drop (lengths s l r h) (slots s l r h)) = []" by (auto simp: filter_empty_conv)
    have "slots s l r h = in_use s l r h @ drop (lengths s l r h) (slots s l r h)" by (simp add: in_use_def)
    then show ?thesis using 1 2 by (metis append_Nil2 filter_append)
  qed
  have "mset (allocated s l) = (\<Sum>(r, h)\<leftarrow>List.product [0..<hs_rows s] [0..<heads s]. mset (filter (\<lambda>x. x \<ge> 0) (slots s l r h)))"
    unfolding allocated_def by (simp add: filter_concat mset_concat comp_def case_prod_unfold)
  also have "\<dots> = (\<Sum>(r, h)\<leftarrow>List.product [0..<hs_rows s] [0..<heads s]. mset (in_use s l r h))"
    by (intro arg_cong [where f=sum_list] map_cong refl) (auto simp: cell simp del: mset_filter)
  also have "\<dots> = (\<Sum>(r, h)\<in>{..<hs_rows s} \<times> {..<heads s}. mset (in_use s l r h))"
    by (simp add: sum_list_distinct_conv_sum_set distinct_product atLeast0LessThan)
  also have "\<dots> = owned s l" by (simp add: owned_def sum.cartesian_product)
  finally show ?thesis .
qed

lemma length_allocated:
  assumes "hs_inv s" and "l < layers s"
  shows "length (allocated s l) = sum_list (map (\<lambda>(r, h). lengths s l r h) (List.product [0..<hs_rows s] [0..<heads s]))"
proof -
  have "length (allocated s l) = size (owned s l)" using mset_allocated [OF assms] by (metis size_mset)
  also have "\<dots> = (\<Sum>r<hs_rows s. \<Sum>h<heads s. lengths s l r h)"
    unfolding owned_def by (simp add: in_use_bound(2) [OF assms])
  finally show ?thesis
    by (simp add: sum_list_distinct_conv_sum_set distinct_product atLeast0LessThan sum.cartesian_product)
qed

lemma layer_asserts_hold:
  assumes "hs_inv s" and "l < layers s"
  shows "layer_asserts s l" "length (stack s l) + length (allocated s l) = capacities s ! l"
    "mset (allocated s l @ stack s l) = mset (map int [0..<capacities s ! l])"
proof -
  show m: "mset (allocated s l @ stack s l) = mset (map int [0..<capacities s ! l])"
    using assms mset_allocated [OF assms] by (simp add: hs_inv_def conserved_def)
  then have "sort (allocated s l @ stack s l) = map int [0..<capacities s ! l]"
    by (intro properties_for_sort) (simp_all add: sorted_iff_nth_mono)
  moreover show len: "length (stack s l) + length (allocated s l) = capacities s ! l"
    using mset_eq_length [OF m] by simp
  ultimately show "layer_asserts s l"
    using length_allocated [OF assms] by (simp add: layer_asserts_def Let_def stack_def)
qed

lemma assert_layers_hold:
  assumes "hs_inv s" and "reserved = [] \<or> (length reserved = layers s \<and> (\<forall>l<layers s. 0 \<le> reserved ! l \<and> reserved ! l \<le> int (free_counts s ! l)))"
    and "\<forall>l\<in>set ls. l < layers s"
  shows "assert_layers s reserved ls = Inr ()"
  using assms(3)
proof (induction ls)
  case (Cons l ls)
  then have l: "l < layers s" by simp
  note L = layer_asserts_hold [OF assms(1) l]
  have "length (stack s l) = free_counts s ! l" using assms(1) stacks_okD(5) [OF _ l] by (simp add: hs_inv_def)
  then have "reserved_asserts s l (reserved ! l)" if "reserved \<noteq> []"
    using that assms(2) l L(2) by (auto simp: reserved_asserts_def Let_def simp flip: stack_def)
  moreover have "py_index reserved (int l) = Inr (reserved ! l)" if "reserved \<noteq> []"
    using that assms(2) l by (auto simp: py_index_def)
  ultimately show ?case using Cons L(1) by (cases "reserved = []") simp_all
qed simp

section \<open>Properties\<close>

text \<open>
  C9. Slots are never shared.  In every ledger reached from a fresh one by any sequence of appends,
  compactions and releases, successful or failing, the slots in use and the free stack of each layer
  together are exactly the slot ids below its capacity, each once; so \<open>assert_invariants\<close> never fails,
  whatever reservation within the free counts it is given.
\<close>

theorem head_slots_exclusive:
  assumes "head_reachable s"
  shows "(\<forall>l<layers s. distinct (allocated s l @ stack s l) \<and>
      set (allocated s l @ stack s l) = int ` {..<capacities s ! l}) \<and>
    (\<forall>reserved. reserved = [] \<or> (length reserved = layers s \<and>
        (\<forall>l<layers s. 0 \<le> reserved ! l \<and> reserved ! l \<le> int (free_counts s ! l))) \<longrightarrow>
      assert_invariants s reserved = Inr ())"
proof -
  have inv: "hs_inv s" by (rule head_reachable_inv [OF assms])
  have "distinct (allocated s l @ stack s l) \<and> set (allocated s l @ stack s l) = int ` {..<capacities s ! l}"
    if "l < layers s" for l
  proof -
    note m = layer_asserts_hold(3) [OF inv that]
    have "distinct (map int [0..<capacities s ! l])" by (simp add: distinct_map)
    then show ?thesis
      using mset_eq_imp_distinct_iff [OF m] mset_eq_setD [OF m] by (auto simp: atLeast0LessThan)
  qed
  moreover have "assert_invariants s reserved = Inr ()"
    if "reserved = [] \<or> (length reserved = layers s \<and> (\<forall>l<layers s. 0 \<le> reserved ! l \<and> reserved ! l \<le> int (free_counts s ! l)))"
    for reserved
    unfolding assert_invariants_def by (rule assert_layers_hold [OF inv that]) simp
  ultimately show ?thesis by blast
qed

text \<open>
  C10. An accepted plan can be applied, and does what it says.  A plan made in the current state is
  applied without error; every sequence of the batch then owns its row, its retained positions in every
  layer and head are the old ones followed by the planned ones, the free counts drop by exactly the
  slots the batch needs, and no other row changes.
\<close>

theorem planned_append_applies:
  assumes "head_reachable s" and "plan_append s requests = Inr plan"
  shows "\<exists>out s'. apply_append plan s = (Inr out, s') \<and>
    map_of (seq_rows s') = map_of (seq_rows s) ++ map_of (zip (map fst requests) (plan_rows plan)) \<and>
    free_counts s' = map (\<lambda>c. c - heads s * sum_list (map (\<lambda>(sid, pos). length pos) requests)) (free_counts s) \<and>
    (\<forall>k<length requests. \<forall>l<layers s. \<forall>h<heads s.
       logical s' l (plan_rows plan ! k) h = logical s l (plan_rows plan ! k) h @ snd (requests ! k)) \<and>
    (\<forall>r. r \<notin> set (plan_rows plan) \<longrightarrow> (\<forall>l h. same_cell s s' l r h))"
  using apply_append_ok [OF head_reachable_inv [OF assms(1)] assms(2)] by metis

text \<open>
  C11. Compaction keeps exactly the selection.  A successful \<open>compact\<close> leaves, in every layer and head
  of the sequence, the selected entries in order, with their original positions and slots; the other
  entries of layer \<open>l\<close> go back to its free stack, and their number is what is returned for it; other
  rows do not change.  A rejected selection changes nothing.
\<close>

theorem compact_keeps_selection:
  assumes "head_reachable s"
  shows "case compact sid selections s of
      (Inl e, s') \<Rightarrow> s' = s
    | (Inr released, s') \<Rightarrow>
        \<exists>row. map_of (seq_rows s) sid = Some row \<and> length released = layers s \<and>
          (\<forall>l<layers s. free_counts s' ! l = free_counts s ! l + released ! l) \<and>
          (\<forall>l<layers s. \<forall>h<heads s.
             logical s' l row h = take_indices (logical s l row h) (selections ! l ! h) \<and>
             in_use s' l row h = take_indices (in_use s l row h) (selections ! l ! h)) \<and>
          (\<forall>l r h. r \<noteq> row \<longrightarrow> same_cell s s' l r h)"
proof (cases "compact sid selections s")
  case (Pair r s')
  show ?thesis
  proof (cases r)
    case (Inl e)
    with Pair compact_error show ?thesis by auto
  next
    case (Inr released)
    with Pair have run: "compact sid selections s = (Inr released, s')" by simp
    show ?thesis
    proof (rule compact_ok [OF head_reachable_inv [OF assms] run])
      fix row
      assume "map_of (seq_rows s) sid = Some row" "length released = layers s"
        "\<And>l. l < layers s \<Longrightarrow> free_counts s' ! l = free_counts s ! l + released ! l"
        "\<And>l h. l < layers s \<Longrightarrow> h < heads s \<Longrightarrow> selected s s' l row h (selections ! l ! h)"
        "\<And>l r h. r \<noteq> row \<Longrightarrow> same_cell s s' l r h"
      then show ?thesis using run by (auto simp: selected_def intro!: exI [of _ row])
    qed
  qed
qed

lemma consecutive_upt: "consecutive [a..a + int n]"
proof (induction n arbitrary: a)
  case (Suc n)
  have "[a..a + int (Suc n)] = a # [a + 1..a + 1 + int n]" by (simp add: upto_rec1 add.assoc)
  moreover have "[a + 1..a + 1 + int n] = (a + 1) # [a + 1 + 1..a + 1 + int n]" by (subst upto_rec1) simp_all
  ultimately show ?case using Suc.IH [of "a + 1"] by simp
qed simp

lemma append_capacity_bounds:
  assumes "hs_inv s" and "append_capacity s sid [] = Inr n" and "k \<le> n" and "1 \<le> k"
  shows "\<And>l. l < layers s \<Longrightarrow> k * int (heads s) \<le> int (free_counts s ! l)"
    "map_of (seq_rows s) sid = None \<Longrightarrow> hs_free_rows s \<noteq> [] \<and> k \<le> int (width s)"
    "\<And>row l h. map_of (seq_rows s) sid = Some row \<Longrightarrow> l < layers s \<Longrightarrow> h < heads s \<Longrightarrow>
       int (lengths s l row h) + k \<le> int (width s)"
proof -
  let ?av = "Min ((\<lambda>i. int (free_counts s ! i) div int (heads s)) ` {..<layers s})"
  have "mapR (\<lambda>i. Inr (int (free_counts s ! i) div int (heads s))) [0..<layers s] =
      Inr (map (\<lambda>i. int (free_counts s ! i) div int (heads s)) [0..<layers s])"
    by (rule mapR_total) simp
  then have av: "available_tokens s [] = Inr ?av"
    by (simp add: available_tokens_def atLeast0LessThan)
  have kav: "k \<le> ?av"
    and row: "map_of (seq_rows s) sid = None \<Longrightarrow> hs_free_rows s \<noteq> [] \<and> k \<le> int (width s)"
    and res: "\<And>row. map_of (seq_rows s) sid = Some row \<Longrightarrow>
       k \<le> Min ((\<lambda>(l, h). int (width s) - int (lengths s l row h)) ` ({..<layers s} \<times> {..<heads s}))"
    using assms(2-4) by (auto simp: append_capacity_def av split: option.splits if_splits)
  show "k * int (heads s) \<le> int (free_counts s ! l)" if l: "l < layers s" for l
  proof -
    have "?av \<le> int (free_counts s ! l) div int (heads s)" using l by (intro Min_le) auto
    with kav have "k \<le> int (free_counts s ! l) div int (heads s)" by simp
    then have "k * int (heads s) \<le> int (free_counts s ! l) div int (heads s) * int (heads s)"
      by (rule mult_right_mono) simp
    moreover have "int (free_counts s ! l) div int (heads s) * int (heads s) + int (free_counts s ! l) mod int (heads s)
        = int (free_counts s ! l)" by (rule div_mult_mod_eq)
    moreover have "0 \<le> int (free_counts s ! l) mod int (heads s)"
      using assms(1) by (simp add: hs_inv_def)
    ultimately show ?thesis by linarith
  qed
  show "map_of (seq_rows s) sid = None \<Longrightarrow> hs_free_rows s \<noteq> [] \<and> k \<le> int (width s)" by (rule row)
  show "int (lengths s l row h) + k \<le> int (width s)"
    if "map_of (seq_rows s) sid = Some row" "l < layers s" "h < heads s" for row l h
  proof -
    have "Min ((\<lambda>(l, h). int (width s) - int (lengths s l row h)) ` ({..<layers s} \<times> {..<heads s}))
        \<le> int (width s) - int (lengths s l row h)"
      using that by (intro Min_le) (auto intro!: image_eqI [where x="(l, h)"])
    with res [OF that(1)] show ?thesis by simp
  qed
qed

text \<open>
  C12. The advertised capacity is usable.  Any number of tokens up to \<open>append_capacity\<close>, with
  consecutive positions after the retained ones, is accepted by \<open>plan_append\<close>.
\<close>

theorem append_capacity_usable:
  assumes "head_reachable s" and "append_capacity s sid [] = Inr n" and "1 \<le> k" and "k \<le> n"
    and "0 \<le> start" and "start + k - 1 \<le> int32_max"
    and "\<forall>row. map_of (seq_rows s) sid = Some row \<longrightarrow> (\<forall>l<layers s. \<forall>h<heads s. \<forall>p\<in>set (logical s l row h). p < start)"
  shows "\<exists>plan. plan_append s [(sid, [start..start + k - 1])] = Inr plan"
proof -
  have inv: "hs_inv s" by (rule head_reachable_inv [OF assms(1)])
  note B = append_capacity_bounds [OF inv assms(2,4,3)]
  let ?pos = "[start..start + k - 1]"
  have len: "length ?pos = nat k" and ne: "?pos \<noteq> []" and hd: "hd ?pos = start"
    using assms(3) upto_rec1 [of start "start + k - 1"] by simp_all
  have "consecutive ?pos" using consecutive_upt [of start "nat (k - 1)"] assms(3) by (simp add: add_diff_eq)
  then have ok: "positions_ok ?pos" using ne assms(5,6) by (auto simp: positions_ok_def)
  have room: "\<not> (\<exists>c\<in>set (free_counts s). c < heads s * nat k)"
  proof -
    have "heads s * nat k \<le> free_counts s ! l" if "l < layers s" for l
    proof -
      have "int (heads s * nat k) \<le> int (free_counts s ! l)"
        using B(1) [OF that] assms(3) by (simp add: mult.commute)
      then show ?thesis by (simp only: of_nat_le_iff)
    qed
    then show ?thesis
      using stacks_okD(2) [of s] inv by (auto simp: in_set_conv_nth hs_inv_def not_less)
  qed
  define row where "row = hd (assign_rows s [sid] (rev (hs_free_rows s)))"
  have free0: "lengths s l row h = 0" if "map_of (seq_rows s) sid = None" "l < layers s" "h < heads s" for l h
  proof -
    have "row \<in> set (hs_free_rows s)" using B(2) that(1) by (simp add: row_def hd_rev)
    with inv that show ?thesis by (simp add: hs_inv_def rows_ok_def)
  qed
  have fits: "row_fits s row ?pos"
    unfolding row_fits_def len
  proof (intro allI impI)
    fix l h assume lh: "l < layers s" "h < heads s"
    show "lengths s l row h + nat k \<le> width s"
    proof (cases "map_of (seq_rows s) sid")
      case None
      then show ?thesis using B(2) free0 lh assms(3) by (simp add: nat_le_iff)
    next
      case (Some r)
      then have "row = r" by (simp add: row_def)
      with B(3) [OF Some lh] assms(3) have "int (lengths s l row h + nat k) \<le> int (width s)" by simp
      then show ?thesis by (simp only: of_nat_le_iff)
    qed
  qed
  have follows: "row_follows s row ?pos"
    unfolding row_follows_def hd
  proof (intro allI impI)
    fix l h assume lh: "l < layers s" "h < heads s" and n: "0 < lengths s l row h"
    then have owner: "map_of (seq_rows s) sid = Some row"
      using free0 [OF _ lh] by (cases "map_of (seq_rows s) sid") (simp_all add: row_def)
    then have "row < hs_rows s" using inv by (auto simp: hs_inv_def rows_ok_def)
    then have "lengths s l row h \<le> length (positions s l row h)"
      using inv lh by (auto simp: hs_inv_def cells_ok_def cell_ok_def)
    then have "positions s l row h ! (lengths s l row h - 1) \<in> set (logical s l row h)"
      using n by (auto simp: logical_def in_set_conv_nth intro!: exI [of _ "lengths s l row h - 1"])
    with assms(7) owner lh show "positions s l row h ! (lengths s l row h - 1) < start" by simp
  qed
  have "assign_rows s [sid] (rev (hs_free_rows s)) = [row]" by (simp add: row_def split: option.splits)
  moreover have "length (filter (\<lambda>sid. sid \<notin> fst ` set (seq_rows s)) [sid]) \<le> length (hs_free_rows s)"
    using B(2) by (auto simp: map_of_eq_None_iff Suc_le_eq)
  ultimately show ?thesis
    using ok room fits follows by (simp add: plan_append_def Let_def len del: assign_rows.simps)
qed

section \<open>A concrete ledger\<close>

text \<open>One layer with one head, four slots, two rows of width three; a batch of two sequences appended.\<close>

definition example_ledger :: head_slots where
  "example_ledger = projr (HeadSlotAllocator [4] 1 3 2)"

definition example_plan :: head_append_plan where
  "example_plan =
     \<lparr>plan_generation = 0, plan_seq_ids = [7, 8], plan_rows = [0, 1], plan_positions = [[0, 1], [5]]\<rparr>"

definition example_filled :: head_slots where
  "example_filled = snd (apply_append example_plan example_ledger)"

lemma example_ledger_eq: "example_ledger =
   \<lparr>capacities = [4], heads = 1, width = 3, hs_rows = 2, slots = (\<lambda>l r h. [- 1, - 1, - 1]),
    positions = (\<lambda>l r h. [- 1, - 1, - 1]), lengths = (\<lambda>l r h. 0), free = [[0, 1, 2, 3]], free_counts = [4],
    seq_rows = [], hs_free_rows = [1, 0], generation = 0\<rparr>"
  by (simp add: example_ledger_def HeadSlotAllocator_def upt_conv_Cons numeral_eq_Suc)

lemma example_plan_ok: "plan_append example_ledger [(7, [0, 1]), (8, [5])] = Inr example_plan"
  by (simp add: plan_append_def example_ledger_eq Let_def positions_ok_def int32_max_def row_fits_def
      row_follows_def example_plan_def)

lemma example_filled_eq:
  "capacities example_filled = [4]" "heads example_filled = 1" "free_counts example_filled = [1]"
  "free example_filled = [[0, 1, 2, 3]]" "hs_rows example_filled = 2" "width example_filled = 3"
  "seq_rows example_filled = [(7, 0), (8, 1)]" "hs_free_rows example_filled = []"
  "slots example_filled 0 0 0 = [2, 3, - 1]" "slots example_filled 0 (Suc 0) 0 = [1, - 1, - 1]"
  "positions example_filled 0 0 0 = [0, 1, - 1]" "positions example_filled 0 (Suc 0) 0 = [5, - 1, - 1]"
  "lengths example_filled 0 0 0 = 2" "lengths example_filled 0 (Suc 0) 0 = 1"
  unfolding example_filled_def example_plan_def
  by (simp_all add: apply_append_def example_ledger_eq eff_simps take_row_def append_row_def Let_def splice_def
      selected_slot_def upt_conv_Cons eval_nat_numeral)

lemma example_ledger_reachable: "head_reachable example_ledger"
proof -
  have "HeadSlotAllocator [4] 1 3 2 = Inr example_ledger" by (simp add: example_ledger_def HeadSlotAllocator_def)
  then show ?thesis unfolding head_reachable_def by blast
qed

lemma example_filled_reachable: "head_reachable example_filled"
proof -
  have "head_step example_ledger example_filled"
    unfolding example_filled_def by (rule head_step.append [OF example_plan_ok])
  with example_ledger_reachable show ?thesis
    unfolding head_reachable_def by (meson rtranclp.rtrancl_into_rtrancl)
qed

theorem head_slots_exclusive_witness:
  "head_reachable example_filled \<and> assert_invariants example_filled [1] = Inr () \<and> allocated example_filled 0 = [2, 3, 1]"
proof -
  have "length [1::int] = layers example_filled \<and>
      (\<forall>l<layers example_filled. 0 \<le> [1::int] ! l \<and> [1] ! l \<le> int (free_counts example_filled ! l))"
    by (simp add: example_filled_eq)
  moreover have "allocated example_filled 0 = [2, 3, 1]"
    by (simp add: allocated_def example_filled_eq upt_conv_Cons)
  ultimately show ?thesis
    using head_slots_exclusive [OF example_filled_reachable] example_filled_reachable by blast
qed

theorem planned_append_applies_witness:
  "plan_append example_ledger [(7, [0, 1]), (8, [5])] = Inr example_plan \<and>
   (\<exists>out s'. apply_append example_plan example_ledger = (Inr out, s') \<and> free_counts s' = [1])"
  using planned_append_applies [OF example_ledger_reachable example_plan_ok] example_plan_ok
  by (auto simp: example_ledger_eq)

theorem compact_keeps_selection_witness:
  "\<exists>s'. compact 7 [[[1]]] example_filled = (Inr [1], s') \<and> logical s' 0 0 0 = [1] \<and> in_use s' 0 0 0 = [3]"
proof -
  have "fst (compact 7 [[[1]]] example_filled) = Inr [1]"
    by (simp add: compact_def validate_selection_def selection_ok_def example_filled_eq drop_indices_def
        upt_conv_Cons eval_nat_numeral)
  then obtain s' where "compact 7 [[[1]]] example_filled = (Inr [1], s')" by (metis prod.collapse)
  moreover have "take_indices (logical example_filled 0 0 0) [1] = [1]" "take_indices (in_use example_filled 0 0 0) [1] = [3]"
    by (simp_all add: take_indices_def logical_def in_use_def example_filled_eq)
  ultimately show ?thesis
    using compact_keeps_selection [OF example_filled_reachable, of 7 "[[[1]]]"] by (auto simp: example_filled_eq)
qed

theorem append_capacity_usable_witness:
  "append_capacity example_filled 8 [] = Inr 1 \<and> (\<exists>plan. plan_append example_filled [(8, [6])] = Inr plan)"
proof -
  have cap: "append_capacity example_filled 8 [] = Inr 1"
    by (simp add: append_capacity_def available_tokens_def example_filled_eq lessThan_Suc)
  have "\<exists>plan. plan_append example_filled [(8, [6..6 + 1 - 1])] = Inr plan"
    by (rule append_capacity_usable [OF example_filled_reachable cap])
      (simp_all add: int32_max_def example_filled_eq logical_def)
  with cap show ?thesis by simp
qed

end
