(* ===== verification/Prefix_Block.thy ===== *)
theory Prefix_Block
  imports Prelude Routing_Membership "HOL-Library.Word" "HOL-Library.List_Lexorder"
begin

text \<open>
  \<open>engine/prefix_cache.py\<close>, the functions above the radix tree: the usable prefix length, the
  block size of a configuration, the content-addressed block ids, the routing snapshot, and the
  records of a cached block and of its residency.

  Byte strings are lists of \<open>8 word\<close>, ordered lexicographically as in Python.  \<open>hashlib.sha256\<close> is
  the parameter \<open>sha\<close>; a hasher that is fed several strings digests their concatenation, and its
  \<open>copy()\<close> digests the same prefix.
\<close>

type_synonym bytes = "8 word list"

section \<open>Token prefixes and block sizes\<close>

definition usable_prefix_cache_tokens :: "int \<Rightarrow> int \<Rightarrow> int result" where
  "usable_prefix_cache_tokens prompt_len block_size =
     (if block_size \<le> 0 then Inl ValueError
      else if prompt_len \<le> 1 then Inr 0
      else Inr (((prompt_len - 1) div block_size) * block_size))"

text \<open>
  The attributes of \<open>config\<close> that the block size depends on.  \<open>prefix_cache_block_size\<close> may be
  absent (or \<open>None\<close>), an integer, or anything else (a \<open>bool\<close> included).
\<close>

datatype config_block_size = Unset | IntSize int | OtherValue

record block_config =
  cfg_prefix_cache_block_size :: config_block_size
  cfg_sparse_method :: string
  cfg_quest_chunk_size :: int
  cfg_linear_attention_layer_indices :: "int list"

definition resolve_prefix_cache_block_size :: "block_config \<Rightarrow> int result" where
  "resolve_prefix_cache_block_size cfg =
     (case cfg_prefix_cache_block_size cfg of
        OtherValue \<Rightarrow> Inl ValueError
      | configured \<Rightarrow>
          if cfg_sparse_method cfg = ''quest'' then
            let quest_chunk_size = cfg_quest_chunk_size cfg;
                is_mixed = cfg_linear_attention_layer_indices cfg \<noteq> []
            in if is_mixed then
                 let block_size = (case configured of IntSize n \<Rightarrow> n | _ \<Rightarrow> quest_chunk_size)
                 in if block_size \<le> 0 then Inl ValueError
                    else if quest_chunk_size = 0 then Inl ZeroDivisionError
                    else if block_size mod quest_chunk_size \<noteq> 0 then Inl ValueError
                    else Inr block_size
               else if configured \<noteq> Unset \<and> configured \<noteq> IntSize quest_chunk_size then Inl ValueError
               else Inr quest_chunk_size
          else
            let block_size = (case configured of IntSize n \<Rightarrow> n | _ \<Rightarrow> 16)
            in if block_size \<le> 0 then Inl ValueError else Inr block_size)"

section \<open>Block ids\<close>

text \<open>\<open>struct.pack("<nq", ...)\<close>: signed 64-bit little-endian, an error outside the range.\<close>

definition pack_q :: "int \<Rightarrow> bytes" where
  "pack_q x = map (\<lambda>i. word_of_int (x div 256 ^ i)) [0..<8]"

definition pack_token_ids :: "int list \<Rightarrow> bytes result" where
  "pack_token_ids ts =
     (if \<forall>x\<in>set ts. - (2 ^ 63) \<le> x \<and> x < 2 ^ 63 then Inr (concat (map pack_q ts)) else Inl StructError)"

definition block_prefix :: "bytes \<Rightarrow> bytes option \<Rightarrow> bytes" where
  "block_prefix fp parent = (case parent of None \<Rightarrow> fp @ [0] | Some p \<Rightarrow> fp @ [1] @ p)"

definition stable_prefix_block_id :: "(bytes \<Rightarrow> bytes) \<Rightarrow> bytes \<Rightarrow> int list \<Rightarrow> bytes option \<Rightarrow> bytes result" where
  "stable_prefix_block_id sha fp ts parent =
     bindR (pack_token_ids ts) (\<lambda>packed. Inr (sha (block_prefix fp parent @ packed)))"

text \<open>The loop of \<open>block_ids_for_tokens\<close> over \<open>range(0, len(packed_tokens), block_bytes)\<close>.\<close>

fun hash_blocks :: "(bytes \<Rightarrow> bytes) \<Rightarrow> bytes \<Rightarrow> nat \<Rightarrow> bytes \<Rightarrow> nat list \<Rightarrow> bytes option \<Rightarrow> bytes list" where
  "hash_blocks sha fp block_bytes packed [] parent = []"
| "hash_blocks sha fp block_bytes packed (start # starts) parent =
     (let b = sha (block_prefix fp parent @ take block_bytes (drop start packed))
      in b # hash_blocks sha fp block_bytes packed starts (Some b))"

definition range_step :: "nat \<Rightarrow> nat \<Rightarrow> nat list" where
  "range_step stop step = map (\<lambda>i. i * step) [0..<(stop + step - 1) div step]"

definition token_block_ids :: "(bytes \<Rightarrow> bytes) \<Rightarrow> bytes \<Rightarrow> int \<Rightarrow> int list \<Rightarrow> int option \<Rightarrow> bytes list result" where
  "token_block_ids sha fp block_size ts max_tokens =
     (let limit0 = (case max_tokens of None \<Rightarrow> int (length ts) | Some m \<Rightarrow> min m (int (length ts)));
          token_limit = (limit0 div block_size) * block_size
      in if token_limit \<le> 0 then Inr []
         else bindR (pack_token_ids (take (nat token_limit) ts)) (\<lambda>packed.
           let block_bytes = nat (block_size * 8)
           in Inr (hash_blocks sha fp block_bytes packed (range_step (length packed) block_bytes) None)))"

section \<open>Routing snapshots\<close>

record 'b routing_snapshot =
  rs_supported :: bool
  rs_enabled :: bool
  rs_method :: string
  rs_block_size :: "int option"
  rs_fingerprint :: bytes
  rs_block_ids :: "'b set"
  rs_membership :: "'b routing_membership option"

text \<open>
  The answer of \<open>match\<close>.  The dictionary of a disabled snapshot has only the first fields, the
  others are \<open>None\<close> there; \<open>match_ratio\<close>, a float computed from two of the counts, and the text
  fields are left out.
\<close>

record routing_match =
  rm_enabled :: bool
  rm_matched_tokens :: int
  rm_matched_blocks :: int
  rm_usable_tokens :: "int option"
  rm_last_block_id :: "bytes option"
  rm_live_blocks :: "int option"

definition snapshot_contains :: "'b::linorder routing_snapshot \<Rightarrow> 'b \<Rightarrow> bool" where
  "snapshot_contains rs b =
     (case rs_membership rs of None \<Rightarrow> b \<in> rs_block_ids rs | Some m \<Rightarrow> contains m b)"

text \<open>The loop of \<open>match\<close>; it breaks at the first id that is not contained.\<close>

fun match_loop ::
  "(bytes \<Rightarrow> bytes) \<Rightarrow> bytes routing_snapshot \<Rightarrow> nat \<Rightarrow> int list \<Rightarrow> nat list \<Rightarrow> nat \<Rightarrow> bytes option \<Rightarrow> (nat \<times> bytes option) result" where
  "match_loop sha rs bs ts [] hit parent = Inr (hit, parent)"
| "match_loop sha rs bs ts (start # starts) hit parent =
     bindR (stable_prefix_block_id sha (rs_fingerprint rs) (take bs (drop start ts)) parent) (\<lambda>b.
       if snapshot_contains rs b then match_loop sha rs bs ts starts (hit + 1) (Some b)
       else Inr (hit, parent))"

definition snapshot_match :: "(bytes \<Rightarrow> bytes) \<Rightarrow> bytes routing_snapshot \<Rightarrow> int list \<Rightarrow> routing_match result" where
  "snapshot_match sha rs ts =
     (if \<not> rs_supported rs \<or> \<not> rs_enabled rs then
        Inr \<lparr>rm_enabled = rs_enabled rs, rm_matched_tokens = 0, rm_matched_blocks = 0,
             rm_usable_tokens = None, rm_last_block_id = None, rm_live_blocks = None\<rparr>
      else case rs_block_size rs of
        None \<Rightarrow> Inl RuntimeError
      | Some bs \<Rightarrow>
          if bs \<le> 0 then Inl RuntimeError
          else bindR (usable_prefix_cache_tokens (int (length ts)) bs) (\<lambda>usable.
            bindR (match_loop sha rs (nat bs) ts (range_step (nat usable) (nat bs)) 0 None) (\<lambda>(hit, lst).
              Inr \<lparr>rm_enabled = True, rm_matched_tokens = int hit * bs, rm_matched_blocks = int hit,
                   rm_usable_tokens = Some usable, rm_last_block_id = lst,
                   rm_live_blocks = Some (case rs_membership rs of
                     None \<Rightarrow> int (card (rs_block_ids rs)) | Some m \<Rightarrow> live_blocks m)\<rparr>)))"

section \<open>Cached blocks\<close>

datatype transfer_kind = D2H | H2D

record residency =
  device_present :: bool
  host_present :: bool
  transfer :: "transfer_kind option"

definition default_residency :: residency where
  "default_residency = \<lparr>device_present = True, host_present = False, transfer = None\<rparr>"

definition validate :: "residency \<Rightarrow> unit result" where
  "validate r =
     (if \<not> device_present r \<and> \<not> host_present r then Inl RuntimeError
      else if transfer r = Some D2H then
        if \<not> device_present r \<or> host_present r then Inl RuntimeError else Inr ()
      else if transfer r = Some H2D then
        if \<not> device_present r \<or> \<not> host_present r then Inl RuntimeError else Inr ()
      else Inr ())"

text \<open>
  \<open>PrefixCacheBlock\<close>.  The payload and the pruning record belong to the cache managers and are of
  any type \<open>'p\<close>.
\<close>

record ('b, 'p) cache_block =
  stable_block_id :: 'b
  parent_block_id :: "'b option"
  block_tokens :: int
  logical_block_idx :: int
  payload :: 'p
  token_ids :: "int list"
  ref_count :: int
  last_access :: int
  eviction_priority :: int
  resid :: residency
  prune_record :: "'p option"

end
