(* ===== verification/Radix_Tree.thy ===== *)
theory Radix_Tree
  imports Prelude
begin

text \<open>
  \<open>engine/prefix_cache.py\<close>, \<open>RadixTreeNode\<close> and \<open>RadixTreeBackend\<close>: the compressed prefix tree
  that holds the block ids of the prefix cache.  Nodes are mutable objects that point to each
  other in both directions, so they live in a heap: a node is an address, \<open>nodes\<close> gives the object
  at it, \<open>next_node\<close> is the next unused address and the root is address 0.  The \<open>while\<close> loops that
  follow pointers carry fuel (one unit per node, or per block id of the query) and answer
  \<open>OutOfFuel\<close> when it runs out, which the lemmas of \<open>Radix_Forest\<close> exclude.

  \<open>_locations\<close> is only accessed by key, so it is a map.  \<open>_leaf_block_ids\<close> is a Python set; the
  order in which \<open>tuple\<close> lists it is unspecified, and its callers only build sets and heaps from
  it, so \<open>leaf_block_ids\<close> returns the set.
\<close>

section \<open>The model\<close>

record 'b rnode =
  segment :: "'b list"
  rparent :: "nat option"
  children :: "('b, nat) dict"

record 'b radix =
  nodes :: "nat \<Rightarrow> 'b rnode"
  next_node :: nat
  locations :: "'b \<rightharpoonup> nat \<times> nat"
  leaf_ids :: "'b set"

definition RadixTreeBackend :: "'b radix" where
  "RadixTreeBackend =
     \<lparr>nodes = (\<lambda>_. \<lparr>segment = [], rparent = None, children = []\<rparr>), next_node = 1,
      locations = Map.empty, leaf_ids = {}\<rparr>"

abbreviation set_node :: "nat \<Rightarrow> 'b rnode \<Rightarrow> 'b radix \<Rightarrow> 'b radix" where
  "set_node n r R \<equiv> R\<lparr>nodes := (nodes R)(n := r)\<rparr>"

text \<open>\<open>RadixTreeNode(segment=..., parent=..., children=...)\<close>: the new object is at \<open>next_node\<close>.\<close>

definition new_node :: "'b rnode \<Rightarrow> 'b radix \<Rightarrow> 'b radix" where
  "new_node r R = (set_node (next_node R) r R)\<lparr>next_node := Suc (next_node R)\<rparr>"

definition index_segment :: "nat \<Rightarrow> 'b radix \<Rightarrow> 'b radix" where
  "index_segment n R = R\<lparr>locations :=
     foldl (\<lambda>loc (i, b). loc(b \<mapsto> (n, i))) (locations R) (enumerate 0 (segment (nodes R n)))\<rparr>"

definition unindex_segment :: "'b list \<Rightarrow> 'b radix \<Rightarrow> 'b radix" where
  "unindex_segment seg R = R\<lparr>locations := foldl (\<lambda>loc b. loc(b := None)) (locations R) seg\<rparr>"

definition discard_leaf :: "nat \<Rightarrow> 'b radix \<Rightarrow> 'b radix" where
  "discard_leaf n R =
     (if segment (nodes R n) \<noteq> [] then R\<lparr>leaf_ids := leaf_ids R - {last (segment (nodes R n))}\<rparr> else R)"

definition add_leaf :: "nat \<Rightarrow> 'b radix \<Rightarrow> 'b radix" where
  "add_leaf n R =
     (if segment (nodes R n) \<noteq> [] \<and> children (nodes R n) = []
      then R\<lparr>leaf_ids := insert (last (segment (nodes R n))) (leaf_ids R)\<rparr> else R)"

text \<open>\<open>for child in ...values(): child.parent = node\<close>\<close>

definition set_parents :: "nat \<Rightarrow> nat list \<Rightarrow> 'b radix \<Rightarrow> 'b radix" where
  "set_parents n cs R = foldl (\<lambda>R c. set_node c ((nodes R c)\<lparr>rparent := Some n\<rparr>) R) R cs"

definition split_after :: "nat \<Rightarrow> nat \<Rightarrow> 'b radix \<Rightarrow> 'b radix" where
  "split_after n i R =
     (let old_segment = segment (nodes R n);
          pre = take (i + 1) old_segment;
          suffix = drop (i + 1) old_segment
      in if suffix = [] then R
         else
           let old_children = children (nodes R n);
               R1 = unindex_segment old_segment R;
               m = next_node R;
               R2 = new_node \<lparr>segment = suffix, rparent = Some n, children = old_children\<rparr> R1;
               R3 = set_parents m (map snd old_children) R2;
               R4 = set_node n ((nodes R3 n)\<lparr>segment := pre, children := [(hd suffix, m)]\<rparr>) R3
           in index_segment m (index_segment n R4))"

text \<open>
  The four statements that hang a new node with segment \<open>seg\<close> below \<open>n\<close>: create it, enter it
  in \<open>n.children\<close>, index its segment and record it as a leaf.
\<close>

definition attach_child :: "nat \<Rightarrow> 'b list \<Rightarrow> 'b radix \<Rightarrow> 'b radix" where
  "attach_child n seg R =
     (let c = next_node R;
          R1 = new_node \<lparr>segment = seg, rparent = Some n, children = []\<rparr> R;
          R2 = set_node n ((nodes R1 n)\<lparr>children := dict_set (hd seg) c (children (nodes R1 n))\<rparr>) R1
      in add_leaf c (index_segment c R2))"

definition drop_leaf :: "nat \<Rightarrow> 'b radix \<Rightarrow> 'b radix" where
  "drop_leaf n R = (if children (nodes R n) = [] then discard_leaf n R else R)"

definition insert_child :: "'b option \<Rightarrow> 'b \<Rightarrow> ('b radix, unit) eff" where
  "insert_child pid b R =
     (if locations R b \<noteq> None then (Inr (), R)
      else case pid of
        None \<Rightarrow>
          if map_of (children (nodes R 0)) b \<noteq> None then (Inl RuntimeError, R)
          else (Inr (), attach_child 0 [b] R)
      | Some p \<Rightarrow>
          (case locations R p of
             None \<Rightarrow> (Inl KeyError, R)
           | Some (n, i) \<Rightarrow>
               let R1 = split_after n i R;
                   R2 = drop_leaf n R1
               in if map_of (children (nodes R2 n)) b \<noteq> None then (Inl RuntimeError, R2)
                  else (Inr (), attach_child n [b] R2)))"

record 'b radix_lookup_result =
  hit_block_count :: nat
  last_block_id :: "'b option"

text \<open>
  The inner \<open>for\<close> of \<open>lookup\<close>: \<open>True\<close> when it returns out of the function, \<open>False\<close> when the whole
  segment matched and the outer loop goes on.
\<close>

fun lookup_segment :: "'b list \<Rightarrow> nat \<Rightarrow> 'b list \<Rightarrow> nat \<Rightarrow> 'b option \<Rightarrow> bool \<times> nat \<times> 'b option" where
  "lookup_segment ids lmt [] hit lst = (False, hit, lst)"
| "lookup_segment ids lmt (s # ss) hit lst =
     (if hit \<ge> lmt \<or> ids ! hit \<noteq> s then (True, hit, lst)
      else lookup_segment ids lmt ss (hit + 1) (Some s))"

fun lookup_loop :: "nat \<Rightarrow> 'b radix \<Rightarrow> 'b list \<Rightarrow> nat \<Rightarrow> nat \<Rightarrow> nat \<Rightarrow> 'b option \<Rightarrow> 'b radix_lookup_result result" where
  "lookup_loop 0 R ids lmt n hit lst = Inl OutOfFuel"
| "lookup_loop (Suc fuel) R ids lmt n hit lst =
     (if hit < lmt
      then case map_of (children (nodes R n)) (ids ! hit) of
             None \<Rightarrow> Inr \<lparr>hit_block_count = hit, last_block_id = lst\<rparr>
           | Some c \<Rightarrow>
               (case lookup_segment ids lmt (segment (nodes R c)) hit lst of
                  (True, hit', lst') \<Rightarrow> Inr \<lparr>hit_block_count = hit', last_block_id = lst'\<rparr>
                | (False, hit', lst') \<Rightarrow> lookup_loop fuel R ids lmt c hit' lst')
      else Inr \<lparr>hit_block_count = hit, last_block_id = lst\<rparr>)"

definition lookup :: "'b radix \<Rightarrow> 'b list \<Rightarrow> int \<Rightarrow> 'b radix_lookup_result result" where
  "lookup R ids max_blocks =
     lookup_loop (Suc (length ids)) R ids (nat (min max_blocks (int (length ids)))) 0 0 None"

text \<open>The inner \<open>while\<close> of \<open>insert\<close>, the length of the common prefix of the rest and the edge.\<close>

fun common_length :: "'b list \<Rightarrow> 'b list \<Rightarrow> nat" where
  "common_length (x # xs) (y # ys) = (if x = y then Suc (common_length xs ys) else 0)"
| "common_length _ _ = 0"

text \<open>The edge to \<open>child\<close> splits inside its segment: \<open>split\<close> takes the first \<open>common\<close> ids.\<close>

definition split_edge :: "nat \<Rightarrow> nat \<Rightarrow> nat \<Rightarrow> 'b list \<Rightarrow> 'b radix \<Rightarrow> 'b radix" where
  "split_edge n child common rest R =
     (let old_segment = segment (nodes R child);
          R1 = unindex_segment old_segment R;
          pre = take common old_segment;
          suffix = drop common old_segment;
          split = next_node R1;
          R2 = new_node \<lparr>segment = pre, rparent = Some n, children = []\<rparr> R1;
          R3 = set_node n ((nodes R2 n)\<lparr>children := dict_set (hd pre) split (children (nodes R2 n))\<rparr>) R2;
          R4 = set_node child ((nodes R3 child)\<lparr>segment := suffix, rparent := Some split\<rparr>) R3;
          R5 = set_node split ((nodes R4 split)\<lparr>children := dict_set (hd suffix) child (children (nodes R4 split))\<rparr>) R4;
          R6 = (if rest \<noteq> [] then attach_child split rest R5 else R5)
      in index_segment child (index_segment split R6))"

fun insert_loop :: "nat \<Rightarrow> nat \<Rightarrow> 'b list \<Rightarrow> ('b radix, unit) eff" where
  "insert_loop 0 n rest R = (Inl OutOfFuel, R)"
| "insert_loop (Suc fuel) n rest R =
     (if rest = [] then (Inr (), R)
      else case map_of (children (nodes R n)) (hd rest) of
        None \<Rightarrow>
          (Inr (), attach_child n rest (drop_leaf n R))
      | Some child \<Rightarrow>
          let common = common_length rest (segment (nodes R child))
          in if common = length (segment (nodes R child)) then insert_loop fuel child (drop common rest) R
             else if common = 0 then (Inl RuntimeError, R)
             else (Inr (), split_edge n child common (drop common rest) R))"

definition insert_ids :: "'b list \<Rightarrow> ('b radix, unit) eff" where
  "insert_ids ids = insert_loop (Suc (length ids)) 0 ids"

definition remove_block :: "'b \<Rightarrow> ('b radix, unit) eff" where
  "remove_block b R =
     (case locations R b of
        None \<Rightarrow> (Inl KeyError, R)
      | Some (n, i) \<Rightarrow>
          if int i \<noteq> int (length (segment (nodes R n))) - 1 \<or> children (nodes R n) \<noteq> []
          then (Inl RuntimeError, R)
          else case rparent (nodes R n) of
            None \<Rightarrow> (Inl RuntimeError, R)
          | Some p \<Rightarrow>
              let R1 = R\<lparr>locations := (locations R)(b := None), leaf_ids := leaf_ids R - {b}\<rparr>
              in if length (segment (nodes R n)) = 1
                 then let k = hd (segment (nodes R n))
                      in if map_of (children (nodes R p)) k = None then (Inl KeyError, R1)
                         else (Inr (), add_leaf p (set_node p
                                ((nodes R p)\<lparr>children := dict_pop k (children (nodes R p))\<rparr>) R1))
                 else (Inr (), add_leaf n (set_node n
                        ((nodes R n)\<lparr>segment := butlast (segment (nodes R n))\<rparr>) R1)))"

text \<open>The segments on the way to the root, innermost first.\<close>

fun path_loop :: "nat \<Rightarrow> 'b radix \<Rightarrow> nat \<Rightarrow> 'b list list \<Rightarrow> 'b list list result" where
  "path_loop 0 R n segs = Inl OutOfFuel"
| "path_loop (Suc fuel) R n segs =
     (case rparent (nodes R n) of
        None \<Rightarrow> Inr segs
      | Some p \<Rightarrow>
          path_loop fuel R p (if segment (nodes R p) \<noteq> [] then segs @ [segment (nodes R p)] else segs))"

definition path_to_block :: "'b radix \<Rightarrow> 'b \<Rightarrow> 'b list result" where
  "path_to_block R b =
     (case locations R b of
        None \<Rightarrow> Inl KeyError
      | Some (n, i) \<Rightarrow>
          bindR (path_loop (next_node R) R n [take (i + 1) (segment (nodes R n))])
            (\<lambda>segs. Inr (concat (rev segs))))"

text \<open>Depth-first traversal; the list is the stack with its end as the top.\<close>

fun subtree_loop :: "nat \<Rightarrow> 'b radix \<Rightarrow> nat list \<Rightarrow> 'b list \<Rightarrow> 'b list result" where
  "subtree_loop fuel R [] acc = Inr acc"
| "subtree_loop 0 R (x # xs) acc = Inl OutOfFuel"
| "subtree_loop (Suc fuel) R (x # xs) acc =
     (let n = last (x # xs)
      in subtree_loop fuel R (butlast (x # xs) @ map snd (children (nodes R n)))
           (acc @ segment (nodes R n)))"

definition subtree_block_ids :: "'b radix \<Rightarrow> 'b \<Rightarrow> 'b list result" where
  "subtree_block_ids R b =
     (case locations R b of
        None \<Rightarrow> Inl KeyError
      | Some (n, i) \<Rightarrow>
          subtree_loop (next_node R) R (map snd (children (nodes R n))) (drop i (segment (nodes R n))))"

definition child_count :: "'b radix \<Rightarrow> 'b \<Rightarrow> int result" where
  "child_count R b =
     (case locations R b of
        None \<Rightarrow> Inl KeyError
      | Some (n, i) \<Rightarrow>
          Inr (if int i < int (length (segment (nodes R n))) - 1 then 1
               else int (length (children (nodes R n)))))"

definition child_block_ids :: "'b radix \<Rightarrow> 'b \<Rightarrow> 'b list result" where
  "child_block_ids R b =
     (case locations R b of
        None \<Rightarrow> Inl KeyError
      | Some (n, i) \<Rightarrow>
          if int i < int (length (segment (nodes R n))) - 1 then Inr [segment (nodes R n) ! (i + 1)]
          else mapR (\<lambda>c. py_index (segment (nodes R c)) 0) (map snd (children (nodes R n))))"

definition leaf_block_ids :: "'b radix \<Rightarrow> 'b set" where
  "leaf_block_ids R = leaf_ids R"

fun stats_loop :: "nat \<Rightarrow> 'b radix \<Rightarrow> nat list \<Rightarrow> int \<Rightarrow> int \<Rightarrow> (int \<times> int) result" where
  "stats_loop fuel R [] nc ec = Inr (nc, ec)"
| "stats_loop 0 R (x # xs) nc ec = Inl OutOfFuel"
| "stats_loop (Suc fuel) R (x # xs) nc ec =
     (let n = last (x # xs)
      in stats_loop fuel R (butlast (x # xs) @ map snd (children (nodes R n)))
           (nc + 1) (ec + int (length (children (nodes R n)))))"

definition radix_stats :: "'b radix \<Rightarrow> (int \<times> int) result" where
  "radix_stats R = stats_loop (Suc (next_node R)) R [0] 0 0"

fun rebuild_loop ::
  "nat \<Rightarrow> 'b radix \<Rightarrow> nat list \<Rightarrow> ('b \<rightharpoonup> nat \<times> nat) \<Rightarrow> 'b set \<Rightarrow> (('b \<rightharpoonup> nat \<times> nat) \<times> 'b set) result" where
  "rebuild_loop fuel R [] loc lvs = Inr (loc, lvs)"
| "rebuild_loop 0 R (x # xs) loc lvs = Inl OutOfFuel"
| "rebuild_loop (Suc fuel) R (x # xs) loc lvs =
     (let n = last (x # xs); seg = segment (nodes R n)
      in rebuild_loop fuel R (butlast (x # xs) @ map snd (children (nodes R n)))
           (foldl (\<lambda>loc (i, b). loc(b \<mapsto> (n, i))) loc (enumerate 0 seg))
           (if seg \<noteq> [] \<and> children (nodes R n) = [] then insert (last seg) lvs else lvs))"

definition rebuild_locations :: "('b radix, unit) eff" where
  "rebuild_locations R =
     (case rebuild_loop (next_node R) R (map snd (children (nodes R 0))) Map.empty {} of
        Inl e \<Rightarrow> (Inl e, R)
      | Inr (loc, lvs) \<Rightarrow> (Inr (), R\<lparr>locations := loc, leaf_ids := lvs\<rparr>))"

end
