(* ===== verification/Radix_Forest.thy ===== *)
theory Radix_Forest
  imports Radix_Tree
begin

text \<open>
  The radix tree as a forest of blocks.  \<open>radix_rep L R\<close> says that the live nodes \<open>L\<close> of the heap
  form a tree below the root whose edges, locations and leaf set agree; \<open>block_parent R\<close> reads the
  forest off it: the blocks with their parent blocks.  Every operation keeps the representation and
  has a simple effect on \<open>block_parent\<close>: splitting an edge changes nothing, \<open>insert_child\<close> adds one
  block below its parent, \<open>remove_block\<close> deletes one leaf.
\<close>

section \<open>The representation invariant\<close>

abbreviation seg :: "'b radix \<Rightarrow> nat \<Rightarrow> 'b list" where
  "seg R n \<equiv> segment (nodes R n)"

abbreviation kids :: "'b radix \<Rightarrow> nat \<Rightarrow> ('b, nat) dict" where
  "kids R n \<equiv> children (nodes R n)"

abbreviation above :: "'b radix \<Rightarrow> nat \<Rightarrow> nat option" where
  "above R n \<equiv> rparent (nodes R n)"

definition last_id :: "'b radix \<Rightarrow> nat \<Rightarrow> 'b option" where
  "last_id R n = (if seg R n = [] then None else Some (last (seg R n)))"

definition block_parent :: "'b radix \<Rightarrow> 'b \<rightharpoonup> 'b option" where
  "block_parent R b =
     (case locations R b of
        None \<Rightarrow> None
      | Some (n, i) \<Rightarrow>
          Some (if i = 0 then Option.bind (above R n) (last_id R) else Some (seg R n ! (i - 1))))"

definition radix_rep :: "nat set \<Rightarrow> 'b radix \<Rightarrow> bool" where
  "radix_rep L R \<longleftrightarrow>
     0 \<in> L \<and> (\<forall>n\<in>L. n < next_node R) \<and> seg R 0 = [] \<and> above R 0 = None \<and>
     (\<forall>n\<in>L. n \<noteq> 0 \<longrightarrow> seg R n \<noteq> []) \<and>
     (\<forall>n\<in>L. n \<noteq> 0 \<longrightarrow> (\<exists>p\<in>L. above R n = Some p)) \<and>
     (\<forall>b n i. locations R b = Some (n, i) \<longleftrightarrow> n \<in> L \<and> i < length (seg R n) \<and> seg R n ! i = b) \<and>
     (\<forall>n\<in>L. distinct (map fst (kids R n))) \<and>
     (\<forall>n\<in>L. \<forall>k c. (k, c) \<in> set (kids R n) \<longleftrightarrow> c \<in> L \<and> above R c = Some n \<and> hd (seg R c) = k) \<and>
     leaf_ids R = {last (seg R n) | n. n \<in> L \<and> n \<noteq> 0 \<and> kids R n = []} \<and>
     (\<exists>rk :: nat \<Rightarrow> nat. \<forall>n\<in>L. \<forall>p. above R n = Some p \<longrightarrow> rk p < rk n)"

definition radix_ok :: "'b radix \<Rightarrow> bool" where
  "radix_ok R \<longleftrightarrow> (\<exists>L. radix_rep L R)"

lemma radix_repD:
  assumes "radix_rep L R"
  shows "0 \<in> L" "\<And>n. n \<in> L \<Longrightarrow> n < next_node R" "seg R 0 = []" "above R 0 = None"
    "\<And>n. n \<in> L \<Longrightarrow> n \<noteq> 0 \<Longrightarrow> seg R n \<noteq> []"
    "\<And>n. n \<in> L \<Longrightarrow> n \<noteq> 0 \<Longrightarrow> \<exists>p\<in>L. above R n = Some p"
    "\<And>b n i. locations R b = Some (n, i) \<longleftrightarrow> n \<in> L \<and> i < length (seg R n) \<and> seg R n ! i = b"
    "\<And>n. n \<in> L \<Longrightarrow> distinct (map fst (kids R n))"
    "\<And>n k c. n \<in> L \<Longrightarrow> (k, c) \<in> set (kids R n) \<longleftrightarrow> c \<in> L \<and> above R c = Some n \<and> hd (seg R c) = k"
    "leaf_ids R = {last (seg R n) | n. n \<in> L \<and> n \<noteq> 0 \<and> kids R n = []}"
    "\<exists>rk :: nat \<Rightarrow> nat. \<forall>n\<in>L. \<forall>p. above R n = Some p \<longrightarrow> rk p < rk n"
proof -
  note r = assms [unfolded radix_rep_def]
  show "0 \<in> L"
    by (rule r [THEN conjunct1])
  show "n < next_node R" if "n \<in> L" for n
    using r [THEN conjunct2, THEN conjunct1] that by blast
  show "seg R 0 = []"
    by (rule r [THEN conjunct2, THEN conjunct2, THEN conjunct1])
  show "above R 0 = None"
    by (rule r [THEN conjunct2, THEN conjunct2, THEN conjunct2, THEN conjunct1])
  show "seg R n \<noteq> []" if "n \<in> L" "n \<noteq> 0" for n
    using r [THEN conjunct2, THEN conjunct2, THEN conjunct2, THEN conjunct2, THEN conjunct1] that by blast
  show "\<exists>p\<in>L. above R n = Some p" if "n \<in> L" "n \<noteq> 0" for n
    using r [THEN conjunct2, THEN conjunct2, THEN conjunct2, THEN conjunct2, THEN conjunct2, THEN conjunct1] that by blast
  show "locations R b = Some (n, i) \<longleftrightarrow> n \<in> L \<and> i < length (seg R n) \<and> seg R n ! i = b" for b n i
    using r [THEN conjunct2, THEN conjunct2, THEN conjunct2, THEN conjunct2, THEN conjunct2, THEN conjunct2, THEN conjunct1] by blast
  show "distinct (map fst (kids R n))" if "n \<in> L" for n
    using r [THEN conjunct2, THEN conjunct2, THEN conjunct2, THEN conjunct2, THEN conjunct2, THEN conjunct2, THEN conjunct2, THEN conjunct1] that by blast
  show "(k, c) \<in> set (kids R n) \<longleftrightarrow> c \<in> L \<and> above R c = Some n \<and> hd (seg R c) = k" if "n \<in> L" for n k c
    using r [THEN conjunct2, THEN conjunct2, THEN conjunct2, THEN conjunct2, THEN conjunct2, THEN conjunct2, THEN conjunct2, THEN conjunct2, THEN conjunct1] that by blast
  show "leaf_ids R = {last (seg R n) | n. n \<in> L \<and> n \<noteq> 0 \<and> kids R n = []}"
    by (rule r [THEN conjunct2, THEN conjunct2, THEN conjunct2, THEN conjunct2, THEN conjunct2, THEN conjunct2, THEN conjunct2, THEN conjunct2, THEN conjunct2, THEN conjunct1])
  show "\<exists>rk :: nat \<Rightarrow> nat. \<forall>n\<in>L. \<forall>p. above R n = Some p \<longrightarrow> rk p < rk n"
    by (rule r [THEN conjunct2, THEN conjunct2, THEN conjunct2, THEN conjunct2, THEN conjunct2, THEN conjunct2, THEN conjunct2, THEN conjunct2, THEN conjunct2, THEN conjunct2])
qed

lemma radix_repI:
  assumes "0 \<in> L" "\<And>n. n \<in> L \<Longrightarrow> n < next_node R" "seg R 0 = []" "above R 0 = None"
    "\<And>n. n \<in> L \<Longrightarrow> n \<noteq> 0 \<Longrightarrow> seg R n \<noteq> []"
    "\<And>n. n \<in> L \<Longrightarrow> n \<noteq> 0 \<Longrightarrow> \<exists>p\<in>L. above R n = Some p"
    "\<And>b n i. locations R b = Some (n, i) \<longleftrightarrow> n \<in> L \<and> i < length (seg R n) \<and> seg R n ! i = b"
    "\<And>n. n \<in> L \<Longrightarrow> distinct (map fst (kids R n))"
    "\<And>n k c. n \<in> L \<Longrightarrow> (k, c) \<in> set (kids R n) \<longleftrightarrow> c \<in> L \<and> above R c = Some n \<and> hd (seg R c) = k"
    "leaf_ids R = {last (seg R n) | n. n \<in> L \<and> n \<noteq> 0 \<and> kids R n = []}"
    "\<And>n p. n \<in> L \<Longrightarrow> above R n = Some p \<Longrightarrow> rk p < (rk n :: nat)"
  shows "radix_rep L R"
  unfolding radix_rep_def
  by (intro conjI ballI impI allI exI [of _ rk]) (rule assms; assumption)+

lemma radix_rep_init: "radix_rep {0} RadixTreeBackend"
  by (rule radix_repI [where rk="\<lambda>_. 0"]) (auto simp: RadixTreeBackend_def)

lemma block_parent_init: "block_parent RadixTreeBackend = Map.empty"
  by (simp add: fun_eq_iff block_parent_def RadixTreeBackend_def)

text \<open>Consequences used throughout.\<close>

lemma rep_pos_unique:
  assumes "radix_rep L R" "n \<in> L" "m \<in> L" "i < length (seg R n)" "j < length (seg R m)"
    "seg R n ! i = seg R m ! j"
  shows "n = m \<and> i = j"
  using radix_repD(7) [OF assms(1), of "seg R n ! i" n i] radix_repD(7) [OF assms(1), of "seg R n ! i" m j] assms
  by auto

lemma rep_distinct: "radix_rep L R \<Longrightarrow> n \<in> L \<Longrightarrow> distinct (seg R n)"
  using rep_pos_unique by (metis distinct_conv_nth)

lemma rep_fresh: "radix_rep L R \<Longrightarrow> next_node R \<notin> L"
  using radix_repD(2) by blast

lemma rep_located: "radix_rep L R \<Longrightarrow> n \<in> L \<Longrightarrow> b \<in> set (seg R n) \<Longrightarrow> locations R b \<noteq> None"
proof -
  assume rep: "radix_rep L R" and n: "n \<in> L" and "b \<in> set (seg R n)"
  then obtain i where "i < length (seg R n)" "seg R n ! i = b" by (auto simp: in_set_conv_nth)
  with n radix_repD(7) [OF rep, of b n i] show ?thesis by simp
qed

lemma rep_located_at:
  assumes "radix_rep L R" and "locations R b = Some (n, i)"
  shows "n \<in> L" "n \<noteq> 0" "i < length (seg R n)" "seg R n ! i = b" "b \<in> set (seg R n)"
proof -
  show "n \<in> L" "i < length (seg R n)" "seg R n ! i = b"
    using assms(2) radix_repD(7) [OF assms(1)] by simp_all
  then show "n \<noteq> 0" "b \<in> set (seg R n)"
    using radix_repD(3) [OF assms(1)] by (metis less_zeroE list.size(3), metis nth_mem)
qed

lemma rep_not_located: "radix_rep L R \<Longrightarrow> locations R b = None \<Longrightarrow> n \<in> L \<Longrightarrow> b \<notin> set (seg R n)"
  using rep_located by metis

lemma rep_kid:
  assumes "radix_rep L R" and "n \<in> L" and "(k, c) \<in> set (kids R n)"
  shows "c \<in> L" "above R c = Some n" "hd (seg R c) = k" "c \<noteq> 0" "seg R c \<noteq> []" "k \<in> set (seg R c)"
proof -
  show c: "c \<in> L" "above R c = Some n" "hd (seg R c) = k"
    using assms radix_repD(9) [OF assms(1,2)] by auto
  show "c \<noteq> 0" using c(2) radix_repD(4) [OF assms(1)] by (metis option.distinct(1))
  then show "seg R c \<noteq> []" using c radix_repD(5) [OF assms(1)] by auto
  then show "k \<in> set (seg R c)" using c by auto
qed

lemma rep_above_in: "radix_rep L R \<Longrightarrow> n \<in> L \<Longrightarrow> above R n = Some p \<Longrightarrow> p \<in> L"
  using radix_repD(4,6) by (metis option.distinct(1) option.inject)

lemma rep_not_own_parent: "radix_rep L R \<Longrightarrow> n \<in> L \<Longrightarrow> above R n \<noteq> Some n"
  using radix_repD(11) by (metis less_irrefl)

lemma rep_seg_Nil: "radix_rep L R \<Longrightarrow> n \<in> L \<Longrightarrow> seg R n = [] \<longleftrightarrow> n = 0"
  using radix_repD(3,5) by metis

lemma rep_map_of_kids:
  assumes "radix_rep L R" and "n \<in> L"
  shows "map_of (kids R n) k = Some c \<longleftrightarrow> c \<in> L \<and> above R c = Some n \<and> hd (seg R c) = k"
  using radix_repD(8,9) [OF assms] by (metis map_of_eq_Some_iff)

lemma rep_kids_Nil:
  assumes "radix_rep L R" and "n \<in> L"
  shows "kids R n = [] \<longleftrightarrow> (\<forall>c\<in>L. above R c \<noteq> Some n)"
proof
  show "kids R n = [] \<Longrightarrow> \<forall>c\<in>L. above R c \<noteq> Some n"
    using radix_repD(9) [OF assms] by fastforce
  assume *: "\<forall>c\<in>L. above R c \<noteq> Some n"
  have "x \<notin> set (kids R n)" for x
    using * radix_repD(9) [OF assms, of "fst x" "snd x"] by auto
  then show "kids R n = []" by (cases "kids R n") auto
qed

lemma rep_finite: "radix_rep L R \<Longrightarrow> finite L"
  using radix_repD(2) by (metis finite_nat_set_iff_bounded)

section \<open>Indexing a segment\<close>

lemma index_segment_sel [simp]:
  "nodes (index_segment n R) = nodes R" "next_node (index_segment n R) = next_node R"
  "leaf_ids (index_segment n R) = leaf_ids R"
  by (simp_all add: index_segment_def)

lemma index_segment_locations:
  assumes "distinct (seg R n)"
  shows "locations (index_segment n R) b = Some (m, i) \<longleftrightarrow>
    (if b \<in> set (seg R n) then m = n \<and> i < length (seg R n) \<and> seg R n ! i = b else locations R b = Some (m, i))"
proof -
  have "distinct xs \<Longrightarrow>
    foldl (\<lambda>loc (i, b). loc(b \<mapsto> (n, i))) loc (enumerate 0 xs) b = Some (m, i) \<longleftrightarrow>
    (if b \<in> set xs then m = n \<and> i < length xs \<and> xs ! i = b else loc b = Some (m, i))" for xs loc
  proof (induction xs rule: rev_induct)
    case (snoc x xs)
    have "enumerate 0 (xs @ [x]) = enumerate 0 xs @ [(length xs, x)]"
      by (simp add: enumerate_eq_zip)
    then show ?case using snoc
      by (auto simp: nth_append less_Suc_eq split: if_splits)
  qed simp
  from this [OF assms] show ?thesis by (simp add: index_segment_def)
qed

lemma unindex_segment_sel [simp]:
  "nodes (unindex_segment s R) = nodes R" "next_node (unindex_segment s R) = next_node R"
  "leaf_ids (unindex_segment s R) = leaf_ids R"
  by (simp_all add: unindex_segment_def)

lemma unindex_segment_locations [simp]:
  "locations (unindex_segment s R) b = (if b \<in> set s then None else locations R b)"
proof -
  have "foldl (\<lambda>loc b. loc(b := None)) loc s b = (if b \<in> set s then None else loc b)" for loc
    by (induction s arbitrary: loc) auto
  from this [of "locations R"] show ?thesis unfolding unindex_segment_def by simp
qed

lemma new_node_sel [simp]:
  "nodes (new_node r R) = (nodes R)(next_node R := r)" "next_node (new_node r R) = Suc (next_node R)"
  "locations (new_node r R) = locations R" "leaf_ids (new_node r R) = leaf_ids R"
  by (simp_all add: new_node_def)

lemma set_parents_sel [simp]:
  "next_node (set_parents n cs R) = next_node R" "locations (set_parents n cs R) = locations R"
  "leaf_ids (set_parents n cs R) = leaf_ids R"
  unfolding set_parents_def by (induction cs arbitrary: R) simp_all

lemma set_parents_nodes [simp]:
  "nodes (set_parents n cs R) m = (if m \<in> set cs then (nodes R m)\<lparr>rparent := Some n\<rparr> else nodes R m)"
  unfolding set_parents_def by (induction cs arbitrary: R) auto

lemma leaf_sel [simp]:
  "nodes (discard_leaf n R) = nodes R" "next_node (discard_leaf n R) = next_node R"
  "locations (discard_leaf n R) = locations R"
  "nodes (add_leaf n R) = nodes R" "next_node (add_leaf n R) = next_node R"
  "locations (add_leaf n R) = locations R"
  by (simp_all add: discard_leaf_def add_leaf_def)

section \<open>Attaching a node\<close>

lemma attach_child_sel:
  fixes R :: "'b radix"
  assumes "n \<noteq> next_node R" and "s \<noteq> []"
  shows "nodes (attach_child n s R) m =
      (if m = next_node R then \<lparr>segment = s, rparent = Some n, children = []\<rparr>
       else if m = n then (nodes R n)\<lparr>children := dict_set (hd s) (next_node R) (kids R n)\<rparr> else nodes R m)"
    and "next_node (attach_child n s R) = Suc (next_node R)"
    and "leaf_ids (attach_child n s R) = insert (last s) (leaf_ids R)"
    and "distinct s \<Longrightarrow> locations (attach_child n s R) b = Some (m, i) \<longleftrightarrow>
      (if b \<in> set s then m = next_node R \<and> i < length s \<and> s ! i = b else locations R b = Some (m, i))"
  using assms by (simp_all add: attach_child_def Let_def add_leaf_def index_segment_locations)

lemma drop_leaf_sel [simp]:
  "nodes (drop_leaf n R) = nodes R" "next_node (drop_leaf n R) = next_node R"
  "locations (drop_leaf n R) = locations R"
  by (simp_all add: drop_leaf_def discard_leaf_def)

lemma drop_leaf_leaf_ids:
  "leaf_ids (drop_leaf n R) =
     (if kids R n = [] \<and> seg R n \<noteq> [] then leaf_ids R - {last (seg R n)} else leaf_ids R)"
  by (simp_all add: drop_leaf_def discard_leaf_def)

lemma rep_last_unique:
  assumes "radix_rep L R" "n \<in> L" "m \<in> L" "n \<noteq> 0" "m \<noteq> 0" "last (seg R n) = last (seg R m)"
  shows "n = m"
proof -
  have ne: "seg R n \<noteq> []" "seg R m \<noteq> []" using assms radix_repD(5) by blast+
  then have "seg R n ! (length (seg R n) - 1) = seg R m ! (length (seg R m) - 1)"
    using assms(6) by (simp add: last_conv_nth)
  with rep_pos_unique [OF assms(1-3), of "length (seg R n) - 1" "length (seg R m) - 1"] ne show ?thesis
    by simp
qed


lemma rep_kids_fresh:
  assumes rep: "radix_rep L R" and n: "n \<in> L" and b: "locations R b = None"
  shows "b \<notin> fst ` set (kids R n)"
  using rep_kid [OF rep n] rep_not_located [OF rep b] by fastforce

lemma drop_leaf_ids:
  assumes rep: "radix_rep L R" and n: "n \<in> L"
  shows "leaf_ids (drop_leaf n R) = {last (seg R m) | m. m \<in> L \<and> m \<noteq> 0 \<and> kids R m = [] \<and> m \<noteq> n}"
  using rep_last_unique [OF rep _ n] rep_seg_Nil [OF rep n] n
  by (auto simp: radix_repD(10) [OF rep] drop_leaf_leaf_ids)

lemma attach_child_rep:
  assumes rep: "radix_rep L R" and n: "n \<in> L" and s: "s \<noteq> []" "distinct s"
    and fresh: "\<And>b. b \<in> set s \<Longrightarrow> locations R b = None"
  shows "radix_rep (insert (next_node R) L) (attach_child n s (drop_leaf n R))" (is "radix_rep ?L ?R")
proof -
  let ?c = "next_node R"
  have c: "?c \<notin> L" by (rule rep_fresh [OF rep])
  have nc: "n \<noteq> ?c" "0 \<noteq> ?c" using c n radix_repD(1) [OF rep] by metis+
  have nc': "n \<noteq> next_node (drop_leaf n R)" using nc by simp
  have sel: "nodes ?R m = (if m = ?c then \<lparr>segment = s, rparent = Some n, children = []\<rparr>
       else if m = n then (nodes R n)\<lparr>children := kids R n @ [(hd s, ?c)]\<rparr> else nodes R m)" for m
    using nc s rep_kids_fresh [OF rep n fresh [of "hd s"]]
    by (simp add: attach_child_sel update_fresh)
  have loc: "locations ?R b = Some (m, i) \<longleftrightarrow>
      (if b \<in> set s then m = ?c \<and> i < length s \<and> s ! i = b else locations R b = Some (m, i))" for b m i
    using attach_child_sel(4) [of n "drop_leaf n R" s b m i] nc s by simp
  obtain rk :: "nat \<Rightarrow> nat" where rk: "\<And>m p. m \<in> L \<Longrightarrow> above R m = Some p \<Longrightarrow> rk p < rk m"
    using radix_repD(11) [OF rep] by blast
  show ?thesis
  proof (rule radix_repI [where rk="rk(?c := Suc (rk n))"])
    show "0 \<in> ?L" using radix_repD(1) [OF rep] by simp
    show "m < next_node ?R" if "m \<in> ?L" for m
      using that nc radix_repD(2) [OF rep, of m] s by (auto simp: attach_child_sel)
    show "seg ?R 0 = []" "above ?R 0 = None"
      using nc radix_repD(3,4) [OF rep] by (simp_all add: sel)
    show "seg ?R m \<noteq> []" if "m \<in> ?L" "m \<noteq> 0" for m
      using that radix_repD(5) [OF rep, of m] s by (auto simp: sel)
    show "\<exists>p\<in>?L. above ?R m = Some p" if "m \<in> ?L" "m \<noteq> 0" for m
      using that radix_repD(6) [OF rep, of m] n by (auto simp: sel)
    show "locations ?R b = Some (m, i) \<longleftrightarrow> m \<in> ?L \<and> i < length (seg ?R m) \<and> seg ?R m ! i = b" for b m i
      using c rep_not_located [OF rep fresh, of b m] radix_repD(7) [OF rep, of b m i]
      by (auto simp: loc sel)
    show "distinct (map fst (kids ?R m))" if "m \<in> ?L" for m
      using that radix_repD(8) [OF rep, of m] rep_kids_fresh [OF rep n fresh [of "hd s"]] s by (auto simp: sel)
    show "(k, d) \<in> set (kids ?R m) \<longleftrightarrow> d \<in> ?L \<and> above ?R d = Some m \<and> hd (seg ?R d) = k" if "m \<in> ?L" for m k d
      using that c nc radix_repD(9) [OF rep, of m k d] rep_above_in [OF rep, of d ?c] by (auto simp: sel)
    show "(rk(?c := Suc (rk n))) p < (rk(?c := Suc (rk n))) m" if "m \<in> ?L" "above ?R m = Some p" for m p
      using that c nc rk [of m p] rep_above_in [OF rep, of m ?c] by (auto simp: sel split: if_splits)
    show "leaf_ids ?R = {last (seg ?R m) | m. m \<in> ?L \<and> m \<noteq> 0 \<and> kids ?R m = []}"
      unfolding attach_child_sel(3) [OF nc' s(1)] drop_leaf_ids [OF rep n]
      using nc c s n by (auto simp: sel)
  qed
qed

lemma attach_child_parent:
  assumes rep: "radix_rep L R" and n: "n \<in> L" and s: "s \<noteq> []" "distinct s"
    and fresh: "\<And>b. b \<in> set s \<Longrightarrow> locations R b = None"
  shows "i < length s \<Longrightarrow> block_parent (attach_child n s (drop_leaf n R)) (s ! i) =
      Some (if i = 0 then last_id R n else Some (s ! (i - 1)))"
    and "b \<notin> set s \<Longrightarrow> block_parent (attach_child n s (drop_leaf n R)) b = block_parent R b"
proof -
  let ?c = "next_node R" and ?R = "attach_child n s (drop_leaf n R)"
  have c: "?c \<notin> L" "n \<noteq> ?c" using rep_fresh [OF rep] n by metis+
  have sel: "nodes ?R m = (if m = ?c then \<lparr>segment = s, rparent = Some n, children = []\<rparr>
       else if m = n then (nodes R n)\<lparr>children := dict_set (hd s) ?c (kids R n)\<rparr> else nodes R m)" for m
    using attach_child_sel(1) [of n "drop_leaf n R" s m] c s by simp
  have loc: "locations ?R b = Some (m, i) \<longleftrightarrow>
      (if b \<in> set s then m = ?c \<and> i < length s \<and> s ! i = b else locations R b = Some (m, i))" for b m i
    using attach_child_sel(4) [of n "drop_leaf n R" s b m i] c s by simp
  show "block_parent ?R (s ! i) = Some (if i = 0 then last_id R n else Some (s ! (i - 1)))" if "i < length s"
  proof -
    have "locations ?R (s ! i) = Some (?c, i)" using that loc by simp
    then show ?thesis using c by (simp add: block_parent_def sel last_id_def)
  qed
  show "block_parent ?R b = block_parent R b" if b: "b \<notin> set s"
  proof -
    have eq: "locations ?R b = locations R b"
      using loc [of b] b by (cases "locations R b"; cases "locations ?R b") auto
    show ?thesis
    proof (cases "locations R b")
      case (Some l)
      obtain m i where l: "l = (m, i)" by fastforce
      have m: "m \<in> L" "m \<noteq> 0" using rep_located_at [OF rep, of b m i] Some l by simp_all
      obtain p where p: "above R m = Some p" "p \<in> L" using radix_repD(6) [OF rep m] by blast
      have "last_id ?R p = last_id R p" using p(2) c by (auto simp: last_id_def sel)
      then show ?thesis using eq Some l m(1) p c by (auto simp: block_parent_def sel)
    qed (simp add: block_parent_def eq)
  qed
qed

lemma split_after_noop: "length (seg R n) \<le> i + 1 \<Longrightarrow> split_after n i R = R"
  by (simp add: split_after_def)

lemma split_after_sel:
  fixes R :: "'b radix"
  assumes rep: "radix_rep L R" and n: "n \<in> L" and i: "i + 1 < length (seg R n)"
  shows "nodes (split_after n i R) m =
      (if m = n then (nodes R n)\<lparr>segment := take (i + 1) (seg R n), children := [(seg R n ! (i + 1), next_node R)]\<rparr>
       else if m = next_node R then \<lparr>segment = drop (i + 1) (seg R n), rparent = Some n, children = kids R n\<rparr>
       else if m \<in> snd ` set (kids R n) then (nodes R m)\<lparr>rparent := Some (next_node R)\<rparr>
       else nodes R m)" (is "?nodes m")
    and "next_node (split_after n i R) = Suc (next_node R)"
    and "leaf_ids (split_after n i R) = leaf_ids R"
    and "locations (split_after n i R) b = Some (m, j) \<longleftrightarrow>
      (if b \<in> set (drop (i + 1) (seg R n)) then m = next_node R \<and> i + 1 + j < length (seg R n) \<and> seg R n ! (i + 1 + j) = b
       else locations R b = Some (m, j))" (is ?loc)
proof -
  have c: "next_node R \<notin> L" "n \<noteq> next_node R" using rep_fresh [OF rep] n by metis+
  have nk: "n \<notin> snd ` set (kids R n)" "next_node R \<notin> snd ` set (kids R n)"
    using rep_kid [OF rep n] rep_not_own_parent [OF rep n] c by fastforce+
  have hd: "hd (drop (i + 1) (seg R n)) = seg R n ! (i + 1)" using i by (simp add: hd_drop_conv_nth)
  have dist: "distinct (seg R n)" by (rule rep_distinct [OF rep n])
  show "?nodes m"
    using c nk i by (auto simp: split_after_def Let_def hd_drop_conv_nth)
  show "next_node (split_after n i R) = Suc (next_node R)" "leaf_ids (split_after n i R) = leaf_ids R"
    using i by (auto simp: split_after_def Let_def)
  define c where "c = next_node R"
  define pre suf where "pre = take (i + 1) (seg R n)" and "suf = drop (i + 1) (seg R n)"
  define R4 where "R4 = (let R3 = set_parents c (map snd (kids R n))
      (new_node \<lparr>segment = suf, rparent = Some n, children = kids R n\<rparr> (unindex_segment (seg R n) R))
    in set_node n ((nodes R3 n)\<lparr>segment := pre, children := [(hd suf, c)]\<rparr>) R3)"
  have split: "split_after n i R = index_segment c (index_segment n R4)"
    using i by (simp add: split_after_def Let_def R4_def pre_def suf_def c_def)
  have segs: "seg R4 n = pre" "seg (index_segment n R4) c = suf"
    using c nk by (auto simp: R4_def Let_def c_def)
  have loc4: "locations R4 b = (if b \<in> set (seg R n) then None else locations R b)"
    by (simp add: R4_def Let_def)
  have dd: "distinct pre" "distinct suf" using dist by (simp_all add: pre_def suf_def)
  have app: "seg R n = pre @ suf" by (simp add: pre_def suf_def)
  have lp: "length pre = i + 1" using i by (simp add: pre_def)
  have at: "locations R b = Some (m, j) \<longleftrightarrow> m = n \<and> j < length pre \<and> pre ! j = b" if "b \<in> set pre"
  proof -
    from that obtain k where k: "k < length pre" "pre ! k = b" by (auto simp: in_set_conv_nth)
    then have "locations R b = Some (n, k)"
      using radix_repD(7) [OF rep, of b n k] n by (simp add: app nth_append)
    then show ?thesis using k dd(1) by (auto simp: nth_eq_iff_index_eq)
  qed
  have disj: "set pre \<inter> set suf = {}" using dist app by simp
  show ?loc
    unfolding split index_segment_locations [OF dd(2) [folded segs(2)]] segs(2)
      index_segment_locations [OF dd(1) [folded segs(1)]] segs(1) loc4
    using at disj lp
    by (auto simp: app nth_append c_def simp flip: suf_def)
qed


lemma in_set_drop_obtain: "b \<in> set (drop k xs) \<Longrightarrow> \<exists>j. k + j < length xs \<and> xs ! (k + j) = b"
  by (auto simp: in_set_conv_nth less_diff_conv add.commute)

lemma in_set_drop_iff_nth: "distinct xs \<Longrightarrow> j < length xs \<Longrightarrow> xs ! j \<in> set (drop k xs) \<longleftrightarrow> k \<le> j"
proof
  assume "distinct xs" "j < length xs" "xs ! j \<in> set (drop k xs)"
  then obtain l where "l < length xs - k" "xs ! j = xs ! (k + l)" by (auto simp: in_set_conv_nth)
  with \<open>distinct xs\<close> \<open>j < length xs\<close> show "k \<le> j" by (simp add: nth_eq_iff_index_eq)
next
  assume "j < length xs" "k \<le> j"
  then show "xs ! j \<in> set (drop k xs)" by (auto simp: in_set_conv_nth intro!: exI [of _ "j - k"])
qed

lemma split_after_located:
  assumes rep: "radix_rep L R" and n: "n \<in> L" and i: "i + 1 < length (seg R n)"
  shows "locations (split_after n i R) b = Some (m, j) \<longleftrightarrow>
    m \<in> insert (next_node R) L \<and> j < length (seg (split_after n i R) m) \<and> seg (split_after n i R) m ! j = b"
proof -
  let ?c = "next_node R"
  note sel = split_after_sel(1) [OF rep n i] and loc = split_after_sel(4) [OF rep n i]
  have c: "?c \<notin> L" "n \<noteq> ?c" using rep_fresh [OF rep] n by metis+
  consider "m = ?c" | "m = n" | "m \<noteq> ?c" "m \<noteq> n" by blast
  then show ?thesis
  proof cases
    case 1
    have "b \<in> set (drop (i + 1) (seg R n))" if "i + 1 + j < length (seg R n)" "seg R n ! (i + 1 + j) = b"
      using that by (auto simp: in_set_conv_nth intro!: exI [of _ j])
    then show ?thesis using 1 c radix_repD(7) [OF rep, of b ?c j] by (auto simp: loc sel less_diff_conv ac_simps)
  next
    case 2
    have "b \<in> set (drop (i + 1) (seg R n)) \<longleftrightarrow> \<not> j < i + 1" if "j < length (seg R n)" "seg R n ! j = b"
      using that in_set_drop_iff_nth [OF rep_distinct [OF rep n], of j "i + 1"] by auto
    then show ?thesis using 2 c n radix_repD(7) [OF rep, of b n j] by (auto simp: loc sel)
  next
    case 3
    have "b \<notin> set (drop (i + 1) (seg R n))" if "m \<in> L" "j < length (seg R m)" "seg R m ! j = b"
    proof
      assume "b \<in> set (drop (i + 1) (seg R n))"
      then obtain l where "i + 1 + l < length (seg R n)" "seg R n ! (i + 1 + l) = b"
        using in_set_drop_obtain by metis
      then show False using that 3 rep_pos_unique [OF rep that(1) n that(2)] by metis
    qed
    then show ?thesis using 3 radix_repD(7) [OF rep, of b m j] by (auto simp: loc sel)
  qed
qed

lemma split_after_leaf_ids:
  assumes rep: "radix_rep L R" and n: "n \<in> L" and i: "i + 1 < length (seg R n)"
  shows "leaf_ids (split_after n i R) =
    {last (seg (split_after n i R) m) | m. m \<in> insert (next_node R) L \<and> m \<noteq> 0 \<and> kids (split_after n i R) m = []}"
    (is "leaf_ids ?R = {_ | m. m \<in> ?L \<and> _}")
  unfolding split_after_sel(3) [OF rep n i] radix_repD(10) [OF rep]
proof (intro set_eqI iffI)
  let ?c = "next_node R"
  note sel = split_after_sel(1) [OF rep n i]
  have c: "?c \<notin> L" "n \<noteq> ?c" "0 \<noteq> ?c" using rep_fresh [OF rep] n radix_repD(1) [OF rep] by metis+
  have n0: "n \<noteq> 0" using i radix_repD(3) [OF rep] by (metis list.size(3) not_less_zero)
  have old: "seg ?R m = seg R m" "kids ?R m = kids R m" if "m \<noteq> n" "m \<noteq> ?c" for m
    using that by (simp_all add: sel)
  have new: "last (seg ?R ?c) = last (seg R n)" "kids ?R ?c = kids R n" "kids ?R n \<noteq> []"
    using c i by (simp_all add: sel)
  fix x
  {
    assume "x \<in> {last (seg R m) | m. m \<in> L \<and> m \<noteq> 0 \<and> kids R m = []}"
    then obtain m where m: "x = last (seg R m)" "m \<in> L" "m \<noteq> 0" "kids R m = []" by blast
    then have "\<exists>m'. x = last (seg ?R m') \<and> m' \<in> ?L \<and> m' \<noteq> 0 \<and> kids ?R m' = []"
    proof (cases "m = n")
      case True
      then show ?thesis using m new c by (intro exI [of _ ?c]) simp
    next
      case False
      moreover have "m \<noteq> ?c" using m c by metis
      ultimately show ?thesis using m old by (intro exI [of _ m]) simp
    qed
    then show "x \<in> {last (seg ?R m) | m. m \<in> ?L \<and> m \<noteq> 0 \<and> kids ?R m = []}" by blast
  next
    assume "x \<in> {last (seg ?R m) | m. m \<in> ?L \<and> m \<noteq> 0 \<and> kids ?R m = []}"
    then obtain m where m: "x = last (seg ?R m)" "m \<in> ?L" "m \<noteq> 0" "kids ?R m = []" by blast
    then have "m \<noteq> n" using new by metis
    then have "\<exists>m'. x = last (seg R m') \<and> m' \<in> L \<and> m' \<noteq> 0 \<and> kids R m' = []"
      using m new old [of m] n n0 by (cases "m = ?c") auto
    then show "x \<in> {last (seg R m) | m. m \<in> L \<and> m \<noteq> 0 \<and> kids R m = []}" by blast
  }
qed

lemma split_after_rep:
  assumes rep: "radix_rep L R" and n: "n \<in> L" and i: "i + 1 < length (seg R n)"
  shows "radix_rep (insert (next_node R) L) (split_after n i R)" (is "radix_rep ?L ?R")
proof -
  let ?c = "next_node R"
  note sel = split_after_sel(1) [OF rep n i] and loc = split_after_sel(4) [OF rep n i]
  have c: "?c \<notin> L" "n \<noteq> ?c" "0 \<noteq> ?c" using rep_fresh [OF rep] n radix_repD(1) [OF rep] by metis+
  have n0: "n \<noteq> 0" using i radix_repD(3) [OF rep] by (metis list.size(3) not_less_zero)
  have kid: "m \<in> snd ` set (kids R n) \<longleftrightarrow> m \<in> L \<and> above R m = Some n" for m
    using radix_repD(9) [OF rep n] by force
  have nn: "above R n \<noteq> Some n" by (rule rep_not_own_parent [OF rep n])
  have cc: "above R m \<noteq> Some ?c" if "m \<in> L" for m using rep_above_in [OF rep that, of ?c] c by blast
  obtain rk :: "nat \<Rightarrow> nat" where rk: "\<And>m p. m \<in> L \<Longrightarrow> above R m = Some p \<Longrightarrow> rk p < rk m"
    using radix_repD(11) [OF rep] by blast
  show ?thesis
  proof (rule radix_repI [where rk="\<lambda>m. if m = ?c then 2 * rk n + 1 else 2 * rk m"])
    show "0 \<in> ?L" using radix_repD(1) [OF rep] by simp
    show "m < next_node ?R" if "m \<in> ?L" for m
      using that radix_repD(2) [OF rep, of m] by (auto simp: split_after_sel(2) [OF rep n i])
    show "seg ?R 0 = []" "above ?R 0 = None"
      using c n0 radix_repD(3,4) [OF rep] by (auto simp: sel kid)
    show "seg ?R m \<noteq> []" if "m \<in> ?L" "m \<noteq> 0" for m
      using that radix_repD(5) [OF rep, of m] i by (auto simp: sel)
    show "\<exists>p\<in>?L. above ?R m = Some p" if "m \<in> ?L" "m \<noteq> 0" for m
      using that radix_repD(6) [OF rep, of m] n c by (auto simp: sel)
    show "locations ?R b = Some (m, j) \<longleftrightarrow> m \<in> ?L \<and> j < length (seg ?R m) \<and> seg ?R m ! j = b" for b m j
      by (rule split_after_located [OF rep n i])
    show "distinct (map fst (kids ?R m))" if "m \<in> ?L" for m
      using that c radix_repD(8) [OF rep] n by (auto simp: sel)
    show "(k, d) \<in> set (kids ?R m) \<longleftrightarrow> d \<in> ?L \<and> above ?R d = Some m \<and> hd (seg ?R d) = k" if "m \<in> ?L" for m k d
      using that c cc [of d] nn kid [of d] radix_repD(9) [OF rep, of m k d] radix_repD(9) [OF rep n, of k d] i
      by (auto simp: sel hd_drop_conv_nth hd_conv_nth split: if_splits)
    show "(if p = ?c then 2 * rk n + 1 else 2 * rk p) < (if m = ?c then 2 * rk n + 1 else 2 * rk m)"
      if "m \<in> ?L" "above ?R m = Some p" for m p
      using that c rk [of m p] rk [of m n] cc [of m] by (auto simp: sel kid split: if_splits)
    show "leaf_ids ?R = {last (seg ?R m) | m. m \<in> ?L \<and> m \<noteq> 0 \<and> kids ?R m = []}"
      by (rule split_after_leaf_ids [OF rep n i])
  qed
qed


lemma split_after_last_id:
  assumes rep: "radix_rep L R" and n: "n \<in> L" and i: "i + 1 < length (seg R n)"
  shows "last_id (split_after n i R) n = Some (seg R n ! i)"
    and "last_id (split_after n i R) (next_node R) = last_id R n"
    and "p \<in> L \<Longrightarrow> p \<noteq> n \<Longrightarrow> last_id (split_after n i R) p = last_id R p"
proof -
  have c: "next_node R \<notin> L" "n \<noteq> next_node R" using rep_fresh [OF rep] n by metis+
  note sel = split_after_sel(1) [OF rep n i]
  have ne: "seg R n \<noteq> []" using i by auto
  show "last_id (split_after n i R) n = Some (seg R n ! i)"
    using i ne by (simp add: last_id_def sel last_conv_nth min_def)
  show "last_id (split_after n i R) (next_node R) = last_id R n"
    using i ne c by (simp add: last_id_def sel)
  show "p \<in> L \<Longrightarrow> p \<noteq> n \<Longrightarrow> last_id (split_after n i R) p = last_id R p"
    using c by (auto simp: last_id_def sel)
qed

lemma split_after_parent:
  assumes rep: "radix_rep L R" and n: "n \<in> L" and i: "i + 1 < length (seg R n)"
  shows "block_parent (split_after n i R) = block_parent R"
proof
  fix b
  let ?R = "split_after n i R"
  note sel = split_after_sel(1) [OF rep n i] and loc = split_after_sel(4) [OF rep n i]
    and lid = split_after_last_id [OF rep n i]
  have c: "next_node R \<notin> L" "n \<noteq> next_node R" using rep_fresh [OF rep] n by metis+
  have kid: "m \<in> snd ` set (kids R n) \<longleftrightarrow> m \<in> L \<and> above R m = Some n" for m
    using radix_repD(9) [OF rep n] by force
  show "block_parent ?R b = block_parent R b"
  proof (cases "b \<in> set (drop (i + 1) (seg R n))")
    case True
    then obtain j where j: "i + 1 + j < length (seg R n)" "seg R n ! (i + 1 + j) = b"
      using in_set_drop_obtain by metis
    have l: "locations ?R b = Some (next_node R, j)" "locations R b = Some (n, i + 1 + j)"
      using j True n loc [of b "next_node R" j] radix_repD(7) [OF rep, of b n "i + 1 + j"] by simp_all
    show ?thesis using l j c lid(1) by (cases j) (simp_all add: block_parent_def sel nth_append)
  next
    case False
    have eq: "locations ?R b = locations R b"
      using loc [of b] False by (cases "locations R b"; cases "locations ?R b") auto
    show ?thesis
    proof (cases "locations R b")
      case (Some l)
      obtain m j where l: "l = (m, j)" by fastforce
      have m: "m \<in> L" "m \<noteq> 0" "j < length (seg R m)" "seg R m ! j = b"
        using rep_located_at [OF rep, of b m j] Some l by simp_all
      obtain p where p: "above R m = Some p" "p \<in> L" using radix_repD(6) [OF rep m(1,2)] by blast
      have jn: "j < i + 1" if "m = n"
        using that False m in_set_drop_iff_nth [OF rep_distinct [OF rep n], of j "i + 1"] by auto
      have up: "Option.bind (above ?R m) (last_id ?R) = Option.bind (above R m) (last_id R)"
        using p m(1) c lid kid [of m] rep_not_own_parent [OF rep m(1)] by (auto simp: sel)
      have "seg ?R m ! (j - 1) = seg R m ! (j - 1)" using jn m(1) c by (auto simp: sel)
      then show ?thesis using eq Some l up by (simp add: block_parent_def)
    qed (simp add: block_parent_def eq)
  qed
qed

lemma split_after_ok:
  assumes rep: "radix_rep L R" and at: "locations R p = Some (n, i)"
  shows "\<exists>L'. radix_rep L' (split_after n i R) \<and> n \<in> L'"
    and "block_parent (split_after n i R) = block_parent R"
    and "last_id (split_after n i R) n = Some p"
    and "locations R b = None \<Longrightarrow> locations (split_after n i R) b = None"
proof -
  have n: "n \<in> L" "i < length (seg R n)" "seg R n ! i = p"
    using rep_located_at [OF rep at] by simp_all
  have all: "(\<exists>L'. radix_rep L' (split_after n i R) \<and> n \<in> L') \<and>
      block_parent (split_after n i R) = block_parent R \<and> last_id (split_after n i R) n = Some p"
  proof (cases "i + 1 < length (seg R n)")
    case True
    then show ?thesis
      using split_after_rep [OF rep n(1) True] split_after_parent [OF rep n(1) True]
        split_after_last_id(1) [OF rep n(1) True] n by blast
  next
    case False
    then have "last_id R n = Some p" using n by (auto simp: last_id_def last_conv_nth)
       (metis One_nat_def Suc_lessI diff_Suc_1)
    then show ?thesis using rep n False by (auto simp: split_after_noop)
  qed
  then show "\<exists>L'. radix_rep L' (split_after n i R) \<and> n \<in> L'"
    "block_parent (split_after n i R) = block_parent R" "last_id (split_after n i R) n = Some p"
    by blast+
  have dom: "block_parent S b = None \<longleftrightarrow> locations S b = None" for S :: "'a radix"
    by (simp add: block_parent_def split: option.splits)
  show "locations R b = None \<Longrightarrow> locations (split_after n i R) b = None"
    using all dom [of R] dom [of "split_after n i R"] by simp
qed


lemma block_parent_None: "block_parent R b = None \<longleftrightarrow> locations R b = None"
  by (simp add: block_parent_def split: option.splits)

text \<open>\<open>insert_child\<close> adds exactly one block to the forest.\<close>

lemma attach_leaf_ok:
  assumes rep: "radix_rep L R" and n: "n \<in> L" and b: "locations R b = None"
  shows "radix_ok (attach_child n [b] (drop_leaf n R))"
    and "block_parent (attach_child n [b] (drop_leaf n R)) = (block_parent R)(b \<mapsto> last_id R n)"
    and "map_of (kids (drop_leaf n R) n) b = None"
proof -
  show "radix_ok (attach_child n [b] (drop_leaf n R))"
    using attach_child_rep [OF rep n, of "[b]"] b by (auto simp: radix_ok_def)
  show "block_parent (attach_child n [b] (drop_leaf n R)) = (block_parent R)(b \<mapsto> last_id R n)"
  proof
    fix a
    show "block_parent (attach_child n [b] (drop_leaf n R)) a = ((block_parent R)(b \<mapsto> last_id R n)) a"
      using attach_child_parent(1) [OF rep n, of "[b]" 0] attach_child_parent(2) [OF rep n, of "[b]" a] b
      by auto
  qed
  show "map_of (kids (drop_leaf n R) n) b = None"
    using rep_kids_fresh [OF rep n b] by (simp add: map_of_eq_None_iff)
qed

lemma drop_leaf_root: "radix_rep L R \<Longrightarrow> drop_leaf 0 R = R"
  by (simp add: drop_leaf_def discard_leaf_def radix_repD(3))

lemma insert_child_ok:
  assumes "radix_ok R" and "block_parent R b = None" and "case p of None \<Rightarrow> True | Some a \<Rightarrow> block_parent R a \<noteq> None"
  shows "\<exists>R'. insert_child p b R = (Inr (), R') \<and> radix_ok R' \<and> block_parent R' = (block_parent R)(b \<mapsto> p)"
proof -
  obtain L where rep: "radix_rep L R" using assms(1) by (auto simp: radix_ok_def)
  have b: "locations R b = None" using assms(2) by (simp add: block_parent_None)
  show ?thesis
  proof (cases p)
    case None
    have "map_of (kids R 0) b = None"
      using attach_leaf_ok(3) [OF rep radix_repD(1) [OF rep] b] by simp
    moreover have "last_id R 0 = None" by (simp add: last_id_def radix_repD(3) [OF rep])
    ultimately show ?thesis
      using attach_leaf_ok(1,2) [OF rep radix_repD(1) [OF rep] b] b None
      by (simp add: insert_child_def drop_leaf_root [OF rep])
  next
    case (Some a)
    then obtain n i where at: "locations R a = Some (n, i)"
      using assms(3) block_parent_None [of R a] by auto
    obtain L' where rep': "radix_rep L' (split_after n i R)" and n: "n \<in> L'"
      using split_after_ok(1) [OF rep at] by blast
    note sp = split_after_ok(2-4) [OF rep at]
    show ?thesis
      using attach_leaf_ok [OF rep' n sp(3) [OF b]] sp(1,2) b at Some
      by (simp add: insert_child_def Let_def)
  qed
qed

lemma insert_child_missing:
  "block_parent R b = None \<Longrightarrow> block_parent R a = None \<Longrightarrow> insert_child (Some a) b R = (Inl KeyError, R)"
  by (simp add: insert_child_def block_parent_None)

lemma insert_child_present: "block_parent R b \<noteq> None \<Longrightarrow> insert_child p b R = (Inr (), R)"
  by (simp add: insert_child_def block_parent_None)


text \<open>Removing a block: the node disappears with its last block, or loses the last block of its segment.\<close>

definition cut_node :: "'b \<Rightarrow> nat \<Rightarrow> 'b radix \<Rightarrow> 'b radix" where
  "cut_node b p R = add_leaf p (set_node p ((nodes R p)\<lparr>children := dict_pop b (kids R p)\<rparr>)
     (R\<lparr>locations := (locations R)(b := None), leaf_ids := leaf_ids R - {b}\<rparr>))"

definition cut_segment :: "'b \<Rightarrow> nat \<Rightarrow> 'b radix \<Rightarrow> 'b radix" where
  "cut_segment b n R = add_leaf n (set_node n ((nodes R n)\<lparr>segment := butlast (seg R n)\<rparr>)
     (R\<lparr>locations := (locations R)(b := None), leaf_ids := leaf_ids R - {b}\<rparr>))"

lemma cut_node_sel:
  "nodes (cut_node b p R) m = (if m = p then (nodes R p)\<lparr>children := dict_pop b (kids R p)\<rparr> else nodes R m)"
  "next_node (cut_node b p R) = next_node R"
  "locations (cut_node b p R) = (locations R)(b := None)"
  "leaf_ids (cut_node b p R) =
     (if seg R p \<noteq> [] \<and> dict_pop b (kids R p) = [] then insert (last (seg R p)) (leaf_ids R - {b}) else leaf_ids R - {b})"
  by (simp_all add: cut_node_def add_leaf_def)

lemma cut_segment_sel:
  "nodes (cut_segment b n R) m = (if m = n then (nodes R n)\<lparr>segment := butlast (seg R n)\<rparr> else nodes R m)"
  "next_node (cut_segment b n R) = next_node R"
  "locations (cut_segment b n R) = (locations R)(b := None)"
  "leaf_ids (cut_segment b n R) =
     (if butlast (seg R n) \<noteq> [] \<and> kids R n = [] then insert (last (butlast (seg R n))) (leaf_ids R - {b}) else leaf_ids R - {b})"
  by (simp_all add: cut_segment_def add_leaf_def)

lemma leaf_ids_minus:
  assumes rep: "radix_rep L R" and n: "n \<in> L" "n \<noteq> 0"
  shows "leaf_ids R - {last (seg R n)} = {last (seg R m) | m. m \<in> L - {n} \<and> m \<noteq> 0 \<and> kids R m = []}"
proof -
  have "m = n" if "m \<in> L" "m \<noteq> 0" "last (seg R m) = last (seg R n)" for m
    by (rule rep_last_unique [OF rep that(1) n(1) that(2) n(2) that(3)])
  then have "x \<in> leaf_ids R - {last (seg R n)} \<longleftrightarrow> x \<in> {last (seg R m) | m. m \<in> L - {n} \<and> m \<noteq> 0 \<and> kids R m = []}" for x
    unfolding radix_repD(10) [OF rep] by auto
  then show ?thesis by blast
qed

lemma cut_node_rep:
  assumes rep: "radix_rep L R" and n: "n \<in> L" and b: "seg R n = [b]" and leaf: "kids R n = []"
    and p: "above R n = Some p"
  shows "radix_rep (L - {n}) (cut_node b p R)" (is "radix_rep ?L ?R")
proof -
  note sel = cut_node_sel(1) [of b p R]
  have n0: "n \<noteq> 0" using b radix_repD(3) [OF rep] by (metis list.distinct(1))
  have pL: "p \<in> L" "p \<noteq> n" using rep_above_in [OF rep n p] p rep_not_own_parent [OF rep n] by metis+
  have bn: "locations R b = Some (n, 0)" using radix_repD(7) [OF rep, of b n 0] n b by simp
  have lf: "above R m \<noteq> Some n" if "m \<in> L" for m using rep_kids_Nil [OF rep n] leaf that by blast
  have hdb: "m = n" if "m \<in> L" "above R m = Some q" "hd (seg R m) = b" for m q
  proof -
    have "m \<noteq> 0" using that(2) radix_repD(4) [OF rep] by (metis option.distinct(1))
    then show ?thesis
      using that bn radix_repD(5) [OF rep that(1)] radix_repD(7) [OF rep, of b m 0] by (simp add: hd_conv_nth)
  qed
  have pop: "set (dict_pop b d) = {x \<in> set d. fst x \<noteq> b}" for d :: "('a, nat) dict"
    unfolding AList.delete_eq by auto
  have popd: "distinct (map fst (dict_pop b d))" if "distinct (map fst d)" for d :: "('a, nat) dict"
    using that by (rule distinct_delete)
  obtain rk :: "nat \<Rightarrow> nat" where rk: "\<And>m q. m \<in> L \<Longrightarrow> above R m = Some q \<Longrightarrow> rk q < rk m"
    using radix_repD(11) [OF rep] by blast
  show ?thesis
  proof (rule radix_repI [where rk=rk])
    show "0 \<in> ?L" using radix_repD(1) [OF rep] n0 by simp
    show "m < next_node ?R" if "m \<in> ?L" for m
      using that radix_repD(2) [OF rep, of m] by (simp add: cut_node_sel)
    show "seg ?R 0 = []" "above ?R 0 = None"
      using radix_repD(3,4) [OF rep] by (simp_all add: sel)
    show "seg ?R m \<noteq> []" if "m \<in> ?L" "m \<noteq> 0" for m
      using that radix_repD(5) [OF rep, of m] by (auto simp: sel)
    show "\<exists>q\<in>?L. above ?R m = Some q" if "m \<in> ?L" "m \<noteq> 0" for m
      using that radix_repD(6) [OF rep, of m] lf [of m] by (auto simp: sel)
    show "locations ?R x = Some (m, j) \<longleftrightarrow> m \<in> ?L \<and> j < length (seg ?R m) \<and> seg ?R m ! j = x" for x m j
      using radix_repD(7) [OF rep, of x m j] bn b n
      by (auto simp: cut_node_sel(3) sel)
    show "distinct (map fst (kids ?R m))" if "m \<in> ?L" for m
      using that radix_repD(8) [OF rep, of m] popd [of "kids R p"] by (auto simp: sel)
    show "(k, d) \<in> set (kids ?R m) \<longleftrightarrow> d \<in> ?L \<and> above ?R d = Some m \<and> hd (seg ?R d) = k" if "m \<in> ?L" for m k d
      using that radix_repD(9) [OF rep, of m k d] hdb [of d m] b p pL by (auto simp: sel pop)
    show "rk q < rk m" if "m \<in> ?L" "above ?R m = Some q" for m q
      using that rk [of m q] by (auto simp: sel split: if_splits)
    show "leaf_ids ?R = {last (seg ?R m) | m. m \<in> ?L \<and> m \<noteq> 0 \<and> kids ?R m = []}"
    proof -
      have kp: "kids R p \<noteq> []" using rep_kids_Nil [OF rep pL(1)] n p by blast
      have p0: "seg R p = [] \<longleftrightarrow> p = 0" by (rule rep_seg_Nil [OF rep pL(1)])
      have old: "leaf_ids R - {b} = {last (seg R m) | m. m \<in> L - {n} \<and> m \<noteq> 0 \<and> kids R m = []}"
        using leaf_ids_minus [OF rep n n0] b by simp
      show ?thesis unfolding cut_node_sel(4) old using kp p0 pL by (auto simp: sel)
    qed
  qed
qed

lemma cut_segment_rep:
  assumes rep: "radix_rep L R" and n: "n \<in> L" and b: "last (seg R n) = b" "1 < length (seg R n)" and leaf: "kids R n = []"
  shows "radix_rep L (cut_segment b n R)" (is "radix_rep _ ?R")
proof -
  note sel = cut_segment_sel(1) [of b n R]
  have n0: "n \<noteq> 0" using b(2) radix_repD(3) [OF rep] by (metis list.size(3) not_less_zero)
  have ne: "butlast (seg R n) \<noteq> []" using b by (cases "seg R n" rule: rev_cases) auto
  have hdn: "hd (butlast (seg R n)) = hd (seg R n)" using ne by (cases "seg R n") auto
  have bn: "locations R b = Some (n, length (seg R n) - 1)"
    using radix_repD(7) [OF rep, of b n "length (seg R n) - 1"] n b ne by (cases "seg R n" rule: rev_cases) auto
  obtain rk :: "nat \<Rightarrow> nat" where rk: "\<And>m q. m \<in> L \<Longrightarrow> above R m = Some q \<Longrightarrow> rk q < rk m"
    using radix_repD(11) [OF rep] by blast
  show ?thesis
  proof (rule radix_repI [where rk=rk])
    show "0 \<in> L" using radix_repD(1) [OF rep] .
    show "m < next_node ?R" if "m \<in> L" for m
      using that radix_repD(2) [OF rep, of m] by (simp add: cut_segment_sel)
    show "seg ?R 0 = []" "above ?R 0 = None"
      using n0 radix_repD(3,4) [OF rep] by (simp_all add: sel)
    show "seg ?R m \<noteq> []" if "m \<in> L" "m \<noteq> 0" for m
      using that radix_repD(5) [OF rep, of m] ne by (auto simp: sel)
    show "\<exists>q\<in>L. above ?R m = Some q" if "m \<in> L" "m \<noteq> 0" for m
      using that radix_repD(6) [OF rep, of m] by (auto simp: sel)
    show "locations ?R x = Some (m, j) \<longleftrightarrow> m \<in> L \<and> j < length (seg ?R m) \<and> seg ?R m ! j = x" for x m j
    proof -
      have "seg R n ! j = b \<longleftrightarrow> j = length (seg R n) - 1" if "j < length (seg R n)"
        using that bn radix_repD(7) [OF rep, of b n j] n by auto
      then have "j < length (seg R n) - 1 \<longleftrightarrow> j < length (seg R n) \<and> seg R n ! j \<noteq> b" by fastforce
      then show ?thesis
        using radix_repD(7) [OF rep, of x m j] bn n by (auto simp: cut_segment_sel(3) sel nth_butlast)
    qed
    show "distinct (map fst (kids ?R m))" if "m \<in> L" for m
      using that radix_repD(8) [OF rep, of m] by (auto simp: sel)
    show "(k, d) \<in> set (kids ?R m) \<longleftrightarrow> d \<in> L \<and> above ?R d = Some m \<and> hd (seg ?R d) = k" if "m \<in> L" for m k d
      using that radix_repD(9) [OF rep, of m k d] hdn by (auto simp: sel)
    show "rk q < rk m" if "m \<in> L" "above ?R m = Some q" for m q
      using that rk [of m q] by (auto simp: sel split: if_splits)
    show "leaf_ids ?R = {last (seg ?R m) | m. m \<in> L \<and> m \<noteq> 0 \<and> kids ?R m = []}"
    proof -
      have old: "leaf_ids R - {b} = {last (seg R m) | m. m \<in> L - {n} \<and> m \<noteq> 0 \<and> kids R m = []}"
        using leaf_ids_minus [OF rep n n0] b by simp
      show ?thesis unfolding cut_segment_sel(4) old using n n0 ne leaf by (auto simp: sel)
    qed
  qed
qed


lemma cut_parent:
  assumes rep: "radix_rep L R" and at: "locations R b = Some (n, length (seg R n) - 1)" and leaf: "kids R n = []"
  shows "block_parent (cut_node b p R) = (block_parent R)(b := None)"
    and "block_parent (cut_segment b n R) = (block_parent R)(b := None)"
proof -
  have n: "n \<in> L" using rep_located_at [OF rep at] by simp
  have lf: "above R m \<noteq> Some n" if "m \<in> L" for m using rep_kids_Nil [OF rep n] leaf that by blast
  have segs: "seg (cut_node b p R) m = seg R m" "above (cut_node b p R) m = above R m"
    "above (cut_segment b n R) m = above R m" for m
    by (simp_all add: cut_node_sel cut_segment_sel)
  have lids: "last_id (cut_node b p R) = last_id R" by (simp add: fun_eq_iff last_id_def segs)
  have "block_parent (cut_node b p R) x = ((block_parent R)(b := None)) x" for x
    by (simp add: block_parent_def cut_node_sel(3) segs lids split: option.split)
  then show "block_parent (cut_node b p R) = (block_parent R)(b := None)" by blast
  have "block_parent (cut_segment b n R) x = block_parent R x" if x: "x \<noteq> b" for x
  proof (cases "locations R x")
    case (Some l)
    obtain m j where l: "l = (m, j)" by fastforce
    have m: "m \<in> L" "j < length (seg R m)" "seg R m ! j = x"
      using rep_located_at [OF rep, of x m j] Some l by simp_all
    have j: "j < length (seg R n) - 1" if "m = n"
      using that m x rep_located_at(4) [OF rep at] by (metis One_nat_def Suc_pred less_Suc_eq less_nat_zero_code neq0_conv)
    have "seg (cut_segment b n R) m ! (j - 1) = seg R m ! (j - 1)"
      using j by (auto simp: cut_segment_sel nth_butlast)
    moreover have "Option.bind (above R m) (last_id (cut_segment b n R)) = Option.bind (above R m) (last_id R)"
      using lf [OF m(1)] by (cases "above R m") (auto simp: last_id_def cut_segment_sel)
    ultimately show ?thesis using x Some l by (simp add: block_parent_def cut_segment_sel(3) segs)
  qed (simp add: block_parent_def cut_segment_sel(3))
  moreover have "block_parent (cut_segment b n R) b = None"
    by (simp add: block_parent_def cut_segment_sel(3))
  ultimately show "block_parent (cut_segment b n R) = (block_parent R)(b := None)" by auto
qed

text \<open>The children of a block in the forest, and in the tree.\<close>

lemma rep_block_child:
  assumes rep: "radix_rep L R" and at: "locations R b = Some (n, i)"
  shows "block_parent R c = Some (Some b) \<longleftrightarrow>
    (if i + 1 < length (seg R n) then c = seg R n ! (i + 1) else c \<in> fst ` set (kids R n))"
proof -
  note b = rep_located_at [OF rep at]
  show ?thesis
  proof (cases "locations R c")
    case None
    moreover have "c \<noteq> seg R n ! (i + 1)" if "i + 1 < length (seg R n)"
      using that None rep_not_located [OF rep None b(1)] by (metis nth_mem)
    ultimately show ?thesis using rep_kids_fresh [OF rep b(1) None] by (auto simp: block_parent_def)
  next
    case (Some l)
    obtain m j where l: "l = (m, j)" by fastforce
    with Some have at': "locations R c = Some (m, j)" by simp
    note c = rep_located_at [OF rep at']
    obtain q where q: "above R m = Some q" "q \<in> L" using radix_repD(6) [OF rep c(1,2)] by blast
    have kid: "c \<in> fst ` set (kids R n) \<longleftrightarrow> j = 0 \<and> q = n"
    proof
      assume "c \<in> fst ` set (kids R n)"
      then obtain d where d: "(c, d) \<in> set (kids R n)" by auto
      note d' = rep_kid [OF rep b(1) d]
      then have "locations R c = Some (d, 0)" using radix_repD(7) [OF rep, of c d 0] by (simp add: hd_conv_nth)
      then show "j = 0 \<and> q = n" using d'(2) at' q by simp
    next
      assume "j = 0 \<and> q = n"
      then have "(c, m) \<in> set (kids R n)" using radix_repD(9) [OF rep b(1), of c m] q c by (auto simp: hd_conv_nth)
      then show "c \<in> fst ` set (kids R n)" by force
    qed
    have pos: "seg R m ! j' = seg R n ! i' \<longleftrightarrow> m = n \<and> j' = i'" if "j' < length (seg R m)" "i' < length (seg R n)" for i' j'
      using rep_pos_unique [OF rep c(1) b(1) that] by auto
    show ?thesis
    proof (cases j)
      case 0
      have "last_id R q = Some b \<longleftrightarrow> q = n \<and> i + 1 = length (seg R n)"
      proof -
        have "last (seg R q) = b \<longleftrightarrow> q = n \<and> i + 1 = length (seg R n)" if ne: "seg R q \<noteq> []"
        proof
          assume "last (seg R q) = b"
          then show "q = n \<and> i + 1 = length (seg R n)"
            using rep_pos_unique [OF rep q(2) b(1), of "length (seg R q) - 1" i] b ne
            by (auto simp: last_conv_nth)
        next
          assume "q = n \<and> i + 1 = length (seg R n)"
          then show "last (seg R q) = b" using ne b(4) by (metis add_diff_cancel_right' last_conv_nth)
        qed
        then show ?thesis using b(3) by (auto simp: last_id_def)
      qed
      then show ?thesis
        using 0 at' q kid pos [of j "i + 1"] c b(3) by (auto simp: block_parent_def)
    next
      case (Suc j')
      then show ?thesis
        using at' kid pos [of j' i] pos [of j "i + 1"] b c by (auto simp: block_parent_def)
    qed
  qed
qed

end
