(* ===== verification/Radix_Queries.thy ===== *)
theory Radix_Queries
  imports Radix_Forest
begin

text \<open>
  What the queries of \<open>RadixTreeBackend\<close> answer in terms of the forest \<open>block_parent\<close>, and the
  interface the prefix index relies on.
\<close>

section \<open>Removal and queries\<close>

lemma rep_has_parent:
  assumes "radix_rep L R" and "locations R b = Some (n, i)"
  obtains p where "above R n = Some p" "p \<in> L"
  using radix_repD(6) [OF assms(1), of n] rep_located_at(1,2) [OF assms] by blast

lemma rep_childless:
  assumes rep: "radix_rep L R" and at: "locations R b = Some (n, i)"
  shows "(\<exists>c. block_parent R c = Some (Some b)) \<longleftrightarrow> \<not> (i + 1 = length (seg R n) \<and> kids R n = [])"
proof -
  have "i < length (seg R n)" using rep_located_at [OF rep at] by simp
  then show ?thesis
    using rep_block_child [OF rep at] by (cases "kids R n") (auto simp: less_Suc_eq)
qed

lemma remove_block_ok:
  assumes "radix_ok R" and "block_parent R b \<noteq> None" and "\<And>c. block_parent R c \<noteq> Some (Some b)"
  shows "\<exists>R'. remove_block b R = (Inr (), R') \<and> radix_ok R' \<and> block_parent R' = (block_parent R)(b := None)"
proof -
  obtain L where rep: "radix_rep L R" using assms(1) by (auto simp: radix_ok_def)
  obtain n i where at: "locations R b = Some (n, i)" using assms(2) by (auto simp: block_parent_None)
  note b = rep_located_at [OF rep at]
  have leaf: "i + 1 = length (seg R n)" "kids R n = []" using rep_childless [OF rep at] assms(3) by auto
  have at': "locations R b = Some (n, length (seg R n) - 1)" using at leaf by (metis add_diff_cancel_right')
  obtain p where p: "above R n = Some p" "p \<in> L" by (rule rep_has_parent [OF rep at])
  show ?thesis
  proof (cases "length (seg R n) = 1")
    case True
    then have one: "seg R n = [b]" using b leaf by (cases "seg R n") auto
    have "(b, n) \<in> set (kids R p)" using radix_repD(9) [OF rep p(2), of b n] b p one by simp
    then have "map_of (kids R p) b \<noteq> None" by (metis map_of_eq_None_iff fst_conv image_eqI)
    then have "remove_block b R = (Inr (), cut_node b p R)"
      using at leaf p one True by (auto simp: remove_block_def cut_node_def Let_def)
    then show ?thesis
      using cut_node_rep [OF rep b(1) one leaf(2) p(1)] cut_parent(1) [OF rep at' leaf(2)]
      by (auto simp: radix_ok_def)
  next
    case False
    have "last (seg R n) = b" using b leaf by (cases "seg R n" rule: rev_cases) auto
    moreover have "remove_block b R = (Inr (), cut_segment b n R)"
      using at leaf p False by (auto simp: remove_block_def cut_segment_def Let_def)
    ultimately show ?thesis
      using cut_segment_rep [OF rep b(1) _ _ leaf(2), of b] cut_parent(2) [OF rep at' leaf(2)] False b(3)
      by (auto simp: radix_ok_def)
  qed
qed

lemma remove_block_parent:
  assumes "radix_ok R" and "block_parent R c = Some (Some b)"
  shows "remove_block b R = (if block_parent R b = None then (Inl KeyError, R) else (Inl RuntimeError, R))"
proof -
  obtain L where rep: "radix_rep L R" using assms(1) by (auto simp: radix_ok_def)
  show ?thesis
  proof (cases "locations R b")
    case (Some l)
    obtain n i where at: "locations R b = Some (n, i)" using Some by (cases l) auto
    have "\<not> (i + 1 = length (seg R n) \<and> kids R n = [])" using rep_childless [OF rep at] assms(2) by blast
    then show ?thesis using at by (auto simp: remove_block_def block_parent_None)
  qed (simp add: remove_block_def block_parent_None)
qed

lemma remove_block_missing: "block_parent R b = None \<Longrightarrow> remove_block b R = (Inl KeyError, R)"
  by (simp add: remove_block_def block_parent_None)

lemma child_block_ids_ok:
  assumes "radix_ok R" and "block_parent R b \<noteq> None"
  shows "\<exists>cs. child_block_ids R b = Inr cs \<and> child_count R b = Inr (int (length cs)) \<and>
    distinct cs \<and> set cs = {c. block_parent R c = Some (Some b)}"
proof -
  obtain L where rep: "radix_rep L R" using assms(1) by (auto simp: radix_ok_def)
  obtain n i where at: "locations R b = Some (n, i)" using assms(2) by (auto simp: block_parent_None)
  note b = rep_located_at [OF rep at] and child = rep_block_child [OF rep at]
  show ?thesis
  proof (cases "i + 1 < length (seg R n)")
    case True
    then show ?thesis using at child by (auto simp: child_block_ids_def child_count_def)
  next
    case False
    have hd: "py_index (seg R c) 0 = Inr k" if "(k, c) \<in> set (kids R n)" for k c
      using rep_kid [OF rep b(1) that] by (simp add: py_index_def hd_conv_nth)
    have "list_all2 (\<lambda>c k. py_index (seg R c) 0 = Inr k) (map snd (kids R n)) (map fst (kids R n))"
      using hd by (auto simp: list_all2_conv_all_nth)
    then have "mapR (\<lambda>c. py_index (seg R c) 0) (map snd (kids R n)) = Inr (map fst (kids R n))"
      by (simp add: mapR_eq_Inr)
    then show ?thesis using at child False radix_repD(8) [OF rep b(1)]
      by (auto simp: child_block_ids_def child_count_def)
  qed
qed

lemma child_missing: "block_parent R b = None \<Longrightarrow> child_count R b = Inl KeyError \<and> child_block_ids R b = Inl KeyError"
  by (simp add: child_count_def child_block_ids_def block_parent_None)

lemma leaf_block_ids_ok:
  assumes "radix_ok R"
  shows "leaf_block_ids R = {b. block_parent R b \<noteq> None \<and> (\<forall>c. block_parent R c \<noteq> Some (Some b))}"
proof -
  obtain L where rep: "radix_rep L R" using assms(1) by (auto simp: radix_ok_def)
  show ?thesis
  proof (intro set_eqI iffI)
    fix b assume "b \<in> leaf_block_ids R"
    then obtain n where n: "n \<in> L" "n \<noteq> 0" "kids R n = []" and b: "b = last (seg R n)"
      using radix_repD(10) [OF rep] by (auto simp: leaf_block_ids_def)
    have ne: "seg R n \<noteq> []" using radix_repD(5) [OF rep n(1,2)] .
    then have at: "locations R b = Some (n, length (seg R n) - 1)"
      using radix_repD(7) [OF rep, of b n] n b by (simp add: last_conv_nth)
    then show "b \<in> {b. block_parent R b \<noteq> None \<and> (\<forall>c. block_parent R c \<noteq> Some (Some b))}"
      using rep_childless [OF rep at] n ne by (auto simp: block_parent_None)
  next
    fix b assume b: "b \<in> {b. block_parent R b \<noteq> None \<and> (\<forall>c. block_parent R c \<noteq> Some (Some b))}"
    then obtain n i where at: "locations R b = Some (n, i)" by (auto simp: block_parent_None)
    note l = rep_located_at [OF rep at]
    have leaf: "i + 1 = length (seg R n)" "kids R n = []" using rep_childless [OF rep at] b by auto
    have "b = last (seg R n)" using l leaf by (cases "seg R n" rule: rev_cases) auto
    then show "b \<in> leaf_block_ids R" using l leaf radix_repD(10) [OF rep] by (auto simp: leaf_block_ids_def)
  qed
qed

text \<open>The parent relation is well-founded and there are finitely many blocks.\<close>

lemma block_parent_wf:
  assumes "radix_ok R"
  shows "wf {(a, b). block_parent R b = Some (Some a)}"
proof -
  obtain L where rep: "radix_rep L R" using assms(1) by (auto simp: radix_ok_def)
  obtain rk :: "nat \<Rightarrow> nat" where rk: "\<And>m p. m \<in> L \<Longrightarrow> above R m = Some p \<Longrightarrow> rk p < rk m"
    using radix_repD(11) [OF rep] by blast
  let ?f = "\<lambda>b. case the (locations R b) of (n, i) \<Rightarrow> (rk n, i)"
  have "{(a, b). block_parent R b = Some (Some a)} \<subseteq> inv_image (less_than <*lex*> less_than) ?f"
  proof
    fix x assume "x \<in> {(a, b). block_parent R b = Some (Some a)}"
    then obtain a b where x: "x = (a, b)" and ab: "block_parent R b = Some (Some a)" by blast
    obtain n i where at: "locations R b = Some (n, i)"
      using ab block_parent_None [of R b] by (cases "locations R b") auto
    note l = rep_located_at [OF rep at]
    show "x \<in> inv_image (less_than <*lex*> less_than) ?f"
    proof (cases i)
      case 0
      obtain p where p: "above R n = Some p" "p \<in> L" by (rule rep_has_parent [OF rep at])
      then have "last_id R p = Some a" using ab at 0 by (simp add: block_parent_def)
      then have "seg R p \<noteq> []" "last (seg R p) = a" by (auto simp: last_id_def split: if_splits)
      then have "locations R a = Some (p, length (seg R p) - 1)"
        using radix_repD(7) [OF rep, of a p] p by (simp add: last_conv_nth)
      then show ?thesis using x at rk [OF l(1) p(1)] by simp
    next
      case (Suc j)
      then have "seg R n ! j = a" using ab at by (simp add: block_parent_def)
      then have "locations R a = Some (n, j)" using radix_repD(7) [OF rep, of a n j] l Suc by simp
      then show ?thesis using x at Suc by simp
    qed
  qed
  then show ?thesis by (rule wf_subset [rotated]) (simp add: wf_lex_prod)
qed

lemma block_parent_finite:
  assumes "radix_ok R"
  shows "finite (dom (block_parent R))"
proof -
  obtain L where rep: "radix_rep L R" using assms(1) by (auto simp: radix_ok_def)
  have "dom (block_parent R) \<subseteq> (\<Union>n\<in>L. set (seg R n))"
  proof
    fix b assume "b \<in> dom (block_parent R)"
    then obtain n i where "locations R b = Some (n, i)"
      using block_parent_None [of R b] by (cases "locations R b") auto
    then show "b \<in> (\<Union>n\<in>L. set (seg R n))" using rep_located_at(1,5) [OF rep, of b n i] by auto
  qed
  then show ?thesis using rep_finite [OF rep] by (meson finite_UN finite_set finite_subset)
qed

lemma block_parent_closed:
  assumes "radix_ok R" and "block_parent R b = Some (Some a)"
  shows "block_parent R a \<noteq> None"
proof -
  obtain L where rep: "radix_rep L R" using assms(1) by (auto simp: radix_ok_def)
  obtain n i where at: "locations R b = Some (n, i)"
    using assms(2) block_parent_None [of R b] by (cases "locations R b") auto
  note l = rep_located_at [OF rep at]
  obtain p where p: "above R n = Some p" "p \<in> L" by (rule rep_has_parent [OF rep at])
  have "a \<in> set (seg R (if i = 0 then p else n))"
    using assms(2) at p l by (auto simp: block_parent_def last_id_def split: if_splits)
  then show ?thesis using rep_located [OF rep] p l by (auto simp: block_parent_None split: if_splits)
qed

section \<open>Chains\<close>

text \<open>A chain of blocks that starts below \<open>prev\<close>, and the number of leading ids that form one.\<close>

fun chain :: "('b \<rightharpoonup> 'b option) \<Rightarrow> 'b option \<Rightarrow> 'b list \<Rightarrow> bool" where
  "chain par prev [] = True"
| "chain par prev (b # bs) = (par b = Some prev \<and> chain par (Some b) bs)"

fun match_chain :: "('b \<rightharpoonup> 'b option) \<Rightarrow> 'b option \<Rightarrow> 'b list \<Rightarrow> nat" where
  "match_chain par prev [] = 0"
| "match_chain par prev (b # bs) = (if par b = Some prev then Suc (match_chain par (Some b) bs) else 0)"

lemma match_chain_le: "match_chain par prev ids \<le> length ids"
  by (induction ids arbitrary: prev) auto

lemma chain_take_match: "chain par prev (take (match_chain par prev ids) ids)"
  by (induction ids arbitrary: prev) auto

lemma match_chain_greatest: "chain par prev (take k ids) \<Longrightarrow> k \<le> length ids \<Longrightarrow> k \<le> match_chain par prev ids"
proof (induction ids arbitrary: prev k)
  case (Cons b bs)
  then show ?case by (cases k) auto
qed simp

lemma chain_append: "chain par prev (xs @ ys) \<longleftrightarrow>
    chain par prev xs \<and> chain par (if xs = [] then prev else Some (last xs)) ys"
  by (induction xs arbitrary: prev) auto

text \<open>A chain without branches.\<close>

fun only_chain :: "('b \<rightharpoonup> 'b option) \<Rightarrow> 'b option \<Rightarrow> 'b list \<Rightarrow> bool" where
  "only_chain par prev [] = True"
| "only_chain par prev (b # bs) = ((\<forall>x. par x = Some prev \<longleftrightarrow> x = b) \<and> only_chain par (Some b) bs)"

lemma only_chain_nth:
  "(\<And>j x. Suc j < length bs \<Longrightarrow> par x = Some (Some (bs ! j)) \<longleftrightarrow> x = bs ! Suc j) \<Longrightarrow>
   bs \<noteq> [] \<Longrightarrow> only_chain par (Some (hd bs)) (tl bs)"
proof (induction bs)
  case (Cons b bs)
  have "only_chain par (Some (hd bs)) (tl bs)" if "bs \<noteq> []"
    using Cons.IH [OF _ that] Cons.prems(1) [of "Suc _"] by simp
  then show ?case using Cons.prems(1) [of 0] by (cases bs) auto
qed simp

lemma rep_only_chain:
  assumes rep: "radix_rep L R" and n: "n \<in> L" "n \<noteq> 0"
  shows "only_chain (block_parent R) (Some (hd (seg R n))) (tl (seg R n))"
proof (rule only_chain_nth)
  fix j x assume j: "Suc j < length (seg R n)"
  have "locations R (seg R n ! j) = Some (n, j)" using radix_repD(7) [OF rep, of _ n j] n j by simp
  then show "block_parent R x = Some (Some (seg R n ! j)) \<longleftrightarrow> x = seg R n ! Suc j"
    using rep_block_child [OF rep, of _ n j] j by simp
qed (use radix_repD(5) [OF rep n] in simp)

text \<open>The children of a whole node.\<close>

lemma rep_node_child:
  assumes rep: "radix_rep L R" and n: "n \<in> L"
  shows "block_parent R x = Some (last_id R n) \<longleftrightarrow> x \<in> fst ` set (kids R n)"
proof (cases "n = 0")
  case True
  have none: "last_id R 0 = None" using radix_repD(3) [OF rep] by (simp add: last_id_def)
  show ?thesis
  proof
    assume x: "block_parent R x = Some (last_id R n)"
    obtain m i where at: "locations R x = Some (m, i)"
      using x block_parent_None [of R x] by (cases "locations R x") auto
    obtain p where p: "above R m = Some p" "p \<in> L" by (rule rep_has_parent [OF rep at])
    have "i = 0" "last_id R p = None"
      using x at p none True by (auto simp: block_parent_def split: if_splits)
    moreover from this have "p = 0" using rep_seg_Nil [OF rep p(2)] by (simp add: last_id_def split: if_splits)
    ultimately have "(x, m) \<in> set (kids R n)"
      using radix_repD(9) [OF rep n, of x m] True p rep_located_at [OF rep at] by (auto simp: hd_conv_nth)
    then show "x \<in> fst ` set (kids R n)" by force
  next
    assume "x \<in> fst ` set (kids R n)"
    then obtain c where c: "(x, c) \<in> set (kids R n)" by auto
    note c = rep_kid [OF rep n c]
    then have "locations R x = Some (c, 0)" using radix_repD(7) [OF rep, of x c 0] by (simp add: hd_conv_nth)
    then show "block_parent R x = Some (last_id R n)" using c(2) by (simp add: block_parent_def)
  qed
next
  case False
  then have ne: "seg R n \<noteq> []" using radix_repD(5) [OF rep n] by simp
  then have "locations R (last (seg R n)) = Some (n, length (seg R n) - 1)"
    using radix_repD(7) [OF rep] n by (simp add: last_conv_nth)
  from rep_block_child [OF rep this] ne show ?thesis by (simp add: last_id_def)
qed

section \<open>Lookup\<close>

lemma lookup_segment_spec:
  assumes "only_chain par lst ss" and "lookup_segment ids lmt ss hit lst = (ret, hit', lst')" and "lmt \<le> length ids" "hit \<le> lmt"
  shows "hit' = hit + (if ret then match_chain par lst (drop hit (take lmt ids)) else length ss)" (is ?A)
    and "hit' \<le> lmt" (is ?B)
    and "lst' = (if hit' = hit then lst else Some (ids ! (hit' - 1)))" (is ?C)
    and "\<not> ret \<Longrightarrow> lst' = (if ss = [] then lst else Some (last ss)) \<and>
      match_chain par lst (drop hit (take lmt ids)) = length ss + match_chain par lst' (drop hit' (take lmt ids))"
    (is "_ \<Longrightarrow> ?D")
proof -
  have "?A \<and> ?B \<and> ?C \<and> (\<not> ret \<longrightarrow> ?D)"
    using assms
  proof (induction ss arbitrary: hit lst)
    case (Cons s ss)
    show ?case
    proof (cases "hit < lmt \<and> ids ! hit = s")
      case True
      then have d: "drop hit (take lmt ids) = s # drop (Suc hit) (take lmt ids)"
        using Cons.prems(3) by (metis Cons_nth_drop_Suc length_take min.absorb2 nth_take)
      have m: "match_chain par lst (drop hit (take lmt ids)) = Suc (match_chain par (Some s) (drop (Suc hit) (take lmt ids)))"
        using Cons.prems(1) by (simp add: d)
      have run: "lookup_segment ids lmt ss (Suc hit) (Some s) = (ret, hit', lst')"
        using Cons.prems(2) True by simp
      have oc: "only_chain par (Some s) ss" using Cons.prems(1) by simp
      have "Suc hit \<le> lmt" using True by simp
      from Cons.IH [OF oc run Cons.prems(3) this] show ?thesis using m True by auto
    next
      case False
      then have res: "ret" "hit' = hit" "lst' = lst" using Cons.prems(2) by auto
      have "match_chain par lst (drop hit (take lmt ids)) = 0"
      proof (cases "hit < lmt")
        case True
        then have "drop hit (take lmt ids) = ids ! hit # drop (Suc hit) (take lmt ids)"
          using Cons.prems(3) by (metis Cons_nth_drop_Suc length_take min.absorb2 nth_take)
        then show ?thesis using Cons.prems(1) True False by simp
      qed (simp add: False)
      then show ?thesis using res Cons.prems by simp
    qed
  qed auto
  then show ?A ?B ?C "\<not> ret \<Longrightarrow> ?D" by blast+
qed

definition lookup_result :: "('b \<rightharpoonup> 'b option) \<Rightarrow> 'b list \<Rightarrow> nat \<Rightarrow> 'b radix_lookup_result" where
  "lookup_result par ids k =
     (let h = match_chain par None (take k ids)
      in \<lparr>hit_block_count = h, last_block_id = (if h = 0 then None else Some (ids ! (h - 1)))\<rparr>)"

lemma lookup_loop_spec:
  assumes rep: "radix_rep L R" and "lmt \<le> length ids"
  shows "n \<in> L \<Longrightarrow> last_id R n = lst \<Longrightarrow> hit \<le> lmt \<Longrightarrow> lmt - hit < fuel \<Longrightarrow>
    lookup_loop fuel R ids lmt n hit lst =
      (let h = hit + match_chain (block_parent R) lst (drop hit (take lmt ids))
       in Inr \<lparr>hit_block_count = h, last_block_id = (if h = hit then lst else Some (ids ! (h - 1)))\<rparr>)"
proof (induction fuel arbitrary: n hit lst)
  case (Suc fuel)
  let ?par = "block_parent R"
  show ?case
  proof (cases "hit < lmt")
    case True
    then have d: "drop hit (take lmt ids) = ids ! hit # drop (Suc hit) (take lmt ids)"
      using assms(2) by (metis Cons_nth_drop_Suc length_take min.absorb2 nth_take)
    show ?thesis
    proof (cases "map_of (kids R n) (ids ! hit)")
      case None
      then have "?par (ids ! hit) \<noteq> Some lst"
        using rep_node_child [OF rep Suc.prems(1)] Suc.prems(2) by (auto simp: map_of_eq_None_iff)
      then show ?thesis using True None d by simp
    next
      case (Some c)
      then have kc: "(ids ! hit, c) \<in> set (kids R n)" by (rule map_of_SomeD)
      note c = rep_kid [OF rep Suc.prems(1) kc]
      then have sc: "seg R c = ids ! hit # tl (seg R c)" by (metis list.collapse)
      obtain ret hit' lst' where run: "lookup_segment ids lmt (tl (seg R c)) (Suc hit) (Some (ids ! hit)) = (ret, hit', lst')"
        by (metis prod_cases3)
      have oc: "only_chain ?par (Some (ids ! hit)) (tl (seg R c))"
        using rep_only_chain [OF rep c(1,4)] c(3) by simp
      have "?par (ids ! hit) = Some lst"
        using rep_node_child [OF rep Suc.prems(1), of "ids ! hit"] Suc.prems(2) kc by force
      then have m: "match_chain ?par lst (drop hit (take lmt ids)) =
          Suc (match_chain ?par (Some (ids ! hit)) (drop (Suc hit) (take lmt ids)))"
        by (simp add: d)
      have whole: "lookup_segment ids lmt (seg R c) hit lst = (ret, hit', lst')"
        by (subst sc) (use True run in simp)
      have step: "lookup_loop (Suc fuel) R ids lmt n hit lst =
          (if ret then Inr \<lparr>hit_block_count = hit', last_block_id = lst'\<rparr> else lookup_loop fuel R ids lmt c hit' lst')"
        using True Some whole by (cases ret) simp_all
      note seg = lookup_segment_spec [OF oc run assms(2) Suc_leI [OF True]]
      show ?thesis
      proof (cases ret)
        case True
        then show ?thesis using step seg(1,3) m by (auto simp: Let_def)
      next
        case False
        have lid: "last_id R c = lst'" using seg(4) [OF False] sc by (auto simp: last_id_def) (metis last.simps)+
        define M where "M = match_chain ?par lst' (drop hit' (take lmt ids))"
        have hit': "hit < hit'" "hit' \<le> lmt" "lst' = Some (ids ! (hit' - 1))"
          using seg(1-3) False by auto
        have tot: "hit + match_chain ?par lst (drop hit (take lmt ids)) = hit' + M"
          using m seg(1) seg(4) [OF False] False by (simp add: M_def)
        have "lookup_loop fuel R ids lmt c hit' lst' =
            (let h = hit' + M in Inr \<lparr>hit_block_count = h, last_block_id = (if h = hit' then lst' else Some (ids ! (h - 1)))\<rparr>)"
          unfolding M_def by (rule Suc.IH [OF c(1) lid hit'(2)]) (use hit' Suc.prems in simp)
        then show ?thesis unfolding step tot using False hit' by (simp add: Let_def)
      qed
    qed
  next
    case False
    then show ?thesis using Suc.prems by simp
  qed
qed simp

lemma lookup_ok:
  assumes "radix_ok R"
  shows "lookup R ids k = Inr (lookup_result (block_parent R) ids (nat k))"
proof -
  obtain L where rep: "radix_rep L R" using assms by (auto simp: radix_ok_def)
  let ?l = "nat (min k (int (length ids)))"
  have t: "take ?l ids = take (nat k) ids" by (cases "nat k \<le> length ids") (auto simp: min_def)
  have "lookup_loop (Suc (length ids)) R ids ?l 0 0 None =
    (let h = 0 + match_chain (block_parent R) None (drop 0 (take ?l ids))
     in Inr \<lparr>hit_block_count = h, last_block_id = (if h = 0 then None else Some (ids ! (h - 1)))\<rparr>)"
    by (rule lookup_loop_spec [OF rep]) (use radix_repD(1,3) [OF rep] in \<open>auto simp: last_id_def\<close>)
  then show ?thesis by (simp add: lookup_def lookup_result_def t Let_def)
qed

section \<open>Paths to the root\<close>

fun up_path :: "'b radix \<Rightarrow> nat \<Rightarrow> nat list \<Rightarrow> bool" where
  "up_path R n [] \<longleftrightarrow> above R n = None"
| "up_path R n (p # ps) \<longleftrightarrow> above R n = Some p \<and> up_path R p ps"

lemma rep_up_path:
  assumes rep: "radix_rep L R" and n: "n \<in> L"
  shows "\<exists>ps. up_path R n ps \<and> set ps \<subseteq> L \<and> distinct (n # ps)"
proof -
  obtain rk :: "nat \<Rightarrow> nat" where rk: "\<And>m p. m \<in> L \<Longrightarrow> above R m = Some p \<Longrightarrow> rk p < rk m"
    using radix_repD(11) [OF rep] by blast
  have "\<exists>ps. up_path R n ps \<and> set ps \<subseteq> L \<and> distinct ps \<and> (\<forall>p\<in>set ps. rk p < rk n)"
    using n
  proof (induction "rk n" arbitrary: n rule: less_induct)
    case less
    show ?case
    proof (cases "above R n")
      case None
      then show ?thesis by (intro exI [of _ "[]"]) simp
    next
      case (Some p)
      have p: "p \<in> L" "rk p < rk n" using rep_above_in [OF rep less.prems Some] rk [OF less.prems Some] by auto
      from less.hyps [OF p(2,1)] obtain ps
        where "up_path R p ps" "set ps \<subseteq> L" "distinct ps" "\<forall>q\<in>set ps. rk q < rk p" by blast
      then show ?thesis using Some p by (intro exI [of _ "p # ps"]) fastforce
    qed
  qed
  then show ?thesis by fastforce
qed

lemma path_loop_up:
  assumes "up_path R n ps" and "length ps < fuel"
  shows "path_loop fuel R n segs = Inr (segs @ filter (\<lambda>s. s \<noteq> []) (map (seg R) ps))"
  using assms
proof (induction ps arbitrary: n fuel segs)
  case Nil
  then show ?case by (cases fuel) simp_all
next
  case (Cons p ps)
  then show ?case by (cases fuel) auto
qed

lemma concat_rev_filter: "concat (rev (filter (\<lambda>s. s \<noteq> []) xss)) = concat (rev xss)"
  by (induction xss) auto

lemma rep_segment_chain:
  assumes rep: "radix_rep L R" and n: "n \<in> L" and p: "above R n = Some p" and k: "k \<le> length (seg R n)"
  shows "chain (block_parent R) (last_id R p) (take k (seg R n))"
  using k
proof (induction k)
  case (Suc k)
  let ?b = "seg R n ! k"
  have "locations R ?b = Some (n, k)" using radix_repD(7) [OF rep, of ?b n k] n Suc.prems by simp
  then have "block_parent R ?b = Some (if k = 0 then last_id R p else Some (seg R n ! (k - 1)))"
    using p by (simp add: block_parent_def)
  moreover have "take k (seg R n) = [] \<longleftrightarrow> k = 0" using Suc.prems by auto
  moreover have "0 < k \<Longrightarrow> last (take k (seg R n)) = seg R n ! (k - 1)"
    using Suc.prems by (cases k) (simp_all add: take_Suc_conv_app_nth)
  ultimately show ?case using Suc by (auto simp: take_Suc_conv_app_nth chain_append)
qed simp

lemma up_path_chain:
  assumes rep: "radix_rep L R"
  shows "n \<in> L \<Longrightarrow> up_path R n ps \<Longrightarrow>
    chain (block_parent R) None (concat (rev (map (seg R) ps))) \<and>
    (case above R n of None \<Rightarrow> ps = []
     | Some p \<Rightarrow> last_id R p =
         (if concat (rev (map (seg R) ps)) = [] then None else Some (last (concat (rev (map (seg R) ps))))))"
proof (induction ps arbitrary: n)
  case (Cons p ps)
  have p: "p \<in> L" "above R n = Some p" "up_path R p ps"
    using Cons.prems rep_above_in [OF rep] by auto
  let ?us = "concat (rev (map (seg R) ps))"
  note IH = Cons.IH [OF p(1,3)]
  show ?case
  proof (cases "above R p")
    case None
    then have "p = 0" using radix_repD(6) [OF rep p(1)] by force
    then have "seg R p = []" using radix_repD(3) [OF rep] by simp
    then show ?thesis using p IH None by (simp add: last_id_def)
  next
    case (Some q)
    have "p \<noteq> 0" using Some radix_repD(4) [OF rep] by (metis option.distinct(1))
    then have ne: "seg R p \<noteq> []" using radix_repD(5) [OF rep p(1)] by simp
    have "chain (block_parent R) (last_id R q) (seg R p)"
      using rep_segment_chain [OF rep p(1) Some, of "length (seg R p)"] by simp
    then show ?thesis using p IH Some ne by (simp add: chain_append last_id_def)
  qed
qed simp

lemma path_to_block_ok:
  assumes "radix_ok R" and "block_parent R b \<noteq> None"
  shows "\<exists>xs. path_to_block R b = Inr xs \<and> chain (block_parent R) None xs \<and> xs \<noteq> [] \<and> last xs = b"
proof -
  obtain L where rep: "radix_rep L R" using assms(1) by (auto simp: radix_ok_def)
  obtain n i where at: "locations R b = Some (n, i)" using assms(2) by (auto simp: block_parent_None)
  note l = rep_located_at [OF rep at]
  obtain ps where ps: "up_path R n ps" "set ps \<subseteq> L" "distinct (n # ps)" using rep_up_path [OF rep l(1)] by blast
  have "card (set (n # ps)) \<le> card {..<next_node R}"
    using ps(2) l(1) radix_repD(2) [OF rep] by (intro card_mono) auto
  then have len: "length ps < next_node R" using ps(3) distinct_card [of "n # ps"] by simp
  obtain p where p: "above R n = Some p" "p \<in> L" by (rule rep_has_parent [OF rep at])
  let ?us = "concat (rev (map (seg R) ps))" and ?s = "take (i + 1) (seg R n)"
  have "path_to_block R b = Inr (?us @ ?s)"
    using at by (simp add: path_to_block_def path_loop_up [OF ps(1) len] concat_rev_filter)
  moreover have "chain (block_parent R) None (?us @ ?s)"
    using up_path_chain [OF rep l(1) ps(1)] rep_segment_chain [OF rep l(1) p(1), of "i + 1"] l p
    by (simp add: chain_append)
  moreover have "?s \<noteq> []" "last ?s = b" using l by (auto simp: take_Suc_conv_app_nth)
  ultimately show ?thesis by auto
qed

lemma path_to_block_missing: "block_parent R b = None \<Longrightarrow> path_to_block R b = Inl KeyError"
  by (simp add: path_to_block_def block_parent_None)

text \<open>A chain is determined by its last block.\<close>

lemma chain_unique:
  assumes "chain par None xs" "chain par None ys" "xs \<noteq> []" "ys \<noteq> []" "last xs = last ys"
  shows "xs = ys"
  using assms
proof (induction xs arbitrary: ys rule: rev_induct)
  case (snoc x xs)
  obtain zs where ys: "ys = zs @ [x]" using snoc.prems by (cases ys rule: rev_cases) auto
  have "(if xs = [] then None else Some (last xs)) = (if zs = [] then None else Some (last zs))"
    using snoc.prems(1,2) by (simp add: ys chain_append)
  then show ?case using snoc.IH [of zs] snoc.prems(1,2) by (auto simp: ys chain_append split: if_splits)
qed simp

section \<open>Traversals\<close>

text \<open>The order in which the stack loops visit the nodes.\<close>

fun dfs :: "nat \<Rightarrow> 'b radix \<Rightarrow> nat list \<Rightarrow> nat list result" where
  "dfs fuel R [] = Inr []"
| "dfs 0 R (x # xs) = Inl OutOfFuel"
| "dfs (Suc fuel) R (x # xs) =
     (let n = last (x # xs)
      in bindR (dfs fuel R (butlast (x # xs) @ map snd (kids R n))) (\<lambda>ns. Inr (n # ns)))"

lemma subtree_loop_dfs:
  "subtree_loop fuel R st acc = bindR (dfs fuel R st) (\<lambda>ns. Inr (acc @ concat (map (seg R) ns)))"
  by (induction fuel R st arbitrary: acc rule: dfs.induct) (auto simp: Let_def bindR_def split: sum.splits)

lemma stats_loop_dfs:
  "stats_loop fuel R st nc ec = bindR (dfs fuel R st)
     (\<lambda>ns. Inr (nc + int (length ns), ec + sum_list (map (\<lambda>n. int (length (kids R n))) ns)))"
  by (induction fuel R st arbitrary: nc ec rule: dfs.induct) (auto simp: Let_def bindR_def split: sum.splits)

definition visit_leaf :: "'b radix \<Rightarrow> nat \<Rightarrow> 'b set \<Rightarrow> 'b set" where
  "visit_leaf R n lvs = (if seg R n \<noteq> [] \<and> kids R n = [] then insert (last (seg R n)) lvs else lvs)"

definition visit_segment :: "'b radix \<Rightarrow> nat \<Rightarrow> ('b \<rightharpoonup> nat \<times> nat) \<Rightarrow> ('b \<rightharpoonup> nat \<times> nat)" where
  "visit_segment R n loc = foldl (\<lambda>loc (i, b). loc(b \<mapsto> (n, i))) loc (enumerate 0 (seg R n))"

lemma rebuild_loop_dfs:
  "rebuild_loop fuel R st loc lvs = bindR (dfs fuel R st)
     (\<lambda>ns. Inr (fold (visit_segment R) ns loc, fold (visit_leaf R) ns lvs))"
  by (induction fuel R st arbitrary: loc lvs rule: dfs.induct)
    (auto simp: Let_def bindR_def visit_leaf_def visit_segment_def split: sum.splits)

text \<open>The nodes at or below a node.\<close>

definition node_edges :: "nat set \<Rightarrow> 'b radix \<Rightarrow> (nat \<times> nat) set" where
  "node_edges L R = {(p, c). c \<in> L \<and> above R c = Some p}"

definition below :: "nat set \<Rightarrow> 'b radix \<Rightarrow> nat \<Rightarrow> nat set" where
  "below L R n = {m. (n, m) \<in> (node_edges L R)\<^sup>*}"

lemma below_in: "n \<in> L \<Longrightarrow> m \<in> below L R n \<Longrightarrow> m \<in> L"
  unfolding below_def by (auto elim: rtranclE simp: node_edges_def)

lemma below_finite: "radix_rep L R \<Longrightarrow> n \<in> L \<Longrightarrow> finite (below L R n)"
  by (rule finite_subset [OF _ rep_finite]) (auto intro: below_in)

lemma below_step: "below L R n = insert n (\<Union>c\<in>{c \<in> L. above R c = Some n}. below L R c)"
  unfolding below_def by (auto simp: node_edges_def elim: converse_rtranclE intro: converse_rtrancl_into_rtrancl)

lemma rank_below:
  assumes "\<And>m p. m \<in> L \<Longrightarrow> above R m = Some p \<Longrightarrow> rk p < (rk m :: nat)" and "m \<in> below L R n"
  shows "rk n \<le> rk m"
  using assms(2) unfolding below_def mem_Collect_eq
proof (induction rule: rtrancl_induct)
  case (step y z)
  then have "rk y < rk z" using assms(1) [of z y] by (simp add: node_edges_def)
  then show ?case using step.IH by simp
qed simp

lemma node_edges_confluent:
  assumes "(a, m) \<in> (node_edges L R)\<^sup>*" and "(b, m) \<in> (node_edges L R)\<^sup>*"
  shows "(a, b) \<in> (node_edges L R)\<^sup>* \<or> (b, a) \<in> (node_edges L R)\<^sup>*"
  using assms
proof (induction rule: rtrancl_induct)
  case (step y z)
  note IH = step.IH
  show ?case
    using step.prems
  proof (cases rule: rtranclE)
    case base
    then show ?thesis using step.hyps by (auto intro: rtrancl_into_rtrancl)
  next
    case (step w)
    then have "w = y" using \<open>(y, z) \<in> node_edges L R\<close> by (auto simp: node_edges_def)
    then show ?thesis using step(1) IH by blast
  qed
qed simp

lemma below_siblings_disjoint:
  assumes rep: "radix_rep L R" and "c \<in> L" "d \<in> L" "above R c = Some n" "above R d = Some n" "c \<noteq> d"
  shows "below L R c \<inter> below L R d = {}"
proof (rule ccontr)
  obtain rk :: "nat \<Rightarrow> nat" where rk: "\<And>m p. m \<in> L \<Longrightarrow> above R m = Some p \<Longrightarrow> rk p < rk m"
    using radix_repD(11) [OF rep] by blast
  have no: "(x, y) \<notin> (node_edges L R)\<^sup>*" if xy: "x \<noteq> y" "x \<in> L" "above R x = Some n" "above R y = Some n" for x y
  proof
    assume "(x, y) \<in> (node_edges L R)\<^sup>*"
    then obtain w where "(x, w) \<in> (node_edges L R)\<^sup>*" "(w, y) \<in> node_edges L R" using xy(1) by (metis rtranclE)
    then have "n \<in> below L R x" using xy(4) by (simp add: below_def node_edges_def)
    then show False using rank_below [OF rk] rk [OF xy(2,3)] by fastforce
  qed
  assume "below L R c \<inter> below L R d \<noteq> {}"
  then show False using node_edges_confluent no [of c d] no [of d c] assms by (fastforce simp: below_def)
qed

lemma mset_set_UN_list:
  assumes "distinct cs" and "\<And>c. c \<in> set cs \<Longrightarrow> finite (A c)"
    and "\<And>c d. c \<in> set cs \<Longrightarrow> d \<in> set cs \<Longrightarrow> c \<noteq> d \<Longrightarrow> A c \<inter> A d = {}"
  shows "mset_set (\<Union>c\<in>set cs. A c) = sum_list (map (\<lambda>c. mset_set (A c)) cs)"
  using assms
proof (induction cs)
  case (Cons c cs)
  have "A c \<inter> (\<Union>d\<in>set cs. A d) = {}" using Cons.prems by fastforce
  then show ?case using Cons by (simp add: mset_set_Union)
qed simp

lemma rep_kids_nodes:
  assumes rep: "radix_rep L R" and n: "n \<in> L"
  shows "set (map snd (kids R n)) = {c \<in> L. above R c = Some n}" "distinct (map snd (kids R n))"
proof -
  show "set (map snd (kids R n)) = {c \<in> L. above R c = Some n}"
    using radix_repD(9) [OF rep n] by force
  have "map fst (kids R n) = map (\<lambda>c. hd (seg R c)) (map snd (kids R n))"
    using rep_kid(3) [OF rep n] by auto
  then show "distinct (map snd (kids R n))"
    using radix_repD(8) [OF rep n] by (metis distinct_map)
qed

lemma below_mset:
  assumes rep: "radix_rep L R" and n: "n \<in> L"
  shows "mset_set (below L R n) = add_mset n (sum_list (map (\<lambda>c. mset_set (below L R c)) (map snd (kids R n))))"
proof -
  note k = rep_kids_nodes [OF rep n]
  obtain rk :: "nat \<Rightarrow> nat" where rk: "\<And>m p. m \<in> L \<Longrightarrow> above R m = Some p \<Longrightarrow> rk p < rk m"
    using radix_repD(11) [OF rep] by blast
  let ?U = "\<Union>c\<in>set (map snd (kids R n)). below L R c"
  have "n \<notin> below L R c" if "c \<in> L" "above R c = Some n" for c
    using rank_below [where rk=rk, OF rk, where m=n and n=c] rk [OF that] by fastforce
  then have "n \<notin> ?U" unfolding k(1) by blast
  moreover have "finite ?U" unfolding k(1)
    by (rule finite_UN_I) (use below_finite [OF rep] rep_finite [OF rep] in auto)
  moreover have "mset_set ?U = sum_list (map (\<lambda>c. mset_set (below L R c)) (map snd (kids R n)))"
  proof (rule mset_set_UN_list [OF k(2)], unfold k(1) mem_Collect_eq)
    show "finite (below L R c)" if "c \<in> L \<and> above R c = Some n" for c
      using below_finite [OF rep] that by blast
    show "below L R c \<inter> below L R d = {}"
      if "c \<in> L \<and> above R c = Some n" "d \<in> L \<and> above R d = Some n" "c \<noteq> d" for c d
      using below_siblings_disjoint [OF rep] that by blast
  qed
  ultimately show ?thesis unfolding below_step [of L R n] k(1) [symmetric] by simp
qed

lemma dfs_visits:
  assumes rep: "radix_rep L R"
  shows "set st \<subseteq> L \<Longrightarrow> size (sum_list (map (\<lambda>n. mset_set (below L R n)) st)) \<le> fuel \<Longrightarrow>
    \<exists>ns. dfs fuel R st = Inr ns \<and> mset ns = sum_list (map (\<lambda>n. mset_set (below L R n)) st)"
proof (induction fuel arbitrary: st)
  case 0
  have "card (below L R n) \<noteq> 0" if "n \<in> L" for n
    using below_finite [OF rep that] by (auto simp: below_def)
  then have "st = []" using 0 by (cases st) (auto, metis less_irrefl)
  then show ?case by simp
next
  case (Suc fuel)
  let ?B = "\<lambda>n. mset_set (below L R n)"
  show ?case
  proof (cases st rule: rev_cases)
    case (snoc ys n)
    then have n: "n \<in> L" "set ys \<subseteq> L" using Suc.prems(1) by auto
    let ?st = "ys @ map snd (kids R n)"
    have eq: "sum_list (map ?B st) = add_mset n (sum_list (map ?B ?st))"
      using below_mset [OF rep n(1)] by (simp add: snoc)
    have "set ?st \<subseteq> L" using n rep_kids_nodes(1) [OF rep n(1)] by auto
    from Suc.IH [OF this] obtain ns where ns: "dfs fuel R ?st = Inr ns" "mset ns = sum_list (map ?B ?st)"
      using Suc.prems(2) by (auto simp: eq)
    have "dfs (Suc fuel) R st = bindR (dfs fuel R ?st) (\<lambda>ns. Inr (n # ns))"
      using dfs.simps(3) [of fuel R "hd st" "tl st"] snoc by (simp add: Let_def)
    then show ?thesis using ns eq by simp
  qed simp
qed


lemma mset_eq_mset_set: "mset xs = mset_set A \<Longrightarrow> finite A \<Longrightarrow> distinct xs \<and> set xs = A"
proof -
  assume eq: "mset xs = mset_set A" and fin: "finite A"
  then have "set xs = A" by (metis finite_set_mset_mset_set set_mset_mset)
  moreover from this have "distinct xs" unfolding distinct_count_atmost_1 eq using fin by (simp add: count_mset_set')
  ultimately show ?thesis by simp
qed

lemma dfs_kids:
  assumes rep: "radix_rep L R" and n: "n \<in> L"
  shows "\<exists>ns. dfs (next_node R) R (map snd (kids R n)) = Inr ns \<and> distinct ns \<and> n \<notin> set ns \<and>
    set (n # ns) = below L R n"
proof -
  let ?B = "\<lambda>n. mset_set (below L R n)" and ?k = "map snd (kids R n)"
  note fin = below_finite [OF rep n]
  have "card (below L R n) \<le> card {..<next_node R}"
    using radix_repD(2) [OF rep] below_in [OF n] by (intro card_mono) auto
  moreover have "card (below L R n) = Suc (size (sum_list (map ?B ?k)))"
    using arg_cong [OF below_mset [OF rep n], of size] by simp
  moreover have "set ?k \<subseteq> L" using rep_kids_nodes(1) [OF rep n] by auto
  ultimately obtain ns where ns: "dfs (next_node R) R ?k = Inr ns" "mset ns = sum_list (map ?B ?k)"
    using dfs_visits [OF rep, of ?k "next_node R"] by auto
  then have "mset (n # ns) = ?B n" using below_mset [OF rep n] by simp
  then have "distinct (n # ns)" "set (n # ns) = below L R n"
    using mset_eq_mset_set [OF _ fin] by blast+
  then show ?thesis using ns(1) by auto
qed

text \<open>The blocks below a block.\<close>

definition descends :: "('b \<rightharpoonup> 'b option) \<Rightarrow> ('b \<times> 'b) set" where
  "descends par = {(a, b). par b = Some (Some a)}\<^sup>*"

lemma descends_segment:
  assumes rep: "radix_rep L R" and n: "n \<in> L" and "i \<le> j" "j < length (seg R n)"
  shows "(seg R n ! i, seg R n ! j) \<in> descends (block_parent R)"
  using assms(3,4)
proof (induction j)
  case (Suc j)
  show ?case
  proof (cases "i = Suc j")
    case False
    have "locations R (seg R n ! Suc j) = Some (n, Suc j)" using radix_repD(7) [OF rep, of _ n "Suc j"] n Suc.prems by simp
    then have "block_parent R (seg R n ! Suc j) = Some (Some (seg R n ! j))" by (simp add: block_parent_def)
    then show ?thesis using Suc False unfolding descends_def by (auto intro: rtrancl_into_rtrancl)
  qed (simp add: descends_def)
qed (simp add: descends_def)

lemma descends_below:
  assumes rep: "radix_rep L R" and n: "n \<in> L" "n \<noteq> 0" and i: "i < length (seg R n)"
    and m: "m \<in> below L R n" "m \<noteq> n" and x: "x \<in> set (seg R m)"
  shows "(seg R n ! i, x) \<in> descends (block_parent R)"
proof -
  have ne: "p \<noteq> 0 \<and> p \<in> L" if "p \<in> below L R n" for p
    using that unfolding below_def mem_Collect_eq
  proof (induction rule: rtrancl_induct)
    case (step y z)
    then show ?case using radix_repD(4) [OF rep] by (cases z) (auto simp: node_edges_def)
  qed (use n in simp)
  have "m = n \<or> (\<forall>x\<in>set (seg R m). (seg R n ! i, x) \<in> descends (block_parent R))"
    using m(1) unfolding below_def mem_Collect_eq
  proof (induction rule: rtrancl_induct)
    case (step p m)
    have p: "p \<in> L" "p \<noteq> 0" "above R m = Some p" "m \<in> L" "m \<noteq> 0"
      using ne [of p] ne [of m] step.hyps by (auto simp: below_def node_edges_def intro: rtrancl_into_rtrancl)
    have sp: "seg R p \<noteq> []" "seg R m \<noteq> []" using radix_repD(5) [OF rep] p by blast+
    have last: "(seg R n ! i, last (seg R p)) \<in> descends (block_parent R)"
      using step.IH descends_segment [OF rep n(1), of i "length (seg R n) - 1"] i sp
      by (auto simp: last_conv_nth)
    have "locations R (hd (seg R m)) = Some (m, 0)"
      using radix_repD(7) [OF rep, of _ m 0] p sp by (simp add: hd_conv_nth)
    then have "block_parent R (hd (seg R m)) = Some (Some (last (seg R p)))"
      using p sp by (simp add: block_parent_def last_id_def)
    then have hd: "(seg R n ! i, seg R m ! 0) \<in> descends (block_parent R)"
      using last sp unfolding descends_def by (auto simp: hd_conv_nth intro: rtrancl_into_rtrancl)
    have "(seg R n ! i, seg R m ! j) \<in> descends (block_parent R)" if "j < length (seg R m)" for j
      using hd descends_segment [OF rep p(4), of 0 j] that unfolding descends_def by (auto intro: rtrancl_trans)
    then show ?case by (auto simp: in_set_conv_nth)
  qed simp
  then show ?thesis using m x by blast
qed

lemma descends_cover:
  assumes rep: "radix_rep L R" and at: "locations R b = Some (n, i)" and d: "(b, x) \<in> descends (block_parent R)"
  shows "x \<in> set (drop i (seg R n)) \<or> (\<exists>m\<in>below L R n - {n}. x \<in> set (seg R m))"
  using d unfolding descends_def
proof (induction rule: rtrancl_induct)
  case base
  show ?case using rep_located_at [OF rep at] in_set_drop_iff_nth [OF rep_distinct [OF rep], of n i i] by auto
next
  case (step x y)
  then have xy: "block_parent R y = Some (Some x)" by simp
  note n = rep_located_at [OF rep at]
  obtain rk :: "nat \<Rightarrow> nat" where rk: "\<And>m p. m \<in> L \<Longrightarrow> above R m = Some p \<Longrightarrow> rk p < rk m"
    using radix_repD(11) [OF rep] by blast
  obtain m j where m: "m \<in> below L R n" and j: "j < length (seg R m)" "seg R m ! j = x" and ij: "m = n \<Longrightarrow> i \<le> j"
  proof -
    have "\<exists>j. i + j < length (seg R n) \<and> seg R n ! (i + j) = x" if "x \<in> set (drop i (seg R n))"
      by (rule in_set_drop_obtain [OF that])
    moreover have "n \<in> below L R n" by (simp add: below_def)
    ultimately show thesis using step.IH that by (auto simp: in_set_conv_nth) (metis le_add1)
  qed
  have mL: "m \<in> L" by (rule below_in [OF n(1) m])
  have "locations R x = Some (m, j)" using radix_repD(7) [OF rep, of x m j] mL j by simp
  from rep_block_child [OF rep this, of y] xy
  consider "j + 1 < length (seg R m)" "y = seg R m ! (j + 1)" | c where "(y, c) \<in> set (kids R m)"
    by (auto split: if_splits)
  then show ?case
  proof cases
    case 1
    show ?thesis
    proof (cases "m = n")
      case True
      then show ?thesis using 1 ij in_set_drop_iff_nth [OF rep_distinct [OF rep n(1)], of "j + 1" i] by auto
    next
      case False
      then show ?thesis using 1 m by (metis DiffI nth_mem singletonD)
    qed
  next
    case 2
    note c = rep_kid [OF rep mL 2]
    have "c \<in> below L R n" using m c unfolding below_def by (auto simp: node_edges_def intro: rtrancl_into_rtrancl)
    moreover have "c \<noteq> n" using rank_below [where rk=rk, OF rk m] rk [OF c(1,2)] by auto
    ultimately show ?thesis using c(6) by blast
  qed
qed

lemma subtree_block_ids_ok:
  assumes "radix_ok R" and "block_parent R b \<noteq> None"
  shows "\<exists>xs. subtree_block_ids R b = Inr xs \<and> distinct xs \<and> set xs = {x. (b, x) \<in> descends (block_parent R)}"
proof -
  obtain L where rep: "radix_rep L R" using assms(1) by (auto simp: radix_ok_def)
  obtain n i where at: "locations R b = Some (n, i)" using assms(2) by (auto simp: block_parent_None)
  note n = rep_located_at [OF rep at]
  obtain ns where ns: "dfs (next_node R) R (map snd (kids R n)) = Inr ns" "distinct ns" "n \<notin> set ns" "set (n # ns) = below L R n"
    using dfs_kids [OF rep n(1)] by blast
  let ?xs = "drop i (seg R n) @ concat (map (seg R) ns)"
  have run: "subtree_block_ids R b = Inr ?xs"
    using at ns(1) by (simp add: subtree_block_ids_def subtree_loop_dfs)
  have nsL: "m \<in> L" if "m \<in> set (n # ns)" for m using below_in [OF n(1)] ns(4) that by blast
  have segs: "distinct (concat (map (seg R) ms))" if "set ms \<subseteq> L" "distinct ms" for ms
    using that
  proof (induction ms)
    case (Cons m ms)
    have "set (seg R m) \<inter> set (seg R m') = {}" if "m' \<in> set ms" for m'
      using Cons.prems that rep_pos_unique [OF rep, of m m'] by (fastforce simp: in_set_conv_nth)
    then show ?case using Cons rep_distinct [OF rep, of m] by auto
  qed simp
  have "distinct (concat (map (seg R) (n # ns)))" by (rule segs) (use nsL ns in auto)
  then have "distinct ?xs" using set_drop_subset [of i "seg R n"] by auto
  moreover have "set ?xs = {x. (b, x) \<in> descends (block_parent R)}"
  proof (intro set_eqI iffI)
    fix x assume "x \<in> set ?xs"
    then consider "x \<in> set (drop i (seg R n))" | m where "m \<in> set ns" "x \<in> set (seg R m)" by auto
    then show "x \<in> {x. (b, x) \<in> descends (block_parent R)}"
    proof cases
      case 1
      then obtain j where "i + j < length (seg R n)" "seg R n ! (i + j) = x" using in_set_drop_obtain by metis
      then show ?thesis using descends_segment [OF rep n(1), of i "i + j"] n(4) by simp
    next
      case 2
      then have "m \<in> below L R n" "m \<noteq> n" using ns by auto
      then show ?thesis using descends_below [OF rep n(1-3) _ _ 2(2)] n(4) by simp
    qed
  next
    fix x assume "x \<in> {x. (b, x) \<in> descends (block_parent R)}"
    then show "x \<in> set ?xs" using descends_cover [OF rep at, of x] ns by auto
  qed
  ultimately show ?thesis using run by blast
qed


text \<open>
  The incrementally maintained index agrees with a rebuild from the tree, and the statistics count
  the live nodes.
\<close>

lemma visit_segment_at:
  assumes "distinct (seg R n)"
  shows "visit_segment R n loc b = Some (m, i) \<longleftrightarrow>
    (if b \<in> set (seg R n) then m = n \<and> i < length (seg R n) \<and> seg R n ! i = b else loc b = Some (m, i))"
  using index_segment_locations [of "R\<lparr>locations := loc\<rparr>" n b m i] assms
  by (simp add: index_segment_def visit_segment_def)

lemma below_root:
  assumes rep: "radix_rep L R"
  shows "below L R 0 = L"
proof (intro set_eqI iffI)
  show "m \<in> below L R 0 \<Longrightarrow> m \<in> L" for m by (rule below_in [OF radix_repD(1) [OF rep]])
  obtain rk :: "nat \<Rightarrow> nat" where rk: "\<And>m p. m \<in> L \<Longrightarrow> above R m = Some p \<Longrightarrow> rk p < rk m"
    using radix_repD(11) [OF rep] by blast
  show "m \<in> L \<Longrightarrow> m \<in> below L R 0" for m
  proof (induction "rk m" arbitrary: m rule: less_induct)
    case less
    show ?case
    proof (cases "m = 0")
      case False
      then obtain p where p: "p \<in> L" "above R m = Some p" using radix_repD(6) [OF rep less.prems] by blast
      then have "p \<in> below L R 0" using less.hyps rk [OF less.prems p(2)] by blast
      then show ?thesis using p less.prems unfolding below_def
        by (auto simp: node_edges_def intro: rtrancl_into_rtrancl)
    qed (simp add: below_def)
  qed
qed

lemma fold_visit_segment:
  assumes rep: "radix_rep L R" and "set ns \<subseteq> L"
  shows "fold (visit_segment R) ns loc b = Some (m, i) \<longleftrightarrow>
    (if \<exists>n\<in>set ns. b \<in> set (seg R n) then m \<in> set ns \<and> i < length (seg R m) \<and> seg R m ! i = b else loc b = Some (m, i))"
  using assms(2)
proof (induction ns rule: rev_induct)
  case (snoc n ns)
  have n: "n \<in> L" using snoc.prems by simp
  have "m = n" if "b \<in> set (seg R n)" "m \<in> set ns" "i < length (seg R m)" "seg R m ! i = b"
    using that n snoc.prems rep_pos_unique [OF rep, of m n i] by (fastforce simp: in_set_conv_nth)
  then show ?case using snoc visit_segment_at [OF rep_distinct [OF rep n]] by (auto simp: in_set_conv_nth)
qed simp

lemma fold_visit_leaf:
  "fold (visit_leaf R) ns lvs = lvs \<union> {last (seg R n) | n. n \<in> set ns \<and> seg R n \<noteq> [] \<and> kids R n = []}"
  by (induction ns arbitrary: lvs) (auto simp: visit_leaf_def)

lemma rebuild_locations_id:
  assumes "radix_ok R"
  shows "rebuild_locations R = (Inr (), R)"
proof -
  obtain L where rep: "radix_rep L R" using assms(1) by (auto simp: radix_ok_def)
  note root = radix_repD(1) [OF rep]
  obtain ns where ns: "dfs (next_node R) R (map snd (kids R 0)) = Inr ns" "0 \<notin> set ns" "set (0 # ns) = L"
    using dfs_kids [OF rep root] below_root [OF rep] by auto
  have L: "n \<in> set ns \<longleftrightarrow> n \<in> L \<and> n \<noteq> 0" for n using ns(2,3) by (metis insert_iff list.simps(15))
  have "fold (visit_segment R) ns Map.empty b = Some (m, i) \<longleftrightarrow> locations R b = Some (m, i)" for b m i
  proof -
    have "set ns \<subseteq> L" using L by blast
    note f = fold_visit_segment [OF rep this, of Map.empty b m i]
    show ?thesis
    proof (cases "\<exists>n\<in>set ns. b \<in> set (seg R n)")
      case True
      then show ?thesis
        using f radix_repD(7) [OF rep, of b m i] rep_located_at(2) [OF rep, of b m i] L [of m] by auto
    next
      case False
      then show ?thesis using f rep_located_at(1,2,5) [OF rep, of b m i] L [of m] by auto
    qed
  qed
  then have loc: "fold (visit_segment R) ns Map.empty = locations R"
    by (intro ext) (metis option.exhaust surj_pair)
  have "fold (visit_leaf R) ns {} = leaf_ids R"
    using radix_repD(5) [OF rep] by (auto simp: fold_visit_leaf radix_repD(10) [OF rep] L)
  then show ?thesis using ns(1) loc by (simp add: rebuild_locations_def rebuild_loop_dfs)
qed

end
