(* ===== verification/Block_Forest.thy ===== *)
theory Block_Forest
  imports Radix_Queries
begin

text \<open>
  The contract between the prefix index and its tree backend.  The locale \<open>block_forest\<close> states
  what the index relies on: a state with a finite, well-founded parent map, an insertion that adds
  a leaf, a removal that deletes one, and the queries for the children of a block and for the
  leaves.  The radix tree is its only provider.
\<close>

locale block_forest =
  fixes ok :: "'s \<Rightarrow> bool" and par :: "'s \<Rightarrow> 'b \<rightharpoonup> 'b option"
    and ins :: "'b option \<Rightarrow> 'b \<Rightarrow> ('s, unit) eff" and rmv :: "'b \<Rightarrow> ('s, unit) eff"
    and kid_ids :: "'s \<Rightarrow> 'b \<Rightarrow> 'b list result" and kid_count :: "'s \<Rightarrow> 'b \<Rightarrow> int result"
    and leaves :: "'s \<Rightarrow> 'b set"
  assumes ins_fresh: "ok s \<Longrightarrow> par s b = None \<Longrightarrow> case p of None \<Rightarrow> True | Some a \<Rightarrow> par s a \<noteq> None \<Longrightarrow>
      \<exists>s'. ins p b s = (Inr (), s') \<and> ok s' \<and> par s' = (par s)(b \<mapsto> p)"
    and ins_present: "par s b \<noteq> None \<Longrightarrow> ins p b s = (Inr (), s)"
    and ins_orphan: "par s b = None \<Longrightarrow> par s a = None \<Longrightarrow> ins (Some a) b s = (Inl KeyError, s)"
    and rmv_leaf: "ok s \<Longrightarrow> par s b \<noteq> None \<Longrightarrow> (\<And>c. par s c \<noteq> Some (Some b)) \<Longrightarrow>
      \<exists>s'. rmv b s = (Inr (), s') \<and> ok s' \<and> par s' = (par s)(b := None)"
    and rmv_inner: "ok s \<Longrightarrow> par s c = Some (Some b) \<Longrightarrow>
      rmv b s = (if par s b = None then (Inl KeyError, s) else (Inl RuntimeError, s))"
    and rmv_missing: "par s b = None \<Longrightarrow> rmv b s = (Inl KeyError, s)"
    and kids_present: "ok s \<Longrightarrow> par s b \<noteq> None \<Longrightarrow>
      \<exists>cs. kid_ids s b = Inr cs \<and> kid_count s b = Inr (int (length cs)) \<and> distinct cs \<and>
        set cs = {c. par s c = Some (Some b)}"
    and kids_missing: "par s b = None \<Longrightarrow> kid_count s b = Inl KeyError \<and> kid_ids s b = Inl KeyError"
    and leaves_eq: "ok s \<Longrightarrow> leaves s = {b. par s b \<noteq> None \<and> (\<forall>c. par s c \<noteq> Some (Some b))}"
    and par_closed: "ok s \<Longrightarrow> par s b = Some (Some a) \<Longrightarrow> par s a \<noteq> None"
    and par_finite: "ok s \<Longrightarrow> finite (dom (par s))"
    and par_wf: "ok s \<Longrightarrow> wf {(a, b). par s b = Some (Some a)}"
begin

lemma ins_keeps: "keeps ok (ins p b)"
proof -
  have "ok (snd (ins p b s))" if "ok s" for s
  proof (cases "par s b = None \<and> (case p of None \<Rightarrow> True | Some a \<Rightarrow> par s a \<noteq> None)")
    case True
    then show ?thesis using ins_fresh [OF that, of b p] by fastforce
  next
    case False
    then consider "par s b \<noteq> None" | a where "par s b = None" "p = Some a" "par s a = None"
      by (auto split: option.splits)
    then show ?thesis using that by cases (simp_all add: ins_present ins_orphan)
  qed
  then show ?thesis by (simp add: keeps_def)
qed

lemma rmv_keeps: "keeps ok (rmv b)"
proof -
  have "ok (snd (rmv b s))" if "ok s" for s
  proof (cases "par s b = None \<or> (\<exists>c. par s c = Some (Some b))")
    case True
    then show ?thesis using that rmv_missing rmv_inner by fastforce
  next
    case False
    then show ?thesis using rmv_leaf [OF that, of b] by fastforce
  qed
  then show ?thesis by (simp add: keeps_def)
qed

lemma kid_count_zero:
  assumes "ok s" and "par s b \<noteq> None"
  shows "kid_count s b = Inr 0 \<longleftrightarrow> (\<forall>c. par s c \<noteq> Some (Some b))"
  using kids_present [OF assms] by auto

lemma leaf_iff_no_kids:
  "ok s \<Longrightarrow> b \<in> leaves s \<longleftrightarrow> kid_count s b = Inr 0"
  using kid_count_zero [of s b] kids_missing [of s b] by (cases "par s b = None") (simp_all add: leaves_eq)

text \<open>An inserted block is a leaf, and removing it restores the forest.\<close>

lemma ins_rmv:
  assumes "ok s" and "par s b = None" and "case p of None \<Rightarrow> True | Some a \<Rightarrow> par s a \<noteq> None"
  shows "\<exists>s' s''. ins p b s = (Inr (), s') \<and> b \<in> leaves s' \<and> rmv b s' = (Inr (), s'') \<and> ok s'' \<and> par s'' = par s"
proof -
  obtain s' where s': "ins p b s = (Inr (), s')" "ok s'" "par s' = (par s)(b \<mapsto> p)"
    using ins_fresh [OF assms] by blast
  have no: "par s' c \<noteq> Some (Some b)" for c
    using s'(3) assms(2,3) par_closed [OF assms(1), of c b] by (auto split: option.splits)
  from rmv_leaf [OF s'(2) _ no] s'(3) obtain s'' where "rmv b s' = (Inr (), s'')" "ok s''" "par s'' = (par s')(b := None)"
    by auto
  then show ?thesis using s' no assms(2) by (auto simp: leaves_eq fun_upd_idem)
qed

text \<open>Removing blocks children first empties any set of blocks that is closed under children.\<close>

lemma rmv_all:
  assumes "ok s" and "distinct bs" and "set bs \<subseteq> dom (par s)"
    and "\<And>i c. i < length bs \<Longrightarrow> par s c = Some (Some (bs ! i)) \<Longrightarrow> c \<in> set (take i bs)"
  shows "\<exists>s'. forE bs rmv s = (Inr (), s') \<and> ok s' \<and> par s' = par s |` (- set bs)"
  using assms
proof (induction bs arbitrary: s)
  case Nil
  then show ?case by (simp add: eff_simps)
next
  case (Cons b bs)
  have "par s c \<noteq> Some (Some b)" for c using Cons.prems(4) [of 0 c] by auto
  with rmv_leaf [OF Cons.prems(1), of b] Cons.prems(3) obtain s1
    where s1: "rmv b s = (Inr (), s1)" "ok s1" "par s1 = (par s)(b := None)" by auto
  have "\<exists>s'. forE bs rmv s1 = (Inr (), s') \<and> ok s' \<and> par s' = par s1 |` (- set bs)"
  proof (rule Cons.IH [OF s1(2)])
    show "distinct bs" using Cons.prems(2) by simp
    show "set bs \<subseteq> dom (par s1)" using Cons.prems(2,3) s1(3) by auto
    show "c \<in> set (take i bs)" if "i < length bs" "par s1 c = Some (Some (bs ! i))" for i c
      using Cons.prems(4) [of "Suc i" c] that s1(3) by (auto split: if_splits)
  qed
  moreover have "((par s)(b := None)) |` (- set bs) = par s |` (- set (b # bs))"
    by (auto simp: restrict_map_def fun_eq_iff)
  ultimately show ?case using s1 by (simp add: eff_simps)
qed

end

interpretation radix: block_forest radix_ok block_parent insert_child remove_block child_block_ids child_count leaf_block_ids
  by unfold_locales
    (fact insert_child_ok insert_child_present insert_child_missing remove_block_ok remove_block_parent
      remove_block_missing child_block_ids_ok child_missing leaf_block_ids_ok block_parent_closed block_parent_finite
      block_parent_wf)+

section \<open>Reachable trees\<close>

text \<open>The trees that sequences of insertions and removals build, also when some of them raise.\<close>

datatype 'b radix_op = InsertChild "'b option" 'b | RemoveBlock 'b

fun radix_step :: "'b radix_op \<Rightarrow> ('b radix, unit) eff" where
  "radix_step (InsertChild p b) = insert_child p b"
| "radix_step (RemoveBlock b) = remove_block b"

definition radix_run :: "'b radix_op list \<Rightarrow> 'b radix" where
  "radix_run ops = foldl (\<lambda>R m. snd (radix_step m R)) RadixTreeBackend ops"

lemma radix_run_ok: "radix_ok (radix_run ops)"
proof (induction ops rule: rev_induct)
  case Nil
  show ?case using radix_rep_init by (auto simp: radix_run_def radix_ok_def)
next
  case (snoc m ops)
  have "radix_ok (snd (radix_step m R))" if "radix_ok R" for R
    using that by (cases m)
      (simp_all add: radix.ins_keeps [unfolded keeps_def, rule_format] radix.rmv_keeps [unfolded keeps_def, rule_format])
  with snoc show ?case by (simp add: radix_run_def)
qed

text \<open>The abstract forest: the same two operations on the parent map alone.\<close>

definition forest_insert :: "'b option \<Rightarrow> 'b \<Rightarrow> ('b \<rightharpoonup> 'b option, unit) eff" where
  "forest_insert p b f =
     (if f b \<noteq> None then (Inr (), f)
      else case p of
        None \<Rightarrow> (Inr (), f(b \<mapsto> None))
      | Some a \<Rightarrow> if f a = None then (Inl KeyError, f) else (Inr (), f(b \<mapsto> Some a)))"

definition forest_remove :: "'b \<Rightarrow> ('b \<rightharpoonup> 'b option, unit) eff" where
  "forest_remove b f =
     (if f b = None then (Inl KeyError, f)
      else if \<exists>c. f c = Some (Some b) then (Inl RuntimeError, f)
      else (Inr (), f(b := None)))"

lemma insert_child_refines:
  assumes "radix_ok R"
  shows "forest_insert p b (block_parent R) = map_prod id block_parent (insert_child p b R)"
proof (cases "block_parent R b")
  case None
  then show ?thesis
    using insert_child_ok [OF assms None, of p] insert_child_missing [OF None]
    by (cases p) (auto simp: forest_insert_def)
next
  case (Some x)
  then show ?thesis by (simp add: forest_insert_def insert_child_present)
qed

lemma remove_block_refines:
  assumes "radix_ok R"
  shows "forest_remove b (block_parent R) = map_prod id block_parent (remove_block b R)"
proof (cases "block_parent R b = None \<or> (\<exists>c. block_parent R c = Some (Some b))")
  case True
  then have "remove_block b R = (if block_parent R b = None then (Inl KeyError, R) else (Inl RuntimeError, R))"
    using remove_block_missing [of R b] remove_block_parent [OF assms, of _ b] by metis
  then show ?thesis using True by (auto simp: forest_remove_def)
next
  case False
  then show ?thesis using remove_block_ok [OF assms, of b] by (auto simp: forest_remove_def)
qed

text \<open>
  C15. The radix tree implements the forest of cached blocks: started empty, after any sequence of
  insertions and removals, \<open>insert_child\<close> and \<open>remove_block\<close> raise exactly when the corresponding
  operation on the abstract parent map does (unknown parent, unknown block, block with live
  children) and otherwise change the parent map in the same way, whatever edges they split or merge;
  \<open>child_block_ids\<close>, \<open>child_count\<close> and \<open>leaf_block_ids\<close> answer from the parent map.
\<close>

theorem radix_tree_refines_forest:
  fixes ops :: "'b radix_op list"
  shows "let R = radix_run ops; f = block_parent R in
    block_parent (RadixTreeBackend :: 'b radix) = Map.empty \<and>
    (\<forall>p b. forest_insert p b f = map_prod id block_parent (insert_child p b R)) \<and>
    (\<forall>b. forest_remove b f = map_prod id block_parent (remove_block b R)) \<and>
    leaf_block_ids R = {b \<in> dom f. \<forall>c. f c \<noteq> Some (Some b)} \<and>
    (\<forall>b. if f b = None then child_block_ids R b = Inl KeyError \<and> child_count R b = Inl KeyError
      else \<exists>cs. child_block_ids R b = Inr cs \<and> child_count R b = Inr (int (length cs)) \<and> distinct cs \<and>
        set cs = {c. f c = Some (Some b)})"
proof -
  have ok: "radix_ok (radix_run ops)" by (rule radix_run_ok)
  have leaves: "leaf_block_ids R = {b \<in> dom (block_parent R). \<forall>c. block_parent R c \<noteq> Some (Some b)}"
    if "radix_ok R" for R :: "'b radix"
    unfolding leaf_block_ids_ok [OF that] by auto
  show ?thesis
    unfolding Let_def
    using block_parent_init insert_child_refines [OF ok] remove_block_refines [OF ok] leaves [OF ok]
      child_block_ids_ok [OF ok] child_missing [of "radix_run ops"]
    by (intro conjI allI) (simp_all split: if_splits)
qed

text \<open>An example: blocks 2 and 3 below block 1, then block 4 below block 3.\<close>

definition example_ops :: "nat radix_op list" where
  "example_ops = [InsertChild None 1, InsertChild (Some 1) 2, InsertChild (Some 1) 3, InsertChild (Some 3) 4]"

lemma radix_run_snoc_parent:
  "block_parent (radix_run (ops @ [InsertChild p b])) = snd (forest_insert p b (block_parent (radix_run ops)))"
  using insert_child_refines [OF radix_run_ok, of p b ops] by (simp add: radix_run_def)

lemma example_parent:
  "block_parent (radix_run example_ops) = [1 \<mapsto> None, 2 \<mapsto> Some 1, 3 \<mapsto> Some 1, 4 \<mapsto> Some 3]"
proof -
  have "block_parent (radix_run ([] :: nat radix_op list)) = Map.empty"
    by (simp add: radix_run_def block_parent_init)
  then show ?thesis
    unfolding example_ops_def
    using radix_run_snoc_parent [of "[]" None "1 :: nat"]
      radix_run_snoc_parent [of "[InsertChild None 1]" "Some 1" "2 :: nat"]
      radix_run_snoc_parent [of "[InsertChild None 1, InsertChild (Some 1) 2]" "Some 1" "3 :: nat"]
      radix_run_snoc_parent [of "[InsertChild None 1, InsertChild (Some 1) 2, InsertChild (Some 1) 3]" "Some 3" "4 :: nat"]
    by (simp add: forest_insert_def)
qed

theorem radix_tree_refines_forest_witness:
  "\<exists>cs. child_block_ids (radix_run example_ops) 1 = Inr cs \<and> set cs = {2, 3}"
proof -
  have "block_parent (radix_run example_ops) 1 \<noteq> None" by (simp add: example_parent)
  then obtain cs where "child_block_ids (radix_run example_ops) 1 = Inr cs"
    "set cs = {c. block_parent (radix_run example_ops) c = Some (Some 1)}"
    using radix_tree_refines_forest [of example_ops, unfolded Let_def] by meson
  moreover have "{c. block_parent (radix_run example_ops) c = Some (Some 1)} = {2, 3}"
    by (auto simp: example_parent split: if_splits)
  ultimately show ?thesis by blast
qed

text \<open>
  C16. \<open>lookup\<close> always returns, with the longest prefix of the query (up to \<open>max_blocks\<close>) that is a
  chain of cached blocks from the root, and the last block of that chain.
\<close>

theorem radix_lookup_longest_prefix:
  fixes ops :: "'b radix_op list" and ids :: "'b list"
  shows "let par = block_parent (radix_run ops) in
    \<exists>h. lookup (radix_run ops) ids k =
      Inr \<lparr>hit_block_count = h, last_block_id = (if h = 0 then None else Some (ids ! (h - 1)))\<rparr> \<and>
    h \<le> min (nat k) (length ids) \<and> chain par None (take h ids) \<and>
    (\<forall>j \<le> min (nat k) (length ids). chain par None (take j ids) \<longrightarrow> j \<le> h)"
proof -
  define par where "par = block_parent (radix_run ops)"
  let ?h = "match_chain par None (take (nat k) ids)"
  have le: "?h \<le> min (nat k) (length ids)" using match_chain_le [of par None "take (nat k) ids"] by simp
  have "chain par None (take ?h ids)"
    using chain_take_match [of par None "take (nat k) ids"] le by (simp add: min.absorb1)
  moreover have "j \<le> ?h" if "j \<le> min (nat k) (length ids)" "chain par None (take j ids)" for j
    using match_chain_greatest [of par None j "take (nat k) ids"] that by (simp add: min.absorb1)
  ultimately show ?thesis
    using le lookup_ok [OF radix_run_ok, of ops ids k]
    unfolding Let_def lookup_result_def par_def by blast
qed

theorem radix_lookup_longest_prefix_witness:
  "lookup (radix_run example_ops) [1, 3, 2] 3 = Inr \<lparr>hit_block_count = 2, last_block_id = Some 3\<rparr>"
proof -
  let ?par = "block_parent (radix_run example_ops)" and ?ids = "[1, 3, 2] :: nat list"
  obtain h where h: "lookup (radix_run example_ops) ?ids 3 =
      Inr \<lparr>hit_block_count = h, last_block_id = (if h = 0 then None else Some (?ids ! (h - 1)))\<rparr>"
    "h \<le> min (nat 3) (length ?ids)" "chain ?par None (take h ?ids)"
    and max: "\<And>j. j \<le> min (nat 3) (length ?ids) \<Longrightarrow> chain ?par None (take j ?ids) \<Longrightarrow> j \<le> h"
    using radix_lookup_longest_prefix [of example_ops ?ids 3, unfolded Let_def] by blast
  have "2 \<le> h" by (rule max) (simp_all add: example_parent numeral_2_eq_2)
  moreover have "h \<noteq> 3" using h(3) by (auto simp: example_parent numeral_3_eq_3)
  ultimately have "h = 2" using h(2) by simp
  then show ?thesis using h(1) by simp
qed

text \<open>
  C17. \<open>path_to_block\<close> and \<open>subtree_block_ids\<close> return on every reachable tree: the path is the chain
  from the root to the block, the subtree lists each descendant of the block (itself included)
  exactly once.
\<close>

theorem radix_paths_and_subtrees:
  assumes "R = radix_run ops" and "block_parent R b \<noteq> None"
  shows "(\<exists>xs. path_to_block R b = Inr xs \<and> xs \<noteq> [] \<and> last xs = b \<and> chain (block_parent R) None xs) \<and>
    (\<exists>ys. subtree_block_ids R b = Inr ys \<and> distinct ys \<and>
      set ys = {y. (b, y) \<in> {(a, c). block_parent R c = Some (Some a)}\<^sup>*})"
  using path_to_block_ok [OF radix_run_ok, of ops b] subtree_block_ids_ok [OF radix_run_ok, of ops b] assms
  by (auto simp: descends_def)

theorem radix_paths_and_subtrees_witness:
  "path_to_block (radix_run example_ops) 4 = Inr [1, 3, 4]"
proof -
  let ?par = "block_parent (radix_run example_ops)"
  have "?par 4 \<noteq> None" by (simp add: example_parent)
  from radix_paths_and_subtrees [OF refl this] obtain xs where
    xs: "path_to_block (radix_run example_ops) 4 = Inr xs" "xs \<noteq> []" "last xs = 4" "chain ?par None xs" by blast
  have "xs = [1, 3, 4]"
    by (rule chain_unique [OF xs(4) _ xs(2)]) (use xs(3) in \<open>simp_all add: example_parent\<close>)
  then show ?thesis using xs(1) by simp
qed

text \<open>
  The location map and the leaf set that the operations maintain incrementally equal, in every
  reachable tree, those that \<open>_rebuild_locations\<close> computes from scratch, which always returns.
\<close>

theorem radix_index_is_rebuild: "rebuild_locations (radix_run ops) = (Inr (), radix_run ops)"
  by (rule rebuild_locations_id [OF radix_run_ok])

end
