(* ===== verification/Prefix_Index.thy ===== *)
theory Prefix_Index
  imports Prefix_Block Block_Forest Effect_Logic "HOL-Library.Product_Lexorder"
begin

text \<open>
  \<open>engine/prefix_cache.py\<close>, \<open>RadixPrefixIndex\<close>: the index of cached prefix blocks, with residency
  transfers, reference counts, eviction, device demotion and the incrementally maintained sets that
  the scheduler's capacity queries read.

  Block objects are mutable and compared by identity, so they live in the store \<open>objs\<close> and the
  dict \<open>blocks\<close> maps a block id to an address.  \<open>_blocked_freeable_children\<close> and
  \<open>device_children\<close> are only accessed by key and are maps; the order of the stacks that the
  capacity scans build from their keys does not reach the result, a set, and is that of
  \<open>blocks\<close>.  Heap entries are the tuples of the source, compared lexicographically; \<open>heappop\<close>
  removes the least one.  The weight callback of the eviction loops is the parameter \<open>weight\<close>.
  Loops that follow parents or empty a work list carry fuel, one unit per indexed block.
\<close>

section \<open>State\<close>

record ('b, 'p) prefix_index =
  objs :: "nat \<Rightarrow> ('b, 'p) cache_block"
  block_size :: int
  fingerprint :: bytes
  max_blocks :: "int option"
  backend :: "'b radix"
  blocks :: "('b, nat) dict"
  clock :: int
  mutation_epoch :: int
  capacity_epoch :: int
  resident_payload_epoch :: int
  lookup_epoch :: int
  insert_epoch :: int
  remove_epoch :: int
  removed_block_ids_for_capacity :: "'b set option"
  freeable_cache_epoch :: int
  freeable_block_ids_cache :: "'b set"
  freeable_ids :: "'b set option"
  blocked_freeable_children :: "'b \<rightharpoonup> int"
  evictable_cache_epoch :: int
  evictable_block_ids_cache :: "'b set"
  device_freeable_cache_epoch :: int
  device_freeable_block_ids_cache :: "'b set"
  device_reclaimable_cache_epoch :: int
  device_reclaimable_block_ids_cache :: "'b set"
  lookup_requests :: int
  block_id_generation_requests :: int
  hit_requests :: int
  hit_tokens :: int
  hit_blocks :: int
  committed_blocks :: int
  evicted_blocks :: int
  device_demoted_blocks :: int
  host_evicted_blocks :: int
  deleted_blocks :: int
  duplicate_commits :: int
  control_inspect_requests :: int
  control_delete_requests :: int
  control_priority_updates :: int
  freeable_scans :: int
  freeable_snapshot_builds :: int
  freeable_cache_hits :: int
  evictable_scans :: int
  evictable_cache_hits :: int
  device_reclaimable_scans :: int
  device_reclaimable_cache_hits :: int
  routing_membership_ids :: "'b routing_membership"
  routing_snapshot_cache :: "'b routing_snapshot option"

definition RadixPrefixIndex ::
  "(nat \<Rightarrow> ('b::linorder, 'p) cache_block) \<Rightarrow> int \<Rightarrow> bytes \<Rightarrow> int option \<Rightarrow> ('b, 'p) prefix_index result" where
  "RadixPrefixIndex heap bs fp mb =
     (if bs \<le> 0 then Inl ValueError
      else if (case mb of None \<Rightarrow> False | Some m \<Rightarrow> m \<le> 0) then Inl ValueError
      else Inr \<lparr>objs = heap, block_size = bs, fingerprint = fp, max_blocks = mb,
        backend = RadixTreeBackend, blocks = [], clock = 0, mutation_epoch = 0, capacity_epoch = 0,
        resident_payload_epoch = 0, lookup_epoch = 0, insert_epoch = 0, remove_epoch = 0,
        removed_block_ids_for_capacity = Some {}, freeable_cache_epoch = - 1,
        freeable_block_ids_cache = {}, freeable_ids = None, blocked_freeable_children = Map.empty,
        evictable_cache_epoch = - 1, evictable_block_ids_cache = {},
        device_freeable_cache_epoch = - 1, device_freeable_block_ids_cache = {},
        device_reclaimable_cache_epoch = - 1, device_reclaimable_block_ids_cache = {},
        lookup_requests = 0, block_id_generation_requests = 0, hit_requests = 0, hit_tokens = 0,
        hit_blocks = 0, committed_blocks = 0, evicted_blocks = 0, device_demoted_blocks = 0,
        host_evicted_blocks = 0, deleted_blocks = 0, duplicate_commits = 0,
        control_inspect_requests = 0, control_delete_requests = 0, control_priority_updates = 0,
        freeable_scans = 0, freeable_snapshot_builds = 0, freeable_cache_hits = 0,
        evictable_scans = 0, evictable_cache_hits = 0, device_reclaimable_scans = 0,
        device_reclaimable_cache_hits = 0, routing_membership_ids = empty_membership,
        routing_snapshot_cache = None\<rparr>)"

type_synonym ('b, 'p, 'a) index_op = "(('b, 'p) prefix_index, 'a) eff"

definition get_block :: "('b, 'p) prefix_index \<Rightarrow> 'b \<Rightarrow> nat option" where
  "get_block s b = map_of (blocks s) b"

definition has_block :: "('b, 'p) prefix_index \<Rightarrow> 'b \<Rightarrow> bool" where
  "has_block s b \<longleftrightarrow> get_block s b \<noteq> None"

abbreviation num_blocks :: "('b, 'p) prefix_index \<Rightarrow> int" where
  "num_blocks s \<equiv> int (length (blocks s))"

abbreviation set_block ::
  "nat \<Rightarrow> (('b, 'p) cache_block \<Rightarrow> ('b, 'p) cache_block) \<Rightarrow> ('b, 'p) prefix_index \<Rightarrow> ('b, 'p) prefix_index" where
  "set_block a f s \<equiv> s\<lparr>objs := (objs s)(a := f (objs s a))\<rparr>"

abbreviation set_resid ::
  "nat \<Rightarrow> (residency \<Rightarrow> residency) \<Rightarrow> ('b, 'p) prefix_index \<Rightarrow> ('b, 'p) prefix_index" where
  "set_resid a f \<equiv> set_block a (\<lambda>k. k\<lparr>resid := f (resid k)\<rparr>)"

section \<open>Epochs\<close>

definition tick :: "('b, 'p) prefix_index \<Rightarrow> ('b, 'p) prefix_index" where
  "tick s = s\<lparr>clock := clock s + 1\<rparr>"

definition take_removed_block_ids_for_capacity :: "('b, 'p, 'b set option) index_op" where
  "take_removed_block_ids_for_capacity s =
     (let removed = removed_block_ids_for_capacity s
      in (Inr removed, if removed = None \<or> removed \<noteq> Some {}
                       then s\<lparr>removed_block_ids_for_capacity := Some {}\<rparr> else s))"

definition mark_mutated :: "('b, 'p) prefix_index \<Rightarrow> ('b, 'p) prefix_index" where
  "mark_mutated s = s\<lparr>mutation_epoch := mutation_epoch s + 1\<rparr>"

definition mark_capacity_mutated :: "('b, 'p) prefix_index \<Rightarrow> ('b, 'p) prefix_index" where
  "mark_capacity_mutated s = mark_mutated (s\<lparr>capacity_epoch := capacity_epoch s + 1\<rparr>)"

definition mark_inserted :: "bool \<Rightarrow> ('b, 'p) prefix_index \<Rightarrow> ('b, 'p) prefix_index" where
  "mark_inserted capacity_changed s =
     (let s1 = s\<lparr>insert_epoch := insert_epoch s + 1, lookup_epoch := lookup_epoch s + 1\<rparr>
      in if capacity_changed then mark_capacity_mutated s1 else mark_mutated s1)"

definition mark_removed :: "'b \<Rightarrow> ('b, 'p) prefix_index \<Rightarrow> ('b, 'p) prefix_index" where
  "mark_removed b s =
     (let s1 = s\<lparr>remove_epoch := remove_epoch s + 1\<rparr>;
          s2 = (case removed_block_ids_for_capacity s1 of
                  None \<Rightarrow> s1
                | Some J \<Rightarrow> s1\<lparr>removed_block_ids_for_capacity :=
                    (if card (insert b J) > 4096 then None else Some (insert b J))\<rparr>)
      in mark_capacity_mutated (s2\<lparr>lookup_epoch := lookup_epoch s2 + 1\<rparr>))"

section \<open>The incremental set of freeable blocks\<close>

definition locally_free :: "('b, 'p) cache_block \<Rightarrow> bool" where
  "locally_free k \<longleftrightarrow> ref_count k = 0 \<and> eviction_priority k \<ge> 0 \<and> transfer (resid k) = None"

fun refresh_loop :: "nat \<Rightarrow> 'b option \<Rightarrow> ('b, 'p, unit) index_op" where
  "refresh_loop fuel None s = (Inr (), s)"
| "refresh_loop 0 (Some b) s = (Inl OutOfFuel, s)"
| "refresh_loop (Suc fuel) (Some b) s =
     (case get_block s b of
        None \<Rightarrow> (Inl KeyError, s)
      | Some a \<Rightarrow>
          let k = objs s a; freeable = the (freeable_ids s); was_freeable = b \<in> freeable
          in case blocked_freeable_children s b of
            None \<Rightarrow> (Inl KeyError, s)
          | Some n \<Rightarrow>
              let is_freeable = (n = 0 \<and> locally_free k)
              in if is_freeable = was_freeable then (Inr (), s)
                 else
                   let s1 = s\<lparr>freeable_ids := Some (if is_freeable then insert b freeable else freeable - {b})\<rparr>
                   in case parent_block_id k of
                     None \<Rightarrow> (Inr (), s1)
                   | Some p \<Rightarrow>
                       (case blocked_freeable_children s p of
                          None \<Rightarrow> (Inl KeyError, s1)
                        | Some c \<Rightarrow>
                            refresh_loop fuel (Some p)
                              (s1\<lparr>blocked_freeable_children :=
                                 (blocked_freeable_children s)(p \<mapsto> c + (if is_freeable then - 1 else 1))\<rparr>)))"

definition refresh_freeable_path :: "'b option \<Rightarrow> ('b, 'p, unit) index_op" where
  "refresh_freeable_path bo s =
     (if freeable_ids s = None then (Inr (), s) else refresh_loop (Suc (length (blocks s))) bo s)"

text \<open>The virtual leaf removal that initialises the set.\<close>

fun count_children :: "nat list \<Rightarrow> (nat \<Rightarrow> ('b, 'p) cache_block) \<Rightarrow> ('b \<rightharpoonup> int) \<Rightarrow> ('b \<rightharpoonup> int) result" where
  "count_children [] heap cnt = Inr cnt"
| "count_children (a # as) heap cnt =
     (case parent_block_id (heap a) of
        None \<Rightarrow> count_children as heap cnt
      | Some p \<Rightarrow>
          (case cnt p of None \<Rightarrow> Inl KeyError | Some c \<Rightarrow> count_children as heap (cnt(p \<mapsto> c + 1))))"

fun freeable_loop ::
  "nat \<Rightarrow> ('b, 'p) prefix_index \<Rightarrow> 'b list \<Rightarrow> 'b set \<Rightarrow> ('b \<rightharpoonup> int) \<Rightarrow> ('b set \<times> ('b \<rightharpoonup> int)) result" where
  "freeable_loop fuel s [] freeable cnt = Inr (freeable, cnt)"
| "freeable_loop 0 s (x # xs) freeable cnt = Inl OutOfFuel"
| "freeable_loop (Suc fuel) s (x # xs) freeable cnt =
     (let b = last (x # xs); pending = butlast (x # xs)
      in case get_block s b of
        None \<Rightarrow> Inl KeyError
      | Some a \<Rightarrow>
          if \<not> locally_free (objs s a) then freeable_loop fuel s pending freeable cnt
          else case parent_block_id (objs s a) of
            None \<Rightarrow> freeable_loop fuel s pending (insert b freeable) cnt
          | Some p \<Rightarrow>
              (case cnt p of
                 None \<Rightarrow> Inl KeyError
               | Some c \<Rightarrow>
                   freeable_loop fuel s (if c - 1 = 0 then pending @ [p] else pending)
                     (insert b freeable) (cnt(p \<mapsto> c - 1))))"

definition init_freeable :: "('b, 'p, unit) index_op" where
  "init_freeable s =
     (let s1 = s\<lparr>freeable_scans := freeable_scans s + 1\<rparr>;
          zero = (\<lambda>b. if has_block s b then Some (0 :: int) else None)
      in case bindR (count_children (map snd (blocks s)) (objs s) zero) (\<lambda>cnt.
             freeable_loop (Suc (length (blocks s))) s
               (filter (\<lambda>b. cnt b = Some 0) (map fst (blocks s))) {} cnt) of
           Inl e \<Rightarrow> (Inl e, s1)
         | Inr (freeable, cnt) \<Rightarrow>
             (Inr (), s1\<lparr>freeable_ids := Some freeable, blocked_freeable_children := cnt\<rparr>))"

definition freeable_block_ids :: "('b, 'p, 'b set) index_op" where
  "freeable_block_ids s =
     (if freeable_cache_epoch s = capacity_epoch s
      then (Inr (freeable_block_ids_cache s), s\<lparr>freeable_cache_hits := freeable_cache_hits s + 1\<rparr>)
      else
        bindE (thenE (modifyE (\<lambda>s. s\<lparr>freeable_snapshot_builds := freeable_snapshot_builds s + 1\<rparr>))
                 (if freeable_ids s = None then init_freeable else retE ()))
          (\<lambda>_ s. (Inr (the (freeable_ids s)),
                  s\<lparr>freeable_block_ids_cache := the (freeable_ids s), freeable_cache_epoch := capacity_epoch s\<rparr>)) s)"

definition freeable_blocks :: "('b, 'p, int) index_op" where
  "freeable_blocks = bindE freeable_block_ids (\<lambda>F. retE (int (card F)))"

section \<open>References\<close>

definition mark_payload_compacted :: "nat list \<Rightarrow> ('b, 'p, unit) index_op" where
  "mark_payload_compacted as s =
     (if as = [] then (Inr (), s)
      else if \<exists>a\<in>set as. get_block s (stable_block_id (objs s a)) \<noteq> Some a then (Inl RuntimeError, s)
      else (Inr (), mark_capacity_mutated (s\<lparr>resident_payload_epoch := resident_payload_epoch s + 1\<rparr>)))"

definition set_block_ref_count :: "nat \<Rightarrow> int \<Rightarrow> ('b, 'p, unit) index_op" where
  "set_block_ref_count a rc s =
     (if get_block s (stable_block_id (objs s a)) \<noteq> Some a then (Inl RuntimeError, s)
      else if rc < 0 then (Inl RuntimeError, s)
      else
        let old = ref_count (objs s a)
        in if old = rc then (Inr (), s)
           else
             let s1 = set_block a (\<lambda>k. k\<lparr>ref_count := rc\<rparr>) s
             in if (old = 0) \<noteq> (rc = 0)
                then thenE (refresh_freeable_path (Some (stable_block_id (objs s a))))
                       (modifyE mark_capacity_mutated) s1
                else (Inr (), mark_mutated s1))"

definition acquire_block_ref :: "nat \<Rightarrow> ('b, 'p, unit) index_op" where
  "acquire_block_ref a s = set_block_ref_count a (ref_count (objs s a) + 1) s"

definition release_block_ref :: "nat \<Rightarrow> ('b, 'p, unit) index_op" where
  "release_block_ref a s = set_block_ref_count a (ref_count (objs s a) - 1) s"

section \<open>Lookup\<close>

definition block_ids_for_tokens ::
  "(bytes \<Rightarrow> bytes) \<Rightarrow> int list \<Rightarrow> int option \<Rightarrow> (bytes, 'p, bytes list) index_op" where
  "block_ids_for_tokens sha ts max_tokens s =
     (token_block_ids sha (fingerprint s) (block_size s) ts max_tokens,
      s\<lparr>block_id_generation_requests := block_id_generation_requests s + 1\<rparr>)"

definition index_stable_block_id ::
  "(bytes \<Rightarrow> bytes) \<Rightarrow> (bytes, 'p) prefix_index \<Rightarrow> int list \<Rightarrow> bytes option \<Rightarrow> bytes result" where
  "index_stable_block_id sha s ts parent =
     (if int (length ts) \<noteq> block_size s then Inl ValueError
      else stable_prefix_block_id sha (fingerprint s) ts parent)"

definition match_longest_block_ids :: "('b, 'p) prefix_index \<Rightarrow> 'b list \<Rightarrow> (int \<times> 'b option \<times> int) result" where
  "match_longest_block_ids s ids =
     bindR (lookup (backend s) ids (int (length ids))) (\<lambda>r.
       if int (hit_block_count r) \<le> 0 then Inr (0, None, 0)
       else Inr (int (hit_block_count r) * block_size s, last_block_id r, int (hit_block_count r)))"

definition match_longest_prefix ::
  "(bytes \<Rightarrow> bytes) \<Rightarrow> int list \<Rightarrow> int \<Rightarrow> (bytes, 'p, int \<times> bytes option \<times> int) index_op" where
  "match_longest_prefix sha ts max_usable_tokens =
     bindE (block_ids_for_tokens sha ts (Some max_usable_tokens)) (\<lambda>ids.
       queryE (\<lambda>s. match_longest_block_ids s ids))"

definition lookup_longest_block_ids :: "'b list \<Rightarrow> ('b, 'p, int \<times> 'b option \<times> int) index_op" where
  "lookup_longest_block_ids ids s =
     (let s1 = s\<lparr>lookup_requests := lookup_requests s + 1\<rparr>
      in case match_longest_block_ids s1 ids of
           Inl e \<Rightarrow> (Inl e, s1)
         | Inr (hit_len, lst, hits) \<Rightarrow>
             if hits \<le> 0 then (Inr (0, None, 0), s1)
             else (Inr (hit_len, lst, hits),
                   s1\<lparr>hit_requests := hit_requests s1 + 1, hit_tokens := hit_tokens s1 + hit_len,
                      hit_blocks := hit_blocks s1 + hits\<rparr>))"

definition lookup_longest_prefix ::
  "(bytes \<Rightarrow> bytes) \<Rightarrow> int list \<Rightarrow> int \<Rightarrow> (bytes, 'p, int \<times> bytes option \<times> int) index_op" where
  "lookup_longest_prefix sha ts max_usable_tokens =
     bindE (block_ids_for_tokens sha ts (Some max_usable_tokens)) lookup_longest_block_ids"

text \<open>\<open>path[-block_count:]\<close>, then the block of every id.\<close>

definition get_chain :: "('b, 'p) prefix_index \<Rightarrow> 'b \<Rightarrow> int \<Rightarrow> nat list result" where
  "get_chain s last_block block_count =
     (if block_count \<le> 0 then Inl ValueError
      else bindR (path_to_block (backend s) last_block) (\<lambda>path.
        if int (length path) < block_count then Inl RuntimeError
        else mapR (\<lambda>b. case get_block s b of None \<Rightarrow> Inl RuntimeError | Some a \<Rightarrow> Inr a)
               (drop (length path - nat block_count) path)))"

definition touch_chain :: "nat list \<Rightarrow> ('b, 'p) prefix_index \<Rightarrow> ('b, 'p) prefix_index" where
  "touch_chain as s =
     (let s1 = tick s
      in foldl (\<lambda>s a. set_block a (\<lambda>k. k\<lparr>last_access := clock s1\<rparr>) s) s1 as)"

definition index_routing_snapshot :: "string \<Rightarrow> ('b, 'p, 'b routing_snapshot) index_op" where
  "index_routing_snapshot method s =
     (let build =
        (if live_blocks (routing_membership_ids s) \<noteq> num_blocks s then (Inl RuntimeError, s)
         else
           let rs = \<lparr>rs_supported = True, rs_enabled = True, rs_method = method,
                     rs_block_size = Some (block_size s), rs_fingerprint = fingerprint s, rs_block_ids = {},
                     rs_membership = Some (routing_membership_ids s)\<rparr>
           in (Inr rs, s\<lparr>routing_snapshot_cache := Some rs\<rparr>))
      in case routing_snapshot_cache s of
           None \<Rightarrow> build
         | Some rs \<Rightarrow> if rs_method rs \<noteq> method then build else (Inr rs, s))"

section \<open>Children and eligibility\<close>

definition index_child_count :: "('b, 'p) prefix_index \<Rightarrow> 'b \<Rightarrow> int result" where
  "index_child_count s b = child_count (backend s) b"

definition device_child_count :: "('b, 'p) prefix_index \<Rightarrow> 'b \<Rightarrow> int result" where
  "device_child_count s b =
     bindR (child_block_ids (backend s) b) (\<lambda>cs.
       Inr (int (length (filter (\<lambda>c. case get_block s c of None \<Rightarrow> False
              | Some a \<Rightarrow> device_present (resid (objs s a))) cs))))"

definition can_evict :: "('b, 'p) prefix_index \<Rightarrow> nat \<Rightarrow> bool result" where
  "can_evict s a =
     (if \<not> locally_free (objs s a) then Inr False
      else bindR (index_child_count s (stable_block_id (objs s a))) (\<lambda>n. Inr (n = 0)))"

definition can_demote_device :: "('b, 'p) prefix_index \<Rightarrow> nat \<Rightarrow> bool result" where
  "can_demote_device s a =
     (if \<not> (locally_free (objs s a) \<and> device_present (resid (objs s a)) \<and> host_present (resid (objs s a)))
      then Inr False
      else bindR (device_child_count s (stable_block_id (objs s a))) (\<lambda>n. Inr (n = 0)))"

definition can_evict_host :: "('b, 'p) prefix_index \<Rightarrow> nat \<Rightarrow> bool result" where
  "can_evict_host s a =
     (if \<not> (locally_free (objs s a) \<and> \<not> device_present (resid (objs s a)) \<and> host_present (resid (objs s a)))
      then Inr False
      else bindR (index_child_count s (stable_block_id (objs s a))) (\<lambda>n. Inr (n = 0)))"

definition device_evictable_blocks :: "('b, 'p) prefix_index \<Rightarrow> int result" where
  "device_evictable_blocks s =
     bindR (mapR (can_demote_device s) (map snd (blocks s))) (\<lambda>bs. Inr (int (length (filter id bs))))"

definition evictable_block_ids :: "('b, 'p, 'b set) index_op" where
  "evictable_block_ids s =
     (if evictable_cache_epoch s = capacity_epoch s
      then (Inr (evictable_block_ids_cache s), s\<lparr>evictable_cache_hits := evictable_cache_hits s + 1\<rparr>)
      else
        let E = {b \<in> leaf_block_ids (backend s).
                   case get_block s b of None \<Rightarrow> False | Some a \<Rightarrow> locally_free (objs s a)}
        in (Inr E, s\<lparr>evictable_scans := evictable_scans s + 1, evictable_block_ids_cache := E,
                     evictable_cache_epoch := capacity_epoch s\<rparr>))"

definition evictable_blocks :: "('b, 'p, int) index_op" where
  "evictable_blocks = bindE evictable_block_ids (\<lambda>E. retE (int (card E)))"

section \<open>Insertion\<close>

definition record_routing_insert :: "'b::linorder \<Rightarrow> ('b, 'p, unit) index_op" where
  "record_routing_insert b s =
     (case membership_insert (routing_membership_ids s) b of
        Inl e \<Rightarrow> (Inl e, s)
      | Inr m \<Rightarrow> (Inr (), s\<lparr>routing_membership_ids := m, routing_snapshot_cache := None\<rparr>))"

definition record_routing_remove :: "'b::linorder \<Rightarrow> ('b, 'p, unit) index_op" where
  "record_routing_remove b s =
     (case membership_remove (routing_membership_ids s) b of
        Inl e \<Rightarrow> (Inl e, s)
      | Inr m \<Rightarrow> (Inr (), s\<lparr>routing_membership_ids := m, routing_snapshot_cache := None\<rparr>))"

definition backend_insert_child :: "'b option \<Rightarrow> 'b \<Rightarrow> ('b, 'p, unit) index_op" where
  "backend_insert_child p b s = (case insert_child p b (backend s) of (r, R) \<Rightarrow> (r, s\<lparr>backend := R\<rparr>))"

definition backend_remove_block :: "'b \<Rightarrow> ('b, 'p, unit) index_op" where
  "backend_remove_block b s = (case remove_block b (backend s) of (r, R) \<Rightarrow> (r, s\<lparr>backend := R\<rparr>))"

text \<open>The checks of \<open>insert_block\<close> on the parent's residency.\<close>

definition check_parent :: "('b, 'p) prefix_index \<Rightarrow> ('b, 'p) cache_block \<Rightarrow> unit result" where
  "check_parent s k =
     (case parent_block_id k of
        None \<Rightarrow> Inr ()
      | Some p \<Rightarrow>
          (case get_block s p of
             None \<Rightarrow> Inl KeyError
           | Some a \<Rightarrow>
               if device_present (resid k) \<and> \<not> device_present (resid (objs s a)) then Inl RuntimeError
               else if host_present (resid k) \<and> \<not> host_present (resid (objs s a)) then Inl RuntimeError
               else Inr ()))"

text \<open>A new child is initially absent from the freeable set.\<close>

definition note_new_child :: "nat \<Rightarrow> ('b, 'p, unit) index_op" where
  "note_new_child a s =
     (let k = objs s a; b = stable_block_id k
      in if freeable_ids s = None then (Inr (), s)
         else
           let s1 = s\<lparr>blocked_freeable_children := (blocked_freeable_children s)(b \<mapsto> 0)\<rparr>
           in case parent_block_id k of
                None \<Rightarrow> refresh_freeable_path (Some b) s1
              | Some p \<Rightarrow>
                  (case blocked_freeable_children s1 p of
                     None \<Rightarrow> (Inl KeyError, s1)
                   | Some c \<Rightarrow>
                       thenE (refresh_freeable_path (Some b)) (refresh_freeable_path (Some p))
                         (s1\<lparr>blocked_freeable_children := (blocked_freeable_children s1)(p \<mapsto> c + 1)\<rparr>)))"

definition insert_changes_capacity :: "('b, 'p) prefix_index \<Rightarrow> nat \<Rightarrow> bool" where
  "insert_changes_capacity s a =
     (let k = objs s a; parent = Option.bind (parent_block_id k) (get_block s)
      in \<not> (\<not> locally_free k \<and>
            (case parent of None \<Rightarrow> True | Some p \<Rightarrow> \<not> locally_free (objs s p))))"

definition insert_block :: "nat \<Rightarrow> ('b::linorder, 'p, nat) index_op" where
  "insert_block a s =
     (let k = objs s a; b = stable_block_id k
      in case validate (resid k) of
        Inl e \<Rightarrow> (Inl e, s)
      | Inr _ \<Rightarrow>
          (case get_block s b of
             Some existing \<Rightarrow>
               let s1 = tick (s\<lparr>duplicate_commits := duplicate_commits s + 1\<rparr>)
               in (Inr existing, set_block existing (\<lambda>k. k\<lparr>last_access := clock s1\<rparr>) s1)
           | None \<Rightarrow>
               if (case max_blocks s of None \<Rightarrow> False | Some m \<Rightarrow> num_blocks s \<ge> m)
               then thenE evictable_blocks (raiseE RuntimeError) s
               else (case check_parent s k of
                  Inl e \<Rightarrow> (Inl e, s)
                | Inr _ \<Rightarrow>
                    bindE (thenE (modifyE (\<lambda>s. let s1 = tick s in
                             (set_block a (\<lambda>k. k\<lparr>last_access := clock s1\<rparr>) s1)\<lparr>blocks := dict_set b a (blocks s1)\<rparr>))
                          (thenE (backend_insert_child (parent_block_id k) b)
                          (thenE (note_new_child a)
                          (thenE (modifyE (\<lambda>s. s\<lparr>committed_blocks := committed_blocks s + 1\<rparr>))
                          (thenE (record_routing_insert b)
                                 (modifyE (\<lambda>s. mark_inserted (insert_changes_capacity s a) s)))))))
                      (\<lambda>_. retE a) s)))"

section \<open>Transfers between device and host\<close>

text \<open>The common tail: \<open>validate\<close>, refresh the freeable path, and note the capacity change.\<close>

definition finish_transfer_update :: "nat \<Rightarrow> ('b, 'p, unit) index_op" where
  "finish_transfer_update a s =
     (case validate (resid (objs s a)) of
        Inl e \<Rightarrow> (Inl e, s)
      | Inr _ \<Rightarrow>
          thenE (refresh_freeable_path (Some (stable_block_id (objs s a)))) (modifyE mark_capacity_mutated) s)"

definition parent_resid :: "('b, 'p) prefix_index \<Rightarrow> nat \<Rightarrow> residency option option" where
  "parent_resid s a =
     (case parent_block_id (objs s a) of
        None \<Rightarrow> None
      | Some p \<Rightarrow> Some (map_option (\<lambda>q. resid (objs s q)) (get_block s p)))"

definition begin_d2h :: "nat \<Rightarrow> ('b, 'p, unit) index_op" where
  "begin_d2h a s =
     (let k = objs s a; r = resid k
      in if get_block s (stable_block_id k) \<noteq> Some a then (Inl RuntimeError, s)
         else case validate r of
           Inl e \<Rightarrow> (Inl e, s)
         | Inr _ \<Rightarrow>
             if ref_count k \<noteq> 0 \<or> host_present r \<or> transfer r \<noteq> None then (Inl RuntimeError, s)
             else if (case parent_resid s a of
                        None \<Rightarrow> False
                      | Some None \<Rightarrow> True
                      | Some (Some pr) \<Rightarrow> \<not> (host_present pr \<or> transfer pr = Some D2H))
             then (Inl RuntimeError, s)
             else finish_transfer_update a (set_resid a (\<lambda>r. r\<lparr>transfer := Some D2H\<rparr>) s))"

definition finish_d2h :: "nat \<Rightarrow> ('b, 'p, unit) index_op" where
  "finish_d2h a s =
     (if transfer (resid (objs s a)) \<noteq> Some D2H then (Inl RuntimeError, s)
      else if (case parent_resid s a of
                 None \<Rightarrow> False | Some None \<Rightarrow> True | Some (Some pr) \<Rightarrow> \<not> host_present pr)
      then (Inl RuntimeError, s)
      else finish_transfer_update a (set_resid a (\<lambda>r. r\<lparr>host_present := True, transfer := None\<rparr>) s))"

definition abort_d2h :: "nat \<Rightarrow> ('b, 'p, unit) index_op" where
  "abort_d2h a s =
     (if transfer (resid (objs s a)) \<noteq> Some D2H then (Inl RuntimeError, s)
      else finish_transfer_update a (set_resid a (\<lambda>r. r\<lparr>transfer := None\<rparr>) s))"

definition begin_h2d :: "nat \<Rightarrow> ('b, 'p, unit) index_op" where
  "begin_h2d a s =
     (let k = objs s a; r = resid k
      in if get_block s (stable_block_id k) \<noteq> Some a then (Inl RuntimeError, s)
         else case validate r of
           Inl e \<Rightarrow> (Inl e, s)
         | Inr _ \<Rightarrow>
             if device_present r \<or> \<not> host_present r \<or> transfer r \<noteq> None then (Inl RuntimeError, s)
             else if (case parent_resid s a of
                        None \<Rightarrow> False | Some None \<Rightarrow> True | Some (Some pr) \<Rightarrow> \<not> device_present pr)
             then (Inl RuntimeError, s)
             else finish_transfer_update a
               (set_resid a (\<lambda>r. r\<lparr>device_present := True, transfer := Some H2D\<rparr>)
                  (s\<lparr>resident_payload_epoch := resident_payload_epoch s + 1\<rparr>)))"

definition finish_h2d :: "nat \<Rightarrow> ('b, 'p, unit) index_op" where
  "finish_h2d a s =
     (if transfer (resid (objs s a)) \<noteq> Some H2D then (Inl RuntimeError, s)
      else finish_transfer_update a (set_resid a (\<lambda>r. r\<lparr>transfer := None\<rparr>) s))"

definition abort_h2d :: "nat \<Rightarrow> ('b, 'p, unit) index_op" where
  "abort_h2d a s =
     (if transfer (resid (objs s a)) \<noteq> Some H2D then (Inl RuntimeError, s)
      else case device_child_count s (stable_block_id (objs s a)) of
        Inl e \<Rightarrow> (Inl e, s)
      | Inr n \<Rightarrow>
          if n \<noteq> 0 then (Inl RuntimeError, s)
          else finish_transfer_update a
            (set_resid a (\<lambda>r. r\<lparr>device_present := False, transfer := None\<rparr>)
               (s\<lparr>resident_payload_epoch := resident_payload_epoch s + 1\<rparr>)))"

end
