(* ===== verification/Prefix_Eviction.thy ===== *)
theory Prefix_Eviction
  imports Prefix_Index
begin

text \<open>
  \<open>engine/prefix_cache.py\<close>, the rest of \<open>RadixPrefixIndex\<close>: removal, eviction and demotion by
  priority, the capacity scans over device-resident blocks, the write-through selection, and the
  control operations on subtrees.  \<open>leaf_block_ids\<close> is traversed in increasing order; the order only
  decides how the candidate heap is filled, and its entries are distinct.
\<close>

section \<open>Removal\<close>

definition drop_freeable :: "'b \<Rightarrow> 'b option \<Rightarrow> ('b, 'p, unit) index_op" where
  "drop_freeable b parent s =
     (case freeable_ids s of
        None \<Rightarrow> (Inr (), s)
      | Some F \<Rightarrow>
          let was_freeable = b \<in> F; s1 = s\<lparr>freeable_ids := Some (F - {b})\<rparr>
          in if blocked_freeable_children s1 b = None then (Inl KeyError, s1)
             else
               let s2 = s1\<lparr>blocked_freeable_children := (blocked_freeable_children s1)(b := None)\<rparr>
               in if was_freeable then (Inr (), s2)
                  else case parent of
                    None \<Rightarrow> (Inr (), s2)
                  | Some p \<Rightarrow>
                      (case blocked_freeable_children s2 p of
                         None \<Rightarrow> (Inl KeyError, s2)
                       | Some c \<Rightarrow>
                           refresh_freeable_path (Some p)
                             (s2\<lparr>blocked_freeable_children := (blocked_freeable_children s2)(p \<mapsto> c - 1)\<rparr>)))"

definition remove_block_from_index :: "'b::linorder \<Rightarrow> ('b, 'p, nat) index_op" where
  "remove_block_from_index b s =
     (case get_block s b of
        None \<Rightarrow> (Inl KeyError, s)
      | Some a \<Rightarrow>
          let k = objs s a
          in if \<not> locally_free k then (Inl RuntimeError, s)
             else case index_child_count s b of
               Inl e \<Rightarrow> (Inl e, s)
             | Inr n \<Rightarrow>
                 if n \<noteq> 0 then (Inl RuntimeError, s)
                 else bindE (thenE (backend_remove_block b)
                            (thenE (modifyE (\<lambda>s. s\<lparr>blocks := dict_pop b (blocks s)\<rparr>))
                            (thenE (drop_freeable b (parent_block_id k))
                            (thenE (record_routing_remove b)
                                   (modifyE (mark_removed b))))))
                        (\<lambda>_. retE a) s)"

definition rollback_inserted_leaf :: "nat \<Rightarrow> ('b::linorder, 'p, unit) index_op" where
  "rollback_inserted_leaf a s =
     (let b = stable_block_id (objs s a)
      in if get_block s b \<noteq> Some a then (Inl RuntimeError, s)
         else if ref_count (objs s a) \<noteq> 0 then (Inl RuntimeError, s)
         else case index_child_count s b of
           Inl e \<Rightarrow> (Inl e, s)
         | Inr n \<Rightarrow>
             if n \<noteq> 0 then (Inl RuntimeError, s)
             else if committed_blocks s \<le> 0 then (Inl RuntimeError, s)
             else thenE (remove_block_from_index b)
                    (modifyE (\<lambda>s. s\<lparr>committed_blocks := committed_blocks s - 1\<rparr>)) s)"

section \<open>The candidate heap\<close>

type_synonym 'b candidate = "int \<times> int \<times> 'b"

definition candidate_of :: "('b, 'p) prefix_index \<Rightarrow> nat \<Rightarrow> 'b \<Rightarrow> 'b candidate" where
  "candidate_of s a b = (- eviction_priority (objs s a), last_access (objs s a), b)"

text \<open>\<open>queue_if_evictable\<close> and its twins, for the eligibility test \<open>can\<close>.\<close>

definition queue_if ::
  "(nat \<Rightarrow> bool result) \<Rightarrow> ('b, 'p) prefix_index \<Rightarrow> 'b option \<Rightarrow> 'b candidate list \<times> 'b set \<Rightarrow>
   ('b candidate list \<times> 'b set) result" where
  "queue_if can s bo hq =
     (case bo of
        None \<Rightarrow> Inr hq
      | Some b \<Rightarrow>
          if b \<in> snd hq then Inr hq
          else case get_block s b of
            None \<Rightarrow> Inr hq
          | Some a \<Rightarrow>
              bindR (can a) (\<lambda>e.
                Inr (if e then (fst hq @ [candidate_of s a b], insert b (snd hq)) else hq)))"

fun queue_all ::
  "(nat \<Rightarrow> bool result) \<Rightarrow> ('b, 'p) prefix_index \<Rightarrow> 'b list \<Rightarrow> 'b candidate list \<times> 'b set \<Rightarrow>
   ('b candidate list \<times> 'b set) result" where
  "queue_all can s [] hq = Inr hq"
| "queue_all can s (b # bs) hq = bindR (queue_if can s (Some b) hq) (queue_all can s bs)"

text \<open>The inner \<open>while candidate_heap\<close>: stale entries are skipped; \<open>None\<close> when the heap runs empty.\<close>

function pop_candidate ::
  "(nat \<Rightarrow> bool result) \<Rightarrow> ('b::linorder, 'p) prefix_index \<Rightarrow> 'b candidate list \<times> 'b set \<Rightarrow>
   (nat \<times> 'b candidate list \<times> 'b set) option result" where
  "pop_candidate can s (heap, queued) =
     (if heap = [] then Inr None
      else
        let m = Min (set heap); b = snd (snd m); heap' = remove1 m heap; queued' = queued - {b}
        in case get_block s b of
          None \<Rightarrow> pop_candidate can s (heap', queued')
        | Some a \<Rightarrow>
            (case can a of
               Inl e \<Rightarrow> Inl e
             | Inr ok \<Rightarrow> if ok then Inr (Some (a, heap', queued')) else pop_candidate can s (heap', queued')))"
  by pat_completeness auto
termination
  by (relation "measure (\<lambda>(_, _, h, _). length h)")
    (auto simp: length_remove1 dest: Min_in [OF finite_set])

declare pop_candidate.simps [simp del]

section \<open>Eviction\<close>

fun evict_loop ::
  "nat \<Rightarrow> (('b, 'p) prefix_index \<Rightarrow> nat \<Rightarrow> bool result) \<Rightarrow> (('b, 'p) prefix_index \<Rightarrow> ('b, 'p) prefix_index) \<Rightarrow>
   (('b, 'p) cache_block \<Rightarrow> int) \<Rightarrow> int \<Rightarrow> int \<Rightarrow> 'b candidate list \<times> 'b set \<Rightarrow> nat list \<Rightarrow>
   ('b::linorder, 'p, nat list) index_op" where
  "evict_loop 0 can bump weight needed got hq evicted s = (Inl OutOfFuel, s)"
| "evict_loop (Suc fuel) can bump weight needed got hq evicted s =
     (if got < needed
      then case pop_candidate (can s) s hq of
        Inl e \<Rightarrow> (Inl e, s)
      | Inr None \<Rightarrow> (Inr evicted, s)
      | Inr (Some (a, hq1)) \<Rightarrow>
          let w = weight (objs s a); parent = parent_block_id (objs s a)
          in if w < 0 then (Inl ValueError, s)
             else case remove_block_from_index (stable_block_id (objs s a)) s of
               (Inl e, s1) \<Rightarrow> (Inl e, s1)
             | (Inr a1, s1) \<Rightarrow>
                 let s2 = bump s1
                 in case queue_if (can s2) s2 parent hq1 of
                      Inl e \<Rightarrow> (Inl e, s2)
                    | Inr hq2 \<Rightarrow> evict_loop fuel can bump weight needed (got + w) hq2 (evicted @ [a1]) s2
      else (Inr evicted, s))"

definition evict_batch ::
  "(('b, 'p) prefix_index \<Rightarrow> nat \<Rightarrow> bool result) \<Rightarrow> (('b, 'p) prefix_index \<Rightarrow> ('b, 'p) prefix_index) \<Rightarrow>
   int \<Rightarrow> (('b, 'p) cache_block \<Rightarrow> int) \<Rightarrow> ('b::linorder, 'p, nat list) index_op" where
  "evict_batch can bump needed weight s =
     (if needed \<le> 0 then (Inr [], s)
      else case queue_all (can s) s (sorted_list_of_set (leaf_block_ids (backend s))) ([], {}) of
        Inl e \<Rightarrow> (Inl e, s)
      | Inr hq \<Rightarrow> evict_loop (Suc (length (blocks s))) can bump weight needed 0 hq [] s)"

definition evict_until_weight ::
  "int \<Rightarrow> (('b, 'p) cache_block \<Rightarrow> int) \<Rightarrow> ('b::linorder, 'p, nat list) index_op" where
  "evict_until_weight = evict_batch can_evict (\<lambda>s. s\<lparr>evicted_blocks := evicted_blocks s + 1\<rparr>)"

definition evict_until_freeable :: "int \<Rightarrow> ('b::linorder, 'p, nat list) index_op" where
  "evict_until_freeable needed = evict_until_weight needed (\<lambda>_. 1)"

definition evict_host_until_weight ::
  "int \<Rightarrow> (('b, 'p) cache_block \<Rightarrow> int) \<Rightarrow> ('b::linorder, 'p, nat list) index_op" where
  "evict_host_until_weight = evict_batch can_evict_host (\<lambda>s. s\<lparr>host_evicted_blocks := host_evicted_blocks s + 1\<rparr>)"

definition evict_host_until_freeable :: "int \<Rightarrow> ('b::linorder, 'p, nat list) index_op" where
  "evict_host_until_freeable needed = evict_host_until_weight needed (\<lambda>_. 1)"

definition ensure_insert_capacity :: "int \<Rightarrow> ('b::linorder, 'p, nat list) index_op" where
  "ensure_insert_capacity needed s =
     (case max_blocks s of
        None \<Rightarrow> (Inr [], s)
      | Some m \<Rightarrow>
          if needed \<le> 0 then (Inl ValueError, s)
          else
            let over_capacity = num_blocks s + needed - m
            in if over_capacity \<le> 0 then (Inr [], s)
               else bindE (evict_until_freeable over_capacity) (\<lambda>evicted.
                 if int (length evicted) \<noteq> over_capacity
                 then thenE evictable_blocks (raiseE RuntimeError) else retE evicted) s)"

section \<open>Device demotion\<close>

text \<open>
  The number of device-resident children of every device-resident block, each edge counted once.
\<close>

definition is_device :: "('b, 'p) prefix_index \<Rightarrow> nat \<Rightarrow> bool" where
  "is_device s a \<longleftrightarrow> device_present (resid (objs s a))"

definition device_children_counts :: "('b, 'p) prefix_index \<Rightarrow> ('b \<rightharpoonup> int) result" where
  "device_children_counts s =
     (let ids = filter (\<lambda>(b, a). is_device s a) (blocks s)
      in count_children (map snd ids) (objs s) (\<lambda>b. if b \<in> fst ` set ids then Some 0 else None))"

definition demotable :: "('b \<rightharpoonup> int) \<Rightarrow> ('b, 'p) prefix_index \<Rightarrow> nat \<Rightarrow> bool result" where
  "demotable dc s a =
     (if \<not> (locally_free (objs s a) \<and> is_device s a \<and> host_present (resid (objs s a))) then Inr False
      else case dc (stable_block_id (objs s a)) of None \<Rightarrow> Inl KeyError | Some n \<Rightarrow> Inr (n = 0))"

definition demote_block :: "nat \<Rightarrow> ('b, 'p, unit) index_op" where
  "demote_block a s =
     (let s1 = set_resid a (\<lambda>r. r\<lparr>device_present := False\<rparr>) s;
          s2 = s1\<lparr>resident_payload_epoch := resident_payload_epoch s1 + 1\<rparr>
      in case validate (resid (objs s2 a)) of
           Inl e \<Rightarrow> (Inl e, s2)
         | Inr _ \<Rightarrow> (Inr (), mark_capacity_mutated (s2\<lparr>device_demoted_blocks := device_demoted_blocks s2 + 1\<rparr>)))"

definition uncount_child :: "'b option \<Rightarrow> ('b \<rightharpoonup> int) \<Rightarrow> (('b \<rightharpoonup> int) \<times> 'b option) result" where
  "uncount_child parent dc =
     (case parent of
        None \<Rightarrow> Inr (dc, None)
      | Some p \<Rightarrow>
          (case dc p of
             None \<Rightarrow> Inl KeyError
           | Some c \<Rightarrow> Inr (dc(p \<mapsto> c - 1), if c - 1 = 0 then Some p else None)))"

fun demote_loop ::
  "nat \<Rightarrow> (('b, 'p) cache_block \<Rightarrow> int) \<Rightarrow> int \<Rightarrow> int \<Rightarrow> ('b \<rightharpoonup> int) \<Rightarrow> 'b candidate list \<times> 'b set \<Rightarrow> nat list \<Rightarrow>
   ('b::linorder, 'p, nat list) index_op" where
  "demote_loop 0 weight needed got dc hq demoted s = (Inl OutOfFuel, s)"
| "demote_loop (Suc fuel) weight needed got dc hq demoted s =
     (if got < needed
      then case pop_candidate (demotable dc s) s hq of
        Inl e \<Rightarrow> (Inl e, s)
      | Inr None \<Rightarrow> (Inr demoted, s)
      | Inr (Some (a, hq1)) \<Rightarrow>
          let w = weight (objs s a)
          in if w < 0 then (Inl ValueError, s)
             else case demote_block a s of
               (Inl e, s1) \<Rightarrow> (Inl e, s1)
             | (Inr _, s1) \<Rightarrow>
                 (case uncount_child (parent_block_id (objs s1 a)) dc of
                    Inl e \<Rightarrow> (Inl e, s1)
                  | Inr (dc1, next_id) \<Rightarrow>
                      (case queue_if (demotable dc1 s1) s1 next_id hq1 of
                         Inl e \<Rightarrow> (Inl e, s1)
                       | Inr hq2 \<Rightarrow> demote_loop fuel weight needed (got + w) dc1 hq2 (demoted @ [a]) s1))
      else (Inr demoted, s))"

definition demote_device_until_weight ::
  "int \<Rightarrow> (('b, 'p) cache_block \<Rightarrow> int) \<Rightarrow> ('b::linorder, 'p, nat list) index_op" where
  "demote_device_until_weight needed weight s =
     (if needed \<le> 0 then (Inr [], s)
      else case device_children_counts s of
        Inl e \<Rightarrow> (Inl e, s)
      | Inr dc \<Rightarrow>
          (case queue_all (demotable dc s) s
                  (map fst (filter (\<lambda>(b, a). is_device s a \<and> dc b = Some 0) (blocks s))) ([], {}) of
             Inl e \<Rightarrow> (Inl e, s)
           | Inr hq \<Rightarrow> demote_loop (Suc (length (blocks s))) weight needed 0 dc hq [] s))"

definition demote_device_until_freeable :: "int \<Rightarrow> ('b::linorder, 'p, nat list) index_op" where
  "demote_device_until_freeable needed = demote_device_until_weight needed (\<lambda>_. 1)"

section \<open>Device capacity scans\<close>

definition device_locally_freeable :: "bool \<Rightarrow> ('b, 'p) cache_block \<Rightarrow> bool" where
  "device_locally_freeable include_inflight_d2h k =
     (let r = resid k;
          host_ready = (host_present r \<and> transfer r = None);
          host_pending = (include_inflight_d2h \<and> transfer r = Some D2H)
      in ref_count k = 0 \<and> eviction_priority k \<ge> 0 \<and> device_present r \<and> (host_ready \<or> host_pending))"

fun reclaim_loop ::
  "nat \<Rightarrow> bool \<Rightarrow> ('b, 'p) prefix_index \<Rightarrow> 'b list \<Rightarrow> 'b set \<Rightarrow> ('b \<rightharpoonup> int) \<Rightarrow> 'b set result" where
  "reclaim_loop fuel inc s [] freeable dc = Inr freeable"
| "reclaim_loop 0 inc s (x # xs) freeable dc = Inl OutOfFuel"
| "reclaim_loop (Suc fuel) inc s (x # xs) freeable dc =
     (let b = last (x # xs); stack = butlast (x # xs)
      in case get_block s b of
        None \<Rightarrow> reclaim_loop fuel inc s stack freeable dc
      | Some a \<Rightarrow>
          if b \<in> freeable \<or> \<not> device_locally_freeable inc (objs s a)
          then reclaim_loop fuel inc s stack freeable dc
          else case parent_block_id (objs s a) of
            None \<Rightarrow> reclaim_loop fuel inc s stack (insert b freeable) dc
          | Some p \<Rightarrow>
              (case dc p of
                 None \<Rightarrow> reclaim_loop fuel inc s stack (insert b freeable) dc
               | Some c \<Rightarrow>
                   reclaim_loop fuel inc s (if c - 1 = 0 then stack @ [p] else stack)
                     (insert b freeable) (dc(p \<mapsto> c - 1))))"

definition scan_reclaimable :: "bool \<Rightarrow> ('b, 'p) prefix_index \<Rightarrow> 'b set result" where
  "scan_reclaimable inc s =
     bindR (mapR (\<lambda>(b, a). bindR (device_child_count s b) (\<lambda>n. Inr (b, n)))
              (filter (\<lambda>(b, a). is_device s a) (blocks s))) (\<lambda>counts.
       reclaim_loop (Suc (length (blocks s))) inc s (map fst (filter (\<lambda>(b, n). n = 0) counts)) {} (map_of counts))"

definition device_reclaimable_block_ids' :: "bool \<Rightarrow> ('b, 'p, 'b set) index_op" where
  "device_reclaimable_block_ids' inc s =
     (if inc \<and> device_reclaimable_cache_epoch s = capacity_epoch s
      then (Inr (device_reclaimable_block_ids_cache s),
            s\<lparr>device_reclaimable_cache_hits := device_reclaimable_cache_hits s + 1\<rparr>)
      else if \<not> inc \<and> device_freeable_cache_epoch s = capacity_epoch s
      then (Inr (device_freeable_block_ids_cache s),
            s\<lparr>device_reclaimable_cache_hits := device_reclaimable_cache_hits s + 1\<rparr>)
      else
        let s1 = s\<lparr>device_reclaimable_scans := device_reclaimable_scans s + 1\<rparr>
        in case scan_reclaimable inc s1 of
             Inl e \<Rightarrow> (Inl e, s1)
           | Inr F \<Rightarrow>
               (Inr F,
                if inc then s1\<lparr>device_reclaimable_cache_epoch := capacity_epoch s1,
                               device_reclaimable_block_ids_cache := F\<rparr>
                else s1\<lparr>device_freeable_cache_epoch := capacity_epoch s1,
                        device_freeable_block_ids_cache := F\<rparr>))"

definition device_freeable_block_ids :: "('b, 'p, 'b set) index_op" where
  "device_freeable_block_ids = device_reclaimable_block_ids' False"

definition device_reclaimable_block_ids :: "('b, 'p, 'b set) index_op" where
  "device_reclaimable_block_ids = device_reclaimable_block_ids' True"

definition device_freeable_blocks :: "('b, 'p, int) index_op" where
  "device_freeable_blocks = bindE device_freeable_block_ids (\<lambda>F. retE (int (card F)))"

definition device_reclaimable_blocks :: "('b, 'p, int) index_op" where
  "device_reclaimable_blocks = bindE device_reclaimable_block_ids (\<lambda>F. retE (int (card F)))"

end
