(* ===== verification/Prefix_Control.thy ===== *)
theory Prefix_Control
  imports Prefix_Eviction
begin

text \<open>
  \<open>engine/prefix_cache.py\<close>, the control operations of \<open>RadixPrefixIndex\<close> on a prefix and its subtree,
  its statistics, and the selection of blocks to back up.  A block id stands for its hexadecimal text
  in a response, and a prune record for its dictionary form.  \<open>resident\<close> gives the number of offsets
  a payload retains, if it was compacted; payloads belong to the cache managers.
\<close>

section \<open>Inspection\<close>

record ('b, 'p) block_status =
  st_block_id :: 'b
  st_logical_block_idx :: int
  st_logical_tokens :: int
  st_resident_kv_tokens :: int
  st_ref_count :: int
  st_eviction_priority :: int
  st_child_count :: int
  st_device_child_count :: int
  st_device_present :: bool
  st_host_present :: bool
  st_transfer :: "transfer_kind option"
  st_last_access :: int
  st_prune :: "'p option"

record subtree_summary_result =
  sum_block_count :: int
  sum_referenced :: int
  sum_negative_priority :: int
  sum_leaves :: int

record ('b, 'p) inspection =
  in_matched :: bool
  in_reason :: "string option"
  in_selector_block_count :: int
  in_hit_block_count :: int
  in_hit_len :: int
  in_last_block_id :: "'b option"
  in_path_blocks :: "('b, 'p) block_status list"
  in_subtree :: "subtree_summary_result option"

text \<open>The last prune record on the path to a block.\<close>

definition effective_prune :: "('b, 'p) prefix_index \<Rightarrow> 'b list \<Rightarrow> 'p option" where
  "effective_prune s path =
     foldl (\<lambda>eff b. case Option.bind (get_block s b) (\<lambda>a. prune_record (objs s a)) of None \<Rightarrow> eff | Some r \<Rightarrow> Some r)
       None path"

definition block_status_dict :: "('p \<Rightarrow> nat option) \<Rightarrow> ('b, 'p) prefix_index \<Rightarrow> 'b \<Rightarrow> ('b, 'p) block_status result" where
  "block_status_dict resident s b =
     (case get_block s b of
        None \<Rightarrow> Inl KeyError
      | Some a \<Rightarrow>
          let k = objs s a
          in bindR (path_to_block (backend s) b) (\<lambda>path.
             bindR (index_child_count s b) (\<lambda>cc.
             bindR (device_child_count s b) (\<lambda>dcc.
               Inr \<lparr>st_block_id = b, st_logical_block_idx = logical_block_idx k,
                    st_logical_tokens = block_tokens k,
                    st_resident_kv_tokens = (case resident (payload k) of None \<Rightarrow> block_tokens k | Some n \<Rightarrow> int n),
                    st_ref_count = ref_count k, st_eviction_priority = eviction_priority k,
                    st_child_count = cc, st_device_child_count = dcc,
                    st_device_present = device_present (resid k), st_host_present = host_present (resid k),
                    st_transfer = transfer (resid k), st_last_access = last_access k,
                    st_prune = effective_prune s path\<rparr>))))"

definition subtree_summary :: "('b, 'p) prefix_index \<Rightarrow> 'b list \<Rightarrow> subtree_summary_result result" where
  "subtree_summary s ids =
     (let existing = List.map_filter (get_block s) ids
      in bindR (mapR (\<lambda>a. index_child_count s (stable_block_id (objs s a))) existing) (\<lambda>counts.
           Inr \<lparr>sum_block_count = int (length existing),
                sum_referenced = int (length (filter (\<lambda>a. ref_count (objs s a) > 0) existing)),
                sum_negative_priority = int (length (filter (\<lambda>a. eviction_priority (objs s a) < 0) existing)),
                sum_leaves = int (length (filter (\<lambda>n. n = 0) counts))\<rparr>))"

definition inspect_ids :: "('p \<Rightarrow> nat option) \<Rightarrow> bool \<Rightarrow> ('b, 'p) prefix_index \<Rightarrow> 'b list \<Rightarrow> ('b, 'p) inspection result" where
  "inspect_ids resident include_subtree s ids =
     (if ids = [] then
        Inr \<lparr>in_matched = False, in_reason = Some ''prefix_shorter_than_block_size'', in_selector_block_count = 0,
             in_hit_block_count = 0, in_hit_len = 0, in_last_block_id = None, in_path_blocks = [], in_subtree = None\<rparr>
      else
        bindR (lookup (backend s) ids (int (length ids))) (\<lambda>r.
        bindR (mapR (block_status_dict resident s) (filter (has_block s) (take (hit_block_count r) ids))) (\<lambda>path_blocks.
        bindR (case (include_subtree, last_block_id r) of
                 (True, Some b) \<Rightarrow> bindR (subtree_block_ids (backend s) b) (\<lambda>sub. bindR (subtree_summary s sub) (\<lambda>u. Inr (Some u)))
               | _ \<Rightarrow> Inr None) (\<lambda>subtree.
          Inr \<lparr>in_matched = (hit_block_count r > 0), in_reason = None, in_selector_block_count = int (length ids),
               in_hit_block_count = int (hit_block_count r), in_hit_len = int (hit_block_count r) * block_size s,
               in_last_block_id = last_block_id r, in_path_blocks = path_blocks, in_subtree = subtree\<rparr>))))"

definition inspect_prefix ::
  "(bytes \<Rightarrow> bytes) \<Rightarrow> ('p \<Rightarrow> nat option) \<Rightarrow> int list \<Rightarrow> bool \<Rightarrow> (bytes, 'p, (bytes, 'p) inspection) index_op" where
  "inspect_prefix sha resident ts include_subtree =
     thenE (modifyE (\<lambda>s. s\<lparr>control_inspect_requests := control_inspect_requests s + 1\<rparr>))
       (bindE (block_ids_for_tokens sha ts None) (\<lambda>ids. queryE (\<lambda>s. inspect_ids resident include_subtree s ids)))"

section \<open>Deleting a subtree\<close>

definition exact_subtree_ids :: "('b, 'p) prefix_index \<Rightarrow> 'b list \<Rightarrow> 'b list option result" where
  "exact_subtree_ids s ids =
     (if ids = [] then Inr None
      else bindR (lookup (backend s) ids (int (length ids))) (\<lambda>r.
        case last_block_id r of
          None \<Rightarrow> Inr None
        | Some b \<Rightarrow>
            if hit_block_count r \<noteq> length ids then Inr None
            else bindR (subtree_block_ids (backend s) b) (\<lambda>sub. Inr (Some sub))))"

definition exact_subtree_ids_for_tokens ::
  "(bytes \<Rightarrow> bytes) \<Rightarrow> int list \<Rightarrow> (bytes, 'p, bytes list option) index_op" where
  "exact_subtree_ids_for_tokens sha ts =
     bindE (block_ids_for_tokens sha ts None) (\<lambda>ids. queryE (\<lambda>s. exact_subtree_ids s ids))"

type_synonym 'b blocked_block = "'b option \<times> string"

text \<open>Why a block of the subtree is not deleted; \<open>None\<close> if nothing stands against it.\<close>

definition blocked_reason :: "('b, 'p) prefix_index \<Rightarrow> 'b set \<Rightarrow> 'b \<Rightarrow> ('b, 'p) cache_block \<Rightarrow> string option result" where
  "blocked_reason s planned b k =
     (if ref_count k > 0 then Inr (Some ''referenced'')
      else if eviction_priority k < 0 then Inr (Some ''negative_priority'')
      else if transfer (resid k) \<noteq> None then Inr (Some ''transfer_inflight'')
      else bindR (child_block_ids (backend s) b) (\<lambda>cs.
        Inr (if \<exists>c\<in>set cs. c \<notin> planned then Some ''has_children'' else None)))"

fun preview_loop ::
  "('b, 'p) prefix_index \<Rightarrow> 'b list \<Rightarrow> nat list \<Rightarrow> 'b blocked_block list \<Rightarrow> 'b set \<Rightarrow>
   (nat list \<times> 'b blocked_block list) result" where
  "preview_loop s [] deleted blocked planned = Inr (deleted, blocked)"
| "preview_loop s (b # bs) deleted blocked planned =
     (case get_block s b of
        None \<Rightarrow> preview_loop s bs deleted blocked planned
      | Some a \<Rightarrow>
          bindR (blocked_reason s planned b (objs s a)) (\<lambda>reason.
            case reason of
              Some why \<Rightarrow> preview_loop s bs deleted (blocked @ [(Some b, why)]) planned
            | None \<Rightarrow> preview_loop s bs (deleted @ [a]) blocked (insert b planned)))"

text \<open>Deepest blocks first; \<open>sorted(\<dots>, reverse=True)\<close> keeps the order of blocks of equal depth.\<close>

definition preview_ids :: "('b, 'p) prefix_index \<Rightarrow> 'b list \<Rightarrow> (nat list \<times> 'b blocked_block list) result" where
  "preview_ids s sub =
     bindR (mapR (\<lambda>b. bindR (path_to_block (backend s) b) (\<lambda>path. Inr (b, length path))) sub) (\<lambda>depths.
       preview_loop s (map fst (sort_key (\<lambda>(b, n). - int n) depths)) [] [] {})"

definition preview_delete_subtree ::
  "(bytes \<Rightarrow> bytes) \<Rightarrow> int list \<Rightarrow> (bytes, 'p, nat list \<times> bytes blocked_block list) index_op" where
  "preview_delete_subtree sha ts =
     bindE (exact_subtree_ids_for_tokens sha ts) (\<lambda>sub.
       case sub of
         None \<Rightarrow> retE ([], [(None, ''not_found'')])
       | Some ids \<Rightarrow> queryE (\<lambda>s. preview_ids s ids))"

fun delete_loop :: "nat list \<Rightarrow> nat list \<Rightarrow> ('b::linorder, 'p, nat list) index_op" where
  "delete_loop [] deleted s = (Inr deleted, s)"
| "delete_loop (a # as) deleted s =
     (let b = stable_block_id (objs s a)
      in if get_block s b \<noteq> Some a then (Inl RuntimeError, s)
         else case remove_block_from_index b s of
           (Inl e, s1) \<Rightarrow> (Inl e, s1)
         | (Inr a1, s1) \<Rightarrow> delete_loop as (deleted @ [a1]) (s1\<lparr>deleted_blocks := deleted_blocks s1 + 1\<rparr>))"

definition safe_delete_subtree ::
  "(bytes \<Rightarrow> bytes) \<Rightarrow> int list \<Rightarrow> (bytes, 'p, nat list \<times> bytes blocked_block list) index_op" where
  "safe_delete_subtree sha ts =
     thenE (modifyE (\<lambda>s. s\<lparr>control_delete_requests := control_delete_requests s + 1\<rparr>))
       (bindE (preview_delete_subtree sha ts) (\<lambda>(planned, blocked).
          bindE (delete_loop planned []) (\<lambda>deleted. retE (deleted, blocked))))"

section \<open>Eviction priority of a subtree\<close>

record 'b priority_result =
  pr_matched :: bool
  pr_reason :: "string option"
  pr_root_block_id :: "'b option"
  pr_updated_block_count :: int
  pr_eviction_priority :: int

text \<open>The loop returns the count and whether anything, and whether any capacity, changed.\<close>

fun priority_loop :: "int \<Rightarrow> 'b list \<Rightarrow> int \<Rightarrow> bool \<Rightarrow> bool \<Rightarrow> ('b, 'p, int \<times> bool \<times> bool) index_op" where
  "priority_loop priority [] n changed capacity_changed s = (Inr (n, changed, capacity_changed), s)"
| "priority_loop priority (b # bs) n changed capacity_changed s =
     (case get_block s b of
        None \<Rightarrow> priority_loop priority bs n changed capacity_changed s
      | Some a \<Rightarrow>
          let old = eviction_priority (objs s a)
          in if old = priority then priority_loop priority bs (n + 1) changed capacity_changed s
             else
               let s1 = set_block a (\<lambda>k. k\<lparr>eviction_priority := priority\<rparr>) s; crosses = ((old < 0) \<noteq> (priority < 0))
               in thenE (if crosses then refresh_freeable_path (Some b) else retE ())
                    (priority_loop priority bs (n + 1) True (capacity_changed \<or> crosses)) s1)"

definition set_priority_ids :: "int \<Rightarrow> 'b list \<Rightarrow> ('b, 'p, 'b priority_result) index_op" where
  "set_priority_ids priority ids s =
     (let fail = (\<lambda>why. \<lparr>pr_matched = False, pr_reason = Some why, pr_root_block_id = None,
                        pr_updated_block_count = 0, pr_eviction_priority = priority\<rparr>)
      in if ids = [] then (Inr (fail ''prefix_shorter_than_block_size''), s)
         else case lookup (backend s) ids (int (length ids)) of
           Inl e \<Rightarrow> (Inl e, s)
         | Inr r \<Rightarrow>
             (case last_block_id r of
                None \<Rightarrow> (Inr (fail ''not_found''), s)
              | Some rb \<Rightarrow>
                  if hit_block_count r \<noteq> length ids then (Inr (fail ''not_found''), s)
                  else case subtree_block_ids (backend s) rb of
                    Inl e \<Rightarrow> (Inl e, s)
                  | Inr sub \<Rightarrow>
                      bindE (priority_loop priority sub 0 False False) (\<lambda>(n, changed, capacity_changed).
                        thenE (modifyE (\<lambda>s. if capacity_changed then mark_capacity_mutated s
                                             else if changed then mark_mutated s else s))
                          (retE \<lparr>pr_matched = True, pr_reason = None, pr_root_block_id = Some rb,
                                 pr_updated_block_count = n, pr_eviction_priority = priority\<rparr>)) s))"

definition set_subtree_eviction_priority ::
  "(bytes \<Rightarrow> bytes) \<Rightarrow> int list \<Rightarrow> int \<Rightarrow> (bytes, 'p, bytes priority_result) index_op" where
  "set_subtree_eviction_priority sha ts priority =
     thenE (modifyE (\<lambda>s. s\<lparr>control_priority_updates := control_priority_updates s + 1\<rparr>))
       (bindE (block_ids_for_tokens sha ts None) (set_priority_ids priority))"

section \<open>Blocks to back up\<close>

definition add_pending :: "('b, 'p) prefix_index \<Rightarrow> nat list \<Rightarrow> ('b, nat) dict \<Rightarrow> ('b, nat) dict" where
  "add_pending s as pending =
     foldl (\<lambda>d a. if ref_count (objs s a) = 0 then dict_set (stable_block_id (objs s a)) a d else d) pending as"

definition backup_ready :: "('b, 'p) prefix_index \<Rightarrow> 'b \<Rightarrow> nat \<Rightarrow> bool" where
  "backup_ready s b a \<longleftrightarrow> get_block s b = Some a \<and> ref_count (objs s a) = 0 \<and>
     device_present (resid (objs s a)) \<and> \<not> host_present (resid (objs s a)) \<and> transfer (resid (objs s a)) = None"

fun split_pending :: "('b, 'p) prefix_index \<Rightarrow> ('b \<times> nat) list \<Rightarrow> ('b, nat) dict \<Rightarrow> nat list \<Rightarrow> ('b, nat) dict \<times> nat list" where
  "split_pending s [] pending candidates = (pending, candidates)"
| "split_pending s ((b, a) # xs) pending candidates =
     (if backup_ready s b a then split_pending s xs pending (candidates @ [a])
      else split_pending s xs (dict_pop b pending) candidates)"

definition parent_ready :: "('b, 'p) prefix_index \<Rightarrow> 'b set \<Rightarrow> ('b, 'p) cache_block \<Rightarrow> bool" where
  "parent_ready s selected_ids k =
     (case parent_block_id k of
        None \<Rightarrow> True
      | Some p \<Rightarrow>
          (case get_block s p of
             None \<Rightarrow> False
           | Some q \<Rightarrow> host_present (resid (objs s q)) \<or> transfer (resid (objs s q)) = Some D2H \<or>
                      stable_block_id (objs s q) \<in> selected_ids))"

fun select_loop :: "('b, 'p) prefix_index \<Rightarrow> nat list \<Rightarrow> nat list \<Rightarrow> 'b set \<Rightarrow> nat list" where
  "select_loop s [] selected selected_ids = selected"
| "select_loop s (a # as) selected selected_ids =
     (if parent_ready s selected_ids (objs s a)
      then select_loop s as (selected @ [a]) (insert (stable_block_id (objs s a)) selected_ids)
      else select_loop s as selected selected_ids)"

definition select_write_through_candidates ::
  "('b, 'p) prefix_index \<Rightarrow> ('b, nat) dict \<Rightarrow> nat list option \<Rightarrow> nat list \<times> ('b, nat) dict" where
  "select_write_through_candidates s pending newly_unreferenced =
     (let newly = (case newly_unreferenced of None \<Rightarrow> map snd (blocks s) | Some as \<Rightarrow> as);
          pending1 = add_pending s newly pending;
          (pending2, candidates) = split_pending s pending1 pending1 [];
          ordered = sort_key (\<lambda>a. (logical_block_idx (objs s a), last_access (objs s a))) candidates
      in (select_loop s ordered [] {}, pending2))"

section \<open>Statistics\<close>

definition count_blocks :: "('b, 'p) prefix_index \<Rightarrow> (('b, 'p) cache_block \<Rightarrow> bool) \<Rightarrow> int" where
  "count_blocks s P = int (length (filter (\<lambda>(b, a). P (objs s a)) (blocks s)))"

text \<open>
  The capacity figures are queried while the dictionary is built, so the scan counters listed after
  them already include these queries.
\<close>

definition index_stats :: "('b, 'p, (string, int) dict) index_op" where
  "index_stats =
     bindE (queryE (\<lambda>s. radix_stats (backend s))) (\<lambda>(nodes, edges).
     bindE device_freeable_blocks (\<lambda>device_freeable.
     bindE freeable_blocks (\<lambda>freeable s.
       (Inr [(''prefix_cache_lookup_requests'', lookup_requests s),
             (''prefix_cache_block_id_generation_requests'', block_id_generation_requests s),
             (''prefix_cache_hit_requests'', hit_requests s),
             (''prefix_cache_hit_tokens'', hit_tokens s),
             (''prefix_cache_hit_blocks'', hit_blocks s),
             (''prefix_cache_committed_blocks'', committed_blocks s),
             (''prefix_cache_duplicate_commits'', duplicate_commits s),
             (''prefix_cache_deleted_blocks'', deleted_blocks s),
             (''prefix_cache_evicted_blocks'', evicted_blocks s),
             (''prefix_cache_device_demoted_blocks'', device_demoted_blocks s),
             (''prefix_cache_host_evicted_blocks'', host_evicted_blocks s),
             (''prefix_cache_live_blocks'', num_blocks s),
             (''prefix_cache_device_blocks'', count_blocks s (\<lambda>k. device_present (resid k))),
             (''prefix_cache_host_blocks'', count_blocks s (\<lambda>k. host_present (resid k))),
             (''prefix_cache_inflight_transfers'', count_blocks s (\<lambda>k. transfer (resid k) \<noteq> None)),
             (''prefix_cache_device_freeable_blocks'', device_freeable),
             (''prefix_cache_referenced_blocks'', count_blocks s (\<lambda>k. ref_count k > 0)),
             (''prefix_cache_negative_priority_blocks'', count_blocks s (\<lambda>k. eviction_priority k < 0)),
             (''prefix_cache_leaf_blocks'', int (card (leaf_block_ids (backend s)))),
             (''prefix_cache_freeable_blocks'', freeable),
             (''prefix_cache_control_inspect_requests'', control_inspect_requests s),
             (''prefix_cache_control_delete_requests'', control_delete_requests s),
             (''prefix_cache_control_priority_updates'', control_priority_updates s),
             (''prefix_cache_mutation_epoch'', mutation_epoch s),
             (''prefix_cache_capacity_epoch'', capacity_epoch s),
             (''prefix_cache_lookup_epoch'', lookup_epoch s),
             (''prefix_cache_insert_epoch'', insert_epoch s),
             (''prefix_cache_remove_epoch'', remove_epoch s),
             (''prefix_cache_freeable_scans'', freeable_scans s),
             (''prefix_cache_freeable_snapshot_builds'', freeable_snapshot_builds s),
             (''prefix_cache_freeable_cache_hits'', freeable_cache_hits s),
             (''prefix_cache_evictable_scans'', evictable_scans s),
             (''prefix_cache_evictable_cache_hits'', evictable_cache_hits s),
             (''prefix_cache_device_reclaimable_scans'', device_reclaimable_scans s),
             (''prefix_cache_device_reclaimable_cache_hits'', device_reclaimable_cache_hits s),
             (''prefix_cache_tree_nodes'', nodes),
             (''prefix_cache_tree_edges'', edges)], s))))"

end
