(* ===== verification/Forest_Peeling.thy ===== *)
theory Forest_Peeling
  imports Block_Forest
begin

text \<open>
  Peeling a forest from its leaves: which blocks can be taken away by repeatedly removing a leaf
  that satisfies a local condition.  \<open>free_set\<close> is the specification (every descendant satisfies the
  condition), \<open>peel_turn\<close> a turn of the counting work-list algorithm that two capacity scans of the
  prefix index share, and \<open>consistent\<close> the local equations that the index maintains incrementally.
\<close>

definition forest_ok :: "('b \<rightharpoonup> 'b option) \<Rightarrow> bool" where
  "forest_ok par \<longleftrightarrow> finite (dom par) \<and> wf {(a, b). par b = Some (Some a)} \<and>
     (\<forall>a b. par b = Some (Some a) \<longrightarrow> par a \<noteq> None)"

lemma block_parent_forest: "radix_ok R \<Longrightarrow> forest_ok (block_parent R)"
  unfolding forest_ok_def
  by (intro conjI allI impI) (rule block_parent_finite block_parent_wf block_parent_closed; assumption)+

abbreviation kids_of :: "('b \<rightharpoonup> 'b option) \<Rightarrow> 'b \<Rightarrow> 'b set" where
  "kids_of par b \<equiv> {c. par c = Some (Some b)}"

definition free_set :: "('b \<rightharpoonup> 'b option) \<Rightarrow> ('b \<Rightarrow> bool) \<Rightarrow> 'b set" where
  "free_set par good = {b \<in> dom par. \<forall>c. (b, c) \<in> descends par \<longrightarrow> good c}"

lemma forest_finite: "forest_ok par \<Longrightarrow> finite (dom par)"
  by (simp add: forest_ok_def)

lemma forest_up: "forest_ok par \<Longrightarrow> par b = Some (Some p) \<Longrightarrow> p \<in> dom par"
  by (auto simp: forest_ok_def)

lemma kids_sub: "kids_of par b \<subseteq> dom par"
  by auto

lemma kids_finite: "forest_ok par \<Longrightarrow> finite (kids_of par b)"
  by (rule finite_subset [OF kids_sub forest_finite])

lemma forest_wf_down: "forest_ok par \<Longrightarrow> wf ({(a, b). par b = Some (Some a)}\<inverse>)"
proof (rule finite_acyclic_wf_converse)
  assume "forest_ok par"
  then show "acyclic {(a, b). par b = Some (Some a)}" by (simp add: forest_ok_def wf_acyclic)
  have "{(a, b). par b = Some (Some a)} \<subseteq> dom par \<times> dom par"
    using \<open>forest_ok par\<close> by (auto simp: forest_ok_def)
  then show "finite {(a, b). par b = Some (Some a)}"
    using forest_finite [OF \<open>forest_ok par\<close>] by (meson finite_SigmaI finite_subset)
qed

lemma free_set_step:
  assumes "forest_ok par"
  shows "b \<in> free_set par good \<longleftrightarrow> b \<in> dom par \<and> good b \<and> kids_of par b \<subseteq> free_set par good"
proof -
  have "(b, c) \<in> descends par \<longleftrightarrow> c = b \<or> (\<exists>d\<in>kids_of par b. (d, c) \<in> descends par)" for c
    unfolding descends_def
    by (auto elim: converse_rtranclE intro: converse_rtrancl_into_rtrancl)
  then show ?thesis by (auto simp: free_set_def)
qed

text \<open>The local equations have one solution.\<close>

lemma free_set_unique:
  assumes f: "forest_ok par" and sub: "F \<subseteq> dom par"
    and eqs: "\<And>b. b \<in> dom par \<Longrightarrow> b \<in> F \<longleftrightarrow> good b \<and> kids_of par b \<subseteq> F"
  shows "F = free_set par good"
proof -
  have "b \<in> dom par \<Longrightarrow> b \<in> F \<longleftrightarrow> b \<in> free_set par good" for b
  proof (induction b rule: wf_induct_rule [OF forest_wf_down [OF f]])
    case (1 b)
    have "kids_of par b \<subseteq> F \<longleftrightarrow> kids_of par b \<subseteq> free_set par good"
      using 1(1) by fastforce
    then show ?case using eqs [OF 1(2)] free_set_step [OF f, of b good] 1(2) by blast
  qed
  moreover have "free_set par good \<subseteq> dom par" by (auto simp: free_set_def)
  ultimately show ?thesis using sub by blast
qed

lemma free_set_cong:
  assumes "forest_ok par" and "\<And>b. b \<in> dom par \<Longrightarrow> good b \<longleftrightarrow> good' b"
  shows "free_set par good = free_set par good'"
proof (rule free_set_unique [OF assms(1)])
  show "free_set par good \<subseteq> dom par" by (auto simp: free_set_def)
  show "b \<in> free_set par good \<longleftrightarrow> good' b \<and> kids_of par b \<subseteq> free_set par good" if "b \<in> dom par" for b
    using free_set_step [OF assms(1), of b good] assms(2) [OF that] that by blast
qed

section \<open>Chains in a forest\<close>

lemma chain_dom: "chain par prev xs \<Longrightarrow> set xs \<subseteq> dom par"
  by (induction xs arbitrary: prev) auto

lemma chain_distinct:
  assumes "chain par None xs"
  shows "distinct xs"
proof -
  have "i = j" if "i < length xs" "j < length xs" "xs ! i = xs ! j" for i j
  proof -
    have "take (Suc i) xs = take (Suc j) xs"
    proof (rule chain_unique)
      show "chain par None (take (Suc i) xs)" "chain par None (take (Suc j) xs)"
        using assms chain_append [of par None "take (Suc i) xs" "drop (Suc i) xs"]
          chain_append [of par None "take (Suc j) xs" "drop (Suc j) xs"] by simp_all
      show "last (take (Suc i) xs) = last (take (Suc j) xs)"
        using that by (simp add: take_Suc_conv_app_nth)
    qed (use that in auto)
    from arg_cong [OF this, of length] show "i = j" using that by simp
  qed
  then show ?thesis by (auto simp: distinct_conv_nth)
qed

lemma chain_length: "chain par None xs \<Longrightarrow> finite (dom par) \<Longrightarrow> length xs \<le> card (dom par)"
  by (metis card_mono chain_distinct chain_dom distinct_card)

lemma chain_exists:
  assumes f: "forest_ok par"
  shows "b \<in> dom par \<Longrightarrow> \<exists>xs. chain par None (xs @ [b])"
proof (induction b rule: wf_induct_rule [OF conjunct1 [OF conjunct2 [OF f [unfolded forest_ok_def]]]])
  case (1 b)
  then obtain p where p: "par b = Some p" by blast
  show ?case
  proof (cases p)
    case None
    then show ?thesis using p by (intro exI [of _ "[]"]) simp
  next
    case (Some a)
    then have "a \<in> dom par" using f p by (auto simp: forest_ok_def)
    then obtain xs where "chain par None (xs @ [a])" using 1(1) [of a] p Some by auto
    then have "chain par None ((xs @ [a]) @ [b])" using p Some by (simp add: chain_append)
    then show ?thesis by blast
  qed
qed

section \<open>The counting work list\<close>

text \<open>\<open>counts\<close>: the number of children outside \<open>F\<close> of every block.\<close>

definition counts :: "('b \<rightharpoonup> 'b option) \<Rightarrow> 'b set \<Rightarrow> 'b \<rightharpoonup> int" where
  "counts par F b = (if b \<in> dom par then Some (int (card (kids_of par b - F))) else None)"

lemma counts_zero: "forest_ok par \<Longrightarrow> counts par F b = Some 0 \<longleftrightarrow> b \<in> dom par \<and> kids_of par b \<subseteq> F"
  using kids_finite [of par b] by (auto simp: counts_def)

lemma counts_insert:
  assumes f: "forest_ok par" and b: "b \<notin> F"
  shows "counts par (insert b F) =
    (case par b of Some (Some p) \<Rightarrow> (counts par F)(p \<mapsto> the (counts par F p) - 1) | _ \<Rightarrow> counts par F)"
proof -
  have same: "counts par (insert b F) x = counts par F x" if "par b \<noteq> Some (Some x)" for x
  proof -
    have "kids_of par x - insert b F = kids_of par x - F" using that by auto
    then show ?thesis by (simp add: counts_def)
  qed
  have down: "counts par (insert b F) p = Some (the (counts par F p) - 1)" if p: "par b = Some (Some p)" for p
  proof -
    have "p \<in> dom par" using f p by (auto simp: forest_ok_def)
    moreover have "kids_of par p - insert b F = (kids_of par p - F) - {b}" "b \<in> kids_of par p - F" using b p by auto
    then have "card (kids_of par p - F) = Suc (card (kids_of par p - insert b F))"
      using kids_finite [OF f, of p] card.remove [of "kids_of par p - F" b] by auto
    ultimately show ?thesis by (simp add: counts_def)
  qed
  show ?thesis
    by (rule ext) (auto simp: same down split: option.splits)
qed

lemma counts_last:
  assumes f: "forest_ok par" and b: "b \<notin> F" and p: "par b = Some (Some p)"
  shows "the (counts par F p) - 1 = 0 \<longleftrightarrow> kids_of par p \<subseteq> insert b F"
proof -
  have "p \<in> dom par" using f p by (auto simp: forest_ok_def)
  then show ?thesis
    using counts_zero [OF f, of "insert b F" p] counts_insert [OF f b] p by (auto simp: counts_def)
qed

text \<open>
  One turn of a work-list loop \<open>L\<close> that takes the last block of the list, and, if it satisfies the
  condition, counts its parent down and queues it when no child is left.
\<close>

definition peel_turn ::
  "('b \<rightharpoonup> 'b option) \<Rightarrow> ('b \<Rightarrow> bool) \<Rightarrow> ('b list \<Rightarrow> 'b set \<Rightarrow> ('b \<rightharpoonup> int) \<Rightarrow> 'r) \<Rightarrow>
   'b list \<Rightarrow> 'b \<Rightarrow> 'b set \<Rightarrow> ('b \<rightharpoonup> int) \<Rightarrow> 'r" where
  "peel_turn par good L ys b F cnt =
     (if \<not> good b then L ys F cnt
      else case par b of
        Some (Some p) \<Rightarrow>
          L (if the (cnt p) - 1 = 0 then ys @ [p] else ys) (insert b F) (cnt(p \<mapsto> the (cnt p) - 1))
      | _ \<Rightarrow> L ys (insert b F) cnt)"

text \<open>
  The loop invariant: \<open>P\<close> are the blocks already taken from the list, those of them that satisfy the
  condition form \<open>F\<close>; the list and \<open>P\<close> are exactly the blocks all of whose children are in \<open>F\<close>.
\<close>

definition peel_inv :: "('b \<rightharpoonup> 'b option) \<Rightarrow> ('b \<Rightarrow> bool) \<Rightarrow> 'b list \<Rightarrow> 'b set \<Rightarrow> 'b set \<Rightarrow> bool" where
  "peel_inv par good st F P \<longleftrightarrow>
     distinct st \<and> set st \<inter> P = {} \<and> P \<subseteq> dom par \<and> F = {b \<in> P. good b} \<and>
     set st \<union> P = {b \<in> dom par. kids_of par b \<subseteq> F}"

lemma peel_invD:
  assumes "peel_inv par good st F P"
  shows "distinct st" "set st \<inter> P = {}" "P \<subseteq> dom par" "F = {b \<in> P. good b}"
    "set st \<union> P = {b \<in> dom par. kids_of par b \<subseteq> F}"
proof -
  note inv = assms [unfolded peel_inv_def]
  show "distinct st" by (rule conjunct1 [OF inv])
  note inv = conjunct2 [OF inv]
  show "set st \<inter> P = {}" by (rule conjunct1 [OF inv])
  note inv = conjunct2 [OF inv]
  show "P \<subseteq> dom par" by (rule conjunct1 [OF inv])
  note inv = conjunct2 [OF inv]
  show "F = {b \<in> P. good b}" by (rule conjunct1 [OF inv])
  show "set st \<union> P = {b \<in> dom par. kids_of par b \<subseteq> F}" by (rule conjunct2 [OF inv])
qed

lemma peel_inv_step:
  assumes f: "forest_ok par" and inv: "peel_inv par good (st @ [b]) F P" and good: "good b"
  shows "peel_inv par good
    (case par b of Some (Some p) \<Rightarrow> if kids_of par p \<subseteq> insert b F then st @ [p] else st | _ \<Rightarrow> st)
    (insert b F) (insert b P)"
proof -
  have b: "b \<in> dom par" "b \<notin> P" "b \<notin> F" "kids_of par b \<subseteq> F" "b \<notin> set st"
    using peel_invD [OF inv] by auto
  have same: "kids_of par x \<subseteq> insert b F \<longleftrightarrow> kids_of par x \<subseteq> F" if "par b \<noteq> Some (Some x)" for x
    using that by auto
  have F: "insert b F = {x \<in> insert b P. good x}" using peel_invD(4) [OF inv] good by auto
  have P: "insert b P \<subseteq> dom par" using peel_invD(3) [OF inv] b by auto
  have dis: "distinct st" "set st \<inter> insert b P = {}" using peel_invD(1,2) [OF inv] b by auto
  have cov: "set st \<union> insert b P = {x \<in> dom par. kids_of par x \<subseteq> F}" using peel_invD(5) [OF inv] by auto
  show ?thesis
  proof (cases "\<exists>p. par b = Some (Some p)")
    case True
    then obtain p where p: "par b = Some (Some p)" by blast
    have "\<not> kids_of par p \<subseteq> F" using p b(3) by auto
    then have pn: "p \<notin> set st \<union> insert b P" unfolding cov by blast
    have pd: "p \<in> dom par" using f p by (auto simp: forest_ok_def)
    have "{x \<in> dom par. kids_of par x \<subseteq> insert b F} =
        (set st \<union> insert b P) \<union> (if kids_of par p \<subseteq> insert b F then {p} else {})"
    proof (intro set_eqI)
      show "x \<in> {x \<in> dom par. kids_of par x \<subseteq> insert b F} \<longleftrightarrow>
          x \<in> (set st \<union> insert b P) \<union> (if kids_of par p \<subseteq> insert b F then {p} else {})" for x
        unfolding cov using same [of x] p pd \<open>\<not> kids_of par p \<subseteq> F\<close> by (cases "x = p") auto
    qed
    then show ?thesis
      unfolding peel_inv_def using F P dis p pn by (auto split: if_splits)
  next
    case False
    then have "{x \<in> dom par. kids_of par x \<subseteq> insert b F} = set st \<union> insert b P"
      unfolding cov using same by auto
    then show ?thesis
      unfolding peel_inv_def using F P dis False by (auto split: option.splits)
  qed
qed

lemma peel_done: "forest_ok par \<Longrightarrow> peel_inv par good [] F P \<Longrightarrow> F = free_set par good"
proof (rule free_set_unique)
  assume inv: "peel_inv par good [] F P"
  note F = peel_invD(4) [OF inv] and P = peel_invD(5) [OF inv]
  show "F \<subseteq> dom par" using F peel_invD(3) [OF inv] by blast
  show "b \<in> F \<longleftrightarrow> good b \<and> kids_of par b \<subseteq> F" if "b \<in> dom par" for b
  proof -
    have "b \<in> P \<longleftrightarrow> kids_of par b \<subseteq> F" using that equalityD1 [OF P] equalityD2 [OF P] by auto
    moreover have "b \<in> F \<longleftrightarrow> b \<in> P \<and> good b" using equalityD1 [OF F] equalityD2 [OF F] by auto
    ultimately show ?thesis by blast
  qed
qed

lemma peel_correct:
  assumes f: "forest_ok par"
    and nil: "\<And>fuel F cnt. L fuel [] F cnt = Inr (out F cnt)"
    and turn: "\<And>fuel ys b F cnt. b \<in> dom par \<Longrightarrow> b \<notin> F \<Longrightarrow> dom cnt = dom par \<Longrightarrow>
      L (Suc fuel) (ys @ [b]) F cnt = peel_turn par good (L fuel) ys b F cnt"
  shows "peel_inv par good st F P \<Longrightarrow> card (dom par) \<le> card P + fuel \<Longrightarrow>
    L fuel st F (counts par F) = Inr (out (free_set par good) (counts par (free_set par good)))"
proof (induction fuel arbitrary: st F P)
  case 0
  have "P = dom par"
    using 0(2) card_seteq [OF forest_finite [OF f] peel_invD(3) [OF 0(1)]] by simp
  moreover have "set st \<subseteq> dom par" using equalityD1 [OF peel_invD(5) [OF 0(1)]] by auto
  ultimately have "set st = {}" using peel_invD(2) [OF 0(1)] by (metis inf.absorb1)
  then have st: "st = []" by simp
  show ?case using peel_done [OF f 0(1) [unfolded st]] by (simp add: st nil)
next
  case (Suc fuel)
  show ?case
  proof (cases st rule: rev_cases)
    case Nil
    then show ?thesis using peel_done [OF f Suc.prems(1) [unfolded Nil]] by (simp add: nil)
  next
    case (snoc ys b)
    note inv = peel_invD [OF Suc.prems(1) [unfolded snoc]]
    have b: "b \<in> dom par" "b \<notin> P" using inv(2) equalityD1 [OF inv(5)] by auto
    have bF: "b \<notin> F" using b(2) equalityD1 [OF inv(4)] by auto
    have finP: "finite P" by (rule finite_subset [OF inv(3) forest_finite [OF f]])
    have card: "card (dom par) \<le> card (insert b P) + fuel" using Suc.prems(2) b finP by simp
    have "dom (counts par F) = dom par" by (auto simp: counts_def split: if_splits)
    note run = turn [OF b(1) bF this, of fuel ys, unfolded peel_turn_def, folded snoc]
    show ?thesis
    proof (cases "good b")
      case True
      note IH = Suc.IH [OF peel_inv_step [OF f Suc.prems(1) [unfolded snoc] True] card]
      show ?thesis
      proof (cases "\<exists>p. par b = Some (Some p)")
        case p: True
        then obtain p where p: "par b = Some (Some p)" by blast
        have "counts par (insert b F) = (counts par F)(p \<mapsto> the (counts par F p) - 1)"
          using counts_insert [OF f bF] p by simp
        then show ?thesis using IH counts_last [OF f bF p] p unfolding run
          by (cases "kids_of par p \<subseteq> insert b F") (simp_all add: True del: fun_upd_apply)
      next
        case False
        then have "counts par (insert b F) = counts par F" using counts_insert [OF f bF] by (auto split: option.splits)
        then show ?thesis using IH False unfolding run by (auto simp: True split: option.splits)
      qed
    next
      case False
      have "F = {x \<in> insert b P. good x}" using inv(4) False by auto
      moreover have "set ys \<union> insert b P = {x \<in> dom par. kids_of par x \<subseteq> F}" using inv(5) by auto
      ultimately have "peel_inv par good ys F (insert b P)"
        unfolding peel_inv_def using inv(1-3) b(1) by (intro conjI) auto
      from Suc.IH [OF this card] False show ?thesis unfolding run by simp
    qed
  qed
qed

lemma peel_from_leaves:
  assumes f: "forest_ok par"
    and "\<And>fuel F cnt. L fuel [] F cnt = Inr (out F cnt)"
    and "\<And>fuel ys b F cnt. b \<in> dom par \<Longrightarrow> b \<notin> F \<Longrightarrow> dom cnt = dom par \<Longrightarrow>
      L (Suc fuel) (ys @ [b]) F cnt = peel_turn par good (L fuel) ys b F cnt"
    and st: "distinct st" "set st = {b \<in> dom par. kids_of par b = {}}"
    and fuel: "card (dom par) \<le> fuel"
  shows "L fuel st {} (counts par {}) = Inr (out (free_set par good) (counts par (free_set par good)))"
  by (rule peel_correct [where L=L and out=out and P="{}", OF assms(1-3)]) (use st fuel in \<open>auto simp: peel_inv_def\<close>)

section \<open>The local equations\<close>

definition consistent :: "('b \<rightharpoonup> 'b option) \<Rightarrow> ('b \<Rightarrow> bool) \<Rightarrow> 'b set \<Rightarrow> ('b \<rightharpoonup> int) \<Rightarrow> bool" where
  "consistent par good F cnt \<longleftrightarrow> F = free_set par good \<and> cnt = counts par F"

text \<open>The equations hold everywhere but possibly at one block.\<close>

definition consistent_but :: "'b \<Rightarrow> ('b \<rightharpoonup> 'b option) \<Rightarrow> ('b \<Rightarrow> bool) \<Rightarrow> 'b set \<Rightarrow> ('b \<rightharpoonup> int) \<Rightarrow> bool" where
  "consistent_but x par good F cnt \<longleftrightarrow> F \<subseteq> dom par \<and> cnt = counts par F \<and>
     (\<forall>b\<in>dom par. b \<noteq> x \<longrightarrow> (b \<in> F \<longleftrightarrow> good b \<and> kids_of par b \<subseteq> F))"

lemma consistent_but_done:
  assumes "forest_ok par" and "consistent_but x par good F cnt"
    and "x \<in> dom par \<Longrightarrow> x \<in> F \<longleftrightarrow> good x \<and> kids_of par x \<subseteq> F"
  shows "consistent par good F cnt"
proof -
  have "F = free_set par good"
  proof (rule free_set_unique [OF assms(1)])
    show "F \<subseteq> dom par" using assms(2) by (simp add: consistent_but_def)
    show "b \<in> F \<longleftrightarrow> good b \<and> kids_of par b \<subseteq> F" if "b \<in> dom par" for b
      using assms(2,3) that unfolding consistent_but_def by metis
  qed
  then show ?thesis using assms(2) by (simp add: consistent_def consistent_but_def)
qed

lemma consistent_start:
  assumes "forest_ok par" and "consistent par good F cnt" and "\<And>b. b \<in> dom par \<Longrightarrow> b \<noteq> x \<Longrightarrow> good b \<longleftrightarrow> good' b"
  shows "consistent_but x par good' F cnt"
proof -
  have F: "F = free_set par good" "cnt = counts par F" using assms(2) by (simp_all add: consistent_def)
  have "b \<in> F \<longleftrightarrow> good' b \<and> kids_of par b \<subseteq> F" if "b \<in> dom par" "b \<noteq> x" for b
    using free_set_step [OF assms(1), of b good] assms(3) [OF that] that F(1) by simp
  moreover have "F \<subseteq> dom par" unfolding F by (auto simp: free_set_def)
  ultimately show ?thesis using F(2) by (simp add: consistent_but_def)
qed

section \<open>Adding and removing a leaf\<close>

lemma forest_no_kids: "forest_ok par \<Longrightarrow> b \<notin> dom par \<Longrightarrow> kids_of par b = {}"
  using forest_up by fastforce

lemma kids_add_leaf:
  "b \<notin> dom par \<Longrightarrow> kids_of (par(b \<mapsto> p)) x = (if p = Some x then insert b (kids_of par x) else kids_of par x)"
  by auto

lemma counts_add_leaf:
  assumes f: "forest_ok par" and b: "b \<notin> dom par" and p: "\<And>q. p = Some q \<Longrightarrow> q \<in> dom par" and F: "F \<subseteq> dom par"
  shows "counts (par(b \<mapsto> p)) F =
    (case p of None \<Rightarrow> (counts par F)(b \<mapsto> 0) | Some q \<Rightarrow> (counts par F)(b \<mapsto> 0, q \<mapsto> the (counts par F q) + 1))"
proof -
  have bF: "b \<notin> F" using b F by auto
  have kids: "kids_of (par(b \<mapsto> p)) x - F = (if p = Some x then insert b (kids_of par x - F) else kids_of par x - F)" for x
    unfolding kids_add_leaf [OF b] using bF by auto
  have "b \<notin> kids_of par x - F" for x using b by auto
  then have "card (kids_of (par(b \<mapsto> p)) x - F) = card (kids_of par x - F) + (if p = Some x then 1 else 0)" for x
    unfolding kids using kids_finite [OF f, of x] by simp
  moreover have "kids_of par b = {}" "p \<noteq> Some b" using forest_no_kids [OF f b] b p by auto
  ultimately show ?thesis using p by (auto simp: counts_def fun_eq_iff split: option.splits)
qed

text \<open>A leaf that fails the condition, below a block that fails it too, does not matter.\<close>

lemma free_set_add_blocked:
  assumes f: "forest_ok (par(b \<mapsto> p))" "forest_ok par" and b: "b \<notin> dom par" "\<not> good' b"
    and p: "\<And>q. p = Some q \<Longrightarrow> \<not> good q" and good: "\<And>x. x \<in> dom par \<Longrightarrow> good' x \<longleftrightarrow> good x"
  shows "free_set (par(b \<mapsto> p)) good' = free_set par good"
proof -
  have "free_set par good = free_set (par(b \<mapsto> p)) good'"
  proof (rule free_set_unique [OF f(1)])
    show sub: "free_set par good \<subseteq> dom (par(b \<mapsto> p))" by (auto simp: free_set_def)
    fix x assume x: "x \<in> dom (par(b \<mapsto> p))"
    have "b \<notin> free_set par good" using b(1) by (auto simp: free_set_def)
    then show "x \<in> free_set par good \<longleftrightarrow> good' x \<and> kids_of (par(b \<mapsto> p)) x \<subseteq> free_set par good"
      unfolding kids_add_leaf [OF b(1)]
      using x b(2) good [of x] p [of x] free_set_step [OF f(2), of x good] by (cases "x = b") auto
  qed
  then show ?thesis by simp
qed

lemma kids_drop_leaf: "kids_of par b = {} \<Longrightarrow> kids_of (par(b := None)) x = kids_of par x - {b}"
  by auto

lemma counts_drop_leaf:
  assumes f: "forest_ok par" and b: "kids_of par b = {}"
  shows "counts (par(b := None)) (F - {b}) =
    (if b \<in> F then (counts par F)(b := None)
     else case par b of Some (Some q) \<Rightarrow> (counts par F)(b := None, q \<mapsto> the (counts par F q) - 1)
       | _ \<Rightarrow> (counts par F)(b := None))"
proof -
  have "kids_of (par(b := None)) x - (F - {b}) = (kids_of par x - F) - {b}" for x
    unfolding kids_drop_leaf [OF b] by auto
  then have c: "card (kids_of (par(b := None)) x - (F - {b})) =
      (if b \<notin> F \<and> par b = Some (Some x) then card (kids_of par x - F) - 1 else card (kids_of par x - F))" for x
    using kids_finite [OF f, of x] by (auto simp: card_Diff_singleton_if)
  have pos: "0 < card (kids_of par x - F)" if "b \<notin> F" "par b = Some (Some x)" for x
    using that kids_finite [OF f, of x] by (auto simp: card_gt_0_iff)
  have val: "counts (par(b := None)) (F - {b}) x = (if x \<in> dom par \<and> x \<noteq> b
      then Some (int (if b \<notin> F \<and> par b = Some (Some x) then card (kids_of par x - F) - 1 else card (kids_of par x - F)))
      else None)" for x
    unfolding counts_def c by simp
  show ?thesis
    unfolding fun_eq_iff val using pos forest_up [OF f, of b] b
    by (auto simp: counts_def of_nat_diff Suc_le_eq split: option.splits)
qed

lemma forest_drop_leaf:
  assumes f: "forest_ok par" and b: "kids_of par b = {}"
  shows "forest_ok (par(b := None))"
proof -
  have "{(x, y). (par(b := None)) y = Some (Some x)} \<subseteq> {(x, y). par y = Some (Some x)}" by (auto split: if_splits)
  moreover have "finite (dom par)" "wf {(x, y). par y = Some (Some x)}" using f by (simp_all add: forest_ok_def)
  moreover have "(par(b := None)) x \<noteq> None" if "(par(b := None)) y = Some (Some x)" for x y
    using that b forest_up [OF f, of y x] by (auto split: if_splits)
  ultimately show ?thesis unfolding forest_ok_def by (simp add: wf_subset)
qed

text \<open>A leaf that satisfies the condition is free, and taking it away leaves the others as they are.\<close>

lemma free_set_drop_leaf:
  assumes f: "forest_ok par" and b: "b \<in> dom par" "kids_of par b = {}" "good b"
    and good: "\<And>x. x \<in> dom par \<Longrightarrow> x \<noteq> b \<Longrightarrow> good' x \<longleftrightarrow> good x"
  shows "b \<in> free_set par good" "free_set (par(b := None)) good' = free_set par good - {b}"
proof -
  show free: "b \<in> free_set par good" unfolding free_set_step [OF f, of b] using b by simp
  show "free_set (par(b := None)) good' = free_set par good - {b}"
  proof (rule free_set_unique [symmetric, OF forest_drop_leaf [OF f b(2)]])
    show "free_set par good - {b} \<subseteq> dom (par(b := None))" by (auto simp: free_set_def)
    fix x assume "x \<in> dom (par(b := None))"
    then have x: "x \<in> dom par" "x \<noteq> b" by (auto split: if_splits)
    show "x \<in> free_set par good - {b} \<longleftrightarrow> good' x \<and> kids_of (par(b := None)) x \<subseteq> free_set par good - {b}"
      unfolding kids_drop_leaf [OF b(2)] using free_set_step [OF f, of x good] x good [OF x] free by auto
  qed
qed

text \<open>A set of free blocks that is not empty has a leaf.\<close>

lemma free_set_leaf:
  assumes f: "forest_ok par" and ne: "free_set par good \<noteq> {}"
  shows "\<exists>b\<in>dom par. good b \<and> kids_of par b = {}"
proof -
  obtain x where "x \<in> free_set par good" using ne by blast
  then obtain b where b: "b \<in> free_set par good" "\<And>y. (y, b) \<in> {(a, b). par b = Some (Some a)}\<inverse> \<Longrightarrow> y \<notin> free_set par good"
    using wfE_min [OF forest_wf_down [OF f]] by metis
  have "kids_of par b \<subseteq> free_set par good" using free_set_step [OF f, of b good] b(1) by blast
  then have "kids_of par b = {}" using b(2) by auto
  then show ?thesis using free_set_step [OF f, of b good] b(1) by blast
qed

end
