(* ===== verification/Prefix_Invariant.thy ===== *)
theory Prefix_Invariant
  imports Prefix_Eviction Forest_Peeling
begin

text \<open>
  The invariant of the prefix index and that its operations keep it.  \<open>index_parent\<close> is the forest
  of the indexed blocks; \<open>shape_ok\<close> ties the block dict, the radix tree and the routing membership
  together; \<open>resid_ok\<close> says that residencies are valid and closed towards the root; \<open>free_ok\<close> that
  the incrementally maintained freeable set and counters satisfy their defining equations; and
  \<open>cache_ok\<close> that a capacity view whose epoch is current equals what a scan would compute.
\<close>

section \<open>The invariant\<close>

definition obj_at :: "('b, 'p) prefix_index \<Rightarrow> 'b \<Rightarrow> ('b, 'p) cache_block" where
  "obj_at s b = objs s (the (get_block s b))"

definition index_parent :: "('b, 'p) prefix_index \<Rightarrow> 'b \<rightharpoonup> 'b option" where
  "index_parent s b = map_option (\<lambda>a. parent_block_id (objs s a)) (get_block s b)"

abbreviation good_at :: "('b, 'p) prefix_index \<Rightarrow> 'b \<Rightarrow> bool" where
  "good_at s b \<equiv> locally_free (obj_at s b)"

definition shape_ok :: "('b::linorder, 'p) prefix_index \<Rightarrow> bool" where
  "shape_ok s \<longleftrightarrow>
     radix_ok (backend s) \<and> block_parent (backend s) = index_parent s \<and> distinct (map fst (blocks s)) \<and>
     (\<forall>b a. get_block s b = Some a \<longrightarrow> stable_block_id (objs s a) = b) \<and>
     membership_inv (routing_membership_ids s) \<and>
     member_keys (routing_membership_ids s) = fst ` set (blocks s)"

lemma shape_okD:
  assumes "shape_ok s"
  shows "radix_ok (backend s)" "block_parent (backend s) = index_parent s" "distinct (map fst (blocks s))"
    "\<And>b a. get_block s b = Some a \<Longrightarrow> stable_block_id (objs s a) = b"
    "membership_inv (routing_membership_ids s)" "member_keys (routing_membership_ids s) = fst ` set (blocks s)"
    "forest_ok (index_parent s)"
  using assms block_parent_forest [of "backend s"] by (auto simp: shape_ok_def)

lemma index_parent_dom: "dom (index_parent s) = dom (get_block s)"
  by (auto simp: index_parent_def)

lemma dom_get_block: "dom (get_block s) = fst ` set (blocks s)"
  by (simp add: get_block_def [abs_def] dom_map_of_conv_image_fst)

lemma card_dom_index: "shape_ok s \<Longrightarrow> card (dom (index_parent s)) = length (blocks s)"
  by (metis card_image_le distinct_card dom_get_block index_parent_dom length_map list.set_map shape_okD(3))

lemma index_parent_at: "get_block s b = Some a \<Longrightarrow> index_parent s b = Some (parent_block_id (objs s a))"
  by (simp add: index_parent_def)

lemma obj_at_simp: "get_block s b = Some a \<Longrightarrow> obj_at s b = objs s a"
  by (simp add: obj_at_def)

section \<open>The freeable set\<close>

definition index_free :: "('b, 'p) prefix_index \<Rightarrow> 'b set" where
  "index_free s = free_set (index_parent s) (good_at s)"

definition free_ok :: "('b, 'p) prefix_index \<Rightarrow> bool" where
  "free_ok s \<longleftrightarrow> (\<forall>F. freeable_ids s = Some F \<longrightarrow>
     F = index_free s \<and> blocked_freeable_children s = counts (index_parent s) F)"

text \<open>The state with the freeable structure brought up to date.\<close>

definition refreshed :: "('b, 'p) prefix_index \<Rightarrow> ('b, 'p) prefix_index" where
  "refreshed s =
     (if freeable_ids s = None then s
      else s\<lparr>freeable_ids := Some (index_free s),
             blocked_freeable_children := counts (index_parent s) (index_free s)\<rparr>)"

lemma free_sel [simp]:
  "get_block (s\<lparr>freeable_ids := x, blocked_freeable_children := y\<rparr>) = get_block s"
  "index_parent (s\<lparr>freeable_ids := x, blocked_freeable_children := y\<rparr>) = index_parent s"
  "obj_at (s\<lparr>freeable_ids := x, blocked_freeable_children := y\<rparr>) = obj_at s"
  by (simp_all add: get_block_def index_parent_def obj_at_def fun_eq_iff)

lemma free_sel_index_free [simp]:
  "index_free (s\<lparr>freeable_ids := x, blocked_freeable_children := y\<rparr>) = index_free s"
  by (simp add: index_free_def)

lemma counts_remove:
  assumes f: "forest_ok par" and b: "b \<in> F"
  shows "counts par (F - {b}) =
    (case par b of Some (Some p) \<Rightarrow> (counts par F)(p \<mapsto> the (counts par F p) + 1) | _ \<Rightarrow> counts par F)"
proof -
  have F: "insert b F = F" using b by auto
  show ?thesis
  proof (cases "\<exists>p. par b = Some (Some p)")
    case True
    then obtain p where p: "par b = Some (Some p)" by blast
    then have "p \<in> dom par" using f by (auto simp: forest_ok_def)
    then obtain c where c: "counts par (F - {b}) p = Some c" by (auto simp: counts_def)
    have "counts par F = (counts par (F - {b}))(p \<mapsto> c - 1)"
      using counts_insert [OF f, of b "F - {b}"] p c by (simp add: F)
    then show ?thesis using p c by (simp add: fun_upd_idem_iff fun_eq_iff)
  next
    case False
    then show ?thesis using counts_insert [OF f, of b "F - {b}"] by (auto simp: F split: option.splits)
  qed
qed

lemma consistent_toggle:
  assumes f: "forest_ok par" and cons: "consistent_but b par good F (counts par F)" and b: "b \<in> dom par"
    and new: "F' = (if good b \<and> kids_of par b \<subseteq> F then insert b F else F - {b})"
  shows "par b = Some (Some p) \<Longrightarrow> consistent_but p par good F' (counts par F')"
    and "par b = Some None \<Longrightarrow> F' = free_set par good"
proof -
  have acyc: "b \<notin> kids_of par b"
    using f wf_acyclic unfolding forest_ok_def acyclic_def by blast
  have eq: "x \<in> F' \<longleftrightarrow> good x \<and> kids_of par x \<subseteq> F'" if "x \<in> dom par" "par b \<noteq> Some (Some x)" for x
  proof -
    have "kids_of par x \<subseteq> F' \<longleftrightarrow> kids_of par x \<subseteq> F" using that(2) new by (auto split: if_splits)
    then show ?thesis using cons that(1) new by (cases "x = b") (auto simp: consistent_but_def)
  qed
  have sub: "F' \<subseteq> dom par" using cons b new by (auto simp: consistent_but_def)
  show "par b = Some (Some p) \<Longrightarrow> consistent_but p par good F' (counts par F')"
    unfolding consistent_but_def using eq sub by auto
  show "par b = Some None \<Longrightarrow> F' = free_set par good"
    by (rule free_set_unique [OF f sub]) (use eq in auto)
qed


abbreviation with_free :: "'b set \<Rightarrow> ('b, 'p) prefix_index \<Rightarrow> ('b, 'p) prefix_index" where
  "with_free F s \<equiv> s\<lparr>freeable_ids := Some F, blocked_freeable_children := counts (index_parent s) F\<rparr>"

lemma refresh_loop_step:
  assumes shape: "shape_ok s" and a: "get_block s b = Some a"
    and F': "F' = (if good_at s b \<and> kids_of (index_parent s) b \<subseteq> F then insert b F else F - {b})"
  shows "refresh_loop (Suc fuel) (Some b) (with_free F s) =
    (if F' = F then (Inr (), with_free F s)
     else case parent_block_id (objs s a) of
       None \<Rightarrow> (Inr (), with_free F' s)
     | Some p \<Rightarrow> refresh_loop fuel (Some p) (with_free F' s))"
proof -
  let ?par = "index_parent s"
  note f = shape_okD(7) [OF shape]
  have par: "?par b = Some (parent_block_id (objs s a))" by (rule index_parent_at [OF a])
  obtain n where n: "counts ?par F b = Some n" using par by (simp add: counts_def domI)
  have zero: "n = 0 \<longleftrightarrow> kids_of ?par b \<subseteq> F" using counts_zero [OF f, of F b] n par by auto
  have toggle: "F' = F \<longleftrightarrow> ((n = 0 \<and> locally_free (objs s a)) \<longleftrightarrow> b \<in> F)"
    using F' zero by (auto simp: obj_at_simp [OF a])
  show ?thesis
  proof (cases "F' = F")
    case True
    then show ?thesis using a n toggle by (simp add: get_block_def Let_def)
  next
    case False
    have cnt: "counts ?par F' = (case ?par b of
        Some (Some p) \<Rightarrow> (counts ?par F)(p \<mapsto> the (counts ?par F p) + (if n = 0 \<and> locally_free (objs s a) then - 1 else 1))
      | _ \<Rightarrow> counts ?par F)"
    proof (cases "n = 0 \<and> locally_free (objs s a)")
      case True
      then have "F' = insert b F" "b \<notin> F" using F' zero toggle False by (auto simp: obj_at_simp [OF a])
      then show ?thesis using counts_insert [OF f, of b F] True by (auto split: option.splits)
    next
      case neg: False
      then have "F' = F - {b}" "b \<in> F" using F' zero toggle False by (auto simp: obj_at_simp [OF a])
      then show ?thesis using counts_remove [OF f, of b F] neg by (auto split: option.splits)
    qed
    have set: "F' = (if n = 0 \<and> locally_free (objs s a) then insert b F else F - {b})"
      using F' zero by (simp add: obj_at_simp [OF a])
    show ?thesis
    proof (cases "parent_block_id (objs s a)")
      case None
      then show ?thesis using a n toggle False cnt par set by (simp add: get_block_def Let_def)
    next
      case (Some p)
      then have "p \<in> dom ?par" using par f by (auto simp: forest_ok_def)
      then obtain c where "counts ?par F p = Some c" by (auto simp: counts_def)
      then show ?thesis using a n toggle False cnt par set Some by (simp add: get_block_def Let_def)
    qed
  qed
qed

lemma par_free_step:
  assumes shape: "shape_ok s" and a: "get_block s b = Some a"
    and cons: "consistent_but b (index_parent s) (good_at s) F (counts (index_parent s) F)"
    and F': "F' = (if good_at s b \<and> kids_of (index_parent s) b \<subseteq> F then insert b F else F - {b})"
  shows "index_parent s b = Some (Some p) \<Longrightarrow> consistent_but p (index_parent s) (good_at s) F' (counts (index_parent s) F')"
    and "index_parent s b = Some None \<Longrightarrow> F' = index_free s"
    and "F' = F \<Longrightarrow> F = index_free s"
proof -
  note f = shape_okD(7) [OF shape]
  have b: "b \<in> dom (index_parent s)" using a by (auto simp: index_parent_def)
  show "index_parent s b = Some (Some p) \<Longrightarrow> consistent_but p (index_parent s) (good_at s) F' (counts (index_parent s) F')"
    by (rule consistent_toggle(1) [OF f cons b F'])
  show "index_parent s b = Some None \<Longrightarrow> F' = index_free s"
    unfolding index_free_def by (rule consistent_toggle(2) [OF f cons b F'])
  show "F' = F \<Longrightarrow> F = index_free s"
    using consistent_but_done [OF f cons] F' by (auto simp: consistent_def index_free_def split: if_splits)
qed

lemma refresh_loop_refreshes:
  assumes shape: "shape_ok s"
  shows "chain (index_parent s) None (xs @ [b]) \<Longrightarrow> length xs < fuel \<Longrightarrow>
    consistent_but b (index_parent s) (good_at s) F (counts (index_parent s) F) \<Longrightarrow>
    refresh_loop fuel (Some b) (with_free F s) = (Inr (), with_free (index_free s) s)"
proof (induction xs arbitrary: b F fuel rule: rev_induct)
  case Nil
  then have par: "index_parent s b = Some None" by simp
  then obtain a where a: "get_block s b = Some a" by (auto simp: index_parent_def)
  obtain k where k: "fuel = Suc k" using Nil.prems(2) by (cases fuel) auto
  have "parent_block_id (objs s a) = None" using index_parent_at [OF a] par by simp
  then show ?case
    using refresh_loop_step [OF shape a refl, of k F] par_free_step(2) [OF shape a Nil.prems(3) refl par]
      par_free_step(3) [OF shape a Nil.prems(3) refl] by (simp add: k)
next
  case (snoc p xs)
  have chain: "chain (index_parent s) None (xs @ [p])" and par: "index_parent s b = Some (Some p)"
    using snoc.prems(1) by (simp_all add: chain_append)
  then obtain a where a: "get_block s b = Some a" by (auto simp: index_parent_def)
  obtain k where k: "fuel = Suc k" using snoc.prems(2) by (cases fuel) auto
  have "parent_block_id (objs s a) = Some p" using index_parent_at [OF a] par by simp
  then show ?case
    using refresh_loop_step [OF shape a refl, of k F] par_free_step(3) [OF shape a snoc.prems(3) refl]
      snoc.IH [OF chain _ par_free_step(1) [OF shape a snoc.prems(3) refl par], of k] snoc.prems(2)
    by (simp add: k)
qed


lemma refresh_path_ok:
  assumes shape: "shape_ok s" and b: "b \<in> dom (index_parent s)"
    and cons: "\<And>F. freeable_ids s = Some F \<Longrightarrow>
      consistent_but b (index_parent s) (good_at s) F (blocked_freeable_children s)"
  shows "refresh_freeable_path (Some b) s = (Inr (), refreshed s)"
proof (cases "freeable_ids s")
  case None
  then show ?thesis by (simp add: refresh_freeable_path_def refreshed_def)
next
  case (Some F)
  note c = cons [OF Some]
  have cnt: "blocked_freeable_children s = counts (index_parent s) F" using c by (simp add: consistent_but_def)
  have s: "with_free F s = s" using Some cnt by simp
  obtain xs where xs: "chain (index_parent s) None (xs @ [b])" using chain_exists [OF shape_okD(7) [OF shape] b] by blast
  have "length (xs @ [b]) \<le> length (blocks s)"
    using chain_length [OF xs] forest_finite [OF shape_okD(7) [OF shape]] by (simp add: card_dom_index [OF shape])
  then have "refresh_loop (Suc (length (blocks s))) (Some b) (with_free F s) = (Inr (), with_free (index_free s) s)"
    by (intro refresh_loop_refreshes [OF shape xs]) (use c cnt in simp_all)
  then show ?thesis using Some by (simp add: s refresh_freeable_path_def refreshed_def)
qed

section \<open>Residency, capacity views and the whole invariant\<close>

definition resid_ok :: "('b, 'p) prefix_index \<Rightarrow> bool" where
  "resid_ok s \<longleftrightarrow> (\<forall>b a. get_block s b = Some a \<longrightarrow>
     validate (resid (objs s a)) = Inr () \<and>
     (\<forall>p q. parent_block_id (objs s a) = Some p \<longrightarrow> get_block s p = Some q \<longrightarrow>
        (is_device s a \<longrightarrow> is_device s q) \<and>
        (host_present (resid (objs s a)) \<longrightarrow> host_present (resid (objs s q)))))"

definition device_parent :: "('b, 'p) prefix_index \<Rightarrow> 'b \<rightharpoonup> 'b option" where
  "device_parent s b =
     (case get_block s b of
        None \<Rightarrow> None
      | Some a \<Rightarrow> if is_device s a then Some (parent_block_id (objs s a)) else None)"

definition device_free :: "bool \<Rightarrow> ('b, 'p) prefix_index \<Rightarrow> 'b set" where
  "device_free inc s = free_set (device_parent s) (\<lambda>b. device_locally_freeable inc (obj_at s b))"

definition index_evictable :: "('b, 'p) prefix_index \<Rightarrow> 'b set" where
  "index_evictable s = {b \<in> dom (index_parent s). kids_of (index_parent s) b = {} \<and> good_at s b}"

definition cache_ok :: "('b, 'p) prefix_index \<Rightarrow> bool" where
  "cache_ok s \<longleftrightarrow>
     freeable_cache_epoch s \<le> capacity_epoch s \<and> evictable_cache_epoch s \<le> capacity_epoch s \<and>
     device_freeable_cache_epoch s \<le> capacity_epoch s \<and>
     (freeable_cache_epoch s = capacity_epoch s \<longrightarrow> freeable_block_ids_cache s = index_free s) \<and>
     (evictable_cache_epoch s = capacity_epoch s \<longrightarrow> evictable_block_ids_cache s = index_evictable s) \<and>
     (device_freeable_cache_epoch s = capacity_epoch s \<longrightarrow> device_freeable_block_ids_cache s = device_free False s)"

definition bound_ok :: "('b, 'p) prefix_index \<Rightarrow> bool" where
  "bound_ok s \<longleftrightarrow> 0 < block_size s \<and> (\<forall>m. max_blocks s = Some m \<longrightarrow> num_blocks s \<le> m)"

definition snapshot_ok :: "('b, 'p) prefix_index \<Rightarrow> bool" where
  "snapshot_ok s \<longleftrightarrow> (\<forall>rs. routing_snapshot_cache s = Some rs \<longrightarrow>
     rs = \<lparr>rs_supported = True, rs_enabled = True, rs_method = rs_method rs,
           rs_block_size = Some (block_size s), rs_fingerprint = fingerprint s, rs_block_ids = {},
           rs_membership = Some (routing_membership_ids s)\<rparr>)"

definition index_inv :: "('b::linorder, 'p) prefix_index \<Rightarrow> bool" where
  "index_inv s \<longleftrightarrow> shape_ok s \<and> free_ok s \<and> resid_ok s \<and> cache_ok s \<and> bound_ok s \<and> snapshot_ok s"

lemmas view_defs = get_block_def index_parent_def obj_at_def device_parent_def is_device_def
  index_free_def device_free_def index_evictable_def

lemmas inv_defs = index_inv_def shape_ok_def free_ok_def resid_ok_def cache_ok_def bound_ok_def snapshot_ok_def

text \<open>The invariant only reads the fields below; counters and the other epochs do not matter.\<close>

definition same_view :: "('b, 'p) prefix_index \<Rightarrow> ('b, 'p) prefix_index \<Rightarrow> bool" where
  "same_view s t \<longleftrightarrow> objs s = objs t \<and> blocks s = blocks t \<and> backend s = backend t"

lemma same_view_simps:
  assumes "same_view s t"
  shows "get_block s = get_block t" "index_parent s = index_parent t" "obj_at s = obj_at t"
    "device_parent s = device_parent t" "is_device s = is_device t" "index_free s = index_free t"
    "device_free inc s = device_free inc t" "index_evictable s = index_evictable t"
proof -
  show 1: "get_block s = get_block t" "is_device s = is_device t"
    using assms by (simp_all add: same_view_def get_block_def is_device_def fun_eq_iff)
  have "device_parent s b = device_parent t b" for b
    using assms 1 by (simp add: same_view_def device_parent_def split: option.split)
  then show 2: "index_parent s = index_parent t" "obj_at s = obj_at t" "device_parent s = device_parent t"
    using assms 1 by (simp_all add: same_view_def index_parent_def [abs_def] obj_at_def [abs_def] fun_eq_iff)
  show "index_free s = index_free t" "device_free inc s = device_free inc t" "index_evictable s = index_evictable t"
    using 2 by (simp_all add: index_free_def device_free_def index_evictable_def)
qed

lemma index_inv_cong:
  assumes v: "same_view s t" and "routing_membership_ids s = routing_membership_ids t"
    "routing_snapshot_cache s = routing_snapshot_cache t" "freeable_ids s = freeable_ids t"
    "blocked_freeable_children s = blocked_freeable_children t" "capacity_epoch s = capacity_epoch t"
    "freeable_cache_epoch s = freeable_cache_epoch t" "freeable_block_ids_cache s = freeable_block_ids_cache t"
    "evictable_cache_epoch s = evictable_cache_epoch t" "evictable_block_ids_cache s = evictable_block_ids_cache t"
    "device_freeable_cache_epoch s = device_freeable_cache_epoch t"
    "device_freeable_block_ids_cache s = device_freeable_block_ids_cache t"
    "block_size s = block_size t" "fingerprint s = fingerprint t" "max_blocks s = max_blocks t"
  shows "index_inv s \<longleftrightarrow> index_inv t"
  unfolding inv_defs using assms same_view_simps [OF v] by (simp add: same_view_def)

lemma mark_sel:
  "same_view (mark_mutated s) s" "same_view (mark_capacity_mutated s) s" "same_view (tick s) s"
  "same_view (refreshed s) s"
  by (simp_all add: same_view_def mark_mutated_def mark_capacity_mutated_def tick_def refreshed_def)

text \<open>Raising the capacity epoch discards every capacity view.\<close>

lemma index_inv_bump:
  assumes "shape_ok s" "free_ok s" "resid_ok s" "bound_ok s" "snapshot_ok s"
    and "freeable_cache_epoch s \<le> capacity_epoch s" "evictable_cache_epoch s \<le> capacity_epoch s"
    "device_freeable_cache_epoch s \<le> capacity_epoch s"
  shows "index_inv (mark_capacity_mutated s)"
proof -
  note v = same_view_simps [OF mark_sel(2) [of s]]
  have "cache_ok (mark_capacity_mutated s)"
    using assms(6-8) by (simp add: cache_ok_def mark_capacity_mutated_def mark_mutated_def)
  then show ?thesis
    using assms(1-5) v unfolding inv_defs by (simp add: mark_capacity_mutated_def mark_mutated_def)
qed


section \<open>Changing one block object\<close>

lemma set_block_get [simp]: "get_block (set_block a f s) = get_block s"
  by (simp add: get_block_def fun_eq_iff)

lemma set_block_objs [simp]: "objs (set_block a f s) x = (if x = a then f (objs s a) else objs s x)"
  by simp

lemma indexed_once:
  "shape_ok s \<Longrightarrow> get_block s b = Some a \<Longrightarrow> get_block s c = Some a \<Longrightarrow> b = c"
  using shape_okD(4) by metis

lemma set_block_parent:
  assumes "parent_block_id (f (objs s a)) = parent_block_id (objs s a)"
  shows "index_parent (set_block a f s) = index_parent s"
proof
  show "index_parent (set_block a f s) b = index_parent s b" for b
    using assms by (cases "get_block s b") (simp_all add: index_parent_def)
qed

lemma set_block_obj_at:
  assumes shape: "shape_ok s" and b: "get_block s b = Some a" and c: "c \<in> dom (index_parent s)"
  shows "obj_at (set_block a f s) c = (if c = b then f (objs s a) else obj_at s c)"
proof (cases "c = b")
  case True
  then show ?thesis using b by (simp add: obj_at_def)
next
  case False
  obtain x where x: "get_block s c = Some x" using c by (auto simp: index_parent_def)
  have "x \<noteq> a" using indexed_once [OF shape b, of c] x False by auto
  then show ?thesis using x False by (simp add: obj_at_def)
qed

lemma set_block_shape:
  assumes shape: "shape_ok s"
    and f: "stable_block_id (f (objs s a)) = stable_block_id (objs s a)" "parent_block_id (f (objs s a)) = parent_block_id (objs s a)"
  shows "shape_ok (set_block a f s)"
  using shape f(1) set_block_parent [where f=f, OF f(2)] by (auto simp: shape_ok_def split: if_splits)

lemma device_forest:
  assumes "shape_ok s" and "resid_ok s"
  shows "forest_ok (device_parent s)"
proof -
  note f = shape_okD(7) [OF assms(1)]
  have sub: "device_parent s b = Some p \<Longrightarrow> index_parent s b = Some p" for b p
    by (auto simp: device_parent_def index_parent_def split: option.splits if_splits)
  have "dom (device_parent s) \<subseteq> dom (index_parent s)" using sub by blast
  moreover have "{(a, b). device_parent s b = Some (Some a)} \<subseteq> {(a, b). index_parent s b = Some (Some a)}"
    using sub by blast
  moreover have "device_parent s a \<noteq> None" if ab: "device_parent s b = Some (Some a)" for a b
  proof -
    obtain x where x: "get_block s b = Some x" "is_device s x" "parent_block_id (objs s x) = Some a"
      using ab by (auto simp: device_parent_def split: option.splits if_splits)
    have "index_parent s a \<noteq> None" using f sub [OF ab] by (auto simp: forest_ok_def)
    then obtain q where "get_block s a = Some q" by (auto simp: index_parent_def)
    then show ?thesis using assms(2) x by (auto simp: resid_ok_def device_parent_def)
  qed
  ultimately show ?thesis
    using f unfolding forest_ok_def by (meson finite_subset wf_subset)
qed

lemma refreshed_parts:
  "shape_ok (refreshed s) \<longleftrightarrow> shape_ok s" "free_ok (refreshed s)" "resid_ok (refreshed s) \<longleftrightarrow> resid_ok s"
proof -
  note v = same_view_simps [OF mark_sel(4)]
  show "shape_ok (refreshed s) \<longleftrightarrow> shape_ok s" unfolding shape_ok_def v by (simp add: refreshed_def)
  show "free_ok (refreshed s)" unfolding free_ok_def v by (auto simp: refreshed_def)
  show "resid_ok (refreshed s) \<longleftrightarrow> resid_ok s" unfolding resid_ok_def v by (simp add: refreshed_def)
qed

lemma refresh_after_update:
  assumes shape: "shape_ok s" and free: "free_ok s" and b: "get_block s b = Some a"
    and f: "stable_block_id (f (objs s a)) = stable_block_id (objs s a)" "parent_block_id (f (objs s a)) = parent_block_id (objs s a)"
  shows "refresh_freeable_path (Some b) (set_block a f s) = (Inr (), refreshed (set_block a f s))"
proof -
  let ?s = "set_block a f s"
  have shape': "shape_ok ?s" by (rule set_block_shape [where f=f, OF shape f])
  have par: "index_parent ?s = index_parent s" by (rule set_block_parent [where f=f, OF f(2)])
  have good: "good_at ?s c \<longleftrightarrow> good_at s c" if "c \<in> dom (index_parent s)" "c \<noteq> b" for c
    using set_block_obj_at [OF shape b that(1), of f] that(2) by simp
  show ?thesis
  proof (rule refresh_path_ok [OF shape'])
    show "b \<in> dom (index_parent ?s)" using b by (auto simp: index_parent_def)
    fix F assume "freeable_ids ?s = Some F"
    then have "consistent (index_parent s) (good_at s) F (blocked_freeable_children s)"
      using free by (simp add: free_ok_def consistent_def index_free_def)
    from consistent_start [OF shape_okD(7) [OF shape] this] good
    show "consistent_but b (index_parent ?s) (good_at ?s) F (blocked_freeable_children ?s)"
      unfolding par by simp
  qed
qed

text \<open>
  The common tail of the operations that change one indexed block: refresh its path and raise the
  capacity epoch.
\<close>

lemma update_block_inv:
  assumes inv: "index_inv s" and b: "get_block s b = Some a"
    and f: "stable_block_id (f (objs s a)) = stable_block_id (objs s a)" "parent_block_id (f (objs s a)) = parent_block_id (objs s a)"
    and r: "resid_ok (set_block a f s)"
  shows "thenE (refresh_freeable_path (Some b)) (modifyE mark_capacity_mutated) (set_block a f s) =
      (Inr (), mark_capacity_mutated (refreshed (set_block a f s)))"
    and "index_inv (mark_capacity_mutated (refreshed (set_block a f s)))"
proof -
  let ?s = "set_block a f s"
  have shape: "shape_ok s" and free: "free_ok s" using inv by (simp_all add: index_inv_def)
  have shape': "shape_ok ?s" by (rule set_block_shape [where f=f, OF shape f])
  have "refresh_freeable_path (Some b) ?s = (Inr (), refreshed ?s)"
    by (rule refresh_after_update [where f=f, OF shape free b f])
  then show "thenE (refresh_freeable_path (Some b)) (modifyE mark_capacity_mutated) ?s =
      (Inr (), mark_capacity_mutated (refreshed ?s))" by (simp add: eff_simps)
  show "index_inv (mark_capacity_mutated (refreshed ?s))"
  proof (rule index_inv_bump)
    show "shape_ok (refreshed ?s)" "free_ok (refreshed ?s)" "resid_ok (refreshed ?s)"
      using shape' r by (simp_all only: refreshed_parts)
    show "bound_ok (refreshed ?s)" "snapshot_ok (refreshed ?s)"
      using inv by (simp_all add: index_inv_def bound_ok_def snapshot_ok_def refreshed_def)
    show "freeable_cache_epoch (refreshed ?s) \<le> capacity_epoch (refreshed ?s)"
      "evictable_cache_epoch (refreshed ?s) \<le> capacity_epoch (refreshed ?s)"
      "device_freeable_cache_epoch (refreshed ?s) \<le> capacity_epoch (refreshed ?s)"
      using inv by (simp_all add: index_inv_def cache_ok_def refreshed_def)
  qed
qed

text \<open>A block object that is not indexed does not matter.\<close>

lemma agree_inv:
  assumes inv: "index_inv s"
    and t: "t = s\<lparr>objs := h\<rparr>" and h: "\<And>b a. get_block s b = Some a \<Longrightarrow> stable_block_id (h a) = stable_block_id (objs s a) \<and>
      parent_block_id (h a) = parent_block_id (objs s a) \<and> locally_free (h a) = locally_free (objs s a) \<and>
      resid (h a) = resid (objs s a) \<and>
      device_locally_freeable False (h a) = device_locally_freeable False (objs s a)"
  shows "index_inv t"
proof -
  have shape: "shape_ok s" and res: "resid_ok s" using inv by (simp_all add: index_inv_def)
  have get: "get_block t = get_block s" by (simp add: t get_block_def fun_eq_iff)
  have par: "index_parent t = index_parent s"
  proof
    show "index_parent t b = index_parent s b" for b
      using h by (cases "get_block s b") (simp_all add: index_parent_def get, simp add: t)
  qed
  have dpar: "device_parent t = device_parent s"
  proof
    show "device_parent t b = device_parent s b" for b
      using h by (cases "get_block s b") (simp_all add: device_parent_def get is_device_def, simp add: t)
  qed
  have good: "good_at t b \<longleftrightarrow> good_at s b" if "b \<in> dom (index_parent s)" for b
    using that h by (auto simp: obj_at_def get index_parent_def) (simp_all add: t)
  have dgood: "device_locally_freeable False (obj_at t b) \<longleftrightarrow> device_locally_freeable False (obj_at s b)"
    if "b \<in> dom (device_parent s)" for b
    using that h by (auto simp: obj_at_def get device_parent_def split: option.splits if_splits) (simp_all add: t)
  have "index_free t = index_free s"
    unfolding index_free_def par by (rule free_set_cong [OF shape_okD(7) [OF shape]]) (rule good)
  moreover have "index_evictable t = index_evictable s" unfolding index_evictable_def par using good by auto
  moreover have "device_free False t = device_free False s"
    unfolding device_free_def dpar by (rule free_set_cong [OF device_forest [OF shape res]]) (rule dgood)
  moreover have "shape_ok t" using shape h unfolding shape_ok_def par get by (simp add: t)
  moreover have "resid_ok t" using res h unfolding resid_ok_def get is_device_def by (simp add: t)
  ultimately show ?thesis using inv par unfolding index_inv_def free_ok_def cache_ok_def bound_ok_def snapshot_ok_def
    by (simp add: t)
qed

lemma set_unindexed_inv:
  assumes "index_inv s" and "\<And>b. get_block s b \<noteq> Some a"
  shows "index_inv (set_block a f s)"
  by (rule agree_inv [OF assms(1) refl]) (use assms(2) in auto)

lemma unindexed:
  assumes "shape_ok s" and "get_block s (stable_block_id (objs s a)) \<noteq> Some a"
  shows "get_block s b \<noteq> Some a"
  using assms shape_okD(4) by metis

end
