(* ===== verification/Prefix_Operations.thy ===== *)
theory Prefix_Operations
  imports Prefix_Invariant
begin

text \<open>Every operation of the prefix index keeps its invariant.\<close>

section \<open>References\<close>

lemma index_invD:
  assumes "index_inv s"
  shows "shape_ok s" "free_ok s" "resid_ok s" "cache_ok s" "bound_ok s" "snapshot_ok s"
  using assms by (simp_all add: index_inv_def)

lemma mark_mutated_inv: "index_inv (mark_mutated s) \<longleftrightarrow> index_inv s"
  by (rule index_inv_cong) (simp_all add: same_view_def mark_mutated_def)

lemma mark_capacity_mutated_inv: "index_inv s \<Longrightarrow> index_inv (mark_capacity_mutated s)"
  by (rule index_inv_bump) (auto simp: index_inv_def cache_ok_def)

lemma set_block_resid_ok:
  assumes "resid_ok s" and "resid (f (objs s a)) = resid (objs s a)" "parent_block_id (f (objs s a)) = parent_block_id (objs s a)"
  shows "resid_ok (set_block a f s)"
proof -
  have "resid (objs (set_block a f s) x) = resid (objs s x)"
    "parent_block_id (objs (set_block a f s) x) = parent_block_id (objs s x)" for x
    using assms(2,3) by auto
  then show ?thesis using assms(1) unfolding resid_ok_def is_device_def set_block_get by simp
qed

lemma set_block_ref_count_keeps: "keeps index_inv (set_block_ref_count a rc)"
proof -
  have "index_inv (snd (set_block_ref_count a rc s))" if inv: "index_inv s" for s :: "('a, 'b) prefix_index"
  proof (cases "get_block s (stable_block_id (objs s a)) = Some a \<and> 0 \<le> rc \<and> ref_count (objs s a) \<noteq> rc")
    case False
    then show ?thesis using inv by (auto simp: set_block_ref_count_def)
  next
    case True
    let ?f = "\<lambda>k :: ('a, 'b) cache_block. k\<lparr>ref_count := rc\<rparr>"
    show ?thesis
    proof (cases "(ref_count (objs s a) = 0) \<noteq> (rc = 0)")
      case cross: True
      have "resid_ok (set_block a ?f s)" by (rule set_block_resid_ok [OF index_invD(3) [OF inv]]) simp_all
      from update_block_inv [where f="?f", OF inv conjunct1 [OF True] _ _ this] True cross show ?thesis
        by (simp add: set_block_ref_count_def Let_def)
    next
      case same: False
      have "index_inv (set_block a ?f s)"
        by (rule agree_inv [OF inv refl]) (use same in \<open>auto simp: locally_free_def device_locally_freeable_def\<close>)
      then show ?thesis using True same by (simp add: set_block_ref_count_def Let_def mark_mutated_inv)
    qed
  qed
  then show ?thesis by (simp add: keeps_def)
qed

lemma acquire_block_ref_keeps: "keeps index_inv (acquire_block_ref a)"
  and release_block_ref_keeps: "keeps index_inv (release_block_ref a)"
  using set_block_ref_count_keeps unfolding keeps_def acquire_block_ref_def release_block_ref_def by blast+

section \<open>Transfers\<close>

lemma set_resid_ok:
  assumes inv: "index_inv s" and b: "get_block s b = Some a" and v: "validate (g (resid (objs s a))) = Inr ()"
    and up: "\<And>p q. parent_block_id (objs s a) = Some p \<Longrightarrow> get_block s p = Some q \<Longrightarrow>
      (device_present (g (resid (objs s a))) \<longrightarrow> is_device s q) \<and>
      (host_present (g (resid (objs s a))) \<longrightarrow> host_present (resid (objs s q)))"
    and down: "(is_device s a \<longrightarrow> device_present (g (resid (objs s a)))) \<or>
      (\<forall>c x. get_block s c = Some x \<longrightarrow> parent_block_id (objs s x) = Some b \<longrightarrow> \<not> is_device s x)"
    and host: "host_present (resid (objs s a)) \<longrightarrow> host_present (g (resid (objs s a)))"
  shows "resid_ok (set_resid a g s)"
proof -
  let ?s = "set_resid a g s"
  note shape = index_invD(1) [OF inv] and res = index_invD(3) [OF inv]
  have obj: "resid (objs ?s x) = (if x = a then g (resid (objs s a)) else resid (objs s x))"
    "parent_block_id (objs ?s x) = parent_block_id (objs s x)" for x by simp_all
  have notown: "q \<noteq> a" if "get_block s c = Some a" "parent_block_id (objs s a) = Some p" "get_block s p = Some q" for c p q
  proof
    assume "q = a"
    then have "p = c" using indexed_once [OF shape] that by blast
    then have "index_parent s c = Some (Some c)" using that by (simp add: index_parent_def)
    then show False using shape_okD(7) [OF shape] by (auto simp: forest_ok_def dest!: wf_irrefl)
  qed
  have "validate (resid (objs ?s x)) = Inr () \<and>
     (\<forall>p q. parent_block_id (objs ?s x) = Some p \<longrightarrow> get_block ?s p = Some q \<longrightarrow>
        (is_device ?s x \<longrightarrow> is_device ?s q) \<and>
        (host_present (resid (objs ?s x)) \<longrightarrow> host_present (resid (objs ?s q))))"
    if x: "get_block ?s c = Some x" for c x
  proof (cases "x = a")
    case True
    then show ?thesis using v up notown x by (auto simp: obj is_device_def)
  next
    case False
    have r: "validate (resid (objs s x)) = Inr ()"
      "\<And>p q. parent_block_id (objs s x) = Some p \<Longrightarrow> get_block s p = Some q \<Longrightarrow>
        (is_device s x \<longrightarrow> is_device s q) \<and> (host_present (resid (objs s x)) \<longrightarrow> host_present (resid (objs s q)))"
      using res x by (auto simp: resid_ok_def)
    have "(is_device s x \<longrightarrow> device_present (g (resid (objs s a)))) \<and>
        (host_present (resid (objs s x)) \<longrightarrow> host_present (g (resid (objs s a))))"
      if "parent_block_id (objs s x) = Some p" "get_block s p = Some a" for p
    proof -
      have "p = b" using indexed_once [OF shape b that(2)] by simp
      then show ?thesis using r(2) [OF that] down host that(1) x by auto
    qed
    then show ?thesis using r False by (auto simp: obj is_device_def)
  qed
  then show ?thesis unfolding resid_ok_def by blast
qed

lemma refreshed_id: "free_ok s \<Longrightarrow> refreshed s = s"
  by (cases "freeable_ids s") (simp_all add: refreshed_def free_ok_def)

lemma refresh_path_inv:
  assumes inv: "index_inv s"
  shows "index_inv (snd (refresh_freeable_path (Some b) s))"
proof (cases "b \<in> dom (index_parent s)")
  case True
  note shape = index_invD(1) [OF inv] and free = index_invD(2) [OF inv]
  have "refresh_freeable_path (Some b) s = (Inr (), refreshed s)"
  proof (rule refresh_path_ok [OF shape True])
    fix F assume "freeable_ids s = Some F"
    then show "consistent_but b (index_parent s) (good_at s) F (blocked_freeable_children s)"
      using free consistent_start [OF shape_okD(7) [OF shape], of "good_at s" F _ b "good_at s"]
      by (simp add: free_ok_def consistent_def index_free_def)
  qed
  then show ?thesis using inv by (simp add: refreshed_id [OF free])
next
  case False
  then have "get_block s b = None" by (auto simp: index_parent_def)
  then show ?thesis using inv by (simp add: refresh_freeable_path_def)
qed

lemma finish_transfer_update_inv:
  assumes inv: "index_inv s" and g: "\<And>b. get_block s b = Some a \<Longrightarrow> resid_ok (set_resid a g s)"
  shows "index_inv (snd (finish_transfer_update a (set_resid a g s)))"
proof (cases "\<exists>b. get_block s b = Some a")
  case True
  then obtain b where b: "get_block s b = Some a" by blast
  let ?f = "\<lambda>k :: ('a, 'b) cache_block. k\<lparr>resid := g (resid k)\<rparr>"
  have id: "stable_block_id (objs s a) = b" by (rule shape_okD(4) [OF index_invD(1) [OF inv] b])
  note u = update_block_inv [where f="?f", OF inv b _ _ g [OF b]]
  have "validate (g (resid (objs s a))) = Inr ()" using g [OF b] b unfolding resid_ok_def by fastforce
  then show ?thesis using u by (simp add: finish_transfer_update_def id)
next
  case False
  then have inv': "index_inv (set_resid a g s)" by (intro set_unindexed_inv [OF inv]) simp
  show ?thesis
  proof (cases "validate (resid (objs (set_resid a g s) a))")
    case (Inr u)
    let ?b = "stable_block_id (objs (set_resid a g s) a)"
    have "index_inv (snd (refresh_freeable_path (Some ?b) (set_resid a g s)))" by (rule refresh_path_inv [OF inv'])
    then show ?thesis using Inr
      by (cases "refresh_freeable_path (Some ?b) (set_resid a g s)")
        (auto simp: finish_transfer_update_def eff_simps mark_capacity_mutated_inv split: sum.splits)
  qed (use inv' in \<open>simp add: finish_transfer_update_def\<close>)
qed


lemma resid_okD:
  assumes "index_inv s" and "get_block s b = Some a"
  shows "validate (resid (objs s a)) = Inr ()"
    and "parent_block_id (objs s a) = Some p \<Longrightarrow> get_block s p = Some q \<Longrightarrow> is_device s a \<Longrightarrow> is_device s q"
    and "parent_block_id (objs s a) = Some p \<Longrightarrow> get_block s p = Some q \<Longrightarrow> host_present (resid (objs s a)) \<Longrightarrow>
      host_present (resid (objs s q))"
  using index_invD(3) [OF assms(1)] assms(2) by (auto simp: resid_ok_def)

lemma parent_resid_at:
  "parent_block_id (objs s a) = Some p \<Longrightarrow> get_block s p = Some q \<Longrightarrow> parent_resid s a = Some (Some (resid (objs s q)))"
  by (simp add: parent_resid_def)

lemma validate_split:
  "validate r = Inr () \<longleftrightarrow> (device_present r \<or> host_present r) \<and>
     (transfer r = Some D2H \<longrightarrow> device_present r \<and> \<not> host_present r) \<and>
     (transfer r = Some H2D \<longrightarrow> device_present r \<and> host_present r)"
  by (auto simp: validate_def)

lemma begin_d2h_keeps: "keeps index_inv (begin_d2h a)"
proof -
  have "index_inv (snd (begin_d2h a s))" if inv: "index_inv s" for s :: "('a, 'b) prefix_index"
  proof -
    let ?g = "\<lambda>r. r\<lparr>transfer := Some D2H\<rparr>"
    let ?ok = "\<not> host_present (resid (objs s a))"
    have "index_inv (snd (finish_transfer_update a (set_resid a ?g s)))" if ok: "?ok"
    proof (rule finish_transfer_update_inv [OF inv])
      fix b assume b: "get_block s b = Some a"
      show "resid_ok (set_resid a ?g s)"
        by (rule set_resid_ok [OF inv b]) (use ok resid_okD [OF inv b] in \<open>auto simp: validate_split is_device_def\<close>)
    qed
    then show ?thesis using inv by (auto simp: begin_d2h_def Let_def split: sum.splits option.splits)
  qed
  then show ?thesis by (simp add: keeps_def)
qed

lemma finish_d2h_keeps: "keeps index_inv (finish_d2h a)"
proof -
  have "index_inv (snd (finish_d2h a s))" if inv: "index_inv s" for s :: "('a, 'b) prefix_index"
  proof -
    let ?g = "\<lambda>r. r\<lparr>host_present := True, transfer := None\<rparr>"
    have "index_inv (snd (finish_transfer_update a (set_resid a ?g s)))"
      if ok: "transfer (resid (objs s a)) = Some D2H" "\<And>pr. parent_resid s a = Some (Some pr) \<Longrightarrow> host_present pr"
    proof (rule finish_transfer_update_inv [OF inv])
      fix b assume b: "get_block s b = Some a"
      show "resid_ok (set_resid a ?g s)"
        by (rule set_resid_ok [OF inv b])
          (use ok parent_resid_at [of s a] resid_okD [OF inv b] in \<open>auto simp: validate_split is_device_def\<close>)
    qed
    then show ?thesis using inv by (auto simp: finish_d2h_def split: option.splits)
  qed
  then show ?thesis by (simp add: keeps_def)
qed

lemma clear_transfer_inv:
  assumes inv: "index_inv s"
  shows "index_inv (snd (finish_transfer_update a (set_resid a (\<lambda>r. r\<lparr>transfer := None\<rparr>) s)))"
proof (rule finish_transfer_update_inv [OF inv])
  fix b assume b: "get_block s b = Some a"
  show "resid_ok (set_resid a (\<lambda>r. r\<lparr>transfer := None\<rparr>) s)"
    by (rule set_resid_ok [OF inv b]) (use resid_okD [OF inv b] in \<open>auto simp: validate_split is_device_def\<close>)
qed

lemma abort_d2h_keeps: "keeps index_inv (abort_d2h a)"
  and finish_h2d_keeps: "keeps index_inv (finish_h2d a)"
  by (simp_all add: keeps_def abort_d2h_def finish_h2d_def clear_transfer_inv)

lemma resident_epoch_inv: "index_inv (s\<lparr>resident_payload_epoch := x\<rparr>) \<longleftrightarrow> index_inv s"
  by (rule index_inv_cong) (simp_all add: same_view_def)

lemma begin_h2d_keeps: "keeps index_inv (begin_h2d a)"
proof -
  have "index_inv (snd (begin_h2d a s))" if inv: "index_inv s" for s :: "('a, 'b) prefix_index"
  proof -
    let ?g = "\<lambda>r. r\<lparr>device_present := True, transfer := Some H2D\<rparr>"
    let ?s = "s\<lparr>resident_payload_epoch := resident_payload_epoch s + 1\<rparr>"
    have inv': "index_inv ?s" using inv by (simp add: resident_epoch_inv)
    have "index_inv (snd (finish_transfer_update a (set_resid a ?g ?s)))"
      if ok: "host_present (resid (objs s a))" "\<And>pr. parent_resid s a = Some (Some pr) \<Longrightarrow> device_present pr"
    proof (rule finish_transfer_update_inv [OF inv'])
      fix b assume b: "get_block ?s b = Some a"
      show "resid_ok (set_resid a ?g ?s)"
        by (rule set_resid_ok [OF inv' b])
          (use ok parent_resid_at [of s a] resid_okD [OF inv' b] in
            \<open>auto simp: validate_split is_device_def get_block_def\<close>)
    qed
    then show ?thesis using inv by (auto simp: begin_h2d_def Let_def split: sum.splits option.splits)
  qed
  then show ?thesis by (simp add: keeps_def)
qed

lemma device_child_count_zero:
  assumes inv: "index_inv s" and b: "get_block s b = Some a"
  shows "\<exists>n. device_child_count s b = Inr n \<and>
    (n = 0 \<longleftrightarrow> (\<forall>c x. get_block s c = Some x \<longrightarrow> parent_block_id (objs s x) = Some b \<longrightarrow> \<not> is_device s x))"
proof -
  note shape = shape_okD [OF index_invD(1) [OF inv]]
  have "block_parent (backend s) b \<noteq> None" using shape(2) b by (simp add: index_parent_def)
  then obtain cs where cs: "child_block_ids (backend s) b = Inr cs" "set cs = kids_of (index_parent s) b"
    using child_block_ids_ok [OF shape(1)] shape(2) by metis
  have "filter P cs = [] \<longleftrightarrow> (\<forall>c. index_parent s c = Some (Some b) \<longrightarrow> \<not> P c)" for P
    using cs(2) by (auto simp: filter_empty_conv)
  then show ?thesis
    using cs(1) by (auto simp: device_child_count_def index_parent_def is_device_def split: option.splits)
qed

lemma abort_h2d_keeps: "keeps index_inv (abort_h2d a)"
proof -
  have "index_inv (snd (abort_h2d a s))" if inv: "index_inv s" for s :: "('a, 'b) prefix_index"
  proof -
    let ?g = "\<lambda>r. r\<lparr>device_present := False, transfer := None\<rparr>"
    let ?s = "s\<lparr>resident_payload_epoch := resident_payload_epoch s + 1\<rparr>"
    have inv': "index_inv ?s" using inv by (simp add: resident_epoch_inv)
    have "index_inv (snd (finish_transfer_update a (set_resid a ?g ?s)))"
      if ok: "transfer (resid (objs s a)) = Some H2D" "device_child_count s (stable_block_id (objs s a)) = Inr 0"
    proof (rule finish_transfer_update_inv [OF inv'])
      fix b assume b': "get_block ?s b = Some a"
      then have b: "get_block s b = Some a" by (simp add: get_block_def)
      have id: "stable_block_id (objs s a) = b" by (rule shape_okD(4) [OF index_invD(1) [OF inv] b])
      have "\<forall>c x. get_block s c = Some x \<longrightarrow> parent_block_id (objs s x) = Some b \<longrightarrow> \<not> is_device s x"
        using device_child_count_zero [OF inv b] ok(2) id by auto
      then show "resid_ok (set_resid a ?g ?s)"
        by (intro set_resid_ok [OF inv' b'])
          (use ok resid_okD [OF inv b] in \<open>auto simp: validate_split is_device_def get_block_def\<close>)
    qed
    then show ?thesis using inv by (auto simp: abort_h2d_def split: sum.splits)
  qed
  then show ?thesis by (simp add: keeps_def)
qed

end
