(* ===== verification/Prefix_Views.thy ===== *)
theory Prefix_Views
  imports Prefix_Operations
begin

text \<open>
  The capacity views of the prefix index: what \<open>freeable_block_ids\<close>, \<open>evictable_block_ids\<close> and
  \<open>device_freeable_block_ids\<close> return on an index that satisfies the invariant, whether they answer
  from their cache, from the incrementally maintained set or by a scan.
\<close>

section \<open>Counting children\<close>

lemma count_children_run:
  assumes "\<And>a p. a \<in> set as \<Longrightarrow> parent_block_id (h a) = Some p \<Longrightarrow> cnt p \<noteq> None"
  shows "count_children as h cnt =
    Inr (\<lambda>p. map_option (\<lambda>c. c + int (length (filter (\<lambda>a. parent_block_id (h a) = Some p) as))) (cnt p))"
  using assms
proof (induction as arbitrary: cnt)
  case Nil
  then show ?case by (simp add: option.map_ident)
next
  case (Cons a as)
  show ?case
  proof (cases "parent_block_id (h a)")
    case None
    moreover have "count_children as h cnt = Inr (\<lambda>p. map_option
        (\<lambda>c. c + int (length (filter (\<lambda>a. parent_block_id (h a) = Some p) as))) (cnt p))"
      by (rule Cons.IH) (use Cons.prems in auto)
    ultimately show ?thesis by simp
  next
    case (Some p)
    obtain c where c: "cnt p = Some c" using Cons.prems [of a p] Some by auto
    have "count_children as h (cnt(p \<mapsto> c + 1)) = Inr (\<lambda>q. map_option
        (\<lambda>c. c + int (length (filter (\<lambda>a. parent_block_id (h a) = Some q) as))) ((cnt(p \<mapsto> c + 1)) q))"
      by (rule Cons.IH) (use Cons.prems in auto)
    then show ?thesis using Some c by (auto simp: fun_eq_iff)
  qed
qed

lemma count_keys:
  assumes "distinct (map fst ids)"
  shows "length (filter P (map snd ids)) = card {b. \<exists>a. map_of ids b = Some a \<and> P a}"
proof -
  have "{b. \<exists>a. map_of ids b = Some a \<and> P a} = set (map fst (filter (P \<circ> snd) ids))"
    using assms by (force simp: image_iff)
  moreover have "distinct (map fst (filter (P \<circ> snd) ids))" using assms by (rule distinct_map_filter)
  ultimately show ?thesis using distinct_card [of "map fst (filter (P \<circ> snd) ids)"] by (simp add: filter_map)
qed

lemma count_children_counts:
  assumes d: "distinct (map fst ids)" and f: "forest_ok par"
    and par: "\<And>b. par b = map_option (\<lambda>a. parent_block_id (h a)) (map_of ids b)"
  shows "count_children (map snd ids) h (\<lambda>b. if b \<in> fst ` set ids then Some 0 else None) = Inr (counts par {})"
proof -
  have dom: "dom par = fst ` set ids" by (auto simp: par dom_map_of_conv_image_fst [symmetric])
  have "count_children (map snd ids) h (\<lambda>b. if b \<in> fst ` set ids then Some 0 else None) =
    Inr (\<lambda>p. map_option (\<lambda>c. c + int (length (filter (\<lambda>a. parent_block_id (h a) = Some p) (map snd ids))))
      (if p \<in> fst ` set ids then Some 0 else None))"
  proof (rule count_children_run)
    fix a p assume "a \<in> set (map snd ids)" and p: "parent_block_id (h a) = Some p"
    then obtain b where "map_of ids b = Some a" using d by auto
    then have "par b = Some (Some p)" using p by (simp add: par)
    then show "(if p \<in> fst ` set ids then Some 0 else None) \<noteq> None"
      using forest_up [OF f] dom by auto
  qed
  moreover have "kids_of par p = {b. \<exists>a. map_of ids b = Some a \<and> parent_block_id (h a) = Some p}" for p
    by (auto simp: par)
  ultimately show ?thesis using count_keys [OF d] dom by (auto simp: counts_def fun_eq_iff)
qed

section \<open>The freeable set\<close>

lemma freeable_loop_snoc:
  "freeable_loop (Suc fuel) s (ys @ [b]) F cnt =
     (case get_block s b of
        None \<Rightarrow> Inl KeyError
      | Some a \<Rightarrow>
          if \<not> locally_free (objs s a) then freeable_loop fuel s ys F cnt
          else case parent_block_id (objs s a) of
            None \<Rightarrow> freeable_loop fuel s ys (insert b F) cnt
          | Some p \<Rightarrow>
              (case cnt p of
                 None \<Rightarrow> Inl KeyError
               | Some c \<Rightarrow> freeable_loop fuel s (if c - 1 = 0 then ys @ [p] else ys) (insert b F) (cnt(p \<mapsto> c - 1))))"
  by (cases ys) (auto simp: Let_def split: option.split)

lemma freeable_loop_turn:
  assumes "shape_ok s" and b: "b \<in> dom (index_parent s)" and cnt: "dom cnt = dom (index_parent s)"
  shows "freeable_loop (Suc fuel) s (ys @ [b]) F cnt =
    peel_turn (index_parent s) (good_at s) (freeable_loop fuel s) ys b F cnt"
proof -
  obtain a where a: "get_block s b = Some a" using b by (auto simp: index_parent_def)
  have par: "index_parent s b = Some (parent_block_id (objs s a))" by (rule index_parent_at [OF a])
  have up: "cnt p \<noteq> None" if "parent_block_id (objs s a) = Some p" for p
    using forest_up [OF shape_okD(7) [OF assms(1)], of b p] par that cnt by auto
  show ?thesis
    using a par up unfolding freeable_loop_snoc
    by (auto simp: peel_turn_def obj_at_def split: option.splits)
qed

lemma init_freeable_ok:
  assumes shape: "shape_ok s"
  shows "init_freeable s = (Inr (), s\<lparr>freeable_scans := freeable_scans s + 1, freeable_ids := Some (index_free s),
      blocked_freeable_children := counts (index_parent s) (index_free s)\<rparr>)"
proof -
  let ?par = "index_parent s"
  note f = shape_okD(7) [OF shape] and d = shape_okD(3) [OF shape]
  have dom: "dom ?par = fst ` set (blocks s)" by (simp add: index_parent_dom dom_get_block)
  have zero: "(\<lambda>b. if has_block s b then Some (0 :: int) else None) = (\<lambda>b. if b \<in> fst ` set (blocks s) then Some 0 else None)"
    by (auto simp: has_block_def dom_get_block [symmetric] fun_eq_iff)
  have cnt: "count_children (map snd (blocks s)) (objs s) (\<lambda>b. if has_block s b then Some 0 else None) = Inr (counts ?par {})"
    unfolding zero by (rule count_children_counts [OF d f]) (simp add: index_parent_def get_block_def)
  have "freeable_loop (Suc (length (blocks s))) s (filter (\<lambda>b. counts ?par {} b = Some 0) (map fst (blocks s))) {} (counts ?par {}) =
    Inr (index_free s, counts ?par (index_free s))"
    unfolding index_free_def
  proof (rule peel_from_leaves [where L="\<lambda>n. freeable_loop n s" and out=Pair, OF f])
    show "freeable_loop (Suc fuel) s (ys @ [b]) F cnt = peel_turn ?par (good_at s) (freeable_loop fuel s) ys b F cnt"
      if "b \<in> dom ?par" "b \<notin> F" "dom cnt = dom ?par" for fuel ys b F cnt
      by (rule freeable_loop_turn [OF shape that(1,3)])
    show "distinct (filter (\<lambda>b. counts ?par {} b = Some 0) (map fst (blocks s)))" using d by simp
    show "set (filter (\<lambda>b. counts ?par {} b = Some 0) (map fst (blocks s))) = {b \<in> dom ?par. kids_of ?par b = {}}"
      using counts_zero [OF f, of "{}"] dom by auto
    show "card (dom ?par) \<le> Suc (length (blocks s))" by (simp add: card_dom_index [OF shape])
  qed simp_all
  then show ?thesis using cnt by (simp add: init_freeable_def Let_def)
qed

lemma freeable_block_ids_ok:
  assumes inv: "index_inv s"
  shows "\<exists>t. freeable_block_ids s = (Inr (index_free s), t) \<and> index_inv t \<and> same_view t s"
proof (cases "freeable_cache_epoch s = capacity_epoch s")
  case True
  have "index_inv (s\<lparr>freeable_cache_hits := freeable_cache_hits s + 1\<rparr>)"
    by (rule iffD2 [OF index_inv_cong inv]) (simp_all add: same_view_def)
  then show ?thesis using True index_invD(4) [OF inv] by (simp add: freeable_block_ids_def cache_ok_def same_view_def)
next
  case False
  define t where "t = (if freeable_ids s = None
    then s\<lparr>freeable_snapshot_builds := freeable_snapshot_builds s + 1, freeable_scans := freeable_scans s + 1,
      freeable_ids := Some (index_free s), blocked_freeable_children := counts (index_parent s) (index_free s)\<rparr>
    else s\<lparr>freeable_snapshot_builds := freeable_snapshot_builds s + 1\<rparr>)"
  define u where "u = t\<lparr>freeable_block_ids_cache := index_free s, freeable_cache_epoch := capacity_epoch t\<rparr>"
  let ?s = "s\<lparr>freeable_snapshot_builds := freeable_snapshot_builds s + 1\<rparr>"
  note v = same_view_simps [of ?s s, unfolded same_view_def, simplified]
  have "shape_ok ?s" using index_invD(1) [OF inv] v unfolding shape_ok_def by simp
  then have "freeable_block_ids s = (Inr (index_free s), u)"
    using False index_invD(2) [OF inv] init_freeable_ok [of ?s] v
    by (auto simp: freeable_block_ids_def eff_simps t_def u_def free_ok_def)
  moreover have vu: "same_view u s" by (simp add: u_def t_def same_view_def)
  moreover have "index_inv u"
    using inv same_view_simps [OF vu] vu unfolding inv_defs same_view_def by (auto simp: u_def t_def)
  ultimately show ?thesis by blast
qed

section \<open>Evictable blocks\<close>

lemma evictable_scan:
  assumes "shape_ok s"
  shows "{b \<in> leaf_block_ids (backend s). case get_block s b of None \<Rightarrow> False | Some a \<Rightarrow> locally_free (objs s a)} =
    index_evictable s"
proof -
  note shape = shape_okD [OF assms]
  show ?thesis using leaf_block_ids_ok [OF shape(1)] unfolding shape(2) index_evictable_def
    by (auto simp: index_parent_def obj_at_def split: option.splits)
qed

lemma evictable_block_ids_ok:
  assumes inv: "index_inv s"
  shows "\<exists>t. evictable_block_ids s = (Inr (index_evictable s), t) \<and> index_inv t \<and> same_view t s"
proof (cases "evictable_cache_epoch s = capacity_epoch s")
  case True
  have "index_inv (s\<lparr>evictable_cache_hits := evictable_cache_hits s + 1\<rparr>)"
    by (rule iffD2 [OF index_inv_cong inv]) (simp_all add: same_view_def)
  then show ?thesis using True index_invD(4) [OF inv] by (simp add: evictable_block_ids_def cache_ok_def same_view_def)
next
  case False
  define u where "u = s\<lparr>evictable_scans := evictable_scans s + 1, evictable_block_ids_cache := index_evictable s,
    evictable_cache_epoch := capacity_epoch s\<rparr>"
  have "evictable_block_ids s = (Inr (index_evictable s), u)"
    using False by (simp add: evictable_block_ids_def evictable_scan [OF index_invD(1) [OF inv]] u_def Let_def)
  moreover have vu: "same_view u s" by (simp add: u_def same_view_def)
  moreover have "index_inv u"
    using inv same_view_simps [OF vu] vu unfolding inv_defs same_view_def by (auto simp: u_def)
  ultimately show ?thesis by blast
qed

section \<open>Blocks reclaimable by device demotion\<close>

lemma device_parent_at:
  "get_block s b = Some a \<Longrightarrow> is_device s a \<Longrightarrow> device_parent s b = Some (parent_block_id (objs s a))"
  by (simp add: device_parent_def)

lemma device_domD: "b \<in> dom (device_parent s) \<Longrightarrow> \<exists>a. get_block s b = Some a \<and> is_device s a"
  by (auto simp: device_parent_def split: option.splits if_splits)

lemma map_of_filter_val:
  "distinct (map fst xs) \<Longrightarrow> map_of (filter (\<lambda>(b, a). P a) xs) b =
     (case map_of xs b of None \<Rightarrow> None | Some a \<Rightarrow> if P a then Some a else None)"
proof (induction xs)
  case (Cons x xs)
  have "map_of xs (fst x) = None" using Cons.prems by (simp add: map_of_eq_None_iff)
  then show ?case using Cons by (cases x) (auto split: option.splits)
qed simp

lemma device_blocks:
  assumes d: "distinct (map fst (blocks s))"
  shows "map_of (filter (\<lambda>(b, a). is_device s a) (blocks s)) b =
      (case get_block s b of None \<Rightarrow> None | Some a \<Rightarrow> if is_device s a then Some a else None)"
    and "fst ` set (filter (\<lambda>(b, a). is_device s a) (blocks s)) = dom (device_parent s)"
    and "distinct (map fst (filter (\<lambda>(b, a). is_device s a) (blocks s)))"
proof -
  show at: "map_of (filter (\<lambda>(b, a). is_device s a) (blocks s)) b =
      (case get_block s b of None \<Rightarrow> None | Some a \<Rightarrow> if is_device s a then Some a else None)" for b
    unfolding get_block_def by (rule map_of_filter_val [OF d])
  show "fst ` set (filter (\<lambda>(b, a). is_device s a) (blocks s)) = dom (device_parent s)"
    unfolding dom_map_of_conv_image_fst [symmetric] by (auto simp: at device_parent_def split: option.splits if_splits)
  show "distinct (map fst (filter (\<lambda>(b, a). is_device s a) (blocks s)))"
    using d by (rule distinct_map_filter)
qed

lemma set_filter_keys: "fst ` set xs = D \<Longrightarrow> (\<And>b. b \<in> D \<Longrightarrow> P b \<longleftrightarrow> Q b) \<Longrightarrow> set (filter P (map fst xs)) = {b \<in> D. Q b}"
  by auto

lemma device_child_count_ok:
  assumes shape: "shape_ok s" and b: "b \<in> dom (index_parent s)"
  shows "device_child_count s b = Inr (int (card (kids_of (device_parent s) b)))"
proof -
  note sh = shape_okD [OF shape]
  have "block_parent (backend s) b \<noteq> None" using sh(2) b by auto
  then obtain cs where cs: "child_block_ids (backend s) b = Inr cs" "distinct cs" "set cs = kids_of (index_parent s) b"
    using child_block_ids_ok [OF sh(1)] sh(2) by metis
  let ?P = "\<lambda>c. case get_block s c of None \<Rightarrow> False | Some a \<Rightarrow> device_present (resid (objs s a))"
  have "set (filter ?P cs) = kids_of (device_parent s) b"
    using cs(3) by (auto simp: device_parent_def index_parent_def is_device_def split: option.splits if_splits)
  then have "length (filter ?P cs) = card (kids_of (device_parent s) b)"
    using distinct_card [OF distinct_filter [OF cs(2)], of ?P] by simp
  then show ?thesis using cs(1) by (simp add: device_child_count_def)
qed

lemma reclaim_loop_snoc:
  "reclaim_loop (Suc fuel) inc s (ys @ [b]) F dc =
     (case get_block s b of
        None \<Rightarrow> reclaim_loop fuel inc s ys F dc
      | Some a \<Rightarrow>
          if b \<in> F \<or> \<not> device_locally_freeable inc (objs s a) then reclaim_loop fuel inc s ys F dc
          else case parent_block_id (objs s a) of
            None \<Rightarrow> reclaim_loop fuel inc s ys (insert b F) dc
          | Some p \<Rightarrow>
              (case dc p of
                 None \<Rightarrow> reclaim_loop fuel inc s ys (insert b F) dc
               | Some c \<Rightarrow>
                   reclaim_loop fuel inc s (if c - 1 = 0 then ys @ [p] else ys) (insert b F) (dc(p \<mapsto> c - 1))))"
  by (cases ys) (auto simp: Let_def split: option.split)

lemma reclaim_loop_turn:
  assumes f: "forest_ok (device_parent s)" and b: "b \<in> dom (device_parent s)" "b \<notin> F"
    and dc: "dom dc = dom (device_parent s)"
  shows "reclaim_loop (Suc fuel) inc s (ys @ [b]) F dc =
    peel_turn (device_parent s) (\<lambda>b. device_locally_freeable inc (obj_at s b)) (reclaim_loop fuel inc s) ys b F dc"
proof -
  obtain a where a: "get_block s b = Some a" "is_device s a" using device_domD [OF b(1)] by blast
  note par = device_parent_at [OF a]
  have up: "dc p \<noteq> None" if "parent_block_id (objs s a) = Some p" for p
    using forest_up [OF f, of b p] par that dc by auto
  show ?thesis
    using a par up b(2) unfolding reclaim_loop_snoc
    by (auto simp: peel_turn_def obj_at_def split: option.splits)
qed

lemma map_of_tag: "map_of (map (\<lambda>(b, a). (b, g b)) xs) b = (if b \<in> fst ` set xs then Some (g b) else None)"
  by (induction xs) auto

lemma filter_tag: "map fst (filter (\<lambda>(b, n). n = 0) (map (\<lambda>(b, a). (b, g b)) xs)) = filter (\<lambda>b. g b = 0) (map fst xs)"
  by (induction xs) auto

lemma scan_reclaimable_ok:
  assumes shape: "shape_ok s" and res: "resid_ok s"
  shows "scan_reclaimable inc s = Inr (device_free inc s)"
proof -
  let ?par = "device_parent s" and ?ids = "filter (\<lambda>(b, a). is_device s a) (blocks s)"
  note f = device_forest [OF shape res] and ids = device_blocks [OF shape_okD(3) [OF shape]]
  have at: "device_child_count s b = Inr (the (counts ?par {} b))" "b \<in> dom ?par" if "(b, a) \<in> set ?ids" for b a
  proof -
    show b: "b \<in> dom ?par" using that ids(2) by force
    then have "b \<in> dom (index_parent s)" using device_domD [OF b] by (auto simp: index_parent_def)
    then show "device_child_count s b = Inr (the (counts ?par {} b))"
      using device_child_count_ok [OF shape] b by (simp add: counts_def)
  qed
  let ?cs = "map (\<lambda>(b, a). (b, the (counts ?par {} b))) ?ids"
  have run: "mapR (\<lambda>(b, a). bindR (device_child_count s b) (\<lambda>n. Inr (b, n))) ?ids = Inr ?cs"
    by (rule mapR_total) (use at(1) in \<open>auto split: prod.splits\<close>)
  have cnt: "map_of ?cs = counts ?par {}"
    unfolding fun_eq_iff map_of_tag ids(2) by (simp add: counts_def)
  note st = filter_tag [of "\<lambda>b. the (counts ?par {} b)" ?ids]
  have "reclaim_loop (Suc (length (blocks s))) inc s (map fst (filter (\<lambda>(b, n). n = 0) ?cs)) {} (counts ?par {}) =
    Inr (device_free inc s)"
    unfolding device_free_def st
  proof (rule peel_from_leaves [where L="\<lambda>n. reclaim_loop n inc s" and out="\<lambda>F _. F", OF f])
    show "reclaim_loop (Suc fuel) inc s (ys @ [b]) F dc =
      peel_turn ?par (\<lambda>b. device_locally_freeable inc (obj_at s b)) (reclaim_loop fuel inc s) ys b F dc"
      if "b \<in> dom ?par" "b \<notin> F" "dom dc = dom ?par" for fuel ys b F dc
      by (rule reclaim_loop_turn [OF f that])
    show "distinct (filter (\<lambda>b. the (counts ?par {} b) = 0) (map fst ?ids))" using ids(3) by simp
    show "set (filter (\<lambda>b. the (counts ?par {} b) = 0) (map fst ?ids)) = {b \<in> dom ?par. kids_of ?par b = {}}"
      by (rule set_filter_keys [OF ids(2)]) (use kids_finite [OF f] in \<open>simp add: counts_def\<close>)
    have "dom ?par \<subseteq> dom (index_parent s)" using device_domD [of _ s] index_parent_at [of s] by blast
    from card_mono [OF forest_finite [OF shape_okD(7) [OF shape]] this]
    show "card (dom ?par) \<le> Suc (length (blocks s))" by (simp add: card_dom_index [OF shape])
  qed simp
  then show ?thesis using run cnt by (simp add: scan_reclaimable_def)
qed

text \<open>
  The view without in-flight backups is exact.  The view that counts them is read from its own cache,
  which an insertion below a block with a backup in flight may leave out of date, so only the
  invariant is claimed for it.
\<close>

lemma device_freeable_block_ids_ok:
  assumes inv: "index_inv s"
  shows "\<exists>t. device_freeable_block_ids s = (Inr (device_free False s), t) \<and> index_inv t \<and> same_view t s"
proof (cases "device_freeable_cache_epoch s = capacity_epoch s")
  case True
  have "index_inv (s\<lparr>device_reclaimable_cache_hits := device_reclaimable_cache_hits s + 1\<rparr>)"
    by (rule iffD2 [OF index_inv_cong inv]) (simp_all add: same_view_def)
  then show ?thesis using True index_invD(4) [OF inv]
    by (simp add: device_freeable_block_ids_def device_reclaimable_block_ids'_def cache_ok_def same_view_def)
next
  case False
  let ?s = "s\<lparr>device_reclaimable_scans := device_reclaimable_scans s + 1\<rparr>"
  have vs: "same_view ?s s" by (simp add: same_view_def)
  have inv': "index_inv ?s" by (rule iffD2 [OF index_inv_cong [OF vs] inv]) simp_all
  define u where "u = ?s\<lparr>device_freeable_cache_epoch := capacity_epoch s, device_freeable_block_ids_cache := device_free False s\<rparr>"
  have "device_freeable_block_ids s = (Inr (device_free False s), u)"
    using False scan_reclaimable_ok [OF index_invD(1,3) [OF inv'], of False] same_view_simps(7) [OF vs, of False]
    by (simp add: device_freeable_block_ids_def device_reclaimable_block_ids'_def u_def Let_def)
  moreover have vu: "same_view u s" by (simp add: u_def same_view_def)
  moreover have "index_inv u"
    using inv same_view_simps [OF vu] vu unfolding inv_defs same_view_def by (auto simp: u_def)
  ultimately show ?thesis by blast
qed

lemma device_reclaimable_block_ids_ok:
  assumes inv: "index_inv s"
  shows "\<exists>F t. device_reclaimable_block_ids s = (Inr F, t) \<and> index_inv t \<and> same_view t s"
proof -
  let ?s = "s\<lparr>device_reclaimable_scans := device_reclaimable_scans s + 1\<rparr>"
  have vs: "same_view ?s s" by (simp add: same_view_def)
  have inv': "index_inv ?s" by (rule iffD2 [OF index_inv_cong [OF vs] inv]) simp_all
  have "index_inv (s\<lparr>device_reclaimable_cache_hits := x\<rparr>)" "index_inv (?s\<lparr>device_reclaimable_cache_epoch := y,
      device_reclaimable_block_ids_cache := z\<rparr>)" for x y z
    by (rule iffD2 [OF index_inv_cong inv]; simp add: same_view_def)+
  then show ?thesis using scan_reclaimable_ok [OF index_invD(1,3) [OF inv'], of True]
    by (auto simp: device_reclaimable_block_ids_def device_reclaimable_block_ids'_def same_view_def Let_def)
qed

lemma view_keeps:
  "keeps index_inv freeable_block_ids" "keeps index_inv evictable_block_ids"
  "keeps index_inv device_freeable_block_ids" "keeps index_inv device_reclaimable_block_ids"
  unfolding keeps_def
  using freeable_block_ids_ok evictable_block_ids_ok device_freeable_block_ids_ok device_reclaimable_block_ids_ok
  by (metis snd_conv)+

lemma count_keeps:
  "keeps index_inv freeable_blocks" "keeps index_inv evictable_blocks"
  "keeps index_inv device_freeable_blocks" "keeps index_inv device_reclaimable_blocks"
  unfolding freeable_blocks_def evictable_blocks_def device_freeable_blocks_def device_reclaimable_blocks_def
  by (intro keeps_bindE view_keeps keeps_pure)+

lemma evictable_blocks_ok:
  assumes "index_inv s"
  shows "\<exists>t. evictable_blocks s = (Inr (int (card (index_evictable s))), t) \<and> index_inv t \<and> same_view t s"
  using evictable_block_ids_ok [OF assms] by (auto simp: evictable_blocks_def eff_simps)

end
