(* ===== verification/Prefix_Insertion.thy ===== *)
theory Prefix_Insertion
  imports Prefix_Views
begin

text \<open>
  Inserting a block into the prefix index.  \<open>link\<close> is the state with the block entered in the dict,
  the radix tree and the routing membership; the freeable structure is then repaired along the path
  of the new block, and the capacity epoch is raised unless no capacity view can have changed.
\<close>

section \<open>The freeable structure does not read the routing membership\<close>

abbreviation with_routing :: "'b routing_membership \<Rightarrow> ('b, 'p) prefix_index \<Rightarrow> ('b, 'p) prefix_index" where
  "with_routing m s \<equiv> s\<lparr>routing_membership_ids := m\<rparr>"

lemma get_block_routing [simp]: "get_block (with_routing m s) = get_block s"
  by (simp add: get_block_def fun_eq_iff)

lemma with_routing_commute:
  "(with_routing m s)\<lparr>freeable_ids := F\<rparr> = with_routing m (s\<lparr>freeable_ids := F\<rparr>)"
  "(with_routing m s)\<lparr>blocked_freeable_children := c\<rparr> = with_routing m (s\<lparr>blocked_freeable_children := c\<rparr>)"
  by simp_all

lemma refresh_loop_routing:
  "refresh_loop fuel bo (with_routing m s) = apsnd (with_routing m) (refresh_loop fuel bo s)"
proof (induction fuel arbitrary: bo s)
  case 0
  then show ?case by (cases bo) simp_all
next
  case (Suc fuel)
  show ?case
    by (cases bo) (simp_all add: Let_def with_routing_commute Suc.IH split: option.split)
qed

lemma refresh_path_routing:
  "refresh_freeable_path bo (with_routing m s) = apsnd (with_routing m) (refresh_freeable_path bo s)"
  by (simp add: refresh_freeable_path_def refresh_loop_routing)

section \<open>Linking a new block\<close>

definition link :: "nat \<Rightarrow> 'b \<Rightarrow> 'b radix \<Rightarrow> 'b routing_membership \<Rightarrow> ('b, 'p) prefix_index \<Rightarrow> ('b, 'p) prefix_index" where
  "link a b R m s = s\<lparr>clock := clock s + 1, objs := (objs s)(a := (objs s a)\<lparr>last_access := clock s + 1\<rparr>),
     blocks := blocks s @ [(b, a)], backend := R, routing_membership_ids := m\<rparr>"

lemma link_sel [simp]:
  "freeable_ids (link a b R m s) = freeable_ids s" "blocked_freeable_children (link a b R m s) = blocked_freeable_children s"
  "stable_block_id (objs (link a b R m s) x) = stable_block_id (objs s x)"
  "parent_block_id (objs (link a b R m s) x) = parent_block_id (objs s x)"
  "resid (objs (link a b R m s) x) = resid (objs s x)"
  "locally_free (objs (link a b R m s) x) = locally_free (objs s x)"
  "device_locally_freeable inc (objs (link a b R m s) x) = device_locally_freeable inc (objs s x)"
  "is_device (link a b R m s) x = is_device s x"
  by (simp_all add: link_def locally_free_def device_locally_freeable_def is_device_def)

lemma link_get: "get_block s b = None \<Longrightarrow> get_block (link a b R m s) = (get_block s)(b \<mapsto> a)"
  by (auto simp: get_block_def [abs_def] link_def fun_eq_iff map_add_def split: option.splits)

lemma link_parent:
  assumes "get_block s b = None"
  shows "index_parent (link a b R m s) = (index_parent s)(b \<mapsto> parent_block_id (objs s a))"
    and "device_parent (link a b R m s) =
      (if is_device s a then (device_parent s)(b \<mapsto> parent_block_id (objs s a)) else device_parent s)"
  using assms by (auto simp: index_parent_def device_parent_def link_get fun_eq_iff split: option.splits)

lemma link_good:
  assumes "get_block s b = None" and "c \<in> dom (index_parent s)"
  shows "good_at (link a b R m s) c = good_at s c"
    and "device_locally_freeable inc (obj_at (link a b R m s) c) = device_locally_freeable inc (obj_at s c)"
  using assms by (auto simp: obj_at_def link_get index_parent_def)

lemma link_shape:
  assumes shape: "shape_ok s" and b: "get_block s b = None" "stable_block_id (objs s a) = b"
    and R: "radix_ok R" "block_parent R = (block_parent (backend s))(b \<mapsto> parent_block_id (objs s a))"
    and m: "membership_inv m" "member_keys m = insert b (member_keys (routing_membership_ids s))"
  shows "shape_ok (link a b R m s)"
proof -
  note sh = shape_okD [OF shape]
  have new: "b \<notin> fst ` set (blocks s)" using b(1) dom_get_block [of s] by auto
  have "block_parent (backend (link a b R m s)) = index_parent (link a b R m s)"
    unfolding link_parent [OF b(1)] using R(2) sh(2) by (simp add: link_def)
  moreover have "\<forall>c x. get_block (link a b R m s) c = Some x \<longrightarrow> stable_block_id (objs (link a b R m s) x) = c"
    unfolding link_get [OF b(1)] using sh(4) b(2) by simp
  ultimately show ?thesis
    unfolding shape_ok_def using R(1) m sh(3,6) new by (simp add: link_def)
qed

lemma link_resid:
  assumes inv: "index_inv s" and b: "get_block s b = None"
    and v: "validate (resid (objs s a)) = Inr ()" and p: "check_parent s (objs s a) = Inr ()"
  shows "resid_ok (link a b R m s)"
proof -
  let ?t = "link a b R m s"
  note f = shape_okD(7) [OF index_invD(1) [OF inv]]
  have "validate (resid (objs s x)) = Inr () \<and>
     (\<forall>q y. parent_block_id (objs s x) = Some q \<longrightarrow> get_block ?t q = Some y \<longrightarrow>
        (is_device s x \<longrightarrow> is_device s y) \<and> (host_present (resid (objs s x)) \<longrightarrow> host_present (resid (objs s y))))"
    if x: "get_block ?t c = Some x" for c x
  proof (cases "c = b")
    case True
    then have "x = a" using x by (simp add: link_get [OF b])
    moreover have "q \<noteq> b" if "parent_block_id (objs s a) = Some q" for q
      using p that b by (auto simp: check_parent_def)
    ultimately show ?thesis
      using v p by (auto simp: check_parent_def link_get [OF b] is_device_def split: option.splits if_splits)
  next
    case False
    then have c: "get_block s c = Some x" using x by (simp add: link_get [OF b])
    have "q \<noteq> b" if "parent_block_id (objs s x) = Some q" for q
      using forest_up [OF f, of c q] index_parent_at [OF c] that b by (auto simp: index_parent_def)
    then show ?thesis using resid_okD [OF inv c] by (auto simp: link_get [OF b])
  qed
  then show ?thesis unfolding resid_ok_def link_sel by blast
qed

section \<open>The freeable structure after an insertion\<close>

lemma refresh_stable:
  assumes shape: "shape_ok s" and p: "p \<in> dom (index_parent s)"
  shows "refresh_loop (Suc k) (Some p) (with_free (index_free s) s) = (Inr (), with_free (index_free s) s)"
proof -
  obtain q where q: "get_block s p = Some q" using p by (auto simp: index_parent_def)
  have "(if good_at s p \<and> kids_of (index_parent s) p \<subseteq> index_free s then insert p (index_free s) else index_free s - {p}) = index_free s"
    using free_set_step [OF shape_okD(7) [OF shape], of p "good_at s"] p by (auto simp: index_free_def)
  then show ?thesis using refresh_loop_step [OF shape q refl, of k "index_free s"] by simp
qed

text \<open>
  Below, \<open>F\<close> solves the equations but for a new leaf \<open>b\<close>, which it lacks: the equation of its parent
  \<open>p\<close> is the one without \<open>b\<close>.
\<close>

definition lacks_leaf :: "('b, 'p) prefix_index \<Rightarrow> 'b \<Rightarrow> 'b option \<Rightarrow> 'b set \<Rightarrow> bool" where
  "lacks_leaf s b p F \<longleftrightarrow> b \<notin> F \<and> F \<subseteq> dom (index_parent s) \<and> kids_of (index_parent s) b = {} \<and>
     index_parent s b = Some p \<and>
     (\<forall>x\<in>dom (index_parent s). x \<noteq> b \<longrightarrow>
        (x \<in> F \<longleftrightarrow> good_at s x \<and> kids_of (index_parent s) x \<subseteq> insert b F))"

lemma lacks_leaf_good:
  assumes f: "forest_ok (index_parent s)" and lack: "lacks_leaf s b p F" and good: "good_at s b"
  shows "insert b F = index_free s"
  unfolding index_free_def
  by (rule free_set_unique [OF f]) (use lack good in \<open>auto simp: lacks_leaf_def\<close>)

lemma lacks_leaf_bad:
  assumes f: "forest_ok (index_parent s)" and lack: "lacks_leaf s b p F" and bad: "\<not> good_at s b"
  shows "p = None \<Longrightarrow> F = index_free s"
    and "p = Some q \<Longrightarrow> consistent_but q (index_parent s) (good_at s) F (counts (index_parent s) F)"
proof -
  have eq: "x \<in> F \<longleftrightarrow> good_at s x \<and> kids_of (index_parent s) x \<subseteq> F"
    if "x \<in> dom (index_parent s)" "p \<noteq> Some x" for x
    using lack bad that unfolding lacks_leaf_def by (cases "x = b") auto
  have sub: "F \<subseteq> dom (index_parent s)" using lack by (simp add: lacks_leaf_def)
  show "p = None \<Longrightarrow> F = index_free s"
    unfolding index_free_def by (rule free_set_unique [OF f sub]) (use eq in auto)
  show "p = Some q \<Longrightarrow> consistent_but q (index_parent s) (good_at s) F (counts (index_parent s) F)"
    using eq sub by (auto simp: consistent_but_def)
qed

lemma with_free_shape: "shape_ok (with_free F s) \<longleftrightarrow> shape_ok s"
  by (simp add: shape_ok_def)

lemma refresh_lacking_leaf:
  assumes shape: "shape_ok s" and b: "get_block s b = Some a" and p: "parent_block_id (objs s a) = p"
    and lack: "lacks_leaf s b p F"
  shows "refresh_freeable_path (Some b) (with_free F s) =
    (Inr (), with_free (if good_at s b then index_free s else F) s)"
proof -
  note f = shape_okD(7) [OF shape]
  have ne: "blocks s \<noteq> []" using b by (auto simp: get_block_def)
  then obtain k where k: "length (blocks s) = Suc k" by (cases "blocks s") auto
  have kids: "kids_of (index_parent s) b = {}" and bF: "b \<notin> F" using lack by (simp_all add: lacks_leaf_def)
  have "refresh_loop (Suc (Suc k)) (Some b) (with_free F s) =
    (Inr (), with_free (if good_at s b then index_free s else F) s)"
  proof (cases "good_at s b")
    case True
    have ne: "index_free s \<noteq> F" using lacks_leaf_good [OF f lack True] bF by auto
    have "q \<in> dom (index_parent s)" if "p = Some q" for q
      using forest_up [OF f, of b q] lack that by (simp add: lacks_leaf_def)
    then show ?thesis
      using refresh_loop_step [OF shape b refl, of "Suc k" F] lacks_leaf_good [OF f lack True] kids True ne p
        refresh_stable [OF shape] by (auto split: option.splits)
  next
    case False
    then show ?thesis using refresh_loop_step [OF shape b refl, of "Suc k" F] bF by simp
  qed
  then show ?thesis by (simp add: refresh_freeable_path_def k)
qed

lemma refresh_new_leaf:
  assumes shape: "shape_ok s" and b: "get_block s b = Some a" and p: "parent_block_id (objs s a) = p"
    and lack: "lacks_leaf s b p F"
  shows "(case p of None \<Rightarrow> refresh_freeable_path (Some b)
      | Some q \<Rightarrow> thenE (refresh_freeable_path (Some b)) (refresh_freeable_path (Some q))) (with_free F s) =
    (Inr (), with_free (index_free s) s)"
proof -
  note f = shape_okD(7) [OF shape] and run = refresh_lacking_leaf [OF assms]
  have settle: "refresh_freeable_path (Some q) (with_free F' s) = (Inr (), with_free (index_free s) s)"
    if "p = Some q" "F' = (if good_at s b then index_free s else F)" for q F'
  proof (cases "good_at s b")
    case True
    have "q \<in> dom (index_parent s)" using forest_up [OF f, of b q] lack that(1) by (simp add: lacks_leaf_def)
    then show ?thesis using refresh_stable [OF shape] that(2) True by (simp add: refresh_freeable_path_def)
  next
    case False
    have "refresh_freeable_path (Some q) (with_free F' s) = (Inr (), refreshed (with_free F' s))"
    proof (rule refresh_path_ok)
      show "shape_ok (with_free F' s)" using shape by (rule iffD2 [OF with_free_shape])
      show "q \<in> dom (index_parent (with_free F' s))"
        using forest_up [OF f, of b q] lack that(1) by (simp add: lacks_leaf_def)
    qed (use that False lacks_leaf_bad(2) [OF f lack False that(1)] in simp)
    then show ?thesis by (simp add: refreshed_def)
  qed
  show ?thesis
    using run settle lacks_leaf_bad(1) [OF f lack] by (cases p) (auto simp: eff_simps)
qed

text \<open>What a successful insertion starts from.\<close>

definition insertable :: "('b::linorder, 'p) prefix_index \<Rightarrow> nat \<Rightarrow> 'b \<Rightarrow> 'b radix \<Rightarrow> 'b routing_membership \<Rightarrow> bool" where
  "insertable s a b R m \<longleftrightarrow>
     index_inv s \<and> get_block s b = None \<and> stable_block_id (objs s a) = b \<and>
     validate (resid (objs s a)) = Inr () \<and> check_parent s (objs s a) = Inr () \<and>
     radix_ok R \<and> block_parent R = (block_parent (backend s))(b \<mapsto> parent_block_id (objs s a)) \<and>
     membership_inv m \<and> member_keys m = insert b (member_keys (routing_membership_ids s))"

lemma insertableD:
  assumes "insertable s a b R m"
  shows "index_inv s" "get_block s b = None" "stable_block_id (objs s a) = b" "validate (resid (objs s a)) = Inr ()"
    "check_parent s (objs s a) = Inr ()" "shape_ok (link a b R m s)" "resid_ok (link a b R m s)"
    "b \<notin> dom (index_parent s)" "\<And>q. parent_block_id (objs s a) = Some q \<Longrightarrow> q \<in> dom (index_parent s)"
    "get_block (link a b R m s) b = Some a"
proof -
  show inv: "index_inv s" and b: "get_block s b = None" and id: "stable_block_id (objs s a) = b"
    and v: "validate (resid (objs s a)) = Inr ()" and p: "check_parent s (objs s a) = Inr ()"
    using assms by (simp_all add: insertable_def)
  show "shape_ok (link a b R m s)"
    using link_shape [OF index_invD(1) [OF inv] b id] assms by (simp add: insertable_def)
  show "resid_ok (link a b R m s)" by (rule link_resid [OF inv b v p])
  show "b \<notin> dom (index_parent s)" using b by (auto simp: index_parent_def)
  show "q \<in> dom (index_parent s)" if "parent_block_id (objs s a) = Some q" for q
    using p that by (auto simp: check_parent_def index_parent_def split: option.splits)
  show "get_block (link a b R m s) b = Some a" by (simp add: link_get [OF b])
qed

lemma link_lacks_leaf:
  assumes ins: "insertable s a b R m" and F: "F = index_free s"
  shows "lacks_leaf (link a b R m s) b (parent_block_id (objs s a)) F"
proof -
  let ?u = "link a b R m s"
  note i = insertableD [OF ins]
  note f = shape_okD(7) [OF index_invD(1) [OF i(1)]]
  have sub: "F \<subseteq> dom (index_parent s)" by (auto simp: F index_free_def free_set_def)
  have kids: "kids_of (index_parent ?u) x \<subseteq> insert b F \<longleftrightarrow> kids_of (index_parent s) x \<subseteq> F" for x
    unfolding link_parent(1) [OF i(2)] kids_add_leaf [OF i(8)] using i(8) by (auto split: if_splits)
  have "x \<in> F \<longleftrightarrow> good_at ?u x \<and> kids_of (index_parent ?u) x \<subseteq> insert b F"
    if "x \<in> dom (index_parent s)" for x
    unfolding kids link_good [OF i(2) that] using free_set_step [OF f, of x "good_at s"] that by (simp add: F index_free_def)
  moreover have "kids_of (index_parent ?u) b = {}"
    unfolding link_parent(1) [OF i(2)] kids_add_leaf [OF i(8)] using forest_no_kids [OF f i(8)] i(8,9) by auto
  ultimately show ?thesis
    using sub i(8) unfolding lacks_leaf_def link_parent(1) [OF i(2)] by auto
qed

lemma set_same_free:
  "freeable_ids s = x \<Longrightarrow> s\<lparr>freeable_ids := x, blocked_freeable_children := c\<rparr> = s\<lparr>blocked_freeable_children := c\<rparr>"
  by (cases s) simp

lemma note_new_child_ok:
  assumes ins: "insertable s a b R m"
  shows "note_new_child a (link a b R m s) = (Inr (), refreshed (link a b R m s))"
proof (cases "freeable_ids s")
  case None
  then show ?thesis by (simp add: note_new_child_def refreshed_def)
next
  case (Some F)
  let ?u = "link a b R m s" and ?p = "parent_block_id (objs s a)"
  note i = insertableD [OF ins]
  note f = shape_okD(7) [OF index_invD(1) [OF i(1)]]
  have F: "F = index_free s" "blocked_freeable_children s = counts (index_parent s) F"
    using index_invD(2) [OF i(1)] Some by (simp_all add: free_ok_def)
  have sub: "F \<subseteq> dom (index_parent s)" by (auto simp: F index_free_def free_set_def)
  have cnt: "counts (index_parent ?u) F = (case ?p of None \<Rightarrow> (counts (index_parent s) F)(b \<mapsto> 0)
      | Some q \<Rightarrow> (counts (index_parent s) F)(b \<mapsto> 0, q \<mapsto> the (counts (index_parent s) F q) + 1))"
    unfolding link_parent(1) [OF i(2)] by (rule counts_add_leaf [OF f i(8,9) sub])
  have ne: "q \<noteq> b" "counts (index_parent s) F q \<noteq> None" if "?p = Some q" for q
    using i(8) i(9) [OF that] by (auto simp: counts_def)
  have "note_new_child a ?u = (case ?p of None \<Rightarrow> refresh_freeable_path (Some b)
      | Some q \<Rightarrow> thenE (refresh_freeable_path (Some b)) (refresh_freeable_path (Some q))) (with_free F ?u)"
    using Some cnt ne i(3) F(2)
    by (auto simp: note_new_child_def Let_def set_same_free [of ?u "Some F"] split: option.splits)
  also have "\<dots> = (Inr (), with_free (index_free ?u) ?u)"
    by (rule refresh_new_leaf [OF i(6) i(10) _ link_lacks_leaf [OF ins F(1)]]) simp
  finally show ?thesis using Some by (simp add: refreshed_def)
qed

section \<open>The invariant after an insertion\<close>

definition entered :: "nat \<Rightarrow> 'b \<Rightarrow> 'b radix \<Rightarrow> 'b routing_membership \<Rightarrow> ('b, 'p) prefix_index \<Rightarrow> ('b, 'p) prefix_index" where
  "entered a b R m s =
     (refreshed (link a b R m s))\<lparr>committed_blocks := committed_blocks s + 1, routing_snapshot_cache := None\<rparr>"

definition inserted :: "nat \<Rightarrow> 'b \<Rightarrow> 'b radix \<Rightarrow> 'b routing_membership \<Rightarrow> ('b, 'p) prefix_index \<Rightarrow> ('b, 'p) prefix_index" where
  "inserted a b R m s = mark_inserted (insert_changes_capacity (entered a b R m s) a) (entered a b R m s)"

lemma entered_view: "same_view (entered a b R m s) (link a b R m s)"
  by (simp add: same_view_def entered_def refreshed_def)

lemma entered_sel [simp]:
  "capacity_epoch (entered a b R m s) = capacity_epoch s" "freeable_cache_epoch (entered a b R m s) = freeable_cache_epoch s"
  "evictable_cache_epoch (entered a b R m s) = evictable_cache_epoch s"
  "device_freeable_cache_epoch (entered a b R m s) = device_freeable_cache_epoch s"
  "freeable_block_ids_cache (entered a b R m s) = freeable_block_ids_cache s"
  "evictable_block_ids_cache (entered a b R m s) = evictable_block_ids_cache s"
  "device_freeable_block_ids_cache (entered a b R m s) = device_freeable_block_ids_cache s"
  "max_blocks (entered a b R m s) = max_blocks s" "block_size (entered a b R m s) = block_size s"
  "num_blocks (entered a b R m s) = num_blocks s + 1" "routing_snapshot_cache (entered a b R m s) = None"
  "routing_membership_ids (entered a b R m s) = m"
  by (simp_all add: entered_def refreshed_def link_def)

lemma entered_parts:
  assumes ins: "insertable s a b R m" and room: "\<And>k. max_blocks s = Some k \<Longrightarrow> num_blocks s < k"
  shows "shape_ok (entered a b R m s)" "free_ok (entered a b R m s)" "resid_ok (entered a b R m s)"
    "bound_ok (entered a b R m s)" "snapshot_ok (entered a b R m s)"
proof -
  let ?u = "link a b R m s" and ?t = "entered a b R m s"
  note i = insertableD [OF ins] and v = same_view_simps [OF entered_view]
  have view: "objs ?t = objs ?u" "blocks ?t = blocks ?u" "backend ?t = backend ?u"
    using entered_view [of a b R m s] by (simp_all add: same_view_def)
  have m: "routing_membership_ids ?u = m" by (simp add: link_def)
  show "shape_ok ?t" using i(6) unfolding shape_ok_def v view m by simp
  show "resid_ok ?t" using i(7) unfolding resid_ok_def v view by simp
  show "free_ok ?t" unfolding free_ok_def v by (simp add: entered_def refreshed_def)
  show "bound_ok ?t" using index_invD(5) [OF i(1)] room by (fastforce simp: bound_ok_def)
  show "snapshot_ok ?t" by (simp add: snapshot_ok_def)
qed

text \<open>A blocked block below a blocked block, or at the root, changes no capacity view.\<close>

lemma blocked_insert_views:
  assumes ins: "insertable s a b R m" and b: "\<not> locally_free (objs s a)"
    and p: "\<And>q. parent_block_id (objs s a) = Some q \<Longrightarrow> \<not> good_at s q"
  shows "index_free (link a b R m s) = index_free s" "index_evictable (link a b R m s) = index_evictable s"
    "device_free False (link a b R m s) = device_free False s"
proof -
  let ?u = "link a b R m s"
  note i = insertableD [OF ins]
  note f = shape_okD(7) [OF index_invD(1) [OF i(1)]] and good = link_good [OF i(2)]
  have fu: "forest_ok (index_parent ?u)" by (rule shape_okD(7) [OF i(6)])
  have bad: "\<not> good_at ?u b" using b by (simp add: obj_at_def i(10))
  have dev: "device_locally_freeable False k \<Longrightarrow> locally_free k" for k :: "('a, 'b) cache_block"
    by (auto simp: device_locally_freeable_def locally_free_def Let_def)
  show "index_free ?u = index_free s"
    unfolding index_free_def link_parent(1) [OF i(2)]
    by (rule free_set_add_blocked [OF fu [unfolded link_parent(1) [OF i(2)]] f i(8)]) (use bad p good in auto)
  show "index_evictable ?u = index_evictable s"
  proof (rule set_eqI)
    fix x
    show "x \<in> index_evictable ?u \<longleftrightarrow> x \<in> index_evictable s"
      using good(1) [of x] bad p [of x] i(8)
      by (cases "x = b") (auto simp: index_evictable_def link_parent(1) [OF i(2)] kids_add_leaf [OF i(8)] split: if_splits)
  qed
  have sub: "dom (device_parent s) \<subseteq> dom (index_parent s)"
    using device_domD [of _ s] index_parent_at [of s] by blast
  have fd: "forest_ok (device_parent ?u)" "forest_ok (device_parent s)"
    by (rule device_forest [OF i(6,7)] device_forest [OF index_invD(1,3) [OF i(1)]])+
  have dgood: "x \<in> dom (device_parent s) \<Longrightarrow> device_locally_freeable False (obj_at ?u x) \<longleftrightarrow> device_locally_freeable False (obj_at s x)" for x
    using good(2) sub by blast
  show "device_free False ?u = device_free False s"
  proof (cases "is_device s a")
    case True
    then have par: "device_parent ?u = (device_parent s)(b \<mapsto> parent_block_id (objs s a))" by (simp add: link_parent [OF i(2)])
    show ?thesis unfolding device_free_def par
      by (rule free_set_add_blocked [OF fd(1) [unfolded par] fd(2)]) (use bad dev p sub i(8) dgood in blast)+
  next
    case False
    then have par: "device_parent ?u = device_parent s" by (simp add: link_parent [OF i(2)])
    show ?thesis unfolding device_free_def par by (rule free_set_cong [OF fd(2) dgood])
  qed
qed

lemma mark_inserted_inv:
  "index_inv (mark_inserted c s) \<longleftrightarrow> index_inv (if c then mark_capacity_mutated s else s)"
  by (rule index_inv_cong)
    (simp_all add: same_view_def mark_inserted_def mark_capacity_mutated_def mark_mutated_def)

lemma inserted_inv:
  assumes ins: "insertable s a b R m" and room: "\<And>k. max_blocks s = Some k \<Longrightarrow> num_blocks s < k"
  shows "index_inv (inserted a b R m s)"
proof -
  let ?u = "link a b R m s" and ?t = "entered a b R m s"
  note i = insertableD [OF ins] and v = same_view_simps [OF entered_view] and parts = entered_parts [OF assms]
  note cache = index_invD(4) [OF i(1)]
  show ?thesis
  proof (cases "insert_changes_capacity ?t a")
    case True
    have "index_inv (mark_capacity_mutated ?t)"
      by (rule index_inv_bump [OF parts]) (use cache in \<open>simp_all add: cache_ok_def\<close>)
    then show ?thesis using True by (simp add: inserted_def mark_inserted_inv)
  next
    case False
    have o: "objs ?t = objs ?u" using entered_view [of a b R m s] by (simp add: same_view_def)
    have blocked: "\<not> locally_free (objs s a)"
      using False unfolding insert_changes_capacity_def o Let_def by simp
    moreover have "\<not> good_at s q" if "parent_block_id (objs s a) = Some q" for q
    proof -
      have "q \<in> dom (index_parent s)" "q \<noteq> b" using i(8,9) that by blast+
      then show ?thesis using False that unfolding insert_changes_capacity_def o v Let_def
        by (auto simp: link_get [OF i(2)] index_parent_def obj_at_def)
    qed
    ultimately have "cache_ok ?t"
      using cache blocked_insert_views [OF ins] unfolding cache_ok_def v by simp
    then have "index_inv ?t" using parts by (simp add: index_inv_def)
    then show ?thesis using False by (simp add: inserted_def mark_inserted_inv)
  qed
qed

section \<open>The operation\<close>

lemma note_new_child_routing: "note_new_child a (with_routing m s) = apsnd (with_routing m) (note_new_child a s)"
  by (cases "refresh_freeable_path (Some (stable_block_id (objs s a))) s")
    (auto simp: note_new_child_def Let_def with_routing_commute refresh_path_routing eff_simps split: option.splits sum.splits prod.splits)

lemma insert_block_fresh:
  assumes inv: "index_inv s" and b: "stable_block_id (objs s a) = b" "get_block s b = None"
    and v: "validate (resid (objs s a)) = Inr ()" and p: "check_parent s (objs s a) = Inr ()"
    and room: "\<And>k. max_blocks s = Some k \<Longrightarrow> num_blocks s < k"
  shows "\<exists>R m. insertable s a b R m \<and> insert_block a s = (Inr a, inserted a b R m s)"
proof -
  note sh = shape_okD [OF index_invD(1) [OF inv]]
  have new: "block_parent (backend s) b = None" unfolding sh(2) using b(2) by (simp add: index_parent_def)
  have up: "case parent_block_id (objs s a) of None \<Rightarrow> True | Some q \<Rightarrow> block_parent (backend s) q \<noteq> None"
    unfolding sh(2) using p by (auto simp: check_parent_def index_parent_def split: option.splits)
  obtain R where R: "insert_child (parent_block_id (objs s a)) b (backend s) = (Inr (), R)" "radix_ok R"
    "block_parent R = (block_parent (backend s))(b \<mapsto> parent_block_id (objs s a))"
    using insert_child_ok [OF sh(1) new up] by blast
  have fresh: "b \<notin> fst ` set (blocks s)" using b(2) dom_get_block [of s] by auto
  obtain m where m: "membership_insert (routing_membership_ids s) b = Inr m" "membership_inv m"
    "member_keys m = insert b (member_keys (routing_membership_ids s))"
    using routing.ins_new [OF sh(5), of b] fresh sh(6) by auto
  have ins: "insertable s a b R m" unfolding insertable_def using inv b v p R m by simp
  let ?u = "link a b R m s" and ?r = "routing_membership_ids s"
  have nn: "note_new_child a (with_routing ?r ?u) = (Inr (), with_routing ?r (refreshed ?u))"
    by (simp add: note_new_child_routing note_new_child_ok [OF ins])
  have s1: "(set_block a (\<lambda>k. k\<lparr>last_access := clock (tick s)\<rparr>) (tick s))\<lparr>blocks := dict_set b a (blocks (tick s)), backend := R\<rparr>
      = with_routing ?r ?u"
    by (simp add: tick_def link_def update_fresh [OF fresh])
  have ent: "(with_routing ?r (refreshed ?u))\<lparr>committed_blocks := committed_blocks (with_routing ?r (refreshed ?u)) + 1,
      routing_membership_ids := m, routing_snapshot_cache := None\<rparr> = entered a b R m s"
    by (simp add: entered_def refreshed_def link_def)
  have "\<not> (case max_blocks s of None \<Rightarrow> False | Some k \<Rightarrow> k \<le> num_blocks s)" using room by (auto split: option.splits)
  then have "insert_block a s = (Inr a, inserted a b R m s)"
    using b v p R(1) m(1) nn s1 ent
    by (simp add: insert_block_def Let_def eff_simps backend_insert_child_def record_routing_insert_def tick_def inserted_def)
  then show ?thesis using ins by blast
qed

lemma touch_inv:
  assumes "index_inv s"
  shows "index_inv (set_block a (\<lambda>k. k\<lparr>last_access := c\<rparr>) s)"
  by (rule agree_inv [OF assms refl]) (simp add: locally_free_def device_locally_freeable_def)

lemma clock_inv: "index_inv (s\<lparr>clock := x\<rparr>) \<longleftrightarrow> index_inv s" "index_inv (s\<lparr>duplicate_commits := y\<rparr>) \<longleftrightarrow> index_inv s"
  by (rule index_inv_cong; simp add: same_view_def)+

lemma touch_chain_inv: "index_inv s \<Longrightarrow> index_inv (touch_chain as s)"
proof -
  have "index_inv t \<Longrightarrow> index_inv (foldl (\<lambda>s a. set_block a (\<lambda>k. k\<lparr>last_access := c\<rparr>) s) t as)" for t :: "('a, 'b) prefix_index" and c
    by (induction as arbitrary: t) (simp_all add: touch_inv del: set_block_objs)
  then show "index_inv s \<Longrightarrow> index_inv (touch_chain as s)" by (simp add: touch_chain_def tick_def clock_inv Let_def)
qed

lemma insert_block_keeps: "keeps index_inv (insert_block a)"
proof -
  have "index_inv (snd (insert_block a s))" if inv: "index_inv s" for s :: "('a, 'b) prefix_index"
  proof (cases "validate (resid (objs s a)) = Inr ()")
    case False
    then show ?thesis using inv by (cases "validate (resid (objs s a))") (simp_all add: insert_block_def Let_def)
  next
    case v: True
    let ?b = "stable_block_id (objs s a)"
    show ?thesis
    proof (cases "get_block s ?b")
      case (Some q)
      let ?t = "tick (s\<lparr>duplicate_commits := duplicate_commits s + 1\<rparr>)"
      have "index_inv ?t" using inv by (simp add: tick_def clock_inv)
      from touch_inv [OF this, of q "clock ?t"] show ?thesis using v Some by (simp add: insert_block_def Let_def)
    next
      case new: None
      show ?thesis
      proof (cases "case max_blocks s of None \<Rightarrow> False | Some k \<Rightarrow> num_blocks s \<ge> k")
        case True
        have "keeps index_inv (thenE evictable_blocks (raiseE RuntimeError) :: ('a, 'b, nat) index_op)"
          unfolding thenE_def by (intro keeps_bindE count_keeps keeps_pure)
        then show ?thesis using new v True inv by (simp add: insert_block_def Let_def keeps_def)
      next
        case room: False
        then have room': "num_blocks s < k" if "max_blocks s = Some k" for k using that by simp
        show ?thesis
        proof (cases "check_parent s (objs s a)")
          case (Inr u)
          obtain R m where "insertable s a ?b R m" "insert_block a s = (Inr a, inserted a ?b R m s)"
            using insert_block_fresh [OF inv refl new v _ room'] Inr by auto
          then show ?thesis using inserted_inv [OF _ room'] by simp
        qed (use new v room inv in \<open>simp add: insert_block_def Let_def\<close>)
      qed
    qed
  qed
  then show ?thesis by (simp add: keeps_def)
qed

end
