(* ===== verification/Prefix_Removal.thy ===== *)
theory Prefix_Removal
  imports Prefix_Insertion
begin

text \<open>
  Removing a block from the prefix index: a leaf that is locally free is always a member of the
  freeable set, so its removal needs no repair of the counters of its ancestors.
\<close>

section \<open>The state after a removal\<close>

definition unlink :: "'b \<Rightarrow> 'b radix \<Rightarrow> 'b routing_membership \<Rightarrow> ('b, 'p) prefix_index \<Rightarrow> ('b, 'p) prefix_index" where
  "unlink b R m s = s\<lparr>backend := R, blocks := dict_pop b (blocks s),
     freeable_ids := map_option (\<lambda>F. F - {b}) (freeable_ids s),
     blocked_freeable_children := (if freeable_ids s = None then blocked_freeable_children s
       else (blocked_freeable_children s)(b := None)),
     routing_membership_ids := m, routing_snapshot_cache := None\<rparr>"

definition removable :: "('b::linorder, 'p) prefix_index \<Rightarrow> nat \<Rightarrow> 'b \<Rightarrow> 'b radix \<Rightarrow> 'b routing_membership \<Rightarrow> bool" where
  "removable s a b R m \<longleftrightarrow>
     index_inv s \<and> get_block s b = Some a \<and> locally_free (objs s a) \<and> kids_of (index_parent s) b = {} \<and>
     radix_ok R \<and> block_parent R = (block_parent (backend s))(b := None) \<and>
     membership_inv m \<and> member_keys m = member_keys (routing_membership_ids s) - {b}"

lemma unlink_sel [simp]:
  "objs (unlink b R m s) = objs s" "is_device (unlink b R m s) x = is_device s x"
  by (simp_all add: unlink_def is_device_def)

lemma unlink_get: "get_block (unlink b R m s) = (get_block s)(b := None)"
  by (simp add: get_block_def [abs_def] unlink_def delete_conv')

lemma unlink_parent: "index_parent (unlink b R m s) = (index_parent s)(b := None)"
  by (auto simp: index_parent_def unlink_get fun_eq_iff)

lemma unlink_obj_at: "c \<noteq> b \<Longrightarrow> obj_at (unlink b R m s) c = obj_at s c"
  by (simp add: obj_at_def unlink_get)

lemma removableD:
  assumes "removable s a b R m"
  shows "index_inv s" "get_block s b = Some a" "locally_free (objs s a)" "kids_of (index_parent s) b = {}"
    "shape_ok (unlink b R m s)" "resid_ok (unlink b R m s)"
proof -
  show inv: "index_inv s" and b: "get_block s b = Some a" and "locally_free (objs s a)"
    and kids: "kids_of (index_parent s) b = {}"
    using assms by (simp_all add: removable_def)
  note sh = shape_okD [OF index_invD(1) [OF inv]]
  have R: "radix_ok R" "block_parent R = (index_parent s)(b := None)"
    and m: "membership_inv m" "member_keys m = fst ` set (blocks s) - {b}"
    using assms sh(2,6) by (simp_all add: removable_def)
  have keys: "fst ` set (dict_pop b (blocks s)) = fst ` set (blocks s) - {b}" by (metis delete_keys list.set_map set_removeAll)
  show "shape_ok (unlink b R m s)"
    unfolding shape_ok_def unlink_parent unlink_get
    using R m sh(3,4) keys by (simp add: unlink_def distinct_delete)
  have "validate (resid (objs s x)) = Inr () \<and>
     (\<forall>q y. parent_block_id (objs s x) = Some q \<longrightarrow> get_block (unlink b R m s) q = Some y \<longrightarrow>
        (is_device s x \<longrightarrow> is_device s y) \<and> (host_present (resid (objs s x)) \<longrightarrow> host_present (resid (objs s y))))"
    if "get_block (unlink b R m s) c = Some x" for c x
    using that resid_okD [OF inv, of c x] by (auto simp: unlink_get split: if_splits)
  then show "resid_ok (unlink b R m s)" unfolding resid_ok_def unlink_sel by blast
qed

lemma removable_free:
  assumes "removable s a b R m"
  shows "b \<in> index_free s" "index_free (unlink b R m s) = index_free s - {b}"
proof -
  note r = removableD [OF assms]
  note f = shape_okD(7) [OF index_invD(1) [OF r(1)]]
  have "b \<in> dom (index_parent s)" "good_at s b" using r(2,3) by (auto simp: index_parent_def obj_at_def)
  note drop = free_set_drop_leaf [where good="good_at s" and good'="good_at (unlink b R m s)", OF f this(1) r(4) this(2)]
  show "b \<in> index_free s" unfolding index_free_def by (rule drop(1)) (simp add: unlink_obj_at)
  show "index_free (unlink b R m s) = index_free s - {b}"
    unfolding index_free_def unlink_parent by (rule drop(2)) (simp add: unlink_obj_at)
qed

lemma mark_removed_inv: "index_inv (mark_removed b s) \<longleftrightarrow> index_inv (mark_capacity_mutated s)"
  by (rule index_inv_cong)
    (simp_all add: same_view_def mark_removed_def mark_capacity_mutated_def mark_mutated_def Let_def split: option.split)

lemma removed_inv:
  assumes rem: "removable s a b R m"
  shows "index_inv (mark_removed b (unlink b R m s))"
proof -
  let ?t = "unlink b R m s"
  note r = removableD [OF rem] and free = removable_free [OF rem]
  note f = shape_okD(7) [OF index_invD(1) [OF r(1)]]
  have "index_inv (mark_capacity_mutated ?t)"
  proof (rule index_inv_bump [OF r(5) _ r(6)])
    have "counts (index_parent ?t) (index_free s - {b}) = (counts (index_parent s) (index_free s))(b := None)"
      unfolding unlink_parent using counts_drop_leaf [OF f r(4), of "index_free s"] free(1) by simp
    then show "free_ok ?t" using index_invD(2) [OF r(1)] free(2) unfolding free_ok_def
      by (auto simp: unlink_def)
    show "bound_ok ?t" using index_invD(5) [OF r(1)] length_delete_le [of b "blocks s"]
      by (fastforce simp: bound_ok_def unlink_def)
    show "snapshot_ok ?t" by (simp add: snapshot_ok_def unlink_def)
  qed (use index_invD(4) [OF r(1)] in \<open>simp_all add: cache_ok_def unlink_def\<close>)
  then show ?thesis by (simp add: mark_removed_inv)
qed

section \<open>The operation\<close>

lemma index_child_count_ok:
  assumes "shape_ok s" and "get_block s b = Some a"
  shows "index_child_count s b = Inr (int (card (kids_of (index_parent s) b)))"
proof -
  note sh = shape_okD [OF assms(1)]
  have "block_parent (backend s) b \<noteq> None" unfolding sh(2) using assms(2) by (simp add: index_parent_def)
  then obtain cs where "child_count (backend s) b = Inr (int (length cs))" "distinct cs" "set cs = kids_of (index_parent s) b"
    using child_block_ids_ok [OF sh(1)] sh(2) by metis
  then show ?thesis using distinct_card [of cs] by (simp add: index_child_count_def)
qed

lemma index_child_count_zero:
  assumes "shape_ok s" and "get_block s b = Some a"
  shows "index_child_count s b = Inr 0 \<longleftrightarrow> kids_of (index_parent s) b = {}"
  using index_child_count_ok [OF assms] kids_finite [OF shape_okD(7) [OF assms(1)], of b] by simp

lemma drop_freeable_member:
  assumes "\<And>F. freeable_ids s = Some F \<Longrightarrow> b \<in> F \<and> blocked_freeable_children s b \<noteq> None"
  shows "drop_freeable b p s = (Inr (), s\<lparr>freeable_ids := map_option (\<lambda>F. F - {b}) (freeable_ids s),
     blocked_freeable_children := (if freeable_ids s = None then blocked_freeable_children s
       else (blocked_freeable_children s)(b := None))\<rparr>)"
  using assms by (cases "freeable_ids s") (auto simp: drop_freeable_def Let_def)

lemma remove_from_index_ok:
  assumes inv: "index_inv s" and b: "get_block s b = Some a" "locally_free (objs s a)" "kids_of (index_parent s) b = {}"
  shows "\<exists>R m. removable s a b R m \<and> remove_block_from_index b s = (Inr a, mark_removed b (unlink b R m s))"
proof -
  note sh = shape_okD [OF index_invD(1) [OF inv]]
  have "block_parent (backend s) b \<noteq> None" "\<And>c. block_parent (backend s) c \<noteq> Some (Some b)"
    unfolding sh(2) using b(1,3) by (auto simp: index_parent_def)
  then obtain R where R: "remove_block b (backend s) = (Inr (), R)" "radix_ok R"
    "block_parent R = (block_parent (backend s))(b := None)"
    using remove_block_ok [OF sh(1)] by blast
  have "b \<in> member_keys (routing_membership_ids s)" using b(1) sh(6) dom_get_block [of s] by auto
  then obtain m where m: "membership_remove (routing_membership_ids s) b = Inr m" "membership_inv m"
    "member_keys m = member_keys (routing_membership_ids s) - {b}"
    using routing.rem_old [OF sh(5)] by blast
  have rem: "removable s a b R m" unfolding removable_def using inv b R m by simp
  let ?t = "s\<lparr>backend := R, blocks := dict_pop b (blocks s)\<rparr>"
  have "drop_freeable b (parent_block_id (objs s a)) ?t =
    (Inr (), ?t\<lparr>freeable_ids := map_option (\<lambda>F. F - {b}) (freeable_ids ?t),
      blocked_freeable_children := (if freeable_ids ?t = None then blocked_freeable_children ?t
        else (blocked_freeable_children ?t)(b := None))\<rparr>)"
    by (rule drop_freeable_member)
      (use index_invD(2) [OF inv] removable_free(1) [OF rem] b(1) in \<open>auto simp: free_ok_def counts_def index_parent_def\<close>)
  then have "remove_block_from_index b s = (Inr a, mark_removed b (unlink b R m s))"
    using b(1,2) R(1) m(1) iffD2 [OF index_child_count_zero [OF index_invD(1) [OF inv] b(1)] b(3)]
    by (simp add: remove_block_from_index_def Let_def eff_simps backend_remove_block_def record_routing_remove_def unlink_def)
  then show ?thesis using rem by blast
qed

lemma remove_from_index_error:
  assumes inv: "index_inv s"
    and no: "\<not> (\<exists>a. get_block s b = Some a \<and> locally_free (objs s a) \<and> kids_of (index_parent s) b = {})"
  shows "remove_block_from_index b s = (Inl (if get_block s b = None then KeyError else RuntimeError), s)"
proof (cases "get_block s b")
  case (Some a)
  then show ?thesis
    using no index_child_count_ok [OF index_invD(1) [OF inv] Some] index_child_count_zero [OF index_invD(1) [OF inv] Some]
    by (auto simp: remove_block_from_index_def Let_def)
qed (simp add: remove_block_from_index_def)

lemma remove_from_index_keeps: "keeps index_inv (remove_block_from_index b)"
proof -
  have "index_inv (snd (remove_block_from_index b s))" if inv: "index_inv s" for s :: "('a, 'b) prefix_index"
  proof (cases "\<exists>a. get_block s b = Some a \<and> locally_free (objs s a) \<and> kids_of (index_parent s) b = {}")
    case True
    then obtain a R m where "removable s a b R m" "remove_block_from_index b s = (Inr a, mark_removed b (unlink b R m s))"
      using remove_from_index_ok [OF inv] by blast
    then show ?thesis using removed_inv by simp
  next
    case False
    then show ?thesis using remove_from_index_error [OF inv] inv by simp
  qed
  then show ?thesis by (simp add: keeps_def)
qed

lemma committed_inv: "index_inv (s\<lparr>committed_blocks := x\<rparr>) \<longleftrightarrow> index_inv s"
  by (rule index_inv_cong) (simp_all add: same_view_def)

lemma rollback_keeps: "keeps index_inv (rollback_inserted_leaf a)"
proof -
  have k: "keeps index_inv (thenE (remove_block_from_index b) (modifyE (\<lambda>s. s\<lparr>committed_blocks := committed_blocks s - 1\<rparr>)))"
    for b :: 'a
    unfolding thenE_def
    by (intro keeps_bindE remove_from_index_keeps) (simp add: keeps_def eff_simps committed_inv)
  show ?thesis unfolding keeps_def
    by (auto simp: rollback_inserted_leaf_def Let_def k [unfolded keeps_def, rule_format] split: sum.split)
qed

end
