(* ===== verification/Eviction_Order.thy ===== *)
theory Eviction_Order
  imports Prefix_Removal
begin

text \<open>
  The eviction loops of the prefix index.  \<open>evicts\<close> is the specification: blocks are removed one at a
  time, each of them a leaf that is least in (priority, last access, id) among all leaves that may go
  in the state reached.  The loops keep a heap of candidates instead; the locale \<open>eviction\<close> shows that
  the heap always holds exactly the blocks that may go, for any eligibility test of the form the two
  loops use, and it is interpreted on both.
\<close>

section \<open>The specification\<close>

definition evictable_by :: "(('b, 'p) cache_block \<Rightarrow> bool) \<Rightarrow> ('b, 'p) prefix_index \<Rightarrow> 'b set" where
  "evictable_by elig s = {b. \<exists>a. get_block s b = Some a \<and> elig (objs s a) \<and> kids_of (index_parent s) b = {}}"

definition least_candidate :: "(('b, 'p) cache_block \<Rightarrow> bool) \<Rightarrow> ('b::linorder, 'p) prefix_index \<Rightarrow> 'b \<Rightarrow> nat \<Rightarrow> bool" where
  "least_candidate elig s b a \<longleftrightarrow> get_block s b = Some a \<and> b \<in> evictable_by elig s \<and>
     (\<forall>c x. c \<in> evictable_by elig s \<longrightarrow> get_block s c = Some x \<longrightarrow> candidate_of s a b \<le> candidate_of s x c)"

inductive evicts ::
  "(('b, 'p) cache_block \<Rightarrow> bool) \<Rightarrow> (('b, 'p) prefix_index \<Rightarrow> ('b, 'p) prefix_index) \<Rightarrow>
   ('b::linorder, 'p) prefix_index \<Rightarrow> nat list \<Rightarrow> ('b, 'p) prefix_index \<Rightarrow> bool" for elig bump where
  evicts_nil: "evicts elig bump s [] s"
| evicts_step: "least_candidate elig s b a \<Longrightarrow> remove_block_from_index b s = (Inr a, s1) \<Longrightarrow>
    evicts elig bump (bump s1) as t \<Longrightarrow> evicts elig bump s (a # as) t"

inductive_cases evicts_ConsE: "evicts elig bump s (a # as) t"

abbreviation ids_of :: "('b, 'p) prefix_index \<Rightarrow> nat list \<Rightarrow> 'b list" where
  "ids_of s as \<equiv> map (\<lambda>a. stable_block_id (objs s a)) as"

abbreviation weight_of :: "(('b, 'p) cache_block \<Rightarrow> int) \<Rightarrow> ('b, 'p) prefix_index \<Rightarrow> nat list \<Rightarrow> int" where
  "weight_of weight s as \<equiv> sum_list (map (\<lambda>a. weight (objs s a)) as)"

text \<open>Eviction stops as soon as the weight is reached, and otherwise only when nothing may go.\<close>

definition evicted_enough ::
  "(('b, 'p) cache_block \<Rightarrow> bool) \<Rightarrow> (('b, 'p) cache_block \<Rightarrow> int) \<Rightarrow> int \<Rightarrow> ('b, 'p) prefix_index \<Rightarrow> nat list \<Rightarrow> ('b, 'p) prefix_index \<Rightarrow> bool" where
  "evicted_enough elig weight needed s as t \<longleftrightarrow>
     (weight_of weight s as \<ge> needed \<or> evictable_by elig t = {}) \<and>
     (\<forall>n<length as. weight_of weight s (take n as) < needed)"

section \<open>The candidate heap\<close>

definition heap_ok :: "(nat \<Rightarrow> bool result) \<Rightarrow> ('b, 'p) prefix_index \<Rightarrow> 'b set \<Rightarrow> 'b candidate list \<times> 'b set \<Rightarrow> bool" where
  "heap_ok can s E hq \<longleftrightarrow> distinct (fst hq) \<and> snd hq = E \<and>
     set (fst hq) = (\<lambda>b. candidate_of s (the (get_block s b)) b) ` E \<and>
     (\<forall>b\<in>E. \<exists>a. get_block s b = Some a \<and> can a = Inr True)"

lemma pop_candidate_ok:
  assumes hq: "heap_ok can s E (heap, queued)"
  shows "E = {} \<Longrightarrow> pop_candidate can s (heap, queued) = Inr None"
    and "E \<noteq> {} \<Longrightarrow> \<exists>b a heap'. b \<in> E \<and> get_block s b = Some a \<and>
      pop_candidate can s (heap, queued) = Inr (Some (a, heap', queued - {b})) \<and>
      distinct heap' \<and> set heap' = set heap - {candidate_of s a b} \<and>
      (\<forall>c\<in>E. candidate_of s a b \<le> candidate_of s (the (get_block s c)) c)"
proof -
  let ?key = "\<lambda>b. candidate_of s (the (get_block s b)) b"
  have set: "set heap = ?key ` E" and d: "distinct heap"
    and can: "\<And>b. b \<in> E \<Longrightarrow> \<exists>a. get_block s b = Some a \<and> can a = Inr True"
    using hq by (simp_all add: heap_ok_def)
  show "E = {} \<Longrightarrow> pop_candidate can s (heap, queued) = Inr None"
    using set by (simp add: pop_candidate.simps)
  assume "E \<noteq> {}"
  then have ne: "heap \<noteq> []" using set by auto
  let ?m = "Min (set heap)"
  have m: "?m \<in> set heap" "\<forall>x\<in>set heap. ?m \<le> x" using ne by (simp_all add: Min_in)
  then obtain b where b: "b \<in> E" "?m = ?key b" using set by auto
  obtain a where a: "get_block s b = Some a" "can a = Inr True" using can [OF b(1)] by blast
  have id: "snd (snd ?m) = b" using b(2) by (simp add: candidate_of_def)
  have "pop_candidate can s (heap, queued) = Inr (Some (a, remove1 ?m heap, queued - {b}))"
    using ne a id by (subst pop_candidate.simps) (simp add: Let_def)
  moreover have "\<forall>c\<in>E. candidate_of s a b \<le> ?key c" using m(2) b(2) a(1) set by auto
  ultimately show "\<exists>b a heap'. b \<in> E \<and> get_block s b = Some a \<and>
      pop_candidate can s (heap, queued) = Inr (Some (a, heap', queued - {b})) \<and>
      distinct heap' \<and> set heap' = set heap - {candidate_of s a b} \<and>
      (\<forall>c\<in>E. candidate_of s a b \<le> ?key c)"
    using b a d by (intro exI [of _ b] exI [of _ a] exI [of _ "remove1 ?m heap"]) simp
qed

lemma queue_if_ok:
  assumes hq: "heap_ok can s E hq" and b: "b \<notin> E" "get_block s b = Some a" "can a = Inr e"
  shows "\<exists>hq'. queue_if can s (Some b) hq = Inr hq' \<and> heap_ok can s (if e then insert b E else E) hq'"
proof -
  have "candidate_of s a b \<notin> set (fst hq)"
    using hq b(1) by (auto simp: heap_ok_def candidate_of_def)
  then show ?thesis using hq b by (auto simp: queue_if_def heap_ok_def)
qed

lemma queue_all_ok:
  assumes "\<And>b. b \<in> set bs \<Longrightarrow> \<exists>a. get_block s b = Some a \<and> can a = Inr (el b)"
  shows "distinct bs \<Longrightarrow> set bs \<inter> E = {} \<Longrightarrow> heap_ok can s E hq \<Longrightarrow>
    \<exists>hq'. queue_all can s bs hq = Inr hq' \<and> heap_ok can s (E \<union> {b \<in> set bs. el b}) hq'"
  using assms
proof (induction bs arbitrary: E hq)
  case Nil
  then show ?case by simp
next
  case (Cons b bs)
  obtain a where a: "get_block s b = Some a" "can a = Inr (el b)" using Cons.prems(4) by auto
  obtain hq1 where hq1: "queue_if can s (Some b) hq = Inr hq1" "heap_ok can s (if el b then insert b E else E) hq1"
    using queue_if_ok [OF Cons.prems(3) _ a] Cons.prems(2) by auto
  have "\<exists>hq'. queue_all can s bs hq1 = Inr hq' \<and> heap_ok can s ((if el b then insert b E else E) \<union> {b \<in> set bs. el b}) hq'"
    by (rule Cons.IH [OF _ _ hq1(2)]) (use Cons.prems in auto)
  moreover have "(if el b then insert b E else E) \<union> {b \<in> set bs. el b} = E \<union> {c \<in> set (b # bs). el c}" by auto
  ultimately show ?case using hq1(1) by simp
qed

text \<open>The heap after the least entry was taken and the state changed without touching the other keys.\<close>

lemma heap_after_pop:
  assumes hq: "heap_ok can s E (heap, queued)" and b: "b \<in> E" "get_block s b = Some a"
    and heap': "distinct heap'" "set heap' = set heap - {candidate_of s a b}"
    and key: "\<And>c x. c \<in> E - {b} \<Longrightarrow> get_block s c = Some x \<Longrightarrow> get_block t c = Some x \<and> candidate_of t x c = candidate_of s x c"
    and can: "\<And>c x. c \<in> E - {b} \<Longrightarrow> get_block t c = Some x \<Longrightarrow> can' x = Inr True"
  shows "heap_ok can' t (E - {b}) (heap', queued - {b})"
proof -
  have at: "\<exists>x. get_block s c = Some x \<and> get_block t c = Some x \<and> candidate_of t x c = candidate_of s x c \<and> can' x = Inr True"
    if c: "c \<in> E - {b}" for c
  proof -
    obtain x where "get_block s c = Some x" using hq c by (auto simp: heap_ok_def)
    then show ?thesis using key [OF c] can [OF c] by blast
  qed
  have "(\<lambda>c. candidate_of t (the (get_block t c)) c) ` (E - {b}) = (\<lambda>c. candidate_of s (the (get_block s c)) c) ` (E - {b})"
    by (rule image_cong [OF refl]) (use at in fastforce)
  also have "\<dots> = set heap - {candidate_of s a b}"
    using hq b by (auto simp: heap_ok_def candidate_of_def)
  finally show ?thesis using hq heap' at unfolding heap_ok_def by auto
qed

section \<open>The loop\<close>

lemma mark_removed_view: "same_view (mark_removed b s) s"
  by (simp add: same_view_def mark_removed_def mark_capacity_mutated_def mark_mutated_def Let_def split: option.split)

lemma removed_view:
  "get_block (mark_removed b (unlink b R m s)) = (get_block s)(b := None)"
  "objs (mark_removed b (unlink b R m s)) = objs s"
  "index_parent (mark_removed b (unlink b R m s)) = (index_parent s)(b := None)"
  using mark_removed_view [of b "unlink b R m s"]
  by (simp_all add: same_view_simps(1,2) [OF mark_removed_view] unlink_get unlink_parent) (simp add: same_view_def)

locale eviction =
  fixes can :: "('b::linorder, 'p) prefix_index \<Rightarrow> nat \<Rightarrow> bool result"
    and elig :: "('b, 'p) cache_block \<Rightarrow> bool"
    and bump :: "('b, 'p) prefix_index \<Rightarrow> ('b, 'p) prefix_index"
  assumes can_ok: "index_inv s \<Longrightarrow> get_block s b = Some a \<Longrightarrow>
      can s a = Inr (elig (objs s a) \<and> kids_of (index_parent s) b = {})"
    and elig_free: "elig k \<Longrightarrow> locally_free k"
    and bump_inv: "index_inv (bump s) \<longleftrightarrow> index_inv s"
    and bump_view: "same_view (bump s) s"
begin

lemma bump_sel: "objs (bump s) = objs s" "get_block (bump s) = get_block s" "index_parent (bump s) = index_parent s"
  using bump_view [of s] same_view_simps(1,2) [OF bump_view] by (simp_all add: same_view_def)

text \<open>What the removal of one candidate does.\<close>

lemma evict_one:
  assumes inv: "index_inv s" and b: "b \<in> evictable_by elig s" "get_block s b = Some a"
  shows "\<exists>s1. remove_block_from_index b s = (Inr a, s1) \<and> index_inv (bump s1) \<and> objs (bump s1) = objs s \<and>
    get_block (bump s1) = (get_block s)(b := None) \<and> index_parent (bump s1) = (index_parent s)(b := None) \<and>
    b \<in> index_free s \<and> index_free (bump s1) = index_free s - {b}"
proof -
  have el: "elig (objs s a)" "kids_of (index_parent s) b = {}" using b by (auto simp: evictable_by_def)
  obtain R m where rm: "removable s a b R m" "remove_block_from_index b s = (Inr a, mark_removed b (unlink b R m s))"
    using remove_from_index_ok [OF inv b(2) elig_free [OF el(1)] el(2)] by blast
  let ?s = "mark_removed b (unlink b R m s)"
  have "index_free (bump ?s) = index_free s - {b}"
    by (simp add: same_view_simps(6) [OF bump_view] same_view_simps(6) [OF mark_removed_view] removable_free(2) [OF rm(1)])
  then show ?thesis
    using rm(2) removed_inv [OF rm(1)] removable_free(1) [OF rm(1)] bump_sel [of ?s] removed_view [of b R m s]
    by (intro exI [of _ ?s]) (simp add: bump_inv)
qed

lemma evictable_after:
  assumes inv: "index_inv s" and b: "b \<in> evictable_by elig s" "get_block s b = Some a"
    and t: "objs t = objs s" "get_block t = (get_block s)(b := None)" "index_parent t = (index_parent s)(b := None)"
  shows "evictable_by elig t = (evictable_by elig s - {b}) \<union>
    {p. parent_block_id (objs s a) = Some p \<and> p \<in> evictable_by elig t}"
proof -
  have kids: "kids_of (index_parent s) b = {}" using b by (auto simp: evictable_by_def)
  have par: "index_parent s b = Some (parent_block_id (objs s a))" by (rule index_parent_at [OF b(2)])
  have eq: "x \<in> evictable_by elig t \<longleftrightarrow> x \<in> evictable_by elig s \<and> x \<noteq> b" if "parent_block_id (objs s a) \<noteq> Some x" for x
  proof -
    have "kids_of (index_parent t) x = kids_of (index_parent s) x"
      unfolding t(3) kids_drop_leaf [OF kids] using par that by auto
    then show ?thesis using t(1,2) by (auto simp: evictable_by_def)
  qed
  have "p \<notin> evictable_by elig s" if "parent_block_id (objs s a) = Some p" for p
    using par that by (auto simp: evictable_by_def)
  then show ?thesis using eq by blast
qed

lemma evict_turn:
  assumes inv: "index_inv s" and hq: "heap_ok (can s) s (evictable_by elig s) hq" and ne: "evictable_by elig s \<noteq> {}"
  shows "\<exists>b a hq1 s1 hq2. pop_candidate (can s) s hq = Inr (Some (a, hq1)) \<and> least_candidate elig s b a \<and>
    stable_block_id (objs s a) = b \<and> remove_block_from_index b s = (Inr a, s1) \<and>
    queue_if (can (bump s1)) (bump s1) (parent_block_id (objs s a)) hq1 = Inr hq2 \<and>
    heap_ok (can (bump s1)) (bump s1) (evictable_by elig (bump s1)) hq2"
proof -
  obtain heap queued where h: "hq = (heap, queued)" by (cases hq)
  obtain b a heap' where pop: "b \<in> evictable_by elig s" "get_block s b = Some a"
      "pop_candidate (can s) s hq = Inr (Some (a, heap', queued - {b}))" "distinct heap'"
      "set heap' = set heap - {candidate_of s a b}"
      "\<forall>c\<in>evictable_by elig s. candidate_of s a b \<le> candidate_of s (the (get_block s c)) c"
    using pop_candidate_ok(2) [OF hq [unfolded h] ne] unfolding h by blast
  obtain s1 where s1: "remove_block_from_index b s = (Inr a, s1)" "index_inv (bump s1)" "objs (bump s1) = objs s"
      "get_block (bump s1) = (get_block s)(b := None)" "index_parent (bump s1) = (index_parent s)(b := None)"
    using evict_one [OF inv pop(1,2)] by blast
  let ?t = "bump s1" and ?E = "evictable_by elig s - {b}" and ?p = "parent_block_id (objs s a)"
  note after = evictable_after [OF inv pop(1,2) s1(3-5)] and f = shape_okD(7) [OF index_invD(1) [OF inv]]
  have hq1: "heap_ok (can ?t) ?t ?E (heap', queued - {b})"
  proof (rule heap_after_pop [OF hq [unfolded h] pop(1,2,4,5)])
    show "get_block ?t c = Some x \<and> candidate_of ?t x c = candidate_of s x c" if "c \<in> ?E" "get_block s c = Some x" for c x
      using that s1(3,4) by (simp add: candidate_of_def)
    show "can ?t x = Inr True" if "c \<in> ?E" "get_block ?t c = Some x" for c x
    proof -
      have "c \<in> evictable_by elig ?t" using after that(1) by blast
      then show ?thesis using can_ok [OF s1(2) that(2)] that(2) by (auto simp: evictable_by_def)
    qed
  qed
  have "\<exists>hq2. queue_if (can ?t) ?t ?p (heap', queued - {b}) = Inr hq2 \<and> heap_ok (can ?t) ?t (evictable_by elig ?t) hq2"
  proof (cases ?p)
    case None
    then show ?thesis using hq1 after by (simp add: queue_if_def)
  next
    case (Some p)
    have par: "index_parent s b = Some (Some p)" using index_parent_at [OF pop(2)] Some by simp
    have "p \<noteq> b" using pop(1) par by (auto simp: evictable_by_def)
    obtain q where q: "get_block s p = Some q" using forest_up [OF f par] by (auto simp: index_parent_def)
    have gq: "get_block ?t p = Some q" using q \<open>p \<noteq> b\<close> s1(4) by simp
    have pE: "p \<notin> ?E" using par by (auto simp: evictable_by_def)
    have "can ?t q = Inr (p \<in> evictable_by elig ?t)" using can_ok [OF s1(2) gq] gq by (simp add: evictable_by_def)
    moreover have "(if p \<in> evictable_by elig ?t then insert p ?E else ?E) = evictable_by elig ?t" using after Some by auto
    ultimately show ?thesis using queue_if_ok [OF hq1 pE gq, of "p \<in> evictable_by elig ?t"] Some by simp
  qed
  moreover have "least_candidate elig s b a" using pop(1,2,6) by (auto simp: least_candidate_def)
  moreover have "stable_block_id (objs s a) = b" by (rule shape_okD(4) [OF index_invD(1) [OF inv] pop(2)])
  ultimately show ?thesis using pop(3) s1(1) by blast
qed

text \<open>Everything a run of the specification implies.\<close>

lemma evicts_props:
  assumes "evicts elig bump s as t" and "index_inv s"
  shows "index_inv t \<and> objs t = objs s \<and> distinct (ids_of s as) \<and> set (ids_of s as) \<subseteq> index_free s \<and>
    index_free t = index_free s - set (ids_of s as) \<and>
    (\<forall>b. get_block t b = (if b \<in> set (ids_of s as) then None else get_block s b))"
  using assms
proof (induction rule: evicts.induct)
  case (evicts_nil s)
  then show ?case by simp
next
  case (evicts_step s b a s1 as t)
  have b: "b \<in> evictable_by elig s" "get_block s b = Some a" using evicts_step.hyps(1) by (simp_all add: least_candidate_def)
  have s1: "index_inv (bump s1)" "objs (bump s1) = objs s" "get_block (bump s1) = (get_block s)(b := None)"
      "b \<in> index_free s" "index_free (bump s1) = index_free s - {b}"
    using evict_one [OF evicts_step.prems b] evicts_step.hyps(2) by auto
  have id: "stable_block_id (objs s a) = b" by (rule shape_okD(4) [OF index_invD(1) [OF evicts_step.prems] b(2)])
  note IH = evicts_step.IH [OF s1(1), unfolded s1(2)]
  have "b \<notin> set (ids_of s as)" using IH s1(5) by blast
  then show ?case using IH s1(3-5) id by auto
qed

lemma removed_length:
  assumes "index_inv s" "index_inv t" "get_block t = (get_block s)(b := None)" "get_block s b = Some a"
  shows "length (blocks s) = Suc (length (blocks t))"
proof -
  have d: "dom (index_parent t) = dom (index_parent s) - {b}" "b \<in> dom (index_parent s)"
    unfolding index_parent_dom using assms(3,4) by auto
  have "card (dom (index_parent s)) = Suc (card (dom (index_parent t)))"
    unfolding d(1) by (rule card.remove [OF forest_finite [OF shape_okD(7) [OF index_invD(1) [OF assms(1)]]] d(2)])
  then show ?thesis
    by (simp only: card_dom_index [OF index_invD(1) [OF assms(1)]] card_dom_index [OF index_invD(1) [OF assms(2)]])
qed

lemma evict_loop_ok:
  assumes "index_inv s" and "heap_ok (can s) s (evictable_by elig s) hq" and "length (blocks s) < fuel"
  shows "\<exists>as t. evicts elig bump s as t \<and>
    (evict_loop fuel can bump weight needed got hq ev s = (Inr (ev @ as), t) \<and> evicted_enough elig weight (needed - got) s as t \<or>
     evict_loop fuel can bump weight needed got hq ev s = (Inl ValueError, t) \<and>
       (\<exists>b a. get_block s b = Some a \<and> weight (objs s a) < 0))"
  using assms
proof (induction fuel arbitrary: s hq got ev)
  case (Suc fuel)
  show ?case
  proof (cases "got < needed \<and> evictable_by elig s \<noteq> {}")
    case False
    have "evict_loop (Suc fuel) can bump weight needed got hq ev s = (Inr ev, s)"
      using False pop_candidate_ok(1) [of "can s" s "{}" "fst hq" "snd hq"] Suc.prems(2) by auto
    then show ?thesis using False
      by (intro exI [of _ "[]"] exI [of _ s]) (auto simp: evicted_enough_def evicts_nil)
  next
    case True
    obtain b a hq1 s1 hq2 where turn: "pop_candidate (can s) s hq = Inr (Some (a, hq1))" "least_candidate elig s b a"
        "stable_block_id (objs s a) = b" "remove_block_from_index b s = (Inr a, s1)"
        "queue_if (can (bump s1)) (bump s1) (parent_block_id (objs s a)) hq1 = Inr hq2"
        "heap_ok (can (bump s1)) (bump s1) (evictable_by elig (bump s1)) hq2"
      using evict_turn [OF Suc.prems(1,2)] True by blast
    have b: "b \<in> evictable_by elig s" "get_block s b = Some a" using turn(2) by (simp_all add: least_candidate_def)
    have s1: "index_inv (bump s1)" "objs (bump s1) = objs s" "get_block (bump s1) = (get_block s)(b := None)"
      using evict_one [OF Suc.prems(1) b] turn(4) by auto
    show ?thesis
    proof (cases "weight (objs s a) < 0")
      case neg: True
      then have "evict_loop (Suc fuel) can bump weight needed got hq ev s = (Inl ValueError, s)"
        using True turn(1) by (simp add: Let_def)
      then show ?thesis using b(2) neg evicts_nil by blast
    next
      case w: False
      let ?got = "got + weight (objs s a)"
      have len: "length (blocks (bump s1)) < fuel" using removed_length [OF Suc.prems(1) s1(1,3) b(2)] Suc.prems(3) by simp
      obtain as t where run: "evicts elig bump (bump s1) as t" and rest:
          "evict_loop fuel can bump weight needed ?got hq2 (ev @ [a]) (bump s1) = (Inr ((ev @ [a]) @ as), t) \<and>
             evicted_enough elig weight (needed - ?got) (bump s1) as t \<or>
           evict_loop fuel can bump weight needed ?got hq2 (ev @ [a]) (bump s1) = (Inl ValueError, t) \<and>
             (\<exists>b a. get_block (bump s1) b = Some a \<and> weight (objs (bump s1) a) < 0)"
        using Suc.IH [OF s1(1) turn(6) len] by blast
      have step: "evict_loop (Suc fuel) can bump weight needed got hq ev s =
          evict_loop fuel can bump weight needed ?got hq2 (ev @ [a]) (bump s1)"
        using True turn w by (simp add: Let_def)
      have "evicted_enough elig weight (needed - got) s (a # as) t" if "evicted_enough elig weight (needed - ?got) (bump s1) as t"
        using that True unfolding evicted_enough_def s1(2) by (auto simp: take_Cons less_Suc_eq_0_disj split: nat.splits)
      moreover have "\<exists>b a. get_block s b = Some a \<and> weight (objs s a) < 0"
        if "\<exists>b a. get_block (bump s1) b = Some a \<and> weight (objs (bump s1) a) < 0"
        using that s1(2,3) by (auto split: if_splits)
      moreover have "evicts elig bump s (a # as) t" using turn(2,4) run by (rule evicts_step)
      ultimately show ?thesis using rest unfolding step by (intro exI [of _ "a # as"] exI [of _ t]) auto
    qed
  qed
qed simp

lemma evict_batch_run:
  assumes inv: "index_inv s"
  shows "\<exists>as t. evicts elig bump s as t \<and>
    (evict_batch can bump needed weight s = (Inr as, t) \<and> evicted_enough elig weight needed s as t \<or>
     evict_batch can bump needed weight s = (Inl ValueError, t) \<and> (\<exists>b a. get_block s b = Some a \<and> weight (objs s a) < 0))"
proof (cases "needed \<le> 0")
  case True
  then show ?thesis by (intro exI [of _ "[]"] exI [of _ s]) (auto simp: evict_batch_def evicted_enough_def evicts_nil)
next
  case False
  note sh = shape_okD [OF index_invD(1) [OF inv]]
  let ?L = "{b. index_parent s b \<noteq> None \<and> (\<forall>c. index_parent s c \<noteq> Some (Some b))}"
  have leaves: "leaf_block_ids (backend s) = ?L" using leaf_block_ids_ok [OF sh(1)] unfolding sh(2) .
  have fin: "finite ?L" by (rule finite_subset [OF _ forest_finite [OF sh(7)]]) auto
  have can: "\<exists>a. get_block s b = Some a \<and> can s a = Inr (b \<in> evictable_by elig s)" if bL: "b \<in> ?L" for b
  proof -
    obtain a where a: "get_block s b = Some a" using bL by (auto simp: index_parent_def)
    then show ?thesis using can_ok [OF inv a] bL by (auto simp: evictable_by_def)
  qed
  have "\<exists>hq. queue_all (can s) s (sorted_list_of_set ?L) ([], {}) = Inr hq \<and>
      heap_ok (can s) s ({} \<union> {b \<in> set (sorted_list_of_set ?L). b \<in> evictable_by elig s}) hq"
    by (rule queue_all_ok) (use fin can in \<open>auto simp: heap_ok_def\<close>)
  moreover have "{} \<union> {b \<in> set (sorted_list_of_set ?L). b \<in> evictable_by elig s} = evictable_by elig s"
    using fin by (auto simp: evictable_by_def index_parent_def)
  ultimately obtain hq where hq: "queue_all (can s) s (sorted_list_of_set ?L) ([], {}) = Inr hq"
      "heap_ok (can s) s (evictable_by elig s) hq" by auto
  note run = evict_loop_ok [OF inv hq(2) lessI, of weight needed 0 "[]"]
  have "evict_batch can bump needed weight s = evict_loop (Suc (length (blocks s))) can bump weight needed 0 hq [] s"
    using False hq(1) by (simp add: evict_batch_def leaves del: evict_loop.simps)
  then show ?thesis using run by (simp del: evict_loop.simps)
qed

lemma evict_batch_ok:
  assumes "index_inv s" and "\<And>b a. get_block s b = Some a \<Longrightarrow> 0 \<le> weight (objs s a)"
  shows "\<exists>as t. evict_batch can bump needed weight s = (Inr as, t) \<and>
    evicts elig bump s as t \<and> evicted_enough elig weight needed s as t"
  using evict_batch_run [OF assms(1), of needed weight] assms(2) by (meson not_less)

lemma evict_batch_keeps: "keeps index_inv (evict_batch can bump needed weight)"
  unfolding keeps_def
proof (intro allI impI)
  fix s :: "('b, 'p) prefix_index"
  assume inv: "index_inv s"
  then obtain as t where "evicts elig bump s as t" "snd (evict_batch can bump needed weight s) = t"
    using evict_batch_run [OF inv, of needed weight] by force
  then show "index_inv (snd (evict_batch can bump needed weight s))" using evicts_props [OF _ inv] by simp
qed

end

section \<open>The two loops\<close>

interpretation full: eviction can_evict locally_free "\<lambda>s. s\<lparr>evicted_blocks := evicted_blocks s + 1\<rparr>"
proof unfold_locales
  fix s :: "('a, 'b) prefix_index"
  show "can_evict s a = Inr (locally_free (objs s a) \<and> kids_of (index_parent s) b = {})"
    if "index_inv s" "get_block s b = Some a" for b a
    using index_child_count_ok [OF index_invD(1) [OF that(1)] that(2)] index_child_count_zero [OF index_invD(1) [OF that(1)] that(2)]
      shape_okD(4) [OF index_invD(1) [OF that(1)] that(2)] by (auto simp: can_evict_def)
  show "index_inv (s\<lparr>evicted_blocks := evicted_blocks s + 1\<rparr>) \<longleftrightarrow> index_inv s"
    by (rule index_inv_cong) (simp_all add: same_view_def)
qed (simp_all add: same_view_def)

definition host_only_free :: "('b, 'p) cache_block \<Rightarrow> bool" where
  "host_only_free k \<longleftrightarrow> locally_free k \<and> \<not> device_present (resid k) \<and> host_present (resid k)"

interpretation host: eviction can_evict_host host_only_free "\<lambda>s. s\<lparr>host_evicted_blocks := host_evicted_blocks s + 1\<rparr>"
proof unfold_locales
  fix s :: "('a, 'b) prefix_index"
  show "can_evict_host s a = Inr (host_only_free (objs s a) \<and> kids_of (index_parent s) b = {})"
    if "index_inv s" "get_block s b = Some a" for b a
    using index_child_count_ok [OF index_invD(1) [OF that(1)] that(2)] index_child_count_zero [OF index_invD(1) [OF that(1)] that(2)]
      shape_okD(4) [OF index_invD(1) [OF that(1)] that(2)] by (auto simp: can_evict_host_def host_only_free_def)
  show "index_inv (s\<lparr>host_evicted_blocks := host_evicted_blocks s + 1\<rparr>) \<longleftrightarrow> index_inv s"
    by (rule index_inv_cong) (simp_all add: same_view_def)
qed (simp_all add: same_view_def host_only_free_def)

end
