(* ===== verification/Device_Demotion.thy ===== *)
theory Device_Demotion
  imports Eviction_Order
begin

text \<open>
  Demotion of device-resident blocks to host-only ones.  \<open>demotes\<close> is the specification: blocks leave
  the device one at a time, each of them least in (priority, last access, id) among the device leaves
  that are free and backed by the host.  The loop of the source counts device children instead of
  recounting them and keeps a heap of candidates.
\<close>

section \<open>The specification\<close>

definition demotable_ids :: "('b, 'p) prefix_index \<Rightarrow> 'b set" where
  "demotable_ids s = {b \<in> dom (device_parent s).
     device_locally_freeable False (obj_at s b) \<and> kids_of (device_parent s) b = {}}"

definition least_demotable :: "('b::linorder, 'p) prefix_index \<Rightarrow> 'b \<Rightarrow> nat \<Rightarrow> bool" where
  "least_demotable s b a \<longleftrightarrow> get_block s b = Some a \<and> b \<in> demotable_ids s \<and>
     (\<forall>c x. c \<in> demotable_ids s \<longrightarrow> get_block s c = Some x \<longrightarrow> candidate_of s a b \<le> candidate_of s x c)"

inductive demotes :: "('b::linorder, 'p) prefix_index \<Rightarrow> nat list \<Rightarrow> ('b, 'p) prefix_index \<Rightarrow> bool" where
  demotes_nil: "demotes s [] s"
| demotes_step: "least_demotable s b a \<Longrightarrow> demote_block a s = (Inr (), s1) \<Longrightarrow> demotes s1 as t \<Longrightarrow> demotes s (a # as) t"

definition demoted_enough ::
  "(('b, 'p) cache_block \<Rightarrow> int) \<Rightarrow> int \<Rightarrow> ('b, 'p) prefix_index \<Rightarrow> nat list \<Rightarrow> ('b, 'p) prefix_index \<Rightarrow> bool" where
  "demoted_enough weight needed s as t \<longleftrightarrow>
     (weight_of weight s as \<ge> needed \<or> demotable_ids t = {}) \<and>
     (\<forall>n<length as. weight_of weight s (take n as) < needed)"

lemma demotable_at:
  assumes "get_block s b = Some a"
  shows "b \<in> demotable_ids s \<longleftrightarrow> locally_free (objs s a) \<and> is_device s a \<and> host_present (resid (objs s a)) \<and>
    kids_of (device_parent s) b = {}"
  using assms
  by (auto simp: demotable_ids_def device_parent_def obj_at_def device_locally_freeable_def locally_free_def is_device_def Let_def
    split: if_splits)

section \<open>Demoting one block\<close>

definition demoted :: "nat \<Rightarrow> ('b, 'p) prefix_index \<Rightarrow> ('b, 'p) prefix_index" where
  "demoted a s = mark_capacity_mutated ((set_resid a (\<lambda>r. r\<lparr>device_present := False\<rparr>) s)
     \<lparr>resident_payload_epoch := resident_payload_epoch s + 1, device_demoted_blocks := device_demoted_blocks s + 1\<rparr>)"

lemma demoted_view: "same_view (demoted a s) (set_resid a (\<lambda>r. r\<lparr>device_present := False\<rparr>) s)"
  by (simp add: same_view_def demoted_def mark_capacity_mutated_def mark_mutated_def)

lemma demoted_sel:
  "get_block (demoted a s) = get_block s"
  "objs (demoted a s) x = (if x = a then (objs s a)\<lparr>resid := (resid (objs s a))\<lparr>device_present := False\<rparr>\<rparr> else objs s x)"
  "is_device (demoted a s) x \<longleftrightarrow> is_device s x \<and> x \<noteq> a"
  "candidate_of (demoted a s) x c = candidate_of s x c"
  using demoted_view [of a s]
  by (auto simp: same_view_simps(1) [OF demoted_view] same_view_def is_device_def candidate_of_def)

lemma demoted_device_parent:
  assumes shape: "shape_ok s" and b: "get_block s b = Some a"
  shows "device_parent (demoted a s) = (device_parent s)(b := None)"
proof
  fix c
  show "device_parent (demoted a s) c = ((device_parent s)(b := None)) c"
    using indexed_once [OF shape b, of c] b
    by (cases "get_block s c") (auto simp: device_parent_def demoted_sel)
qed

lemma demoted_good:
  assumes shape: "shape_ok s" and b: "get_block s b = Some a" and x: "x \<in> dom (device_parent s)" "x \<noteq> b"
  shows "device_locally_freeable False (obj_at (demoted a s) x) = device_locally_freeable False (obj_at s x)"
proof -
  obtain q where q: "get_block s x = Some q" using device_domD [OF x(1)] by blast
  then have "q \<noteq> a" using indexed_once [OF shape b, of x] x(2) by auto
  then show ?thesis using q by (simp add: obj_at_def demoted_sel)
qed

lemma demote_one:
  assumes inv: "index_inv s" and b: "b \<in> demotable_ids s" "get_block s b = Some a"
  shows "demote_block a s = (Inr (), demoted a s)" "index_inv (demoted a s)"
    "b \<in> device_free False s" "device_free False (demoted a s) = device_free False s - {b}"
proof -
  let ?g = "\<lambda>r :: residency. r\<lparr>device_present := False\<rparr>"
  let ?t = "set_resid a ?g s"
  note shape = index_invD(1) [OF inv] and fd = device_forest [OF index_invD(1,3) [OF inv]]
  have d: "locally_free (objs s a)" "is_device s a" "host_present (resid (objs s a))" "kids_of (device_parent s) b = {}"
    using demotable_at [OF b(2)] b(1) by auto
  have v: "validate (?g (resid (objs s a))) = Inr ()" using d(1,3) by (simp add: validate_split locally_free_def)
  then show "demote_block a s = (Inr (), demoted a s)"
    by (simp add: demote_block_def demoted_def Let_def)
  have nodev: "\<not> is_device s x" if "get_block s c = Some x" "parent_block_id (objs s x) = Some b" for c x
  proof
    assume "is_device s x"
    then have "c \<in> kids_of (device_parent s) b" using that by (simp add: device_parent_def)
    then show False using d(4) by blast
  qed
  have res: "resid_ok ?t"
    by (rule set_resid_ok [OF inv b(2)]) (use v d nodev resid_okD [OF inv b(2)] in auto)
  have shape': "shape_ok ?t" by (rule set_block_shape [OF shape]) simp_all
  have par: "index_parent ?t = index_parent s" by (rule set_block_parent) simp
  have "good_at ?t c = good_at s c" if "c \<in> dom (index_parent s)" for c
    using that by (auto simp: obj_at_def index_parent_def locally_free_def)
  then have free: "index_free ?t = index_free s"
    unfolding index_free_def par by (intro free_set_cong [OF shape_okD(7) [OF shape]]) blast
  have "index_inv (mark_capacity_mutated ?t)"
    by (rule index_inv_bump [OF shape' _ res])
      (use index_invD(2,4-6) [OF inv] free par in \<open>simp_all add: free_ok_def cache_ok_def bound_ok_def snapshot_ok_def\<close>)
  moreover have "index_inv (demoted a s) \<longleftrightarrow> index_inv (mark_capacity_mutated ?t)"
    by (rule index_inv_cong) (simp_all add: same_view_def demoted_def mark_capacity_mutated_def mark_mutated_def)
  ultimately show "index_inv (demoted a s)" by simp
  let ?good = "\<lambda>s :: ('a, 'b) prefix_index. \<lambda>x. device_locally_freeable False (obj_at s x)"
  have bd: "b \<in> dom (device_parent s)" "?good s b" using b(1) by (simp_all add: demotable_ids_def)
  note drop = free_set_drop_leaf [where good="?good s" and good'="?good (demoted a s)", OF fd bd(1) d(4) bd(2) demoted_good [OF shape b(2)]]
  show "b \<in> device_free False s" unfolding device_free_def by (rule drop(1))
  show "device_free False (demoted a s) = device_free False s - {b}"
    unfolding device_free_def demoted_device_parent [OF shape b(2)] by (rule drop(2))
qed

lemma demotes_props:
  assumes "demotes s as t" and "index_inv s"
  shows "index_inv t \<and> get_block t = get_block s \<and> distinct (ids_of s as) \<and> set (ids_of s as) \<subseteq> device_free False s \<and>
    device_free False t = device_free False s - set (ids_of s as) \<and>
    (\<forall>x. objs t x = (if x \<in> set as then (objs s x)\<lparr>resid := (resid (objs s x))\<lparr>device_present := False\<rparr>\<rparr> else objs s x))"
  using assms
proof (induction rule: demotes.induct)
  case (demotes_nil s)
  then show ?case by simp
next
  case (demotes_step s b a s1 as t)
  have b: "b \<in> demotable_ids s" "get_block s b = Some a" using demotes_step.hyps(1) by (simp_all add: least_demotable_def)
  note one = demote_one [OF demotes_step.prems b]
  have s1: "s1 = demoted a s" using one(1) demotes_step.hyps(2) by simp
  have id: "stable_block_id (objs s a) = b" by (rule shape_okD(4) [OF index_invD(1) [OF demotes_step.prems] b(2)])
  have ids: "ids_of s1 as = ids_of s as" by (simp add: s1 demoted_sel)
  note IH = demotes_step.IH [unfolded ids, unfolded s1, OF one(2), unfolded one(4) demoted_sel(1)]
  have nb: "b \<notin> set (ids_of s as)" using IH by blast
  then have "a \<notin> set as" using id by auto
  then have "objs t x = (if x \<in> set (a # as) then (objs s x)\<lparr>resid := (resid (objs s x))\<lparr>device_present := False\<rparr>\<rparr> else objs s x)" for x
    using IH demoted_sel(2) [of a s x] by auto
  then show ?case using IH one(3) nb id by auto
qed

section \<open>The loop\<close>

definition dev_counts :: "('b \<rightharpoonup> int) \<Rightarrow> ('b, 'p) prefix_index \<Rightarrow> bool" where
  "dev_counts dc s \<longleftrightarrow> (\<forall>b\<in>dom (device_parent s). dc b = Some (int (card (kids_of (device_parent s) b))))"

lemma demotable_ok:
  assumes "index_inv s" and "dev_counts dc s" and b: "get_block s b = Some a"
  shows "demotable dc s a = Inr (b \<in> demotable_ids s)"
proof -
  have id: "stable_block_id (objs s a) = b" by (rule shape_okD(4) [OF index_invD(1) [OF assms(1)] b])
  have fin: "finite (kids_of (device_parent s) b)" by (rule kids_finite [OF device_forest [OF index_invD(1,3) [OF assms(1)]]])
  show ?thesis
  proof (cases "is_device s a")
    case True
    then have "dc b = Some (int (card (kids_of (device_parent s) b)))"
      using assms(2) device_parent_at [OF b] by (auto simp: dev_counts_def)
    then show ?thesis using demotable_at [OF b] id fin by (auto simp: demotable_def)
  next
    case False
    then show ?thesis using demotable_at [OF b] by (auto simp: demotable_def)
  qed
qed

lemma demotable_after:
  assumes inv: "index_inv s" and b: "b \<in> demotable_ids s" "get_block s b = Some a" and x: "parent_block_id (objs s a) \<noteq> Some x"
  shows "x \<in> demotable_ids (demoted a s) \<longleftrightarrow> x \<in> demotable_ids s - {b}"
proof -
  note shape = index_invD(1) [OF inv]
  have dev: "device_parent s b = Some (parent_block_id (objs s a))" "kids_of (device_parent s) b = {}"
    using demotable_at [OF b(2)] b(1) device_parent_at [OF b(2)] by auto
  have "kids_of (device_parent (demoted a s)) x = kids_of (device_parent s) x"
    unfolding demoted_device_parent [OF shape b(2)] kids_drop_leaf [OF dev(2)] using dev(1) x by auto
  moreover have "x \<in> dom (device_parent (demoted a s)) \<longleftrightarrow> x \<in> dom (device_parent s) \<and> x \<noteq> b"
    unfolding demoted_device_parent [OF shape b(2)] by auto
  ultimately show ?thesis unfolding demotable_ids_def using demoted_good [OF shape b(2), of x] by auto
qed

text \<open>Counting down the parent keeps the counts right, and it is queued when it becomes a device leaf.\<close>

lemma uncount_ok:
  assumes inv: "index_inv s" and dc: "dev_counts dc s" and b: "b \<in> demotable_ids s" "get_block s b = Some a"
  shows "\<exists>dc1 nxt. uncount_child (parent_block_id (objs (demoted a s) a)) dc = Inr (dc1, nxt) \<and> dev_counts dc1 (demoted a s) \<and>
    (\<forall>p. parent_block_id (objs s a) = Some p \<longrightarrow> p \<in> dom (device_parent s) \<and> p \<noteq> b \<and>
       nxt = (if kids_of (device_parent (demoted a s)) p = {} then Some p else None)) \<and>
    (parent_block_id (objs s a) = None \<longrightarrow> nxt = None)"
proof -
  let ?t = "demoted a s" and ?p = "parent_block_id (objs s a)"
  note fd = device_forest [OF index_invD(1,3) [OF inv]]
  have dev: "device_parent s b = Some ?p" "kids_of (device_parent s) b = {}"
    using demotable_at [OF b(2)] b(1) device_parent_at [OF b(2)] by auto
  have dom: "x \<in> dom (device_parent s)" if "x \<in> dom (device_parent ?t)" for x
    using that unfolding demoted_device_parent [OF index_invD(1) [OF inv] b(2)] by (auto split: if_splits)
  have kids: "kids_of (device_parent ?t) x = kids_of (device_parent s) x - {b}" for x
    unfolding demoted_device_parent [OF index_invD(1) [OF inv] b(2)] by (rule kids_drop_leaf [OF dev(2)])
  have same: "dc x = Some (int (card (kids_of (device_parent ?t) x)))" if "x \<in> dom (device_parent s)" "?p \<noteq> Some x" for x
    unfolding kids using that dev(1) dc by (simp add: dev_counts_def)
  show ?thesis
  proof (cases ?p)
    case None
    then show ?thesis using same dom by (auto simp: uncount_child_def demoted_sel dev_counts_def)
  next
    case (Some p)
    then have p: "p \<in> dom (device_parent s)" "p \<noteq> b" "b \<in> kids_of (device_parent s) p"
      using forest_up [OF fd, of b p] dev by auto
    have "card (kids_of (device_parent s) p) = Suc (card (kids_of (device_parent ?t) p))"
      unfolding kids by (rule card.remove [OF kids_finite [OF fd] p(3)])
    then have dp: "dc p = Some (int (card (kids_of (device_parent ?t) p)) + 1)" using dc p(1) by (simp add: dev_counts_def)
    have "finite (kids_of (device_parent ?t) p)" unfolding kids using kids_finite [OF fd] by blast
    then have "uncount_child (Some p) dc = Inr (dc(p \<mapsto> int (card (kids_of (device_parent ?t) p))),
        if kids_of (device_parent ?t) p = {} then Some p else None)"
      using dp by (simp add: uncount_child_def)
    moreover have "dev_counts (dc(p \<mapsto> int (card (kids_of (device_parent ?t) p)))) ?t"
      unfolding dev_counts_def using same dom Some by auto
    ultimately show ?thesis using Some p by (auto simp: demoted_sel)
  qed
qed

lemma insert_if_eq: "(\<And>x. x \<noteq> p \<Longrightarrow> x \<in> A \<longleftrightarrow> x \<in> B) \<Longrightarrow> p \<notin> B \<Longrightarrow> (if p \<in> A then insert p B else B) = A"
  by (simp add: set_eq_iff) metis

lemma demote_turn:
  assumes inv: "index_inv s" and dc: "dev_counts dc s" and hq: "heap_ok (demotable dc s) s (demotable_ids s) hq"
    and ne: "demotable_ids s \<noteq> {}"
  shows "\<exists>b a hq1 dc1 nxt hq2. pop_candidate (demotable dc s) s hq = Inr (Some (a, hq1)) \<and> least_demotable s b a \<and>
    uncount_child (parent_block_id (objs (demoted a s) a)) dc = Inr (dc1, nxt) \<and> dev_counts dc1 (demoted a s) \<and>
    queue_if (demotable dc1 (demoted a s)) (demoted a s) nxt hq1 = Inr hq2 \<and>
    heap_ok (demotable dc1 (demoted a s)) (demoted a s) (demotable_ids (demoted a s)) hq2"
proof -
  obtain heap queued where h: "hq = (heap, queued)" by (cases hq)
  obtain b a heap' where pop: "b \<in> demotable_ids s" "get_block s b = Some a"
      "pop_candidate (demotable dc s) s hq = Inr (Some (a, heap', queued - {b}))" "distinct heap'"
      "set heap' = set heap - {candidate_of s a b}"
      "\<forall>c\<in>demotable_ids s. candidate_of s a b \<le> candidate_of s (the (get_block s c)) c"
    using pop_candidate_ok(2) [OF hq [unfolded h] ne] unfolding h by blast
  let ?t = "demoted a s" and ?E = "demotable_ids s - {b}" and ?p = "parent_block_id (objs s a)"
  obtain dc1 nxt where unc: "uncount_child (parent_block_id (objs ?t a)) dc = Inr (dc1, nxt)" "dev_counts dc1 ?t"
      and up: "\<forall>p. ?p = Some p \<longrightarrow> p \<in> dom (device_parent s) \<and> p \<noteq> b \<and> nxt = (if kids_of (device_parent ?t) p = {} then Some p else None)"
      and rt: "?p = None \<longrightarrow> nxt = None"
    using uncount_ok [OF inv dc pop(1,2)] by (elim exE conjE) (rule that)
  note can = demotable_ok [OF demote_one(2) [OF inv pop(1,2)] unc(2)] and after = demotable_after [OF inv pop(1,2)]
  have pE: "p \<notin> demotable_ids s" if "?p = Some p" for p
    using demotable_at [OF pop(2)] pop(1) device_parent_at [OF pop(2)] that by (auto simp: demotable_ids_def)
  have hq1: "heap_ok (demotable dc1 ?t) ?t ?E (heap', queued - {b})"
  proof (rule heap_after_pop [OF hq [unfolded h] pop(1,2,4,5)])
    show "demotable dc1 ?t x = Inr True" if "c \<in> ?E" "get_block ?t c = Some x" for c x
      using can [OF that(2)] after [of c] pE [of c] that(1) by auto
  qed (simp add: demoted_sel)
  have "\<exists>hq2. queue_if (demotable dc1 ?t) ?t nxt (heap', queued - {b}) = Inr hq2 \<and>
      heap_ok (demotable dc1 ?t) ?t (demotable_ids ?t) hq2"
  proof (cases nxt)
    case None
    have "x \<notin> demotable_ids ?t" if "?p = Some x" for x
      using up [rule_format, OF that] None by (auto simp: demotable_ids_def split: if_splits)
    then have "demotable_ids ?t = ?E" using after pE by blast
    then show ?thesis using hq1 None by (simp add: queue_if_def)
  next
    case (Some p)
    then have p: "?p = Some p" "p \<in> dom (device_parent s)" "p \<noteq> b" using up rt by (cases ?p; auto split: if_splits)+
    obtain q where q: "get_block ?t p = Some q" using device_domD [OF p(2)] by (auto simp: demoted_sel)
    have "(if p \<in> demotable_ids ?t then insert p ?E else ?E) = demotable_ids ?t"
      by (rule insert_if_eq) (use after p(1) pE [OF p(1)] in auto)
    then show ?thesis using queue_if_ok [OF hq1 _ q can [OF q]] pE [OF p(1)] Some by auto
  qed
  moreover have "least_demotable s b a" using pop(1,2,6) by (auto simp: least_demotable_def)
  ultimately show ?thesis using pop(3) unc(1,2) by blast
qed

lemma device_free_finite:
  assumes "index_inv s"
  shows "finite (device_free False s)"
  by (rule finite_subset [OF _ forest_finite [OF device_forest [OF index_invD(1,3) [OF assms]]]])
    (auto simp: device_free_def free_set_def)

lemma demote_loop_ok:
  assumes "index_inv s" and "dev_counts dc s" and "heap_ok (demotable dc s) s (demotable_ids s) hq"
    and "card (device_free False s) < fuel"
  shows "\<exists>as t. demotes s as t \<and>
    (demote_loop fuel weight needed got dc hq dm s = (Inr (dm @ as), t) \<and> demoted_enough weight (needed - got) s as t \<or>
     demote_loop fuel weight needed got dc hq dm s = (Inl ValueError, t) \<and>
       (\<exists>b a. get_block s b = Some a \<and> is_device s a \<and> weight (objs s a) < 0))"
  using assms
proof (induction fuel arbitrary: s dc hq got dm)
  case (Suc fuel)
  show ?case
  proof (cases "got < needed \<and> demotable_ids s \<noteq> {}")
    case False
    have "demote_loop (Suc fuel) weight needed got dc hq dm s = (Inr dm, s)"
      using False pop_candidate_ok(1) [of "demotable dc s" s "{}" "fst hq" "snd hq"] Suc.prems(3) by auto
    then show ?thesis using False
      by (intro exI [of _ "[]"] exI [of _ s]) (auto simp: demoted_enough_def demotes_nil)
  next
    case True
    obtain b a hq1 dc1 nxt hq2 where turn: "pop_candidate (demotable dc s) s hq = Inr (Some (a, hq1))" "least_demotable s b a"
        "uncount_child (parent_block_id (objs (demoted a s) a)) dc = Inr (dc1, nxt)" "dev_counts dc1 (demoted a s)"
        "queue_if (demotable dc1 (demoted a s)) (demoted a s) nxt hq1 = Inr hq2"
        "heap_ok (demotable dc1 (demoted a s)) (demoted a s) (demotable_ids (demoted a s)) hq2"
      using demote_turn [OF Suc.prems(1-3)] True by blast
    have b: "b \<in> demotable_ids s" "get_block s b = Some a" using turn(2) by (simp_all add: least_demotable_def)
    note one = demote_one [OF Suc.prems(1) b]
    show ?thesis
    proof (cases "weight (objs s a) < 0")
      case neg: True
      then have "demote_loop (Suc fuel) weight needed got dc hq dm s = (Inl ValueError, s)"
        using True turn(1) by (simp add: Let_def)
      moreover have "is_device s a" using b(1) demotable_at [OF b(2)] by simp
      ultimately show ?thesis using b(2) neg demotes_nil by blast
    next
      case w: False
      let ?t = "demoted a s" and ?got = "got + weight (objs s a)"
      have fuel: "card (device_free False ?t) < fuel"
        using Suc.prems(4) card.remove [OF device_free_finite [OF Suc.prems(1)] one(3)] unfolding one(4) by simp
      obtain as t where run: "demotes ?t as t" and rest:
          "demote_loop fuel weight needed ?got dc1 hq2 (dm @ [a]) ?t = (Inr ((dm @ [a]) @ as), t) \<and> demoted_enough weight (needed - ?got) ?t as t \<or>
           demote_loop fuel weight needed ?got dc1 hq2 (dm @ [a]) ?t = (Inl ValueError, t) \<and>
             (\<exists>b a. get_block ?t b = Some a \<and> is_device ?t a \<and> weight (objs ?t a) < 0)"
        using Suc.IH [OF one(2) turn(4,6) fuel] by blast
      have step: "demote_loop (Suc fuel) weight needed got dc hq dm s = demote_loop fuel weight needed ?got dc1 hq2 (dm @ [a]) ?t"
        using True turn(1,3,5) w one(1) by (simp add: Let_def)
      have whole: "demotes s (a # as) t" using turn(2) one(1) run by (rule demotes_step)
      have "a \<notin> set as" using demotes_props [OF whole Suc.prems(1)] by auto
      then have "weight_of weight ?t (take n as) = weight_of weight s (take n as)" "weight_of weight ?t as = weight_of weight s as" for n
        by (auto simp: demoted_sel intro!: arg_cong [of _ _ sum_list] dest: in_set_takeD)
      then have "demoted_enough weight (needed - got) s (a # as) t" if "demoted_enough weight (needed - ?got) ?t as t"
        using that True unfolding demoted_enough_def by (auto simp: take_Cons less_Suc_eq_0_disj split: nat.splits)
      moreover have "\<exists>b a. get_block s b = Some a \<and> is_device s a \<and> weight (objs s a) < 0"
        if "\<exists>b a. get_block ?t b = Some a \<and> is_device ?t a \<and> weight (objs ?t a) < 0"
        using that by (auto simp: demoted_sel split: if_splits)
      ultimately show ?thesis using rest whole unfolding step by (intro exI [of _ "a # as"] exI [of _ t]) auto
    qed
  qed
qed simp

lemma demote_device_run:
  assumes inv: "index_inv s"
  shows "\<exists>as t. demotes s as t \<and>
    (demote_device_until_weight needed weight s = (Inr as, t) \<and> demoted_enough weight needed s as t \<or>
     demote_device_until_weight needed weight s = (Inl ValueError, t) \<and>
       (\<exists>b a. get_block s b = Some a \<and> is_device s a \<and> weight (objs s a) < 0))"
proof (cases "needed \<le> 0")
  case True
  then show ?thesis
    by (intro exI [of _ "[]"] exI [of _ s]) (auto simp: demote_device_until_weight_def demoted_enough_def demotes_nil)
next
  case False
  note shape = index_invD(1) [OF inv] and fd = device_forest [OF index_invD(1,3) [OF inv]]
  note ids = device_blocks [OF shape_okD(3) [OF shape]]
  let ?dc = "counts (device_parent s) {}" and ?P = "\<lambda>(b, a). is_device s a \<and> counts (device_parent s) {} b = Some 0"
  have cnt: "device_children_counts s = Inr ?dc"
    unfolding device_children_counts_def Let_def
    by (rule count_children_counts [OF ids(3) fd]) (auto simp: ids(1) device_parent_def split: option.splits)
  have dc: "dev_counts ?dc s" by (simp add: dev_counts_def counts_def)
  let ?bs = "map fst (filter ?P (blocks s))"
  have el: "\<exists>a. get_block s b = Some a \<and> demotable ?dc s a = Inr (b \<in> demotable_ids s)" if b: "b \<in> set ?bs" for b
  proof -
    obtain a where a: "get_block s b = Some a" using b shape_okD(3) [OF shape] by (auto simp: get_block_def)
    then show ?thesis using demotable_ok [OF inv dc a] by blast
  qed
  have "\<exists>hq. queue_all (demotable ?dc s) s ?bs ([], {}) = Inr hq \<and>
      heap_ok (demotable ?dc s) s ({} \<union> {b \<in> set ?bs. b \<in> demotable_ids s}) hq"
    by (rule queue_all_ok [OF el])
      (use shape_okD(3) [OF shape] in \<open>simp_all add: heap_ok_def distinct_map_filter\<close>)
  moreover have "b \<in> set ?bs" if b: "b \<in> demotable_ids s" for b
  proof -
    have "b \<in> dom (device_parent s)" using b by (simp add: demotable_ids_def)
    then obtain a where a: "get_block s b = Some a" "is_device s a" using device_domD [of b s] by blast
    have "?dc b = Some 0" using counts_zero [OF fd, of "{}" b] b by (auto simp: demotable_ids_def)
    then show ?thesis using a by (force simp: get_block_def dest!: map_of_SomeD)
  qed
  then have "{} \<union> {b \<in> set ?bs. b \<in> demotable_ids s} = demotable_ids s" by blast
  ultimately obtain hq where hq: "queue_all (demotable ?dc s) s ?bs ([], {}) = Inr hq"
      "heap_ok (demotable ?dc s) s (demotable_ids s) hq" by auto
  have "device_free False s \<subseteq> dom (index_parent s)"
    using device_domD [of _ s] index_parent_at [of s] by (fastforce simp: device_free_def free_set_def)
  then have fuel: "card (device_free False s) < Suc (length (blocks s))"
    using card_mono [OF forest_finite [OF shape_okD(7) [OF shape]]] card_dom_index [OF shape] by (simp add: less_Suc_eq_le)
  note run = demote_loop_ok [OF inv dc hq(2) fuel, of weight needed 0 "[]"]
  have "demote_device_until_weight needed weight s = demote_loop (Suc (length (blocks s))) weight needed 0 ?dc hq [] s"
    using False hq(1) cnt by (simp add: demote_device_until_weight_def del: demote_loop.simps)
  then show ?thesis using run by (simp del: demote_loop.simps)
qed

lemma demote_device_ok:
  assumes "index_inv s" and "\<And>b a. get_block s b = Some a \<Longrightarrow> is_device s a \<Longrightarrow> 0 \<le> weight (objs s a)"
  shows "\<exists>as t. demote_device_until_weight needed weight s = (Inr as, t) \<and>
    demotes s as t \<and> demoted_enough weight needed s as t"
  using demote_device_run [OF assms(1), of needed weight] assms(2) by (meson not_less)

lemma demote_device_keeps: "keeps index_inv (demote_device_until_weight needed weight)"
  unfolding keeps_def
proof (intro allI impI)
  fix s :: "('a, 'b) prefix_index"
  assume inv: "index_inv s"
  then obtain as t where "demotes s as t" "snd (demote_device_until_weight needed weight s) = t"
    using demote_device_run [OF inv, of needed weight] by force
  then show "index_inv (snd (demote_device_until_weight needed weight s))" using demotes_props [OF _ inv] by simp
qed

end
