(* ===== verification/Subtree_Control.thy ===== *)
theory Subtree_Control
  imports Prefix_Control Device_Demotion
begin

text \<open>
  The control operations keep the invariant of the index, and the deletion of a subtree removes
  exactly its freeable blocks.  \<open>core_inv\<close> is the part of the invariant that holds between the
  updates of a loop that raises the capacity epoch once at its end.
\<close>

section \<open>Updates before the epoch is raised\<close>

definition core_inv :: "('b::linorder, 'p) prefix_index \<Rightarrow> bool" where
  "core_inv s \<longleftrightarrow> shape_ok s \<and> free_ok s \<and> resid_ok s \<and> bound_ok s \<and> snapshot_ok s \<and>
     freeable_cache_epoch s \<le> capacity_epoch s \<and> evictable_cache_epoch s \<le> capacity_epoch s \<and>
     device_freeable_cache_epoch s \<le> capacity_epoch s"

lemma core_inv_bump: "core_inv s \<Longrightarrow> index_inv (mark_capacity_mutated s)"
  by (rule index_inv_bump) (simp_all add: core_inv_def)

lemma index_inv_core: "index_inv s \<longleftrightarrow> core_inv s \<and> cache_ok s"
  by (auto simp: core_inv_def index_inv_def cache_ok_def)

lemma core_update:
  assumes core: "core_inv s" and b: "get_block s b = Some a"
    and f: "stable_block_id (f (objs s a)) = stable_block_id (objs s a)" "parent_block_id (f (objs s a)) = parent_block_id (objs s a)"
      "resid (f (objs s a)) = resid (objs s a)"
  shows "refresh_freeable_path (Some b) (set_block a f s) = (Inr (), refreshed (set_block a f s))"
    "core_inv (refreshed (set_block a f s))"
proof -
  have c: "shape_ok s" "free_ok s" "resid_ok s" using core by (simp_all add: core_inv_def)
  show "refresh_freeable_path (Some b) (set_block a f s) = (Inr (), refreshed (set_block a f s))"
    by (rule refresh_after_update [where f=f, OF c(1,2) b f(1,2)])
  have "shape_ok (set_block a f s)" "resid_ok (set_block a f s)"
    by (rule set_block_shape [where f=f, OF c(1) f(1,2)] set_block_resid_ok [where f=f, OF c(3) f(3,2)])+
  then have "shape_ok (refreshed (set_block a f s))" "resid_ok (refreshed (set_block a f s))"
    by (simp_all only: refreshed_parts)
  moreover have "bound_ok (refreshed (set_block a f s))" "snapshot_ok (refreshed (set_block a f s))"
    using core by (simp_all add: core_inv_def bound_ok_def snapshot_ok_def refreshed_def)
  moreover have "freeable_cache_epoch (refreshed (set_block a f s)) \<le> capacity_epoch (refreshed (set_block a f s))"
    "evictable_cache_epoch (refreshed (set_block a f s)) \<le> capacity_epoch (refreshed (set_block a f s))"
    "device_freeable_cache_epoch (refreshed (set_block a f s)) \<le> capacity_epoch (refreshed (set_block a f s))"
    using core by (simp_all add: core_inv_def refreshed_def)
  ultimately show "core_inv (refreshed (set_block a f s))" by (simp add: core_inv_def refreshed_parts(2))
qed

lemma core_agree:
  assumes core: "core_inv s" and b: "get_block s b = Some a"
    and f: "stable_block_id (f (objs s a)) = stable_block_id (objs s a)" "parent_block_id (f (objs s a)) = parent_block_id (objs s a)"
      "resid (f (objs s a)) = resid (objs s a)" "locally_free (f (objs s a)) = locally_free (objs s a)"
  shows "core_inv (set_block a f s)"
proof -
  have c: "shape_ok s" "free_ok s" using core by (simp_all add: core_inv_def)
  have par: "index_parent (set_block a f s) = index_parent s" by (rule set_block_parent [where f=f, OF f(2)])
  have "good_at (set_block a f s) x = good_at s x" if "x \<in> dom (index_parent s)" for x
    using set_block_obj_at [OF c(1) b that, of f] b f(4) by (simp add: obj_at_def)
  then have "index_free (set_block a f s) = index_free s"
    unfolding index_free_def par by (intro free_set_cong [OF shape_okD(7) [OF c(1)]]) blast
  then have "free_ok (set_block a f s)" using c(2) par by (simp add: free_ok_def)
  then show ?thesis using core_update(2) [where f=f, OF core b f(1-3)] by (simp add: refreshed_id)
qed

section \<open>Eviction priorities\<close>

definition prio_inv :: "bool \<Rightarrow> ('b::linorder, 'p) prefix_index \<Rightarrow> bool" where
  "prio_inv cap s \<longleftrightarrow> core_inv s \<and> (\<not> cap \<longrightarrow> cache_ok s)"

lemma prio_agree:
  assumes inv: "prio_inv cap s" and b: "get_block s b = Some a" and p: "(p < 0) = (eviction_priority (objs s a) < 0)"
  shows "prio_inv cap (set_block a (\<lambda>k. k\<lparr>eviction_priority := p\<rparr>) s)"
proof -
  let ?f = "\<lambda>k :: ('a, 'b) cache_block. k\<lparr>eviction_priority := p\<rparr>"
  have "locally_free (?f (objs s a)) = locally_free (objs s a)"
    "device_locally_freeable False (?f (objs s a)) = device_locally_freeable False (objs s a)"
    using p by (auto simp: locally_free_def device_locally_freeable_def)
  moreover from this have "core_inv (set_block a ?f s)"
    by (intro core_agree [where f="?f", OF _ b]) (use inv in \<open>simp_all add: prio_inv_def\<close>)
  moreover have "index_inv (set_block a ?f s)" if "\<not> cap"
    by (rule agree_inv [OF _ refl]) (use that inv calculation(1,2) in \<open>simp_all add: prio_inv_def index_inv_core\<close>)
  ultimately show ?thesis by (simp add: prio_inv_def index_inv_core)
qed

lemma prio_cross:
  assumes inv: "prio_inv cap s" and b: "get_block s b = Some a"
  shows "\<exists>t. refresh_freeable_path (Some b) (set_block a (\<lambda>k. k\<lparr>eviction_priority := p\<rparr>) s) = (Inr (), t) \<and> prio_inv True t"
  using core_update [where f="\<lambda>k. k\<lparr>eviction_priority := p\<rparr>", OF _ b] inv by (simp add: prio_inv_def)

lemma priority_loop_inv:
  "prio_inv cap s \<Longrightarrow> \<exists>m ch cap' t. priority_loop p bs n changed cap s = (Inr (m, ch, cap'), t) \<and> prio_inv cap' t"
proof (induction bs arbitrary: n changed cap s)
  case (Cons b bs)
  show ?case
  proof (cases "get_block s b")
    case None
    then show ?thesis using Cons by simp
  next
    case (Some a)
    let ?s = "set_block a (\<lambda>k. k\<lparr>eviction_priority := p\<rparr>) s"
    consider "eviction_priority (objs s a) = p" | "eviction_priority (objs s a) \<noteq> p" "(eviction_priority (objs s a) < 0) = (p < 0)"
      | "eviction_priority (objs s a) \<noteq> p" "(eviction_priority (objs s a) < 0) \<noteq> (p < 0)" by blast
    then show ?thesis
    proof cases
      case 1
      then show ?thesis using Cons Some by simp
    next
      case 2
      have "prio_inv cap ?s" by (rule prio_agree [OF Cons.prems Some]) (use 2 in simp)
      from Cons.IH [OF this, of "n + 1" True] show ?thesis using 2 Some by (simp add: Let_def eff_simps)
    next
      case 3
      obtain t where t: "refresh_freeable_path (Some b) ?s = (Inr (), t)" "prio_inv True t"
        using prio_cross [OF Cons.prems Some] by blast
      from Cons.IH [OF t(2), of "n + 1" True] show ?thesis using 3 Some t(1) by (simp add: Let_def eff_simps)
    qed
  qed
qed simp

lemma set_priority_ids_keeps: "keeps index_inv (set_priority_ids p ids)"
proof -
  have "index_inv (snd (set_priority_ids p ids s))" if inv: "index_inv s" for s :: "('a, 'b) prefix_index"
  proof -
    have "index_inv (snd (bindE (priority_loop p sub 0 False False) (\<lambda>(n, changed, capacity_changed).
        thenE (modifyE (\<lambda>s. if capacity_changed then mark_capacity_mutated s else if changed then mark_mutated s else s))
          (retE (r n))) s))" for sub and r :: "int \<Rightarrow> 'a priority_result"
    proof -
      obtain m ch cap t where run: "priority_loop p sub 0 False False s = (Inr (m, ch, cap), t)" "prio_inv cap t"
        using priority_loop_inv [of False s p sub 0 False] inv by (auto simp: prio_inv_def index_inv_core)
      have "\<not> cap \<Longrightarrow> index_inv t" "core_inv t" using run(2) by (simp_all add: prio_inv_def index_inv_core)
      then have "index_inv (if cap then mark_capacity_mutated t else if ch then mark_mutated t else t)"
        using core_inv_bump [of t] by (auto simp: mark_mutated_inv)
      then show ?thesis using run(1) by (simp add: eff_simps)
    qed
    then show ?thesis using inv by (auto simp: set_priority_ids_def Let_def split: sum.split option.split)
  qed
  then show ?thesis by (simp add: keeps_def)
qed

section \<open>Children before parents\<close>

fun topo :: "('b \<rightharpoonup> 'b option) \<Rightarrow> 'b set \<Rightarrow> 'b list \<Rightarrow> bool" where
  "topo par P [] = True"
| "topo par P (b # bs) = (kids_of par b \<subseteq> P \<and> topo par (insert b P) bs)"

lemma topo_mono:
  assumes "\<And>x. kids_of par' x \<subseteq> kids_of par x - {b}"
  shows "topo par Q bs \<Longrightarrow> Q - {b} \<subseteq> P \<Longrightarrow> topo par' P bs"
proof (induction bs arbitrary: P Q)
  case (Cons x bs)
  have "topo par' (insert x P) bs" by (rule Cons.IH [of "insert x Q"]) (use Cons.prems in auto)
  moreover have "kids_of par' x \<subseteq> P" using assms [of x] Cons.prems by auto
  ultimately show ?case by simp
qed simp

lemma topo_filter:
  assumes "\<And>b. b \<in> F \<Longrightarrow> kids_of par b \<subseteq> F"
  shows "topo par P bs \<Longrightarrow> topo par (P \<inter> F) (filter (\<lambda>b. b \<in> F) bs)"
proof (induction bs arbitrary: P)
  case (Cons x bs)
  then have IH: "topo par (insert x P \<inter> F) (filter (\<lambda>b. b \<in> F) bs)" by simp
  show ?case
  proof (cases "x \<in> F")
    case True
    then have "insert x P \<inter> F = insert x (P \<inter> F)" by auto
    then show ?thesis using IH True assms [OF True] Cons.prems by auto
  next
    case False
    then have "insert x P \<inter> F = P \<inter> F" by auto
    then show ?thesis using IH False by simp
  qed
qed simp

lemma topo_sorted:
  assumes d: "\<And>b c. par c = Some (Some b) \<Longrightarrow> d b < (d c :: int)"
  shows "sorted (map (\<lambda>b. - d b) bs) \<Longrightarrow> (\<And>b. b \<in> set bs \<Longrightarrow> kids_of par b \<subseteq> P \<union> set bs) \<Longrightarrow> topo par P bs"
proof (induction bs arbitrary: P)
  case (Cons x bs)
  have "c \<notin> set (x # bs)" if "c \<in> kids_of par x" for c
    using d [of c x] that Cons.prems(1) by auto
  then have "kids_of par x \<subseteq> P" using Cons.prems(2) [of x] by auto
  moreover have "topo par (insert x P) bs" by (rule Cons.IH) (use Cons.prems in auto)
  ultimately show ?case by simp
qed simp

section \<open>Deleting a subtree\<close>

lemma index_free_step:
  assumes "shape_ok s" and "get_block s b = Some a"
  shows "b \<in> index_free s \<longleftrightarrow> locally_free (objs s a) \<and> kids_of (index_parent s) b \<subseteq> index_free s"
  using free_set_step [OF shape_okD(7) [OF assms(1)], of b "good_at s"] assms(2)
  by (auto simp: index_free_def obj_at_def index_parent_def)

lemma preview_loop_ok:
  assumes shape: "shape_ok s" and ref: "\<And>b a. get_block s b = Some a \<Longrightarrow> 0 \<le> ref_count (objs s a)"
  shows "set bs \<subseteq> dom (index_parent s) \<Longrightarrow> topo (index_parent s) P bs \<Longrightarrow>
    \<exists>B'. preview_loop s bs D B (P \<inter> index_free s) =
      Inr (D @ map (\<lambda>b. the (get_block s b)) (filter (\<lambda>b. b \<in> index_free s) bs), B @ B') \<and>
      map fst B' = map Some (filter (\<lambda>b. b \<notin> index_free s) bs)"
proof (induction bs arbitrary: P D B)
  case (Cons b bs)
  note sh = shape_okD [OF shape]
  obtain a where a: "get_block s b = Some a" using Cons.prems(1) by (auto simp: index_parent_def)
  have "block_parent (backend s) b \<noteq> None" unfolding sh(2) using a by (simp add: index_parent_def)
  then obtain cs where cs: "child_block_ids (backend s) b = Inr cs" "set cs = kids_of (index_parent s) b"
    using child_block_ids_ok [OF sh(1)] sh(2) by metis
  have kids: "kids_of (index_parent s) b \<subseteq> P" using Cons.prems(2) by simp
  have rest: "\<exists>B'. preview_loop s bs D1 B1 (insert b P \<inter> index_free s) =
      Inr (D1 @ map (\<lambda>b. the (get_block s b)) (filter (\<lambda>b. b \<in> index_free s) bs), B1 @ B') \<and>
      map fst B' = map Some (filter (\<lambda>b. b \<notin> index_free s) bs)" for D1 B1
    by (rule Cons.IH) (use Cons.prems in simp_all)
  show ?case
  proof (cases "b \<in> index_free s")
    case True
    have "blocked_reason s (P \<inter> index_free s) b (objs s a) = Inr None"
      using True index_free_step [OF shape a] cs kids by (auto simp: blocked_reason_def locally_free_def)
    moreover have "insert b (P \<inter> index_free s) = insert b P \<inter> index_free s" using True by auto
    ultimately show ?thesis using rest [of "D @ [a]" B] a True by simp
  next
    case False
    have "\<exists>why. blocked_reason s (P \<inter> index_free s) b (objs s a) = Inr (Some why)"
      using False index_free_step [OF shape a] cs kids ref [OF a] by (auto simp: blocked_reason_def locally_free_def)
    then obtain why where why: "blocked_reason s (P \<inter> index_free s) b (objs s a) = Inr (Some why)" by blast
    have "P \<inter> index_free s = insert b P \<inter> index_free s" using False by auto
    then obtain B' where "preview_loop s bs D (B @ [(Some b, why)]) (P \<inter> index_free s) =
      Inr (D @ map (\<lambda>b. the (get_block s b)) (filter (\<lambda>b. b \<in> index_free s) bs), (B @ [(Some b, why)]) @ B')"
      "map fst B' = map Some (filter (\<lambda>b. b \<notin> index_free s) bs)"
      using rest [of D "B @ [(Some b, why)]"] by auto
    then show ?thesis using a why False by (intro exI [of _ "(Some b, why) # B'"]) simp
  qed
qed simp

lemma deleted_inv: "index_inv (s\<lparr>deleted_blocks := x\<rparr>) \<longleftrightarrow> index_inv s" "same_view (s\<lparr>deleted_blocks := x\<rparr>) s"
  by (rule index_inv_cong; simp add: same_view_def) (simp add: same_view_def)

lemma delete_loop_ok:
  assumes "index_inv s" and "distinct bs" and "set bs \<subseteq> index_free s" and "topo (index_parent s) {} bs"
  shows "\<exists>t. delete_loop (map (\<lambda>b. the (get_block s b)) bs) D s = (Inr (D @ map (\<lambda>b. the (get_block s b)) bs), t) \<and>
    index_inv t \<and> objs t = objs s \<and> (\<forall>b. get_block t b = (if b \<in> set bs then None else get_block s b))"
  using assms
proof (induction bs arbitrary: s D)
  case (Cons b bs)
  note inv = Cons.prems(1)
  obtain a where a: "get_block s b = Some a"
    using Cons.prems(3) by (auto simp: index_free_def free_set_def index_parent_def)
  have leaf: "kids_of (index_parent s) b = {}" using Cons.prems(4) by simp
  have free: "locally_free (objs s a)" using index_free_step [OF index_invD(1) [OF inv] a] Cons.prems(3) by simp
  obtain R m where rm: "removable s a b R m" "remove_block_from_index b s = (Inr a, mark_removed b (unlink b R m s))"
    using remove_from_index_ok [OF inv a free leaf] by blast
  let ?r = "mark_removed b (unlink b R m s)"
  let ?s = "?r\<lparr>deleted_blocks := deleted_blocks ?r + 1\<rparr>"
  note v = same_view_simps [OF deleted_inv(2)]
  have s: "index_inv ?s" "objs ?s = objs s" "get_block ?s = (get_block s)(b := None)"
      "index_parent ?s = (index_parent s)(b := None)" "index_free ?s = index_free s - {b}"
    using removed_inv [OF rm(1)] removed_view [of b R m s] removable_free(2) [OF rm(1)]
    by (simp_all add: deleted_inv v same_view_simps(6) [OF mark_removed_view])
  have "topo (index_parent ?s) {} bs" unfolding s(4)
    by (rule topo_mono [of _ "index_parent s" b "{b}"]) (use Cons.prems(4) kids_drop_leaf [OF leaf] in auto)
  then have IH: "\<exists>t. delete_loop (map (\<lambda>b. the (get_block ?s b)) bs) (D @ [a]) ?s = (Inr ((D @ [a]) @ map (\<lambda>b. the (get_block ?s b)) bs), t) \<and>
    index_inv t \<and> objs t = objs ?s \<and> (\<forall>b. get_block t b = (if b \<in> set bs then None else get_block ?s b))"
    by (intro Cons.IH [OF s(1)]) (use Cons.prems s(5) in auto)
  have same: "map (\<lambda>b. the (get_block ?s b)) bs = map (\<lambda>b. the (get_block s b)) bs"
    using Cons.prems(2) s(3) by auto
  have id: "stable_block_id (objs s a) = b" by (rule shape_okD(4) [OF index_invD(1) [OF inv] a])
  obtain t where t: "delete_loop (map (\<lambda>b. the (get_block s b)) bs) (D @ [a]) ?s = (Inr ((D @ [a]) @ map (\<lambda>b. the (get_block s b)) bs), t)"
      "index_inv t" "objs t = objs s" "\<And>c. get_block t c = (if c \<in> set bs then None else ((get_block s)(b := None)) c)"
    using IH [unfolded same] unfolding s(2,3) by blast
  have "delete_loop (map (\<lambda>b. the (get_block s b)) (b # bs)) D s = (Inr (D @ map (\<lambda>b. the (get_block s b)) (b # bs)), t)"
    using t(1) a rm(2) id by (simp add: Let_def)
  then show ?case using t(2-4) by (intro exI [of _ t]) simp
qed simp

lemma path_depth:
  assumes "shape_ok s"
  obtains d :: "'b::linorder \<Rightarrow> nat" where "\<And>b. b \<in> dom (index_parent s) \<Longrightarrow> \<exists>xs. path_to_block (backend s) b = Inr xs \<and> length xs = d b"
    and "\<And>b c. index_parent s c = Some (Some b) \<Longrightarrow> d c = Suc (d b)"
proof -
  note sh = shape_okD [OF assms]
  let ?d = "\<lambda>b. length (projr (path_to_block (backend s) b))"
  have path: "\<exists>xs. path_to_block (backend s) b = Inr xs \<and> chain (index_parent s) None xs \<and> xs \<noteq> [] \<and> last xs = b"
    if "b \<in> dom (index_parent s)" for b
    using path_to_block_ok [OF sh(1), of b] that unfolding sh(2) by blast
  have "?d c = Suc (?d b)" if c: "index_parent s c = Some (Some b)" for b c
  proof -
    obtain xs ys where xs: "path_to_block (backend s) b = Inr xs" "chain (index_parent s) None xs" "xs \<noteq> []" "last xs = b"
      and ys: "path_to_block (backend s) c = Inr ys" "chain (index_parent s) None ys" "ys \<noteq> []" "last ys = c"
      using path [of b] path [of c] forest_up [OF sh(7) c] c by auto
    have "chain (index_parent s) None (xs @ [c])" using xs c by (simp add: chain_append)
    then have "ys = xs @ [c]" using chain_unique [OF ys(2)] ys(3,4) by simp
    then show ?thesis using xs(1) ys(1) by simp
  qed
  then show ?thesis using that [of ?d] path by force
qed

lemma descends_dom:
  assumes f: "forest_ok par" and "b \<in> dom par" and "(b, c) \<in> descends par"
  shows "c \<in> dom par"
  using assms(3) unfolding descends_def by (induction rule: rtrancl_induct) (use assms(2) in auto)

lemma preview_ids_ok:
  assumes shape: "shape_ok s" and ref: "\<And>b a. get_block s b = Some a \<Longrightarrow> 0 \<le> ref_count (objs s a)"
    and sub: "distinct sub" "set sub \<subseteq> dom (index_parent s)" "\<And>b. b \<in> set sub \<Longrightarrow> kids_of (index_parent s) b \<subseteq> set sub"
  shows "\<exists>bs B. preview_ids s sub = Inr (map (\<lambda>b. the (get_block s b)) bs, B) \<and> distinct bs \<and>
    set bs = set sub \<inter> index_free s \<and> fst ` set B = Some ` (set sub - index_free s) \<and> topo (index_parent s) {} bs"
proof -
  obtain d where d: "\<And>b. b \<in> dom (index_parent s) \<Longrightarrow> \<exists>xs. path_to_block (backend s) b = Inr xs \<and> length xs = d b"
    "\<And>b c. index_parent s c = Some (Some b) \<Longrightarrow> d c = Suc (d b)" by (rule path_depth [OF shape]) (rule that)
  let ?ds = "map (\<lambda>b. (b, d b)) sub"
  have run: "mapR (\<lambda>b. bindR (path_to_block (backend s) b) (\<lambda>path. Inr (b, length path))) sub = Inr ?ds"
  proof (rule mapR_total)
    fix b assume "b \<in> set sub"
    then obtain xs where "path_to_block (backend s) b = Inr xs" "length xs = d b" using d(1) [of b] sub(2) by blast
    then show "bindR (path_to_block (backend s) b) (\<lambda>path. Inr (b, length path)) = Inr (b, d b)" by simp
  qed
  define bs where "bs = map fst (sort_key (\<lambda>(b, n). - int n) ?ds)"
  have "mset bs = mset (map fst ?ds)" unfolding bs_def by (simp only: mset_map mset_sort)
  then have ms: "mset bs = mset sub" by (simp add: comp_def)
  have set: "set bs = set sub" using ms by (rule mset_eq_setD)
  have dist: "distinct bs" using sub(1) mset_eq_imp_distinct_iff [OF ms] by simp
  have "map (\<lambda>b. - int (d b)) bs = map (\<lambda>(b, n). - int n) (sort_key (\<lambda>(b, n). - int n) ?ds)"
    unfolding bs_def by (auto simp: comp_def)
  then have sorted: "sorted (map (\<lambda>b. - int (d b)) bs)" by simp
  have topo: "topo (index_parent s) {} bs"
    by (rule topo_sorted [where d="\<lambda>b. int (d b)", OF _ sorted]) (use d(2) set sub(3) in auto)
  obtain B where loop: "preview_loop s bs [] [] {} = Inr (map (\<lambda>b. the (get_block s b)) (filter (\<lambda>b. b \<in> index_free s) bs), B)"
      "map fst B = map Some (filter (\<lambda>b. b \<notin> index_free s) bs)"
    using preview_loop_ok [where bs=bs and P="{}" and D="[]" and B="[]", OF shape] ref topo set sub(2) by auto
  have "topo (index_parent s) ({} \<inter> index_free s) (filter (\<lambda>b. b \<in> index_free s) bs)"
  proof (rule topo_filter [OF _ topo])
    show "kids_of (index_parent s) b \<subseteq> index_free s" if "b \<in> index_free s" for b
      using free_set_step [OF shape_okD(7) [OF shape], of b "good_at s"] that by (simp add: index_free_def)
  qed
  moreover have "fst ` set B = Some ` (set sub - index_free s)" using arg_cong [OF loop(2), of set] set by auto
  ultimately show ?thesis using run loop(1) dist set
    by (intro exI [of _ "filter (\<lambda>b. b \<in> index_free s) bs"] exI [of _ B]) (auto simp: preview_ids_def bs_def)
qed

text \<open>A prefix that is cached to its last block selects the subtree of that block.\<close>

lemma exact_subtree_ok:
  assumes shape: "shape_ok s" and ids: "ids \<noteq> []" "chain (index_parent s) None ids"
  shows "\<exists>sub. exact_subtree_ids s ids = Inr (Some sub) \<and> distinct sub \<and> set sub = {c. (last ids, c) \<in> descends (index_parent s)} \<and>
    set sub \<subseteq> dom (index_parent s) \<and> (\<forall>b\<in>set sub. kids_of (index_parent s) b \<subseteq> set sub)"
proof -
  note sh = shape_okD [OF shape]
  have "match_chain (index_parent s) None ids = length ids"
    using match_chain_greatest [of "index_parent s" None "length ids" ids] match_chain_le [of "index_parent s" None ids] ids(2) by simp
  then have look: "lookup (backend s) ids (int (length ids)) = Inr \<lparr>hit_block_count = length ids, last_block_id = Some (last ids)\<rparr>"
    using lookup_ok [OF sh(1)] ids(1) unfolding sh(2) by (simp add: lookup_result_def last_conv_nth Let_def)
  have lst: "last ids \<in> dom (index_parent s)" using chain_dom [OF ids(2)] ids(1) last_in_set by blast
  then obtain sub where sub: "subtree_block_ids (backend s) (last ids) = Inr sub" "distinct sub"
      "set sub = {c. (last ids, c) \<in> descends (index_parent s)}"
    using subtree_block_ids_ok [OF sh(1), of "last ids"] unfolding sh(2) by blast
  have "c \<in> set sub" if "b \<in> set sub" "c \<in> kids_of (index_parent s) b" for b c
    using that unfolding sub(3) descends_def by (auto intro: rtrancl_into_rtrancl)
  moreover have "set sub \<subseteq> dom (index_parent s)" unfolding sub(3) using descends_dom [OF sh(7) lst] by blast
  moreover have "exact_subtree_ids s ids = Inr (Some sub)" using look sub(1) ids(1) by (simp add: exact_subtree_ids_def)
  ultimately show ?thesis using sub(2,3) by blast
qed

lemma counter_inv:
  "index_inv (s\<lparr>control_delete_requests := x\<rparr>) \<longleftrightarrow> index_inv s" "index_inv (s\<lparr>block_id_generation_requests := x\<rparr>) \<longleftrightarrow> index_inv s"
  "index_inv (s\<lparr>control_priority_updates := x\<rparr>) \<longleftrightarrow> index_inv s" "index_inv (s\<lparr>control_inspect_requests := x\<rparr>) \<longleftrightarrow> index_inv s"
  by (rule index_inv_cong; simp add: same_view_def)+

lemma safe_delete_ok:
  fixes s :: "(bytes, 'p) prefix_index"
  assumes inv: "index_inv s" and ref: "\<And>b a. get_block s b = Some a \<Longrightarrow> 0 \<le> ref_count (objs s a)"
    and ids: "token_block_ids sha (fingerprint s) (block_size s) ts None = Inr ids" "ids \<noteq> []" "chain (index_parent s) None ids"
  shows "\<exists>deleted blocked t. safe_delete_subtree sha ts s = (Inr (deleted, blocked), t) \<and> index_inv t \<and>
    distinct (ids_of s deleted) \<and> set (ids_of s deleted) = {c. (last ids, c) \<in> descends (index_parent s)} \<inter> index_free s \<and>
    fst ` set blocked = Some ` ({c. (last ids, c) \<in> descends (index_parent s)} - index_free s) \<and>
    (\<forall>b. get_block t b = (if b \<in> set (ids_of s deleted) then None else get_block s b))"
proof -
  let ?u = "s\<lparr>control_delete_requests := control_delete_requests s + 1,
    block_id_generation_requests := block_id_generation_requests s + 1\<rparr>"
  have vu: "same_view ?u s" by (simp add: same_view_def)
  note v = same_view_simps [OF vu]
  have inv': "index_inv ?u" using inv by (simp add: counter_inv)
  have obj: "objs ?u = objs s" by simp
  obtain sub where sub: "exact_subtree_ids ?u ids = Inr (Some sub)" "distinct sub" "set sub = {c. (last ids, c) \<in> descends (index_parent s)}"
      "set sub \<subseteq> dom (index_parent s)" "\<And>b. b \<in> set sub \<Longrightarrow> kids_of (index_parent s) b \<subseteq> set sub"
    using exact_subtree_ok [OF index_invD(1) [OF inv'] ids(2)] ids(3) unfolding v by blast
  note P = preview_ids_ok [OF index_invD(1) [OF inv'] _ sub(2), unfolded v obj]
  have "\<exists>bs B. preview_ids ?u sub = Inr (map (\<lambda>b. the (get_block s b)) bs, B) \<and> distinct bs \<and>
      set bs = set sub \<inter> index_free s \<and> fst ` set B = Some ` (set sub - index_free s) \<and> topo (index_parent s) {} bs"
    by (rule P) (erule ref, rule sub(4), erule sub(5))
  then obtain bs B where plan: "preview_ids ?u sub = Inr (map (\<lambda>b. the (get_block s b)) bs, B)" "distinct bs"
      "set bs = set sub \<inter> index_free s" "fst ` set B = Some ` (set sub - index_free s)" "topo (index_parent s) {} bs"
    by blast
  obtain t where del: "delete_loop (map (\<lambda>b. the (get_block s b)) bs) [] ?u = (Inr (map (\<lambda>b. the (get_block s b)) bs), t)"
      "index_inv t" "\<And>b. get_block t b = (if b \<in> set bs then None else get_block s b)"
    using delete_loop_ok [OF inv' plan(2), of "[]", unfolded v] plan(3,5) by auto
  have "safe_delete_subtree sha ts s = (Inr (map (\<lambda>b. the (get_block s b)) bs, B), t)"
    using ids(1) sub(1) plan(1) del(1)
    by (simp add: safe_delete_subtree_def preview_delete_subtree_def exact_subtree_ids_for_tokens_def block_ids_for_tokens_def eff_simps)
  moreover have "map (\<lambda>b. stable_block_id (objs s (the (get_block s b)))) bs = bs"
  proof (rule map_idI)
    fix b assume "b \<in> set bs"
    then obtain a where "get_block s b = Some a" using plan(3) by (auto simp: index_free_def free_set_def index_parent_def)
    then show "stable_block_id (objs s (the (get_block s b))) = b" using shape_okD(4) [OF index_invD(1) [OF inv]] by simp
  qed
  then have "ids_of s (map (\<lambda>b. the (get_block s b)) bs) = bs" by (simp add: comp_def)
  ultimately show ?thesis using plan(2-4) del(2,3) sub(3) by (intro exI conjI) (assumption, simp_all)
qed

section \<open>The control operations keep the invariant\<close>

lemma delete_loop_inv: "index_inv s \<Longrightarrow> index_inv (snd (delete_loop as D s))"
proof (induction as arbitrary: D s)
  case (Cons a as)
  let ?b = "stable_block_id (objs s a)"
  have "index_inv (snd (remove_block_from_index ?b s))"
    using remove_from_index_keeps Cons.prems unfolding keeps_def by blast
  then show ?case using Cons by (auto simp: Let_def deleted_inv split: prod.split sum.split)
qed simp

lemma delete_loop_keeps: "keeps index_inv (delete_loop as D)"
  by (simp add: keeps_def delete_loop_inv)

lemma count_request_keeps:
  "keeps index_inv (modifyE (\<lambda>s. s\<lparr>control_delete_requests := control_delete_requests s + 1\<rparr>))"
  "keeps index_inv (modifyE (\<lambda>s. s\<lparr>control_inspect_requests := control_inspect_requests s + 1\<rparr>))"
  "keeps index_inv (modifyE (\<lambda>s. s\<lparr>control_priority_updates := control_priority_updates s + 1\<rparr>))"
  by (simp_all add: keeps_def eff_simps counter_inv)

lemma block_ids_for_tokens_keeps: "keeps index_inv (block_ids_for_tokens sha ts m)"
  by (simp add: keeps_def block_ids_for_tokens_def counter_inv)

lemma query_keeps: "keeps index_inv (queryE q)"
  by (simp add: keeps_def eff_simps)

lemmas control_keeps = keeps_bindE keeps_thenE keeps_pure count_request_keeps block_ids_for_tokens_keeps query_keeps
  delete_loop_keeps set_priority_ids_keeps

lemma safe_delete_keeps: "keeps index_inv (safe_delete_subtree sha ts)"
  unfolding safe_delete_subtree_def preview_delete_subtree_def exact_subtree_ids_for_tokens_def
  by (intro control_keeps) (auto split: option.split prod.split intro!: control_keeps)

lemma inspect_keeps: "keeps index_inv (inspect_prefix sha resident ts sub)"
  unfolding inspect_prefix_def by (intro control_keeps)

lemma set_priority_keeps: "keeps index_inv (set_subtree_eviction_priority sha ts p)"
  unfolding set_subtree_eviction_priority_def by (intro control_keeps)

lemma keeps_answer: "keeps I (\<lambda>s. (Inr (g s), s))"
  by (simp add: keeps_def)

lemma stats_keeps: "keeps index_inv index_stats"
  unfolding index_stats_def case_prod_beta
  by (intro keeps_bindE query_keeps count_keeps keeps_answer)

end
