(* ===== verification/Write_Through.thy ===== *)
theory Write_Through
  imports Subtree_Control
begin

text \<open>
  The selection of blocks to back up agrees with the residency state machine: starting the transfers
  of the selected blocks one after the other never raises.
\<close>

lemma begin_d2h_ok:
  assumes inv: "index_inv t" and b: "get_block t b = Some a"
    and free: "ref_count (objs t a) = 0" "\<not> host_present (resid (objs t a))" "transfer (resid (objs t a)) = None"
    and up: "\<And>p. parent_block_id (objs t a) = Some p \<Longrightarrow> \<exists>q. get_block t p = Some q \<and>
      (host_present (resid (objs t q)) \<or> transfer (resid (objs t q)) = Some D2H)"
  shows "\<exists>u. begin_d2h a t = (Inr (), u) \<and> index_inv u \<and> get_block u = get_block t \<and>
    objs u = (objs t)(a := (objs t a)\<lparr>resid := (resid (objs t a))\<lparr>transfer := Some D2H\<rparr>\<rparr>)"
proof -
  let ?g = "\<lambda>r. r\<lparr>transfer := Some D2H\<rparr>"
  let ?f = "\<lambda>k :: ('a, 'b) cache_block. k\<lparr>resid := ?g (resid k)\<rparr>"
  let ?u = "mark_capacity_mutated (refreshed (set_block a ?f t))"
  have id: "stable_block_id (objs t a) = b" by (rule shape_okD(4) [OF index_invD(1) [OF inv] b])
  have v: "validate (resid (objs t a)) = Inr ()" "validate (?g (resid (objs t a))) = Inr ()"
    using resid_okD(1) [OF inv b] free by (simp_all add: validate_split)
  have res: "resid_ok (set_resid a ?g t)"
    by (rule set_resid_ok [OF inv b]) (use v(2) resid_okD [OF inv b] in \<open>auto simp: is_device_def\<close>)
  have parent: "\<not> (case parent_resid t a of None \<Rightarrow> False | Some None \<Rightarrow> True
      | Some (Some pr) \<Rightarrow> \<not> (host_present pr \<or> transfer pr = Some D2H))"
    using up by (auto simp: parent_resid_def split: option.splits)
  note u = update_block_inv [where f="?f", OF inv b _ _ res]
  have "begin_d2h a t = finish_transfer_update a (set_resid a ?g t)"
    using b id v(1) free parent by (simp add: begin_d2h_def Let_def)
  also have "\<dots> = (Inr (), ?u)" using u(1) v(2) by (simp add: finish_transfer_update_def id)
  finally have "begin_d2h a t = (Inr (), ?u)" .
  moreover have "get_block ?u = get_block t"
    by (simp add: same_view_simps(1) [OF mark_sel(2)] same_view_simps(1) [OF mark_sel(4)])
  moreover have "objs ?u = (objs t)(a := ?f (objs t a))"
    by (simp add: mark_capacity_mutated_def mark_mutated_def refreshed_def)
  ultimately show ?thesis using u(2) by auto
qed

text \<open>The state after the backups of \<open>xs\<close> were started.\<close>

definition backing_up :: "('b::linorder, 'p) prefix_index \<Rightarrow> nat list \<Rightarrow> ('b, 'p) prefix_index \<Rightarrow> bool" where
  "backing_up s xs t \<longleftrightarrow> index_inv t \<and> get_block t = get_block s \<and>
     (\<forall>x. objs t x = (if x \<in> set xs then (objs s x)\<lparr>resid := (resid (objs s x))\<lparr>transfer := Some D2H\<rparr>\<rparr> else objs s x))"

lemma backup_one:
  assumes bu: "backing_up s xs t" and a: "backup_ready s (stable_block_id (objs s a)) a" "a \<notin> set xs"
    and xs: "\<And>x. x \<in> set xs \<Longrightarrow> get_block s (stable_block_id (objs s x)) = Some x"
    and up: "parent_ready s (set (ids_of s xs)) (objs s a)"
  shows "\<exists>u. begin_d2h a t = (Inr (), u) \<and> backing_up s (xs @ [a]) u"
proof -
  have t: "index_inv t" "get_block t = get_block s" "objs t a = objs s a"
    "\<And>x. objs t x = (if x \<in> set xs then (objs s x)\<lparr>resid := (resid (objs s x))\<lparr>transfer := Some D2H\<rparr>\<rparr> else objs s x)"
    using bu a(2) by (simp_all add: backing_up_def)
  have "\<exists>u. begin_d2h a t = (Inr (), u) \<and> index_inv u \<and> get_block u = get_block t \<and>
    objs u = (objs t)(a := (objs t a)\<lparr>resid := (resid (objs t a))\<lparr>transfer := Some D2H\<rparr>\<rparr>)"
  proof (rule begin_d2h_ok [OF t(1), of "stable_block_id (objs s a)"])
    show "\<exists>q. get_block t p = Some q \<and> (host_present (resid (objs t q)) \<or> transfer (resid (objs t q)) = Some D2H)"
      if p: "parent_block_id (objs t a) = Some p" for p
    proof -
      obtain q where q: "get_block s p = Some q" and ready: "host_present (resid (objs s q)) \<or>
          transfer (resid (objs s q)) = Some D2H \<or> stable_block_id (objs s q) \<in> set (ids_of s xs)"
        using up p t(3) by (auto simp: parent_ready_def split: option.splits)
      have id: "stable_block_id (objs s q) = p"
        using shape_okD(4) [OF index_invD(1) [OF t(1)], of p q] q t(2,4) by (auto split: if_splits)
      have "q \<in> set xs" if in_xs: "stable_block_id (objs s q) \<in> set (ids_of s xs)"
      proof -
        obtain x where "x \<in> set xs" "stable_block_id (objs s x) = p" using in_xs id by auto
        then show ?thesis using xs [of x] q by simp
      qed
      then show ?thesis using q ready t(2,4) by auto
    qed
  qed (use a(1) t(2,3) in \<open>auto simp: backup_ready_def\<close>)
  then obtain u where u: "begin_d2h a t = (Inr (), u)" "index_inv u" "get_block u = get_block t"
      "objs u = (objs t)(a := (objs t a)\<lparr>resid := (resid (objs t a))\<lparr>transfer := Some D2H\<rparr>\<rparr>)" by blast
  have "backing_up s (xs @ [a]) u"
    unfolding backing_up_def u(3,4) t(2,3) using u(2) t(4) by simp
  then show ?thesis using u(1) by blast
qed

lemma select_loop_backs_up:
  assumes "backing_up s xs t" and "distinct as" and "set as \<inter> set xs = {}"
    and "\<And>a. a \<in> set as \<Longrightarrow> backup_ready s (stable_block_id (objs s a)) a"
    and "\<And>x. x \<in> set xs \<Longrightarrow> get_block s (stable_block_id (objs s x)) = Some x"
  shows "\<exists>ys u. select_loop s as xs (set (ids_of s xs)) = xs @ ys \<and> forE ys begin_d2h t = (Inr (), u) \<and> backing_up s (xs @ ys) u"
  using assms
proof (induction as arbitrary: xs t)
  case Nil
  then show ?case by (intro exI [of _ "[]"] exI [of _ t]) (simp add: eff_simps)
next
  case (Cons a as)
  have a: "backup_ready s (stable_block_id (objs s a)) a" "a \<notin> set xs" using Cons.prems(3,4) by auto
  show ?case
  proof (cases "parent_ready s (set (ids_of s xs)) (objs s a)")
    case True
    obtain u where u: "begin_d2h a t = (Inr (), u)" "backing_up s (xs @ [a]) u"
      using backup_one [OF Cons.prems(1) a Cons.prems(5) True] by blast
    have "\<exists>ys v. select_loop s as (xs @ [a]) (set (ids_of s (xs @ [a]))) = (xs @ [a]) @ ys \<and>
        forE ys begin_d2h u = (Inr (), v) \<and> backing_up s ((xs @ [a]) @ ys) v"
      by (rule Cons.IH [OF u(2)]) (use Cons.prems a(1) in \<open>auto simp: backup_ready_def\<close>)
    then obtain ys v where "select_loop s as (xs @ [a]) (set (ids_of s (xs @ [a]))) = (xs @ [a]) @ ys"
        "forE ys begin_d2h u = (Inr (), v)" "backing_up s ((xs @ [a]) @ ys) v" by blast
    then show ?thesis using True u(1) by (intro exI [of _ "a # ys"] exI [of _ v]) (simp add: eff_simps)
  next
    case False
    have "\<exists>ys v. select_loop s as xs (set (ids_of s xs)) = xs @ ys \<and> forE ys begin_d2h t = (Inr (), v) \<and> backing_up s (xs @ ys) v"
      by (rule Cons.IH [OF Cons.prems(1)]) (use Cons.prems in auto)
    then show ?thesis using False by simp
  qed
qed

lemma split_pending_candidates:
  "snd (split_pending s xs pending cs) = cs @ map snd (filter (\<lambda>(b, a). backup_ready s b a) xs)"
  by (induction s xs pending cs rule: split_pending.induct) auto

lemma add_pending_distinct: "distinct (map fst pending) \<Longrightarrow> distinct (map fst (add_pending s as pending))"
proof -
  have "distinct (map fst d) \<Longrightarrow> distinct (map fst (foldl (\<lambda>d a. if ref_count (objs s a) = 0
      then dict_set (stable_block_id (objs s a)) a d else d) d as))" for d :: "('a, nat) dict"
    by (induction as arbitrary: d) (simp_all add: distinct_update)
  then show "distinct (map fst pending) \<Longrightarrow> distinct (map fst (add_pending s as pending))" by (simp add: add_pending_def)
qed

lemma selected_back_up:
  assumes inv: "index_inv s" and pending: "distinct (map fst pending)"
    and sel: "select_write_through_candidates s pending newly = (selected, pending')"
  shows "\<exists>t. forE selected begin_d2h s = (Inr (), t) \<and> backing_up s selected t"
proof -
  define p1 where "p1 = add_pending s (case newly of None \<Rightarrow> map snd (blocks s) | Some as \<Rightarrow> as) pending"
  define cs where "cs = map snd (filter (\<lambda>(b, a). backup_ready s b a) p1)"
  let ?sorted = "sort_key (\<lambda>a. (logical_block_idx (objs s a), last_access (objs s a))) cs"
  have selected: "selected = select_loop s ?sorted [] {}"
    using sel split_pending_candidates [of s p1 p1 "[]"]
    by (auto simp: select_write_through_candidates_def p1_def cs_def Let_def split: prod.splits)
  have d: "distinct (map fst p1)" unfolding p1_def by (rule add_pending_distinct [OF pending])
  have id: "stable_block_id (objs s a) = b" if "backup_ready s b a" for b a
    using shape_okD(4) [OF index_invD(1) [OF inv]] that by (simp add: backup_ready_def)
  have "distinct cs"
  proof -
    have "map fst (filter (\<lambda>(b, a). backup_ready s b a) p1) = map (\<lambda>a. stable_block_id (objs s a)) cs"
      unfolding cs_def using id by auto
    moreover have "distinct (map fst (filter (\<lambda>(b, a). backup_ready s b a) p1))" using d by (rule distinct_map_filter)
    ultimately show ?thesis by (simp add: distinct_map)
  qed
  moreover have "backup_ready s (stable_block_id (objs s a)) a" if "a \<in> set cs" for a
    using that id by (auto simp: cs_def)
  moreover have "backing_up s [] s" using inv by (simp add: backing_up_def)
  ultimately have "\<exists>ys u. select_loop s ?sorted [] (set (ids_of s [])) = [] @ ys \<and> forE ys begin_d2h s = (Inr (), u) \<and> backing_up s ([] @ ys) u"
    by (intro select_loop_backs_up) auto
  then show ?thesis by (simp add: selected)
qed

end
