(* ===== verification/Prefix_Machine.thy ===== *)
theory Prefix_Machine
  imports Write_Through
begin

text \<open>
  The prefix index as a state machine: every public operation of \<open>RadixPrefixIndex\<close>, and the changes
  its clients make to block objects, as steps; the invariant holds in every reachable state.
\<close>

section \<open>The remaining operations\<close>

lemma routing_snapshot_keeps: "keeps index_inv (index_routing_snapshot method)"
proof -
  have "index_inv (s\<lparr>routing_snapshot_cache := Some \<lparr>rs_supported = True, rs_enabled = True, rs_method = method,
      rs_block_size = Some (block_size s), rs_fingerprint = fingerprint s, rs_block_ids = {},
      rs_membership = Some (routing_membership_ids s)\<rparr>\<rparr>)" (is "index_inv ?t") if inv: "index_inv s" for s :: "('a, 'b) prefix_index"
  proof -
    have v: "same_view ?t s" by (simp add: same_view_def)
    have "shape_ok ?t" "free_ok ?t" "resid_ok ?t" "cache_ok ?t" "bound_ok ?t"
      using index_invD(1-5) [OF inv] same_view_simps [OF v]
      unfolding shape_ok_def free_ok_def resid_ok_def cache_ok_def bound_ok_def by simp_all
    then show ?thesis by (simp add: index_inv_def snapshot_ok_def)
  qed
  then show ?thesis by (auto simp: keeps_def index_routing_snapshot_def Let_def split: option.split)
qed

lemma counters_inv:
  "index_inv (s\<lparr>lookup_requests := x\<rparr>) \<longleftrightarrow> index_inv s"
  "index_inv (s\<lparr>lookup_requests := x, hit_requests := y, hit_tokens := z, hit_blocks := w\<rparr>) \<longleftrightarrow> index_inv s"
  "index_inv (s\<lparr>removed_block_ids_for_capacity := r\<rparr>) \<longleftrightarrow> index_inv s"
  by (rule index_inv_cong; simp add: same_view_def)+

lemma lookup_keeps:
  "keeps index_inv (lookup_longest_block_ids ids)" "keeps index_inv (lookup_longest_prefix sha ts m)"
  "keeps index_inv (match_longest_prefix sha ts m)" "keeps index_inv take_removed_block_ids_for_capacity"
proof -
  show look: "keeps index_inv (lookup_longest_block_ids ids)" for ids :: "'x::linorder list"
    by (auto simp: keeps_def lookup_longest_block_ids_def Let_def counters_inv split: sum.split)
  show "keeps index_inv (lookup_longest_prefix sha ts m)"
    unfolding lookup_longest_prefix_def by (intro keeps_bindE block_ids_for_tokens_keeps look)
  show "keeps index_inv (match_longest_prefix sha ts m)"
    unfolding match_longest_prefix_def by (intro keeps_bindE block_ids_for_tokens_keeps query_keeps)
  show "keeps index_inv take_removed_block_ids_for_capacity"
    by (simp add: keeps_def take_removed_block_ids_for_capacity_def Let_def counters_inv)
qed

lemma compacted_keeps: "keeps index_inv (mark_payload_compacted as)"
  by (auto simp: keeps_def mark_payload_compacted_def resident_epoch_inv intro!: mark_capacity_mutated_inv)

lemma evict_keeps:
  "keeps index_inv (evict_until_weight n w)" "keeps index_inv (evict_host_until_weight n w)"
  unfolding evict_until_weight_def evict_host_until_weight_def
  by (rule full.evict_batch_keeps host.evict_batch_keeps)+

lemma ensure_capacity_keeps: "keeps index_inv (ensure_insert_capacity n)"
proof -
  have k: "keeps index_inv (bindE (evict_until_freeable m) (\<lambda>evicted.
      if int (length evicted) \<noteq> m then thenE evictable_blocks (raiseE RuntimeError) else retE evicted) :: ('a, 'b, nat list) index_op)"
    for m and c :: "('a, 'b) prefix_index"
    unfolding evict_until_freeable_def
    by (intro keeps_bindE evict_keeps) (simp add: thenE_def keeps_bindE count_keeps keeps_pure)
  show ?thesis
    by (auto simp: keeps_def ensure_insert_capacity_def Let_def k [unfolded keeps_def, rule_format] split: option.split)
qed

lemma client_update_inv:
  assumes "index_inv s"
  shows "index_inv (set_block a (\<lambda>k. k\<lparr>payload := p, token_ids := ts, prune_record := r\<rparr>) s)"
  by (rule agree_inv [OF assms refl]) (simp add: locally_free_def device_locally_freeable_def)

section \<open>The machine\<close>

inductive index_step :: "(bytes, 'p) prefix_index \<Rightarrow> (bytes, 'p) prefix_index \<Rightarrow> bool" where
  new_block: "(\<And>b. get_block s b \<noteq> Some a) \<Longrightarrow> index_step s (set_block a (\<lambda>_. k) s)"
| set_payload: "index_step s (set_block a (\<lambda>k. k\<lparr>payload := p, token_ids := ts, prune_record := r\<rparr>) s)"
| insert: "index_step s (snd (insert_block a s))"
| rollback: "index_step s (snd (rollback_inserted_leaf a s))"
| ref_count: "index_step s (snd (set_block_ref_count a n s))"
| acquire: "index_step s (snd (acquire_block_ref a s))"
| release: "index_step s (snd (release_block_ref a s))"
| touch: "index_step s (touch_chain as s)"
| compacted: "index_step s (snd (mark_payload_compacted as s))"
| backup: "index_step s (snd (begin_d2h a s))"
| backed_up: "index_step s (snd (finish_d2h a s))"
| backup_failed: "index_step s (snd (abort_d2h a s))"
| restore: "index_step s (snd (begin_h2d a s))"
| restored: "index_step s (snd (finish_h2d a s))"
| restore_failed: "index_step s (snd (abort_h2d a s))"
| evict: "index_step s (snd (evict_until_weight n w s))"
| evict_host: "index_step s (snd (evict_host_until_weight n w s))"
| make_room: "index_step s (snd (ensure_insert_capacity n s))"
| demote: "index_step s (snd (demote_device_until_weight n w s))"
| match_ids: "index_step s (snd (lookup_longest_block_ids ids s))"
| lookup_tokens: "index_step s (snd (lookup_longest_prefix sha ts m s))"
| match_tokens: "index_step s (snd (match_longest_prefix sha ts m s))"
| snapshot: "index_step s (snd (index_routing_snapshot method s))"
| removed: "index_step s (snd (take_removed_block_ids_for_capacity s))"
| freeable: "index_step s (snd (freeable_block_ids s))"
| evictable: "index_step s (snd (evictable_block_ids s))"
| device_freeable: "index_step s (snd (device_freeable_block_ids s))"
| device_reclaimable: "index_step s (snd (device_reclaimable_block_ids s))"
| inspect: "index_step s (snd (inspect_prefix sha resident ts sub s))"
| delete: "index_step s (snd (safe_delete_subtree sha ts s))"
| priority: "index_step s (snd (set_subtree_eviction_priority sha ts p s))"
| stats: "index_step s (snd (index_stats s))"

inductive index_reachable :: "(bytes, 'p) prefix_index \<Rightarrow> bool" where
  init: "RadixPrefixIndex heap bs fp mb = Inr s \<Longrightarrow> index_reachable s"
| step: "index_reachable s \<Longrightarrow> index_step s t \<Longrightarrow> index_reachable t"

lemma keeps_snd: "keeps index_inv m \<Longrightarrow> index_inv s \<Longrightarrow> index_inv (snd (m s))"
  by (simp add: keeps_def)

lemmas op_keeps = insert_block_keeps rollback_keeps set_block_ref_count_keeps acquire_block_ref_keeps
  release_block_ref_keeps compacted_keeps begin_d2h_keeps finish_d2h_keeps abort_d2h_keeps
  begin_h2d_keeps finish_h2d_keeps abort_h2d_keeps evict_keeps ensure_capacity_keeps demote_device_keeps
  lookup_keeps routing_snapshot_keeps view_keeps inspect_keeps safe_delete_keeps set_priority_keeps stats_keeps

lemma index_step_inv: "index_step s t \<Longrightarrow> index_inv s \<Longrightarrow> index_inv t"
proof (induction rule: index_step.induct)
  case (new_block s a k)
  then show ?case by (intro set_unindexed_inv)
next
  case (set_payload s a p ts r)
  then show ?case by (rule client_update_inv)
next
  case (touch s as)
  then show ?case by (rule touch_chain_inv)
qed (rule keeps_snd, rule op_keeps, assumption)+

lemma empty_index_inv:
  assumes "RadixPrefixIndex heap bs fp mb = Inr s"
  shows "index_inv s"
proof -
  have bs: "0 < bs" "\<And>m. mb = Some m \<Longrightarrow> 0 < m"
    using assms by (auto simp: RadixPrefixIndex_def not_le split: if_splits option.splits)
  have s: "blocks s = []" "backend s = RadixTreeBackend" "freeable_ids s = None" "routing_membership_ids s = empty_membership"
      "routing_snapshot_cache s = None" "block_size s = bs" "max_blocks s = mb" "capacity_epoch s = 0"
      "freeable_cache_epoch s = - 1" "evictable_cache_epoch s = - 1" "device_freeable_cache_epoch s = - 1"
    using assms by (auto simp: RadixPrefixIndex_def split: if_splits option.splits)
  have none: "get_block s b = None" for b by (simp add: get_block_def s(1))
  have "index_parent s = Map.empty" by (simp add: fun_eq_iff index_parent_def none)
  moreover have "radix_ok RadixTreeBackend" using radix_rep_init by (auto simp: radix_ok_def)
  ultimately have "shape_ok s"
    unfolding shape_ok_def using routing.emp_ok by (simp add: s none block_parent_init)
  then show ?thesis
    using bs by (simp add: index_inv_def free_ok_def resid_ok_def cache_ok_def bound_ok_def snapshot_ok_def s none less_imp_le)
qed

lemma index_reachable_inv: "index_reachable s \<Longrightarrow> index_inv s"
  by (induction rule: index_reachable.induct) (auto intro: empty_index_inv index_step_inv)

end
