(* ===== verification/Prefix_Examples.thy ===== *)
theory Prefix_Examples
  imports Prefix_Machine
begin

text \<open>
  A small index on which the properties of the prefix cache are evaluated: blocks of one token, ids
  that are one-byte checksums, and the chain of the prompt 5, 6, 7.
\<close>

definition checksum :: "bytes \<Rightarrow> bytes" where
  "checksum x = [sum_list x]"

definition chain_heap :: "nat \<Rightarrow> (bytes, unit) cache_block" where
  "chain_heap a =
     \<lparr>stable_block_id = (if a = 0 then [5] else if a = 1 then [12] else [20]),
      parent_block_id = (if a = 0 then None else if a = 1 then Some [5] else Some [12]),
      block_tokens = 1, logical_block_idx = int a, payload = (), token_ids = [], ref_count = 0,
      last_access = 0, eviction_priority = 0, resid = default_residency, prune_record = None\<rparr>"

definition no_blocks :: "(bytes, unit) prefix_index" where
  "no_blocks = projr (RadixPrefixIndex chain_heap 1 [] (Some 3))"

definition one_block :: "(bytes, unit) prefix_index" where
  "one_block = snd (insert_block 0 no_blocks)"

definition two_blocks :: "(bytes, unit) prefix_index" where
  "two_blocks = snd (insert_block 1 one_block)"

lemma two_blocks_reachable: "index_reachable no_blocks" "index_reachable one_block" "index_reachable two_blocks"
proof -
  have "RadixPrefixIndex chain_heap 1 [] (Some 3) = Inr no_blocks" by (simp add: no_blocks_def RadixPrefixIndex_def)
  then show 0: "index_reachable no_blocks" by (rule index_reachable.init)
  show 1: "index_reachable one_block"
    unfolding one_block_def by (rule index_reachable.step [OF 0 index_step.insert])
  show "index_reachable two_blocks"
    unfolding two_blocks_def by (rule index_reachable.step [OF 1 index_step.insert])
qed

lemmas two_blocks_inv = two_blocks_reachable [THEN index_reachable_inv]

lemma two_blocks_state:
  "blocks two_blocks = [([5], 0), ([12], 1)]" "block_size two_blocks = 1" "fingerprint two_blocks = []"
  "parent_block_id (objs two_blocks 0) = None" "parent_block_id (objs two_blocks (Suc 0)) = Some [5]"
  "locally_free (objs two_blocks 0)" "locally_free (objs two_blocks (Suc 0))"
  "device_present (resid (objs two_blocks 0))" "host_present (resid (objs two_blocks 0)) = False"
  "block_tokens (objs two_blocks 0) = 1" "block_tokens (objs two_blocks (Suc 0)) = 1" "max_blocks two_blocks = Some 3"
  by code_simp+

lemma one_block_blocks: "blocks one_block = [([5], 0)]"
  by code_simp

text \<open>Both blocks copied to the host.\<close>

definition backed_up :: "(bytes, unit) prefix_index" where
  "backed_up = snd (finish_d2h 1 (snd (begin_d2h 1 (snd (finish_d2h 0 (snd (begin_d2h 0 two_blocks)))))))"

lemma backed_up_reachable: "index_reachable backed_up"
  unfolding backed_up_def by (intro index_reachable.step [OF _ index_step.backed_up] index_reachable.step [OF _ index_step.backup] two_blocks_reachable)

end
