(* ===== verification/Prefix_Routing.thy ===== *)
theory Prefix_Routing
  imports Prefix_Examples
begin

text \<open>
  Block ids and routing snapshots: the ids that \<open>block_ids_for_tokens\<close> derives from one packed buffer
  are those of the block-by-block definition, and a routing snapshot of an index matches as many
  blocks as the index itself.
\<close>

section \<open>Packed tokens\<close>

lemma length_pack_q: "length (pack_q x) = 8"
  by (simp add: pack_q_def)

lemma pack_split:
  "drop (n * 8) (concat (map pack_q ts)) = concat (map pack_q (drop n ts))"
  "take (n * 8) (concat (map pack_q ts)) = concat (map pack_q (take n ts))"
proof (induction ts arbitrary: n)
  case (Cons x ts)
  case 1
  show ?case by (cases n) (simp_all add: length_pack_q Cons(1))
next
  case (Cons x ts)
  case 2
  show ?case by (cases n) (simp_all add: length_pack_q Cons(2))
qed simp_all

lemma length_pack: "length (concat (map pack_q ts)) = length ts * 8"
  by (induction ts) (simp_all add: length_pack_q)

definition in_range :: "int list \<Rightarrow> bool" where
  "in_range ts \<longleftrightarrow> (\<forall>x\<in>set ts. - (2 ^ 63) \<le> x \<and> x < 2 ^ 63)"

lemma pack_token_ids_eq: "pack_token_ids ts = (if in_range ts then Inr (concat (map pack_q ts)) else Inl StructError)"
  by (simp add: pack_token_ids_def in_range_def)

lemma in_range_part: "in_range ts \<Longrightarrow> in_range (take n (drop m ts))" "in_range ts \<Longrightarrow> in_range (take n ts)"
  by (auto simp: in_range_def dest: in_set_takeD in_set_dropD)

section \<open>The block ids of a token list\<close>

text \<open>The definition block by block: each id is computed from the tokens of the block and the previous id.\<close>

fun chained_ids :: "(bytes \<Rightarrow> bytes) \<Rightarrow> bytes \<Rightarrow> nat \<Rightarrow> int list \<Rightarrow> nat list \<Rightarrow> bytes option \<Rightarrow> bytes list result" where
  "chained_ids sha fp bs ts [] parent = Inr []"
| "chained_ids sha fp bs ts (start # starts) parent =
     bindR (stable_prefix_block_id sha fp (take bs (drop start ts)) parent) (\<lambda>b.
       bindR (chained_ids sha fp bs ts starts (Some b)) (\<lambda>ids. Inr (b # ids)))"

lemma chained_ids_eq:
  "chained_ids sha fp bs ts starts parent =
    (if \<forall>i\<in>set starts. in_range (take bs (drop i ts))
     then Inr (hash_blocks sha fp (bs * 8) (concat (map pack_q ts)) (map (\<lambda>i. i * 8) starts) parent)
     else Inl StructError)"
  by (induction starts arbitrary: parent)
    (auto simp: stable_prefix_block_id_def pack_token_ids_eq pack_split Let_def)

lemma range_step_exact: "0 < m \<Longrightarrow> range_step (k * m) m = map (\<lambda>i. i * m) [0..<k]"
proof -
  assume m: "0 < m"
  have "(k * m + m - 1) div m = k" by (rule div_nat_eqI) (use m in \<open>simp_all add: algebra_simps\<close>)
  then show "range_step (k * m) m = map (\<lambda>i. i * m) [0..<k]" by (simp add: range_step_def)
qed

lemma chunk_of_take: "i < k \<Longrightarrow> take bs (drop (i * bs) (take (k * bs) ts)) = take bs (drop (i * bs) ts)"
proof -
  assume "i < k"
  then have "i * bs + bs \<le> k * bs" by (metis Suc_leI add.commute mult_Suc mult_le_mono1)
  then show "take bs (drop (i * bs) (take (k * bs) ts)) = take bs (drop (i * bs) ts)" by (simp add: drop_take min_def)
qed

lemma chained_ids_cong:
  "(\<And>i. i \<in> set starts \<Longrightarrow> take bs (drop i ts) = take bs (drop i us)) \<Longrightarrow>
    chained_ids sha fp bs ts starts parent = chained_ids sha fp bs us starts parent"
  by (induction starts arbitrary: parent) simp_all

lemma in_range_chunks:
  assumes "0 < bs" and "k * bs \<le> length ts"
  shows "in_range (take (k * bs) ts) \<longleftrightarrow> (\<forall>i<k. in_range (take bs (drop (i * bs) ts)))"
  using assms(2)
proof (induction k)
  case (Suc k)
  have "take (Suc k * bs) ts = take (k * bs) ts @ take bs (drop (k * bs) ts)" 
    using take_add [of "k * bs" bs ts] by (simp add: add.commute)
  then have "in_range (take (Suc k * bs) ts) \<longleftrightarrow> in_range (take (k * bs) ts) \<and> in_range (take bs (drop (k * bs) ts))"
    by (auto simp: in_range_def)
  then show ?case using Suc by (auto simp: less_Suc_eq)
qed (simp add: in_range_def)

definition id_count :: "nat \<Rightarrow> int list \<Rightarrow> int option \<Rightarrow> nat" where
  "id_count bs ts max_tokens =
     nat ((case max_tokens of None \<Rightarrow> int (length ts) | Some m \<Rightarrow> min m (int (length ts))) div int bs)"

lemma token_block_ids_chained:
  assumes bs: "0 < bs"
  shows "token_block_ids sha fp (int bs) ts max_tokens =
    chained_ids sha fp bs ts (map (\<lambda>i. i * bs) [0..<id_count bs ts max_tokens]) None"
proof -
  let ?l = "case max_tokens of None \<Rightarrow> int (length ts) | Some m \<Rightarrow> min m (int (length ts))" and ?k = "id_count bs ts max_tokens"
  have le: "?l \<le> int (length ts)" by (simp split: option.split)
  show ?thesis
  proof (cases "?l div int bs \<le> 0")
    case True
    then have "?l div int bs * int bs \<le> 0" using bs by (simp add: mult_nonpos_nonneg)
    then show ?thesis using True by (simp add: token_block_ids_def id_count_def Let_def)
  next
    case False
    then have k: "?l div int bs * int bs = int (?k * bs)" "0 < ?k" by (simp_all add: id_count_def)
    then have pos: "\<not> int ?k * int bs \<le> 0" using bs by (simp add: mult_le_0_iff)
    have "int (?k * bs) \<le> ?l" unfolding k(1) [symmetric] using bs by (simp add: minus_mod_eq_div_mult [symmetric])
    then have len: "?k * bs \<le> length ts" using le by linarith
    let ?us = "take (?k * bs) ts"
    have starts: "range_step (length (concat (map pack_q ?us))) (bs * 8) = map (\<lambda>i. i * 8) (map (\<lambda>i. i * bs) [0..<?k])"
      using range_step_exact [of "bs * 8" ?k] bs len unfolding length_pack by (simp add: min_absorb2 comp_def mult.assoc)
    have chunks: "in_range ?us \<longleftrightarrow> (\<forall>i\<in>set (map (\<lambda>i. i * bs) [0..<?k]). in_range (take bs (drop i ?us)))"
      using in_range_chunks [OF bs len] chunk_of_take [of _ ?k bs ts] by auto
    have "token_block_ids sha fp (int bs) ts max_tokens = chained_ids sha fp bs ?us (map (\<lambda>i. i * bs) [0..<?k]) None"
      unfolding chained_ids_eq chunks [symmetric] token_block_ids_def Let_def k(1)
      using pos k(2) bs starts by (simp add: pack_token_ids_eq nat_mult_distrib)
    also have "\<dots> = chained_ids sha fp bs ts (map (\<lambda>i. i * bs) [0..<?k]) None"
      by (rule chained_ids_cong) (auto simp: chunk_of_take)
    finally show ?thesis .
  qed
qed

section \<open>Matching against a snapshot\<close>

lemma match_loop_eq:
  assumes "chained_ids sha (rs_fingerprint rs) bs ts starts parent = Inr ids"
  shows "match_loop sha rs bs ts starts hit parent =
    (let found = takeWhile (snapshot_contains rs) ids
     in Inr (hit + length found, if found = [] then parent else Some (last found)))"
  using assms
proof (induction starts arbitrary: hit parent ids)
  case (Cons i starts)
  obtain b bs' where b: "stable_prefix_block_id sha (rs_fingerprint rs) (take bs (drop i ts)) parent = Inr b"
      "chained_ids sha (rs_fingerprint rs) bs ts starts (Some b) = Inr bs'" "ids = b # bs'"
    using Cons.prems by (auto split: sum.splits simp: bindR_def)
  show ?case using Cons.IH [OF b(2)] b by (simp add: Let_def)
qed simp

text \<open>Indexed ids that are linked to their predecessor match as a chain.\<close>

definition linked_to :: "('b \<rightharpoonup> 'b option) \<Rightarrow> 'b option \<Rightarrow> 'b list \<Rightarrow> bool" where
  "linked_to par lst ids \<longleftrightarrow>
     (\<forall>i<length ids. ids ! i \<in> dom par \<longrightarrow> par (ids ! i) = Some (if i = 0 then lst else Some (ids ! (i - 1))))"

lemma linked_to_Cons: "linked_to par lst (b # ids) \<longleftrightarrow> (b \<in> dom par \<longrightarrow> par b = Some lst) \<and> linked_to par (Some b) ids"
proof -
  have "(\<forall>i<Suc (length ids). P i) \<longleftrightarrow> P 0 \<and> (\<forall>i<length ids. P (Suc i))" for P by (auto simp: less_Suc_eq_0_disj)
  moreover have "(if Suc i = 0 then lst else Some ((b # ids) ! (Suc i - 1))) = (if i = 0 then Some b else Some (ids ! (i - 1)))" for i
    by (cases i) simp_all
  ultimately show ?thesis by (simp add: linked_to_def)
qed

lemma match_chain_linked: "linked_to par lst ids \<Longrightarrow> match_chain par lst ids = length (takeWhile (\<lambda>b. b \<in> dom par) ids)"
  by (induction ids arbitrary: lst) (auto simp: linked_to_Cons)

lemma usable_blocks:
  assumes "0 < bs" and "usable_prefix_cache_tokens (int (length ts)) (int bs) = Inr u"
  shows "range_step (nat u) bs = map (\<lambda>i. i * bs) [0..<id_count bs ts (Some u)]"
proof -
  let ?k = "(length ts - 1) div bs"
  have u: "u = int (?k * bs)"
  proof (cases "length ts \<le> 1")
    case False
    then have "int (length ts) - 1 = int (length ts - 1)" by simp
    then show ?thesis using assms False by (simp add: usable_prefix_cache_tokens_def zdiv_int split: if_splits)
  qed (use assms in \<open>auto simp: usable_prefix_cache_tokens_def\<close>)
  have "?k * bs \<le> length ts" by (rule le_trans [OF div_times_less_eq_dividend]) simp
  then have "min u (int (length ts)) = int (?k * bs)" unfolding u by (simp only: of_nat_le_iff min_absorb1)
  then have "id_count bs ts (Some u) = ?k" using assms(1) by (simp add: id_count_def)
  then show ?thesis using range_step_exact [OF assms(1)] by (simp only: u nat_int)
qed

lemma routing_contains:
  assumes "index_inv s"
  shows "contains (routing_membership_ids s) b \<longleftrightarrow> has_block s b" "live_blocks (routing_membership_ids s) = num_blocks s"
proof -
  note sh = shape_okD [OF index_invD(1) [OF assms]]
  have "has_block s b \<longleftrightarrow> b \<in> fst ` set (blocks s)"
    by (simp add: has_block_def get_block_def map_of_eq_None_iff)
  then show "contains (routing_membership_ids s) b \<longleftrightarrow> has_block s b"
    using sh(5) unfolding sh(6) [symmetric] by (simp add: contains_def contains_node_correct membership_inv_def)
  show "live_blocks (routing_membership_ids s) = num_blocks s"
    using sh(5,6) distinct_card [OF sh(3)] by (simp add: membership_inv_def)
qed

lemma match_longest_ok:
  assumes "index_inv s"
  shows "match_longest_block_ids s ids = (let h = match_chain (index_parent s) None ids
    in Inr (int h * block_size s, if h = 0 then None else Some (ids ! (h - 1)), int h))"
  using lookup_ok [OF shape_okD(1) [OF index_invD(1) [OF assms]]] shape_okD(2) [OF index_invD(1) [OF assms]]
  by (simp add: match_longest_block_ids_def lookup_result_def Let_def)

lemma match_longest_prefix_ok:
  assumes "index_inv s" and "token_block_ids sha (fingerprint s) (block_size s) ts (Some u) = Inr ids"
  shows "fst (match_longest_prefix sha ts u s) = match_longest_block_ids s ids"
proof -
  have "match_longest_block_ids (s\<lparr>block_id_generation_requests := n\<rparr>) ids = match_longest_block_ids s ids" for n
    unfolding match_longest_block_ids_def by (simp cong: if_cong)
  then show ?thesis
    using assms(2) by (simp add: match_longest_prefix_def block_ids_for_tokens_def queryE_def bindE_def)
qed

lemma snapshot_of:
  assumes "index_inv s"
  shows "\<exists>rs t. index_routing_snapshot method s = (Inr rs, t) \<and> same_view t s \<and> index_inv t \<and>
    block_size t = block_size s \<and> fingerprint t = fingerprint s \<and>
    rs = \<lparr>rs_supported = True, rs_enabled = True, rs_method = method, rs_block_size = Some (block_size s),
          rs_fingerprint = fingerprint s, rs_block_ids = {}, rs_membership = Some (routing_membership_ids s)\<rparr>"
proof -
  note routing_contains(2) [OF assms]
  moreover have "index_inv (snd (index_routing_snapshot method s))" by (rule keeps_snd [OF routing_snapshot_keeps assms])
  ultimately show ?thesis
    using index_invD(6) [OF assms] unfolding snapshot_ok_def
    by (auto simp: index_routing_snapshot_def Let_def same_view_def split: option.splits)
qed

text \<open>
  C27.  The router's answer is the engine's: on a reachable index whose blocks hang below the ids
  their tokens derive, matching a prompt against a routing snapshot gives the tokens, the blocks and
  the last block id that \<open>match_longest_prefix\<close> finds in the radix tree.
\<close>

theorem snapshot_match_agrees:
  assumes reach: "index_reachable s"
    and usable: "usable_prefix_cache_tokens (int (length ts)) (block_size s) = Inr u"
    and ids: "token_block_ids sha (fingerprint s) (block_size s) ts (Some u) = Inr ids"
    and addressed: "\<forall>i<length ids. \<forall>a. get_block s (ids ! i) = Some a \<longrightarrow>
      parent_block_id (objs s a) = (if i = 0 then None else Some (ids ! (i - 1)))"
  shows "\<exists>rs t m. index_routing_snapshot method s = (Inr rs, t) \<and> snapshot_match sha rs ts = Inr m \<and>
    fst (match_longest_prefix sha ts u t) = Inr (rm_matched_tokens m, rm_last_block_id m, rm_matched_blocks m) \<and>
    rm_live_blocks m = Some (num_blocks s)"
proof -
  note inv = index_reachable_inv [OF reach]
  obtain rs t where snap: "index_routing_snapshot method s = (Inr rs, t)" and t: "same_view t s" "index_inv t"
      "block_size t = block_size s" "fingerprint t = fingerprint s"
    and rs: "rs = \<lparr>rs_supported = True, rs_enabled = True, rs_method = method, rs_block_size = Some (block_size s),
      rs_fingerprint = fingerprint s, rs_block_ids = {}, rs_membership = Some (routing_membership_ids s)\<rparr>"
    using snapshot_of [OF inv] by blast
  note sh = shape_okD [OF index_invD(1) [OF inv]]
  have pos: "0 < block_size s" using index_invD(5) [OF inv] by (simp add: bound_ok_def)
  define bs where "bs = nat (block_size s)"
  have bs: "0 < bs" "block_size s = int bs" using pos by (simp_all add: bs_def)
  have chain: "chained_ids sha (fingerprint s) bs ts (range_step (nat u) bs) None = Inr ids"
    using ids usable token_block_ids_chained [OF bs(1), of sha "fingerprint s" ts "Some u"] usable_blocks [OF bs(1), of ts u]
    by (simp add: bs(2))
  have "snapshot_contains rs = (\<lambda>b. b \<in> dom (index_parent s))"
    using routing_contains(1) [OF inv] by (simp add: fun_eq_iff snapshot_contains_def rs has_block_def index_parent_dom domIff)
  moreover define found where "found = takeWhile (\<lambda>b. b \<in> dom (index_parent s)) ids"
  ultimately have loop: "match_loop sha rs bs ts (range_step (nat u) bs) 0 None =
      Inr (length found, if found = [] then None else Some (last found))"
    using match_loop_eq [of sha rs bs ts "range_step (nat u) bs" None ids 0] chain by (simp add: rs Let_def)
  have "linked_to (index_parent s) None ids"
    unfolding linked_to_def
  proof (intro allI impI)
    fix i assume i: "i < length ids" "ids ! i \<in> dom (index_parent s)"
    then obtain a where a: "get_block s (ids ! i) = Some a" unfolding index_parent_dom by blast
    show "index_parent s (ids ! i) = Some (if i = 0 then None else Some (ids ! (i - 1)))"
      unfolding index_parent_at [OF a] using addressed [rule_format, OF i(1) a] by simp
  qed
  then have count: "match_chain (index_parent s) None ids = length found"
    by (simp add: match_chain_linked found_def)
  have "last found = ids ! (length found - 1)" if "found \<noteq> []"
    using that takeWhile_nth [of "length found - 1" _ ids] by (simp add: found_def last_conv_nth)
  moreover have "fst (match_longest_prefix sha ts u t) = match_longest_block_ids t ids"
    using match_longest_prefix_ok t(2-4) ids by metis
  ultimately have "fst (match_longest_prefix sha ts u t) =
      Inr (int (length found) * int bs, if found = [] then None else Some (last found), int (length found))"
    using count same_view_simps(2) [OF t(1)] by (simp add: match_longest_ok [OF t(2)] Let_def t(3) bs(2))
  then show ?thesis
    using snap loop usable bs routing_contains(2) [OF inv] by (simp add: snapshot_match_def rs)
qed

theorem snapshot_match_agrees_witness:
  "\<exists>rs t m. index_routing_snapshot ''quest'' two_blocks = (Inr rs, t) \<and> snapshot_match checksum rs [5, 6, 8, 9] = Inr m \<and>
    fst (match_longest_prefix checksum [5, 6, 8, 9] 3 t) = Inr (rm_matched_tokens m, rm_last_block_id m, rm_matched_blocks m)"
proof -
  have u: "usable_prefix_cache_tokens (int (length [5, 6, 8, 9 :: int])) (block_size two_blocks) = Inr 3" by code_simp
  have ids: "token_block_ids checksum (fingerprint two_blocks) (block_size two_blocks) [5, 6, 8, 9] (Some 3) = Inr [[5], [12], [21]]"
    by code_simp
  have "\<forall>i<length [[5], [12], [21 :: 8 word]]. \<forall>a. get_block two_blocks ([[5], [12], [21]] ! i) = Some a \<longrightarrow>
      parent_block_id (objs two_blocks a) = (if i = 0 then None else Some ([[5], [12], [21]] ! (i - 1)))"
    by (auto simp: get_block_def two_blocks_state less_Suc_eq)
  from snapshot_match_agrees [OF two_blocks_reachable(3) u ids this] show ?thesis by blast
qed

end
