(* ===== verification/Prefix_Properties.thy ===== *)
theory Prefix_Properties
  imports Prefix_Routing
begin

text \<open>
  What the prefix index guarantees in every reachable state, stated over the operations the engine
  calls: consistency of its structures, exactness of the capacity views, the order and the yield of
  eviction and demotion, deletion of subtrees, and backups.
\<close>

section \<open>Reading the views\<close>

lemma index_free_eq:
  assumes "index_inv s"
  shows "index_free s = {b. has_block s b \<and>
    (\<forall>c a. (b, c) \<in> descends (block_parent (backend s)) \<longrightarrow> get_block s c = Some a \<longrightarrow> locally_free (objs s a))}"
proof -
  note sh = shape_okD [OF index_invD(1) [OF assms]]
  have "get_block s c \<noteq> None" if "get_block s b \<noteq> None" "(b, c) \<in> descends (index_parent s)" for b c
    using descends_dom [OF sh(7) _ that(2)] that(1) unfolding index_parent_dom by auto
  then have "b \<in> index_free s \<longleftrightarrow> has_block s b \<and>
      (\<forall>c a. (b, c) \<in> descends (index_parent s) \<longrightarrow> get_block s c = Some a \<longrightarrow> locally_free (objs s a))" for b
    unfolding index_free_def free_set_def index_parent_dom has_block_def by (auto simp: obj_at_def) fastforce
  then show ?thesis unfolding sh(2) by blast
qed

lemma index_evictable_eq: "index_evictable s = {b. \<exists>a. get_block s b = Some a \<and> locally_free (objs s a) \<and>
    (\<forall>c. index_parent s c \<noteq> Some (Some b))}"
  by (auto simp: index_evictable_def obj_at_def index_parent_def)

lemma evictable_by_free: "evictable_by locally_free s = index_evictable s"
  by (auto simp: evictable_by_def index_evictable_eq)

text \<open>As long as a block is freeable, one can be evicted.\<close>

lemma free_evictable:
  assumes "index_inv s" and "evictable_by locally_free s = {}"
  shows "index_free s = {}"
proof (rule ccontr)
  assume "index_free s \<noteq> {}"
  then obtain b where b: "b \<in> dom (index_parent s)" "good_at s b" "kids_of (index_parent s) b = {}"
    using free_set_leaf [OF shape_okD(7) [OF index_invD(1) [OF assms(1)]], of "good_at s"] unfolding index_free_def by blast
  then obtain a where "get_block s b = Some a" by (auto simp: index_parent_def)
  then have "b \<in> evictable_by locally_free s" using b(2,3) by (simp add: evictable_by_def obj_at_def)
  then show False using assms(2) by simp
qed

lemma index_free_finite: "index_inv s \<Longrightarrow> finite (index_free s)"
  by (rule finite_subset [OF _ forest_finite [OF shape_okD(7) [OF index_invD(1)]]]) (auto simp: index_free_def free_set_def)

lemma weight_one: "weight_of (\<lambda>_. 1) s as = int (length as)"
  by (induction as) simp_all

lemma evict_count:
  assumes inv: "index_inv s"
  shows "\<exists>as t. evict_until_freeable n s = (Inr as, t) \<and> index_inv t \<and> objs t = objs s \<and>
    int (length as) = min (max n 0) (int (card (index_free s))) \<and> distinct (ids_of s as) \<and> set (ids_of s as) \<subseteq> index_free s \<and>
    (\<forall>b. get_block t b = (if b \<in> set (ids_of s as) then None else get_block s b))"
proof -
  obtain as t where run: "evict_until_freeable n s = (Inr as, t)"
      "evicts locally_free (\<lambda>s. s\<lparr>evicted_blocks := evicted_blocks s + 1\<rparr>) s as t"
      "evicted_enough locally_free (\<lambda>_. 1) n s as t"
    using full.evict_batch_ok [OF inv, of "\<lambda>_. 1" n] by (auto simp: evict_until_freeable_def evict_until_weight_def)
  note p = full.evicts_props [OF run(2) inv]
  have len: "length as = card (set (ids_of s as))" using p distinct_card by fastforce
  have le: "length as \<le> card (index_free s)" unfolding len using p card_mono [OF index_free_finite [OF inv]] by blast
  have upper: "int (length as) \<le> max n 0"
    using run(3) unfolding evicted_enough_def weight_one by (cases as) (auto dest: spec [of _ "length as - 1"])
  have "n \<le> int (length as) \<or> length as = card (index_free s)"
  proof (cases "evictable_by locally_free t = {}")
    case True
    then have "index_free s - set (ids_of s as) = {}" using free_evictable p by metis
    then have "index_free s = set (ids_of s as)" using p by blast
    then show ?thesis using len by simp
  next
    case False
    then show ?thesis using run(3) by (simp add: evicted_enough_def weight_one)
  qed
  then have "int (length as) = min (max n 0) (int (card (index_free s)))" using le upper by linarith
  then show ?thesis using run(1) p by blast
qed

lemma demote_count:
  assumes inv: "index_inv s"
  shows "\<exists>as t. demote_device_until_freeable n s = (Inr as, t) \<and> demotes s as t \<and>
    int (length as) = min (max n 0) (int (card (device_free False s)))"
proof -
  obtain as t where run: "demote_device_until_freeable n s = (Inr as, t)" "demotes s as t" "demoted_enough (\<lambda>_. 1) n s as t"
    using demote_device_ok [OF inv, of "\<lambda>_. 1" n] by (auto simp: demote_device_until_freeable_def)
  note p = demotes_props [OF run(2) inv]
  have len: "length as = card (set (ids_of s as))" using p distinct_card by fastforce
  have le: "length as \<le> card (device_free False s)" unfolding len using p card_mono [OF device_free_finite [OF inv]] by blast
  have upper: "int (length as) \<le> max n 0"
    using run(3) unfolding demoted_enough_def weight_one by (cases as) (auto dest: spec [of _ "length as - 1"])
  have "n \<le> int (length as) \<or> length as = card (device_free False s)"
  proof (cases "demotable_ids t = {}")
    case True
    have f: "forest_ok (device_parent t)" using device_forest index_invD(1,3) p by blast
    have "device_free False t = {}" using free_set_leaf [OF f] True by (fastforce simp: device_free_def demotable_ids_def)
    then have "device_free False s = set (ids_of s as)" using p by blast
    then show ?thesis using len by simp
  next
    case False
    then show ?thesis using run(3) by (simp add: demoted_enough_def weight_one)
  qed
  then have "int (length as) = min (max n 0) (int (card (device_free False s)))" using le upper by linarith
  then show ?thesis using run(1,2) by blast
qed

section \<open>Consistency\<close>

text \<open>
  C18.  In every reachable state the structures of the index agree: the radix tree holds exactly the
  blocks of the dict, under the parents their objects name; the routing membership holds the same
  ids; the block limit is respected; every block is filed under its own id, has a valid residency,
  and its parent is indexed and resident wherever the block is.
\<close>

theorem prefix_index_consistent:
  assumes "index_reachable s"
  shows "block_parent (backend s) = (\<lambda>b. map_option (\<lambda>a. parent_block_id (objs s a)) (get_block s b)) \<and>
    (\<forall>b. contains (routing_membership_ids s) b \<longleftrightarrow> has_block s b) \<and>
    live_blocks (routing_membership_ids s) = num_blocks s \<and>
    (\<forall>m. max_blocks s = Some m \<longrightarrow> num_blocks s \<le> m) \<and>
    (\<forall>b a. get_block s b = Some a \<longrightarrow> stable_block_id (objs s a) = b \<and> validate (resid (objs s a)) = Inr () \<and>
      (\<forall>p. parent_block_id (objs s a) = Some p \<longrightarrow> (\<exists>q. get_block s p = Some q \<and>
        (device_present (resid (objs s a)) \<longrightarrow> device_present (resid (objs s q))) \<and>
        (host_present (resid (objs s a)) \<longrightarrow> host_present (resid (objs s q))))))"
proof -
  note inv = index_reachable_inv [OF assms]
  note sh = shape_okD [OF index_invD(1) [OF inv]]
  have "\<exists>q. get_block s p = Some q" if b: "get_block s b = Some a" and p: "parent_block_id (objs s a) = Some p" for b a p
    using forest_up [OF sh(7), of b p] index_parent_at [OF b] p unfolding index_parent_dom by auto
  then have "\<exists>q. get_block s p = Some q \<and> (device_present (resid (objs s a)) \<longrightarrow> device_present (resid (objs s q))) \<and>
      (host_present (resid (objs s a)) \<longrightarrow> host_present (resid (objs s q)))"
    if b: "get_block s b = Some a" and p: "parent_block_id (objs s a) = Some p" for b a p
    using resid_okD(2,3) [OF inv b p] b p unfolding is_device_def by blast
  moreover have "block_parent (backend s) = (\<lambda>b. map_option (\<lambda>a. parent_block_id (objs s a)) (get_block s b))"
    unfolding sh(2) by (simp add: index_parent_def [abs_def])
  moreover have "\<forall>m. max_blocks s = Some m \<longrightarrow> num_blocks s \<le> m" using index_invD(5) [OF inv] by (simp add: bound_ok_def)
  ultimately show ?thesis using routing_contains [OF inv] sh(4) resid_okD(1) [OF inv] by blast
qed

theorem prefix_index_consistent_witness:
  "contains (routing_membership_ids two_blocks) [12] \<and> block_parent (backend two_blocks) [12] = Some (Some [5]) \<and>
   live_blocks (routing_membership_ids two_blocks) = 2"
  using prefix_index_consistent [OF two_blocks_reachable(3)]
  by (simp add: two_blocks_state get_block_def has_block_def)

section \<open>Capacity views\<close>

text \<open>
  C19.  The incrementally maintained and cached capacity views are exact: in every reachable state
  \<open>freeable_block_ids\<close> returns the blocks all of whose descendants (themselves included) are
  unreferenced, unpinned and not in transfer, and \<open>evictable_block_ids\<close> the leaves among them.
\<close>

theorem capacity_views_exact:
  assumes "index_reachable s"
  shows "fst (freeable_block_ids s) = Inr {b. has_block s b \<and>
      (\<forall>c a. (b, c) \<in> descends (block_parent (backend s)) \<longrightarrow> get_block s c = Some a \<longrightarrow> locally_free (objs s a))} \<and>
    fst (evictable_block_ids s) = Inr {b. \<exists>a. get_block s b = Some a \<and> locally_free (objs s a) \<and>
      (\<forall>c. block_parent (backend s) c \<noteq> Some (Some b))}"
proof -
  note inv = index_reachable_inv [OF assms]
  obtain t u where "freeable_block_ids s = (Inr (index_free s), t)" "evictable_block_ids s = (Inr (index_evictable s), u)"
    using freeable_block_ids_ok [OF inv] evictable_block_ids_ok [OF inv] by blast
  then show ?thesis
    using index_free_eq [OF inv] index_evictable_eq [of s] shape_okD(2) [OF index_invD(1) [OF inv]] by simp
qed

theorem capacity_views_exact_witness:
  "\<exists>F. fst (freeable_block_ids two_blocks) = Inr F \<and> [12] \<in> F"
proof -
  have leaf: "block_parent (backend two_blocks) b = Some (Some [12]) \<Longrightarrow> False" for b
    using two_blocks_inv(3) [THEN index_invD(1), THEN shape_okD(2)]
    by (auto simp: index_parent_def get_block_def two_blocks_state split: if_splits)
  have "c = [12]" if "([12], c) \<in> descends (block_parent (backend two_blocks))" for c
    using that unfolding descends_def by (cases rule: converse_rtranclE) (auto dest: leaf)
  then show ?thesis
    using capacity_views_exact [OF two_blocks_reachable(3)]
    by (auto simp: two_blocks_state get_block_def has_block_def)
qed

section \<open>Eviction and demotion\<close>

text \<open>
  C20.  The heap-driven eviction loop refines greedy eviction: in a reachable state, for any
  non-negative weight, it removes blocks one at a time, each of them least in (priority, last access,
  id) among all evictable leaves of the state reached, and it stops as soon as the weight is reached,
  or when nothing is evictable.
\<close>

theorem evict_until_weight_refines:
  assumes "index_reachable s" and "\<forall>b a. get_block s b = Some a \<longrightarrow> 0 \<le> weight (objs s a)"
  shows "\<exists>as t. evict_until_weight needed weight s = (Inr as, t) \<and>
    evicts locally_free (\<lambda>s. s\<lparr>evicted_blocks := evicted_blocks s + 1\<rparr>) s as t \<and>
    evicted_enough locally_free weight needed s as t"
  unfolding evict_until_weight_def by (rule full.evict_batch_ok [OF index_reachable_inv [OF assms(1)]]) (use assms(2) in blast)

theorem evict_until_weight_refines_witness:
  "\<exists>as t. evict_until_weight 1 block_tokens two_blocks = (Inr as, t) \<and>
    evicted_enough locally_free block_tokens 1 two_blocks as t"
proof -
  have "\<forall>b a. get_block two_blocks b = Some a \<longrightarrow> 0 \<le> block_tokens (objs two_blocks a)"
    by (auto simp: get_block_def two_blocks_state split: if_splits)
  from evict_until_weight_refines [OF two_blocks_reachable(3) this] show ?thesis by blast
qed

text \<open>
  C21.  Eviction delivers what the freeable view promises: asked for \<open>n\<close> blocks, it removes exactly
  \<open>n\<close>, or all freeable blocks when there are fewer, and nothing but freeable blocks.
\<close>

theorem evict_until_freeable_delivers:
  assumes "index_reachable s" and "fst (freeable_block_ids s) = Inr F"
  shows "\<exists>as t. evict_until_freeable n s = (Inr as, t) \<and> int (length as) = min (max n 0) (int (card F)) \<and>
    distinct (ids_of s as) \<and> set (ids_of s as) \<subseteq> F \<and>
    (\<forall>b. get_block t b = (if b \<in> set (ids_of s as) then None else get_block s b))"
proof -
  note inv = index_reachable_inv [OF assms(1)]
  have "F = index_free s" using freeable_block_ids_ok [OF inv] assms(2) by auto
  then show ?thesis using evict_count [OF inv, of n] by blast
qed

lemma two_blocks_freeable: "fst (freeable_block_ids two_blocks) = Inr {[5], [12]}"
  by code_simp

theorem evict_until_freeable_delivers_witness:
  "\<exists>as t. evict_until_freeable 3 two_blocks = (Inr as, t) \<and> length as = 2"
  using evict_until_freeable_delivers [OF two_blocks_reachable(3) two_blocks_freeable, of 3] by fastforce

lemma num_blocks_card:
  assumes "index_inv s"
  shows "num_blocks s = int (card (dom (get_block s)))"
  using distinct_card [OF shape_okD(3) [OF index_invD(1) [OF assms]]] by (simp add: dom_get_block)

text \<open>
  C22.  Making room for \<open>n\<close> new blocks succeeds exactly when enough blocks are freeable; then the
  index has room for them, and otherwise a \<open>RuntimeError\<close> is raised.
\<close>

theorem ensure_insert_capacity_exact:
  assumes reach: "index_reachable s" and m: "max_blocks s = Some m" and n: "0 < n"
    and F: "fst (freeable_block_ids s) = Inr F"
  shows "if num_blocks s + n - m \<le> int (card F)
    then \<exists>as t. ensure_insert_capacity n s = (Inr as, t) \<and> num_blocks t + n \<le> m
    else fst (ensure_insert_capacity n s) = Inl RuntimeError"
proof (cases "num_blocks s + n - m \<le> 0")
  case True
  then show ?thesis using m n by (simp add: ensure_insert_capacity_def)
next
  case False
  let ?over = "num_blocks s + n - m"
  note inv = index_reachable_inv [OF reach]
  have F: "F = index_free s" using freeable_block_ids_ok [OF inv] F by auto
  obtain as t where run: "evict_until_freeable ?over s = (Inr as, t)" and t: "index_inv t"
      "int (length as) = min (max ?over 0) (int (card F))" "distinct (ids_of s as)" "set (ids_of s as) \<subseteq> F"
      "\<And>b. get_block t b = (if b \<in> set (ids_of s as) then None else get_block s b)"
    using evict_count [OF inv, of ?over] F by blast
  have dom: "dom (get_block t) = dom (get_block s) - set (ids_of s as)" using t(5) by (auto split: if_splits)
  have sub: "set (ids_of s as) \<subseteq> dom (get_block s)"
    using t(4) by (force simp: F index_free_def free_set_def index_parent_dom)
  have "finite (dom (get_block s))" using forest_finite [OF shape_okD(7) [OF index_invD(1) [OF inv]]] by (simp add: index_parent_dom)
  then have "card (dom (get_block t)) = card (dom (get_block s)) - length as" "length as \<le> card (dom (get_block s))"
    using card_Diff_subset [OF _ sub] card_mono [OF _ sub] distinct_card [OF t(3)] by (simp_all add: dom)
  then have left: "num_blocks t = num_blocks s - int (length as)"
    by (simp add: num_blocks_card [OF inv] num_blocks_card [OF t(1)] del: of_nat_eq_iff)
  have "fst (thenE evictable_blocks (raiseE RuntimeError) t) = Inl RuntimeError"
    using evictable_blocks_ok [OF t(1)] by (auto simp: eff_simps)
  then show ?thesis
    using False m n run left t(2) by (auto simp: ensure_insert_capacity_def Let_def eff_simps)
qed

theorem ensure_insert_capacity_exact_witness:
  "\<exists>as t. ensure_insert_capacity 3 two_blocks = (Inr as, t) \<and> num_blocks t + 3 \<le> 3"
  using ensure_insert_capacity_exact [OF two_blocks_reachable(3) two_blocks_state(12) _ two_blocks_freeable, of 3]
  by (simp add: two_blocks_state)

text \<open>
  C23.  Demotion frees device memory as promised: asked for \<open>n\<close> blocks it takes exactly \<open>n\<close> off the
  device, or all of the view \<open>device_freeable_block_ids\<close>, each of them least in (priority, last access,
  id) among the device leaves that are free and backed by the host; the blocks stay in the index.
\<close>

theorem demote_delivers:
  assumes "index_reachable s" and "fst (device_freeable_block_ids s) = Inr F"
  shows "\<exists>as t. demote_device_until_freeable n s = (Inr as, t) \<and> demotes s as t \<and>
    int (length as) = min (max n 0) (int (card F)) \<and> get_block t = get_block s \<and> set (ids_of s as) \<subseteq> F \<and>
    (\<forall>x. objs t x = (if x \<in> set as then (objs s x)\<lparr>resid := (resid (objs s x))\<lparr>device_present := False\<rparr>\<rparr> else objs s x))"
proof -
  note inv = index_reachable_inv [OF assms(1)]
  have F: "F = device_free False s" using device_freeable_block_ids_ok [OF inv] assms(2) by auto
  obtain as t where run: "demote_device_until_freeable n s = (Inr as, t)" "demotes s as t"
      "int (length as) = min (max n 0) (int (card F))"
    using demote_count [OF inv, of n] F by blast
  show ?thesis using demotes_props [OF run(2) inv] run F by blast
qed

theorem demote_delivers_witness:
  "\<exists>as t. demote_device_until_freeable 1 backed_up = (Inr as, t) \<and> demotes backed_up as t \<and> length as = 1"
proof -
  have "fst (device_freeable_block_ids backed_up) = Inr {[5], [12]}" by code_simp
  from demote_delivers [OF backed_up_reachable this, of 1] show ?thesis by fastforce
qed

section \<open>Subtree deletion, backups and rollback\<close>

text \<open>
  C24.  Deleting the subtree of a cached prompt removes exactly its freeable blocks and reports exactly
  the others as blocked; every other block of the index stays.
\<close>

theorem safe_delete_subtree_exact:
  fixes s :: "(bytes, 'p) prefix_index"
  assumes "index_reachable s" and ref: "\<forall>b a. get_block s b = Some a \<longrightarrow> 0 \<le> ref_count (objs s a)"
    and ids: "token_block_ids sha (fingerprint s) (block_size s) ts None = Inr ids" "ids \<noteq> []"
      "chain (block_parent (backend s)) None ids"
    and F: "fst (freeable_block_ids s) = Inr F"
  shows "\<exists>deleted blocked t. safe_delete_subtree sha ts s = (Inr (deleted, blocked), t) \<and>
    set (ids_of s deleted) = {c. (last ids, c) \<in> descends (block_parent (backend s))} \<inter> F \<and>
    fst ` set blocked = Some ` ({c. (last ids, c) \<in> descends (block_parent (backend s))} - F) \<and>
    (\<forall>b. get_block t b = (if b \<in> set (ids_of s deleted) then None else get_block s b))"
proof -
  note inv = index_reachable_inv [OF assms(1)]
  note par = shape_okD(2) [OF index_invD(1) [OF inv]]
  have "F = index_free s" using freeable_block_ids_ok [OF inv] F by auto
  moreover have ref: "0 \<le> ref_count (objs s a)" if "get_block s b = Some a" for b a using ref that by blast
  have "\<exists>deleted blocked t. safe_delete_subtree sha ts s = (Inr (deleted, blocked), t) \<and> index_inv t \<and>
    distinct (ids_of s deleted) \<and> set (ids_of s deleted) = {c. (last ids, c) \<in> descends (index_parent s)} \<inter> index_free s \<and>
    fst ` set blocked = Some ` ({c. (last ids, c) \<in> descends (index_parent s)} - index_free s) \<and>
    (\<forall>b. get_block t b = (if b \<in> set (ids_of s deleted) then None else get_block s b))"
    by (rule safe_delete_ok [OF inv _ ids(1,2) ids(3) [unfolded par]]) (rule ref)
  ultimately show ?thesis unfolding par by blast
qed

theorem safe_delete_subtree_exact_witness:
  "\<exists>deleted blocked t. safe_delete_subtree checksum [5, 6] two_blocks = (Inr (deleted, blocked), t) \<and>
    get_block t [12] = None \<and> get_block t [5] = Some 0"
proof -
  have ref: "\<forall>b a. get_block two_blocks b = Some a \<longrightarrow> 0 \<le> ref_count (objs two_blocks a)"
    using two_blocks_state(6,7) by (auto simp: get_block_def two_blocks_state locally_free_def split: if_splits)
  have ids: "token_block_ids checksum (fingerprint two_blocks) (block_size two_blocks) [5, 6] None = Inr [[5], [12]]"
    by code_simp
  note par = shape_okD(2) [OF index_invD(1) [OF two_blocks_inv(3)]]
  have chain: "chain (block_parent (backend two_blocks)) None [[5], [12]]"
    unfolding par by (simp add: index_parent_def get_block_def two_blocks_state)
  have edge: "block_parent (backend two_blocks) [12] = Some (Some [5])" and root: "block_parent (backend two_blocks) [5] = Some None"
    unfolding par by (simp_all add: index_parent_def get_block_def two_blocks_state)
  have "([12], [5]) \<notin> descends (block_parent (backend two_blocks))"
    unfolding descends_def by (auto elim: rtranclE simp: root)
  moreover have "([12], [12]) \<in> descends (block_parent (backend two_blocks))" by (simp add: descends_def)
  ultimately show ?thesis
    using safe_delete_subtree_exact [OF two_blocks_reachable(3) ref ids _ chain two_blocks_freeable]
    by (fastforce simp: get_block_def two_blocks_state)
qed

text \<open>
  C25.  Write-through never fails to start: in a reachable state every block that
  \<open>select_write_through_candidates\<close> selects can begin its transfer, in the order selected, and
  afterwards exactly the selected blocks are in transfer to the host.
\<close>

theorem write_through_starts:
  assumes "index_reachable s" and "distinct (map fst pending)"
    and "select_write_through_candidates s pending newly = (selected, pending')"
  shows "\<exists>t. forE selected begin_d2h s = (Inr (), t) \<and> get_block t = get_block s \<and>
    (\<forall>x. objs t x = (if x \<in> set selected
      then (objs s x)\<lparr>resid := (resid (objs s x))\<lparr>transfer := Some D2H\<rparr>\<rparr> else objs s x))"
  using selected_back_up [OF index_reachable_inv [OF assms(1)] assms(2,3)] unfolding backing_up_def by blast

theorem write_through_starts_witness:
  "\<exists>t. forE [0, 1] begin_d2h two_blocks = (Inr (), t) \<and> get_block t = get_block two_blocks"
proof -
  have "select_write_through_candidates two_blocks [] None = ([0, 1], [([5], 0), ([12], 1)])" by code_simp
  from write_through_starts [OF two_blocks_reachable(3) _ this] show ?thesis by auto
qed

lemma inserted_props:
  assumes ins: "insertable s a b R m"
  shows "get_block (inserted a b R m s) = (get_block s)(b \<mapsto> a)"
    and "objs (inserted a b R m s) = (objs s)(a := (objs s a)\<lparr>last_access := clock s + 1\<rparr>)"
    and "committed_blocks (inserted a b R m s) = committed_blocks s + 1"
    and "index_parent (inserted a b R m s) = (index_parent s)(b \<mapsto> parent_block_id (objs s a))"
    and "kids_of (index_parent (inserted a b R m s)) b = {}"
proof -
  note i = insertableD [OF ins]
  have "same_view (inserted a b R m s) (entered a b R m s)"
    by (simp add: same_view_def inserted_def mark_inserted_def mark_capacity_mutated_def mark_mutated_def Let_def)
  then have view: "same_view (inserted a b R m s) (link a b R m s)" using entered_view [of a b R m s] by (simp add: same_view_def)
  note v = same_view_simps [OF view]
  show "get_block (inserted a b R m s) = (get_block s)(b \<mapsto> a)" using link_get [OF i(2)] v(1) by simp
  show "objs (inserted a b R m s) = (objs s)(a := (objs s a)\<lparr>last_access := clock s + 1\<rparr>)"
    using view by (simp add: same_view_def link_def)
  show "committed_blocks (inserted a b R m s) = committed_blocks s + 1"
    by (simp add: inserted_def entered_def mark_inserted_def mark_capacity_mutated_def mark_mutated_def Let_def)
  show par: "index_parent (inserted a b R m s) = (index_parent s)(b \<mapsto> parent_block_id (objs s a))"
    using link_parent(1) [OF i(2)] v(2) by simp
  have "index_parent s c \<noteq> Some (Some b)" for c
    using forest_up [OF shape_okD(7) [OF index_invD(1) [OF i(1)]], of c b] i(8) by blast
  then show "kids_of (index_parent (inserted a b R m s)) b = {}" unfolding par using i(8,9) by auto
qed

lemma index_free_unlinked:
  assumes inv: "index_inv s" "index_inv u" and "get_block u = get_block s" "\<And>x. locally_free (objs u x) = locally_free (objs s x)"
    and "\<And>x. parent_block_id (objs u x) = parent_block_id (objs s x)"
  shows "index_free u = index_free s" "block_parent (backend u) = block_parent (backend s)"
proof -
  have "index_parent u = index_parent s" by (simp add: fun_eq_iff index_parent_def assms(3,5))
  then show "block_parent (backend u) = block_parent (backend s)"
    using shape_okD(2) [OF index_invD(1) [OF inv(1)]] shape_okD(2) [OF index_invD(1) [OF inv(2)]] by simp
  then show "index_free u = index_free s"
    unfolding index_free_eq [OF inv(1)] index_free_eq [OF inv(2)] by (simp add: has_block_def assms(3,4))
qed

text \<open>
  C26.  Rolling back a block that was just inserted undoes the insertion: the same blocks are indexed
  under the same parents, the routing membership and the freeable blocks are those before, and so is
  the number of committed blocks.
\<close>

theorem insert_then_rollback:
  assumes reach: "index_reachable s" and new: "get_block s (stable_block_id (objs s a)) = None"
    and ok: "validate (resid (objs s a)) = Inr ()" "check_parent s (objs s a) = Inr ()" "locally_free (objs s a)"
    and room: "\<forall>k. max_blocks s = Some k \<longrightarrow> num_blocks s < k" and count: "0 \<le> committed_blocks s"
  shows "\<exists>t u. insert_block a s = (Inr a, t) \<and> get_block t (stable_block_id (objs s a)) = Some a \<and>
    rollback_inserted_leaf a t = (Inr (), u) \<and> get_block u = get_block s \<and>
    block_parent (backend u) = block_parent (backend s) \<and> committed_blocks u = committed_blocks s \<and>
    (\<forall>c. contains (routing_membership_ids u) c \<longleftrightarrow> contains (routing_membership_ids s) c) \<and>
    fst (freeable_block_ids u) = fst (freeable_block_ids s)"
proof -
  let ?b = "stable_block_id (objs s a)"
  note inv = index_reachable_inv [OF reach]
  obtain R m where ins: "insertable s a ?b R m" "insert_block a s = (Inr a, inserted a ?b R m s)"
    using insert_block_fresh [OF inv refl new ok(1,2)] room by blast
  let ?t = "inserted a ?b R m s"
  have t: "index_inv ?t" by (rule inserted_inv [OF ins(1)]) (use room in blast)
  note p = inserted_props [OF ins(1)]
  have b: "get_block ?t ?b = Some a" "locally_free (objs ?t a)" using ok(3) by (simp_all add: p(1,2) locally_free_def)
  obtain R' m' where rem: "removable ?t a ?b R' m'" "remove_block_from_index ?b ?t = (Inr a, mark_removed ?b (unlink ?b R' m' ?t))"
    using remove_from_index_ok [OF t b p(5)] by blast
  define v where "v = mark_removed ?b (unlink ?b R' m' ?t)"
  define u where "u = v\<lparr>committed_blocks := committed_blocks v - 1\<rparr>"
  have v: "get_block v = get_block s" "objs v = objs ?t" "committed_blocks v = committed_blocks s + 1" "blocks u = blocks v"
    using unlink_get [of ?b R' m' ?t] new p(1,3)
    by (simp_all add: v_def u_def mark_removed_def mark_capacity_mutated_def mark_mutated_def Let_def get_block_def [abs_def] unlink_def fun_eq_iff
        split: option.split)
  have inv': "index_inv u" using removed_inv [OF rem(1)] by (simp add: u_def v_def committed_inv)
  have "index_child_count ?t ?b = Inr 0" by (rule iffD2 [OF index_child_count_zero [OF index_invD(1) [OF t] b(1)] p(5)])
  then have roll: "rollback_inserted_leaf a ?t = (Inr (), u)"
    using rem(2) b count by (simp add: rollback_inserted_leaf_def Let_def p(2,3) locally_free_def eff_simps u_def v_def)
  have get: "get_block u = get_block s" using v(1,4) by (simp add: get_block_def [abs_def])
  have obj: "objs u = (objs s)(a := (objs s a)\<lparr>last_access := clock s + 1\<rparr>)" by (simp add: u_def v(2) p(2))
  note same = index_free_unlinked [OF inv inv' get]
  have "index_free u = index_free s" "block_parent (backend u) = block_parent (backend s)"
    by (rule same; simp add: obj locally_free_def)+
  moreover have "fst (freeable_block_ids u) = Inr (index_free u)" "fst (freeable_block_ids s) = Inr (index_free s)"
    using freeable_block_ids_ok [OF inv'] freeable_block_ids_ok [OF inv] by auto
  ultimately show ?thesis
    using ins(2) b(1) roll get v(3) routing_contains(1) [OF inv] routing_contains(1) [OF inv'] by (simp add: has_block_def u_def)
qed

theorem insert_then_rollback_witness:
  "\<exists>t u. insert_block 1 one_block = (Inr 1, t) \<and> get_block t [12] = Some 1 \<and>
    rollback_inserted_leaf 1 t = (Inr (), u) \<and> get_block u = get_block one_block"
proof -
  have s: "max_blocks one_block = Some 3" "committed_blocks one_block = 1" "num_blocks one_block = 1"
      "stable_block_id (objs one_block 1) = [12]" by code_simp+
  have "get_block one_block (stable_block_id (objs one_block 1)) = None" "validate (resid (objs one_block 1)) = Inr ()"
      "check_parent one_block (objs one_block 1) = Inr ()" "locally_free (objs one_block 1)" by code_simp+
  from insert_then_rollback [OF two_blocks_reachable(2) this] s show ?thesis by auto
qed

section \<open>Block ids\<close>

text \<open>
  The ids that a reachable index derives for a prompt from one packed buffer are those of the
  block-by-block definition: the id of each full block is \<open>stable_prefix_block_id\<close> of its tokens and
  of the id before it, and the call fails exactly when one of them does.
\<close>

theorem block_ids_for_tokens_chained:
  assumes "index_reachable s"
  shows "fst (block_ids_for_tokens sha ts max_tokens s) =
    chained_ids sha (fingerprint s) (nat (block_size s)) ts
      (map (\<lambda>i. i * nat (block_size s)) [0..<id_count (nat (block_size s)) ts max_tokens]) None"
proof -
  have "0 < block_size s" using index_invD(5) [OF index_reachable_inv [OF assms]] by (simp add: bound_ok_def)
  then show ?thesis using token_block_ids_chained [of "nat (block_size s)"] by (simp add: block_ids_for_tokens_def)
qed

theorem block_ids_for_tokens_chained_witness:
  "fst (block_ids_for_tokens checksum [5, 6, 7] (Some 2) two_blocks) = Inr [[5], [12]]"
proof -
  have "chained_ids checksum [] 1 [5, 6, 7] [0, 1] None = Inr [[5], [12]]" "id_count 1 [5, 6, 7] (Some 2) = 2" by code_simp+
  then show ?thesis
    using block_ids_for_tokens_chained [OF two_blocks_reachable(3), of checksum "[5, 6, 7]" "Some 2"]
    by (simp add: two_blocks_state numeral_2_eq_2)
qed

section \<open>A stale view\<close>

text \<open>A referenced child is inserted below a block whose copy to the host is in flight.\<close>

definition before_child :: "(bytes, unit) prefix_index" where
  "before_child = snd (device_reclaimable_block_ids (snd (begin_d2h 0
     (set_block 1 (\<lambda>k. k\<lparr>ref_count := 1\<rparr>) one_block))))"

definition stale_view :: "(bytes, unit) prefix_index" where
  "stale_view = snd (insert_block 1 before_child)"

lemma stale_view_reachable: "index_reachable stale_view"
proof -
  have "get_block one_block b \<noteq> Some 1" for b by (simp add: get_block_def one_block_blocks)
  then have "index_reachable (set_block 1 (\<lambda>_. (objs one_block 1)\<lparr>ref_count := 1\<rparr>) one_block)"
    by (intro index_reachable.step [OF two_blocks_reachable(2) index_step.new_block])
  then have "index_reachable before_child"
    unfolding before_child_def
    by (intro index_reachable.step [OF _ index_step.device_reclaimable] index_reachable.step [OF _ index_step.backup])
  then show ?thesis unfolding stale_view_def by (rule index_reachable.step [OF _ index_step.insert])
qed

text \<open>
  C28.  The view of reclaimable device blocks, which also counts blocks whose copy to the host is still
  in flight, can be stale in a reachable state.  A block in transfer to the host is reclaimable; a
  referenced child inserted below it makes it unreclaimable, but \<open>insert_block\<close> takes the parent for
  blocked because of the transfer and leaves the capacity epoch alone, so the cached view is returned
  again where a fresh scan finds nothing.
\<close>

theorem device_reclaimable_stale:
  "index_reachable stale_view \<and> fst (insert_block 1 before_child) = Inr 1 \<and>
   fst (device_reclaimable_block_ids stale_view) = Inr {[5]} \<and> scan_reclaimable True stale_view = Inr {}"
proof (intro conjI stale_view_reachable)
  show "fst (insert_block 1 before_child) = Inr 1" by code_simp
  show "fst (device_reclaimable_block_ids stale_view) = Inr {[5]}" by code_simp
  show "scan_reclaimable True stale_view = Inr {}" by code_simp
qed

end
