(* ===== verification/Prefix_Prune.thy ===== *)
theory Prefix_Prune
  imports Prelude "HOL-Library.Product_Lexorder"
begin

text \<open>
  \<open>engine/prefix_prune.py\<close>: the intervals of a prune request, and the selection of the tokens that are
  kept.  Tests that an argument is an integer are left out, since the arguments are \<open>int\<close>.  The scores
  are any linearly ordered group; \<open>torch\<close>'s sum of a block's scores is the parameter \<open>block_sum\<close>.
\<close>

section \<open>The intervals\<close>

definition check_span :: "int \<Rightarrow> int \<Rightarrow> int \<times> int \<Rightarrow> (int \<times> int) result" where
  "check_span token_count block_size span =
     (case span of (left, right) \<Rightarrow>
        if \<not> (0 \<le> left \<and> left < right \<and> right \<le> token_count) then Inl ValueError
        else if left mod block_size \<noteq> 0 \<or> right mod block_size \<noteq> 0 then Inl ValueError
        else Inr (left, right))"

fun merge_spans :: "(int \<times> int) list \<Rightarrow> (int \<times> int) list \<Rightarrow> (int \<times> int) list result" where
  "merge_spans [] normalized = Inr normalized"
| "merge_spans ((left, right) # rest) normalized =
     (if normalized \<noteq> [] \<and> left < snd (last normalized) then Inl ValueError
      else if normalized \<noteq> [] \<and> left = snd (last normalized)
      then merge_spans rest (butlast normalized @ [(fst (last normalized), right)])
      else merge_spans rest (normalized @ [(left, right)]))"

definition resolve_ranges ::
  "int option \<Rightarrow> int option \<Rightarrow> (int \<times> int) list option \<Rightarrow> (int \<times> int) list result" where
  "resolve_ranges range_start range_end ranges =
     (case ranges of
        None \<Rightarrow> (case (range_start, range_end) of (Some l, Some r) \<Rightarrow> Inr [(l, r)] | _ \<Rightarrow> Inl ValueError)
      | Some spans \<Rightarrow> if range_start \<noteq> None \<or> range_end \<noteq> None then Inl ValueError else Inr spans)"

definition normalize_prefix_prune_ranges ::
  "int \<Rightarrow> int \<Rightarrow> int option \<Rightarrow> int option \<Rightarrow> (int \<times> int) list option \<Rightarrow> (int \<times> int) list result" where
  "normalize_prefix_prune_ranges token_count block_size range_start range_end ranges =
     (if block_size \<le> 0 then Inl ValueError
      else bindR (resolve_ranges range_start range_end ranges) (\<lambda>spans.
        if spans = [] then Inl ValueError
        else bindR (mapR (check_span token_count block_size) spans) (\<lambda>checked. merge_spans (sort checked) [])))"

definition validate_prefix_prune_request ::
  "int \<Rightarrow> int option \<Rightarrow> int option \<Rightarrow> (int \<times> int) list option \<Rightarrow> int \<Rightarrow> int \<Rightarrow> string \<Rightarrow> string result" where
  "validate_prefix_prune_request token_count range_start range_end ranges keep_tokens block_size policy =
     (if policy \<notin> {''snapkv_global'', ''kvzip_global''} then Inl ValueError
      else bindR (normalize_prefix_prune_ranges token_count block_size range_start range_end ranges) (\<lambda>intervals.
        let width = sum_list (map (\<lambda>(l, r). r - l) intervals)
        in if keep_tokens < 0 \<or> keep_tokens \<ge> width then Inl ValueError else Inr policy))"

section \<open>The selection\<close>

definition select_global_keep_indices ::
  "'a::linordered_ab_group_add list \<Rightarrow> int \<Rightarrow> int list option \<Rightarrow> nat list result" where
  "select_global_keep_indices scores keep_tokens protected_indices =
     (if keep_tokens < 0 \<or> keep_tokens > int (length scores) then Inl ValueError
      else case protected_indices of
        None \<Rightarrow>
          if keep_tokens = 0 then Inr []
          else if keep_tokens = int (length scores) then Inr [0..<length scores]
          else Inr (sort (take (nat keep_tokens) (sort_key (\<lambda>i. - (scores ! i)) [0..<length scores])))
      | Some idxs \<Rightarrow>
          if \<exists>i\<in>set idxs. i < 0 \<or> i \<ge> int (length scores) then Inl ValueError
          else
            let protected_set = remdups (map nat idxs)
            in if int (length protected_set) > keep_tokens then Inl ValueError
               else
                 let candidates = sort_key (\<lambda>i. (- (scores ! i), i)) (filter (\<lambda>i. i \<notin> set protected_set) [0..<length scores])
                 in Inr (sort (remdups (protected_set @ take (nat keep_tokens - length protected_set) candidates))))"

text \<open>\<open>scores.reshape(-1, block_size)\<close>, row by row.\<close>

definition block_rows :: "nat \<Rightarrow> 'a list \<Rightarrow> 'a list list" where
  "block_rows bs xs = map (\<lambda>b. take bs (drop (b * bs) xs)) [0..<length xs div bs]"

definition select_global_keep_block_indices ::
  "('a list \<Rightarrow> 'a) \<Rightarrow> 'a::linordered_ab_group_add list \<Rightarrow> int \<Rightarrow> int \<Rightarrow> int \<Rightarrow> nat list result" where
  "select_global_keep_block_indices block_sum scores keep_tokens block_size protected_suffix =
     (if block_size \<le> 0 then Inl ValueError
      else if \<exists>v\<in>set [int (length scores), keep_tokens, protected_suffix]. v < 0 \<or> v mod block_size \<noteq> 0 then Inl ValueError
      else if keep_tokens > int (length scores) then Inl ValueError
      else if protected_suffix > keep_tokens then Inl ValueError
      else
        let bs = nat block_size;
            block_scores = map block_sum (block_rows bs scores);
            protected_blocks = nat (protected_suffix div block_size);
            candidate_blocks = length block_scores - protected_blocks;
            keep_blocks = keep_tokens div block_size
        in bindR (select_global_keep_indices (take candidate_blocks block_scores) (keep_blocks - int protected_blocks) None) (\<lambda>selected.
             let chosen = selected @ [candidate_blocks..<length block_scores]
             in Inr (sort (concat (map (\<lambda>b. map (\<lambda>j. b * bs + j) [0..<bs]) chosen)))))"

section \<open>Merging covers exactly the requested tokens\<close>

definition width :: "(int \<times> int) list \<Rightarrow> int" where
  "width spans = sum_list (map (\<lambda>(l, r). r - l) spans)"

definition covered :: "(int \<times> int) list \<Rightarrow> int set" where
  "covered spans = (\<Union>(l, r)\<in>set spans. {l..<r})"

lemma covered_simps [simp]:
  "covered [] = {}" "covered (p # ps) = {fst p..<snd p} \<union> covered ps" "covered (ps @ qs) = covered ps \<union> covered qs"
  by (auto simp: covered_def)

lemma width_simps [simp]: "width [] = 0" "width (p # ps) = snd p - fst p + width ps" "width (ps @ qs) = width ps + width qs"
  by (auto simp: width_def split: prod.splits)

lemma finite_covered [simp]: "finite (covered ps)"
  by (auto simp: covered_def)

lemma card_covered_le: "\<forall>p\<in>set ps. fst p < snd p \<Longrightarrow> int (card (covered ps)) \<le> width ps"
proof (induction ps)
  case (Cons p ps)
  have "card (covered (p # ps)) \<le> card {fst p..<snd p} + card (covered ps)"
    unfolding covered_simps by (rule card_Un_le)
  moreover have "int (card {fst p..<snd p}) = snd p - fst p" "int (card (covered ps)) \<le> width ps" using Cons by simp_all
  ultimately show ?case unfolding width_simps by linarith
qed simp

text \<open>The merged list is a sorted list of separated intervals.\<close>

definition separated :: "(int \<times> int) list \<Rightarrow> bool" where
  "separated ps \<longleftrightarrow> (\<forall>p\<in>set ps. fst p < snd p) \<and> sorted_wrt (\<lambda>p q. snd p < fst q) ps"

lemma separated_snoc:
  "separated (ps @ [q]) \<longleftrightarrow> separated ps \<and> fst q < snd q \<and> (ps \<noteq> [] \<longrightarrow> snd (last ps) < fst q)"
proof -
  have "(\<forall>p\<in>set ps. snd p < fst q) \<longleftrightarrow> (ps \<noteq> [] \<longrightarrow> snd (last ps) < fst q)" if "separated ps"
    using that
  proof (induction ps)
    case (Cons p ps)
    then show ?case by (cases ps) (force simp: separated_def)+
  qed simp
  then show ?thesis by (auto simp: separated_def sorted_wrt_append)
qed

lemma card_separated: "separated ps \<Longrightarrow> int (card (covered ps)) = width ps"
proof (induction ps)
  case (Cons p ps)
  have "{fst p..<snd p} \<inter> covered ps = {}" using Cons.prems by (fastforce simp: separated_def covered_def)
  then have "card (covered (p # ps)) = card {fst p..<snd p} + card (covered ps)" by (simp add: card_Un_disjoint)
  then show ?case using Cons by (simp add: separated_def)
qed simp

lemma merge_spans_run:
  assumes "separated norm" and "\<forall>p\<in>set ps. fst p < snd p"
    and "merge_spans ps norm = Inr ns"
  shows "separated ns \<and> covered ns = covered norm \<union> covered ps \<and> width ns = width norm + width ps"
  using assms
proof (induction ps norm rule: merge_spans.induct)
  case (2 left right rest norm)
  show ?case
  proof (cases "norm \<noteq> [] \<and> left = snd (last norm)")
    case True
    then obtain ms p where norm: "norm = ms @ [p]" by (metis rev_exhaust)
    have sep: "separated (ms @ [(fst p, right)])" using 2(3,4) True unfolding norm separated_snoc by auto
    have "merge_spans rest (butlast norm @ [(fst (last norm), right)]) = Inr ns" using 2(5) True by simp
    then have "separated ns \<and> covered ns = covered (ms @ [(fst p, right)]) \<union> covered rest \<and> width ns = width (ms @ [(fst p, right)]) + width rest"
      using 2(1) sep 2(4) True norm by simp
    moreover have "{fst p..<right} = {fst p..<snd p} \<union> {snd p..<right}" using 2(3,4) True unfolding norm separated_snoc by auto
    ultimately show ?thesis using True norm by auto
  next
    case False
    then have gap: "norm \<noteq> [] \<longrightarrow> snd (last norm) < left" and run: "merge_spans rest (norm @ [(left, right)]) = Inr ns"
      using 2(5) by (auto split: if_splits)
    then have "separated (norm @ [(left, right)])" using 2(3,4) by (simp add: separated_snoc)
    then show ?thesis using 2(2) False gap run 2(4) by (auto simp: not_less)
  qed
qed simp

lemma merge_spans_fails:
  assumes "separated norm" and "\<forall>p\<in>set ps. fst p < snd p" and "sorted (map fst ps)"
    and "norm \<noteq> [] \<Longrightarrow> \<forall>p\<in>set ps. fst (last norm) \<le> fst p" and "merge_spans ps norm = Inl e"
  shows "e = ValueError \<and> int (card (covered norm \<union> covered ps)) < width norm + width ps"
  using assms
proof (induction ps norm rule: merge_spans.induct)
  case (2 left right rest norm)
  have rest: "int (card (covered rest)) \<le> width rest" by (rule card_covered_le) (use 2(4) in simp)
  consider "norm \<noteq> []" "left < snd (last norm)" | "norm \<noteq> []" "left = snd (last norm)" | "norm \<noteq> [] \<longrightarrow> snd (last norm) < left" by force
  then show ?case
  proof cases
    case 1
    then obtain ms p where norm: "norm = ms @ [p]" by (metis rev_exhaust)
    have size: "int (card {left..<right}) = right - left" using 2(4) by simp
    have "left \<in> covered norm \<inter> {left..<right}" using 1 2(4,6) by (auto simp: norm)
    then have "0 < card (covered norm \<inter> {left..<right})" by (auto simp: card_gt_0_iff)
    then have "card (covered norm \<union> {left..<right}) < card (covered norm) + card {left..<right}"
      using card_Un_Int [of "covered norm" "{left..<right}"] by simp
    moreover have "card (covered norm \<union> {left..<right} \<union> covered rest) \<le> card (covered norm \<union> {left..<right}) + card (covered rest)"
      by (rule card_Un_le)
    ultimately have "int (card (covered norm \<union> {left..<right} \<union> covered rest)) < width norm + (right - left) + width rest"
      using card_separated [OF 2(3)] rest size by linarith
    then show ?thesis using 1 2(7) by (simp add: Un_assoc)
  next
    case 2: 2
    then obtain ms p where norm: "norm = ms @ [p]" by (metis rev_exhaust)
    have p: "fst p < snd p" "left = snd p" using 2 "2.prems"(1) by (auto simp: norm separated_snoc)
    have "separated (ms @ [(fst p, right)])" using "2.prems"(1,2) 2 unfolding norm separated_snoc by auto
    moreover have "fst p \<le> fst q" if "q \<in> set rest" for q using "2.prems"(3) that p by fastforce
    ultimately have "e = ValueError \<and> int (card (covered (ms @ [(fst p, right)]) \<union> covered rest)) < width (ms @ [(fst p, right)]) + width rest"
      using "2.IH"(1) 2 "2.prems" norm by simp
    moreover have "{fst p..<right} = {fst p..<snd p} \<union> {snd p..<right}" using p "2.prems"(2) by auto
    ultimately show ?thesis using p norm by (simp add: Un_ac)
  next
    case 3
    then have "separated (norm @ [(left, right)])" using 2(3,4) by (simp add: separated_snoc)
    moreover have "\<forall>q\<in>set rest. left \<le> fst q" using 2(5) by simp
    ultimately have "e = ValueError \<and> int (card (covered (norm @ [(left, right)]) \<union> covered rest)) < width (norm @ [(left, right)]) + width rest"
      using "2.IH"(2) 3 2(4,5,7) by auto
    then show ?thesis by (simp add: Un_ac)
  qed
qed simp

lemma merge_spans_endpoints:
  assumes "\<forall>p\<in>set norm \<union> set ps. A (fst p) \<and> B (snd p)" and "merge_spans ps norm = Inr ns"
  shows "\<forall>p\<in>set ns. A (fst p) \<and> B (snd p)"
  using assms
proof (induction ps norm rule: merge_spans.induct)
  case (2 left right rest norm)
  show ?case
  proof (cases "norm \<noteq> [] \<and> left = snd (last norm)")
    case True
    then obtain ms p where norm: "norm = ms @ [p]" by (metis rev_exhaust)
    then show ?thesis using 2(1) 2(3,4) True by auto
  next
    case False
    then show ?thesis using 2(2) 2(3,4) by (auto split: if_splits)
  qed
qed simp

definition span_ok :: "int \<Rightarrow> int \<Rightarrow> int \<times> int \<Rightarrow> bool" where
  "span_ok token_count block_size p \<longleftrightarrow>
     0 \<le> fst p \<and> fst p < snd p \<and> snd p \<le> token_count \<and> block_size dvd fst p \<and> block_size dvd snd p"

lemma check_spans_run:
  "mapR (check_span n bs) ps = (if \<forall>p\<in>set ps. span_ok n bs p then Inr ps else Inl ValueError)"
  by (induction ps) (auto simp: check_span_def span_ok_def mod_eq_0_iff_dvd bindR_def split: prod.splits)

lemma sort_covered [simp]: "covered (sort ps) = covered ps" "width (sort ps) = width ps"
proof -
  show "covered (sort ps) = covered ps" by (simp add: covered_def)
  have "sum_mset (image_mset (\<lambda>(l, r). r - l) (mset (sort ps))) = sum_mset (image_mset (\<lambda>(l, r). r - l) (mset ps))" by simp
  then show "width (sort ps) = width ps" by (simp add: width_def sum_mset_sum_list [symmetric])
qed

lemma sorted_fst: "sorted (map fst (sort (ps :: (int \<times> int) list)))"
proof -
  have "sorted (sort ps)" by simp
  then show ?thesis by (rule sorted_wrt_map_mono) (auto simp: less_eq_prod_def)
qed

definition request_ok :: "int \<Rightarrow> int \<Rightarrow> (int \<times> int) list \<Rightarrow> bool" where
  "request_ok n bs spans \<longleftrightarrow> 0 < bs \<and> spans \<noteq> [] \<and> (\<forall>p\<in>set spans. span_ok n bs p) \<and> int (card (covered spans)) = width spans"

text \<open>
  C35. A prune request is resolved to a canonical list of intervals exactly when it should be: the block
  size is positive, every requested interval is a non-empty, block-aligned interval of the prompt, and no
  token is requested twice; otherwise \<open>ValueError\<close> is raised.  The result is sorted, its intervals are
  aligned and separated by gaps, and it covers exactly the requested tokens, never those of a gap.
\<close>

theorem normalize_prune_ranges_exact:
  assumes "resolve_ranges a b rs = Inr spans"
  shows "case normalize_prefix_prune_ranges n bs a b rs of
      Inl e \<Rightarrow> e = ValueError \<and> \<not> request_ok n bs spans
    | Inr ns \<Rightarrow> request_ok n bs spans \<and> (\<forall>p\<in>set ns. span_ok n bs p) \<and> sorted_wrt (\<lambda>p q. snd p < fst q) ns \<and> covered ns = covered spans"
proof (cases "0 < bs \<and> spans \<noteq> [] \<and> (\<forall>p\<in>set spans. span_ok n bs p)")
  case False
  then show ?thesis
    using assms(1) by (auto simp: normalize_prefix_prune_ranges_def request_ok_def check_spans_run bindR_def)
next
  case True
  then have eq: "normalize_prefix_prune_ranges n bs a b rs = merge_spans (sort spans) []"
    using assms(1) by (simp add: normalize_prefix_prune_ranges_def check_spans_run bindR_def)
  have lt: "\<forall>p\<in>set (sort spans). fst p < snd p" using True by (simp add: span_ok_def)
  have sep: "separated []" by (simp add: separated_def)
  show ?thesis
  proof (cases "merge_spans (sort spans) []")
    case (Inl e)
    then show ?thesis using merge_spans_fails [OF sep lt sorted_fst _ Inl] by (simp add: eq request_ok_def)
  next
    case (Inr ns)
    have run: "separated ns" "covered ns = covered spans" "width ns = width spans" using merge_spans_run [OF sep lt Inr] by simp_all
    have "\<forall>p\<in>set ns. (0 \<le> fst p \<and> bs dvd fst p) \<and> (snd p \<le> n \<and> bs dvd snd p)"
      by (rule merge_spans_endpoints [OF _ Inr]) (use True in \<open>auto simp: span_ok_def\<close>)
    then show ?thesis using run card_separated [OF run(1)] True by (simp add: eq Inr request_ok_def span_ok_def separated_def)
  qed
qed

theorem normalize_prune_ranges_exact_witness:
  "resolve_ranges None None (Some [(8, 12), (0, 4), (4, 8)]) = Inr [(8, 12), (0, 4), (4, 8)] \<and>
   normalize_prefix_prune_ranges 20 4 None None (Some [(8, 12), (0, 4), (4, 8)]) = Inr [(0, 12)] \<and>
   covered [(0, 12)] = covered [(8, 12), (0, 4), (4, 8)]"
proof -
  have r: "resolve_ranges None None (Some [(8, 12), (0, 4), (4, 8)]) = Inr [(8, 12), (0, 4), (4, 8)]"
    and v: "normalize_prefix_prune_ranges 20 4 None None (Some [(8, 12), (0, 4), (4, 8)]) = Inr [(0, 12)]" by code_simp+
  show ?thesis using normalize_prune_ranges_exact [OF r, of 20 4] r v by simp
qed

section \<open>The kept tokens are the best ones\<close>

text \<open>A stable sort of positions by descending score breaks ties by position.\<close>

lemma sorted_lex:
  assumes "sorted (map f ys)" and "\<And>k. sorted (filter (\<lambda>y. f y = k) ys)"
  shows "sorted (map (\<lambda>y. (f y, y)) ys)"
  using assms
proof (induction ys)
  case (Cons y ys)
  have "sorted (filter (\<lambda>z. f z = k) ys)" for k using Cons.prems(2) [of k] by (auto split: if_splits)
  then have "sorted (map (\<lambda>y. (f y, y)) ys)" using Cons by simp
  moreover have "(f y, y) \<le> (f z, z)" if "z \<in> set ys" for z
    using Cons.prems(1) Cons.prems(2) [of "f y"] that by (auto simp: less_eq_prod_def less_le)
  ultimately show ?case by auto
qed simp

lemma stable_by_position: "sort_key f [0..<n] = sort_key (\<lambda>i. (f i, i)) [0..<n]"
proof (rule sort_key_inj_key_eq [symmetric])
  show "inj_on (\<lambda>i. (f i, i)) (set [0..<n])" by (simp add: inj_on_def)
  show "sorted (map (\<lambda>i. (f i, i)) (sort_key f [0..<n]))"
    by (rule sorted_lex) (simp_all add: sort_key_stable sorted_filter [of "\<lambda>i. i", simplified])
qed simp

text \<open>Positions by descending score, and what a prefix of that order leaves behind.\<close>

lemma best_prefix:
  fixes scores :: "'a::linordered_ab_group_add list"
  assumes "distinct xs" and i: "i \<in> set (take k (sort_key (\<lambda>i. (- (scores ! i), i)) xs))"
    and j: "j \<in> set xs" "j \<notin> set (take k (sort_key (\<lambda>i. (- (scores ! i), i)) xs))"
  shows "scores ! j < scores ! i \<or> scores ! j = scores ! i \<and> i < j"
proof -
  let ?f = "\<lambda>i. (- (scores ! i), i)" and ?ys = "sort_key (\<lambda>i. (- (scores ! i), i)) xs"
  obtain p where p: "p < k" "p < length ?ys" "i = ?ys ! p" using i by (auto simp: in_set_conv_nth)
  obtain q where q: "q < length ?ys" "j = ?ys ! q" using j(1) in_set_conv_nth [of j ?ys] by auto
  have "k \<le> q"
  proof (rule ccontr)
    assume "\<not> k \<le> q"
    then have "j = take k ?ys ! q" "q < length (take k ?ys)" using q by simp_all
    then show False using j(2) nth_mem by blast
  qed
  then have "map ?f ?ys ! p \<le> map ?f ?ys ! q" using p q by (intro sorted_nth_mono) simp_all
  then have "?f i \<le> ?f j" using p q by simp
  moreover have "i \<noteq> j" using i j(2) by blast
  ultimately show ?thesis by (auto simp: less_eq_prod_def)
qed

definition protected_set :: "int list option \<Rightarrow> nat set" where
  "protected_set idxs = (case idxs of None \<Rightarrow> {} | Some ps \<Rightarrow> nat ` set ps)"

definition kept_ok :: "'a::linordered_ab_group_add list \<Rightarrow> int \<Rightarrow> nat set \<Rightarrow> nat list \<Rightarrow> bool" where
  "kept_ok scores keep prot sel \<longleftrightarrow> sorted sel \<and> distinct sel \<and> int (length sel) = keep \<and>
     prot \<subseteq> set sel \<and> set sel \<subseteq> {..<length scores} \<and>
     (\<forall>i\<in>set sel - prot. \<forall>j\<in>{..<length scores} - set sel. scores ! j < scores ! i \<or> scores ! j = scores ! i \<and> i < j)"

lemma kept_unprotected:
  fixes scores :: "'a::linordered_ab_group_add list"
  assumes "0 \<le> keep" "keep \<le> int (length scores)"
  shows "kept_ok scores keep {} (sort (take (nat keep) (sort_key (\<lambda>i. - (scores ! i)) [0..<length scores])))"
proof -
  let ?ys = "sort_key (\<lambda>i. (- (scores ! i), i)) [0..<length scores]"
  have "distinct (take (nat keep) ?ys)" "length (take (nat keep) ?ys) = nat keep" using assms by auto
  moreover have "set (take (nat keep) ?ys) \<subseteq> {..<length scores}" using set_take_subset [of "nat keep" ?ys] by auto
  moreover have "scores ! j < scores ! i \<or> scores ! j = scores ! i \<and> i < j"
    if "i \<in> set (take (nat keep) ?ys)" "j < length scores" "j \<notin> set (take (nat keep) ?ys)" for i j
    using best_prefix [of "[0..<length scores]" i "nat keep" scores j] that by simp
  ultimately show ?thesis using assms(1) unfolding stable_by_position [of "\<lambda>i. - (scores ! i)"] kept_ok_def by auto
qed

lemma kept_protected:
  fixes scores :: "'a::linordered_ab_group_add list"
  assumes "distinct ps" "set ps \<subseteq> {..<length scores}" "int (length ps) \<le> keep" "keep \<le> int (length scores)"
  defines "cs \<equiv> take (nat keep - length ps) (sort_key (\<lambda>i. (- (scores ! i), i)) (filter (\<lambda>i. i \<notin> set ps) [0..<length scores]))"
  shows "kept_ok scores keep (set ps) (sort (remdups (ps @ cs)))"
proof -
  let ?xs = "filter (\<lambda>i. i \<notin> set ps) [0..<length scores]"
  have sub: "set cs \<subseteq> set ?xs"
    using set_take_subset [of "nat keep - length ps" "sort_key (\<lambda>i. (- (scores ! i), i)) ?xs"] by (simp add: cs_def)
  have d: "distinct (ps @ cs)" using assms(1) sub by (auto simp: cs_def)
  have "length ?xs = length scores - length ps"
  proof -
    have "length ?xs = card (set ?xs)" by (rule distinct_card [symmetric]) simp
    also have "set ?xs = {..<length scores} - set ps" by auto
    also have "card \<dots> = length scores - length ps" using assms(1,2) by (simp add: card_Diff_subset distinct_card)
    finally show ?thesis .
  qed
  then have "length cs = nat keep - length ps" using assms(3,4) by (simp add: cs_def)
  then have len: "int (length (sort (remdups (ps @ cs)))) = keep" using d assms(3) by (simp add: distinct_remdups_id)
  have best: "scores ! j < scores ! i \<or> scores ! j = scores ! i \<and> i < j"
    if "i \<in> set cs" "j < length scores" "j \<notin> set ps" "j \<notin> set cs" for i j
    using best_prefix [of ?xs i "nat keep - length ps" scores j] that by (simp add: cs_def)
  show ?thesis unfolding kept_ok_def using len sub assms(2) best by auto
qed

text \<open>
  C36. The global selection is the top of the scores: whenever \<open>select_global_keep_indices\<close> returns, the
  indices are sorted, distinct and as many as the budget, contain every protected index, and every other
  selected index has a higher score than any index left out, or the same score and an earlier position.
\<close>

theorem keep_selection_best:
  assumes "select_global_keep_indices scores keep idxs = Inr sel"
  shows "sorted sel \<and> distinct sel \<and> int (length sel) = keep \<and> protected_set idxs \<subseteq> set sel \<and> set sel \<subseteq> {..<length scores} \<and>
    (\<forall>i\<in>set sel - protected_set idxs. \<forall>j\<in>{..<length scores} - set sel.
       scores ! j < scores ! i \<or> scores ! j = scores ! i \<and> i < j)"
proof -
  have range: "0 \<le> keep" "keep \<le> int (length scores)" using assms by (auto simp: select_global_keep_indices_def split: if_splits)
  have "kept_ok scores keep (protected_set idxs) sel"
  proof (cases idxs)
    case None
    consider "keep = 0" "sel = []" | "keep = int (length scores)" "sel = [0..<length scores]"
      | "sel = sort (take (nat keep) (sort_key (\<lambda>i. - (scores ! i)) [0..<length scores]))"
      using assms None range by (auto simp: select_global_keep_indices_def split: if_splits)
    then show ?thesis
    proof cases
      case 3
      then show ?thesis using kept_unprotected [OF range] by (simp add: None protected_set_def)
    qed (auto simp: kept_ok_def None protected_set_def)
  next
    case (Some us)
    let ?ps = "remdups (map nat us)"
    have "\<forall>i\<in>set us. 0 \<le> i \<and> i < int (length scores)" "int (length ?ps) \<le> keep"
      and sel: "sel = sort (remdups (?ps @ take (nat keep - length ?ps)
        (sort_key (\<lambda>i. (- (scores ! i), i)) (filter (\<lambda>i. i \<notin> set ?ps) [0..<length scores]))))"
      using assms Some range by (auto simp: select_global_keep_indices_def Let_def split: if_splits)
    then have "kept_ok scores keep (set ?ps) sel" unfolding sel by (intro kept_protected range) auto
    then show ?thesis by (simp add: Some protected_set_def)
  qed
  then show ?thesis unfolding kept_ok_def .
qed

theorem keep_selection_best_witness:
  "select_global_keep_indices [3, 1, 3, 2 :: int] 2 (Some [1]) = Inr [0, 1] \<and> sorted [0, 1 :: nat]"
proof -
  have "select_global_keep_indices [3, 1, 3, 2 :: int] 2 (Some [1]) = Inr [0, 1]" by code_simp
  then show ?thesis using keep_selection_best [of "[3, 1, 3, 2 :: int]" 2 "Some [1]" "[0, 1]"] by blast
qed

section \<open>Whole blocks\<close>

abbreviation block_tokens_of :: "nat \<Rightarrow> nat list \<Rightarrow> nat list" where
  "block_tokens_of bs chosen \<equiv> concat (map (\<lambda>b. map (\<lambda>j. b * bs + j) [0..<bs]) chosen)"

lemma block_tokens_one: "0 < bs \<Longrightarrow> x \<in> set (map (\<lambda>j. b * bs + j) [0..<bs]) \<longleftrightarrow> x div bs = b" for x :: nat
  by (auto intro!: div_nat_eqI simp: mult.commute dividend_less_times_div)

lemma block_tokens_set:
  assumes "0 < bs"
  shows "x \<in> set (block_tokens_of bs chosen) \<longleftrightarrow> x div bs \<in> set chosen"
proof -
  have "x \<in> set (block_tokens_of bs chosen) \<longleftrightarrow> (\<exists>b\<in>set chosen. x \<in> set (map (\<lambda>j. b * bs + j) [0..<bs]))" by auto
  then show ?thesis unfolding block_tokens_one [OF assms] by simp
qed

lemma block_tokens_distinct:
  assumes "0 < bs" and "distinct chosen"
  shows "distinct (block_tokens_of bs chosen)"
  using assms(2)
proof (induction chosen)
  case (Cons b chosen)
  have "set (map (\<lambda>j. b * bs + j) [0..<bs]) \<inter> set (block_tokens_of bs chosen) = {}"
    using block_tokens_one [OF assms(1)] block_tokens_set [OF assms(1)] Cons.prems by (auto simp del: set_map set_concat)
  then show ?case using Cons by (simp add: distinct_map inj_on_def)
qed simp

lemma block_tokens_length: "length (block_tokens_of bs chosen) = length chosen * bs"
  by (induction chosen) simp_all

text \<open>
  C37. Block pruning keeps whole blocks: whenever \<open>select_global_keep_block_indices\<close> returns, the token
  indices are sorted, distinct and as many as the budget, they are a union of blocks, and they contain the
  protected suffix.
\<close>

theorem keep_block_selection:
  assumes "select_global_keep_block_indices block_sum scores keep bs suffix = Inr sel"
  shows "sorted sel \<and> distinct sel \<and> int (length sel) = keep \<and> set sel \<subseteq> {..<length scores} \<and>
    {length scores - nat suffix..<length scores} \<subseteq> set sel \<and>
    (\<forall>i j. i div nat bs = j div nat bs \<longrightarrow> (i \<in> set sel \<longleftrightarrow> j \<in> set sel))"
proof -
  let ?b = "nat bs" and ?scores = "map block_sum (block_rows (nat bs) scores)" and ?p = "nat (suffix div bs)"
  let ?c = "length scores div ?b - ?p"
  have bs: "0 < bs" and al: "bs dvd int (length scores)" "bs dvd keep" "bs dvd suffix" "0 \<le> keep" "0 \<le> suffix"
    and le: "keep \<le> int (length scores)" "suffix \<le> keep"
    using assms by (auto simp: select_global_keep_block_indices_def mod_eq_0_iff_dvd split: if_splits)
  have L: "length ?scores = length scores div ?b" by (simp add: block_rows_def)
  obtain selected where chosen: "select_global_keep_indices (take ?c ?scores) (keep div bs - int ?p) None = Inr selected"
      "sel = sort (block_tokens_of ?b (selected @ [?c..<length scores div ?b]))"
  proof -
    have "length (block_rows ?b scores) = length scores div ?b" by (simp add: block_rows_def)
    then have "select_global_keep_block_indices block_sum scores keep bs suffix =
        bindR (select_global_keep_indices (take ?c ?scores) (keep div bs - int ?p) None)
          (\<lambda>selected. Inr (sort (block_tokens_of ?b (selected @ [?c..<length scores div ?b]))))"
      using bs al le by (simp add: select_global_keep_block_indices_def Let_def mod_eq_0_iff_dvd)
    then have "bindR (select_global_keep_indices (take ?c ?scores) (keep div bs - int ?p) None)
          (\<lambda>selected. Inr (sort (block_tokens_of ?b (selected @ [?c..<length scores div ?b])))) = Inr sel" using assms by simp
    then show thesis using that unfolding bindR_eq_Inr by blast
  qed
  obtain m s k where m: "length scores = ?b * m" "suffix = bs * int s" "keep = bs * int k"
  proof -
    obtain x y z where xyz: "int (length scores) = bs * x" "suffix = bs * y" "keep = bs * z" using al(1-3) by (auto elim!: dvdE)
    have pos: "0 \<le> v" if "0 \<le> bs * v" for v using that bs by (simp add: zero_le_mult_iff)
    have nn: "0 \<le> x" "0 \<le> y" "0 \<le> z"
      using pos [of x] pos [of y] pos [of z] al(4,5) unfolding xyz(1) [symmetric] xyz(2) [symmetric] xyz(3) [symmetric] by simp_all
    have "length scores = ?b * nat x" using xyz(1) bs nn(1) by (metis nat_int nat_mult_distrib less_imp_le)
    then show thesis using that [of "nat x" "nat y" "nat z"] xyz(2,3) nn by simp
  qed
  have q: "length scores div ?b = m" "?p = s" "keep div bs = int k" using bs m by simp_all
  have ks: "s \<le> k" "k \<le> m"
  proof -
    show "s \<le> k" using le(2) bs by (simp add: m(2,3))
    have "bs * int k \<le> bs * int m" using le(1) m(1,3) bs by simp
    then show "k \<le> m" using bs by simp
  qed
  note best = keep_selection_best [OF chosen(1)]
  have tk: "length (take ?c ?scores) = m - s" unfolding length_take L q by simp
  have len: "length selected = k - s" "set selected \<subseteq> {..<m - s}" "distinct selected"
  proof -
    have b: "int (length selected) = keep div bs - int ?p" "set selected \<subseteq> {..<length (take ?c ?scores)}" "distinct selected"
      using best by blast+
    show "length selected = k - s" using b(1) ks unfolding q by linarith
    show "set selected \<subseteq> {..<m - s}" using b(2) by (simp only: tk)
    show "distinct selected" by (rule b(3))
  qed
  let ?ch = "selected @ [m - s..<m]"
  have ch: "distinct ?ch" "length ?ch = k" using len ks by auto
  have sel: "sel = sort (block_tokens_of ?b ?ch)" using chosen(2) by (simp add: q)
  have b0: "0 < ?b" using bs by simp
  have mem: "x \<in> set sel \<longleftrightarrow> x div ?b \<in> set ?ch" for x unfolding sel set_sort by (rule block_tokens_set [OF b0])
  have "length sel = k * ?b" unfolding sel length_sort block_tokens_length ch(2) ..
  then have "int (length sel) = keep" using bs by (simp add: m(3))
  moreover have "distinct sel" using block_tokens_distinct [OF b0 ch(1)] by (simp add: sel)
  moreover have "set sel \<subseteq> {..<length scores}"
  proof
    fix x
    assume "x \<in> set sel"
    then have "x div ?b < m" using mem len(2) by auto
    then show "x \<in> {..<length scores}" using b0 by (simp add: m(1) div_less_iff_less_mult mult.commute)
  qed
  moreover have "x \<in> set sel" if x: "x \<in> {length scores - nat suffix..<length scores}" for x
  proof -
    have "nat suffix = ?b * s" using bs by (simp add: m(2) nat_mult_distrib)
    then have "?b * (m - s) \<le> x" "x < ?b * m" using x by (simp_all add: m(1) diff_mult_distrib2)
    then have "m - s \<le> x div ?b" "x div ?b < m" using b0 by (simp_all add: less_eq_div_iff_mult_less_eq div_less_iff_less_mult mult.commute)
    then show ?thesis using mem by simp
  qed
  moreover have "i \<in> set sel \<longleftrightarrow> j \<in> set sel" if "i div ?b = j div ?b" for i j using mem that by simp
  moreover have "sorted sel" by (simp add: sel)
  ultimately show ?thesis by (intro conjI allI impI) (assumption | rule subsetI)+
qed

theorem keep_block_selection_witness:
  "select_global_keep_block_indices sum_list [1, 1, 5, 0, 2, 2, 0, 0 :: int] 4 2 2 = Inr [2, 3, 6, 7] \<and> distinct [2, 3, 6, 7 :: nat]"
proof -
  have "select_global_keep_block_indices sum_list [1, 1, 5, 0, 2, 2, 0, 0 :: int] 4 2 2 = Inr [2, 3, 6, 7]" by code_simp
  then show ?thesis using keep_block_selection [of sum_list "[1, 1, 5, 0, 2, 2, 0, 0 :: int]" 4 2 2 "[2, 3, 6, 7]"] by blast
qed

end
