(* ===== verification/Chain_Index.thy ===== *)
theory Chain_Index
  imports Prefix_Block Effect_Logic "HOL-Library.Product_Lexorder"
begin

text \<open>
  \<open>engine/chain_cache.py\<close>, \<open>ChainCacheIndex\<close>: the lifecycle of resident chains, the prefix cache of
  the methods whose key-value state cannot be shared between requests.  A chain is created or resumed
  by one writer at a time, becomes idle when its turn is finished, and is evicted or invalidated.

  Record objects are shared between the dicts \<open>records\<close> and \<open>active_records\<close>, so they live in the
  store \<open>heap\<close> and the dicts hold addresses; \<open>next_record\<close> is the address of the next object.  Chain
  ids are of any linearly ordered type.  \<open>hashlib.sha256\<close> is the parameter \<open>sha\<close>.
\<close>

section \<open>Modes\<close>

definition CHAIN_PREFIX_METHODS :: "string set" where
  "CHAIN_PREFIX_METHODS =
     {''streamingllm'', ''snapkv'', ''adakv'', ''h2o'', ''pyramidkv'', ''rkv'', ''skipkv'', ''deltakv''}"

definition RADIX_PREFIX_METHODS :: "string set" where
  "RADIX_PREFIX_METHODS = {'''', ''omnikv'', ''quest'', ''deepseek_v4'', ''fp8_kv''}"

text \<open>\<open>requested\<close> is the mode after \<open>str(requested or "auto").strip().lower()\<close>.\<close>

definition normalize_prefix_cache_mode :: "string \<Rightarrow> bool \<Rightarrow> string \<Rightarrow> string \<Rightarrow> string result" where
  "normalize_prefix_cache_mode mode enabled method prefill_method =
     (if mode \<notin> {''auto'', ''radix'', ''chain''} then Inl ValueError
      else if \<not> enabled then Inr ''disabled''
      else
        let expected = (if prefill_method = ''omnikv_prefill'' \<and> method \<in> {'''', ''omnikv''} then Some ''chain''
                        else if method \<in> RADIX_PREFIX_METHODS then Some ''radix''
                        else if method \<in> CHAIN_PREFIX_METHODS then Some ''chain'' else None)
        in case expected of
             None \<Rightarrow> Inl ValueError
           | Some e \<Rightarrow> if mode = ''auto'' then Inr e else if mode \<noteq> e then Inl ValueError else Inr mode)"

section \<open>State\<close>

datatype chain_state = ACTIVE | IDLE

record 'c chain_record =
  chain_id :: 'c
  seq_id :: int
  fingerprint :: bytes
  state :: chain_state
  processed_token_count :: int
  processed_token_digest :: bytes
  token_ids :: "int list"
  last_input_token_count :: int
  last_access :: int
  physical_slots_by_layer :: "int list"
  capacity_slots :: "int list option"
  resident_rows :: int
  reserved_slots_by_layer :: "int list"
  reserved_rows :: int

definition allocated_capacity :: "'c chain_record \<Rightarrow> int list" where
  "allocated_capacity k = (case capacity_slots k of None \<Rightarrow> physical_slots_by_layer k | Some c \<Rightarrow> c)"

datatype admission_status = Created | Resumed

record 'c admission_plan =
  plan_chain_id :: 'c
  plan_seq_id :: int
  status :: admission_status
  reused_tokens :: int
  input_token_count :: int
  victim_chain_ids :: "'c list"
  plan_reserved_slots :: "int list"
  plan_reserved_rows :: int
  demote_chain_ids :: "'c list"
  decode_reserved_slots_by_layer :: "int list"

record 'c chain_snapshot =
  enabled :: bool
  active_chain_ids :: "'c set"
  idle_chain_ids :: "'c set"
  tombstone_chain_ids :: "'c set"

record 'c chain_index =
  max_tombstones :: int
  max_token_history_tokens :: "int option"
  token_history_tokens :: int
  heap :: "nat \<Rightarrow> 'c chain_record"
  next_record :: nat
  records :: "('c, nat) dict"
  active_records :: "('c, nat) dict"
  routing_snapshot_cache :: "'c chain_snapshot option"
  seq_id_to_chain_id :: "(int, 'c) dict"
  tombstones :: "('c, int) dict"
  clock :: int
  st_created :: int
  st_resumed :: int
  st_finished :: int
  st_evicted :: int
  st_invalidated :: int
  st_prefix_mismatch :: int
  st_busy :: int

type_synonym ('c, 'a) chain_op = "('c chain_index, 'a) eff"

definition ChainCacheIndex :: "(nat \<Rightarrow> 'c chain_record) \<Rightarrow> int \<Rightarrow> int option \<Rightarrow> 'c chain_index result" where
  "ChainCacheIndex junk mt mh =
     (if mt \<le> 0 then Inl ValueError
      else if (case mh of None \<Rightarrow> False | Some m \<Rightarrow> m \<le> 0) then Inl ValueError
      else Inr \<lparr>max_tombstones = mt, max_token_history_tokens = mh, token_history_tokens = 0,
        heap = junk, next_record = 0, records = [], active_records = [], routing_snapshot_cache = None,
        seq_id_to_chain_id = [], tombstones = [], clock = 0, st_created = 0, st_resumed = 0,
        st_finished = 0, st_evicted = 0, st_invalidated = 0, st_prefix_mismatch = 0, st_busy = 0\<rparr>)"

abbreviation set_record :: "nat \<Rightarrow> ('c chain_record \<Rightarrow> 'c chain_record) \<Rightarrow> 'c chain_index \<Rightarrow> 'c chain_index" where
  "set_record a f s \<equiv> s\<lparr>heap := (heap s)(a := f (heap s a))\<rparr>"

definition tick :: "'c chain_index \<Rightarrow> 'c chain_index" where
  "tick s = s\<lparr>clock := clock s + 1\<rparr>"

definition set_record_state :: "nat \<Rightarrow> chain_state \<Rightarrow> 'c chain_index \<Rightarrow> 'c chain_index" where
  "set_record_state a st s =
     (let c = chain_id (heap s a);
          s1 = set_record a (\<lambda>k. k\<lparr>state := st\<rparr>) (s\<lparr>routing_snapshot_cache := None\<rparr>)
      in s1\<lparr>active_records := (if st = ACTIVE then dict_set c a (active_records s1)
                               else dict_pop c (active_records s1))\<rparr>)"

fun trim_tombstones :: "int \<Rightarrow> ('c, int) dict \<Rightarrow> ('c, int) dict" where
  "trim_tombstones m [] = []"
| "trim_tombstones m (x # xs) = (if int (length (x # xs)) > m then trim_tombstones m xs else x # xs)"

definition add_tombstone :: "'c \<Rightarrow> 'c chain_index \<Rightarrow> 'c chain_index" where
  "add_tombstone c s =
     (let s1 = tick (s\<lparr>routing_snapshot_cache := None\<rparr>)
      in s1\<lparr>tombstones := trim_tombstones (max_tombstones s1)
           (dict_set c (clock s1) (dict_pop c (tombstones s1)))\<rparr>)"

section \<open>Token histories\<close>

text \<open>\<open>array("q", map(int, islice(token_ids, max(0, limit))))\<close>, hashed as little-endian bytes.\<close>

definition stable_token_digest :: "(bytes \<Rightarrow> bytes) \<Rightarrow> int list \<Rightarrow> int option \<Rightarrow> bytes result" where
  "stable_token_digest sha ts lmt =
     (let xs = (case lmt of None \<Rightarrow> ts | Some n \<Rightarrow> take (nat n) ts)
      in if \<exists>x\<in>set xs. \<not> (- (2 ^ 63) \<le> x \<and> x < 2 ^ 63) then Inl OverflowError
         else if (case lmt of None \<Rightarrow> False | Some n \<Rightarrow> int (length xs) \<noteq> n) then Inl ChainPrefixMismatchError
         else Inr (sha (concat (map pack_q xs))))"

definition check_token_history_capacity :: "nat \<Rightarrow> int \<Rightarrow> 'c chain_index \<Rightarrow> unit result" where
  "check_token_history_capacity a n s =
     (let next_total = token_history_tokens s - int (length (token_ids (heap s a))) + n
      in case max_token_history_tokens s of
           None \<Rightarrow> Inr ()
         | Some m \<Rightarrow> if next_total > m then Inl ChainCapacityError else Inr ())"

definition prepare_token_history :: "nat \<Rightarrow> int list \<Rightarrow> int \<Rightarrow> 'c chain_index \<Rightarrow> int list result" where
  "prepare_token_history a ts processed s =
     (if processed < 0 then Inl ValueError
      else if \<exists>x\<in>set ts. \<not> (0 \<le> x \<and> x < 2 ^ 32) then Inl ChainOwnerMismatchError
      else if int (length ts) < processed then Inl ChainOwnerMismatchError
      else bindR (check_token_history_capacity a (int (length ts)) s) (\<lambda>_. Inr ts))"

definition store_token_history :: "nat \<Rightarrow> int list \<Rightarrow> ('c, unit) chain_op" where
  "store_token_history a ts s =
     (case check_token_history_capacity a (int (length ts)) s of
        Inl e \<Rightarrow> (Inl e, s)
      | Inr _ \<Rightarrow>
          (Inr (), (set_record a (\<lambda>k. k\<lparr>token_ids := ts\<rparr>) s)
             \<lparr>token_history_tokens := token_history_tokens s - int (length (token_ids (heap s a))) + int (length ts)\<rparr>))"

definition drop_token_history :: "nat \<Rightarrow> 'c chain_index \<Rightarrow> 'c chain_index" where
  "drop_token_history a s =
     (set_record a (\<lambda>k. k\<lparr>token_ids := []\<rparr>) s)
       \<lparr>token_history_tokens := token_history_tokens s - int (length (token_ids (heap s a)))\<rparr>"

definition validate_token_history_admission :: "'c admission_plan \<Rightarrow> ('c, int) dict \<Rightarrow> 'c chain_index \<Rightarrow> unit result" where
  "validate_token_history_admission plan max_token_counts s =
     (case max_token_history_tokens s of
        None \<Rightarrow> Inr ()
      | Some m \<Rightarrow>
          bindR (mapR (\<lambda>c. case map_of (records s) c of None \<Rightarrow> Inl KeyError
                        | Some a \<Rightarrow> Inr (int (length (token_ids (heap s a))))) (victim_chain_ids plan)) (\<lambda>freed.
            let tot = token_history_tokens s - sum_list freed +
                  sum_list (map (\<lambda>(c, n). n - (case map_of (records s) c of None \<Rightarrow> 0
                    | Some a \<Rightarrow> int (length (token_ids (heap s a))))) max_token_counts)
            in if tot > m then Inl ChainCapacityError else Inr ()))"

section \<open>Lookup and removal\<close>

definition chain_lookup :: "'c \<Rightarrow> 'c chain_index \<Rightarrow> nat result" where
  "chain_lookup c s =
     (case map_of (records s) c of
        Some a \<Rightarrow> Inr a
      | None \<Rightarrow> if c \<in> fst ` set (tombstones s) then Inl ChainGoneError else Inl ChainNotFoundError)"

text \<open>The common tail of \<open>invalidate\<close> and \<open>evict\<close>.\<close>

definition remove_record :: "'c \<Rightarrow> nat \<Rightarrow> 'c chain_index \<Rightarrow> 'c chain_index" where
  "remove_record c a s =
     (let s1 = drop_token_history a s
      in add_tombstone c (s1\<lparr>records := dict_pop c (records s1), active_records := dict_pop c (active_records s1),
           seq_id_to_chain_id := dict_pop (seq_id (heap s1 a)) (seq_id_to_chain_id s1)\<rparr>))"

definition invalidate :: "'c \<Rightarrow> ('c, nat) chain_op" where
  "invalidate c s =
     (case chain_lookup c s of
        Inl e \<Rightarrow> (Inl e, s)
      | Inr a \<Rightarrow> (Inr a, (remove_record c a s)\<lparr>st_invalidated := st_invalidated s + 1\<rparr>))"

definition evict :: "'c \<Rightarrow> ('c, nat) chain_op" where
  "evict c s =
     (case chain_lookup c s of
        Inl e \<Rightarrow> (Inl e, s)
      | Inr a \<Rightarrow>
          if state (heap s a) = ACTIVE then (Inl ChainBusyError, s)
          else (Inr a, (remove_record c a s)\<lparr>st_evicted := st_evicted s + 1\<rparr>))"

section \<open>Admission\<close>

text \<open>The order in which \<open>idle_resident_lru\<close> yields: the heap pops by last access, then chain id.\<close>

definition idle_resident_lru :: "('c::linorder) chain_index \<Rightarrow> nat list" where
  "idle_resident_lru s =
     sort_key (\<lambda>a. (last_access (heap s a), chain_id (heap s a)))
       (filter (\<lambda>a. state (heap s a) = IDLE \<and> resident_rows (heap s a) > 0) (map snd (records s)))"

definition relieve_slots :: "int list \<Rightarrow> int list \<Rightarrow> int list" where
  "relieve_slots capacity deficits =
     map (\<lambda>i. max 0 (deficits ! i - (if i < length capacity then capacity ! i else 0))) [0..<length deficits]"

fun pick_victims :: "'c chain_record list \<Rightarrow> int \<Rightarrow> int list \<Rightarrow> 'c list \<Rightarrow> 'c list \<times> int \<times> int list" where
  "pick_victims [] rows deficits victims = (victims, rows, deficits)"
| "pick_victims (k # ks) rows deficits victims =
     (if rows \<le> 0 \<and> (\<forall>d\<in>set deficits. d = 0) then (victims, rows, deficits)
      else pick_victims ks (max 0 (rows - resident_rows k)) (relieve_slots (allocated_capacity k) deficits)
             (victims @ [chain_id k]))"

datatype admission_input = Tokens "int list" | Digest int bytes

definition input_count :: "admission_input \<Rightarrow> int" where
  "input_count inp = (case inp of Tokens ts \<Rightarrow> int (length ts) | Digest n _ \<Rightarrow> n)"

text \<open>The digest that is compared with the record's, from the tokens or as given.\<close>

definition admission_digest :: "(bytes \<Rightarrow> bytes) \<Rightarrow> admission_input \<Rightarrow> 'c chain_record \<Rightarrow> bytes result" where
  "admission_digest sha inp k =
     (case inp of
        Tokens ts \<Rightarrow> stable_token_digest sha ts (Some (processed_token_count k))
      | Digest n d \<Rightarrow> if n < processed_token_count k then Inl ChainPrefixMismatchError else Inr d)"

text \<open>The checks of \<open>_plan_admission\<close> on the record: the status and the tokens that are reused.\<close>

definition check_admission ::
  "(bytes \<Rightarrow> bytes) \<Rightarrow> 'c \<Rightarrow> int \<Rightarrow> admission_input \<Rightarrow> bytes \<Rightarrow> ('c, admission_status \<times> int) chain_op" where
  "check_admission sha c sid inp fp s =
     (case map_of (records s) c of
        None \<Rightarrow> if c \<in> fst ` set (tombstones s) then (Inl ChainGoneError, s) else (Inr (Created, 0), s)
      | Some a \<Rightarrow>
          let k = heap s a
          in if state k = ACTIVE then (Inl ChainBusyError, s\<lparr>st_busy := st_busy s + 1\<rparr>)
             else if fingerprint k \<noteq> fp then (Inl ChainFingerprintMismatchError, s)
             else if seq_id k \<noteq> sid then (Inl ChainOwnerMismatchError, s)
             else case admission_digest sha inp k of
               Inl e \<Rightarrow> (Inl e, if e = ChainPrefixMismatchError then s\<lparr>st_prefix_mismatch := st_prefix_mismatch s + 1\<rparr> else s)
             | Inr d \<Rightarrow>
                 if d \<noteq> processed_token_digest k
                 then (Inl ChainPrefixMismatchError, s\<lparr>st_prefix_mismatch := st_prefix_mismatch s + 1\<rparr>)
                 else (Inr (Resumed, processed_token_count k), s))"

definition choose_victims :: "('c::linorder) \<Rightarrow> int list \<Rightarrow> int \<Rightarrow> 'c chain_index \<Rightarrow> 'c list result" where
  "choose_victims c required_slots row_deficit s =
     (let deficits = map (max 0) required_slots; rows = max 0 row_deficit;
          candidates = (if rows > 0 \<or> (\<exists>d\<in>set deficits. d \<noteq> 0) then idle_resident_lru s else []);
          (victims, rows', deficits') =
            pick_victims (filter (\<lambda>k. chain_id k \<noteq> c) (map (heap s) candidates)) rows deficits []
      in if rows' > 0 \<or> (\<exists>d\<in>set deficits'. d \<noteq> 0) then Inl ChainCapacityError else Inr victims)"

definition plan_admission' ::
  "(bytes \<Rightarrow> bytes) \<Rightarrow> 'c::linorder \<Rightarrow> int \<Rightarrow> admission_input \<Rightarrow> bytes \<Rightarrow> int list \<Rightarrow> int \<Rightarrow> int list \<Rightarrow> int \<Rightarrow>
   ('c, 'c admission_plan) chain_op" where
  "plan_admission' sha c sid inp fp required_slots row_deficit reserved_slots rrows =
     bindE (check_admission sha c sid inp fp) (\<lambda>(st, reused).
     bindE (queryE (choose_victims c required_slots row_deficit)) (\<lambda>victims.
       retE \<lparr>plan_chain_id = c, plan_seq_id = sid, status = st, reused_tokens = reused,
             input_token_count = input_count inp, victim_chain_ids = victims,
             plan_reserved_slots = map (max 0) reserved_slots, plan_reserved_rows = max 0 rrows,
             demote_chain_ids = [], decode_reserved_slots_by_layer = []\<rparr>))"

definition plan_admission ::
  "(bytes \<Rightarrow> bytes) \<Rightarrow> 'c::linorder \<Rightarrow> int \<Rightarrow> int list \<Rightarrow> bytes \<Rightarrow> int list \<Rightarrow> int \<Rightarrow> int list \<Rightarrow> int \<Rightarrow>
   ('c, 'c admission_plan) chain_op" where
  "plan_admission sha c sid ts = plan_admission' sha c sid (Tokens ts)"

definition plan_admission_digest ::
  "(bytes \<Rightarrow> bytes) \<Rightarrow> 'c::linorder \<Rightarrow> int \<Rightarrow> int \<Rightarrow> bytes \<Rightarrow> bytes \<Rightarrow> int list \<Rightarrow> int \<Rightarrow> int list \<Rightarrow> int \<Rightarrow>
   ('c, 'c admission_plan) chain_op" where
  "plan_admission_digest sha c sid n d = plan_admission' sha c sid (Digest n d)"

definition create_record :: "'c admission_plan \<Rightarrow> bytes \<Rightarrow> ('c, nat) chain_op" where
  "create_record plan fp s =
     (let c = plan_chain_id plan
      in if map_of (records s) c \<noteq> None then (Inl ChainOwnerMismatchError, s)
         else if map_of (seq_id_to_chain_id s) (plan_seq_id plan) \<noteq> None then (Inl ChainOwnerMismatchError, s)
         else
           let s1 = tick s; a = next_record s1;
               k = \<lparr>chain_id = c, seq_id = plan_seq_id plan, fingerprint = fp, state = ACTIVE,
                    processed_token_count = 0, processed_token_digest = [], token_ids = [],
                    last_input_token_count = input_token_count plan, last_access = clock s1,
                    physical_slots_by_layer = [], capacity_slots = None, resident_rows = 1,
                    reserved_slots_by_layer = [], reserved_rows = 0\<rparr>;
               s2 = s1\<lparr>heap := (heap s1)(a := k), next_record := Suc a, records := dict_set c a (records s1)\<rparr>;
               s3 = set_record_state a ACTIVE s2;
               s4 = s3\<lparr>seq_id_to_chain_id := dict_set (plan_seq_id plan) c (seq_id_to_chain_id s3)\<rparr>;
               s5 = set_record a (\<lambda>k. k\<lparr>reserved_slots_by_layer := plan_reserved_slots plan,
                                       reserved_rows := plan_reserved_rows plan\<rparr>) s4
           in (Inr a, s5\<lparr>st_created := st_created s5 + 1\<rparr>))"

definition resume_record :: "'c admission_plan \<Rightarrow> ('c, nat) chain_op" where
  "resume_record plan s =
     (case chain_lookup (plan_chain_id plan) s of
        Inl e \<Rightarrow> (Inl e, s)
      | Inr a \<Rightarrow>
          if state (heap s a) \<noteq> IDLE then (Inl ChainBusyError, s)
          else
            let s1 = tick (set_record_state a ACTIVE s);
                s2 = set_record a (\<lambda>k. k\<lparr>last_input_token_count := input_token_count plan, last_access := clock s1,
                       reserved_slots_by_layer := plan_reserved_slots plan,
                       reserved_rows := plan_reserved_rows plan\<rparr>) s1
            in (Inr a, s2\<lparr>st_resumed := st_resumed s2 + 1\<rparr>))"

definition apply_admission :: "'c admission_plan \<Rightarrow> bytes \<Rightarrow> ('c, nat) chain_op" where
  "apply_admission plan fp =
     thenE (forE (victim_chain_ids plan) (\<lambda>c. thenE (evict c) (retE ())))
       (case status plan of Created \<Rightarrow> create_record plan fp | Resumed \<Rightarrow> resume_record plan)"

section \<open>The end of a turn\<close>

definition finish_digest ::
  "'c \<Rightarrow> bytes \<Rightarrow> int \<Rightarrow> int list \<Rightarrow> int \<Rightarrow> int list option \<Rightarrow> ('c, nat) chain_op" where
  "finish_digest c digest processed slots rows capacity s =
     (case chain_lookup c s of
        Inl e \<Rightarrow> (Inl e, s)
      | Inr a \<Rightarrow>
          if state (heap s a) \<noteq> ACTIVE then (Inl ChainOwnerMismatchError, s)
          else if processed < processed_token_count (heap s a) then (Inl ChainOwnerMismatchError, s)
          else if length digest \<noteq> 32 then (Inl ValueError, s)
          else
            let s1 = set_record a (\<lambda>k. k\<lparr>processed_token_digest := digest, processed_token_count := processed,
                       physical_slots_by_layer := slots, capacity_slots := capacity, resident_rows := rows,
                       reserved_slots_by_layer := [], reserved_rows := 0\<rparr>) s;
                s2 = tick (set_record_state a IDLE s1);
                s3 = set_record a (\<lambda>k. k\<lparr>last_access := clock s2\<rparr>) s2
            in (Inr a, s3\<lparr>st_finished := st_finished s3 + 1\<rparr>))"

definition chain_finish ::
  "(bytes \<Rightarrow> bytes) \<Rightarrow> 'c \<Rightarrow> int list \<Rightarrow> int \<Rightarrow> int list \<Rightarrow> int \<Rightarrow> int list option \<Rightarrow> ('c, nat) chain_op" where
  "chain_finish sha c ts processed slots rows capacity =
     bindE (queryE (chain_lookup c)) (\<lambda>existing.
     bindE (queryE (prepare_token_history existing ts processed)) (\<lambda>logical.
     bindE (liftE (stable_token_digest sha ts (Some processed))) (\<lambda>digest.
     bindE (finish_digest c digest processed slots rows capacity) (\<lambda>a.
     thenE (store_token_history a logical) (retE a)))))"

section \<open>Routing and statistics\<close>

text \<open>The answer of \<open>routing_match\<close>: the state of a present chain, and whether it is a tombstone.\<close>

definition chain_routing_match :: "'c \<Rightarrow> 'c chain_index \<Rightarrow> chain_state option \<times> bool" where
  "chain_routing_match c s =
     (case map_of (records s) c of
        Some a \<Rightarrow> (Some (state (heap s a)), False)
      | None \<Rightarrow> (None, c \<in> fst ` set (tombstones s)))"

definition chain_snapshot_match :: "'c chain_snapshot \<Rightarrow> 'c \<Rightarrow> chain_state option \<times> bool" where
  "chain_snapshot_match sn c =
     (if c \<in> active_chain_ids sn then (Some ACTIVE, False)
      else if c \<in> idle_chain_ids sn then (Some IDLE, False)
      else (None, c \<in> tombstone_chain_ids sn))"

definition fresh_snapshot :: "'c chain_index \<Rightarrow> 'c chain_snapshot" where
  "fresh_snapshot s =
     (let ids = (\<lambda>st. set (map (\<lambda>a. chain_id (heap s a)) (filter (\<lambda>a. state (heap s a) = st) (map snd (records s)))))
      in \<lparr>enabled = True, active_chain_ids = ids ACTIVE, idle_chain_ids = ids IDLE,
          tombstone_chain_ids = fst ` set (tombstones s)\<rparr>)"

definition chain_routing_snapshot :: "('c, 'c chain_snapshot) chain_op" where
  "chain_routing_snapshot s =
     (case routing_snapshot_cache s of
        Some sn \<Rightarrow> (Inr sn, s)
      | None \<Rightarrow> (Inr (fresh_snapshot s), s\<lparr>routing_snapshot_cache := Some (fresh_snapshot s)\<rparr>))"

definition chain_stats :: "'c chain_index \<Rightarrow> (string, int) dict" where
  "chain_stats s =
     (let history_capacity = (case max_token_history_tokens s of None \<Rightarrow> - 1 | Some m \<Rightarrow> m)
      in [(''chain_cache_created'', st_created s), (''chain_cache_resumed'', st_resumed s),
          (''chain_cache_finished'', st_finished s), (''chain_cache_evicted'', st_evicted s),
          (''chain_cache_invalidated'', st_invalidated s), (''chain_cache_prefix_mismatch'', st_prefix_mismatch s),
          (''chain_cache_busy'', st_busy s), (''chain_cache_entries'', int (length (records s))),
          (''chain_cache_active'', int (length (active_records s))),
          (''chain_cache_idle'', int (length (records s)) - int (length (active_records s))),
          (''chain_cache_tombstones'', int (length (tombstones s))),
          (''chain_cache_tombstone_capacity'', max_tombstones s),
          (''chain_cache_token_history_tokens'', token_history_tokens s),
          (''chain_cache_token_history_capacity'', history_capacity),
          (''chain_cache_token_history_bytes'', token_history_tokens s * 4),
          (''chain_cache_token_history_byte_capacity'',
             (case max_token_history_tokens s of None \<Rightarrow> - 1 | Some m \<Rightarrow> m * 4))])"

definition chain_reset :: "'c chain_index \<Rightarrow> 'c chain_index" where
  "chain_reset s = s\<lparr>routing_snapshot_cache := None, records := [], active_records := [], seq_id_to_chain_id := [],
     tombstones := [], clock := 0, token_history_tokens := 0, st_created := 0, st_resumed := 0, st_finished := 0,
     st_evicted := 0, st_invalidated := 0, st_prefix_mismatch := 0, st_busy := 0\<rparr>"

end
