(* ===== verification/Chain_Lifecycle.thy ===== *)
theory Chain_Lifecycle
  imports Chain_Index
begin

text \<open>
  The invariant of the chain index and that its operations keep it.  \<open>chain_at\<close> is the abstract view:
  the table of chain records by chain id.  Every operation changes this table at one chain, or removes
  chains from it; the lemmas \<open>changed_inv\<close> and \<open>chain_removed_inv\<close> show that the dicts, the token account
  and the snapshot cache stay in step with the table.
\<close>

section \<open>Sums over a table\<close>

definition tally :: "('v \<Rightarrow> int) \<Rightarrow> ('k \<rightharpoonup> 'v) \<Rightarrow> int" where
  "tally g m = (\<Sum>c\<in>dom m. g (the (m c)))"

lemma tally_empty [simp]: "tally g Map.empty = 0"
  by (simp add: tally_def)

lemma tally_delete:
  assumes "finite (dom m)"
  shows "tally g (m(c := None)) = tally g m - (case m c of None \<Rightarrow> 0 | Some v \<Rightarrow> g v)"
proof (cases "m c")
  case (Some v)
  have "tally g m = g (the (m c)) + (\<Sum>x\<in>dom m - {c}. g (the (m x)))"
    unfolding tally_def using Some assms by (intro sum.remove) auto
  moreover have "(\<Sum>x\<in>dom m - {c}. g (the (m x))) = tally g (m(c := None))"
    unfolding tally_def by (rule sum.cong) auto
  ultimately show ?thesis using Some by simp
qed (simp add: fun_upd_idem)

lemma tally_update:
  assumes "finite (dom m)"
  shows "tally g (m(c \<mapsto> v)) = tally g m - (case m c of None \<Rightarrow> 0 | Some v \<Rightarrow> g v) + g v"
proof -
  have "tally g (m(c \<mapsto> v)) = tally g ((m(c \<mapsto> v))(c := None)) + g v"
    using tally_delete [of "m(c \<mapsto> v)" g c] assms by simp
  also have "(m(c \<mapsto> v))(c := None) = m(c := None)" by simp
  also have "tally g (m(c := None)) = tally g m - (case m c of None \<Rightarrow> 0 | Some v \<Rightarrow> g v)" by (rule tally_delete [OF assms])
  finally show ?thesis .
qed

lemma tally_nonneg: "(\<And>v. 0 \<le> g v) \<Longrightarrow> 0 \<le> tally g m"
  by (simp add: tally_def sum_nonneg)

section \<open>The invariant\<close>

definition chain_at :: "'c chain_index \<Rightarrow> 'c \<rightharpoonup> 'c chain_record" where
  "chain_at s c = map_option (heap s) (map_of (records s) c)"

definition history_length :: "'c chain_record \<Rightarrow> int" where
  "history_length k = int (length (token_ids k))"

definition dicts_ok :: "'c chain_index \<Rightarrow> bool" where
  "dicts_ok s \<longleftrightarrow> distinct (map fst (records s)) \<and>
     (\<forall>c a. map_of (records s) c = Some a \<longrightarrow> chain_id (heap s a) = c \<and> a < next_record s) \<and>
     (\<forall>c. map_of (active_records s) c =
        (if \<exists>k. chain_at s c = Some k \<and> state k = ACTIVE then map_of (records s) c else None)) \<and>
     (\<forall>sid c. map_of (seq_id_to_chain_id s) sid = Some c \<longleftrightarrow> (\<exists>k. chain_at s c = Some k \<and> seq_id k = sid))"

definition account_ok :: "'c chain_index \<Rightarrow> bool" where
  "account_ok s \<longleftrightarrow> token_history_tokens s = tally history_length (chain_at s) \<and>
     (\<forall>m. max_token_history_tokens s = Some m \<longrightarrow> token_history_tokens s \<le> m) \<and>
     (\<forall>c k. chain_at s c = Some k \<longrightarrow> state k = IDLE \<longrightarrow> reserved_slots_by_layer k = [] \<and> reserved_rows k = 0)"

definition tombstones_ok :: "'c chain_index \<Rightarrow> bool" where
  "tombstones_ok s \<longleftrightarrow> 0 < max_tombstones s \<and> distinct (map fst (tombstones s)) \<and>
     int (length (tombstones s)) \<le> max_tombstones s"

definition snapshot_of :: "'c chain_index \<Rightarrow> 'c chain_snapshot" where
  "snapshot_of s = \<lparr>enabled = True, active_chain_ids = {c. \<exists>k. chain_at s c = Some k \<and> state k = ACTIVE},
     idle_chain_ids = {c. \<exists>k. chain_at s c = Some k \<and> state k = IDLE},
     tombstone_chain_ids = fst ` set (tombstones s)\<rparr>"

definition chain_inv :: "'c chain_index \<Rightarrow> bool" where
  "chain_inv s \<longleftrightarrow> dicts_ok s \<and> account_ok s \<and> tombstones_ok s \<and>
     (\<forall>sn. routing_snapshot_cache s = Some sn \<longrightarrow> sn = snapshot_of s)"

lemma chain_invD:
  assumes "chain_inv s"
  shows "dicts_ok s" "account_ok s" "tombstones_ok s" "\<And>sn. routing_snapshot_cache s = Some sn \<Longrightarrow> sn = snapshot_of s"
  using assms by (simp_all add: chain_inv_def)

lemma dicts_okD:
  assumes "dicts_ok s"
  shows "distinct (map fst (records s))" "\<And>c a. map_of (records s) c = Some a \<Longrightarrow> chain_id (heap s a) = c"
    "\<And>c a. map_of (records s) c = Some a \<Longrightarrow> a < next_record s"
    "\<And>c. map_of (active_records s) c =
        (if \<exists>k. chain_at s c = Some k \<and> state k = ACTIVE then map_of (records s) c else None)"
    "\<And>sid c. map_of (seq_id_to_chain_id s) sid = Some c \<longleftrightarrow> (\<exists>k. chain_at s c = Some k \<and> seq_id k = sid)"
  using assms unfolding dicts_ok_def by blast+

lemma chain_at_records: "map_of (records s) c = Some a \<Longrightarrow> chain_at s c = Some (heap s a)"
  by (simp add: chain_at_def)

lemma chain_atE:
  assumes "chain_at s c = Some k"
  obtains a where "map_of (records s) c = Some a" "heap s a = k"
  using assms by (auto simp: chain_at_def)

lemma chain_at_None [simp]: "chain_at s c = None \<longleftrightarrow> map_of (records s) c = None"
  by (simp add: chain_at_def)

lemma finite_chains: "finite (dom (chain_at s))"
proof -
  have "dom (chain_at s) = dom (map_of (records s))" by (auto simp: chain_at_def)
  then show ?thesis by (simp add: finite_dom_map_of)
qed

text \<open>Two chains never share a record object.\<close>

lemma address_unique:
  assumes "dicts_ok s" "map_of (records s) c = Some a" "map_of (records s) d = Some a"
  shows "c = d"
  using dicts_okD(2) [OF assms(1)] assms(2,3) by metis

lemma chain_at_set:
  assumes "dicts_ok s" and "map_of (records s) c = Some a" and "records t = records s" "heap t = (heap s)(a := k)"
  shows "chain_at t = (chain_at s)(c \<mapsto> k)"
proof
  fix d
  show "chain_at t d = ((chain_at s)(c \<mapsto> k)) d"
  proof (cases "d = c")
    case False
    then have "map_of (records s) d \<noteq> Some a" using address_unique [OF assms(1,2), of d] by blast
    then show ?thesis using False assms(3,4) by (cases "map_of (records s) d") (simp_all add: chain_at_def)
  qed (use assms(2-4) in \<open>simp add: chain_at_def\<close>)
qed

section \<open>Changing one record\<close>

lemma changed_inv:
  assumes inv: "chain_inv s" and c: "map_of (records s) c = Some a"
    and t: "records t = records s" "heap t = (heap s)(a := k)" "next_record t = next_record s"
      "seq_id_to_chain_id t = seq_id_to_chain_id s" "tombstones t = tombstones s" "max_tombstones t = max_tombstones s"
      "max_token_history_tokens t = max_token_history_tokens s"
    and k: "chain_id k = c" "seq_id k = seq_id (heap s a)"
      "state k = IDLE \<Longrightarrow> reserved_slots_by_layer k = [] \<and> reserved_rows k = 0"
    and act: "map_of (active_records t) = (map_of (active_records s))(c := (if state k = ACTIVE then Some a else None))"
    and hist: "token_history_tokens t = token_history_tokens s - history_length (heap s a) + history_length k"
      "\<And>m. max_token_history_tokens s = Some m \<Longrightarrow> token_history_tokens t \<le> m"
    and snap: "routing_snapshot_cache t = None \<or> routing_snapshot_cache t = routing_snapshot_cache s \<and> state k = state (heap s a)"
  shows "chain_inv t" "chain_at t = (chain_at s)(c \<mapsto> k)"
proof -
  note d = dicts_okD [OF chain_invD(1) [OF inv]]
  show at: "chain_at t = (chain_at s)(c \<mapsto> k)" by (rule chain_at_set [OF chain_invD(1) [OF inv] c t(1,2)])
  have old: "chain_at s c = Some (heap s a)" by (rule chain_at_records [OF c])
  have "chain_id (heap t b) = e \<and> b < next_record t" if "map_of (records t) e = Some b" for e b
    using that d(2,3) [of e b] k(1) address_unique [OF chain_invD(1) [OF inv] c, of e] t(1-3) by auto
  moreover have "map_of (active_records t) e =
      (if \<exists>k. chain_at t e = Some k \<and> state k = ACTIVE then map_of (records t) e else None)" for e
    unfolding act at t(1) using d(4) [of e] c by auto
  moreover have "map_of (seq_id_to_chain_id t) sid = Some e \<longleftrightarrow> (\<exists>k. chain_at t e = Some k \<and> seq_id k = sid)" for sid e
    unfolding at t(4) d(5) using old k(2) by auto
  ultimately have "dicts_ok t" using d(1) t(1) by (simp add: dicts_ok_def)
  moreover have "account_ok t"
  proof -
    have "token_history_tokens t = tally history_length (chain_at t)"
      using chain_invD(2) [OF inv] hist(1) old by (simp add: at tally_update [OF finite_chains] account_ok_def)
    then show ?thesis using chain_invD(2) [OF inv] hist(2) k(3) unfolding account_ok_def at t(7) by auto
  qed
  moreover have "tombstones_ok t" using chain_invD(3) [OF inv] t(5,6) by (simp add: tombstones_ok_def)
  moreover have "sn = snapshot_of t" if "routing_snapshot_cache t = Some sn" for sn
  proof -
    have cache: "routing_snapshot_cache s = Some sn" "state k = state (heap s a)" using that snap by auto
    have st: "(\<exists>k. chain_at t e = Some k \<and> state k = x) \<longleftrightarrow> (\<exists>k. chain_at s e = Some k \<and> state k = x)" for e x
      using old cache(2) by (simp add: at)
    then show ?thesis using chain_invD(4) [OF inv cache(1)] t(5) by (simp add: snapshot_of_def)
  qed
  ultimately show "chain_inv t" by (simp add: chain_inv_def)
qed

section \<open>Removing a chain\<close>

lemma trim_tombstones_props:
  assumes "0 \<le> m"
  shows "int (length (trim_tombstones m xs)) \<le> m" "set (trim_tombstones m xs) \<subseteq> set xs"
    "distinct (map fst xs) \<Longrightarrow> distinct (map fst (trim_tombstones m xs))"
    "\<exists>ys. xs = ys @ trim_tombstones m xs"
proof (induction xs)
  case (Cons x xs)
  { case 1 show ?case using Cons.IH(1) by simp }
  { case 2 show ?case using Cons.IH(2) by auto }
  { case 3 then show ?case using Cons.IH(3) by simp }
  { case 4 show ?case using Cons.IH(4) by (auto intro: exI [of _ "[]"] exI [of _ "x # _"]) }
qed (use assms in simp_all)

lemma add_tombstone_sel [simp]:
  "records (add_tombstone c s) = records s" "heap (add_tombstone c s) = heap s" "next_record (add_tombstone c s) = next_record s"
  "active_records (add_tombstone c s) = active_records s" "seq_id_to_chain_id (add_tombstone c s) = seq_id_to_chain_id s"
  "token_history_tokens (add_tombstone c s) = token_history_tokens s" "max_tombstones (add_tombstone c s) = max_tombstones s"
  "max_token_history_tokens (add_tombstone c s) = max_token_history_tokens s" "routing_snapshot_cache (add_tombstone c s) = None"
  by (simp_all add: add_tombstone_def tick_def Let_def)

lemma add_tombstone_ok:
  assumes "0 < max_tombstones s" and "distinct (map fst (tombstones s))"
  shows "tombstones_ok (add_tombstone c s)" "c \<in> fst ` set (tombstones (add_tombstone c s))"
proof -
  let ?ts = "dict_set c (clock s + 1) (dict_pop c (tombstones s))"
  have ts: "tombstones (add_tombstone c s) = trim_tombstones (max_tombstones s) ?ts"
    by (simp add: add_tombstone_def tick_def Let_def)
  have m: "0 \<le> max_tombstones s" using assms(1) by simp
  have "distinct (map fst ?ts)" using assms(2) by (simp add: distinct_update distinct_delete)
  then show "tombstones_ok (add_tombstone c s)"
    using trim_tombstones_props [OF m, of ?ts] assms(1) by (simp add: tombstones_ok_def ts)
  have "c \<notin> fst ` set (dict_pop c (tombstones s))" using delete_keys [of c "tombstones s"] by (metis list.set_map set_removeAll DiffD2 singletonI)
  then have app: "?ts = dict_pop c (tombstones s) @ [(c, clock s + 1)]" by (rule update_fresh)
  have "xs @ [y] \<noteq> [] \<Longrightarrow> y \<in> set (trim_tombstones (max_tombstones s) (xs @ [y]))" for xs and y :: "'a \<times> int"
    using assms(1) by (induction xs) auto
  then have "(c, clock s + 1) \<in> set (tombstones (add_tombstone c s))" unfolding ts app by blast
  then show "c \<in> fst ` set (tombstones (add_tombstone c s))" by force
qed

lemma chain_removed_inv:
  assumes inv: "chain_inv s" and c: "map_of (records s) c = Some a"
  shows "chain_inv (remove_record c a s)" "chain_at (remove_record c a s) = (chain_at s)(c := None)"
    "c \<in> fst ` set (tombstones (remove_record c a s))"
proof -
  let ?t = "remove_record c a s"
  note d = dicts_okD [OF chain_invD(1) [OF inv]]
  have old: "chain_at s c = Some (heap s a)" by (rule chain_at_records [OF c])
  have rec: "map_of (records ?t) = (map_of (records s))(c := None)"
    by (simp add: remove_record_def drop_token_history_def delete_conv' Let_def)
  have heap: "heap ?t = (heap s)(a := (heap s a)\<lparr>token_ids := []\<rparr>)"
    by (simp add: remove_record_def drop_token_history_def Let_def)
  have seq: "map_of (seq_id_to_chain_id ?t) = (map_of (seq_id_to_chain_id s))(seq_id (heap s a) := None)"
    by (simp add: remove_record_def drop_token_history_def delete_conv' Let_def)
  have act: "map_of (active_records ?t) = (map_of (active_records s))(c := None)"
    by (simp add: remove_record_def drop_token_history_def delete_conv' Let_def)
  have nxt: "next_record ?t = next_record s" by (simp add: remove_record_def drop_token_history_def Let_def)
  have other: "map_of (records s) e \<noteq> Some a" if "e \<noteq> c" for e
    using address_unique [OF chain_invD(1) [OF inv] c, of e] that by blast
  show at: "chain_at ?t = (chain_at s)(c := None)"
  proof
    fix e
    show "chain_at ?t e = ((chain_at s)(c := None)) e"
      using other [of e] by (cases "map_of (records s) e") (auto simp: chain_at_def rec heap)
  qed
  have "chain_id (heap ?t b) = e \<and> b < next_record ?t" if "map_of (records ?t) e = Some b" for e b
  proof -
    have "map_of (records s) e = Some b" "e \<noteq> c" using that by (auto simp: rec split: if_splits)
    then show ?thesis using d(2,3) [of e b] other [of e] by (auto simp: heap nxt)
  qed
  moreover have "map_of (active_records ?t) e =
      (if \<exists>k. chain_at ?t e = Some k \<and> state k = ACTIVE then map_of (records ?t) e else None)" for e
    unfolding act at rec using d(4) [of e] by auto
  moreover have "map_of (seq_id_to_chain_id ?t) sid = Some e \<longleftrightarrow> (\<exists>k. chain_at ?t e = Some k \<and> seq_id k = sid)" for sid e
  proof -
    have own: "map_of (seq_id_to_chain_id s) (seq_id (heap s a)) = Some c" using d(5) old by blast
    show ?thesis
    proof (cases "sid = seq_id (heap s a)")
      case True
      have "e = c" if "chain_at s e = Some k" "seq_id k = sid" for k
      proof -
        have "map_of (seq_id_to_chain_id s) sid = Some e" using d(5) that by blast
        then show ?thesis using own True by simp
      qed
      then show ?thesis unfolding seq at using True by auto
    next
      case False
      then have "map_of (seq_id_to_chain_id s) sid \<noteq> Some c" using d(5) [of sid c] old by simp
      then show ?thesis unfolding seq at using False d(5) [of sid e] by (cases "e = c") simp_all
    qed
  qed
  moreover have "distinct (map fst (records ?t))"
    using d(1) by (simp add: remove_record_def drop_token_history_def Let_def distinct_delete)
  ultimately have "dicts_ok ?t" by (simp add: dicts_ok_def)
  moreover have "account_ok ?t"
  proof -
    have sel: "token_history_tokens ?t = token_history_tokens s - history_length (heap s a)"
        "max_token_history_tokens ?t = max_token_history_tokens s"
      by (simp_all add: remove_record_def drop_token_history_def Let_def history_length_def)
    have "token_history_tokens ?t = tally history_length (chain_at ?t)"
      using chain_invD(2) [OF inv] old by (simp add: at sel tally_delete [OF finite_chains] account_ok_def)
    moreover have "token_history_tokens ?t \<le> token_history_tokens s" by (simp add: sel history_length_def)
    ultimately show ?thesis using chain_invD(2) [OF inv] unfolding account_ok_def at sel(2) by (auto simp: order_trans)
  qed
  moreover have "tombstones_ok ?t" and tomb: "c \<in> fst ` set (tombstones ?t)"
    unfolding remove_record_def Let_def
    by (rule add_tombstone_ok; use chain_invD(3) [OF inv] in \<open>simp add: tombstones_ok_def drop_token_history_def\<close>)+
  moreover have "routing_snapshot_cache ?t = None" by (simp add: remove_record_def Let_def)
  ultimately show "chain_inv ?t" by (simp add: chain_inv_def)
  show "c \<in> fst ` set (tombstones ?t)" by (rule tomb)
qed

section \<open>Creating a chain\<close>

lemma created_inv:
  assumes inv: "chain_inv s" and new: "map_of (records s) c = None" "map_of (seq_id_to_chain_id s) (seq_id k) = None"
    and t: "records t = dict_set c (next_record s) (records s)" "heap t = (heap s)(next_record s := k)"
      "next_record t = Suc (next_record s)" "active_records t = dict_set c (next_record s) (active_records s)"
      "seq_id_to_chain_id t = dict_set (seq_id k) c (seq_id_to_chain_id s)" "tombstones t = tombstones s"
      "max_tombstones t = max_tombstones s" "max_token_history_tokens t = max_token_history_tokens s"
      "token_history_tokens t = token_history_tokens s" "routing_snapshot_cache t = None"
    and k: "chain_id k = c" "state k = ACTIVE" "token_ids k = []"
  shows "chain_inv t" "chain_at t = (chain_at s)(c \<mapsto> k)"
proof -
  note d = dicts_okD [OF chain_invD(1) [OF inv]]
  have rec: "map_of (records t) = (map_of (records s))(c \<mapsto> next_record s)" by (simp add: t(1) update_conv')
  have fresh: "map_of (records s) e \<noteq> Some (next_record s)" for e using d(3) [of e "next_record s"] by auto
  show at: "chain_at t = (chain_at s)(c \<mapsto> k)"
  proof
    fix e
    show "chain_at t e = ((chain_at s)(c \<mapsto> k)) e"
      using fresh [of e] by (cases "map_of (records s) e") (auto simp: chain_at_def rec t(2))
  qed
  have "chain_id (heap t b) = e \<and> b < next_record t" if "map_of (records t) e = Some b" for e b
    using that d(2,3) [of e b] fresh [of e] k(1) by (auto simp: rec t(2,3) split: if_splits)
  moreover have "map_of (active_records t) e =
      (if \<exists>k. chain_at t e = Some k \<and> state k = ACTIVE then map_of (records t) e else None)" for e
    using d(4) [of e] k(2) by (cases "e = c") (auto simp: t(4) update_conv' at rec)
  moreover have "map_of (seq_id_to_chain_id t) sid = Some e \<longleftrightarrow> (\<exists>k. chain_at t e = Some k \<and> seq_id k = sid)" for sid e
  proof -
    have no: "chain_at s c = None" using new(1) by simp
    have "chain_at s e = Some k' \<Longrightarrow> seq_id k' \<noteq> seq_id k" for k' using d(5) [of "seq_id k" e] new(2) by auto
    then show ?thesis using d(5) [of sid e] d(5) [of sid c] no by (auto simp: t(5) update_conv' at)
  qed
  moreover have "distinct (map fst (records t))" using d(1) by (simp add: t(1) distinct_update)
  ultimately have "dicts_ok t" by (simp add: dicts_ok_def)
  moreover have "account_ok t"
  proof -
    have "(case chain_at s c of None \<Rightarrow> 0 | Some k \<Rightarrow> history_length k) = 0" using new(1) by (simp add: chain_at_def)
    then have "tally history_length (chain_at t) = tally history_length (chain_at s)"
      using k(3) by (simp add: at tally_update [OF finite_chains] history_length_def)
    then show ?thesis using chain_invD(2) [OF inv] k(2) by (auto simp: account_ok_def at t(8,9) split: if_splits)
  qed
  moreover have "tombstones_ok t" using chain_invD(3) [OF inv] by (simp add: tombstones_ok_def t(6,7))
  ultimately show "chain_inv t" by (simp add: chain_inv_def t(10))
qed

section \<open>The operations\<close>

lemma counters_chain [simp]:
  "chain_inv (s\<lparr>st_created := x\<rparr>) = chain_inv s" "chain_inv (s\<lparr>st_resumed := x\<rparr>) = chain_inv s"
  "chain_inv (s\<lparr>st_finished := x\<rparr>) = chain_inv s" "chain_inv (s\<lparr>st_evicted := x\<rparr>) = chain_inv s"
  "chain_inv (s\<lparr>st_invalidated := x\<rparr>) = chain_inv s" "chain_inv (s\<lparr>st_prefix_mismatch := x\<rparr>) = chain_inv s"
  "chain_inv (s\<lparr>st_busy := x\<rparr>) = chain_inv s"
  "chain_at (s\<lparr>st_evicted := x\<rparr>) = chain_at s" "chain_at (s\<lparr>st_invalidated := x\<rparr>) = chain_at s"
  "chain_at (s\<lparr>st_prefix_mismatch := x\<rparr>) = chain_at s" "chain_at (s\<lparr>st_busy := x\<rparr>) = chain_at s"
  by (simp_all add: chain_inv_def dicts_ok_def account_ok_def tombstones_ok_def snapshot_of_def chain_at_def [abs_def] cong: if_cong)

lemma chain_lookup_eq:
  "chain_lookup c s = Inr a \<longleftrightarrow> map_of (records s) c = Some a"
  "chain_at s c = Some k \<Longrightarrow> \<exists>a. chain_lookup c s = Inr a \<and> heap s a = k \<and> map_of (records s) c = Some a"
  by (auto simp: chain_lookup_def chain_at_def split: option.split if_splits)

lemma evict_ok:
  assumes "chain_inv s" and "chain_at s c = Some k" "state k = IDLE"
  shows "\<exists>a t. evict c s = (Inr a, t) \<and> chain_inv t \<and> chain_at t = (chain_at s)(c := None) \<and> c \<in> fst ` set (tombstones t)"
proof -
  obtain a where a: "chain_lookup c s = Inr a" "heap s a = k" "map_of (records s) c = Some a"
    using chain_lookup_eq(2) [OF assms(2)] by blast
  then show ?thesis using chain_removed_inv [OF assms(1) a(3)] assms(3) by (simp add: evict_def)
qed

lemma chain_evict_keeps: "keeps chain_inv (evict c)" and invalidate_keeps: "keeps chain_inv (invalidate c)"
  using chain_removed_inv(1)
  by (auto simp: keeps_def evict_def invalidate_def chain_lookup_def split: option.splits)

lemma check_admission_keeps: "keeps chain_inv (check_admission sha c sid inp fp)"
  by (auto simp: keeps_def check_admission_def Let_def split: option.split sum.split)

lemma plan_admission_keeps: "keeps chain_inv (plan_admission' sha c sid inp fp slots rows rslots rrows)"
proof -
  have "keeps chain_inv (queryE q)" for q :: "'a chain_index \<Rightarrow> 'a list result" by (simp add: keeps_def eff_simps)
  then show ?thesis
    unfolding plan_admission'_def by (intro keeps_bindE check_admission_keeps) (auto intro!: keeps_bindE keeps_pure split: prod.split)
qed

lemma create_record_ok:
  assumes inv: "chain_inv s" and new: "chain_at s (plan_chain_id plan) = None"
    "map_of (seq_id_to_chain_id s) (plan_seq_id plan) = None"
  shows "\<exists>a t k. create_record plan fp s = (Inr a, t) \<and> chain_inv t \<and> map_of (records t) (plan_chain_id plan) = Some a \<and> heap t a = k \<and> resident_rows k = 1 \<and>
    chain_at t = (chain_at s)(plan_chain_id plan \<mapsto> k) \<and> state k = ACTIVE \<and> seq_id k = plan_seq_id plan \<and>
    fingerprint k = fp \<and> processed_token_count k = 0 \<and>
    reserved_slots_by_layer k = plan_reserved_slots plan \<and> reserved_rows k = plan_reserved_rows plan \<and> tombstones t = tombstones s"
proof -
  let ?c = "plan_chain_id plan"
  define k where "k = \<lparr>chain_id = ?c, seq_id = plan_seq_id plan, fingerprint = fp, state = ACTIVE,
    processed_token_count = 0, processed_token_digest = [], token_ids = [],
    last_input_token_count = input_token_count plan, last_access = clock s + 1,
    physical_slots_by_layer = [], capacity_slots = None, resident_rows = 1,
    reserved_slots_by_layer = plan_reserved_slots plan, reserved_rows = plan_reserved_rows plan\<rparr>"
  define t where "t = snd (create_record plan fp s)"
  have run: "create_record plan fp s = (Inr (next_record s), t)" "heap t = (heap s)(next_record s := k)"
    "records t = dict_set ?c (next_record s) (records s)" "next_record t = Suc (next_record s)"
    "active_records t = dict_set ?c (next_record s) (active_records s)"
    "seq_id_to_chain_id t = dict_set (seq_id k) ?c (seq_id_to_chain_id s)"
    "tombstones t = tombstones s" "max_tombstones t = max_tombstones s"
    "max_token_history_tokens t = max_token_history_tokens s" "token_history_tokens t = token_history_tokens s"
    "routing_snapshot_cache t = None"
    using new by (simp_all add: t_def create_record_def set_record_state_def tick_def Let_def k_def)
  have "chain_inv t" "chain_at t = (chain_at s)(?c \<mapsto> k)"
    by (rule created_inv [OF inv _ _ run(3,2,4-6) run(7-11)]; use new in \<open>simp add: k_def\<close>)+
  then show ?thesis using run(1-3,7) by (intro exI [of _ "next_record s"] exI [of _ t] exI [of _ k]) (simp add: k_def update_conv')
qed

lemma create_record_keeps: "keeps chain_inv (create_record plan fp)"
  unfolding keeps_def
proof (intro allI impI)
  fix s :: "'a chain_index"
  assume inv: "chain_inv s"
  show "chain_inv (snd (create_record plan fp s))"
  proof (cases "chain_at s (plan_chain_id plan) = None \<and> map_of (seq_id_to_chain_id s) (plan_seq_id plan) = None")
    case True
    then show ?thesis using create_record_ok [OF inv, of plan fp] by auto
  next
    case False
    then show ?thesis using inv by (auto simp: create_record_def Let_def)
  qed
qed

lemma resume_record_ok:
  assumes inv: "chain_inv s" and old: "chain_at s (plan_chain_id plan) = Some k" "state k = IDLE"
  shows "\<exists>a t. resume_record plan s = (Inr a, t) \<and> chain_inv t \<and> map_of (records t) (plan_chain_id plan) = Some a \<and> tombstones t = tombstones s \<and>
    heap t a = k\<lparr>state := ACTIVE, last_input_token_count := input_token_count plan, last_access := clock s + 1,
       reserved_slots_by_layer := plan_reserved_slots plan, reserved_rows := plan_reserved_rows plan\<rparr> \<and>
    chain_at t = (chain_at s)(plan_chain_id plan \<mapsto> heap t a)"
proof -
  let ?c = "plan_chain_id plan"
  define k' where "k' = k\<lparr>state := ACTIVE, last_input_token_count := input_token_count plan, last_access := clock s + 1,
       reserved_slots_by_layer := plan_reserved_slots plan, reserved_rows := plan_reserved_rows plan\<rparr>"
  obtain a where a: "chain_lookup ?c s = Inr a" "heap s a = k" "map_of (records s) ?c = Some a"
    using chain_lookup_eq(2) [OF old(1)] by blast
  have id: "chain_id k = ?c" using dicts_okD(2) [OF chain_invD(1) [OF inv] a(3)] a(2) by simp
  define t where "t = snd (resume_record plan s)"
  have run: "resume_record plan s = (Inr a, t)" "records t = records s" "heap t = (heap s)(a := k')" "next_record t = next_record s"
      "seq_id_to_chain_id t = seq_id_to_chain_id s" "tombstones t = tombstones s" "max_tombstones t = max_tombstones s"
      "max_token_history_tokens t = max_token_history_tokens s" "token_history_tokens t = token_history_tokens s"
      "active_records t = dict_set ?c a (active_records s)" "routing_snapshot_cache t = None"
    using a(1,2) old(2) id by (simp_all add: t_def resume_record_def set_record_state_def tick_def Let_def k'_def)
  have m: "token_history_tokens t \<le> m" if "max_token_history_tokens s = Some m" for m
    using chain_invD(2) [OF inv] that by (simp add: account_ok_def run(9))
  have "chain_inv t" "chain_at t = (chain_at s)(?c \<mapsto> k')"
    by (rule changed_inv [OF inv a(3) run(2-8)]; (rule m)?;
      use id a(2) run(9-11) in \<open>simp add: k'_def update_conv' history_length_def fun_upd_def\<close>)+
  then show ?thesis using run(1-3,6) a(3) by (intro exI [of _ a] exI [of _ t]) (simp add: k'_def)
qed

lemma resume_record_keeps: "keeps chain_inv (resume_record plan)"
  unfolding keeps_def
proof (intro allI impI)
  fix s :: "'a chain_index"
  assume inv: "chain_inv s"
  show "chain_inv (snd (resume_record plan s))"
  proof (cases "\<exists>k. chain_at s (plan_chain_id plan) = Some k \<and> state k = IDLE")
    case True
    then show ?thesis using resume_record_ok [OF inv, of plan] by auto
  next
    case False
    then show ?thesis using inv by (auto simp: resume_record_def chain_lookup_def chain_at_def split: option.split)
  qed
qed

lemma apply_admission_keeps: "keeps chain_inv (apply_admission plan fp)"
  unfolding apply_admission_def
  by (cases "status plan") (auto intro!: keeps_thenE keeps_forE chain_evict_keeps keeps_pure create_record_keeps resume_record_keeps)

lemma finish_digest_ok:
  assumes inv: "chain_inv s" and old: "chain_at s c = Some k" "state k = ACTIVE" "processed_token_count k \<le> n" "length dg = 32"
  shows "\<exists>a t. finish_digest c dg n slots rows cap s = (Inr a, t) \<and> chain_inv t \<and> map_of (records t) c = Some a \<and>
    heap t a = k\<lparr>processed_token_digest := dg, processed_token_count := n, physical_slots_by_layer := slots,
       capacity_slots := cap, resident_rows := rows, reserved_slots_by_layer := [], reserved_rows := 0, state := IDLE, last_access := clock s + 1\<rparr> \<and>
    chain_at t = (chain_at s)(c \<mapsto> heap t a) \<and> tombstones t = tombstones s \<and>
    token_history_tokens t = token_history_tokens s \<and> max_token_history_tokens t = max_token_history_tokens s"
proof -
  define k' where "k' = k\<lparr>processed_token_digest := dg, processed_token_count := n, physical_slots_by_layer := slots,
       capacity_slots := cap, resident_rows := rows, reserved_slots_by_layer := [], reserved_rows := 0, state := IDLE, last_access := clock s + 1\<rparr>"
  obtain a where a: "chain_lookup c s = Inr a" "heap s a = k" "map_of (records s) c = Some a"
    using chain_lookup_eq(2) [OF old(1)] by blast
  have id: "chain_id k = c" using dicts_okD(2) [OF chain_invD(1) [OF inv] a(3)] a(2) by simp
  define t where "t = snd (finish_digest c dg n slots rows cap s)"
  have run: "finish_digest c dg n slots rows cap s = (Inr a, t)" "records t = records s" "heap t = (heap s)(a := k')"
      "next_record t = next_record s" "seq_id_to_chain_id t = seq_id_to_chain_id s" "tombstones t = tombstones s"
      "max_tombstones t = max_tombstones s" "max_token_history_tokens t = max_token_history_tokens s"
      "token_history_tokens t = token_history_tokens s" "active_records t = dict_pop c (active_records s)" "routing_snapshot_cache t = None"
    using a(1,2) old(2-4) id by (simp_all add: t_def finish_digest_def set_record_state_def tick_def Let_def k'_def)
  have m: "token_history_tokens t \<le> m" if "max_token_history_tokens s = Some m" for m
    using chain_invD(2) [OF inv] that by (simp add: account_ok_def run(9))
  have "chain_inv t" "chain_at t = (chain_at s)(c \<mapsto> k')"
    by (rule changed_inv [OF inv a(3) run(2-8)]; (rule m)?;
      use id a(2) run(9-11) in \<open>simp add: k'_def delete_conv' history_length_def fun_upd_def\<close>)+
  then show ?thesis using run(1-3,6,8,9) a(3) by (intro exI [of _ a] exI [of _ t]) (simp add: k'_def)
qed

lemma finish_digest_keeps: "keeps chain_inv (finish_digest c dg n slots rows cap)"
  unfolding keeps_def
proof (intro allI impI)
  fix s :: "'a chain_index"
  assume inv: "chain_inv s"
  show "chain_inv (snd (finish_digest c dg n slots rows cap s))"
  proof (cases "\<exists>k. chain_at s c = Some k \<and> state k = ACTIVE \<and> processed_token_count k \<le> n \<and> length dg = 32")
    case True
    then show ?thesis using finish_digest_ok [OF inv, of c _ n dg slots rows cap] by auto
  next
    case False
    then show ?thesis using inv by (auto simp: finish_digest_def chain_lookup_def chain_at_def not_less split: option.split)
  qed
qed

lemma store_history_ok:
  assumes inv: "chain_inv s" and c: "map_of (records s) c = Some a"
    and fits: "check_token_history_capacity a (int (length ts)) s = Inr ()"
  shows "\<exists>t. store_token_history a ts s = (Inr (), t) \<and> chain_inv t \<and> heap t a = (heap s a)\<lparr>token_ids := ts\<rparr> \<and>
    chain_at t = (chain_at s)(c \<mapsto> (heap s a)\<lparr>token_ids := ts\<rparr>) \<and> tombstones t = tombstones s"
proof -
  let ?k = "(heap s a)\<lparr>token_ids := ts\<rparr>"
  define t where "t = snd (store_token_history a ts s)"
  have run: "store_token_history a ts s = (Inr (), t)" "records t = records s" "heap t = (heap s)(a := ?k)"
      "next_record t = next_record s" "seq_id_to_chain_id t = seq_id_to_chain_id s" "tombstones t = tombstones s"
      "max_tombstones t = max_tombstones s" "max_token_history_tokens t = max_token_history_tokens s"
      "token_history_tokens t = token_history_tokens s - history_length (heap s a) + history_length ?k"
      "active_records t = active_records s" "routing_snapshot_cache t = routing_snapshot_cache s"
    using fits by (simp_all add: t_def store_token_history_def history_length_def)
  have id: "chain_id (heap s a) = c" by (rule dicts_okD(2) [OF chain_invD(1) [OF inv] c])
  have m: "token_history_tokens t \<le> m" if "max_token_history_tokens s = Some m" for m
    using fits that by (simp add: check_token_history_capacity_def run(9) history_length_def Let_def split: if_splits)
  have idle: "state (heap s a) = IDLE \<Longrightarrow> reserved_slots_by_layer (heap s a) = [] \<and> reserved_rows (heap s a) = 0"
    using chain_invD(2) [OF inv] chain_at_records [OF c] unfolding account_ok_def by blast
  have act: "map_of (active_records t) = (map_of (active_records s))(c := (if state ?k = ACTIVE then Some a else None))"
    using dicts_okD(4) [OF chain_invD(1) [OF inv], of c] chain_at_records [OF c] c by (auto simp: run(10) fun_eq_iff)
  have "chain_inv t" "chain_at t = (chain_at s)(c \<mapsto> ?k)"
    by (rule changed_inv [OF inv c run(2-8) _ _ _ act run(9)]; (rule m)?; use id idle run(11) in simp)+
  then show ?thesis using run(1,3,6) by auto
qed

lemma store_history_keeps:
  assumes "chain_inv s" and "map_of (records s) c = Some a"
  shows "chain_inv (snd (store_token_history a ts s))"
proof (cases "check_token_history_capacity a (int (length ts)) s")
  case (Inr u)
  then show ?thesis using store_history_ok [OF assms, of ts] by auto
qed (use assms(1) in \<open>simp add: store_token_history_def\<close>)

lemma chain_finish_keeps: "keeps chain_inv (chain_finish sha c ts n slots rows cap)"
  unfolding keeps_def
proof (intro allI impI)
  fix s :: "'a chain_index"
  assume inv: "chain_inv s"
  have "chain_inv (snd (bindE (finish_digest c dg n slots rows cap) (\<lambda>a. thenE (store_token_history a ls) (retE a)) s))" for dg ls
  proof (cases "finish_digest c dg n slots rows cap s")
    case (Pair r t)
    have t: "chain_inv t" using keepsD [OF finish_digest_keeps inv Pair] .
    show ?thesis
    proof (cases r)
      case (Inr a)
      then have k: "\<exists>k. chain_at s c = Some k \<and> state k = ACTIVE \<and> processed_token_count k \<le> n \<and> length dg = 32"
        using Pair by (auto simp: finish_digest_def chain_lookup_def chain_at_def split: option.splits if_splits)
      then have "map_of (records t) c = Some a"
        using finish_digest_ok [OF inv, of c _ n dg slots rows cap] Pair Inr by auto
      from store_history_keeps [OF t this, of ls] show ?thesis
        using Pair Inr by (auto simp: eff_simps split: prod.splits sum.splits)
    qed (use Pair t in \<open>simp add: eff_simps\<close>)
  qed
  then show "chain_inv (snd (chain_finish sha c ts n slots rows cap s))"
    using inv by (auto simp: chain_finish_def eff_simps split: sum.split)
qed

lemma fresh_snapshot_eq:
  assumes "dicts_ok s"
  shows "fresh_snapshot s = snapshot_of s"
proof -
  note d = dicts_okD [OF assms]
  have "set (map (\<lambda>a. chain_id (heap s a)) (filter (\<lambda>a. state (heap s a) = st) (map snd (records s)))) =
      {c. \<exists>k. chain_at s c = Some k \<and> state k = st}" for st
  proof (intro equalityI subsetI)
    fix c
    assume "c \<in> set (map (\<lambda>a. chain_id (heap s a)) (filter (\<lambda>a. state (heap s a) = st) (map snd (records s))))"
    then obtain e a where "(e, a) \<in> set (records s)" "c = chain_id (heap s a)" "state (heap s a) = st" by auto
    moreover from this have "map_of (records s) e = Some a" using d(1) by simp
    ultimately show "c \<in> {c. \<exists>k. chain_at s c = Some k \<and> state k = st}" using d(2) [of e a] by (auto simp: chain_at_def)
  next
    fix c
    assume "c \<in> {c. \<exists>k. chain_at s c = Some k \<and> state k = st}"
    then obtain a where "map_of (records s) c = Some a" "state (heap s a) = st" by (auto simp: chain_at_def)
    then show "c \<in> set (map (\<lambda>a. chain_id (heap s a)) (filter (\<lambda>a. state (heap s a) = st) (map snd (records s))))"
      using d(2) [of c a] map_of_SomeD [of "records s" c a] by force
  qed
  then show ?thesis by (simp add: fresh_snapshot_def snapshot_of_def Let_def)
qed

lemma snapshot_cache_sel [simp]:
  "chain_at (s\<lparr>routing_snapshot_cache := x\<rparr>) = chain_at s" "dicts_ok (s\<lparr>routing_snapshot_cache := x\<rparr>) = dicts_ok s"
  "account_ok (s\<lparr>routing_snapshot_cache := x\<rparr>) = account_ok s" "tombstones_ok (s\<lparr>routing_snapshot_cache := x\<rparr>) = tombstones_ok s"
  "snapshot_of (s\<lparr>routing_snapshot_cache := x\<rparr>) = snapshot_of s"
  by (simp_all add: dicts_ok_def account_ok_def tombstones_ok_def snapshot_of_def chain_at_def [abs_def] cong: if_cong)

lemma routing_snapshot_ok:
  assumes "chain_inv s"
  shows "\<exists>t. chain_routing_snapshot s = (Inr (snapshot_of s), t) \<and> chain_inv t \<and> chain_at t = chain_at s"
proof (cases "routing_snapshot_cache s")
  case None
  let ?t = "s\<lparr>routing_snapshot_cache := Some (snapshot_of s)\<rparr>"
  have "chain_inv ?t" using chain_invD(1-3) [OF assms] by (simp add: chain_inv_def)
  then show ?thesis using None fresh_snapshot_eq [OF chain_invD(1) [OF assms]] by (simp add: chain_routing_snapshot_def)
next
  case (Some sn)
  then show ?thesis using assms chain_invD(4) [OF assms Some] by (simp add: chain_routing_snapshot_def)
qed

lemma empty_chains_inv:
  assumes "records s = []" "active_records s = []" "seq_id_to_chain_id s = []" "tombstones s = []" "routing_snapshot_cache s = None"
    "token_history_tokens s = 0" "0 < max_tombstones s" "\<And>m. max_token_history_tokens s = Some m \<Longrightarrow> 0 \<le> m"
  shows "chain_inv s"
proof -
  have "chain_at s = Map.empty" by (simp add: fun_eq_iff chain_at_def assms(1))
  then show ?thesis using assms by (simp add: chain_inv_def dicts_ok_def account_ok_def tombstones_ok_def)
qed

lemma init_inv: "ChainCacheIndex junk mt mh = Inr s \<Longrightarrow> chain_inv s"
  by (rule empty_chains_inv) (auto simp: ChainCacheIndex_def split: if_splits option.splits)

lemma reset_inv: "chain_inv s \<Longrightarrow> chain_inv (chain_reset s)"
proof -
  assume inv: "chain_inv s"
  have "0 \<le> tally history_length (chain_at s)" by (rule tally_nonneg) (simp add: history_length_def)
  then have "0 \<le> m" if "max_token_history_tokens s = Some m" for m
    using chain_invD(2) [OF inv] that by (fastforce simp: account_ok_def)
  then show "chain_inv (chain_reset s)"
    using chain_invD(3) [OF inv] by (intro empty_chains_inv) (auto simp: chain_reset_def tombstones_ok_def)
qed

end
