(* ===== verification/Chain_Offload.thy ===== *)
theory Chain_Offload
  imports Chain_Lifecycle
begin

text \<open>
  \<open>engine/cache_manager/chain_offload.py\<close>, \<open>ChainOffloadController\<close>: the host copies of finished
  chains, their byte account and the queue of copies in flight.

  The cache manager and the device runtime are code of other components: \<open>'m\<close> is their state and
  \<open>chain_manager\<close> the calls that the chain cache makes, as \<open>chain_contract.py\<close> lists them.  Tensors are
  left out: a snapshot keeps its layers with their lengths and its size.  An entry of \<open>_pending\<close> is the
  object that \<open>snapshots\<close> has under the same key, since \<open>save\<close> sets both and both are removed together;
  \<open>pending\<close> is the list of these keys, oldest first.
\<close>

section \<open>What is called\<close>

record 'm chain_manager =
  kv_transformer_layer_indices :: "nat list"
  token_bytes :: "nat list"
  chain_capacity_deficits ::
    "(int \<Rightarrow> int \<Rightarrow> int list \<Rightarrow> int list \<Rightarrow> int \<Rightarrow> bool \<Rightarrow> 'm \<Rightarrow> (int list \<times> int \<times> int list \<times> int) result) option"
  chain_has_residency :: "(int \<Rightarrow> 'm \<Rightarrow> bool) option"
  chain_physical_residency :: "(int \<Rightarrow> 'm \<Rightarrow> nat list result) option"
  chain_capacity_residency :: "(int \<Rightarrow> 'm \<Rightarrow> int list result) option"
  chain_capacity_keys :: "string list option"
  snapshot_chain_method_state :: "int \<Rightarrow> 'm \<Rightarrow> nat result"
  allocate_chain_restore :: "int \<Rightarrow> nat list \<Rightarrow> ('m, unit) eff"
  copy_to_host :: "int \<Rightarrow> 'm \<Rightarrow> unit result"
  copy_to_device :: "int \<Rightarrow> ('m, unit) eff"
  stream_capturing :: "'m \<Rightarrow> bool"
  event_complete :: "nat \<Rightarrow> 'm \<Rightarrow> bool"
  new_event :: "'m \<Rightarrow> nat"
  manager_free_seq :: "int \<Rightarrow> ('m, unit) eff"
  free_seq_payload :: "int \<Rightarrow> ('m, unit) eff"
  on_chain_turn_finished :: "int \<Rightarrow> int \<Rightarrow> ('m, unit) eff"
  release_reservation :: "int \<Rightarrow> 'm \<Rightarrow> 'm"
  discard_resident :: "int \<Rightarrow> 'm \<Rightarrow> 'm"
  add_resident :: "int \<Rightarrow> 'm \<Rightarrow> 'm"
  decode_outstanding :: "('m \<Rightarrow> (string, int) dict) option"
  is_resident_seq :: "int \<Rightarrow> 'm \<Rightarrow> bool"
  reset_reservations :: "('m, unit) eff"
  reset_caches :: "('m, unit) eff"

section \<open>Host snapshots\<close>

record host_snapshot =
  kv :: "(nat, nat) dict"
  nbytes :: nat
  valid :: bool
  completion :: "nat option"

record chain_offload =
  capacity_bytes :: int
  snapshots :: "(int, host_snapshot) dict"
  pending :: "int list"
  used_bytes :: int
  d2h_bytes :: int
  h2d_bytes :: int

text \<open>The byte budget check of \<open>__init__\<close>; the checks of the device and of the tensors are left out.\<close>

definition ChainOffloadController :: "int \<Rightarrow> chain_offload result" where
  "ChainOffloadController capacity =
     (if capacity \<le> 0 then Inl ValueError
      else Inr \<lparr>capacity_bytes = capacity, snapshots = [], pending = [], used_bytes = 0, d2h_bytes = 0, h2d_bytes = 0\<rparr>)"

definition required_bytes :: "'m chain_manager \<Rightarrow> nat list \<Rightarrow> nat \<Rightarrow> nat" where
  "required_bytes H lengths state_bytes =
     state_bytes + sum_list (map (\<lambda>(n, b). n * b) (zip lengths (token_bytes H)))"

definition residency_lengths :: "'m chain_manager \<Rightarrow> int \<Rightarrow> 'm \<Rightarrow> nat list result" where
  "residency_lengths H sid m =
     (case chain_physical_residency H of None \<Rightarrow> Inl AttributeError | Some f \<Rightarrow> f sid m)"

definition wait :: "int \<Rightarrow> (chain_offload, host_snapshot) eff" where
  "wait sid s =
     (case map_of (snapshots s) sid of
        None \<Rightarrow> (Inl KeyError, s)
      | Some sn \<Rightarrow>
          if completion sn = None then (Inr sn, s)
          else if sid \<notin> set (pending s) then (Inl KeyError, s)
          else
            let sn' = sn\<lparr>completion := None, valid := True\<rparr>
            in (Inr sn', s\<lparr>pending := removeAll sid (pending s), snapshots := dict_set sid sn' (snapshots s)\<rparr>))"

fun poll_loop :: "(nat \<Rightarrow> bool) \<Rightarrow> int list \<Rightarrow> chain_offload \<Rightarrow> chain_offload" where
  "poll_loop is_done [] s = s"
| "poll_loop is_done (sid # rest) s =
     (case map_of (snapshots s) sid of
        None \<Rightarrow> s
      | Some sn \<Rightarrow>
          (case completion sn of
             None \<Rightarrow> s
           | Some ev \<Rightarrow>
               if \<not> is_done ev then s
               else poll_loop is_done rest
                 (s\<lparr>pending := rest, snapshots := dict_set sid (sn\<lparr>completion := None, valid := True\<rparr>) (snapshots s)\<rparr>)))"

definition poll :: "(nat \<Rightarrow> bool) \<Rightarrow> chain_offload \<Rightarrow> chain_offload" where
  "poll is_done s = poll_loop is_done (pending s) s"

definition offload_invalidate :: "int \<Rightarrow> (chain_offload, unit) eff" where
  "offload_invalidate sid s =
     (if map_of (snapshots s) sid = None then (Inr (), s)
      else bindE (wait sid) (\<lambda>sn. modifyE (\<lambda>s. s\<lparr>snapshots := dict_set sid (sn\<lparr>valid := False\<rparr>) (snapshots s)\<rparr>)) s)"

definition drop_snapshot :: "int \<Rightarrow> (chain_offload, unit) eff" where
  "drop_snapshot sid s =
     (if map_of (snapshots s) sid = None then (Inr (), s)
      else bindE (wait sid) (\<lambda>sn. modifyE (\<lambda>s. s\<lparr>used_bytes := used_bytes s - int (nbytes sn),
             snapshots := dict_pop sid (snapshots s)\<rparr>)) s)"

text \<open>Whether the buffers of the old snapshot are reused does not change the snapshot, and is left out.\<close>

definition save :: "'m chain_manager \<Rightarrow> 'm \<Rightarrow> int \<Rightarrow> nat \<Rightarrow> (chain_offload, unit) eff" where
  "save H m sid state_bytes =
     (if stream_capturing H m then raiseE RuntimeError
      else thenE (modifyE (poll (\<lambda>ev. event_complete H ev m)))
        (bindE (liftE (residency_lengths H sid m)) (\<lambda>lengths.
         let n = required_bytes H lengths state_bytes
         in bindE (getE (\<lambda>s. used_bytes s - (case map_of (snapshots s) sid of None \<Rightarrow> 0 | Some old \<Rightarrow> int (nbytes old))
                             + int n > capacity_bytes s)) (\<lambda>over.
            if over then raiseE RuntimeError
            else thenE (drop_snapshot sid)
              (thenE (liftE (copy_to_host H sid m))
                (modifyE (\<lambda>s. s\<lparr>snapshots := dict_set sid
                     \<lparr>kv = dict_comp (zip (kv_transformer_layer_indices H) lengths), nbytes = n, valid = False,
                      completion = Some (new_event H m)\<rparr> (snapshots s),
                   pending := removeAll sid (pending s) @ [sid],
                   used_bytes := used_bytes s + int n, d2h_bytes := d2h_bytes s + int n\<rparr>)))))))"

text \<open>\<open>restore\<close> on the pair of the controller and the manager's state.\<close>

definition restore :: "'m chain_manager \<Rightarrow> int \<Rightarrow> (chain_offload \<times> 'm, unit) eff" where
  "restore H sid s =
     (case s of (ofl, m) \<Rightarrow>
        if stream_capturing H m then (Inl RuntimeError, s)
        else case wait sid ofl of
          (Inl e, ofl1) \<Rightarrow> (Inl e, (ofl1, m))
        | (Inr sn, ofl1) \<Rightarrow>
            if \<not> valid sn then (Inl RuntimeError, (ofl1, m))
            else case chain_has_residency H of
              None \<Rightarrow> (Inl AttributeError, (ofl1, m))
            | Some has \<Rightarrow>
                if has sid m then (Inl RuntimeError, (ofl1, m))
                else if set (map fst (kv sn)) \<noteq> set (kv_transformer_layer_indices H) then (Inl RuntimeError, (ofl1, m))
                else case allocate_chain_restore H sid
                    (map (\<lambda>l. dict_get (kv sn) l 0) (kv_transformer_layer_indices H)) m of
                  (Inl e, m1) \<Rightarrow> (Inl e, (ofl1, m1))
                | (Inr _, m1) \<Rightarrow>
                    (case copy_to_device H sid m1 of
                       (Inl e, m2) \<Rightarrow>
                         (case manager_free_seq H sid m2 of (Inl e', m3) \<Rightarrow> (Inl e', (ofl1, m3)) | (Inr _, m3) \<Rightarrow> (Inl e, (ofl1, m3)))
                     | (Inr _, m2) \<Rightarrow> (Inr (), (ofl1\<lparr>h2d_bytes := h2d_bytes ofl1 + int (nbytes sn)\<rparr>, m2))))"

definition offload_reset :: "(chain_offload, unit) eff" where
  "offload_reset s =
     thenE (forE (map fst (snapshots s)) drop_snapshot) (modifyE (\<lambda>s. s\<lparr>d2h_bytes := 0, h2d_bytes := 0\<rparr>)) s"

section \<open>The host account\<close>

definition host_ok :: "chain_offload \<Rightarrow> bool" where
  "host_ok s \<longleftrightarrow> 0 < capacity_bytes s \<and> used_bytes s \<le> capacity_bytes s \<and>
     used_bytes s = tally (\<lambda>sn. int (nbytes sn)) (map_of (snapshots s)) \<and> distinct (pending s) \<and>
     (\<forall>sid. sid \<in> set (pending s) \<longleftrightarrow> (\<exists>sn. map_of (snapshots s) sid = Some sn \<and> completion sn \<noteq> None))"

definition restorable :: "chain_offload \<Rightarrow> int \<Rightarrow> bool" where
  "restorable s sid \<longleftrightarrow> (\<exists>sn. map_of (snapshots s) sid = Some sn \<and> (valid sn \<or> completion sn \<noteq> None))"

lemma host_okD:
  assumes "host_ok s"
  shows "0 < capacity_bytes s" "used_bytes s \<le> capacity_bytes s"
    "used_bytes s = tally (\<lambda>sn. int (nbytes sn)) (map_of (snapshots s))" "distinct (pending s)"
    "\<And>sid. sid \<in> set (pending s) \<longleftrightarrow> (\<exists>sn. map_of (snapshots s) sid = Some sn \<and> completion sn \<noteq> None)"
  using assms by (simp_all add: host_ok_def)

text \<open>A snapshot that changes its flags, but not its size.\<close>

lemma reflag_ok:
  assumes ok: "host_ok s" and sn: "map_of (snapshots s) sid = Some sn"
    and t: "snapshots t = dict_set sid sn' (snapshots s)" "capacity_bytes t = capacity_bytes s" "used_bytes t = used_bytes s"
      "pending t = (if completion sn' = None then removeAll sid (pending s) else pending s)"
    and sn': "nbytes sn' = nbytes sn" "completion sn' \<noteq> None \<Longrightarrow> completion sn \<noteq> None"
  shows "host_ok t"
proof -
  note h = host_okD [OF ok]
  have m: "map_of (snapshots t) = (map_of (snapshots s))(sid \<mapsto> sn')" by (simp add: t(1) update_conv')
  have "used_bytes t = tally (\<lambda>sn. int (nbytes sn)) (map_of (snapshots t))"
    using h(3) sn sn'(1) by (simp add: m t(3) tally_update finite_dom_map_of)
  moreover have "x \<in> set (pending t) \<longleftrightarrow> (\<exists>sn. map_of (snapshots t) x = Some sn \<and> completion sn \<noteq> None)" for x
    unfolding m t(4) using h(5) [of x] h(5) [of sid] sn sn'(2) by auto
  ultimately show ?thesis using h(1,2,4) by (simp add: host_ok_def t distinct_removeAll)
qed

lemma wait_ok:
  assumes ok: "host_ok s" and sn: "map_of (snapshots s) sid = Some sn"
  shows "\<exists>sn' t. wait sid s = (Inr sn', t) \<and> host_ok t \<and> map_of (snapshots t) = (map_of (snapshots s))(sid \<mapsto> sn') \<and>
    completion sn' = None \<and> (valid sn' \<longleftrightarrow> valid sn \<or> completion sn \<noteq> None) \<and> nbytes sn' = nbytes sn \<and> kv sn' = kv sn \<and>
    capacity_bytes t = capacity_bytes s \<and> used_bytes t = used_bytes s \<and> d2h_bytes t = d2h_bytes s \<and> h2d_bytes t = h2d_bytes s"
proof (cases "completion sn = None")
  case True
  then show ?thesis using ok sn by (auto simp: wait_def fun_upd_idem)
next
  case False
  then have p: "sid \<in> set (pending s)" using host_okD(5) [OF ok] sn by blast
  let ?sn = "sn\<lparr>completion := None, valid := True\<rparr>"
  let ?t = "s\<lparr>pending := removeAll sid (pending s), snapshots := dict_set sid ?sn (snapshots s)\<rparr>"
  have "host_ok ?t" by (rule reflag_ok [OF ok sn, of _ ?sn]) simp_all
  moreover have "wait sid s = (Inr ?sn, ?t)" using False p sn by (auto simp: wait_def Let_def)
  ultimately show ?thesis using False by (simp add: update_conv')
qed

lemma wait_missing: "map_of (snapshots s) sid = None \<Longrightarrow> wait sid s = (Inl KeyError, s)"
  by (simp add: wait_def)

lemma poll_loop_ok:
  assumes "host_ok s" and "pending s = ps"
  shows "host_ok (poll_loop is_done ps s) \<and> (\<forall>sid. restorable s sid \<longrightarrow> restorable (poll_loop is_done ps s) sid) \<and>
    capacity_bytes (poll_loop is_done ps s) = capacity_bytes s \<and> used_bytes (poll_loop is_done ps s) = used_bytes s \<and>
    (\<forall>sid. map_option nbytes (map_of (snapshots (poll_loop is_done ps s)) sid) = map_option nbytes (map_of (snapshots s) sid))"
  using assms
proof (induction ps arbitrary: s)
  case (Cons sid rest)
  obtain sn where sn: "map_of (snapshots s) sid = Some sn" "completion sn \<noteq> None"
    using host_okD(5) [OF Cons.prems(1), of sid] Cons.prems(2) by auto
  then obtain ev where ev: "completion sn = Some ev" by blast
  show ?case
  proof (cases "is_done ev")
    case True
    let ?sn = "sn\<lparr>completion := None, valid := True\<rparr>"
    let ?t = "s\<lparr>pending := rest, snapshots := dict_set sid ?sn (snapshots s)\<rparr>"
    have d: "sid \<notin> set rest" using host_okD(4) [OF Cons.prems(1)] Cons.prems(2) by simp
    have "host_ok ?t" by (rule reflag_ok [OF Cons.prems(1) sn(1), of _ ?sn]) (use Cons.prems(2) d in \<open>simp_all add: removeAll_id\<close>)
    note IH = Cons.IH [OF this]
    have "restorable s x \<Longrightarrow> restorable ?t x" for x by (auto simp: restorable_def update_conv')
    moreover have "map_option nbytes (map_of (snapshots ?t) x) = map_option nbytes (map_of (snapshots s) x)" for x
      using sn(1) by (simp add: update_conv')
    ultimately show ?thesis using IH sn(1) ev True by simp
  next
    case False
    then show ?thesis using Cons.prems(1) sn(1) ev by simp
  qed
qed simp

lemmas poll_ok = poll_loop_ok [OF _ refl, folded poll_def]

lemma wait_restorable:
  assumes "host_ok s" and "wait sid s = (r, t)"
  shows "host_ok t" "restorable s x \<Longrightarrow> restorable t x" "map_of (snapshots s) x = None \<Longrightarrow> map_of (snapshots t) x = None"
proof -
  consider "map_of (snapshots s) sid = None" | sn where "map_of (snapshots s) sid = Some sn" by blast
  then have "host_ok t \<and> (restorable s x \<longrightarrow> restorable t x) \<and> (map_of (snapshots s) x = None \<longrightarrow> map_of (snapshots t) x = None)"
  proof cases
    case 1
    then show ?thesis using assms by (simp add: wait_missing)
  next
    case 2
    then show ?thesis using wait_ok [OF assms(1) 2] assms(2) by (auto simp: restorable_def)
  qed
  then show "host_ok t" "restorable s x \<Longrightarrow> restorable t x" "map_of (snapshots s) x = None \<Longrightarrow> map_of (snapshots t) x = None"
    by blast+
qed

lemma drop_ok:
  assumes ok: "host_ok s"
  shows "\<exists>t. drop_snapshot sid s = (Inr (), t) \<and> host_ok t \<and> map_of (snapshots t) = (map_of (snapshots s))(sid := None) \<and>
    capacity_bytes t = capacity_bytes s \<and>
    used_bytes t = used_bytes s - (case map_of (snapshots s) sid of None \<Rightarrow> 0 | Some sn \<Rightarrow> int (nbytes sn))"
proof (cases "map_of (snapshots s) sid")
  case None
  then show ?thesis using ok by (simp add: drop_snapshot_def fun_upd_idem)
next
  case (Some sn)
  obtain sn' u where w: "wait sid s = (Inr sn', u)" "host_ok u" "map_of (snapshots u) = (map_of (snapshots s))(sid \<mapsto> sn')"
      "completion sn' = None" "nbytes sn' = nbytes sn" "capacity_bytes u = capacity_bytes s" "used_bytes u = used_bytes s"
    using wait_ok [OF ok Some] by blast
  let ?t = "u\<lparr>used_bytes := used_bytes u - int (nbytes sn'), snapshots := dict_pop sid (snapshots u)\<rparr>"
  have m: "map_of (snapshots ?t) = (map_of (snapshots u))(sid := None)" by (simp add: delete_conv')
  note h = host_okD [OF w(2)]
  have at: "map_of (snapshots u) sid = Some sn'" by (simp add: w(3))
  have "used_bytes ?t = tally (\<lambda>sn. int (nbytes sn)) (map_of (snapshots ?t))"
    unfolding m tally_delete [OF finite_dom_map_of] by (simp add: at h(3))
  moreover have "x \<in> set (pending ?t) \<longleftrightarrow> (\<exists>sn. map_of (snapshots ?t) x = Some sn \<and> completion sn \<noteq> None)" for x
    unfolding m using h(5) [of x] w(3,4) by auto
  ultimately have "host_ok ?t" using h(1,2,4) by (simp add: host_ok_def)
  moreover have "map_of (snapshots ?t) = (map_of (snapshots s))(sid := None)" unfolding m w(3) by simp
  ultimately show ?thesis using Some w(1,5-7) by (simp add: drop_snapshot_def eff_simps)
qed

lemma offload_invalidate_ok:
  assumes ok: "host_ok s"
  shows "\<exists>t. offload_invalidate sid s = (Inr (), t) \<and> host_ok t \<and> (\<forall>x. x \<noteq> sid \<longrightarrow> restorable s x \<longrightarrow> restorable t x) \<and>
    (\<forall>x. map_of (snapshots s) x = None \<longrightarrow> map_of (snapshots t) x = None) \<and> capacity_bytes t = capacity_bytes s"
proof (cases "map_of (snapshots s) sid")
  case None
  then show ?thesis using ok by (simp add: offload_invalidate_def)
next
  case (Some sn)
  obtain sn' u where w: "wait sid s = (Inr sn', u)" "host_ok u" "map_of (snapshots u) = (map_of (snapshots s))(sid \<mapsto> sn')"
      "completion sn' = None" "capacity_bytes u = capacity_bytes s"
    using wait_ok [OF ok Some] by blast
  let ?t = "u\<lparr>snapshots := dict_set sid (sn'\<lparr>valid := False\<rparr>) (snapshots u)\<rparr>"
  have "sid \<notin> set (pending u)" using host_okD(5) [OF w(2), of sid] w(3,4) by simp
  then have "host_ok ?t" using w(3,4) by (intro reflag_ok [OF w(2), of sid sn' _ "sn'\<lparr>valid := False\<rparr>"]) (simp_all add: removeAll_id)
  moreover have "restorable ?t x" if "x \<noteq> sid" "restorable s x" for x
    using that w(3) by (simp add: restorable_def update_conv')
  moreover have "map_of (snapshots ?t) x = None" if "map_of (snapshots s) x = None" for x
    using that w(3) Some by (auto simp: update_conv')
  ultimately show ?thesis using Some w(1,5) by (simp add: offload_invalidate_def eff_simps)
qed

lemma saved_ok:
  assumes ok: "host_ok s" and none: "map_of (snapshots s) sid = None" and room: "used_bytes s + int (nbytes sn) \<le> capacity_bytes s"
    and t: "snapshots t = dict_set sid sn (snapshots s)" "pending t = removeAll sid (pending s) @ [sid]"
      "used_bytes t = used_bytes s + int (nbytes sn)" "capacity_bytes t = capacity_bytes s" and sn: "completion sn \<noteq> None"
  shows "host_ok t" "restorable t sid" "x \<noteq> sid \<Longrightarrow> restorable s x \<Longrightarrow> restorable t x"
proof -
  note h = host_okD [OF ok]
  have m: "map_of (snapshots t) = (map_of (snapshots s))(sid \<mapsto> sn)" by (simp add: t(1) update_conv')
  have "used_bytes t = tally (\<lambda>sn. int (nbytes sn)) (map_of (snapshots t))"
    using h(3) none by (simp add: m t(3) tally_update finite_dom_map_of)
  moreover have "y \<in> set (pending t) \<longleftrightarrow> (\<exists>sn. map_of (snapshots t) y = Some sn \<and> completion sn \<noteq> None)" for y
    unfolding m t(2) using h(5) [of y] sn by auto
  ultimately show "host_ok t" using h(1,4) room by (simp add: host_ok_def t(2-4) distinct_removeAll)
  show "restorable t sid" using sn by (simp add: restorable_def m)
  show "x \<noteq> sid \<Longrightarrow> restorable s x \<Longrightarrow> restorable t x" by (simp add: restorable_def m)
qed

lemma save_ok:
  assumes ok: "host_ok s" and run: "save H m sid b s = (r, t)"
  shows "host_ok t" "x \<noteq> sid \<Longrightarrow> restorable s x \<Longrightarrow> restorable t x" "r = Inr () \<Longrightarrow> restorable t sid"
    "x \<noteq> sid \<Longrightarrow> map_of (snapshots s) x = None \<Longrightarrow> map_of (snapshots t) x = None"
proof -
  define u where "u = poll (\<lambda>ev. event_complete H ev m) s"
  note p = poll_ok [OF ok, of "\<lambda>ev. event_complete H ev m", folded u_def]
  have u: "host_ok u" "\<And>x. restorable s x \<Longrightarrow> restorable u x" "\<And>x. map_of (snapshots s) x = None \<Longrightarrow> map_of (snapshots u) x = None"
    using p by (simp, simp, metis option.map_disc_iff)
  obtain v where v: "drop_snapshot sid u = (Inr (), v)" "host_ok v" "map_of (snapshots v) = (map_of (snapshots u))(sid := None)"
      "capacity_bytes v = capacity_bytes u"
      "used_bytes v = used_bytes u - (case map_of (snapshots u) sid of None \<Rightarrow> 0 | Some sn \<Rightarrow> int (nbytes sn))"
    using drop_ok [OF u(1)] by blast
  have rv: "restorable v x" if "x \<noteq> sid" "restorable s x" for x
    using u(2) [OF that(2)] that(1) by (simp add: restorable_def v(3))
  have res: "host_ok t \<and> (x \<noteq> sid \<longrightarrow> restorable s x \<longrightarrow> restorable t x) \<and> (r = Inr () \<longrightarrow> restorable t sid) \<and>
      (x \<noteq> sid \<longrightarrow> map_of (snapshots s) x = None \<longrightarrow> map_of (snapshots t) x = None)"
  proof (cases "stream_capturing H m \<or> (\<exists>e. residency_lengths H sid m = Inl e)")
    case True
    then show ?thesis
      using run ok u by (cases "stream_capturing H m") (auto simp: save_def eff_simps u_def [symmetric])
  next
    case False
    then obtain ls where ls: "residency_lengths H sid m = Inr ls" "\<not> stream_capturing H m"
      by (cases "residency_lengths H sid m") auto
    define n where "n = required_bytes H ls b"
    let ?sn = "\<lparr>kv = dict_comp (zip (kv_transformer_layer_indices H) ls), nbytes = n, valid = False, completion = Some (new_event H m)\<rparr>"
    let ?t = "v\<lparr>snapshots := dict_set sid ?sn (snapshots v), pending := removeAll sid (pending v) @ [sid],
      used_bytes := used_bytes v + int n, d2h_bytes := d2h_bytes v + int n\<rparr>"
    define over where "over \<longleftrightarrow> used_bytes u - (case map_of (snapshots u) sid of None \<Rightarrow> 0 | Some old \<Rightarrow> int (nbytes old)) + int n > capacity_bytes u"
    have eq: "save H m sid b s = (if over then (Inl RuntimeError, u)
        else case copy_to_host H sid m of Inl e \<Rightarrow> (Inl e, v) | Inr _ \<Rightarrow> (Inr (), ?t))"
      using ls v(1) unfolding over_def
      by (simp add: save_def eff_simps u_def [symmetric] n_def [symmetric] Let_def split: sum.split)
    show ?thesis
    proof (cases "over \<or> (\<exists>e. copy_to_host H sid m = Inl e)")
      case True
      then show ?thesis using run u v(2,3) rv unfolding eq by (cases over) auto
    next
      case False
      then have room: "used_bytes v + int (nbytes ?sn) \<le> capacity_bytes v" using v(4,5) by (simp add: over_def not_less)
      have none: "map_of (snapshots v) sid = None" by (simp add: v(3))
      note saved = saved_ok [OF v(2) none room, of ?t]
      have t: "t = ?t" using run False unfolding eq by (cases "copy_to_host H sid m") auto
      have "host_ok t" "restorable t sid" unfolding t by (rule saved; simp)+
      moreover have "restorable t x" if "x \<noteq> sid" "restorable v x" for x
        unfolding t by (rule saved(3) [OF _ _ _ _ _ that]) simp_all
      moreover have "map_of (snapshots t) x = None" if "x \<noteq> sid" "map_of (snapshots s) x = None" for x
        using that u(3) by (simp add: t update_conv' v(3))
      ultimately show ?thesis using rv by blast
    qed
  qed
  then show "host_ok t" "x \<noteq> sid \<Longrightarrow> restorable s x \<Longrightarrow> restorable t x" "r = Inr () \<Longrightarrow> restorable t sid"
    "x \<noteq> sid \<Longrightarrow> map_of (snapshots s) x = None \<Longrightarrow> map_of (snapshots t) x = None" by blast+
qed

lemma restore_ok:
  assumes ok: "host_ok ofl" and run: "restore H sid (ofl, m) = (r, (t, m'))"
  shows "host_ok t" "restorable ofl x \<Longrightarrow> restorable t x" "map_of (snapshots ofl) x = None \<Longrightarrow> map_of (snapshots t) x = None"
proof -
  obtain w u where w: "wait sid ofl = (w, u)" by fastforce
  have "t = u \<or> (\<exists>y. t = u\<lparr>h2d_bytes := y\<rparr>) \<or> t = ofl"
    using run w by (auto simp: restore_def split: if_splits sum.splits option.splits prod.splits)
  then have "host_ok t \<and> (restorable ofl x \<longrightarrow> restorable t x) \<and> (map_of (snapshots ofl) x = None \<longrightarrow> map_of (snapshots t) x = None)"
    using wait_restorable(1) [OF ok w] wait_restorable(2,3) [OF ok w, of x] ok by (auto simp: host_ok_def restorable_def)
  then show "host_ok t" "restorable ofl x \<Longrightarrow> restorable t x" "map_of (snapshots ofl) x = None \<Longrightarrow> map_of (snapshots t) x = None"
    by blast+
qed

end
