(* ===== verification/Chain_Coordinator.thy ===== *)
theory Chain_Coordinator
  imports Chain_Offload
begin

text \<open>
  \<open>engine/chain_cache.py\<close>, \<open>ChainCacheCoordinator\<close>, and the chain operations of
  \<open>engine/runtime_state.py\<close> that call it: admission of a request to a chain, the end of its turn,
  demotion to the host, restoring and removal.  The state joins the index, the offload controller (if
  enabled) and the state \<open>'m\<close> of the cache manager and the rest of the runtime; \<open>H\<close> are the calls into
  them, and the coordinator's fingerprint is the parameter \<open>fp\<close>.  Log messages and diagnostics are left
  out.
\<close>

record ('c, 'm) chain_runtime =
  index :: "'c chain_index"
  offload :: "chain_offload option"
  manager :: 'm

type_synonym ('c, 'm, 'a) runtime_op = "(('c, 'm) chain_runtime, 'a) eff"

definition on_index :: "('c, 'a) chain_op \<Rightarrow> ('c, 'm, 'a) runtime_op" where
  "on_index m s = (case m (index s) of (r, i) \<Rightarrow> (r, s\<lparr>index := i\<rparr>))"

definition on_manager :: "('m, 'a) eff \<Rightarrow> ('c, 'm, 'a) runtime_op" where
  "on_manager m s = (case m (manager s) of (r, x) \<Rightarrow> (r, s\<lparr>manager := x\<rparr>))"

text \<open>An operation of the offload controller; only called where it is enabled.\<close>

definition on_offload :: "(chain_offload, 'a) eff \<Rightarrow> ('c, 'm, 'a) runtime_op" where
  "on_offload m s =
     (case offload s of
        None \<Rightarrow> (Inl AttributeError, s)
      | Some ofl \<Rightarrow> (case m ofl of (r, x) \<Rightarrow> (r, s\<lparr>offload := Some x\<rparr>)))"

definition when_offload :: "(chain_offload, unit) eff \<Rightarrow> ('c, 'm, unit) runtime_op" where
  "when_offload m s = (if offload s = None then (Inr (), s) else on_offload m s)"

abbreviation set_chain_record ::
  "nat \<Rightarrow> ('c chain_record \<Rightarrow> 'c chain_record) \<Rightarrow> ('c, 'm) chain_runtime \<Rightarrow> ('c, 'm) chain_runtime" where
  "set_chain_record a f s \<equiv> s\<lparr>index := set_record a f (index s)\<rparr>"

text \<open>\<open>enable_offload\<close> is the byte budget of the host tier, if it is used, and \<open>history\<close> the product of
  the model length and the number of resident sequences.\<close>

definition ChainCacheCoordinator ::
  "(nat \<Rightarrow> 'c chain_record) \<Rightarrow> int \<Rightarrow> int \<Rightarrow> int option \<Rightarrow> 'm \<Rightarrow> ('c, 'm) chain_runtime result" where
  "ChainCacheCoordinator junk mt history enable_offload m =
     bindR (case enable_offload of None \<Rightarrow> Inr None | Some b \<Rightarrow> bindR (ChainOffloadController b) (\<lambda>f. Inr (Some f))) (\<lambda>ofl.
     bindR (ChainCacheIndex junk mt (Some history)) (\<lambda>i.
       Inr \<lparr>index = (case ofl of None \<Rightarrow> i
                  | Some f \<Rightarrow> i\<lparr>max_token_history_tokens := Some (history + capacity_bytes f div 4)\<rparr>),
            offload = ofl, manager = m\<rparr>))"

section \<open>Admission requirements\<close>

definition at_layer :: "int list \<Rightarrow> nat \<Rightarrow> int" where
  "at_layer xs i = (if i < length xs then xs ! i else 0)"

text \<open>The slots that the record's promise still lacks, per layer, and added to the running total.\<close>

definition add_outstanding :: "int list \<Rightarrow> int list \<Rightarrow> int list \<Rightarrow> int list \<Rightarrow> int list" where
  "add_outstanding reserved current baseline outstanding =
     map (\<lambda>i. at_layer outstanding i + (if i < length reserved
            then max 0 (reserved ! i - max 0 (at_layer current i - at_layer baseline i)) else 0))
       [0..<max (length outstanding) (length reserved)]"

definition current_residency :: "'m chain_manager \<Rightarrow> 'c chain_record \<Rightarrow> bool \<Rightarrow> 'm \<Rightarrow> int list result" where
  "current_residency H k resident m =
     (if \<not> resident then Inr (allocated_capacity k)
      else case chain_capacity_residency H of
        Some f \<Rightarrow> f (seq_id k) m
      | None \<Rightarrow>
          (case chain_physical_residency H of
             Some f \<Rightarrow> bindR (f (seq_id k) m) (\<lambda>ns. Inr (map int ns))
           | None \<Rightarrow> Inr (allocated_capacity k)))"

fun outstanding_loop ::
  "'m chain_manager \<Rightarrow> 'm \<Rightarrow> int set \<Rightarrow> 'c chain_record list \<Rightarrow> int list \<Rightarrow> int \<Rightarrow> (int list \<times> int) result" where
  "outstanding_loop H m excl [] outstanding rows = Inr (outstanding, rows)"
| "outstanding_loop H m excl (k # ks) outstanding rows =
     (if seq_id k \<in> excl \<or> (reserved_slots_by_layer k = [] \<and> reserved_rows k \<le> 0)
      then outstanding_loop H m excl ks outstanding rows
      else
        let resident = (case chain_has_residency H of None \<Rightarrow> False | Some f \<Rightarrow> f (seq_id k) m)
        in bindR (current_residency H k resident m) (\<lambda>current.
             outstanding_loop H m excl ks
               (add_outstanding (reserved_slots_by_layer k) current (allocated_capacity k) outstanding)
               (rows + max 0 (reserved_rows k - (if resident then 1 else 0)))))"

definition outstanding_active_reservations ::
  "'m chain_manager \<Rightarrow> int set \<Rightarrow> ('c, 'm) chain_runtime \<Rightarrow> (int list \<times> int) result" where
  "outstanding_active_reservations H excl s =
     outstanding_loop H (manager s) excl (map (heap (index s)) (map snd (active_records (index s)))) [] 0"

definition admission_requirements ::
  "'m chain_manager \<Rightarrow> 'c \<Rightarrow> int \<Rightarrow> int list \<Rightarrow> ('c, 'm, int list \<times> int \<times> int list \<times> int) runtime_op" where
  "admission_requirements H c token_count decode_reserved =
     thenE (\<lambda>s. when_offload (modifyE (poll (\<lambda>ev. event_complete H ev (manager s)))) s)
       (queryE (\<lambda>s.
          let k = map_option (heap (index s)) (map_of (records (index s)) c);
              reused = (case k of None \<Rightarrow> 0 | Some k \<Rightarrow> processed_token_count k);
              existing = (case k of None \<Rightarrow> [] | Some k \<Rightarrow> allocated_capacity k);
              suffix = max 0 (token_count - reused)
          in case chain_capacity_deficits H of
               None \<Rightarrow> Inr ([], 0, [], 0)
             | Some hook \<Rightarrow>
                 bindR (outstanding_active_reservations H {} s) (\<lambda>(slots, rows).
                   hook suffix 0 existing
                     (map (\<lambda>i. at_layer slots i + at_layer decode_reserved i) [0..<max (length slots) (length decode_reserved)])
                     rows (case k of None \<Rightarrow> True | Some k \<Rightarrow> resident_rows k = 0) (manager s))))"

text \<open>The decode windows already promised by the ledger, on the axis of the manager's resources.\<close>

definition decode_reserved_slots :: "'m chain_manager \<Rightarrow> 'm \<Rightarrow> int list" where
  "decode_reserved_slots H m =
     (let reserved = (case decode_outstanding H of None \<Rightarrow> [] | Some f \<Rightarrow> f m)
      in case chain_capacity_keys H of
           Some names \<Rightarrow> map (\<lambda>k. dict_get reserved k 0) names
         | None \<Rightarrow>
             if reserved = [] then []
             else map (\<lambda>l. dict_get reserved (layer_name l) (dict_get reserved ''slots'' 0))
                    (kv_transformer_layer_indices H))"

section \<open>Plans\<close>

definition offload_plan :: "'c admission_plan \<Rightarrow> ('c, 'm) chain_runtime \<Rightarrow> 'c admission_plan result" where
  "offload_plan plan s =
     (case offload s of
        None \<Rightarrow> Inr plan
      | Some ofl \<Rightarrow>
          bindR (mapR (\<lambda>c. case map_of (records (index s)) c of None \<Rightarrow> Inl KeyError
                        | Some a \<Rightarrow> Inr (c, map_of (snapshots ofl) (seq_id (heap (index s) a)) \<noteq> None))
                  (victim_chain_ids plan)) (\<lambda>marked.
            Inr (plan\<lparr>demote_chain_ids := map fst (filter snd marked),
                      victim_chain_ids := map fst (filter (\<lambda>p. \<not> snd p) marked)\<rparr>)))"

definition coordinator_plan' ::
  "(bytes \<Rightarrow> bytes) \<Rightarrow> 'm chain_manager \<Rightarrow> bytes \<Rightarrow> 'c::linorder \<Rightarrow> int \<Rightarrow> admission_input \<Rightarrow> int list \<Rightarrow>
   ('c, 'm, 'c admission_plan) runtime_op" where
  "coordinator_plan' sha H fp c sid inp decode_reserved =
     bindE (admission_requirements H c (input_count inp) decode_reserved) (\<lambda>(required_slots, required_rows, slots, rows).
     bindE (on_index (plan_admission' sha c sid inp fp slots rows required_slots required_rows)) (\<lambda>plan.
     bindE (queryE (offload_plan plan)) (\<lambda>plan.
       retE (plan\<lparr>decode_reserved_slots_by_layer := decode_reserved\<rparr>))))"

definition coordinator_plan_admission ::
  "(bytes \<Rightarrow> bytes) \<Rightarrow> 'm chain_manager \<Rightarrow> bytes \<Rightarrow> 'c::linorder \<Rightarrow> int \<Rightarrow> int list \<Rightarrow>
   ('c, 'm, 'c admission_plan) runtime_op" where
  "coordinator_plan_admission sha H fp c sid ts =
     bindE (getE (\<lambda>s. decode_reserved_slots H (manager s))) (\<lambda>decode_reserved.
       coordinator_plan' sha H fp c sid (Tokens ts) decode_reserved)"

definition validate_admission_plan ::
  "(bytes \<Rightarrow> bytes) \<Rightarrow> 'm chain_manager \<Rightarrow> bytes \<Rightarrow> 'c::linorder admission_plan \<Rightarrow> int \<Rightarrow> bytes \<Rightarrow>
   ('c, 'm, 'c admission_plan) runtime_op" where
  "validate_admission_plan sha H fp expected n digest =
     bindE (coordinator_plan' sha H fp (plan_chain_id expected) (plan_seq_id expected) (Digest n digest)
              (decode_reserved_slots_by_layer expected)) (\<lambda>local.
       if local \<noteq> expected then raiseE RuntimeError else retE local)"

definition demote_chain :: "'m chain_manager \<Rightarrow> 'c \<Rightarrow> ('c, 'm, unit) runtime_op" where
  "demote_chain H c =
     bindE (on_index (queryE (chain_lookup c))) (\<lambda>a.
     bindE (getE (\<lambda>s. heap (index s) a)) (\<lambda>k.
       if state k \<noteq> IDLE then raiseE ChainBusyError
       else bindE (on_offload (wait (seq_id k))) (\<lambda>sn.
         if \<not> valid sn then raiseE RuntimeError
         else thenE (on_manager (manager_free_seq H (seq_id k)))
                (modifyE (set_chain_record a (\<lambda>k. k\<lparr>resident_rows := 0\<rparr>))))))"

definition drop_victim :: "'c \<Rightarrow> ('c, 'm, unit) runtime_op" where
  "drop_victim c =
     bindE (on_index (queryE (chain_lookup c))) (\<lambda>a.
     bindE (getE (\<lambda>s. seq_id (heap (index s) a))) (\<lambda>sid. on_offload (drop_snapshot sid)))"

definition coordinator_apply_admission ::
  "'m chain_manager \<Rightarrow> bytes \<Rightarrow> 'c admission_plan \<Rightarrow> ('c, 'm, nat) runtime_op" where
  "coordinator_apply_admission H fp plan s =
     thenE (if offload s = None then retE ()
            else thenE (forE (demote_chain_ids plan) (demote_chain H)) (forE (victim_chain_ids plan) drop_victim))
       (on_index (apply_admission plan fp)) s"

text \<open>\<open>zip\<close> ends with the shorter tuple.\<close>

definition prepare_resumed_chain :: "'m chain_manager \<Rightarrow> nat \<Rightarrow> ('c, 'm, unit) runtime_op" where
  "prepare_resumed_chain H a s =
     (case offload s of
        None \<Rightarrow> (Inr (), s)
      | Some ofl \<Rightarrow>
          thenE
            (if resident_rows (heap (index s) a) \<noteq> 0 then retE ()
             else thenE
               (\<lambda>s. case restore H (seq_id (heap (index s) a)) (ofl, manager s) of
                      (r, (ofl1, m)) \<Rightarrow> (r, s\<lparr>offload := Some ofl1, manager := m\<rparr>))
               (modifyE (set_chain_record a (\<lambda>k. k\<lparr>resident_rows := 1,
                  reserved_slots_by_layer := map (\<lambda>(r, e). r - e) (zip (reserved_slots_by_layer k) (physical_slots_by_layer k)),
                  reserved_rows := 0\<rparr>))))
            (on_offload (offload_invalidate (seq_id (heap (index s) a)))) s)"

section \<open>The end of a turn\<close>

text \<open>Candidates for dropping: snapshots of active chains first, then by last access and chain id.\<close>

definition host_candidates :: "'c::linorder chain_record \<Rightarrow> ('c, 'm) chain_runtime \<Rightarrow> nat list" where
  "host_candidates k s =
     (case offload s of
        None \<Rightarrow> []
      | Some ofl \<Rightarrow>
          sort_key (\<lambda>a. (state (heap (index s) a) \<noteq> ACTIVE, last_access (heap (index s) a), chain_id (heap (index s) a)))
            (filter (\<lambda>a. chain_id (heap (index s) a) \<noteq> chain_id k \<and>
                         map_of (snapshots ofl) (seq_id (heap (index s) a)) \<noteq> None) (map snd (records (index s)))))"

fun make_host_room :: "int \<Rightarrow> int \<Rightarrow> nat list \<Rightarrow> ('c, 'm, unit) runtime_op" where
  "make_host_room old_bytes required [] s = (Inr (), s)"
| "make_host_room old_bytes required (a # as) s =
     (case offload s of
        None \<Rightarrow> (Inl AttributeError, s)
      | Some ofl \<Rightarrow>
          if used_bytes ofl - old_bytes + required \<le> capacity_bytes ofl then (Inr (), s)
          else
            let k = heap (index s) a
            in thenE (on_offload (drop_snapshot (seq_id k)))
                 (thenE (if resident_rows k = 0 then thenE (on_index (evict (chain_id k))) (retE ()) else retE ())
                   (make_host_room old_bytes required as)) s)"

definition save_finished_chain :: "'m chain_manager \<Rightarrow> nat \<Rightarrow> ('c::linorder, 'm, unit) runtime_op" where
  "save_finished_chain H a s =
     (case offload s of
        None \<Rightarrow> (Inr (), s)
      | Some ofl \<Rightarrow>
          let k = heap (index s) a; sid = seq_id k
          in case snapshot_chain_method_state H sid (manager s) of
               Inl e \<Rightarrow> (Inl e, s)
             | Inr state_bytes \<Rightarrow>
                 (case residency_lengths H sid (manager s) of
                    Inl e \<Rightarrow> (Inl e, s)
                  | Inr lengths \<Rightarrow>
                      let required = int (required_bytes H lengths state_bytes);
                          old_bytes = (case map_of (snapshots ofl) sid of None \<Rightarrow> 0 | Some sn \<Rightarrow> int (nbytes sn))
                      in if required > capacity_bytes ofl then (Inl ChainCapacityError, s)
                         else thenE (make_host_room old_bytes required (host_candidates k s))
                                (\<lambda>s. on_offload (save H (manager s) sid state_bytes) s) s))"

definition physical_slots :: "'m chain_manager \<Rightarrow> int \<Rightarrow> 'm \<Rightarrow> int list result" where
  "physical_slots H sid m =
     (case chain_physical_residency H of None \<Rightarrow> Inr [] | Some f \<Rightarrow> bindR (f sid m) (\<lambda>ns. Inr (map int ns)))"

definition capacity_of :: "'m chain_manager \<Rightarrow> int \<Rightarrow> 'm \<Rightarrow> int list option result" where
  "capacity_of H sid m =
     (case chain_capacity_residency H of None \<Rightarrow> Inr None | Some f \<Rightarrow> bindR (f sid m) (\<lambda>c. Inr (Some c)))"

text \<open>\<open>finish\<close> for a sequence with this chain id (\<open>None\<close> when it has none), token list and token count.\<close>

definition coordinator_finish ::
  "(bytes \<Rightarrow> bytes) \<Rightarrow> 'm chain_manager \<Rightarrow> 'c option \<Rightarrow> int \<Rightarrow> int list \<Rightarrow> int \<Rightarrow> ('c, 'm, nat) runtime_op" where
  "coordinator_finish sha H co sid ts num_tokens =
     (case co of
        None \<Rightarrow> raiseE ChainOwnerMismatchError
      | Some c \<Rightarrow>
          bindE (queryE (\<lambda>s. physical_slots H sid (manager s))) (\<lambda>slots.
          bindE (queryE (\<lambda>s. capacity_of H sid (manager s))) (\<lambda>cap.
            on_index (chain_finish sha c ts (max 0 (num_tokens - 1)) slots 1 cap))))"

definition finish_values ::
  "'m chain_manager \<Rightarrow> 'c \<Rightarrow> int \<Rightarrow> bytes \<Rightarrow> int \<Rightarrow> ('c, 'm, nat) runtime_op" where
  "finish_values H c sid digest n =
     bindE (on_index (queryE (chain_lookup c))) (\<lambda>a.
     bindE (getE (\<lambda>s. seq_id (heap (index s) a))) (\<lambda>owner.
       if owner \<noteq> sid then raiseE ChainOwnerMismatchError
       else bindE (queryE (\<lambda>s. physical_slots H sid (manager s))) (\<lambda>slots.
            bindE (queryE (\<lambda>s. capacity_of H sid (manager s))) (\<lambda>cap.
              on_index (finish_digest c digest n slots 1 cap)))))"

record 'c prepared_tokens =
  pt_chain_id :: 'c
  pt_seq_id :: int
  pt_count :: int
  pt_digest :: bytes
  pt_tokens :: "int list"

definition prepare_processed_tokens ::
  "(bytes \<Rightarrow> bytes) \<Rightarrow> 'c \<Rightarrow> int \<Rightarrow> int list \<Rightarrow> int \<Rightarrow> 'c chain_index \<Rightarrow> 'c prepared_tokens result" where
  "prepare_processed_tokens sha c sid ts n s =
     bindR (chain_lookup c s) (\<lambda>a.
       if seq_id (heap s a) \<noteq> sid then Inl ChainOwnerMismatchError
       else bindR (prepare_token_history a ts n s) (\<lambda>logical.
         bindR (stable_token_digest sha logical (Some n)) (\<lambda>d.
           Inr \<lparr>pt_chain_id = c, pt_seq_id = sid, pt_count = n, pt_digest = d, pt_tokens = logical\<rparr>)))"

definition remember_prepared_tokens :: "'c prepared_tokens \<Rightarrow> ('c, nat) chain_op" where
  "remember_prepared_tokens p =
     bindE (queryE (chain_lookup (pt_chain_id p))) (\<lambda>a.
     bindE (getE (\<lambda>s. heap s a)) (\<lambda>k.
       if seq_id k \<noteq> pt_seq_id p \<or> state k \<noteq> IDLE then raiseE ChainOwnerMismatchError
       else if pt_count p \<noteq> processed_token_count k \<or> pt_digest p \<noteq> processed_token_digest k then raiseE ChainOwnerMismatchError
       else thenE (store_token_history a (pt_tokens p)) (retE a)))"

definition remember_processed_tokens ::
  "(bytes \<Rightarrow> bytes) \<Rightarrow> 'c \<Rightarrow> int \<Rightarrow> int list \<Rightarrow> int \<Rightarrow> ('c, nat) chain_op" where
  "remember_processed_tokens sha c sid ts n =
     bindE (queryE (prepare_processed_tokens sha c sid ts n)) remember_prepared_tokens"

definition coordinator_invalidate :: "'c \<Rightarrow> ('c, 'm, nat) runtime_op" where
  "coordinator_invalidate c s =
     thenE (if offload s = None then retE ()
            else bindE (on_index (queryE (chain_lookup c))) (\<lambda>a.
                 bindE (getE (\<lambda>s. seq_id (heap (index s) a))) (\<lambda>sid. on_offload (drop_snapshot sid))))
       (on_index (invalidate c)) s"

definition coordinator_stats :: "'m chain_manager \<Rightarrow> ('c, 'm, (string, int) dict) runtime_op" where
  "coordinator_stats H =
     thenE (\<lambda>s. when_offload (modifyE (poll (\<lambda>ev. event_complete H ev (manager s)))) s)
       (getE (\<lambda>s. chain_stats (index s) @
          (case offload s of
             None \<Rightarrow> []
           | Some ofl \<Rightarrow>
               [(''chain_cache_host_bytes'', used_bytes ofl), (''chain_cache_d2h_bytes'', d2h_bytes ofl),
                (''chain_cache_h2d_bytes'', h2d_bytes ofl),
                (''chain_cache_d2h_inflight'', int (length (filter (\<lambda>(_, sn). completion sn \<noteq> None) (snapshots ofl)))),
                (''chain_cache_cpu_only'',
                   int (length (filter (\<lambda>(_, a). resident_rows (heap (index s) a) = 0) (records (index s)))))])))"

definition coordinator_reset :: "('c, 'm, unit) runtime_op" where
  "coordinator_reset = thenE (when_offload offload_reset) (on_index (modifyE chain_reset))"

section \<open>The chain operations of the runtime\<close>

definition chain_apply_admission :: "'m chain_manager \<Rightarrow> bytes \<Rightarrow> 'c admission_plan \<Rightarrow> ('c, 'm, nat) runtime_op" where
  "chain_apply_admission H fp plan =
     bindE (queryE (\<lambda>s. mapR (\<lambda>c. bindR (chain_lookup c (index s)) (\<lambda>a. Inr (seq_id (heap (index s) a)))) (victim_chain_ids plan))) (\<lambda>victims.
     bindE (coordinator_apply_admission H fp plan) (\<lambda>a.
     thenE (forE (demote_chain_ids plan) (\<lambda>c.
       bindE (on_index (queryE (chain_lookup c))) (\<lambda>b.
       bindE (getE (\<lambda>s. seq_id (heap (index s) b))) (\<lambda>sid. on_manager (modifyE (discard_resident H sid))))))
     (thenE (forE victims (\<lambda>sid. on_manager (free_seq_payload H sid)))
     (thenE (on_errorE (prepare_resumed_chain H a)
               (\<lambda>s. if status plan = Resumed
                    then set_chain_record a (\<lambda>k. k\<lparr>reserved_slots_by_layer := [], reserved_rows := 0\<rparr>)
                           (s\<lparr>index := set_record_state a IDLE (index s)\<rparr>)
                    else s))
     (thenE (bindE (getE (\<lambda>s. seq_id (heap (index s) a))) (\<lambda>sid.
               if status plan = Resumed then on_manager (modifyE (add_resident H sid)) else retE ()))
       (retE a))))))"

text \<open>\<open>except Exception: invalidate; free; raise\<close>: the handler may itself raise, which replaces the error.\<close>

definition on_failure :: "('s, 'a) eff \<Rightarrow> ('s, unit) eff \<Rightarrow> ('s, 'a) eff" where
  "on_failure m h s =
     (case m s of
        (Inr x, s1) \<Rightarrow> (Inr x, s1)
      | (Inl e, s1) \<Rightarrow> (case h s1 of (Inl e', s2) \<Rightarrow> (Inl e', s2) | (Inr _, s2) \<Rightarrow> (Inl e, s2)))"

definition runtime_chain_finish ::
  "'m chain_manager \<Rightarrow> 'c::linorder \<Rightarrow> int \<Rightarrow> bytes \<Rightarrow> int \<Rightarrow> ('c, 'm, nat) runtime_op" where
  "runtime_chain_finish H c sid digest n =
     bindE (on_index (queryE (chain_lookup c))) (\<lambda>a.
     bindE (getE (\<lambda>s. heap (index s) a)) (\<lambda>k.
       if seq_id k \<noteq> sid then raiseE ChainOwnerMismatchError
       else if state k \<noteq> ACTIVE then raiseE ChainBusyError
       else on_failure
         (thenE (on_manager (on_chain_turn_finished H sid n))
         (thenE (on_manager (modifyE (release_reservation H sid)))
         (bindE (finish_values H c sid digest n) (\<lambda>a.
          thenE (save_finished_chain H a) (retE a)))))
         (thenE (coordinator_invalidate c) (on_manager (free_seq_payload H sid)))))"

definition chain_reclaim_idle :: "'m chain_manager \<Rightarrow> 'c \<Rightarrow> int \<Rightarrow> bool \<Rightarrow> ('c, 'm, unit) runtime_op" where
  "chain_reclaim_idle H c expected demote =
     bindE (on_index (queryE (chain_lookup c))) (\<lambda>a.
     bindE (getE (\<lambda>s. heap (index s) a)) (\<lambda>k.
       if seq_id k \<noteq> expected then raiseE ChainOwnerMismatchError
       else if state k \<noteq> IDLE then raiseE ChainBusyError
       else thenE (queryE (\<lambda>s. if resident_rows k \<le> 0 then Inl RuntimeError
                    else case chain_has_residency H of None \<Rightarrow> Inl AttributeError
                      | Some f \<Rightarrow> if f (seq_id k) (manager s) then Inr () else Inl RuntimeError))
         (thenE
           (\<lambda>s. if demote
                then (if offload s = None then (Inl RuntimeError, s)
                      else bindE (on_offload (wait (seq_id k))) (\<lambda>sn. if valid sn then retE () else raiseE RuntimeError) s)
                else when_offload (drop_snapshot (seq_id k)) s)
           (thenE (on_manager (free_seq_payload H (seq_id k)))
             (if demote then modifyE (set_chain_record a (\<lambda>k. k\<lparr>resident_rows := 0\<rparr>))
              else thenE (on_index (evict c)) (retE ()))))))"

definition chain_invalidate :: "'m chain_manager \<Rightarrow> 'c \<Rightarrow> int option \<Rightarrow> ('c, 'm, unit) runtime_op" where
  "chain_invalidate H c expected =
     bindE (on_index (queryE (chain_lookup c))) (\<lambda>a.
     bindE (getE (\<lambda>s. seq_id (heap (index s) a))) (\<lambda>sid.
       if (case expected of None \<Rightarrow> False | Some e \<Rightarrow> sid \<noteq> e) then raiseE ChainOwnerMismatchError
       else thenE (coordinator_invalidate c) (on_manager (free_seq_payload H sid))))"

text \<open>
  \<open>on_forward_end\<close>: a prefill step that completes the prompt of a request releases the reservation of
  its chain.  Of a sequence it reads the chain id (\<open>None\<close> when it has none) and the prefill progress;
  \<open>cache_end\<close> and \<open>rest_end\<close> are the hooks of the cache manager and of the recurrent and prefix caches
  for this batch.
\<close>

record 'c forward_seq =
  fs_chain_id :: "'c option"
  fs_num_prefilled_tokens :: int
  fs_current_chunk_size :: "int option"
  fs_num_prompt_tokens :: int

definition clear_chain_reservation :: "'c forward_seq \<Rightarrow> ('c, 'm, unit) runtime_op" where
  "clear_chain_reservation q =
     (case fs_chain_id q of
        None \<Rightarrow> retE ()
      | Some c \<Rightarrow>
          if fs_num_prefilled_tokens q + (case fs_current_chunk_size q of None \<Rightarrow> 0 | Some n \<Rightarrow> n)
               \<ge> fs_num_prompt_tokens q
          then bindE (on_index (queryE (chain_lookup c))) (\<lambda>a.
                 modifyE (set_chain_record a (\<lambda>k. k\<lparr>reserved_slots_by_layer := [], reserved_rows := 0\<rparr>)))
          else retE ())"

definition runtime_on_forward_end ::
  "('m, unit) eff \<Rightarrow> ('m, unit) eff \<Rightarrow> 'c forward_seq list \<Rightarrow> bool \<Rightarrow> ('c, 'm, unit) runtime_op" where
  "runtime_on_forward_end cache_end rest_end seqs is_prefill =
     thenE (on_manager cache_end)
       (thenE (if is_prefill then forE seqs clear_chain_reservation else retE ())
         (on_manager rest_end))"

text \<open>
  \<open>reset_after_warmup\<close>: the host snapshots go first, then the payloads of the resident chains in the
  order of their sequence ids, then the index; an exception of a payload's release leaves the index as
  it is.
\<close>

definition resident_chain_seq_ids :: "'m chain_manager \<Rightarrow> ('c, 'm) chain_runtime \<Rightarrow> int list" where
  "resident_chain_seq_ids H s =
     sort (remdups (filter (\<lambda>sid. is_resident_seq H sid (manager s))
       (map (\<lambda>(c, a). seq_id (heap (index s) a)) (records (index s)))))"

definition runtime_reset_after_warmup :: "'m chain_manager \<Rightarrow> ('c, 'm, unit) runtime_op" where
  "runtime_reset_after_warmup H =
     thenE (on_manager (reset_reservations H))
       (thenE (when_offload offload_reset)
         (bindE (getE (resident_chain_seq_ids H)) (\<lambda>sids.
          thenE (forE sids (\<lambda>sid. on_manager (free_seq_payload H sid)))
            (thenE coordinator_reset (on_manager (reset_caches H))))))"

end
