(* ===== verification/Chain_Runtime.thy ===== *)
theory Chain_Runtime
  imports Chain_Coordinator
begin

text \<open>
  The chain cache of one rank as a state machine.  The invariant joins that of the index, the host
  account, and the promise that makes demotion safe: an idle chain whose device rows were released has
  a host snapshot that can be restored.
\<close>

section \<open>The invariant\<close>

text \<open>An idle chain with a snapshot has a good one, and one without device rows has a snapshot.\<close>

definition backed :: "chain_offload option \<Rightarrow> 'c chain_record \<Rightarrow> bool" where
  "backed ofl k \<longleftrightarrow> (state k = IDLE \<longrightarrow>
     (case ofl of
        None \<Rightarrow> resident_rows k \<noteq> 0
      | Some f \<Rightarrow> (map_of (snapshots f) (seq_id k) \<noteq> None \<longrightarrow> restorable f (seq_id k)) \<and>
                  (resident_rows k = 0 \<longrightarrow> map_of (snapshots f) (seq_id k) \<noteq> None)))"

text \<open>The chains of \<open>x\<close> are exempt: those that an operation is about to finish or to remove.\<close>

definition runtime_inv :: "'c set \<Rightarrow> ('c, 'm) chain_runtime \<Rightarrow> bool" where
  "runtime_inv x s \<longleftrightarrow> chain_inv (index s) \<and> (\<forall>f. offload s = Some f \<longrightarrow> host_ok f) \<and>
     (\<forall>c k. chain_at (index s) c = Some k \<longrightarrow> c \<notin> x \<longrightarrow> backed (offload s) k)"

lemma runtime_invD:
  assumes "runtime_inv x s"
  shows "chain_inv (index s)" "\<And>f. offload s = Some f \<Longrightarrow> host_ok f"
    "\<And>c k. chain_at (index s) c = Some k \<Longrightarrow> c \<notin> x \<Longrightarrow> backed (offload s) k"
  using assms by (simp_all add: runtime_inv_def)

lemma runtime_inv_weaken: "runtime_inv x s \<Longrightarrow> x \<subseteq> y \<Longrightarrow> runtime_inv y s"
  unfolding runtime_inv_def by blast

lemma manager_inv [simp]: "runtime_inv x (s\<lparr>manager := m\<rparr>) = runtime_inv x s"
  by (simp add: runtime_inv_def)

text \<open>Distinct chains have distinct sequences, so a change of one snapshot concerns one chain.\<close>

lemma owner_unique:
  assumes "chain_inv i" "chain_at i c = Some k" "chain_at i d = Some l" "seq_id k = seq_id l"
  shows "c = d"
proof -
  note own = dicts_okD(5) [OF chain_invD(1) [OF assms(1)]]
  have "map_of (seq_id_to_chain_id i) (seq_id k) = Some c" "map_of (seq_id_to_chain_id i) (seq_id k) = Some d"
    using own assms(2-4) by auto
  then show ?thesis by simp
qed

lemma backed_mono:
  assumes "backed (Some f) k" and "map_of (snapshots f) (seq_id k) = None \<Longrightarrow> map_of (snapshots g) (seq_id k) = None"
    and "restorable f (seq_id k) \<Longrightarrow> restorable g (seq_id k)"
  shows "backed (Some g) k"
  using assms by (fastforce simp: backed_def restorable_def)

text \<open>Changing the controller keeps the invariant if no other chain's snapshot is lost or damaged.\<close>

lemma offload_inv:
  assumes inv: "runtime_inv x s" and f: "offload s = Some f" and g: "host_ok g"
    and others: "\<And>sid. (\<And>c k. c \<in> x \<Longrightarrow> chain_at (index s) c = Some k \<Longrightarrow> seq_id k \<noteq> sid) \<Longrightarrow>
      (map_of (snapshots f) sid = None \<longrightarrow> map_of (snapshots g) sid = None) \<and> (restorable f sid \<longrightarrow> restorable g sid)"
  shows "runtime_inv x (s\<lparr>offload := Some g\<rparr>)"
proof -
  note r = runtime_invD [OF inv]
  have "backed (Some g) k" if k: "chain_at (index s) c = Some k" "c \<notin> x" for c k
  proof -
    have "seq_id l \<noteq> seq_id k" if "d \<in> x" "chain_at (index s) d = Some l" for d l
      using owner_unique [OF r(1) that(2) k(1)] that(1) k(2) by auto
    then have "(map_of (snapshots f) (seq_id k) = None \<longrightarrow> map_of (snapshots g) (seq_id k) = None) \<and>
        (restorable f (seq_id k) \<longrightarrow> restorable g (seq_id k))"
      by (rule others)
    then show ?thesis using backed_mono [of f k g] r(3) [OF k] f by simp
  qed
  then show ?thesis using r(1) g by (simp add: runtime_inv_def)
qed

lemma index_inv:
  assumes "runtime_inv x s" and "chain_inv i"
    and "\<And>c k. chain_at i c = Some k \<Longrightarrow> c \<notin> x \<Longrightarrow>
      backed (offload s) k \<or> chain_at (index s) c = Some k"
  shows "runtime_inv x (s\<lparr>index := i\<rparr>)"
proof -
  have "backed (offload s) k" if "chain_at i c = Some k" "c \<notin> x" for c k
    using assms(3) [OF that] runtime_invD(3) [OF assms(1) _ that(2)] by blast
  then show ?thesis using assms(2) runtime_invD(2) [OF assms(1)] by (simp add: runtime_inv_def)
qed

section \<open>Choosing victims\<close>

definition relieved :: "'c chain_record \<Rightarrow> int \<times> int list \<Rightarrow> int \<times> int list" where
  "relieved k p = (max 0 (fst p - resident_rows k), relieve_slots (allocated_capacity k) (snd p))"

definition no_pressure :: "int \<times> int list \<Rightarrow> bool" where
  "no_pressure p \<longleftrightarrow> fst p \<le> 0 \<and> (\<forall>d\<in>set (snd p). d = 0)"

text \<open>The victims are the shortest prefix of the candidates that relieves the pressure, if one does.\<close>

lemma pick_victims_prefix:
  "\<exists>n\<le>length ks. fst (pick_victims ks r ds vs) = vs @ map chain_id (take n ks) \<and>
     snd (pick_victims ks r ds vs) = fold relieved (take n ks) (r, ds) \<and>
     (\<forall>m<n. \<not> no_pressure (fold relieved (take m ks) (r, ds))) \<and>
     (n < length ks \<longrightarrow> no_pressure (fold relieved (take n ks) (r, ds)))"
proof (induction ks arbitrary: r ds vs)
  case Nil
  then show ?case by simp
next
  case (Cons k ks)
  show ?case
  proof (cases "r \<le> 0 \<and> (\<forall>d\<in>set ds. d = 0)")
    case True
    then show ?thesis by (intro exI [of _ 0]) (simp add: no_pressure_def)
  next
    case False
    obtain n where n: "n \<le> length ks"
        "fst (pick_victims ks (max 0 (r - resident_rows k)) (relieve_slots (allocated_capacity k) ds) (vs @ [chain_id k])) =
           (vs @ [chain_id k]) @ map chain_id (take n ks)"
        "snd (pick_victims ks (max 0 (r - resident_rows k)) (relieve_slots (allocated_capacity k) ds) (vs @ [chain_id k])) =
           fold relieved (take n ks) (relieved k (r, ds))"
        "\<forall>m<n. \<not> no_pressure (fold relieved (take m ks) (relieved k (r, ds)))"
        "n < length ks \<longrightarrow> no_pressure (fold relieved (take n ks) (relieved k (r, ds)))"
      using Cons.IH [of "max 0 (r - resident_rows k)" "relieve_slots (allocated_capacity k) ds" "vs @ [chain_id k]"]
      unfolding relieved_def [of k "(r, ds)"] by auto
    have "\<not> no_pressure (fold relieved (take m (k # ks)) (r, ds))" if "m < Suc n" for m
      using that False n(4) by (cases m) (auto simp: no_pressure_def)
    then show ?thesis using False n by (intro exI [of _ "Suc n"]) simp
  qed
qed

lemma choose_victims_prefix:
  assumes "choose_victims c req rows i = Inr vs"
  shows "\<exists>n. vs = map chain_id (take n (filter (\<lambda>k. chain_id k \<noteq> c) (map (heap i) (idle_resident_lru i)))) \<and>
    no_pressure (fold relieved (take n (filter (\<lambda>k. chain_id k \<noteq> c) (map (heap i) (idle_resident_lru i)))) (max 0 rows, map (max 0) req)) \<and>
    (\<forall>m<n. \<not> no_pressure (fold relieved (take m (filter (\<lambda>k. chain_id k \<noteq> c) (map (heap i) (idle_resident_lru i)))) (max 0 rows, map (max 0) req)))"
proof -
  let ?p = "(max 0 rows, map (max 0) req)" and ?ks = "filter (\<lambda>k. chain_id k \<noteq> c) (map (heap i) (idle_resident_lru i))"
  show ?thesis
  proof (cases "no_pressure ?p")
    case True
    then have "vs = []"
      using assms by (auto simp: choose_victims_def no_pressure_def Let_def split: if_splits)
    then show ?thesis using True by (intro exI [of _ 0]) simp
  next
    case False
    then have "max 0 rows > 0 \<or> (\<exists>d\<in>set (map (max 0) req). d \<noteq> 0)" unfolding no_pressure_def by force
    then have eq: "choose_victims c req rows i = (case pick_victims ?ks (max 0 rows) (map (max 0) req) [] of (vs, p) \<Rightarrow>
        if no_pressure p then Inr vs else Inl ChainCapacityError)"
      by (auto simp: choose_victims_def no_pressure_def Let_def not_less split: prod.split)
    obtain n where n: "fst (pick_victims ?ks (max 0 rows) (map (max 0) req) []) = map chain_id (take n ?ks)"
        "snd (pick_victims ?ks (max 0 rows) (map (max 0) req) []) = fold relieved (take n ?ks) ?p"
        "\<forall>m<n. \<not> no_pressure (fold relieved (take m ?ks) ?p)"
      using pick_victims_prefix [of ?ks "max 0 rows" "map (max 0) req" "[]"] by auto
    have "vs = map chain_id (take n ?ks) \<and> no_pressure (fold relieved (take n ?ks) ?p)"
      using assms n(1,2) unfolding eq by (cases "pick_victims ?ks (max 0 rows) (map (max 0) req) []") (auto split: if_splits)
    then show ?thesis using n(3) by blast
  qed
qed

text \<open>
  Pressure can be relieved if some prefix of the other idle resident chains, by last access, does it;
  victims are then found, and otherwise \<open>ChainCapacityError\<close> is raised.
\<close>

definition relievable :: "'c::linorder \<Rightarrow> int list \<Rightarrow> int \<Rightarrow> 'c chain_index \<Rightarrow> bool" where
  "relievable c slots rows i \<longleftrightarrow>
     (\<exists>n. no_pressure (fold relieved (take n (filter (\<lambda>k. chain_id k \<noteq> c) (map (heap i) (idle_resident_lru i))))
            (max 0 rows, map (max 0) slots)))"

lemma choose_victims_relievable:
  "choose_victims c slots rows i = Inl ChainCapacityError \<and> \<not> relievable c slots rows i \<or>
   (\<exists>vs. choose_victims c slots rows i = Inr vs) \<and> relievable c slots rows i"
proof (cases "no_pressure (max 0 rows, map (max 0) slots)")
  case True
  then have "relievable c slots rows i" unfolding relievable_def by (intro exI [of _ 0]) simp
  moreover have "choose_victims c slots rows i = Inr []"
    using True by (auto simp: choose_victims_def no_pressure_def Let_def)
  ultimately show ?thesis by simp
next
  case False
  let ?p = "(max 0 rows, map (max 0) slots)" and ?ks = "filter (\<lambda>k. chain_id k \<noteq> c) (map (heap i) (idle_resident_lru i))"
  have "max 0 rows > 0 \<or> (\<exists>d\<in>set (map (max 0) slots). d \<noteq> 0)" using False unfolding no_pressure_def by force
  then have eq: "choose_victims c slots rows i = (case pick_victims ?ks (max 0 rows) (map (max 0) slots) [] of (vs, p) \<Rightarrow>
      if no_pressure p then Inr vs else Inl ChainCapacityError)"
    by (auto simp: choose_victims_def no_pressure_def Let_def not_less split: prod.split)
  obtain n where n: "n \<le> length ?ks"
      "snd (pick_victims ?ks (max 0 rows) (map (max 0) slots) []) = fold relieved (take n ?ks) ?p"
      "\<forall>m<n. \<not> no_pressure (fold relieved (take m ?ks) ?p)"
      "n < length ?ks \<longrightarrow> no_pressure (fold relieved (take n ?ks) ?p)"
    using pick_victims_prefix [of ?ks "max 0 rows" "map (max 0) slots" "[]"] by blast
  have "relievable c slots rows i \<longleftrightarrow> no_pressure (fold relieved (take n ?ks) ?p)"
  proof
    assume "relievable c slots rows i"
    then obtain m where m: "no_pressure (fold relieved (take m ?ks) ?p)" unfolding relievable_def by blast
    then have "n \<le> m" using n(3) by (meson not_le)
    then show "no_pressure (fold relieved (take n ?ks) ?p)"
      using m n(1,4) by (cases "n < length ?ks") auto
  qed (unfold relievable_def, blast)
  then show ?thesis using n(2) unfolding eq by (cases "pick_victims ?ks (max 0 rows) (map (max 0) slots) []") auto
qed

lemma idle_resident_lru_props:
  assumes "dicts_ok i"
  shows "distinct (map chain_id (map (heap i) (idle_resident_lru i)))"
    "k \<in> set (map (heap i) (idle_resident_lru i)) \<longleftrightarrow>
       chain_at i (chain_id k) = Some k \<and> state k = IDLE \<and> resident_rows k > 0"
proof -
  note d = dicts_okD [OF assms]
  have rec: "map_of (records i) e = Some a" "chain_id (heap i a) = e" if "(e, a) \<in> set (records i)" for e a
    using that d(1) d(2) [of e a] by simp_all
  have "map (\<lambda>a. chain_id (heap i a)) (map snd (records i)) = map fst (records i)"
    unfolding map_map by (rule map_cong) (use rec(2) in auto)
  then have "distinct (map (\<lambda>a. chain_id (heap i a)) (map snd (records i)))" using d(1) by metis
  then have "distinct (map (\<lambda>a. chain_id (heap i a)) (filter (\<lambda>a. state (heap i a) = IDLE \<and> resident_rows (heap i a) > 0) (map snd (records i))))"
    by (rule distinct_map_filter)
  then show "distinct (map chain_id (map (heap i) (idle_resident_lru i)))"
    by (simp add: idle_resident_lru_def distinct_map comp_def inj_on_def)
  show "k \<in> set (map (heap i) (idle_resident_lru i)) \<longleftrightarrow>
      chain_at i (chain_id k) = Some k \<and> state k = IDLE \<and> resident_rows k > 0"
  proof
    assume "k \<in> set (map (heap i) (idle_resident_lru i))"
    then obtain e a where "(e, a) \<in> set (records i)" "k = heap i a" "state k = IDLE" "resident_rows k > 0"
      by (auto simp: idle_resident_lru_def)
    then show "chain_at i (chain_id k) = Some k \<and> state k = IDLE \<and> resident_rows k > 0"
      using rec [of e a] by (simp add: chain_at_def)
  next
    assume k: "chain_at i (chain_id k) = Some k \<and> state k = IDLE \<and> resident_rows k > 0"
    then obtain a where "map_of (records i) (chain_id k) = Some a" "heap i a = k" by (auto simp: chain_at_def)
    then show "k \<in> set (map (heap i) (idle_resident_lru i))"
      using k map_of_SomeD [of "records i" "chain_id k" a] by (force simp: idle_resident_lru_def)
  qed
qed

lemma choose_victims_props:
  assumes inv: "dicts_ok i" and run: "choose_victims c req rows i = Inr vs"
  shows "distinct vs" "\<And>v. v \<in> set vs \<Longrightarrow> v \<noteq> c \<and> (\<exists>k. chain_at i v = Some k \<and> state k = IDLE \<and> resident_rows k > 0)"
proof -
  let ?ks = "filter (\<lambda>k. chain_id k \<noteq> c) (map (heap i) (idle_resident_lru i))"
  obtain n where n: "vs = map chain_id (take n ?ks)" using choose_victims_prefix [OF run] by blast
  have "distinct (map chain_id ?ks)" by (rule distinct_map_filter [OF idle_resident_lru_props(1) [OF inv]])
  then show "distinct vs" unfolding n take_map [symmetric] by (rule distinct_take)
  fix v
  assume "v \<in> set vs"
  then obtain k where k: "k \<in> set (take n ?ks)" "v = chain_id k" unfolding n by auto
  then have "k \<in> set ?ks" by (blast dest: in_set_takeD)
  then have "chain_id k \<noteq> c" "k \<in> set (map (heap i) (idle_resident_lru i))" by simp_all
  then show "v \<noteq> c \<and> (\<exists>k. chain_at i v = Some k \<and> state k = IDLE \<and> resident_rows k > 0)"
    using idle_resident_lru_props(2) [OF inv, of k] k(2) by blast
qed

section \<open>Planning\<close>

lemma check_admission_view:
  assumes "check_admission sha c sid inp fp i = (r, j)"
  shows "chain_at j = chain_at i" "records j = records i" "r = Inr p \<Longrightarrow> j = i"
  using assms by (auto simp: check_admission_def Let_def split: option.splits sum.splits if_splits)

lemma check_admission_status:
  assumes "check_admission sha c sid inp fp i = (Inr (st, n), j)"
  shows "st = Created \<Longrightarrow> chain_at i c = None \<and> c \<notin> fst ` set (tombstones i) \<and> n = 0"
    "st = Resumed \<Longrightarrow> \<exists>k. chain_at i c = Some k \<and> state k = IDLE \<and> seq_id k = sid \<and> fingerprint k = fp \<and>
       n = processed_token_count k \<and> admission_digest sha inp k = Inr (processed_token_digest k)"
  using assms chain_state.exhaust
  by (auto simp: check_admission_def chain_at_def Let_def split: option.splits if_splits sum.splits)

lemma plan_admission_view:
  assumes "plan_admission' sha c sid inp fp slots rows rslots rrows i = (r, j)"
  shows "chain_at j = chain_at i"
    and "r = Inr plan \<Longrightarrow> j = i \<and> choose_victims c slots rows i = Inr (victim_chain_ids plan) \<and> plan_chain_id plan = c \<and>
      plan_seq_id plan = sid \<and> demote_chain_ids plan = [] \<and> check_admission sha c sid inp fp i = (Inr (status plan, reused_tokens plan), i)"
proof -
  obtain q k where q: "check_admission sha c sid inp fp i = (q, k)" by fastforce
  note v = check_admission_view [OF q]
  have "chain_at j = chain_at i \<and> (\<forall>plan. r = Inr plan \<longrightarrow> j = i \<and> choose_victims c slots rows i = Inr (victim_chain_ids plan) \<and>
      plan_chain_id plan = c \<and> plan_seq_id plan = sid \<and> demote_chain_ids plan = [] \<and>
      check_admission sha c sid inp fp i = (Inr (status plan, reused_tokens plan), i))"
  proof (cases q)
    case (Inl e)
    then show ?thesis using assms q v(1) by (auto simp: plan_admission'_def eff_simps)
  next
    case (Inr p)
    then have k: "k = i" using v(3) by simp
    obtain st ru where p: "p = (st, ru)" by fastforce
    then show ?thesis
      using assms q Inr k by (cases "choose_victims c slots rows i") (auto simp: plan_admission'_def eff_simps)
  qed
  then show "chain_at j = chain_at i"
    and "r = Inr plan \<Longrightarrow> j = i \<and> choose_victims c slots rows i = Inr (victim_chain_ids plan) \<and> plan_chain_id plan = c \<and>
      plan_seq_id plan = sid \<and> demote_chain_ids plan = [] \<and> check_admission sha c sid inp fp i = (Inr (status plan, reused_tokens plan), i)"
    by blast+
qed

lemma poll_inv:
  assumes "runtime_inv x s" and "offload s = Some f"
  shows "runtime_inv x (s\<lparr>offload := Some (poll is_done f)\<rparr>)"
proof (rule offload_inv [OF assms])
  note p = poll_ok [OF runtime_invD(2) [OF assms], of is_done]
  show "host_ok (poll is_done f)" using p by blast
  show "(map_of (snapshots f) sid = None \<longrightarrow> map_of (snapshots (poll is_done f)) sid = None) \<and>
      (restorable f sid \<longrightarrow> restorable (poll is_done f) sid)" for sid
    using p by (metis option.map_disc_iff)
qed

lemma requirements_view:
  assumes "runtime_inv x s" and "admission_requirements H c n d s = (r, t)"
  shows "runtime_inv x t" "index t = index s" "manager t = manager s" "offload t = None \<longleftrightarrow> offload s = None"
    "t = (case offload s of None \<Rightarrow> s | Some f \<Rightarrow> s\<lparr>offload := Some (poll (\<lambda>ev. event_complete H ev (manager s)) f)\<rparr>)"
proof -
  show t: "t = (case offload s of None \<Rightarrow> s | Some f \<Rightarrow> s\<lparr>offload := Some (poll (\<lambda>ev. event_complete H ev (manager s)) f)\<rparr>)"
    using assms(2) by (auto simp: admission_requirements_def eff_simps when_offload_def on_offload_def split: option.splits)
  show "runtime_inv x t" unfolding t using assms(1) by (auto simp: poll_inv split: option.split)
  show "index t = index s" "manager t = manager s" "offload t = None \<longleftrightarrow> offload s = None" unfolding t by (simp_all split: option.split)
qed

definition has_snapshot :: "('c, 'm) chain_runtime \<Rightarrow> 'c \<Rightarrow> bool" where
  "has_snapshot s c \<longleftrightarrow> (\<exists>f k. offload s = Some f \<and> chain_at (index s) c = Some k \<and> map_of (snapshots f) (seq_id k) \<noteq> None)"

lemma offload_plan_split:
  assumes run: "offload_plan plan s = Inr plan'" and "demote_chain_ids plan = []"
  shows "plan' = plan\<lparr>demote_chain_ids := filter (has_snapshot s) (victim_chain_ids plan),
    victim_chain_ids := filter (\<lambda>c. \<not> has_snapshot s c) (victim_chain_ids plan)\<rparr>"
proof (cases "offload s")
  case None
  then have "plan' = plan" "\<And>c. \<not> has_snapshot s c" using run by (simp_all add: offload_plan_def has_snapshot_def)
  then show ?thesis using assms(2) by simp
next
  case (Some f)
  let ?mark = "\<lambda>c. case map_of (records (index s)) c of None \<Rightarrow> Inl KeyError
     | Some a \<Rightarrow> Inr (c, map_of (snapshots f) (seq_id (heap (index s) a)) \<noteq> None)"
  obtain ms where ms: "mapR ?mark (victim_chain_ids plan) = Inr ms"
      "plan' = plan\<lparr>demote_chain_ids := map fst (filter snd ms), victim_chain_ids := map fst (filter (\<lambda>p. \<not> snd p) ms)\<rparr>"
    using run Some by (auto simp: offload_plan_def bindR_eq_Inr)
  have "ms = map (\<lambda>c. (c, has_snapshot s c)) vs" if "list_all2 (\<lambda>c p. ?mark c = Inr p) vs ms" for vs ms
    using that by (induction rule: list_all2_induct) (auto simp: has_snapshot_def Some chain_at_def split: option.splits)
  then have "ms = map (\<lambda>c. (c, has_snapshot s c)) (victim_chain_ids plan)" using ms(1) unfolding mapR_eq_Inr by blast
  then show ?thesis using ms(2) by (simp add: filter_map comp_def)
qed

text \<open>What a plan made in the current state promises.\<close>

definition planned :: "('c, 'm) chain_runtime \<Rightarrow> 'c admission_plan \<Rightarrow> bool" where
  "planned s plan \<longleftrightarrow> distinct (victim_chain_ids plan @ demote_chain_ids plan) \<and>
     plan_chain_id plan \<notin> set (victim_chain_ids plan @ demote_chain_ids plan) \<and>
     (\<forall>v\<in>set (victim_chain_ids plan @ demote_chain_ids plan). \<exists>k. chain_at (index s) v = Some k \<and> state k = IDLE \<and> resident_rows k > 0) \<and>
     (\<forall>v\<in>set (victim_chain_ids plan). \<not> has_snapshot s v) \<and> (\<forall>v\<in>set (demote_chain_ids plan). has_snapshot s v) \<and>
     (status plan = Created \<longrightarrow> chain_at (index s) (plan_chain_id plan) = None) \<and>
     (status plan = Resumed \<longrightarrow> (\<exists>k. chain_at (index s) (plan_chain_id plan) = Some k \<and> state k = IDLE \<and> seq_id k = plan_seq_id plan))"

lemma coordinator_plan_view:
  assumes inv: "runtime_inv x s" and run: "coordinator_plan' sha H fp c sid inp d s = (r, t)"
  shows "runtime_inv x t" "r = Inr plan \<Longrightarrow> planned t plan \<and> index t = index s \<and> manager t = manager s"
proof -
  obtain q u where q: "admission_requirements H c (input_count inp) d s = (q, u)" by fastforce
  note u = requirements_view [OF inv q]
  have "runtime_inv x t \<and> (\<forall>plan. r = Inr plan \<longrightarrow> planned t plan \<and> index t = index s \<and> manager t = manager s)"
  proof (cases q)
    case (Inl e)
    then show ?thesis using run q u(1) by (auto simp: coordinator_plan'_def eff_simps)
  next
    case (Inr p)
    obtain rs rr ds dr where p: "p = (rs, rr, ds, dr)" by (cases p) auto
    obtain pr i where pl: "plan_admission' sha c sid inp fp ds dr rs rr (index u) = (pr, i)" by fastforce
    note pv = plan_admission_view [OF pl]
    have i: "chain_inv i" using keepsD [OF plan_admission_keeps runtime_invD(1) [OF u(1)] pl] .
    have keep: "runtime_inv x (u\<lparr>index := i\<rparr>)" by (rule index_inv [OF u(1) i]) (simp add: pv(1))
    show ?thesis
    proof (cases pr)
      case (Inl e)
      then show ?thesis using run q Inr p pl keep by (auto simp: coordinator_plan'_def eff_simps on_index_def)
    next
      case (Inr pln)
      note pl1 = pv(2) [OF Inr]
      then have same: "u\<lparr>index := i\<rparr> = u" by simp
      note vs = choose_victims_props [OF chain_invD(1) [OF runtime_invD(1) [OF u(1)]], of c ds dr "victim_chain_ids pln"]
      have run': "(r, t) = (bindR (offload_plan pln u) (\<lambda>plan. Inr (plan\<lparr>decode_reserved_slots_by_layer := d\<rparr>)), u)"
        using run q \<open>q = Inr p\<close> p pl Inr same by (auto simp: coordinator_plan'_def eff_simps on_index_def bindR_def split: sum.splits)
      note st = check_admission_status [of sha c sid inp fp "index u" "status pln" "reused_tokens pln" "index u"]
      have "planned u plan" if res: "r = Inr plan" for plan
      proof -
        obtain q where q: "offload_plan pln u = Inr q" "plan = q\<lparr>decode_reserved_slots_by_layer := d\<rparr>"
          using run' res by (cases "offload_plan pln u") auto
        have "q = pln\<lparr>demote_chain_ids := filter (has_snapshot u) (victim_chain_ids pln),
            victim_chain_ids := filter (\<lambda>c. \<not> has_snapshot u c) (victim_chain_ids pln)\<rparr>"
          by (rule offload_plan_split [OF q(1)]) (use pl1 in blast)
        then show ?thesis using vs pl1 st q(2) by (auto simp: planned_def)
      qed
      then show ?thesis using run' u by auto
    qed
  qed
  then show "runtime_inv x t" "r = Inr plan \<Longrightarrow> planned t plan \<and> index t = index s \<and> manager t = manager s" by blast+
qed

section \<open>Demotion and removal of snapshots\<close>

text \<open>Changing a record without touching its identity, state or history.\<close>

lemma adjust_inv:
  assumes inv: "chain_inv i" and c: "map_of (records i) c = Some a"
    and f: "chain_id (f (heap i a)) = chain_id (heap i a)" "seq_id (f (heap i a)) = seq_id (heap i a)"
      "state (f (heap i a)) = state (heap i a)" "token_ids (f (heap i a)) = token_ids (heap i a)"
      "state (heap i a) = IDLE \<Longrightarrow> reserved_slots_by_layer (f (heap i a)) = [] \<and> reserved_rows (f (heap i a)) = 0"
  shows "chain_inv (set_record a f i)" "chain_at (set_record a f i) = (chain_at i)(c \<mapsto> f (heap i a))"
proof -
  have id: "chain_id (heap i a) = c" by (rule dicts_okD(2) [OF chain_invD(1) [OF inv] c])
  have act: "map_of (active_records i) = (map_of (active_records i))(c := (if state (f (heap i a)) = ACTIVE then Some a else None))"
    using dicts_okD(4) [OF chain_invD(1) [OF inv], of c] chain_at_records [OF c] c f(3) by (auto simp: fun_eq_iff)
  have m: "token_history_tokens i \<le> m" if "max_token_history_tokens i = Some m" for m
    using chain_invD(2) [OF inv] that by (simp add: account_ok_def)
  note ch = changed_inv [OF inv c, of "set_record a f i" "f (heap i a)"]
  show "chain_inv (set_record a f i)"
    by (rule ch(1)) (use id f act m in \<open>simp_all add: history_length_def\<close>)
  show "chain_at (set_record a f i) = (chain_at i)(c \<mapsto> f (heap i a))"
    by (rule ch(2)) (use id f act m in \<open>simp_all add: history_length_def\<close>)
qed

lemma idle_unreserved:
  assumes "chain_inv i" and "map_of (records i) c = Some a" "state (heap i a) = IDLE"
  shows "reserved_slots_by_layer (heap i a) = []" "reserved_rows (heap i a) = 0"
  using chain_invD(2) [OF assms(1)] chain_at_records [OF assms(2)] assms(3) unfolding account_ok_def by blast+

lemma demoted_inv:
  assumes inv: "runtime_inv {} s" and c: "map_of (records (index s)) c = Some a" "state (heap (index s) a) = IDLE" "has_snapshot s c"
  shows "runtime_inv {} (set_chain_record a (\<lambda>k. k\<lparr>resident_rows := 0\<rparr>) s)"
    "chain_at (set_record a (\<lambda>k. k\<lparr>resident_rows := 0\<rparr>) (index s)) = (chain_at (index s))(c \<mapsto> (heap (index s) a)\<lparr>resident_rows := 0\<rparr>)"
proof -
  note r = runtime_invD [OF inv]
  note adj = adjust_inv [OF r(1) c(1), of "\<lambda>k. k\<lparr>resident_rows := 0\<rparr>"]
  show at: "chain_at (set_record a (\<lambda>k. k\<lparr>resident_rows := 0\<rparr>) (index s)) = (chain_at (index s))(c \<mapsto> (heap (index s) a)\<lparr>resident_rows := 0\<rparr>)"
    by (rule adj(2)) (use idle_unreserved [OF r(1) c(1,2)] in simp_all)
  have "chain_inv (set_record a (\<lambda>k. k\<lparr>resident_rows := 0\<rparr>) (index s))"
    by (rule adj(1)) (use idle_unreserved [OF r(1) c(1,2)] in simp_all)
  moreover have "backed (offload s) ((heap (index s) a)\<lparr>resident_rows := 0\<rparr>)"
    using c(3) r(3) [OF chain_at_records [OF c(1)]] chain_at_records [OF c(1)] by (auto simp: backed_def has_snapshot_def)
  ultimately show "runtime_inv {} (set_chain_record a (\<lambda>k. k\<lparr>resident_rows := 0\<rparr>) s)"
    by (intro index_inv [OF inv]) (auto simp: at split: if_splits)
qed

text \<open>Waiting for a copy changes no chain, and leaves every snapshot restorable that was.\<close>

lemma wait_inv:
  assumes inv: "runtime_inv x s" and f: "offload s = Some f" and sn: "map_of (snapshots f) sid \<noteq> None"
  shows "\<exists>sn' g. on_offload (wait sid) s = (Inr sn', s\<lparr>offload := Some g\<rparr>) \<and> runtime_inv x (s\<lparr>offload := Some g\<rparr>) \<and>
    (\<forall>y. map_of (snapshots g) y = None \<longleftrightarrow> map_of (snapshots f) y = None) \<and> (valid sn' \<longleftrightarrow> restorable f sid)"
proof -
  obtain sn where "map_of (snapshots f) sid = Some sn" using sn by blast
  then obtain sn' g where w: "wait sid f = (Inr sn', g)" "host_ok g" "map_of (snapshots g) = (map_of (snapshots f))(sid \<mapsto> sn')"
      "valid sn' \<longleftrightarrow> restorable f sid"
    using wait_ok [OF runtime_invD(2) [OF inv f]] by (fastforce simp: restorable_def)
  have "runtime_inv x (s\<lparr>offload := Some g\<rparr>)"
  proof (rule offload_inv [OF inv f w(2)])
    show "(map_of (snapshots f) y = None \<longrightarrow> map_of (snapshots g) y = None) \<and> (restorable f y \<longrightarrow> restorable g y)" for y
      using wait_restorable(2) [OF runtime_invD(2) [OF inv f] w(1), of y] sn w(3) by auto
  qed
  moreover have "\<forall>y. map_of (snapshots g) y = None \<longleftrightarrow> map_of (snapshots f) y = None" using w(3) sn by simp
  moreover have "on_offload (wait sid) s = (Inr sn', s\<lparr>offload := Some g\<rparr>)" by (simp add: on_offload_def f w(1))
  ultimately show ?thesis using w(4) by blast
qed

lemma demote_step:
  assumes inv: "runtime_inv {} s" and c: "chain_at (index s) c = Some k" "state k = IDLE" "has_snapshot s c"
    and run: "demote_chain H c s = (r, t)"
  shows "runtime_inv {} t" "v \<noteq> c \<Longrightarrow> chain_at (index t) v = chain_at (index s) v" "has_snapshot t v = has_snapshot s v"
    "offload t = None \<longleftrightarrow> offload s = None"
proof -
  obtain a where a: "chain_lookup c (index s) = Inr a" "heap (index s) a = k" "map_of (records (index s)) c = Some a"
    using chain_lookup_eq(2) [OF c(1)] by blast
  obtain f where f: "offload s = Some f" "map_of (snapshots f) (seq_id k) \<noteq> None" using c(1,3) by (auto simp: has_snapshot_def)
  obtain sn g where w: "on_offload (wait (seq_id k)) s = (Inr sn, s\<lparr>offload := Some g\<rparr>)" "runtime_inv {} (s\<lparr>offload := Some g\<rparr>)"
      "\<And>y. map_of (snapshots g) y = None \<longleftrightarrow> map_of (snapshots f) y = None" "valid sn \<longleftrightarrow> restorable f (seq_id k)"
    using wait_inv [OF inv f] by blast
  have valid: "valid sn" using w(4) runtime_invD(3) [OF inv c(1)] f c(2) by (auto simp: backed_def)
  obtain q m where m: "manager_free_seq H (seq_id k) (manager s) = (q, m)" by fastforce
  let ?u = "s\<lparr>offload := Some g, manager := m\<rparr>"
  have u: "runtime_inv {} ?u" using w(2) by (metis manager_inv)
  have hs: "has_snapshot ?u v \<longleftrightarrow> has_snapshot s v" for v unfolding has_snapshot_def by (simp add: f(1) w(3) del: not_None_eq)
  have step: "demote_chain H c s = (case q of Inl e \<Rightarrow> (Inl e, ?u) | Inr _ \<Rightarrow> (Inr (), set_chain_record a (\<lambda>k. k\<lparr>resident_rows := 0\<rparr>) ?u))"
    using a c(2) w(1) valid m by (simp add: demote_chain_def eff_simps on_index_def on_manager_def split: sum.split)
  note d = demoted_inv [OF u, of c a]
  have "runtime_inv {} t \<and> (\<forall>v. v \<noteq> c \<longrightarrow> chain_at (index t) v = chain_at (index s) v) \<and> (\<forall>v. has_snapshot t v = has_snapshot s v) \<and>
      (offload t = None \<longleftrightarrow> offload s = None)"
  proof (cases q)
    case (Inl e)
    then show ?thesis using run u hs f(1) unfolding step by auto
  next
    case (Inr y)
    then have t: "t = set_chain_record a (\<lambda>k. k\<lparr>resident_rows := 0\<rparr>) ?u" using run unfolding step by auto
    have at: "chain_at (index t) = (chain_at (index s))(c \<mapsto> k\<lparr>resident_rows := 0\<rparr>)"
      using d(2) a c(2,3) hs unfolding t by simp
    then have "has_snapshot t v \<longleftrightarrow> has_snapshot s v" for v
      using c(1) unfolding has_snapshot_def by (simp add: t f(1) w(3) del: not_None_eq)
    moreover have "runtime_inv {} t" using d(1) a c(2,3) hs unfolding t by simp
    ultimately show ?thesis using at f(1) by (simp add: t)
  qed
  then show "runtime_inv {} t" "v \<noteq> c \<Longrightarrow> chain_at (index t) v = chain_at (index s) v" "has_snapshot t v = has_snapshot s v"
    "offload t = None \<longleftrightarrow> offload s = None" by blast+
qed

lemma demotes_run:
  assumes "runtime_inv {} s" and "distinct ds"
    and "\<And>d. d \<in> set ds \<Longrightarrow> (\<exists>k. chain_at (index s) d = Some k \<and> state k = IDLE) \<and> has_snapshot s d"
    and "forE ds (demote_chain H) s = (r, t)"
  shows "runtime_inv {} t \<and> (\<forall>v. v \<notin> set ds \<longrightarrow> chain_at (index t) v = chain_at (index s) v) \<and>
    (\<forall>v. has_snapshot t v = has_snapshot s v) \<and> (offload t = None \<longleftrightarrow> offload s = None)"
  using assms
proof (induction ds arbitrary: s)
  case (Cons d ds)
  obtain k where k: "chain_at (index s) d = Some k" "state k = IDLE" "has_snapshot s d" using Cons.prems(3) [of d] by auto
  obtain q u where q: "demote_chain H d s = (q, u)" by fastforce
  note st = demote_step [OF Cons.prems(1) k q]
  show ?case
  proof (cases q)
    case (Inl e)
    then show ?thesis using Cons.prems(4) q st by (auto simp: eff_simps)
  next
    case (Inr y)
    then have "forE ds (demote_chain H) u = (r, t)" using Cons.prems(4) q by (simp add: eff_simps)
    moreover have "(\<exists>k. chain_at (index u) e = Some k \<and> state k = IDLE) \<and> has_snapshot u e" if "e \<in> set ds" for e
    proof -
      have "e \<noteq> d" using Cons.prems(2) that by auto
      then show ?thesis using Cons.prems(3) [of e] that st(2) [of e] st(3) [of e] by simp
    qed
    ultimately show ?thesis using Cons.IH [OF st(1)] Cons.prems(2) st(2-4) by auto
  qed
qed (simp add: eff_simps)

end
