(* ===== verification/Chain_Admission.thy ===== *)
theory Chain_Admission
  imports Chain_Runtime
begin

text \<open>
  Applying an admission plan.  A plan made in the current state demotes chains that have a host copy,
  evicts the other victims, and leaves the admitted chain active; when restoring the payload of a
  resumed chain fails, the chain is idle again and can still be restored.
\<close>

section \<open>Changing which chains are exempt\<close>

lemma runtime_inv_shrink:
  assumes "runtime_inv (insert c x) s" and "\<And>k. chain_at (index s) c = Some k \<Longrightarrow> backed (offload s) k"
  shows "runtime_inv x s"
  using assms unfolding runtime_inv_def by blast

lemma active_backed: "state k = ACTIVE \<Longrightarrow> backed f k"
  by (simp add: backed_def)

text \<open>Dropping a snapshot is safe unless an idle chain without device rows has it.\<close>

lemma drop_inv:
  assumes inv: "runtime_inv x s" and f: "offload s = Some f"
    and safe: "\<And>c k. chain_at (index s) c = Some k \<Longrightarrow> seq_id k = sid \<Longrightarrow> c \<notin> x \<Longrightarrow> state k = IDLE \<Longrightarrow> resident_rows k \<noteq> 0"
  shows "\<exists>g. on_offload (drop_snapshot sid) s = (Inr (), s\<lparr>offload := Some g\<rparr>) \<and> runtime_inv x (s\<lparr>offload := Some g\<rparr>) \<and>
    map_of (snapshots g) = (map_of (snapshots f))(sid := None)"
proof -
  note r = runtime_invD [OF inv]
  obtain g where g: "drop_snapshot sid f = (Inr (), g)" "host_ok g" "map_of (snapshots g) = (map_of (snapshots f))(sid := None)"
    using drop_ok [OF r(2) [OF f]] by blast
  have "backed (Some g) k" if k: "chain_at (index s) c = Some k" "c \<notin> x" for c k
    using r(3) [OF k] safe [OF k(1) _ k(2)] by (auto simp: backed_def f g(3) restorable_def)
  then have "runtime_inv x (s\<lparr>offload := Some g\<rparr>)" using r(1) g(2) by (simp add: runtime_inv_def)
  then show ?thesis using g(1,3) f by (intro exI [of _ g]) (simp add: on_offload_def)
qed

section \<open>Victims\<close>

lemma drop_victim_nop:
  assumes "chain_at (index s) v = Some k" and "\<not> has_snapshot s v" and "offload s \<noteq> None"
  shows "drop_victim v s = (Inr (), s)"
proof -
  obtain f where f: "offload s = Some f" using assms(3) by blast
  obtain a where a: "chain_lookup v (index s) = Inr a" "heap (index s) a = k" using chain_lookup_eq(2) [OF assms(1)] by blast
  have "map_of (snapshots f) (seq_id k) = None" using assms(1,2) f by (auto simp: has_snapshot_def)
  then have "on_offload (drop_snapshot (seq_id k)) s = (Inr (), s)" using f by (simp add: on_offload_def drop_snapshot_def)
  then show ?thesis using a by (simp add: drop_victim_def eff_simps on_index_def)
qed

lemma drop_victims_nop:
  assumes "\<forall>v\<in>set vs. (\<exists>k. chain_at (index s) v = Some k) \<and> \<not> has_snapshot s v" and "offload s \<noteq> None"
  shows "forE vs drop_victim s = (Inr (), s)"
  using assms
proof (induction vs)
  case (Cons v vs)
  then obtain k where "drop_victim v s = (Inr (), s)" using drop_victim_nop [of s v] by auto
  then show ?case using Cons by (simp add: eff_simps)
qed (simp add: eff_simps)

lemma evicts_run:
  assumes "chain_inv i" and "distinct vs" and "\<forall>v\<in>set vs. \<exists>k. chain_at i v = Some k \<and> state k = IDLE"
  shows "\<exists>j. forE vs (\<lambda>c. thenE (evict c) (retE ())) i = (Inr (), j) \<and> chain_inv j \<and> chain_at j = (chain_at i) |` (- set vs)"
  using assms
proof (induction vs arbitrary: i)
  case (Cons v vs)
  obtain k where k: "chain_at i v = Some k" "state k = IDLE" using Cons.prems(3) by auto
  obtain a j where j: "evict v i = (Inr a, j)" "chain_inv j" "chain_at j = (chain_at i)(v := None)"
    using evict_ok [OF Cons.prems(1) k] by blast
  have "\<forall>w\<in>set vs. \<exists>k. chain_at j w = Some k \<and> state k = IDLE" using Cons.prems(2,3) by (auto simp: j(3))
  then obtain l where l: "forE vs (\<lambda>c. thenE (evict c) (retE ())) j = (Inr (), l)" "chain_inv l" "chain_at l = (chain_at j) |` (- set vs)"
    using Cons.IH [OF j(2)] Cons.prems(2) by auto
  have "chain_at l = (chain_at i) |` (- set (v # vs))" by (auto simp: l(3) j(3) restrict_map_def)
  moreover have "thenE (evict v) (retE ()) i = (Inr (), j)" by (simp add: eff_simps j(1))
  then have "forE (v # vs) (\<lambda>c. thenE (evict c) (retE ())) i = (Inr (), l)" using l(1) by (simp add: thenE_apply [of "thenE _ _"])
  ultimately show ?case using l(2) by blast
qed (simp add: eff_simps restrict_map_def fun_eq_iff)

text \<open>What the index needs to apply a plan, and what the admitted chain is like afterwards.\<close>

definition applicable :: "'c chain_index \<Rightarrow> 'c admission_plan \<Rightarrow> bool" where
  "applicable i plan \<longleftrightarrow> distinct (victim_chain_ids plan) \<and> plan_chain_id plan \<notin> set (victim_chain_ids plan) \<and>
     (\<forall>v\<in>set (victim_chain_ids plan). \<exists>k. chain_at i v = Some k \<and> state k = IDLE) \<and>
     (status plan = Created \<longrightarrow> chain_at i (plan_chain_id plan) = None) \<and>
     (status plan = Resumed \<longrightarrow> (\<exists>k. chain_at i (plan_chain_id plan) = Some k \<and> state k = IDLE))"

definition admitted :: "nat \<Rightarrow> 'c \<Rightarrow> ('c, 'm) chain_runtime \<Rightarrow> bool" where
  "admitted a c s \<longleftrightarrow> map_of (records (index s)) c = Some a \<and> state (heap (index s) a) = ACTIVE \<and>
     (resident_rows (heap (index s) a) = 0 \<longrightarrow> backed (offload s) ((heap (index s) a)\<lparr>state := IDLE\<rparr>))"

lemma admittedD:
  assumes "admitted a c s"
  shows "map_of (records (index s)) c = Some a" "chain_at (index s) c = Some (heap (index s) a)" "state (heap (index s) a) = ACTIVE"
    "resident_rows (heap (index s) a) = 0 \<Longrightarrow> backed (offload s) ((heap (index s) a)\<lparr>state := IDLE\<rparr>)"
  using assms chain_at_records by (auto simp: admitted_def)

lemma apply_admission_run:
  assumes inv: "chain_inv i" and app: "applicable i plan" and run: "apply_admission plan fp i = (r, j)"
  shows "chain_inv j" "\<And>c k. c \<noteq> plan_chain_id plan \<Longrightarrow> chain_at j c = Some k \<Longrightarrow> chain_at i c = Some k"
    "r = Inl e \<Longrightarrow> chain_at j (plan_chain_id plan) = chain_at i (plan_chain_id plan)"
    "r = Inr a \<Longrightarrow> map_of (records j) (plan_chain_id plan) = Some a \<and> state (heap j a) = ACTIVE \<and>
       (resident_rows (heap j a) = 0 \<longrightarrow> (\<exists>k. chain_at i (plan_chain_id plan) = Some k \<and> state k = IDLE \<and>
          resident_rows k = 0 \<and> seq_id (heap j a) = seq_id k))"
proof -
  let ?c = "plan_chain_id plan"
  obtain u where u: "forE (victim_chain_ids plan) (\<lambda>c. thenE (evict c) (retE ())) i = (Inr (), u)" "chain_inv u"
      "chain_at u = (chain_at i) |` (- set (victim_chain_ids plan))"
    using evicts_run [OF inv] app unfolding applicable_def by blast
  have c: "chain_at u ?c = chain_at i ?c" using app by (simp add: u(3) applicable_def)
  have sub: "chain_at i d = Some k" if "chain_at u d = Some k" for d k
    using that by (auto simp: u(3) restrict_map_def split: if_splits)
  have "chain_inv j \<and> (\<forall>c k. c \<noteq> ?c \<longrightarrow> chain_at j c = Some k \<longrightarrow> chain_at i c = Some k) \<and>
      (\<forall>e. r = Inl e \<longrightarrow> chain_at j ?c = chain_at i ?c) \<and> (\<forall>a. r = Inr a \<longrightarrow> map_of (records j) ?c = Some a \<and> state (heap j a) = ACTIVE \<and>
       (resident_rows (heap j a) = 0 \<longrightarrow> (\<exists>k. chain_at i ?c = Some k \<and> state k = IDLE \<and> resident_rows k = 0 \<and> seq_id (heap j a) = seq_id k)))"
  proof (cases "status plan")
    case Created
    then have new: "chain_at u ?c = None" using app c by (simp add: applicable_def)
    have j: "create_record plan fp u = (r, j)" using run u(1) Created by (simp add: apply_admission_def thenE_apply [of "forE _ _"])
    show ?thesis
    proof (cases "map_of (seq_id_to_chain_id u) (plan_seq_id plan)")
      case None
      then obtain a where a: "r = Inr a" "chain_inv j" "map_of (records j) ?c = Some a" "resident_rows (heap j a) = 1"
          "chain_at j = (chain_at u)(?c \<mapsto> heap j a)" "state (heap j a) = ACTIVE"
        using create_record_ok [OF u(2) new, of fp] j by auto
      have "chain_at i d = Some k" if "d \<noteq> ?c" "chain_at j d = Some k" for d k
        using sub [of d k] that by (simp add: a(5))
      then show ?thesis using a(1-4,6) by simp
    next
      case (Some d)
      then obtain e where e: "j = u" "r = Inl e" using j new by (auto simp: create_record_def)
      have "chain_inv j" "chain_at j ?c = chain_at i ?c" using u(2) c by (simp_all only: e)
      moreover have "\<And>d k. chain_at j d = Some k \<Longrightarrow> chain_at i d = Some k" using sub by (simp only: e)
      moreover have "\<And>a. r \<noteq> Inr a" using e by simp
      ultimately show ?thesis by blast
    qed
  next
    case Resumed
    obtain k where k: "chain_at u ?c = Some k" "state k = IDLE" using Resumed app c by (auto simp: applicable_def)
    have "resume_record plan u = (r, j)" using run u(1) Resumed by (simp add: apply_admission_def thenE_apply [of "forE _ _"])
    then obtain a where a: "r = Inr a" "chain_inv j" "map_of (records j) ?c = Some a" "chain_at j = (chain_at u)(?c \<mapsto> heap j a)"
        "state (heap j a) = ACTIVE" "resident_rows (heap j a) = resident_rows k" "seq_id (heap j a) = seq_id k"
      using resume_record_ok [OF u(2) k] by auto
    have "chain_at i d = Some k" if "d \<noteq> ?c" "chain_at j d = Some k" for d k
      using sub [of d k] that by (simp add: a(4))
    then show ?thesis using a(1-3,5-7) k c by simp
  qed
  then show "chain_inv j" "\<And>c k. c \<noteq> ?c \<Longrightarrow> chain_at j c = Some k \<Longrightarrow> chain_at i c = Some k"
    "r = Inl e \<Longrightarrow> chain_at j ?c = chain_at i ?c"
    "r = Inr a \<Longrightarrow> map_of (records j) ?c = Some a \<and> state (heap j a) = ACTIVE \<and>
       (resident_rows (heap j a) = 0 \<longrightarrow> (\<exists>k. chain_at i ?c = Some k \<and> state k = IDLE \<and>
          resident_rows k = 0 \<and> seq_id (heap j a) = seq_id k))"
    by blast+
qed

lemma released_run:
  assumes inv: "runtime_inv {} s" and pl: "planned s plan"
    and run: "(if offload s = None then retE ()
      else thenE (forE (demote_chain_ids plan) (demote_chain H)) (forE (victim_chain_ids plan) drop_victim)) s = (r, t)"
  shows "runtime_inv {} t" "r = Inr () \<Longrightarrow> applicable (index t) plan"
proof -
  let ?vs = "victim_chain_ids plan" and ?ds = "demote_chain_ids plan"
  have base: "applicable (index s) plan" using pl by (auto simp: planned_def applicable_def)
  have "runtime_inv {} t \<and> (r = Inr () \<longrightarrow> applicable (index t) plan)"
  proof (cases "offload s = None")
    case True
    then show ?thesis using run inv base by (auto simp: eff_simps)
  next
    case False
    obtain q u where u: "forE ?ds (demote_chain H) s = (q, u)" by fastforce
    have "distinct ?ds" "\<And>d. d \<in> set ?ds \<Longrightarrow> (\<exists>k. chain_at (index s) d = Some k \<and> state k = IDLE) \<and> has_snapshot s d"
      using pl by (auto simp: planned_def)
    note d = demotes_run [OF inv this u]
    have app: "applicable (index u) plan" using base d pl unfolding applicable_def planned_def by auto
    have "\<forall>v\<in>set ?vs. (\<exists>k. chain_at (index u) v = Some k) \<and> \<not> has_snapshot u v"
      using pl d app unfolding planned_def applicable_def by blast
    then have "forE ?vs drop_victim u = (Inr (), u)" by (rule drop_victims_nop) (use d False in blast)
    then show ?thesis using run False u d app by (cases q) (auto simp: thenE_apply [of "forE _ _"])
  qed
  then show "runtime_inv {} t" "r = Inr () \<Longrightarrow> applicable (index t) plan" by blast+
qed

lemma coordinator_applied:
  assumes inv: "runtime_inv {} s" and pl: "planned s plan" and run: "coordinator_apply_admission H fp plan s = (r, t)"
  shows "runtime_inv {} t" "r = Inr a \<Longrightarrow> admitted a (plan_chain_id plan) t"
proof -
  let ?c = "plan_chain_id plan"
  obtain q u where u: "(if offload s = None then retE ()
      else thenE (forE (demote_chain_ids plan) (demote_chain H)) (forE (victim_chain_ids plan) drop_victim)) s = (q, u)" by fastforce
  note rel = released_run [OF inv pl u]
  have "runtime_inv {} t \<and> (\<forall>a. r = Inr a \<longrightarrow> admitted a ?c t)"
  proof (cases q)
    case (Inl e)
    then show ?thesis using run u rel(1) by (auto simp: coordinator_apply_admission_def thenE_apply [of "if _ then _ else _"])
  next
    case (Inr y)
    obtain j where j: "apply_admission plan fp (index u) = (r, j)" and t: "t = u\<lparr>index := j\<rparr>"
      using run u Inr by (auto simp: coordinator_apply_admission_def thenE_apply [of "if _ then _ else _"] on_index_def split: prod.splits)
    have q: "q = Inr ()" using Inr by simp
    note ap = apply_admission_run [OF runtime_invD(1) [OF rel(1)] rel(2) [OF q] j]
    note bk = runtime_invD(3) [OF rel(1)]
    have "backed (offload u) k \<or> chain_at (index u) c = Some k" if k: "chain_at j c = Some k" for c k
    proof (cases "c = ?c")
      case True
      then show ?thesis using ap(3,4) k by (cases r) (auto simp: active_backed chain_at_def)
    qed (use ap(2) k in auto)
    then have "runtime_inv {} t" unfolding t using ap(1) by (intro index_inv [OF rel(1)]) auto
    moreover have "admitted a ?c t" if "r = Inr a" for a
    proof -
      have "backed (offload u) ((heap j a)\<lparr>state := IDLE\<rparr>)" if rows: "resident_rows (heap j a) = 0"
      proof -
        obtain k where k: "chain_at (index u) ?c = Some k" "state k = IDLE" "resident_rows k = 0" "seq_id (heap j a) = seq_id k"
          using ap(4) [OF \<open>r = Inr a\<close>] rows by blast
        then show ?thesis using bk [OF k(1)] rows by (simp add: backed_def split: option.splits)
      qed
      then show ?thesis using ap(4) [OF that] by (simp add: admitted_def t)
    qed
    ultimately show ?thesis by blast
  qed
  then show "runtime_inv {} t" "r = Inr a \<Longrightarrow> admitted a ?c t" by blast+
qed

section \<open>Restoring the payload\<close>

text \<open>A chain that goes back to idle without its reservations.\<close>

lemma idle_again_inv:
  assumes inv: "chain_inv i" and c: "map_of (records i) c = Some a"
  defines "k \<equiv> (heap i a)\<lparr>state := IDLE, reserved_slots_by_layer := [], reserved_rows := 0\<rparr>"
    and "j \<equiv> set_record a (\<lambda>k. k\<lparr>reserved_slots_by_layer := [], reserved_rows := 0\<rparr>) (set_record_state a IDLE i)"
  shows "chain_inv j" "chain_at j = (chain_at i)(c \<mapsto> k)"
proof -
  have id: "chain_id (heap i a) = c" by (rule dicts_okD(2) [OF chain_invD(1) [OF inv] c])
  have m: "token_history_tokens i \<le> m" if "max_token_history_tokens i = Some m" for m
    using chain_invD(2) [OF inv] that by (simp add: account_ok_def)
  note ch = changed_inv [OF inv c, of j k]
  have j: "j = i\<lparr>heap := (heap i)(a := k), active_records := dict_pop c (active_records i), routing_snapshot_cache := None\<rparr>"
    using id by (simp add: j_def k_def set_record_state_def Let_def)
  show "chain_inv j"
    by (rule ch(1)) (use id m in \<open>simp_all add: j k_def history_length_def delete_conv' fun_upd_def\<close>)
  show "chain_at j = (chain_at i)(c \<mapsto> k)"
    by (rule ch(2)) (use id m in \<open>simp_all add: j k_def history_length_def delete_conv' fun_upd_def\<close>)
qed

lemma restored_inv:
  assumes inv: "runtime_inv {} s" and f: "offload s = Some f" and adm: "admitted a c s"
    and run: "restore H sid (f, manager s) = (r, (g, m))"
  shows "runtime_inv {} (s\<lparr>offload := Some g, manager := m\<rparr>)" "admitted a c (s\<lparr>offload := Some g, manager := m\<rparr>)"
proof -
  note h = runtime_invD(2) [OF inv f]
  have g: "(map_of (snapshots f) y = None \<longrightarrow> map_of (snapshots g) y = None) \<and> (restorable f y \<longrightarrow> restorable g y)" for y
    using restore_ok(2,3) [OF h run, of y] by blast
  have "runtime_inv {} (s\<lparr>offload := Some g\<rparr>)" by (rule offload_inv [OF inv f restore_ok(1) [OF h run]]) (rule g)
  then have "runtime_inv {} (s\<lparr>offload := Some g\<rparr>\<lparr>manager := m\<rparr>)" by simp
  then show "runtime_inv {} (s\<lparr>offload := Some g, manager := m\<rparr>)" by simp
  show "admitted a c (s\<lparr>offload := Some g, manager := m\<rparr>)"
    using adm backed_mono [of f "(heap (index s) a)\<lparr>state := IDLE\<rparr>" g] g f by (simp add: admitted_def)
qed

lemma invalidated_inv:
  assumes inv: "runtime_inv x s" and f: "offload s = Some f" and k: "chain_at (index s) c = Some k" "state k = ACTIVE"
  shows "\<exists>g. on_offload (offload_invalidate (seq_id k)) s = (Inr (), s\<lparr>offload := Some g\<rparr>) \<and> runtime_inv x (s\<lparr>offload := Some g\<rparr>)"
proof -
  obtain g where g: "offload_invalidate (seq_id k) f = (Inr (), g)" "host_ok g" "\<And>y. y \<noteq> seq_id k \<Longrightarrow> restorable f y \<Longrightarrow> restorable g y"
      "\<And>y. map_of (snapshots f) y = None \<Longrightarrow> map_of (snapshots g) y = None"
    using offload_invalidate_ok [OF runtime_invD(2) [OF inv f], of "seq_id k"] by blast
  have "runtime_inv (insert c x) (s\<lparr>offload := Some g\<rparr>)"
  proof (rule offload_inv [OF runtime_inv_weaken [OF inv subset_insertI] f g(2)])
    fix y
    assume other: "\<And>d l. d \<in> insert c x \<Longrightarrow> chain_at (index s) d = Some l \<Longrightarrow> seq_id l \<noteq> y"
    have "y \<noteq> seq_id k" using other [OF insertI1 k(1)] by blast
    then show "(map_of (snapshots f) y = None \<longrightarrow> map_of (snapshots g) y = None) \<and> (restorable f y \<longrightarrow> restorable g y)"
      using g(3,4) by blast
  qed
  then have "runtime_inv x (s\<lparr>offload := Some g\<rparr>)" by (rule runtime_inv_shrink) (use k active_backed in auto)
  then show ?thesis using g(1) f by (intro exI [of _ g]) (simp add: on_offload_def)
qed

text \<open>With a device row nothing is restored; otherwise a failed restore leaves the chain as it was.\<close>

abbreviation restore_row :: "nat \<Rightarrow> ('c, 'm) chain_runtime \<Rightarrow> ('c, 'm) chain_runtime" where
  "restore_row a \<equiv> set_chain_record a (\<lambda>k. k\<lparr>resident_rows := 1,
     reserved_slots_by_layer := map (\<lambda>(r, e). r - e) (zip (reserved_slots_by_layer k) (physical_slots_by_layer k)), reserved_rows := 0\<rparr>)"

lemma restore_row_inv:
  assumes inv: "runtime_inv {} s" and adm: "admitted a c s"
  shows "runtime_inv {} (restore_row a s)" "admitted a c (restore_row a s)"
proof -
  note ad = admittedD [OF adm]
  let ?f = "\<lambda>k. k\<lparr>resident_rows := 1, reserved_slots_by_layer := map (\<lambda>(r, e). r - e) (zip (reserved_slots_by_layer k) (physical_slots_by_layer k)),
     reserved_rows := 0\<rparr>"
  have "chain_inv (set_record a ?f (index s))" by (rule adjust_inv(1) [OF runtime_invD(1) [OF inv] ad(1)]) (simp_all add: ad(3))
  moreover have at: "chain_at (set_record a ?f (index s)) = (chain_at (index s))(c \<mapsto> ?f (heap (index s) a))"
    by (rule adjust_inv(2) [OF runtime_invD(1) [OF inv] ad(1)]) (simp_all add: ad(3))
  moreover have "backed (offload s) (?f (heap (index s) a))" by (rule active_backed) (simp add: ad(3))
  ultimately show "runtime_inv {} (restore_row a s)" by (intro index_inv [OF inv]) (auto simp: at split: if_splits)
  show "admitted a c (restore_row a s)" using ad(1,3) by (simp add: admitted_def)
qed

lemma prepare_resumed_run:
  assumes inv: "runtime_inv {} s" and adm: "admitted a c s" and run: "prepare_resumed_chain H a s = (r, t)"
  shows "runtime_inv {} t" "r = Inr () \<Longrightarrow> map_of (records (index t)) c = Some a \<and> state (heap (index t) a) = ACTIVE"
    "r = Inl e \<Longrightarrow> map_of (records (index t)) c = Some a \<and> backed (offload t) ((heap (index t) a)\<lparr>state := IDLE\<rparr>)"
proof -
  let ?sid = "seq_id (heap (index s) a)"
  have tail: "\<exists>g. on_offload (offload_invalidate ?sid) u = (Inr (), u\<lparr>offload := Some g\<rparr>) \<and> runtime_inv {} (u\<lparr>offload := Some g\<rparr>)"
    if u: "runtime_inv {} u" "admitted a c u" "offload u \<noteq> None" "seq_id (heap (index u) a) = ?sid" for u
    using invalidated_inv [OF u(1) _ admittedD(2,3) [OF u(2)]] u(3,4) by auto
  have "runtime_inv {} t \<and> (r = Inr () \<longrightarrow> map_of (records (index t)) c = Some a \<and> state (heap (index t) a) = ACTIVE) \<and>
    (\<forall>e. r = Inl e \<longrightarrow> map_of (records (index t)) c = Some a \<and> backed (offload t) ((heap (index t) a)\<lparr>state := IDLE\<rparr>))"
  proof (cases "offload s")
    case None
    then show ?thesis using run inv admittedD [OF adm] by (auto simp: prepare_resumed_chain_def)
  next
    case (Some f)
    show ?thesis
    proof (cases "resident_rows (heap (index s) a) = 0")
      case False
      then have "on_offload (offload_invalidate ?sid) s = (r, t)"
        using run Some by (simp add: prepare_resumed_chain_def eff_simps)
      then show ?thesis using tail [OF inv adm] Some admittedD [OF adm] by auto
    next
      case rows: True
      obtain q g m where q: "restore H ?sid (f, manager s) = (q, (g, m))" by (metis surj_pair)
      note u = restored_inv [OF inv Some adm q]
      show ?thesis
      proof (cases q)
        case (Inl e)
        then have "r = Inl e" "t = s\<lparr>offload := Some g, manager := m\<rparr>" using run Some rows q by (auto simp: prepare_resumed_chain_def eff_simps)
        then show ?thesis using u admittedD [OF u(2)] rows by simp
      next
        case (Inr y)
        let ?u = "restore_row a (s\<lparr>offload := Some g, manager := m\<rparr>)"
        note v = restore_row_inv [OF u]
        have "on_offload (offload_invalidate ?sid) ?u = (r, t)" using run Some rows q Inr by (simp add: prepare_resumed_chain_def eff_simps)
        then show ?thesis using tail [OF v] admittedD [OF v(2)] by auto
      qed
    qed
  qed
  then show "runtime_inv {} t" "r = Inr () \<Longrightarrow> map_of (records (index t)) c = Some a \<and> state (heap (index t) a) = ACTIVE"
    "r = Inl e \<Longrightarrow> map_of (records (index t)) c = Some a \<and> backed (offload t) ((heap (index t) a)\<lparr>state := IDLE\<rparr>)" by blast+
qed

section \<open>The whole admission\<close>

lemma on_manager_keeps: "(\<And>s x. I (s\<lparr>manager := x\<rparr>) = I s) \<Longrightarrow> keeps I (on_manager m)"
  by (simp add: keeps_def on_manager_def split: prod.split)

lemma on_index_query_keeps: "keeps I (on_index (queryE q))"
  by (simp add: keeps_def on_index_def eff_simps)

lemma keeps_weak: "keeps I m \<Longrightarrow> (\<And>s. I s \<Longrightarrow> E s) \<Longrightarrow> spec I m (\<lambda>_. I) E"
  unfolding keeps_spec by (erule spec_weaken)

lemma apply_failed_inv:
  assumes inv: "runtime_inv {} s" and c: "map_of (records (index s)) c = Some a"
    and b: "backed (offload s) ((heap (index s) a)\<lparr>state := IDLE\<rparr>)"
  shows "runtime_inv {} (set_chain_record a (\<lambda>k. k\<lparr>reserved_slots_by_layer := [], reserved_rows := 0\<rparr>)
    (s\<lparr>index := set_record_state a IDLE (index s)\<rparr>))"
proof -
  note i = idle_again_inv [OF runtime_invD(1) [OF inv] c]
  have "backed (offload s) ((heap (index s) a)\<lparr>state := IDLE, reserved_slots_by_layer := [], reserved_rows := 0\<rparr>)"
    using b by (simp add: backed_def split: option.splits)
  then have "runtime_inv {} (s\<lparr>index := set_record a (\<lambda>k. k\<lparr>reserved_slots_by_layer := [], reserved_rows := 0\<rparr>)
      (set_record_state a IDLE (index s))\<rparr>)"
    by (intro index_inv [OF inv i(1)]) (auto simp: i(2) split: if_splits)
  then show ?thesis by simp
qed

lemma admission_spec:
  "spec (\<lambda>s. runtime_inv {} s \<and> planned s plan) (chain_apply_admission H fp plan)
     (\<lambda>a s. runtime_inv {} s \<and> map_of (records (index s)) (plan_chain_id plan) = Some a \<and> state (heap (index s) a) = ACTIVE)
     (runtime_inv {})"
proof -
  let ?c = "plan_chain_id plan" and ?P = "\<lambda>s. runtime_inv {} s \<and> planned s plan"
  let ?Q = "\<lambda>a s. runtime_inv {} s \<and> map_of (records (index s)) ?c = Some a \<and> state (heap (index s) a) = ACTIVE"
  let ?I = "\<lambda>a s. runtime_inv {} s \<and> admitted a ?c s"
  have co: "spec ?P (coordinator_apply_admission H fp plan) ?I (runtime_inv {})"
    by (rule specI) (use coordinator_applied in blast)+
  have free: "spec (?I a) (forE sids (\<lambda>sid. on_manager (free_seq_payload H sid))) (\<lambda>_. ?I a) (runtime_inv {})" for a sids
    by (intro keeps_weak keeps_forE on_manager_keeps) (simp_all add: admitted_def)
  have look: "spec (?I a) (forE ds (\<lambda>c. bindE (on_index (queryE (chain_lookup c))) (\<lambda>b.
      bindE (getE (\<lambda>s. seq_id (heap (index s) b))) (\<lambda>sid. on_manager (modifyE (discard_resident H sid)))))) (\<lambda>_. ?I a) (runtime_inv {})" for a ds
    by (intro keeps_weak keeps_forE keeps_bindE on_index_query_keeps keeps_pure on_manager_keeps) (simp_all add: admitted_def)
  have last: "spec (?Q a) (thenE (bindE (getE (\<lambda>s. seq_id (heap (index s) a))) (\<lambda>sid.
      if status plan = Resumed then on_manager (modifyE (add_resident H sid)) else retE ())) (retE a)) ?Q (runtime_inv {})" for a
    by (rule spec_then [OF keeps_weak]) (auto intro!: keeps_bindE keeps_pure on_manager_keeps spec_ret)
  have prep: "spec (?I a) (on_errorE (prepare_resumed_chain H a)
      (\<lambda>s. if status plan = Resumed then set_chain_record a (\<lambda>k. k\<lparr>reserved_slots_by_layer := [], reserved_rows := 0\<rparr>)
             (s\<lparr>index := set_record_state a IDLE (index s)\<rparr>) else s)) (\<lambda>_. ?Q a) (runtime_inv {})" for a
  proof (rule spec_on_error, rule specI)
    fix s e t
    assume s: "?I a s" "prepare_resumed_chain H a s = (Inl e, t)"
    note p = prepare_resumed_run [OF conjunct1 [OF s(1)] conjunct2 [OF s(1)] s(2)]
    show "runtime_inv {} (if status plan = Resumed then set_chain_record a (\<lambda>k. k\<lparr>reserved_slots_by_layer := [], reserved_rows := 0\<rparr>)
             (t\<lparr>index := set_record_state a IDLE (index t)\<rparr>) else t)"
      using p(1) apply_failed_inv [OF p(1)] p(3) by auto
  next
    fix s x t
    assume s: "?I a s" "prepare_resumed_chain H a s = (Inr x, t)"
    note p = prepare_resumed_run [OF conjunct1 [OF s(1)] conjunct2 [OF s(1)] s(2)]
    show "?Q a t" using p(1,2) by simp
  qed
  show ?thesis
    unfolding chain_apply_admission_def
    by (rule spec_bind [where R = "\<lambda>_. ?P"], rule spec_query; (simp; fail)?)
      (rule spec_bind [OF co], rule spec_then [OF look], rule spec_then [OF free], rule spec_then [OF prep last])
qed

end
