(* ===== verification/Chain_Turns.thy ===== *)
theory Chain_Turns
  imports Chain_Admission
begin

text \<open>
  The end of a turn, reclaiming and invalidating chains.  While a turn is being finished its chain is
  exempt from the invariant: it is idle with a device row before its payload is saved.  Either saving
  succeeds, and the new snapshot can be restored, or the chain is removed.
\<close>

section \<open>Room on the host\<close>

text \<open>The candidates are records of other chains; removing one leaves the others in place.\<close>

definition candidates_ok :: "'c \<Rightarrow> nat list \<Rightarrow> 'c chain_index \<Rightarrow> bool" where
  "candidates_ok c as i \<longleftrightarrow> distinct as \<and> (\<forall>a\<in>set as. \<exists>d. d \<noteq> c \<and> map_of (records i) d = Some a)"

lemma evict_addresses:
  assumes "evict d i = (r, j)"
  shows "e \<noteq> d \<Longrightarrow> map_of (records j) e = map_of (records i) e"
  using assms
  by (auto simp: evict_def remove_record_def drop_token_history_def delete_conv' Let_def split: sum.splits if_splits)

lemma host_candidates_ok:
  assumes "dicts_ok (index s)" and "map_of (records (index s)) c = Some a"
  shows "candidates_ok c (host_candidates (heap (index s) a) s) (index s)"
proof (cases "offload s")
  case None
  then show ?thesis by (simp add: host_candidates_def candidates_ok_def)
next
  case (Some f)
  note d = dicts_okD [OF assms(1)]
  have rec: "map_of (records (index s)) e = Some b" if "(e, b) \<in> set (records (index s))" for e b using that d(1) by simp
  have "inj_on snd (set (records (index s)))"
    using rec address_unique [OF assms(1)] by (fastforce simp: inj_on_def)
  then have "distinct (map snd (records (index s)))" using d(1) by (simp add: distinct_map)
  moreover have "\<exists>e. e \<noteq> c \<and> map_of (records (index s)) e = Some b"
    if "b \<in> set (map snd (records (index s)))" "chain_id (heap (index s) b) \<noteq> chain_id (heap (index s) a)" for b
    using that rec d(2) assms(2) by fastforce
  ultimately show ?thesis by (auto simp: host_candidates_def candidates_ok_def Some)
qed

text \<open>One candidate: its snapshot goes, and with it a chain that has no device rows.\<close>

lemma make_room_step:
  assumes inv: "runtime_inv {c} s" and f: "offload s = Some f" and d: "d \<noteq> c" "map_of (records (index s)) d = Some a"
    and c: "map_of (records (index s)) c = Some b"
    and run: "thenE (on_offload (drop_snapshot (seq_id (heap (index s) a))))
      (if resident_rows (heap (index s) a) = 0 then thenE (on_index (evict (chain_id (heap (index s) a)))) (retE ()) else retE ()) s = (r, t)"
  shows "runtime_inv {c} t" "\<And>e. e \<noteq> d \<Longrightarrow> map_of (records (index t)) e = map_of (records (index s)) e"
    "heap (index t) b = heap (index s) b" "\<exists>g. offload t = Some g"
proof -
  let ?k = "heap (index s) a"
  note r = runtime_invD [OF inv]
  have k: "chain_at (index s) d = Some ?k" "chain_id ?k = d"
    using d(2) dicts_okD(2) [OF chain_invD(1) [OF r(1)] d(2)] by (simp_all add: chain_at_records)
  have ab: "a \<noteq> b" using address_unique [OF chain_invD(1) [OF r(1)] d(2), of c] c d(1) by blast
  obtain g where g: "on_offload (drop_snapshot (seq_id ?k)) s = (Inr (), s\<lparr>offload := Some g\<rparr>)" "runtime_inv {d, c} (s\<lparr>offload := Some g\<rparr>)"
      "map_of (snapshots g) = (map_of (snapshots f))(seq_id ?k := None)"
    using drop_inv [OF runtime_inv_weaken [OF inv] f, of "{d, c}" "seq_id ?k"] owner_unique [OF r(1) k(1)] by auto
  let ?u = "s\<lparr>offload := Some g\<rparr>"
  have keep: "runtime_inv {c} ?u" if "resident_rows ?k \<noteq> 0 \<or> state ?k = ACTIVE"
    by (rule runtime_inv_shrink [OF g(2)]) (use k(1) g(3) that in \<open>auto simp: backed_def\<close>)
  have "runtime_inv {c} t \<and> (\<forall>e. e \<noteq> d \<longrightarrow> map_of (records (index t)) e = map_of (records (index s)) e) \<and>
      heap (index t) b = heap (index s) b \<and> (\<exists>g. offload t = Some g)"
  proof (cases "resident_rows ?k = 0")
    case False
    then have "t = ?u" using run g(1) by (simp add: eff_simps)
    then show ?thesis using keep False by simp
  next
    case rows: True
    obtain q j where q: "evict d (index s) = (q, j)" by fastforce
    have t: "t = ?u\<lparr>index := j\<rparr>"
      using run g(1) rows q k(2) by (cases q) (auto simp: eff_simps on_index_def)
    have "heap j b = heap (index s) b"
      using q ab d(2) by (auto simp: evict_def chain_lookup_def remove_record_def drop_token_history_def Let_def split: if_splits)
    moreover have "runtime_inv {c} t"
    proof (cases "state ?k = ACTIVE")
      case True
      then have "j = index s" using q d(2) by (auto simp: evict_def chain_lookup_def)
      then show ?thesis using keep True t by simp
    next
      case False
      then have "state ?k = IDLE" using chain_state.exhaust by auto
      then have j: "chain_inv j" "chain_at j = (chain_at (index s))(d := None)" using evict_ok [OF r(1) k(1)] q by auto
      have "runtime_inv {d, c} t" unfolding t by (rule index_inv [OF g(2) j(1)]) (auto simp: j(2) split: if_splits)
      then show ?thesis by (rule runtime_inv_shrink) (simp add: t j(2))
    qed
    ultimately show ?thesis using evict_addresses [OF q] t by simp
  qed
  then show "runtime_inv {c} t" "\<And>e. e \<noteq> d \<Longrightarrow> map_of (records (index t)) e = map_of (records (index s)) e"
    "heap (index t) b = heap (index s) b" "\<exists>g. offload t = Some g" by blast+
qed

text \<open>The chain \<open>c\<close> whose turn ends keeps its record \<open>b\<close>.\<close>

definition finishing :: "'c \<Rightarrow> nat \<Rightarrow> ('c, 'm) chain_runtime \<Rightarrow> bool" where
  "finishing c b s \<longleftrightarrow> runtime_inv {c} s \<and> map_of (records (index s)) c = Some b"

lemma finishing_manager [simp]: "finishing c b (s\<lparr>manager := m\<rparr>) = finishing c b s"
  by (simp add: finishing_def)

lemma make_host_room_run:
  assumes "finishing c b s" and "candidates_ok c as (index s)" and "offload s \<noteq> None"
    and "make_host_room old req as s = (r, t)"
  shows "finishing c b t \<and> heap (index t) b = heap (index s) b \<and> offload t \<noteq> None"
  using assms
proof (induction as arbitrary: s)
  case (Cons a as)
  obtain f where f: "offload s = Some f" using Cons.prems(3) by blast
  show ?case
  proof (cases "used_bytes f - old + req \<le> capacity_bytes f")
    case True
    then show ?thesis using Cons.prems f by auto
  next
    case False
    let ?m = "thenE (on_offload (drop_snapshot (seq_id (heap (index s) a))))
      (if resident_rows (heap (index s) a) = 0 then thenE (on_index (evict (chain_id (heap (index s) a)))) (retE ()) else retE ())"
    obtain d where d: "d \<noteq> c" "map_of (records (index s)) d = Some a" using Cons.prems(2) by (auto simp: candidates_ok_def)
    obtain q u where u: "?m s = (q, u)" by fastforce
    have fin: "runtime_inv {c} s" "map_of (records (index s)) c = Some b" using Cons.prems(1) by (simp_all add: finishing_def)
    note st = make_room_step [OF fin(1) f d fin(2) u]
    have next': "finishing c b u" "offload u \<noteq> None" "heap (index u) b = heap (index s) b"
      using st(1,3,4) st(2) [of c] d(1) fin(2) by (auto simp: finishing_def)
    have "candidates_ok c as (index u)"
    proof -
      have "\<exists>e. e \<noteq> c \<and> map_of (records (index u)) e = Some x" if x: "x \<in> set as" for x
      proof -
        obtain e where e: "e \<noteq> c" "map_of (records (index s)) e = Some x" using Cons.prems(2) x by (auto simp: candidates_ok_def)
        have "e \<noteq> d" using e(2) d(2) Cons.prems(2) x by (auto simp: candidates_ok_def)
        then show ?thesis using e st(2) [of e] by auto
      qed
      then show ?thesis using Cons.prems(2) by (simp add: candidates_ok_def)
    qed
    note IH = Cons.IH [OF next'(1) this next'(2)]
    have "make_host_room old req (a # as) s = (case ?m s of (Inl e, v) \<Rightarrow> (Inl e, v) | (Inr _, v) \<Rightarrow> make_host_room old req as v)"
      using f False by (auto simp: eff_simps Let_def split: prod.splits sum.splits)
    then show ?thesis using Cons.prems(4) u IH next' by (cases q) auto
  qed
qed auto

lemma save_inv:
  assumes fin: "finishing c b s" and f: "offload s = Some f"
    and run: "on_offload (save H m (seq_id (heap (index s) b)) n) s = (r, t)"
  shows "finishing c b t" "index t = index s" "r = Inr () \<Longrightarrow> backed (offload t) (heap (index t) b)"
proof -
  let ?sid = "seq_id (heap (index s) b)"
  have inv: "runtime_inv {c} s" and c: "map_of (records (index s)) c = Some b" using fin by (simp_all add: finishing_def)
  obtain g where g: "save H m ?sid n f = (r, g)" and t: "t = s\<lparr>offload := Some g\<rparr>"
    using run f by (cases "save H m ?sid n f") (auto simp: on_offload_def)
  note sv = save_ok [OF runtime_invD(2) [OF inv f] g]
  have "runtime_inv {c} t"
    unfolding t
  proof (rule offload_inv [OF inv f sv(1)])
    fix y
    assume "\<And>d l. d \<in> {c} \<Longrightarrow> chain_at (index s) d = Some l \<Longrightarrow> seq_id l \<noteq> y"
    from this [OF singletonI chain_at_records [OF c]] have "y \<noteq> ?sid" by blast
    then show "(map_of (snapshots f) y = None \<longrightarrow> map_of (snapshots g) y = None) \<and> (restorable f y \<longrightarrow> restorable g y)"
      using sv(2,4) [of y] by blast
  qed
  then show "finishing c b t" "index t = index s" using c by (simp_all add: finishing_def t)
  show "backed (offload t) (heap (index t) b)" if "r = Inr ()"
    using sv(3) that by (auto simp: backed_def t restorable_def)
qed

lemma save_finished_cases:
  assumes "offload s = Some f" and "save_finished_chain H b s = (r, t)"
  shows "(t = s \<and> (\<exists>e. r = Inl e)) \<or> (\<exists>n old req. thenE (make_host_room old req (host_candidates (heap (index s) b) s))
    (\<lambda>s'. on_offload (save H (manager s') (seq_id (heap (index s) b)) n) s') s = (r, t))"
proof (cases "snapshot_chain_method_state H (seq_id (heap (index s) b)) (manager s)")
  case (Inr n)
  show ?thesis
  proof (cases "residency_lengths H (seq_id (heap (index s) b)) (manager s)")
    case (Inr ls)
    show ?thesis
    proof (cases "int (required_bytes H ls n) > capacity_bytes f")
      case True
      show ?thesis
        by (rule disjI1) (use assms Inr \<open>snapshot_chain_method_state H _ _ = Inr n\<close> True in \<open>auto simp: save_finished_chain_def Let_def\<close>)
    next
      case False
      show ?thesis
        by (intro disjI2 exI) (use assms Inr \<open>snapshot_chain_method_state H _ _ = Inr n\<close> False in \<open>simp add: save_finished_chain_def Let_def\<close>)
    qed
  qed (rule disjI1, use assms Inr in \<open>auto simp: save_finished_chain_def Let_def\<close>)
qed (rule disjI1, use assms in \<open>auto simp: save_finished_chain_def Let_def\<close>)

lemma save_finished_run:
  assumes fin: "finishing c b s" and rows: "resident_rows (heap (index s) b) \<noteq> 0" and run: "save_finished_chain H b s = (r, t)"
  shows "finishing c b t" "heap (index t) b = heap (index s) b" "r = Inr () \<Longrightarrow> backed (offload t) (heap (index t) b)"
proof -
  let ?k = "heap (index s) b"
  have inv: "runtime_inv {c} s" and c: "map_of (records (index s)) c = Some b" using fin by (simp_all add: finishing_def)
  have "finishing c b t \<and> heap (index t) b = ?k \<and> (r = Inr () \<longrightarrow> backed (offload t) (heap (index t) b))"
  proof (cases "offload s")
    case None
    then show ?thesis using run fin rows by (auto simp: save_finished_chain_def backed_def)
  next
    case (Some f)
    show ?thesis
    proof (cases "t = s \<and> (\<exists>e. r = Inl e)")
      case True
      then show ?thesis using fin by auto
    next
      case False
      have "\<exists>n old req. thenE (make_host_room old req (host_candidates ?k s)) (\<lambda>s'. on_offload (save H (manager s') (seq_id ?k) n) s') s = (r, t)"
        by (rule disjE [OF save_finished_cases [OF Some run]], use False in blast, assumption)
      then obtain n old req where run': "thenE (make_host_room old req (host_candidates ?k s))
          (\<lambda>s'. on_offload (save H (manager s') (seq_id ?k) n) s') s = (r, t)" by (elim exE)
      obtain q u where u: "make_host_room old req (host_candidates ?k s) s = (q, u)" by fastforce
      have "offload s \<noteq> None" using Some by simp
      note mr = make_host_room_run [OF fin host_candidates_ok [OF chain_invD(1) [OF runtime_invD(1) [OF inv]] c] this u]
      obtain g where g: "offload u = Some g" using mr by blast
      have fu: "finishing c b u" "heap (index u) b = ?k" using mr by simp_all
      show ?thesis
      proof (cases q)
        case (Inl e)
        then have "t = u" "r = Inl e" using run' u by (simp_all add: thenE_apply)
        then show ?thesis using fu by simp
      next
        case (Inr y)
        then have "on_offload (save H (manager u) (seq_id (heap (index u) b)) n) u = (r, t)"
          using run' u unfolding fu(2) by (simp add: thenE_apply)
        from save_inv [OF fu(1) g this] show ?thesis using fu(2) by simp
      qed
    qed
  qed
  then show "finishing c b t" "heap (index t) b = heap (index s) b" "r = Inr () \<Longrightarrow> backed (offload t) (heap (index t) b)" by blast+
qed

section \<open>Removing a chain\<close>

text \<open>Removing a record removes the only chain that was exempt.\<close>

lemma remove_inv:
  assumes inv: "runtime_inv {c} s" and c: "map_of (records (index s)) c = Some b" and j: "chain_inv j" "chain_at j = (chain_at (index s))(c := None)"
  shows "runtime_inv {} (s\<lparr>index := j\<rparr>)"
proof -
  have "runtime_inv {c} (s\<lparr>index := j\<rparr>)" by (rule index_inv [OF inv j(1)]) (auto simp: j(2) split: if_splits)
  then show ?thesis by (rule runtime_inv_shrink) (simp add: j(2))
qed

lemma drop_finishing:
  assumes fin: "finishing c b s" and f: "offload s = Some f"
  shows "\<exists>g. on_offload (drop_snapshot (seq_id (heap (index s) b))) s = (Inr (), s\<lparr>offload := Some g\<rparr>) \<and> finishing c b (s\<lparr>offload := Some g\<rparr>) \<and>
    map_of (snapshots g) = (map_of (snapshots f))(seq_id (heap (index s) b) := None)"
proof -
  have inv: "runtime_inv {c} s" and c: "map_of (records (index s)) c = Some b" using fin by (simp_all add: finishing_def)
  have "d = c" if "chain_at (index s) d = Some k" "seq_id k = seq_id (heap (index s) b)" for d k
    using owner_unique [OF runtime_invD(1) [OF inv] that(1) chain_at_records [OF c] that(2)] .
  then show ?thesis using drop_inv [OF inv f, of "seq_id (heap (index s) b)"] c by (auto simp: finishing_def)
qed

lemma coordinator_invalidate_run:
  assumes fin: "finishing c b s"
  shows "\<exists>t. coordinator_invalidate c s = (Inr b, t) \<and> runtime_inv {} t \<and> chain_at (index t) = (chain_at (index s))(c := None)"
proof -
  have c: "map_of (records (index s)) c = Some b" using fin by (simp add: finishing_def)
  have gone: "\<exists>t. on_index (invalidate c) u = (Inr b, t) \<and> runtime_inv {} t \<and> chain_at (index t) = (chain_at (index u))(c := None)"
    if u: "finishing c b u" for u
  proof -
    have cu: "map_of (records (index u)) c = Some b" and inv: "runtime_inv {c} u" using u by (simp_all add: finishing_def)
    note rm = chain_removed_inv [OF runtime_invD(1) [OF inv] cu]
    let ?j = "(remove_record c b (index u))\<lparr>st_invalidated := st_invalidated (index u) + 1\<rparr>"
    have "runtime_inv {} (u\<lparr>index := ?j\<rparr>)" by (rule remove_inv [OF inv cu]) (simp_all add: rm)
    then show ?thesis using cu rm(2) by (simp add: on_index_def invalidate_def chain_lookup_def)
  qed
  show ?thesis
  proof (cases "offload s")
    case None
    then show ?thesis using gone [OF fin] by (simp add: coordinator_invalidate_def eff_simps)
  next
    case (Some f)
    obtain g where g: "on_offload (drop_snapshot (seq_id (heap (index s) b))) s = (Inr (), s\<lparr>offload := Some g\<rparr>)" "finishing c b (s\<lparr>offload := Some g\<rparr>)"
      using drop_finishing [OF fin Some] by blast
    have "chain_lookup c (index s) = Inr b" using c by (simp add: chain_lookup_def)
    then have "coordinator_invalidate c s = on_index (invalidate c) (s\<lparr>offload := Some g\<rparr>)"
      using Some g(1) by (simp add: coordinator_invalidate_def eff_simps on_index_def)
    then show ?thesis using gone [OF g(2)] by simp
  qed
qed

lemma invalidate_spec: "spec (finishing c b) (thenE (coordinator_invalidate c) (on_manager m)) (\<lambda>_. runtime_inv {}) (runtime_inv {})"
proof (rule spec_then)
  show "spec (finishing c b) (coordinator_invalidate c) (\<lambda>_. runtime_inv {}) (runtime_inv {})"
    by (rule specI) (use coordinator_invalidate_run in fastforce)+
  show "spec (runtime_inv {}) (on_manager m) (\<lambda>_. runtime_inv {}) (runtime_inv {})"
    by (intro keeps_weak on_manager_keeps) simp_all
qed

lemma finishingI: "runtime_inv {} s \<Longrightarrow> chain_lookup c (index s) = Inr a \<Longrightarrow> finishing c a s"
  using runtime_inv_weaken [of "{}" s "{c}"] by (simp add: finishing_def chain_lookup_eq(1))

lemma chain_invalidate_keeps: "keeps (runtime_inv {}) (chain_invalidate H c expected)"
proof -
  have "spec (\<lambda>s. finishing c a s \<and> runtime_inv {} s) (bindE (getE (\<lambda>s. seq_id (heap (index s) a))) (\<lambda>sid.
      if (case expected of None \<Rightarrow> False | Some e \<Rightarrow> sid \<noteq> e) then raiseE ChainOwnerMismatchError
      else thenE (coordinator_invalidate c) (on_manager (free_seq_payload H sid)))) (\<lambda>_. runtime_inv {}) (runtime_inv {})" for a
    by (rule spec_bind [OF spec_get [where Q = "\<lambda>_ s. finishing c a s \<and> runtime_inv {} s"]])
      (auto intro!: spec_raise intro: spec_weaken [OF invalidate_spec])
  then show ?thesis
    unfolding keeps_spec chain_invalidate_def
    by (intro spec_bind [where R = "\<lambda>a s. finishing c a s \<and> runtime_inv {} s"])
      (auto simp: spec_def on_index_def eff_simps finishingI split: sum.split)
qed

section \<open>The end of a turn\<close>

text \<open>What a finished turn leaves of the record \<open>k\<close>.\<close>

definition turned :: "bytes \<Rightarrow> int \<Rightarrow> 'c chain_record \<Rightarrow> 'c chain_record \<Rightarrow> bool" where
  "turned dg n k k' \<longleftrightarrow> state k' = IDLE \<and> processed_token_digest k' = dg \<and> processed_token_count k' = n \<and>
     resident_rows k' = 1 \<and> seq_id k' = seq_id k \<and> fingerprint k' = fingerprint k"

definition finishing_at :: "'c \<Rightarrow> nat \<Rightarrow> 'c chain_record \<Rightarrow> ('c, 'm) chain_runtime \<Rightarrow> bool" where
  "finishing_at c b k s \<longleftrightarrow> finishing c b s \<and> heap (index s) b = k"

lemma finishing_at_manager [simp]: "finishing_at c b k (s\<lparr>manager := m\<rparr>) = finishing_at c b k s"
  by (simp add: finishing_at_def)

lemma finishing_atD: "finishing_at c b k s \<Longrightarrow> finishing c b s"
  by (simp add: finishing_at_def)

lemma finish_digest_spec:
  fixes c :: 'c
  shows "spec (finishing_at c b k :: ('c, 'm) chain_runtime \<Rightarrow> bool) (on_index (finish_digest c dg n slots 1 cap))
      (\<lambda>a s. a = b \<and> finishing c b s \<and> turned dg n k (heap (index s) b)) (finishing c b)"
proof -
  have "case on_index (finish_digest c dg n slots 1 cap) s of (Inl e, t) \<Rightarrow> finishing c b t
      | (Inr a, t) \<Rightarrow> a = b \<and> finishing c b t \<and> turned dg n k (heap (index t) b)" if s: "finishing_at c b k s" for s :: "('c, 'm) chain_runtime"
  proof -
    have inv: "runtime_inv {c} s" and c: "map_of (records (index s)) c = Some b" "heap (index s) b = k"
      using s by (simp_all add: finishing_at_def finishing_def)
    have at: "chain_at (index s) c = Some k" using chain_at_records [OF c(1)] c(2) by simp
    show ?thesis
    proof (cases "state k = ACTIVE \<and> processed_token_count k \<le> n \<and> length dg = 32")
      case True
      then obtain a j where a: "finish_digest c dg n slots 1 cap (index s) = (Inr a, j)" and j: "chain_inv j" "map_of (records j) c = Some a"
          "turned dg n k (heap j a)" "chain_at j = (chain_at (index s))(c \<mapsto> heap j a)"
        using finish_digest_ok [OF runtime_invD(1) [OF inv] at, of n dg slots 1 cap] by (auto simp: turned_def)
      have b: "a = b" using a c True by (simp add: finish_digest_def chain_lookup_def Let_def)
      have "runtime_inv {c} (s\<lparr>index := j\<rparr>)" by (rule index_inv [OF inv j(1)]) (auto simp: j(4) split: if_splits)
      then show ?thesis using a j(2,3) b by (simp add: on_index_def finishing_def)
    next
      case False
      then have "\<exists>e. finish_digest c dg n slots 1 cap (index s) = (Inl e, index s)"
        using c by (auto simp: finish_digest_def chain_lookup_def not_le)
      then show ?thesis using s by (auto simp: on_index_def finishing_at_def)
    qed
  qed
  then show ?thesis by (simp add: spec_def)
qed

lemma finish_values_spec:
  "spec (finishing_at c b k) (finish_values H c sid dg n)
     (\<lambda>a s. a = b \<and> finishing c b s \<and> turned dg n k (heap (index s) b)) (finishing c b)"
proof -
  have look: "spec (finishing_at c b k) (on_index (queryE q)) (\<lambda>_. finishing_at c b k) (finishing c b)" for q :: "'a chain_index \<Rightarrow> nat result"
    by (rule keeps_weak [OF on_index_query_keeps finishing_atD])
  show ?thesis
    unfolding finish_values_def
    by (rule spec_bind [OF look], rule spec_bind [OF spec_get [where Q = "\<lambda>_. finishing_at c b k"]])
      (auto intro!: spec_raise spec_bind [where R = "\<lambda>_. finishing_at c b k"] spec_query finish_digest_spec finishing_atD)
qed

lemma spec_pure: "(b \<Longrightarrow> spec P m Q E) \<Longrightarrow> spec (\<lambda>s. P s \<and> b) m Q E"
  by (simp add: spec_def)

lemma spec_on_failure:
  assumes "spec P m Q E'" and "spec E' h (\<lambda>_. E) E"
  shows "spec P (on_failure m h) Q E"
proof -
  have "case on_failure m h s of (Inl e, t) \<Rightarrow> E t | (Inr x, t) \<Rightarrow> Q x t" if "P s" for s
  proof (cases "m s")
    case (Pair r u)
    show ?thesis
    proof (cases r)
      case (Inl e)
      then have "E' u" using specD_Inl [OF assms(1) that] Pair by simp
      then show ?thesis
        using Pair Inl assms(2) by (cases "h u") (auto simp: on_failure_def spec_def split: sum.splits)
    next
      case (Inr x)
      then show ?thesis using specD_Inr [OF assms(1) that] Pair by (simp add: on_failure_def)
    qed
  qed
  then show ?thesis by (simp add: spec_def)
qed

lemma finished_inv: "finishing c a s \<Longrightarrow> backed (offload s) (heap (index s) a) \<Longrightarrow> runtime_inv {} s"
  by (rule runtime_inv_shrink [of c]) (auto simp: finishing_def chain_at_def)

lemma save_finished_spec:
  "spec (\<lambda>s. b = a \<and> finishing c a s \<and> turned dg n k (heap (index s) a)) (thenE (save_finished_chain H b) (retE b))
      (\<lambda>_ s. runtime_inv {} s \<and> (\<exists>k'. chain_at (index s) c = Some k' \<and> turned dg n k k')) (finishing c a)"
proof (rule spec_then, rule specI)
  fix s e t
  assume "b = a \<and> finishing c a s \<and> turned dg n k (heap (index s) a)" "save_finished_chain H b s = (Inl e, t)"
  then show "finishing c a t" using save_finished_run(1) [of c a s H "Inl e" t] by (simp add: turned_def)
next
  fix s x t
  assume s: "b = a \<and> finishing c a s \<and> turned dg n k (heap (index s) a)" "save_finished_chain H b s = (Inr x, t)"
  then have t: "finishing c a t" "heap (index t) a = heap (index s) a" "backed (offload t) (heap (index t) a)"
    using save_finished_run [of c a s H "Inr x" t] by (auto simp: turned_def)
  have "chain_at (index t) c = Some (heap (index s) a)" using t(1,2) chain_at_records by (fastforce simp: finishing_def)
  then show "runtime_inv {} t \<and> (\<exists>k'. chain_at (index t) c = Some k' \<and> turned dg n k k')"
    using s(1) finished_inv [OF t(1,3)] by blast
qed (rule spec_ret)

lemma runtime_chain_finish_spec:
  "spec (\<lambda>s. runtime_inv {} s \<and> chain_at (index s) c = Some k) (runtime_chain_finish H c sid dg n)
     (\<lambda>_ s. runtime_inv {} s \<and> state k = ACTIVE \<and> seq_id k = sid \<and> (\<exists>k'. chain_at (index s) c = Some k' \<and> turned dg n k k'))
     (runtime_inv {})"
proof -
  let ?Q = "\<lambda>_ s. runtime_inv {} s \<and> (\<exists>k'. chain_at (index s) c = Some k' \<and> turned dg n k k')"
  have mg: "spec (finishing_at c a k) (on_manager m) (\<lambda>_. finishing_at c a k) (finishing c a)" for a m
    by (intro keeps_weak on_manager_keeps) (simp_all add: finishing_atD)
  have main: "spec (finishing_at c a k) (on_failure (thenE (on_manager (on_chain_turn_finished H sid n))
         (thenE (on_manager (modifyE (release_reservation H sid)))
         (bindE (finish_values H c sid dg n) (\<lambda>a. thenE (save_finished_chain H a) (retE a)))))
         (thenE (coordinator_invalidate c) (on_manager (free_seq_payload H sid)))) ?Q (runtime_inv {})" for a
    by (rule spec_on_failure [OF _ invalidate_spec])
      (rule spec_then [OF mg], rule spec_then [OF mg], rule spec_bind [OF finish_values_spec], rule save_finished_spec)
  show ?thesis
    unfolding runtime_chain_finish_def
  proof (rule spec_bind [where R = "\<lambda>a s. finishing_at c a k s \<and> runtime_inv {} s"], goal_cases)
    case 1
    have "finishing_at c a k s" if "runtime_inv {} s" "chain_at (index s) c = Some k" "chain_lookup c (index s) = Inr a"
      for a and s :: "('a, 'b) chain_runtime"
      using finishingI [OF that(1,3)] that(2,3) by (auto simp: finishing_at_def chain_lookup_eq chain_at_def)
    then show ?case by (auto simp: spec_def on_index_def eff_simps split: sum.split)
  next
    case (2 a)
    show ?case
    proof (rule spec_bind [OF spec_get [where Q = "\<lambda>x s. (finishing_at c a k s \<and> runtime_inv {} s) \<and> x = k"]], goal_cases)
      case (2 x)
      show ?case
        by (rule spec_pure, rule spec_if, rule spec_raise, simp, rule spec_if, rule spec_raise, simp, rule spec_weaken [OF main [of a]])
          auto
    qed (simp add: finishing_at_def)
  qed
qed

lemma runtime_chain_finish_keeps: "keeps (runtime_inv {}) (runtime_chain_finish H c sid dg n)"
proof -
  have "runtime_inv {} (snd (runtime_chain_finish H c sid dg n s))" if inv: "runtime_inv {} s" for s :: "('a, 'b) chain_runtime"
  proof (cases "chain_at (index s) c")
    case None
    then show ?thesis using inv by (auto simp: runtime_chain_finish_def eff_simps on_index_def chain_lookup_def)
  next
    case (Some k)
    obtain r t where "runtime_chain_finish H c sid dg n s = (r, t)" by fastforce
    then show ?thesis
      using runtime_chain_finish_spec [of c k H sid dg n] inv Some by (cases r) (auto dest: specD_Inr specD_Inl)
  qed
  then show ?thesis by (simp add: keeps_def)
qed

section \<open>Reclaiming an idle chain\<close>

text \<open>The record of an idle chain, as reclaiming reads it.\<close>

definition idle_at :: "'c \<Rightarrow> nat \<Rightarrow> 'c chain_record \<Rightarrow> ('c, 'm) chain_runtime \<Rightarrow> bool" where
  "idle_at c a k s \<longleftrightarrow> runtime_inv {} s \<and> map_of (records (index s)) c = Some a \<and> heap (index s) a = k \<and> state k = IDLE"

lemma idle_at_manager [simp]: "idle_at c a k (s\<lparr>manager := m\<rparr>) = idle_at c a k s"
  by (simp add: idle_at_def)

lemma has_snapshot_manager [simp]: "has_snapshot (s\<lparr>manager := m\<rparr>) c = has_snapshot s c"
  by (simp add: has_snapshot_def)

lemma idle_at_offload:
  assumes "idle_at c a k s" "runtime_inv {} (s\<lparr>offload := g\<rparr>)"
  shows "idle_at c a k (s\<lparr>offload := g\<rparr>)"
  using assms by (simp add: idle_at_def)

lemma demote_guard_spec:
  "spec (idle_at c a k) (\<lambda>s. if offload s = None then (Inl RuntimeError, s)
       else bindE (on_offload (wait (seq_id k))) (\<lambda>sn. if valid sn then retE () else raiseE RuntimeError) s)
    (\<lambda>_ s. idle_at c a k s \<and> has_snapshot s c) (idle_at c a k)"
proof -
  have "case (if offload s = None then (Inl RuntimeError, s)
       else bindE (on_offload (wait (seq_id k))) (\<lambda>sn. if valid sn then retE () else raiseE RuntimeError) s) of
      (Inl e, t) \<Rightarrow> idle_at c a k t | (Inr _, t) \<Rightarrow> idle_at c a k t \<and> has_snapshot t c" if s: "idle_at c a k s" for s :: "('a, 'b) chain_runtime"
  proof (cases "offload s")
    case None
    then show ?thesis using s by simp
  next
    case (Some f)
    show ?thesis
    proof (cases "map_of (snapshots f) (seq_id k) = None")
      case True
      then have "on_offload (wait (seq_id k)) s = (Inl KeyError, s)" using Some by (simp add: on_offload_def wait_missing)
      then show ?thesis using s Some by (simp add: eff_simps)
    next
      case False
      have inv: "runtime_inv {} s" using s by (simp add: idle_at_def)
      obtain sn g where g: "on_offload (wait (seq_id k)) s = (Inr sn, s\<lparr>offload := Some g\<rparr>)" "runtime_inv {} (s\<lparr>offload := Some g\<rparr>)"
          "map_of (snapshots g) (seq_id k) \<noteq> None"
        using wait_inv [OF inv Some False] False by metis
      have "idle_at c a k (s\<lparr>offload := Some g\<rparr>)" by (rule idle_at_offload [OF s g(2)])
      moreover have "has_snapshot (s\<lparr>offload := Some g\<rparr>) c"
        using g(3) s by (auto simp: has_snapshot_def idle_at_def chain_at_def)
      ultimately show ?thesis using g(1) Some by (simp add: eff_simps)
    qed
  qed
  then show ?thesis by (simp add: spec_def)
qed

lemma drop_guard_spec:
  assumes "resident_rows k \<noteq> 0"
  shows "spec (idle_at c a k) (when_offload (drop_snapshot (seq_id k))) (\<lambda>_. idle_at c a k) (idle_at c a k)"
proof -
  have "idle_at c a k (snd (when_offload (drop_snapshot (seq_id k)) s))" if s: "idle_at c a k s" for s :: "('a, 'b) chain_runtime"
  proof (cases "offload s")
    case (Some f)
    have inv: "runtime_inv {} s" and c: "map_of (records (index s)) c = Some a" "heap (index s) a = k" using s by (simp_all add: idle_at_def)
    have "d = c" if "chain_at (index s) d = Some l" "seq_id l = seq_id k" for d l
      using owner_unique [OF runtime_invD(1) [OF inv] that(1) chain_at_records [OF c(1)]] that(2) c(2) by simp
    then have "resident_rows l \<noteq> 0" if "chain_at (index s) d = Some l" "seq_id l = seq_id k" for d l
      using that chain_at_records [OF c(1)] c(2) assms by fastforce
    then obtain g where "on_offload (drop_snapshot (seq_id k)) s = (Inr (), s\<lparr>offload := Some g\<rparr>)" "runtime_inv {} (s\<lparr>offload := Some g\<rparr>)"
      using drop_inv [OF inv Some, of "seq_id k"] by blast
    then show ?thesis using idle_at_offload [OF s] Some by (simp add: when_offload_def)
  qed (use s in \<open>simp add: when_offload_def\<close>)
  then have "keeps (idle_at c a k) (when_offload (drop_snapshot (seq_id k)) :: ('a, 'b, unit) runtime_op)" by (simp add: keeps_def)
  then show ?thesis by (simp add: keeps_spec)
qed

lemma demoted_spec:
  "spec (\<lambda>s. idle_at c a k s \<and> has_snapshot s c) (modifyE (set_chain_record a (\<lambda>k. k\<lparr>resident_rows := 0\<rparr>))) (\<lambda>_. runtime_inv {}) E"
  by (rule spec_modify) (use demoted_inv(1) in \<open>auto simp: idle_at_def\<close>)

lemma evicted_spec: "spec (idle_at c a k) (thenE (on_index (evict c)) (retE ())) (\<lambda>_. runtime_inv {}) E"
proof -
  have "\<exists>b t. on_index (evict c) s = (Inr b, t) \<and> runtime_inv {} t" if s: "idle_at c a k s" for s :: "('a, 'b) chain_runtime"
  proof -
    have inv: "runtime_inv {} s" and c: "map_of (records (index s)) c = Some a" "heap (index s) a = k" "state k = IDLE"
      using s by (simp_all add: idle_at_def)
    obtain b j where j: "evict c (index s) = (Inr b, j)" "chain_inv j" "chain_at j = (chain_at (index s))(c := None)"
      using evict_ok [OF runtime_invD(1) [OF inv] chain_at_records [OF c(1)]] c(2,3) by blast
    have "runtime_inv {} (s\<lparr>index := j\<rparr>)" by (rule remove_inv [OF runtime_inv_weaken [OF inv] c(1) j(2,3)]) simp
    then show ?thesis using j(1) by (simp add: on_index_def)
  qed
  then show ?thesis by (fastforce simp: spec_def eff_simps)
qed

lemma chain_reclaim_idle_keeps: "keeps (runtime_inv {}) (chain_reclaim_idle H c expected demote)"
proof -
  have free: "spec (idle_at c a k) (on_manager m) (\<lambda>_. idle_at c a k) (runtime_inv {})"
    "spec (\<lambda>s. idle_at c a k s \<and> has_snapshot s c) (on_manager m) (\<lambda>_ s. idle_at c a k s \<and> has_snapshot s c) (runtime_inv {})" for a k m
    by (intro keeps_weak on_manager_keeps; simp add: idle_at_def)+
  have E: "idle_at c a k s \<Longrightarrow> runtime_inv {} s" for a k and s :: "('a, 'b) chain_runtime" by (simp add: idle_at_def)
  have tail: "spec (idle_at c a k) (thenE (\<lambda>s. if demote
                then (if offload s = None then (Inl RuntimeError, s)
                      else bindE (on_offload (wait (seq_id k))) (\<lambda>sn. if valid sn then retE () else raiseE RuntimeError) s)
                else when_offload (drop_snapshot (seq_id k)) s)
           (thenE (on_manager (free_seq_payload H (seq_id k)))
             (if demote then modifyE (set_chain_record a (\<lambda>k. k\<lparr>resident_rows := 0\<rparr>)) else thenE (on_index (evict c)) (retE ()))))
      (\<lambda>_. runtime_inv {}) (runtime_inv {})" if "resident_rows k \<noteq> 0" for a k
  proof (cases demote)
    case True
    show ?thesis unfolding if_P [OF True]
      by (rule spec_then [OF spec_weaken [OF demote_guard_spec _ _ E]], assumption, assumption, assumption)
        (rule spec_then [OF free(2) demoted_spec])
  next
    case False
    show ?thesis unfolding if_not_P [OF False]
      by (rule spec_then [OF spec_weaken [OF drop_guard_spec [OF that] _ _ E]], assumption, assumption, assumption)
        (rule spec_then [OF free(1) evicted_spec])
  qed
  let ?R = "\<lambda>a s. runtime_inv {} s \<and> map_of (records (index s)) c = Some a"
  have guard: "spec (idle_at c a k) (queryE (\<lambda>s. if resident_rows k \<le> 0 then Inl RuntimeError
                    else case chain_has_residency H of None \<Rightarrow> Inl AttributeError
                      | Some f \<Rightarrow> if f (seq_id k) (manager s) then Inr () else Inl RuntimeError))
      (\<lambda>_ s. idle_at c a k s \<and> resident_rows k \<noteq> 0) (runtime_inv {})" for a k
    by (rule spec_query) (auto simp: E split: if_splits option.splits)
  show ?thesis
    unfolding keeps_spec chain_reclaim_idle_def
  proof (rule spec_bind [where R = ?R], goal_cases)
    case 1
    then show ?case by (auto simp: spec_def on_index_def eff_simps chain_lookup_def split: option.split)
  next
    case (2 a)
    show ?case
    proof (rule spec_bind [OF spec_get [where Q = "\<lambda>k s. ?R a s \<and> heap (index s) a = k"]], simp, intro spec_if spec_raise, goal_cases)
      case (3 k)
      have "idle_at c a k s" if "?R a s \<and> heap (index s) a = k" for s :: "('a, 'b) chain_runtime" using that 3 by (simp add: idle_at_def)
      then show ?case by (intro spec_then [OF spec_weaken [OF guard] spec_pure [OF tail]])
    qed simp_all
  qed
qed

end
