(* ===== verification/Chain_Machine.thy ===== *)
theory Chain_Machine
  imports Chain_Turns
begin

text \<open>
  The chain cache of one rank as a state machine: one step for each call of the engine, whatever its
  outcome, and one for the work of the cache manager in between.  The exception is
  \<open>reset_after_warmup\<close> at the start of the engine, of which only the successful call is a step: one that
  raises leaves a state (\<open>reset_after_warmup_failed\<close>) in which the engine does not go on.
\<close>

section \<open>The remaining operations\<close>

lemma remember_inv:
  assumes inv: "runtime_inv {} s" and c: "map_of (records (index s)) c = Some a" and run: "store_token_history a ts (index s) = (r, j)"
  shows "runtime_inv {} (s\<lparr>index := j\<rparr>)"
proof (cases "check_token_history_capacity a (int (length ts)) (index s)")
  case (Inl e)
  then have "j = index s" using run by (simp add: store_token_history_def)
  then show ?thesis using inv by simp
next
  case (Inr y)
  then have fits: "check_token_history_capacity a (int (length ts)) (index s) = Inr ()" by simp
  note i = runtime_invD(1) [OF inv]
  have j: "chain_inv j" "chain_at j = (chain_at (index s))(c \<mapsto> (heap (index s) a)\<lparr>token_ids := ts\<rparr>)"
    using store_history_ok [OF i c fits] run by auto
  have "backed (offload s) ((heap (index s) a)\<lparr>token_ids := ts\<rparr>)"
    using runtime_invD(3) [OF inv chain_at_records [OF c]] by (simp add: backed_def split: option.splits)
  then show ?thesis by (intro index_inv [OF inv j(1)]) (auto simp: j(2) split: if_splits)
qed

lemma remember_keeps: "keeps (runtime_inv {}) (on_index (remember_prepared_tokens p))"
proof -
  have "runtime_inv {} (s\<lparr>index := snd (remember_prepared_tokens p (index s))\<rparr>)" if inv: "runtime_inv {} s" for s :: "('a, 'b) chain_runtime"
  proof (cases "chain_lookup (pt_chain_id p) (index s)")
    case (Inl e)
    then show ?thesis using inv by (simp add: remember_prepared_tokens_def eff_simps)
  next
    case (Inr a)
    obtain r j where j: "store_token_history a (pt_tokens p) (index s) = (r, j)" by fastforce
    have "snd (remember_prepared_tokens p (index s)) \<in> {index s, j}"
      using Inr j by (cases r) (auto simp: remember_prepared_tokens_def eff_simps)
    then show ?thesis using remember_inv [OF inv _ j] Inr inv by (auto simp: chain_lookup_eq)
  qed
  then show ?thesis by (simp add: keeps_def on_index_def split_beta)
qed

lemma chain_snapshot_keeps: "keeps (runtime_inv {}) (on_index chain_routing_snapshot)"
proof -
  have "runtime_inv {} (snd (on_index chain_routing_snapshot s))" if inv: "runtime_inv {} s" for s :: "('a, 'b) chain_runtime"
  proof -
    obtain t where t: "chain_routing_snapshot (index s) = (Inr (snapshot_of (index s)), t)" "chain_inv t" "chain_at t = chain_at (index s)"
      using routing_snapshot_ok [OF runtime_invD(1) [OF inv]] by blast
    have "runtime_inv {} (s\<lparr>index := t\<rparr>)" by (rule index_inv [OF inv t(2)]) (simp add: t(3))
    then show ?thesis using t(1) by (simp add: on_index_def)
  qed
  then show ?thesis by (simp add: keeps_def)
qed

lemma offload_drops_ok:
  assumes "host_ok f"
  shows "\<exists>g. forE sids drop_snapshot f = (Inr (), g) \<and> host_ok g"
  using assms
proof (induction sids arbitrary: f)
  case (Cons x xs)
  obtain g where g: "drop_snapshot x f = (Inr (), g)" "host_ok g" using drop_ok [OF Cons.prems] by blast
  then show ?case using Cons.IH [OF g(2)] by (simp add: thenE_apply)
qed (simp add: eff_simps)

lemma coordinator_reset_inv:
  assumes inv: "runtime_inv x s"
  shows "\<exists>t. coordinator_reset s = (Inr (), t) \<and> runtime_inv {} t \<and> chain_at (index t) = Map.empty"
proof -
  have empty: "chain_at (chain_reset i) = Map.empty" for i :: "'a chain_index" by (simp add: chain_reset_def chain_at_def [abs_def])
  note rs = reset_inv [OF runtime_invD(1) [OF inv]]
  show ?thesis
  proof (cases "offload s")
    case None
    then show ?thesis using rs by (simp add: coordinator_reset_def eff_simps when_offload_def on_index_def runtime_inv_def empty)
  next
    case (Some f)
    obtain g where g: "forE (map fst (snapshots f)) drop_snapshot f = (Inr (), g)" "host_ok g"
      using offload_drops_ok [OF runtime_invD(2) [OF inv Some]] by blast
    have "host_ok (g\<lparr>d2h_bytes := 0, h2d_bytes := 0\<rparr>)" using g(2) by (simp add: host_ok_def)
    then show ?thesis using Some g(1) rs
      by (simp add: coordinator_reset_def eff_simps when_offload_def on_offload_def offload_reset_def on_index_def runtime_inv_def empty)
  qed
qed

lemma clear_reservation_keeps: "keeps (runtime_inv {} :: ('c, 'm) chain_runtime \<Rightarrow> bool) (clear_chain_reservation q)"
proof -
  let ?f = "\<lambda>k. k\<lparr>reserved_slots_by_layer := [], reserved_rows := 0\<rparr>"
  have set: "runtime_inv {} (set_chain_record a ?f s)"
    if inv: "runtime_inv {} s" and c: "map_of (records (index s)) c = Some a" for s :: "('c, 'm) chain_runtime" and c a
  proof -
    note i = adjust_inv [OF runtime_invD(1) [OF inv] c, of ?f, simplified]
    have "backed (offload s) (?f (heap (index s) a))"
      using runtime_invD(3) [OF inv chain_at_records [OF c]] by (simp add: backed_def split: option.splits)
    then show ?thesis by (intro index_inv [OF inv i(1)]) (auto simp: i(2) split: if_splits)
  qed
  have "keeps (runtime_inv {} :: ('c, 'm) chain_runtime \<Rightarrow> bool) (bindE (on_index (queryE (chain_lookup c))) (\<lambda>a. modifyE (set_chain_record a ?f)))" for c :: 'c
    unfolding keeps_def
  proof (intro allI impI)
    fix s :: "('c, 'm) chain_runtime"
    assume inv: "runtime_inv {} s"
    show "runtime_inv {} (snd (bindE (on_index (queryE (chain_lookup c))) (\<lambda>a. modifyE (set_chain_record a ?f)) s))"
    proof (cases "chain_lookup c (index s)")
      case (Inl e)
      then show ?thesis using inv by (simp add: on_index_def eff_simps)
    next
      case (Inr a)
      then have "map_of (records (index s)) c = Some a" by (simp add: chain_lookup_eq)
      from set [OF inv this] Inr show ?thesis by (simp add: on_index_def eff_simps)
    qed
  qed
  then show ?thesis
    unfolding clear_chain_reservation_def by (cases "fs_chain_id q") (simp_all add: keeps_pure)
qed

lemma forward_end_keeps: "keeps (runtime_inv {}) (runtime_on_forward_end ce re seqs pre)"
  unfolding runtime_on_forward_end_def
  by (intro keeps_thenE on_manager_keeps) (auto intro!: keeps_forE clear_reservation_keeps keeps_pure)

text \<open>
  A reset that succeeds leaves an empty index.  One that raises (in the release of a payload) has already
  dropped the host snapshots: the tables and the host account are still exact, but a demoted chain has no
  snapshot any more, so that all chains are exempt from that part of the invariant.
\<close>

lemma offload_reset_inv:
  assumes "runtime_inv x s"
  shows "\<exists>t. when_offload offload_reset s = (Inr (), t) \<and> runtime_inv UNIV t"
proof (cases "offload s")
  case None
  then show ?thesis using assms by (simp add: when_offload_def runtime_inv_def)
next
  case (Some f)
  obtain g where g: "forE (map fst (snapshots f)) drop_snapshot f = (Inr (), g)" "host_ok g"
    using offload_drops_ok [OF runtime_invD(2) [OF assms Some]] by blast
  have "host_ok (g\<lparr>d2h_bytes := 0, h2d_bytes := 0\<rparr>)" using g(2) by (simp add: host_ok_def)
  then show ?thesis using Some g(1) assms
    by (simp add: eff_simps when_offload_def on_offload_def offload_reset_def runtime_inv_def)
qed

lemma reset_after_warmup_spec:
  "spec (runtime_inv {}) (runtime_reset_after_warmup H) (\<lambda>_. runtime_inv {}) (runtime_inv UNIV)"
proof -
  let ?any = "runtime_inv UNIV"
  have start: "spec (runtime_inv {}) (on_manager (reset_reservations H)) (\<lambda>_. runtime_inv {}) ?any"
    by (rule keeps_weak [OF on_manager_keeps]) (auto intro: runtime_inv_weaken)
  have drop: "spec (runtime_inv {}) (when_offload offload_reset) (\<lambda>_. ?any) ?any"
    by (rule specI) (use offload_reset_inv in fastforce)+
  have free: "spec ?any (forE sids (\<lambda>sid. on_manager (free_seq_payload H sid))) (\<lambda>_. ?any) ?any" for sids
    by (intro keeps_weak keeps_forE on_manager_keeps) simp_all
  have reset: "spec ?any coordinator_reset (\<lambda>_. runtime_inv {}) ?any"
    by (rule specI) (use coordinator_reset_inv in fastforce)+
  have caches: "spec (runtime_inv {}) (on_manager (reset_caches H)) (\<lambda>_. runtime_inv {}) ?any"
    by (rule keeps_weak [OF on_manager_keeps]) (auto intro: runtime_inv_weaken)
  show ?thesis
    unfolding runtime_reset_after_warmup_def
    by (rule spec_then [OF start], rule spec_then [OF drop], rule spec_bind [where R="\<lambda>_. ?any"], rule spec_get, simp)
      (rule spec_then [OF free], rule spec_then [OF reset caches])
qed

lemma stats_inv:
  assumes "runtime_inv x s" and "coordinator_stats H s = (r, t)"
  shows "runtime_inv x t"
proof (cases "offload s")
  case None
  then show ?thesis using assms by (auto simp: coordinator_stats_def eff_simps when_offload_def)
next
  case (Some f)
  then have "t = s\<lparr>offload := Some (poll (\<lambda>ev. event_complete H ev (manager s)) f)\<rparr>"
    using assms(2) by (auto simp: coordinator_stats_def eff_simps when_offload_def on_offload_def)
  then show ?thesis using poll_inv [OF assms(1) Some] by simp
qed

section \<open>Reachable states\<close>

inductive chain_step ::
  "(bytes \<Rightarrow> bytes) \<Rightarrow> 'm chain_manager \<Rightarrow> bytes \<Rightarrow> ('c::linorder, 'm) chain_runtime \<Rightarrow> ('c, 'm) chain_runtime \<Rightarrow> bool"
  for sha H fp where
  plan: "coordinator_plan' sha H fp c sid inp d s = (r, t) \<Longrightarrow> chain_step sha H fp s t"
| admit: "coordinator_plan' sha H fp c sid inp d s = (Inr plan, u) \<Longrightarrow> chain_apply_admission H fp plan u = (r, t) \<Longrightarrow> chain_step sha H fp s t"
| finish: "runtime_chain_finish H c sid dg n s = (r, t) \<Longrightarrow> chain_step sha H fp s t"
| remember: "on_index (remember_prepared_tokens p) s = (r, t) \<Longrightarrow> chain_step sha H fp s t"
| reclaim: "chain_reclaim_idle H c sid demote s = (r, t) \<Longrightarrow> chain_step sha H fp s t"
| invalidate: "chain_invalidate H c expected s = (r, t) \<Longrightarrow> chain_step sha H fp s t"
| routing: "on_index chain_routing_snapshot s = (r, t) \<Longrightarrow> chain_step sha H fp s t"
| stats: "coordinator_stats H s = (r, t) \<Longrightarrow> chain_step sha H fp s t"
| reset: "coordinator_reset s = (r, t) \<Longrightarrow> chain_step sha H fp s t"
| forward: "runtime_on_forward_end ce re seqs pre s = (r, t) \<Longrightarrow> chain_step sha H fp s t"
| warmup: "runtime_reset_after_warmup H s = (Inr (), t) \<Longrightarrow> chain_step sha H fp s t"
| work: "chain_step sha H fp s (s\<lparr>manager := m\<rparr>)"

inductive chain_reachable ::
  "(bytes \<Rightarrow> bytes) \<Rightarrow> 'm chain_manager \<Rightarrow> bytes \<Rightarrow> ('c::linorder, 'm) chain_runtime \<Rightarrow> bool"
  for sha H fp where
  start: "ChainCacheCoordinator junk mt mh ofl m = Inr s \<Longrightarrow> chain_reachable sha H fp s"
| next_state: "chain_reachable sha H fp s \<Longrightarrow> chain_step sha H fp s t \<Longrightarrow> chain_reachable sha H fp t"

lemma start_inv:
  assumes "ChainCacheCoordinator junk mt mh ofl m = Inr s"
  shows "runtime_inv {} s"
proof -
  obtain i where i: "ChainCacheIndex junk mt (Some mh) = Inr i" using assms by (auto simp: ChainCacheCoordinator_def bindR_eq_Inr)
  have new: "records i = []" "active_records i = []" "seq_id_to_chain_id i = []" "tombstones i = []" "routing_snapshot_cache i = None"
      "token_history_tokens i = 0" "0 < max_tombstones i" "max_token_history_tokens i = Some mh" "0 < mh"
    using i by (auto simp: ChainCacheIndex_def split: if_splits)
  have host: "host_ok f" if "ChainOffloadController b = Inr f" for b f
    using that by (auto simp: ChainOffloadController_def host_ok_def split: if_splits)
  have s: "index s = (case offload s of None \<Rightarrow> i | Some f \<Rightarrow> i\<lparr>max_token_history_tokens := Some (mh + capacity_bytes f div 4)\<rparr>)"
      "\<And>f. offload s = Some f \<Longrightarrow> host_ok f"
    using assms i host by (auto simp: ChainCacheCoordinator_def bindR_eq_Inr split: option.splits)
  have cap: "0 \<le> mh + capacity_bytes f div 4" if "host_ok f" for f
    using host_okD(1) [OF that] new(9) by simp
  have "chain_inv (index s)"
    by (rule empty_chains_inv) (use new s cap in \<open>auto split: option.splits\<close>)
  then show ?thesis using s new(1) by (auto simp: runtime_inv_def chain_at_def split: option.splits)
qed

lemma step_inv:
  assumes "chain_step sha H fp s t" and inv: "runtime_inv {} s"
  shows "runtime_inv {} t"
  using assms(1)
proof cases
  case (plan c sid inp d r)
  then show ?thesis using coordinator_plan_view(1) [OF inv] by blast
next
  case (admit c sid inp d plan u r)
  have "runtime_inv {} u \<and> planned u plan" using coordinator_plan_view [OF inv admit(1)] by simp
  then show ?thesis using admission_spec [of plan H fp] admit(2) by (cases r) (auto dest: specD_Inl specD_Inr)
next
  case (reset r)
  then show ?thesis using coordinator_reset_inv [OF inv] by auto
next
  case (stats r)
  then show ?thesis by (rule stats_inv [OF inv])
next
  case (forward ce re seqs pre r)
  then show ?thesis by (rule keepsD [OF forward_end_keeps inv])
next
  case warmup
  then show ?thesis by (rule specD_Inr [OF reset_after_warmup_spec inv])
next
  case (work m)
  then show ?thesis using inv by simp
next
  case (finish c sid dg n r)
  then show ?thesis by (rule keepsD [OF runtime_chain_finish_keeps inv])
next
  case (remember p r)
  then show ?thesis by (rule keepsD [OF remember_keeps inv])
next
  case (reclaim c sid demote r)
  then show ?thesis by (rule keepsD [OF chain_reclaim_idle_keeps inv])
next
  case (invalidate c expected r)
  then show ?thesis by (rule keepsD [OF chain_invalidate_keeps inv])
next
  case (routing r)
  then show ?thesis by (rule keepsD [OF chain_snapshot_keeps inv])
qed

lemma reachable_inv: "chain_reachable sha H fp s \<Longrightarrow> runtime_inv {} s"
  by (induction rule: chain_reachable.induct) (auto intro: start_inv step_inv)

text \<open>
  A reset that raises leaves the tables and the host account exact, although the snapshots are gone.
\<close>

lemma reset_after_warmup_failed:
  assumes "chain_reachable sha H fp s" and "runtime_reset_after_warmup H s = (Inl e, t)"
  shows "chain_inv (index t) \<and> (\<forall>f. offload t = Some f \<longrightarrow> host_ok f)"
  using specD_Inl [OF reset_after_warmup_spec reachable_inv [OF assms(1)] assms(2)] by (simp add: runtime_inv_def)

end
