(* ===== verification/Chain_Agreement.thy ===== *)
theory Chain_Agreement
  imports Chain_Machine
begin

text \<open>
  Two facts on which ranks and turns agree.  The token digest identifies the processed prefix, up to
  collisions of the hash; and planning depends on the input only through what the digest variant of
  the call carries, so that a rank with the same chains accepts the plan of the driver.
\<close>

section \<open>The digest of a token prefix\<close>

lemma pack_q_digits:
  assumes "pack_q x = pack_q y" and "n \<le> 8"
  shows "x mod 256 ^ n = y mod 256 ^ n"
  using assms(2)
proof (induction n)
  case (Suc n)
  have "pack_q x ! n = pack_q y ! n" using assms(1) by simp
  then have "(word_of_int (x div 256 ^ n) :: 8 word) = word_of_int (y div 256 ^ n)" using Suc.prems by (simp add: pack_q_def)
  then have byte: "x div 256 ^ n mod 256 = y div 256 ^ n mod 256" by (simp add: word_of_int_eq_iff take_bit_eq_mod)
  have split: "z mod 256 ^ Suc n = 256 ^ n * (z div 256 ^ n mod 256) + z mod 256 ^ n" for z :: int
    using zmod_zmult2_eq [of "256 :: int" z "256 ^ n"] by (simp add: mult.commute)
  show ?case using Suc byte by (simp only: split)
qed simp

lemma pack_q_inj:
  assumes "pack_q x = pack_q y" "- (2 ^ 63) \<le> x" "x < 2 ^ 63" "- (2 ^ 63) \<le> y" "y < 2 ^ 63"
  shows "x = y"
proof -
  have "x mod 256 ^ 8 = y mod 256 ^ 8" by (rule pack_q_digits [OF assms(1)]) simp
  then have "(256 ^ 8 :: int) dvd x - y" by (simp add: mod_eq_dvd_iff)
  then obtain q where q: "x - y = 256 ^ 8 * q" by (auto simp: dvd_def)
  then have "q = 0" using assms(2-5) by simp
  then show ?thesis using q by simp
qed

definition int64 :: "int list \<Rightarrow> bool" where
  "int64 ts \<longleftrightarrow> (\<forall>x\<in>set ts. - (2 ^ 63) \<le> x \<and> x < 2 ^ 63)"

lemma pack_inj:
  assumes "concat (map pack_q xs) = concat (map pack_q ys)" "length xs = length ys" "int64 xs" "int64 ys"
  shows "xs = ys"
  using assms(2,1,3,4)
proof (induction xs ys rule: list_induct2)
  case (Cons x xs y ys)
  have "length (pack_q x) = length (pack_q y)" by (simp add: pack_q_def)
  then have "pack_q x = pack_q y" "concat (map pack_q xs) = concat (map pack_q ys)" using Cons.prems(1) by simp_all
  then show ?case using Cons pack_q_inj [of x y] by (simp add: int64_def)
qed simp

abbreviation packed_prefix :: "int \<Rightarrow> int list \<Rightarrow> bytes" where
  "packed_prefix n ts \<equiv> concat (map pack_q (take (nat n) ts))"

lemma stable_token_digest_eq:
  assumes "0 \<le> n"
  shows "stable_token_digest sha ts (Some n) = Inr d \<longleftrightarrow>
    int64 (take (nat n) ts) \<and> n \<le> int (length ts) \<and> d = sha (packed_prefix n ts)"
  using assms by (auto simp: stable_token_digest_def int64_def Let_def min_def)

lemma digest_prefix:
  assumes n: "0 \<le> n" and d: "stable_token_digest sha ts (Some n) = Inr d"
    and inj: "inj_on sha {packed_prefix n ts, packed_prefix n us}"
  shows "stable_token_digest sha us (Some n) = Inr d \<longleftrightarrow> n \<le> int (length us) \<and> take (nat n) us = take (nat n) ts"
proof
  assume u: "stable_token_digest sha us (Some n) = Inr d"
  have t: "int64 (take (nat n) ts)" "n \<le> int (length ts)" "d = sha (packed_prefix n ts)" using d by (simp_all add: stable_token_digest_eq [OF n])
  have v: "int64 (take (nat n) us)" "n \<le> int (length us)" "d = sha (packed_prefix n us)" using u by (simp_all add: stable_token_digest_eq [OF n])
  have "packed_prefix n us = packed_prefix n ts" by (rule inj_onD [OF inj]) (use t(3) v(3) in simp_all)
  moreover have "length (take (nat n) us) = length (take (nat n) ts)" using t(2) v(2) by simp
  ultimately have "take (nat n) us = take (nat n) ts" using v(1) t(1) by (rule pack_inj)
  then show "n \<le> int (length us) \<and> take (nat n) us = take (nat n) ts" using v(2) by simp
next
  assume "n \<le> int (length us) \<and> take (nat n) us = take (nat n) ts"
  then show "stable_token_digest sha us (Some n) = Inr d" using d by (simp add: stable_token_digest_eq [OF n])
qed

text \<open>What is planned for a prompt of the owner of an idle chain, outcome by outcome.\<close>

lemma plan_idle:
  assumes k: "chain_at i c = Some k" "state k = IDLE" "seq_id k = sid" "fingerprint k = fp"
  shows "fst (plan_admission sha c sid us fp slots rows rs rr i) =
    (case stable_token_digest sha us (Some (processed_token_count k)) of
       Inl e \<Rightarrow> Inl e
     | Inr d \<Rightarrow>
         if d \<noteq> processed_token_digest k then Inl ChainPrefixMismatchError
         else bindR (choose_victims c slots rows i) (\<lambda>vs.
           Inr \<lparr>plan_chain_id = c, plan_seq_id = sid, status = Resumed, reused_tokens = processed_token_count k,
                input_token_count = int (length us), victim_chain_ids = vs,
                plan_reserved_slots = map (max 0) rs, plan_reserved_rows = max 0 rr,
                demote_chain_ids = [], decode_reserved_slots_by_layer = []\<rparr>))"
proof -
  obtain a where a: "map_of (records i) c = Some a" "heap i a = k" using k(1) by (rule chain_atE)
  show ?thesis
    using a k(2-4)
    by (cases "stable_token_digest sha us (Some (processed_token_count k))"; cases "choose_victims c slots rows i")
      (simp_all add: plan_admission_def plan_admission'_def check_admission_def admission_digest_def eff_simps Let_def
        input_count_def)
qed

lemma stable_token_digest_error:
  assumes "stable_token_digest sha ts (Some n) = Inl e"
  shows "e = (if int64 (take (nat n) ts) then ChainPrefixMismatchError else OverflowError)"
  using assms by (auto simp: stable_token_digest_def int64_def Let_def split: if_splits)

lemma stable_token_digest_Inr: "stable_token_digest sha ts (Some n) = Inr d \<Longrightarrow> int64 (take (nat n) ts)"
  by (auto simp: stable_token_digest_def int64_def Let_def split: if_splits)

lemma resume_outcome:
  assumes k: "chain_at i c = Some k" "state k = IDLE" "seq_id k = sid" "fingerprint k = fp"
    and prefix: "stable_token_digest sha us (Some (processed_token_count k)) = Inr (processed_token_digest k) \<longleftrightarrow> ok"
    and r: "r = fst (plan_admission sha c sid us fp slots rows rs rr i)"
  shows "(\<exists>plan. r = Inr plan \<and> status plan = Resumed \<and> reused_tokens plan = processed_token_count k) \<longleftrightarrow>
      ok \<and> relievable c slots rows i" (is "?resumed \<longleftrightarrow> _")
    and "ok \<Longrightarrow> \<not> relievable c slots rows i \<Longrightarrow> r = Inl ChainCapacityError"
    and "\<not> ok \<Longrightarrow> r = Inl (if int64 (take (nat (processed_token_count k)) us) then ChainPrefixMismatchError else OverflowError)"
proof -
  note p = plan_idle [OF k, of sha us slots rows rs rr, folded r]
  have bad: "r = Inl (if int64 (take (nat (processed_token_count k)) us) then ChainPrefixMismatchError else OverflowError)"
    if no: "\<not> ok"
  proof (cases "stable_token_digest sha us (Some (processed_token_count k))")
    case (Inl e)
    then show ?thesis using p stable_token_digest_error [OF Inl] by simp
  next
    case (Inr d)
    then have "d \<noteq> processed_token_digest k" using prefix no by simp
    then show ?thesis using p Inr stable_token_digest_Inr [OF Inr] by simp
  qed
  have good: "if relievable c slots rows i then ?resumed else r = Inl ChainCapacityError" if yes: "ok"
  proof -
    have d: "stable_token_digest sha us (Some (processed_token_count k)) = Inr (processed_token_digest k)" using prefix yes by simp
    show ?thesis using choose_victims_relievable [of c slots rows i] p by (elim disjE conjE exE) (simp_all add: d)
  qed
  show "?resumed \<longleftrightarrow> ok \<and> relievable c slots rows i" using good bad by (cases ok) (auto split: if_splits)
  show "r = Inl ChainCapacityError" if "ok" "\<not> relievable c slots rows i" using good [OF that(1)] that(2) by simp
  show "r = Inl (if int64 (take (nat (processed_token_count k)) us) then ChainPrefixMismatchError else OverflowError)" if "\<not> ok"
    by (rule bad [OF that])
qed

section \<open>Plans on another rank\<close>

text \<open>
  Token histories are kept by the driver alone (\<open>remember_prepared_tokens\<close>), so the index of another rank
  agrees with the driver's only up to them.  \<open>same_chains\<close> compares the records and the active table
  entry by entry without the histories and without regard to the addresses of the record objects, and the
  remembered ids; counters, clock and the cached routing snapshot may differ.
\<close>

definition plain :: "'c chain_record \<Rightarrow> 'c chain_record" where
  "plain k = k\<lparr>token_ids := []\<rparr>"

definition chain_view :: "'c chain_index \<Rightarrow> ('c, nat) dict \<Rightarrow> ('c, 'c chain_record) dict" where
  "chain_view i d = map (\<lambda>(c, a). (c, plain (heap i a))) d"

definition same_chains :: "'c chain_index \<Rightarrow> 'c chain_index \<Rightarrow> bool" where
  "same_chains i j \<longleftrightarrow>
     chain_view i (records i) = chain_view j (records j) \<and>
     chain_view i (active_records i) = chain_view j (active_records j) \<and>
     fst ` set (tombstones i) = fst ` set (tombstones j)"

text \<open>Two cache managers that answer the questions of the planner alike, for every argument.\<close>

definition same_answers :: "'m chain_manager \<Rightarrow> 'm \<Rightarrow> 'm \<Rightarrow> bool" where
  "same_answers H m n \<longleftrightarrow>
     (\<forall>hook. chain_capacity_deficits H = Some hook \<longrightarrow>
        (\<forall>suffix z existing slots rows fresh. hook suffix z existing slots rows fresh m = hook suffix z existing slots rows fresh n)) \<and>
     (\<forall>f. chain_has_residency H = Some f \<longrightarrow> (\<forall>sid. f sid m = f sid n)) \<and>
     (\<forall>f. chain_physical_residency H = Some f \<longrightarrow> (\<forall>sid. f sid m = f sid n)) \<and>
     (\<forall>f. chain_capacity_residency H = Some f \<longrightarrow> (\<forall>sid. f sid m = f sid n))"

lemma plain_sel [simp]:
  "chain_id (plain k) = chain_id k" "seq_id (plain k) = seq_id k" "fingerprint (plain k) = fingerprint k"
  "state (plain k) = state k" "processed_token_count (plain k) = processed_token_count k"
  "processed_token_digest (plain k) = processed_token_digest k" "last_access (plain k) = last_access k"
  "resident_rows (plain k) = resident_rows k" "allocated_capacity (plain k) = allocated_capacity k"
  "reserved_slots_by_layer (plain k) = reserved_slots_by_layer k" "reserved_rows (plain k) = reserved_rows k"
  by (simp_all add: plain_def allocated_capacity_def split: option.split)

lemma map_of_chain_view: "map_of (chain_view i d) c = map_option (\<lambda>a. plain (heap i a)) (map_of d c)"
  by (induction d) (auto simp: chain_view_def)

lemma view_records: "map snd (chain_view i d) = map (\<lambda>a. plain (heap i a)) (map snd d)"
  by (induction d) (auto simp: chain_view_def)

lemma map_insort_key: "map g (insort_key (\<lambda>x. f (g x)) x xs) = insort_key f (g x) (map g xs)"
  by (induction xs) simp_all

lemma map_sort_key: "map g (sort_key (\<lambda>x. f (g x)) xs) = sort_key f (map g xs)"
  by (induction xs) (simp_all add: map_insort_key)

lemma view_idle_lru:
  "map (\<lambda>a. plain (heap i a)) (idle_resident_lru i) =
     sort_key (\<lambda>k. (last_access k, chain_id k))
       (filter (\<lambda>k. state k = IDLE \<and> resident_rows k > 0) (map snd (chain_view i (records i))))"
proof -
  let ?g = "\<lambda>a. plain (heap i a)"
  have "idle_resident_lru i = sort_key (\<lambda>a. (last_access (?g a), chain_id (?g a)))
      (filter (\<lambda>a. state (?g a) = IDLE \<and> resident_rows (?g a) > 0) (map snd (records i)))"
    by (simp add: idle_resident_lru_def)
  then show ?thesis
    by (simp only: map_sort_key [where g="?g" and f="\<lambda>k. (last_access k, chain_id k)"] view_records)
      (simp only: filter_map comp_def)
qed

lemma pick_victims_plain: "pick_victims (map plain ks) rows ds vs = pick_victims ks rows ds vs"
  by (induction ks arbitrary: rows ds vs) simp_all

lemma choose_victims_same:
  assumes "same_chains i j"
  shows "choose_victims c slots rows i = choose_victims c slots rows j"
proof -
  let ?ks = "\<lambda>i. filter (\<lambda>k. chain_id k \<noteq> c) (map (heap i) (idle_resident_lru i))"
  have plain: "map plain (?ks i) = filter (\<lambda>k. chain_id k \<noteq> c) (map (\<lambda>a. plain (heap i a)) (idle_resident_lru i))" for i
    by (simp add: filter_map comp_def)
  have "map plain (?ks i) = map plain (?ks j)"
    unfolding plain view_idle_lru using assms by (simp add: same_chains_def)
  then have "pick_victims (?ks i) r ds vs = pick_victims (?ks j) r ds vs" for r ds vs
    using pick_victims_plain by metis
  then show ?thesis by (simp add: choose_victims_def Let_def)
qed

lemma same_lookup:
  assumes "same_chains i j"
  shows "map_option (\<lambda>a. plain (heap i a)) (map_of (records i) c) = map_option (\<lambda>a. plain (heap j a)) (map_of (records j) c)"
  using assms map_of_chain_view unfolding same_chains_def by metis

lemma check_admission_same:
  assumes same: "same_chains i j"
  shows "fst (check_admission sha c sid inp fp i) = fst (check_admission sha c sid inp fp j)"
proof (cases "map_of (records i) c")
  case None
  then have "map_of (records j) c = None" using same_lookup [OF same, of c] by simp
  with None same show ?thesis by (simp add: check_admission_def same_chains_def)
next
  case (Some a)
  then obtain b where b: "map_of (records j) c = Some b" "plain (heap i a) = plain (heap j b)"
    using same_lookup [OF same, of c] by (cases "map_of (records j) c") auto
  have eq: "state (heap i a) = state (heap j b)" "fingerprint (heap i a) = fingerprint (heap j b)"
      "seq_id (heap i a) = seq_id (heap j b)" "processed_token_count (heap i a) = processed_token_count (heap j b)"
      "processed_token_digest (heap i a) = processed_token_digest (heap j b)"
    using b(2) plain_sel by metis+
  then have "admission_digest sha inp (heap i a) = admission_digest sha inp (heap j b)"
    by (cases inp) (simp_all add: admission_digest_def)
  with Some b(1) eq show ?thesis
    by (cases "admission_digest sha inp (heap j b)") (simp_all add: check_admission_def Let_def)
qed

lemma check_admission_Inr: "check_admission sha c sid inp fp i = (Inr x, i') \<Longrightarrow> i' = i"
  by (auto simp: check_admission_def Let_def split: option.splits if_splits sum.splits)

lemma plan_admission_same:
  assumes same: "same_chains i j" and run: "plan_admission' sha c sid inp fp slots rows rs rr i = (Inr plan, i')"
  shows "plan_admission' sha c sid inp fp slots rows rs rr j = (Inr plan, j)"
proof -
  obtain x i1 where x: "check_admission sha c sid inp fp i = (Inr x, i1)"
    using run by (cases "check_admission sha c sid inp fp i"; cases "fst (check_admission sha c sid inp fp i)")
      (auto simp: plan_admission'_def bindE_apply)
  obtain j1 where "check_admission sha c sid inp fp j = (Inr x, j1)"
    using check_admission_same [OF same, of sha c sid inp fp] x by (metis fst_conv prod.collapse)
  then have "check_admission sha c sid inp fp j = (Inr x, j)" "check_admission sha c sid inp fp i = (Inr x, i)"
    using x check_admission_Inr by metis+
  with run show ?thesis
    unfolding plan_admission'_def bindE_apply
    by (auto simp: eff_simps choose_victims_same [OF same] split: sum.splits prod.splits)
qed

lemma current_residency_same:
  assumes "same_answers H m n"
  shows "current_residency H (plain k) res m = current_residency H k res n"
  using assms by (auto simp: current_residency_def same_answers_def split: option.split)

lemma outstanding_loop_same:
  assumes "same_answers H m n"
  shows "outstanding_loop H m excl (map plain ks) o1 rows = outstanding_loop H n excl ks o1 rows"
proof (induction ks arbitrary: o1 rows)
  case (Cons k ks)
  have "(case chain_has_residency H of None \<Rightarrow> False | Some f \<Rightarrow> f sid m) = (case chain_has_residency H of None \<Rightarrow> False | Some f \<Rightarrow> f sid n)" for sid
    using assms by (simp add: same_answers_def split: option.split)
  then show ?case using Cons by (simp add: current_residency_same [OF assms] Let_def cong: option.case_cong)
qed simp

lemma same_answers_refl [simp]: "same_answers H m m"
  by (simp add: same_answers_def)

lemma outstanding_same:
  assumes "same_chains (index s) (index u)" "same_answers H (manager s) (manager u)"
  shows "outstanding_active_reservations H {} s = outstanding_active_reservations H {} u"
proof -
  let ?ks = "\<lambda>s. map (heap (index s)) (map snd (active_records (index s)))"
  have view: "map plain (?ks s) = map snd (chain_view (index s) (active_records (index s)))" for s :: "('a, 'b) chain_runtime"
    by (simp add: chain_view_def comp_def case_prod_beta)
  have "map plain (?ks s) = map plain (?ks u)" unfolding view using assms(1) by (simp add: same_chains_def)
  then show ?thesis
    unfolding outstanding_active_reservations_def
    using outstanding_loop_same [OF assms(2), of "{}" "?ks u"] outstanding_loop_same [OF same_answers_refl, of H "manager s" "{}" "?ks s"]
    by simp
qed

definition snapshot_keys :: "('c, 'm) chain_runtime \<Rightarrow> int set option" where
  "snapshot_keys s = map_option (\<lambda>f. dom (map_of (snapshots f))) (offload s)"

lemma poll_loop_dom: "dom (map_of (snapshots (poll_loop is_done ps f))) = dom (map_of (snapshots f))"
  by (induction is_done ps f rule: poll_loop.induct) (auto simp: update_conv' split: option.splits if_splits)

text \<open>The requirements only read; of the state they change the copies in flight.\<close>

lemma requirements_run:
  "\<exists>r t. admission_requirements H c n d s = (r, t) \<and> index t = index s \<and> manager t = manager s \<and> snapshot_keys t = snapshot_keys s"
proof -
  define t where "t = (case offload s of None \<Rightarrow> s | Some f \<Rightarrow> s\<lparr>offload := Some (poll (\<lambda>ev. event_complete H ev (manager s)) f)\<rparr>)"
  have "index t = index s" "manager t = manager s" "snapshot_keys t = snapshot_keys s"
    by (auto simp: t_def snapshot_keys_def poll_def poll_loop_dom split: option.split)
  moreover have "admission_requirements H c n d s = (fst (admission_requirements H c n d s), t)"
    by (cases "offload s") (simp_all add: admission_requirements_def t_def eff_simps when_offload_def on_offload_def)
  ultimately show ?thesis by blast
qed

definition requirements :: "'m chain_manager \<Rightarrow> 'c \<Rightarrow> int \<Rightarrow> int list \<Rightarrow> ('c, 'm) chain_runtime \<Rightarrow> (int list \<times> int \<times> int list \<times> int) result" where
  "requirements H c n d s =
     (let k = map_option (\<lambda>a. plain (heap (index s) a)) (map_of (records (index s)) c)
      in case chain_capacity_deficits H of
           None \<Rightarrow> Inr ([], 0, [], 0)
         | Some hook \<Rightarrow>
             bindR (outstanding_active_reservations H {} s) (\<lambda>(slots, rows).
               hook (max 0 (n - (case k of None \<Rightarrow> 0 | Some k \<Rightarrow> processed_token_count k))) 0
                 (case k of None \<Rightarrow> [] | Some k \<Rightarrow> allocated_capacity k)
                 (map (\<lambda>i. at_layer slots i + at_layer d i) [0..<max (length slots) (length d)])
                 rows (case k of None \<Rightarrow> True | Some k \<Rightarrow> resident_rows k = 0) (manager s)))"

lemma requirements_eq: "fst (admission_requirements H c n d s) = requirements H c n d s"
proof -
  have "outstanding_active_reservations H {} (s\<lparr>offload := x\<rparr>) = outstanding_active_reservations H {} s" for x
    by (simp add: outstanding_active_reservations_def)
  then show ?thesis
    by (cases "offload s"; cases "map_of (records (index s)) c"; cases "chain_capacity_deficits H")
      (simp_all add: admission_requirements_def requirements_def eff_simps when_offload_def on_offload_def Let_def)
qed

lemma requirements_same:
  assumes "same_chains (index s) (index u)" "same_answers H (manager s) (manager u)"
  shows "requirements H c n d s = requirements H c n d u"
proof (cases "chain_capacity_deficits H")
  case (Some hook)
  then have "hook a z e sl r f (manager s) = hook a z e sl r f (manager u)" for a z e sl r f
    using assms(2) by (simp add: same_answers_def)
  with Some show ?thesis
    by (simp add: requirements_def same_lookup [OF assms(1)] outstanding_same [OF assms] Let_def)
qed (simp add: requirements_def)

lemma offload_plan_same:
  assumes same: "same_chains (index s) (index u)" and keys: "snapshot_keys u = snapshot_keys s"
  shows "offload_plan plan u = offload_plan plan s"
proof (cases "offload s")
  case None
  then show ?thesis using keys by (simp add: snapshot_keys_def offload_plan_def)
next
  case (Some f)
  then obtain g where g: "offload u = Some g" "dom (map_of (snapshots g)) = dom (map_of (snapshots f))"
    using keys by (auto simp: snapshot_keys_def)
  have key: "map_of (snapshots g) x \<noteq> None \<longleftrightarrow> map_of (snapshots f) x \<noteq> None" for x using g(2) by (metis domIff)
  have "(case map_of (records (index u)) c of None \<Rightarrow> Inl KeyError
        | Some a \<Rightarrow> Inr (c, map_of (snapshots g) (seq_id (heap (index u) a)) \<noteq> None)) =
      (case map_of (records (index s)) c of None \<Rightarrow> Inl KeyError
        | Some a \<Rightarrow> Inr (c, map_of (snapshots f) (seq_id (heap (index s) a)) \<noteq> None))" for c
  proof (cases "map_of (records (index s)) c")
    case None
    then show ?thesis using same_lookup [OF same, of c] by simp
  next
    case (Some a)
    then obtain b where b: "map_of (records (index u)) c = Some b" "plain (heap (index s) a) = plain (heap (index u) b)"
      using same_lookup [OF same, of c] by (cases "map_of (records (index u)) c") auto
    then have "seq_id (heap (index s) a) = seq_id (heap (index u) b)" using plain_sel(2) by metis
    with Some b(1) show ?thesis by (simp add: key del: not_None_eq)
  qed
  then show ?thesis using Some g(1) unfolding offload_plan_def by (simp del: not_None_eq)
qed

text \<open>The digest variant makes the same plan, given the digest of the record that is resumed.\<close>

lemma digest_plan:
  assumes run: "plan_admission' sha c sid (Tokens ts) fp slots rows rs rr i = (Inr plan, j)"
    and d: "status plan = Resumed \<Longrightarrow> map_option processed_token_digest (chain_at i c) = Some d"
  shows "plan_admission' sha c sid (Digest (int (length ts)) d) fp slots rows rs rr i = (Inr plan, i)"
proof -
  have v: "j = i" "check_admission sha c sid (Tokens ts) fp i = (Inr (status plan, reused_tokens plan), i)"
    "choose_victims c slots rows i = Inr (victim_chain_ids plan)"
    using plan_admission_view(2) [OF run refl] by simp_all
  have "check_admission sha c sid (Digest (int (length ts)) d) fp i = (Inr (status plan, reused_tokens plan), i)"
  proof (cases "map_of (records i) c")
    case None
    then show ?thesis using v(2) by (auto simp: check_admission_def split: if_splits)
  next
    case (Some a)
    let ?k = "heap i a"
    have ok: "state ?k \<noteq> ACTIVE" "fingerprint ?k = fp" "seq_id ?k = sid" "status plan = Resumed" "reused_tokens plan = processed_token_count ?k"
        "stable_token_digest sha ts (Some (processed_token_count ?k)) = Inr (processed_token_digest ?k)"
      using v(2) Some by (auto simp: check_admission_def admission_digest_def Let_def split: if_splits sum.splits)
    have "processed_token_count ?k \<le> int (length ts)"
      using ok(6) by (auto simp: stable_token_digest_def Let_def split: if_splits)
    moreover have "d = processed_token_digest ?k" using d [OF ok(4)] Some by (simp add: chain_at_def)
    ultimately show ?thesis using Some ok by (simp add: check_admission_def admission_digest_def Let_def)
  qed
  then show ?thesis using run v by (simp add: plan_admission'_def eff_simps input_count_def)
qed

lemma coordinator_plan_agrees:
  assumes same: "same_chains (index s) (index u)" "same_answers H (manager s) (manager u)" "snapshot_keys u = snapshot_keys s"
    and run: "coordinator_plan' sha H fp c sid (Tokens ts) dr s = (Inr plan, t)"
    and d: "status plan = Resumed \<Longrightarrow> map_option processed_token_digest (chain_at (index s) c) = Some d"
  shows "\<exists>v. coordinator_plan' sha H fp c sid (Digest (int (length ts)) d) dr u = (Inr plan, v) \<and> index v = index u \<and> manager v = manager u"
proof -
  let ?n = "int (length ts)"
  obtain r s' where s: "admission_requirements H c ?n dr s = (r, s')" "index s' = index s" "manager s' = manager s" "snapshot_keys s' = snapshot_keys s"
    using requirements_run [of H c ?n dr s] by blast
  obtain r' u' where u: "admission_requirements H c ?n dr u = (r', u')" "index u' = index u" "manager u' = manager u" "snapshot_keys u' = snapshot_keys u"
    using requirements_run [of H c ?n dr u] by blast
  have "r' = r" using requirements_same [OF same(1,2), of c ?n dr] s(1) u(1) requirements_eq by (metis fst_conv)
  obtain rs rr ds rw where r: "r = Inr (rs, rr, ds, rw)"
    using run s(1) by (cases r) (auto simp: coordinator_plan'_def eff_simps input_count_def)
  obtain pr j where pr: "plan_admission' sha c sid (Tokens ts) fp ds rw rs rr (index s) = (pr, j)" by fastforce
  then obtain pl where "pr = Inr pl"
    using run s(1,2) r by (cases pr) (simp_all add: coordinator_plan'_def bindE_apply input_count_def on_index_def)
  then have pl: "plan_admission' sha c sid (Tokens ts) fp ds rw rs rr (index s) = (Inr pl, j)" using pr by simp
  have j: "j = index s" using plan_admission_view(2) [OF pl refl] by simp
  have s': "s'\<lparr>index := index s\<rparr> = s'" using s(2) by (cases s') simp
  have u': "u'\<lparr>index := index u\<rparr> = u'" using u(2) by (cases u') simp
  obtain q where q: "offload_plan pl s' = Inr q" "plan = q\<lparr>decode_reserved_slots_by_layer := dr\<rparr>"
    using run s(1,2) r pl j s' by (cases "offload_plan pl s'") (auto simp: coordinator_plan'_def eff_simps input_count_def on_index_def)
  have "status plan = status pl" using q by (auto simp: offload_plan_def bindR_eq_Inr split: option.splits)
  then have "plan_admission' sha c sid (Digest ?n d) fp ds rw rs rr (index s) = (Inr pl, index s)"
    using digest_plan [OF pl] d by simp
  then have dp: "plan_admission' sha c sid (Digest ?n d) fp ds rw rs rr (index u) = (Inr pl, index u)"
    by (rule plan_admission_same [OF same(1)])
  have "offload_plan pl u' = Inr q" using offload_plan_same [of s' u' pl] s(2,4) u(2,4) same(1,3) q(1) by simp
  then have "coordinator_plan' sha H fp c sid (Digest ?n d) dr u = (Inr plan, u')"
    using u(1,2) \<open>r' = r\<close> r dp q(2) by (simp add: coordinator_plan'_def eff_simps input_count_def on_index_def u')
  then show ?thesis using u(2,3) by blast
qed

text \<open>Storing a history, which only the driver does, keeps the indexes in agreement.\<close>

lemma store_history_same: "same_chains (snd (store_token_history a ts i)) i"
proof -
  have "plain (heap (snd (store_token_history a ts i)) b) = plain (heap i b)" for b
    by (simp add: store_token_history_def plain_def split: sum.split)
  moreover have "records (snd (store_token_history a ts i)) = records i"
      "active_records (snd (store_token_history a ts i)) = active_records i" "tombstones (snd (store_token_history a ts i)) = tombstones i"
    by (simp_all add: store_token_history_def split: sum.split)
  ultimately show ?thesis by (simp add: same_chains_def chain_view_def)
qed

lemma remember_same:
  assumes "remember_prepared_tokens p i = (r, j)"
  shows "same_chains j i"
proof -
  have refl: "same_chains i i" by (simp add: same_chains_def)
  show ?thesis
  proof (cases "chain_lookup (pt_chain_id p) i")
    case (Inl e)
    then show ?thesis using assms refl by (auto simp: remember_prepared_tokens_def eff_simps)
  next
    case (Inr a)
    obtain q l where l: "store_token_history a (pt_tokens p) i = (q, l)" by fastforce
    have "j = i \<or> j = l" using assms Inr l by (cases q) (auto simp: remember_prepared_tokens_def eff_simps split: if_splits)
    then show ?thesis using refl store_history_same [of a "pt_tokens p" i] l by auto
  qed
qed

lemma coordinator_plan_ids:
  assumes "coordinator_plan' sha H fp c sid inp d s = (Inr plan, t)"
  shows "plan_chain_id plan = c" "plan_seq_id plan = sid" "decode_reserved_slots_by_layer plan = d"
proof -
  obtain r u where u: "admission_requirements H c (input_count inp) d s = (r, u)" by fastforce
  then obtain rs rr ds rw where r: "r = Inr (rs, rr, ds, rw)"
    using assms by (cases r) (auto simp: coordinator_plan'_def bindE_apply)
  obtain q j where q: "plan_admission' sha c sid inp fp ds rw rs rr (index u) = (q, j)" by fastforce
  then obtain pl where pl: "q = Inr pl"
    using assms u r by (cases q) (simp_all add: coordinator_plan'_def bindE_apply on_index_def)
  obtain x where x: "offload_plan pl (u\<lparr>index := j\<rparr>) = Inr x" "plan = x\<lparr>decode_reserved_slots_by_layer := d\<rparr>"
    using assms u r q pl by (cases "offload_plan pl (u\<lparr>index := j\<rparr>)") (auto simp: coordinator_plan'_def eff_simps on_index_def)
  have "plan_chain_id x = plan_chain_id pl" "plan_seq_id x = plan_seq_id pl"
    using x(1) by (auto simp: offload_plan_def bindR_eq_Inr split: option.splits)
  then show "plan_chain_id plan = c" "plan_seq_id plan = sid" "decode_reserved_slots_by_layer plan = d"
    using plan_admission_view(2) [OF q pl] x(2) by simp_all
qed

end
