(* ===== verification/Chain_Properties.thy ===== *)
theory Chain_Properties
  imports Chain_Agreement
begin

text \<open>
  The properties of the chain cache, over the states that the engine's calls reach, and a small run on
  which they are evaluated: chain 7 is created, finished after four processed tokens, and demoted.
\<close>

section \<open>A small run\<close>

definition demo_hooks :: "unit chain_manager" where
  "demo_hooks =
     \<lparr>kv_transformer_layer_indices = [0], token_bytes = [2],
      chain_capacity_deficits = None, chain_has_residency = Some (\<lambda>sid m. True),
      chain_physical_residency = Some (\<lambda>sid m. Inr [3]), chain_capacity_residency = None, chain_capacity_keys = None,
      snapshot_chain_method_state = (\<lambda>sid m. Inr 1), allocate_chain_restore = (\<lambda>sid ls. retE ()),
      copy_to_host = (\<lambda>sid m. Inr ()), copy_to_device = (\<lambda>sid. retE ()), stream_capturing = (\<lambda>m. False),
      event_complete = (\<lambda>ev m. True), new_event = (\<lambda>m. 0), manager_free_seq = (\<lambda>sid. retE ()),
      free_seq_payload = (\<lambda>sid. retE ()), on_chain_turn_finished = (\<lambda>sid n. retE ()),
      release_reservation = (\<lambda>sid m. m),
      discard_resident = (\<lambda>sid m. m), add_resident = (\<lambda>sid m. m), decode_outstanding = None,
      is_resident_seq = (\<lambda>sid m. True), reset_reservations = retE (), reset_caches = retE ()\<rparr>"

definition no_record :: "nat \<Rightarrow> int chain_record" where
  "no_record a =
     \<lparr>chain_id = 0, seq_id = 0, fingerprint = [], state = IDLE, processed_token_count = 0, processed_token_digest = [],
      token_ids = [], last_input_token_count = 0, last_access = 0, physical_slots_by_layer = [], capacity_slots = None,
      resident_rows = 0, reserved_slots_by_layer = [], reserved_rows = 0\<rparr>"

definition demo_tokens :: "int list" where
  "demo_tokens = [5, 6, 7, 8, 9]"

definition demo_start :: "(int, unit) chain_runtime" where
  "demo_start = projr (ChainCacheCoordinator no_record 4 100 (Some 100) ())"

definition demo_plan :: "int admission_plan" where
  "demo_plan = projr (fst (coordinator_plan' id demo_hooks [1] 7 1 (Tokens demo_tokens) [] demo_start))"

definition demo_created :: "(int, unit) chain_runtime" where
  "demo_created = snd (chain_apply_admission demo_hooks [1] demo_plan
     (snd (coordinator_plan' id demo_hooks [1] 7 1 (Tokens demo_tokens) [] demo_start)))"

definition demo_prepared :: "int prepared_tokens" where
  "demo_prepared = projr (prepare_processed_tokens id 7 1 demo_tokens 4 (index demo_created))"

definition demo_finished :: "(int, unit) chain_runtime" where
  "demo_finished = snd (runtime_chain_finish demo_hooks 7 1 (pt_digest demo_prepared) 4 demo_created)"

definition demo_demoted :: "(int, unit) chain_runtime" where
  "demo_demoted = snd (chain_reclaim_idle demo_hooks 7 1 True demo_finished)"

lemma demo_values:
  "fst (coordinator_plan' id demo_hooks [1] 7 1 (Tokens demo_tokens) [] demo_start) = Inr demo_plan"
  "map_option state (chain_at (index demo_created) 7) = Some ACTIVE"
  "map_option fingerprint (chain_at (index demo_created) 7) = Some [1]"
  "prepare_processed_tokens id 7 1 demo_tokens 4 (index demo_created) = Inr demo_prepared"
  "fst (runtime_chain_finish demo_hooks 7 1 (pt_digest demo_prepared) 4 demo_created) = Inr 0"
  "map_option state (chain_at (index demo_demoted) 7) = Some IDLE"
  "map_option resident_rows (chain_at (index demo_demoted) 7) = Some 0"
  "map_option seq_id (chain_at (index demo_demoted) 7) = Some 1"
  by code_simp+

lemma demo_reachable:
  "chain_reachable id demo_hooks [1] demo_start" "chain_reachable id demo_hooks [1] demo_created"
  "chain_reachable id demo_hooks [1] demo_finished" "chain_reachable id demo_hooks [1] demo_demoted"
proof -
  have "ChainCacheCoordinator no_record 4 100 (Some 100) () = Inr demo_start"
    by (simp add: demo_start_def ChainCacheCoordinator_def ChainCacheIndex_def ChainOffloadController_def)
  then show 0: "chain_reachable id demo_hooks [1] demo_start" by (rule chain_reachable.start)
  have plan: "coordinator_plan' id demo_hooks [1] 7 1 (Tokens demo_tokens) [] demo_start =
      (Inr demo_plan, snd (coordinator_plan' id demo_hooks [1] 7 1 (Tokens demo_tokens) [] demo_start))"
    using demo_values(1) by (simp add: prod_eq_iff)
  show 1: "chain_reachable id demo_hooks [1] demo_created"
    unfolding demo_created_def by (rule chain_reachable.next_state [OF 0 chain_step.admit [OF plan]]) (rule prod.collapse [symmetric])
  show 2: "chain_reachable id demo_hooks [1] demo_finished"
    unfolding demo_finished_def by (rule chain_reachable.next_state [OF 1 chain_step.finish]) (rule prod.collapse [symmetric])
  show "chain_reachable id demo_hooks [1] demo_demoted"
    unfolding demo_demoted_def by (rule chain_reachable.next_state [OF 2 chain_step.reclaim]) (rule prod.collapse [symmetric])
qed

section \<open>The index\<close>

lemma snapshot_match_eq: "chain_snapshot_match (snapshot_of i) c = chain_routing_match c i"
  by (cases "map_of (records i) c"; cases "state (heap i (the (map_of (records i) c)))")
    (auto simp: chain_snapshot_match_def chain_routing_match_def snapshot_of_def chain_at_def)

text \<open>
  C29. In every state that the calls of the engine reach, failed ones included, the chain index is
  consistent: the active table holds exactly the active chains, every sequence owns at most one chain
  and the owner table is exact, the token account is the total length of the stored histories and
  within its limit, idle chains hold no reservations, at most \<open>max_tombstones\<close> removed chains are
  remembered, and the snapshot given to the router answers every chain id as the index itself does.
\<close>

theorem chain_index_consistent:
  assumes "chain_reachable sha H fp s"
  shows "(\<forall>c. map_of (active_records (index s)) c =
            (if \<exists>k. chain_at (index s) c = Some k \<and> state k = ACTIVE then map_of (records (index s)) c else None)) \<and>
    (\<forall>sid c. map_of (seq_id_to_chain_id (index s)) sid = Some c \<longleftrightarrow> (\<exists>k. chain_at (index s) c = Some k \<and> seq_id k = sid)) \<and>
    token_history_tokens (index s) = (\<Sum>c\<in>dom (chain_at (index s)). int (length (token_ids (the (chain_at (index s) c))))) \<and>
    (\<forall>m. max_token_history_tokens (index s) = Some m \<longrightarrow> token_history_tokens (index s) \<le> m) \<and>
    (\<forall>c k. chain_at (index s) c = Some k \<and> state k = IDLE \<longrightarrow> reserved_slots_by_layer k = [] \<and> reserved_rows k = 0) \<and>
    int (length (tombstones (index s))) \<le> max_tombstones (index s) \<and>
    (\<exists>sn i. chain_routing_snapshot (index s) = (Inr sn, i) \<and> (\<forall>c. chain_snapshot_match sn c = chain_routing_match c (index s)))"
proof -
  have inv: "chain_inv (index s)" by (rule runtime_invD(1) [OF reachable_inv [OF assms]])
  note d = dicts_okD [OF chain_invD(1) [OF inv]]
  have acc: "account_ok (index s)" by (rule chain_invD(2) [OF inv])
  obtain i where "chain_routing_snapshot (index s) = (Inr (snapshot_of (index s)), i)" using routing_snapshot_ok [OF inv] by blast
  then have "\<exists>sn i. chain_routing_snapshot (index s) = (Inr sn, i) \<and> (\<forall>c. chain_snapshot_match sn c = chain_routing_match c (index s))"
    by (intro exI [of _ "snapshot_of (index s)"] exI [of _ i]) (simp add: snapshot_match_eq)
  moreover have "token_history_tokens (index s) = (\<Sum>c\<in>dom (chain_at (index s)). int (length (token_ids (the (chain_at (index s) c)))))"
    using acc by (simp add: account_ok_def tally_def history_length_def)
  moreover have "int (length (tombstones (index s))) \<le> max_tombstones (index s)"
    using chain_invD(3) [OF inv] by (simp add: tombstones_ok_def)
  ultimately show ?thesis using d(4,5) acc unfolding account_ok_def by blast
qed

theorem chain_index_consistent_witness:
  "chain_reachable id demo_hooks [1] demo_finished \<and>
   token_history_tokens (index demo_finished) = (\<Sum>c\<in>dom (chain_at (index demo_finished)). int (length (token_ids (the (chain_at (index demo_finished) c)))))"
  using chain_index_consistent [OF demo_reachable(3)] demo_reachable(3) by blast

section \<open>The host tier\<close>

text \<open>
  C30. Demotion is safe: in every reachable state, an idle chain whose device rows have been released has
  a host snapshot, and waiting for its copy yields a valid one.
\<close>

theorem demoted_chain_restorable:
  assumes "chain_reachable sha H fp s" and "chain_at (index s) c = Some k" "state k = IDLE" "resident_rows k = 0"
  shows "\<exists>f sn g. offload s = Some f \<and> wait (seq_id k) f = (Inr sn, g) \<and> valid sn"
proof -
  note inv = reachable_inv [OF assms(1)]
  have "backed (offload s) k" by (rule runtime_invD(3) [OF inv assms(2)]) simp
  then obtain f where f: "offload s = Some f" "restorable f (seq_id k)"
    using assms(3,4) by (auto simp: backed_def split: option.splits)
  then obtain sn where "map_of (snapshots f) (seq_id k) = Some sn" "valid sn \<or> completion sn \<noteq> None" by (auto simp: restorable_def)
  then show ?thesis using f(1) wait_ok [OF runtime_invD(2) [OF inv f(1)]] by blast
qed

theorem demoted_chain_restorable_witness:
  "\<exists>f sn g. offload demo_demoted = Some f \<and> wait 1 f = (Inr sn, g) \<and> valid sn"
proof -
  obtain k where k: "chain_at (index demo_demoted) 7 = Some k" "state k = IDLE" "resident_rows k = 0" "seq_id k = 1"
    using demo_values(6-8) by auto
  show ?thesis using demoted_chain_restorable [OF demo_reachable(4) k(1-3)] k(4) by simp
qed

text \<open>
  C34. In every reachable state the host account is exact: the bytes in use are the sum of the sizes of
  the snapshots and never exceed the budget, and the queue holds exactly the copies in flight.
\<close>

theorem host_account_exact:
  assumes "chain_reachable sha H fp s" and "offload s = Some f"
  shows "used_bytes f = (\<Sum>sid\<in>dom (map_of (snapshots f)). int (nbytes (the (map_of (snapshots f) sid)))) \<and>
    used_bytes f \<le> capacity_bytes f \<and> distinct (pending f) \<and>
    (\<forall>sid. sid \<in> set (pending f) \<longleftrightarrow> (\<exists>sn. map_of (snapshots f) sid = Some sn \<and> completion sn \<noteq> None))"
  using host_okD [OF runtime_invD(2) [OF reachable_inv [OF assms(1)] assms(2)]] by (simp add: tally_def)

theorem host_account_exact_witness:
  "\<exists>f. offload demo_finished = Some f \<and> used_bytes f = 7 \<and> used_bytes f \<le> capacity_bytes f"
proof -
  have v: "map_option used_bytes (offload demo_finished) = Some 7" by code_simp
  then obtain f where f: "offload demo_finished = Some f" "used_bytes f = 7" by auto
  then show ?thesis using host_account_exact [OF demo_reachable(3) f(1)] by simp
qed

section \<open>Admission\<close>

lemma idle_lru_sorted:
  "sorted (map (\<lambda>a. (last_access (heap i a), chain_id (heap i a))) (idle_resident_lru i))"
  by (simp add: idle_resident_lru_def)

text \<open>
  C33. A plan evicts no more than it must: the victims are the first idle resident chains in the order of
  last access, without the admitted chain; together they relieve the missing rows and slots, and no
  shorter prefix of that order does.  Planning changes nothing.
\<close>

theorem plan_victims_minimal:
  assumes "plan_admission sha c sid ts fp slots rows rs rr i = (Inr plan, j)"
  defines "ks \<equiv> filter (\<lambda>k. chain_id k \<noteq> c) (map (heap i) (idle_resident_lru i))"
  shows "j = i \<and> sorted (map (\<lambda>a. (last_access (heap i a), chain_id (heap i a))) (idle_resident_lru i)) \<and>
    (\<exists>n. victim_chain_ids plan = map chain_id (take n ks) \<and>
       no_pressure (fold relieved (take n ks) (max 0 rows, map (max 0) slots)) \<and>
       (\<forall>m<n. \<not> no_pressure (fold relieved (take m ks) (max 0 rows, map (max 0) slots))))"
proof -
  have run: "plan_admission' sha c sid (Tokens ts) fp slots rows rs rr i = (Inr plan, j)" using assms(1) by (simp add: plan_admission_def)
  have v: "j = i" "choose_victims c slots rows i = Inr (victim_chain_ids plan)"
    using plan_admission_view(2) [OF run refl] by simp_all
  then show ?thesis using choose_victims_prefix [OF v(2)] idle_lru_sorted by (auto simp: ks_def)
qed

theorem plan_victims_minimal_witness:
  "\<exists>plan j. plan_admission id 8 2 demo_tokens [1] [2] 0 [2] 0 (index demo_finished) = (Inr plan, j) \<and> victim_chain_ids plan = [7] \<and> j = index demo_finished"
proof -
  have v: "map_sum (\<lambda>e. ()) victim_chain_ids (fst (plan_admission id 8 2 demo_tokens [1] [2] 0 [2] 0 (index demo_finished))) = Inr [7]"
    by code_simp
  obtain r j where run: "plan_admission id 8 2 demo_tokens [1] [2] 0 [2] 0 (index demo_finished) = (r, j)" by fastforce
  then obtain plan where "r = Inr plan" "victim_chain_ids plan = [7]" using v by (cases r) auto
  then show ?thesis using run plan_victims_minimal [of id 8 2 demo_tokens "[1]" "[2]" 0 "[2]" 0 "index demo_finished" plan j] by blast
qed

text \<open>
  Admission commits: applying a plan that was made in a reachable state either raises, or leaves the
  planned chain active: its record is the one returned, and the active table holds it.
\<close>

theorem admission_activates:
  assumes "chain_reachable sha H fp s" and "coordinator_plan' sha H fp c sid inp d s = (Inr plan, u)"
    and "chain_apply_admission H fp plan u = (Inr a, t)"
  shows "map_of (active_records (index t)) (plan_chain_id plan) = Some a \<and> state (heap (index t) a) = ACTIVE"
proof -
  have "runtime_inv {} u \<and> planned u plan" using coordinator_plan_view [OF reachable_inv [OF assms(1)] assms(2)] by simp
  then have t: "runtime_inv {} t" "map_of (records (index t)) (plan_chain_id plan) = Some a" "state (heap (index t) a) = ACTIVE"
    using specD_Inr [OF admission_spec _ assms(3)] by blast+
  show ?thesis
    using dicts_okD(4) [OF chain_invD(1) [OF runtime_invD(1) [OF t(1)]], of "plan_chain_id plan"] chain_at_records [OF t(2)] t(2,3) by simp
qed

theorem admission_activates_witness:
  "\<exists>a u t. coordinator_plan' id demo_hooks [1] 7 1 (Tokens demo_tokens) [] demo_start = (Inr demo_plan, u) \<and>
     chain_apply_admission demo_hooks [1] demo_plan u = (Inr a, t) \<and> map_of (active_records (index t)) (plan_chain_id demo_plan) = Some a"
proof -
  let ?u = "snd (coordinator_plan' id demo_hooks [1] 7 1 (Tokens demo_tokens) [] demo_start)"
  have plan: "coordinator_plan' id demo_hooks [1] 7 1 (Tokens demo_tokens) [] demo_start = (Inr demo_plan, ?u)"
    using demo_values(1) by (simp add: prod_eq_iff)
  have "fst (chain_apply_admission demo_hooks [1] demo_plan ?u) = Inr 0" by code_simp
  then have ap: "chain_apply_admission demo_hooks [1] demo_plan ?u = (Inr 0, snd (chain_apply_admission demo_hooks [1] demo_plan ?u))"
    by (simp add: prod_eq_iff)
  show ?thesis using admission_activates [OF demo_reachable(1) plan ap] plan ap by blast
qed

section \<open>Turns\<close>

text \<open>
  C31. A finished turn can be resumed by exactly the prompts that extend it, as far as there is room.
  When the turn of a chain with token history \<open>ts\<close> and \<open>n\<close> processed tokens has been finished, a new
  prompt of the same sequence and fingerprint, for whatever slot and row deficits, is planned as a
  resumption that reuses the \<open>n\<close> tokens if and only if it starts with the first \<open>n\<close> tokens of \<open>ts\<close> and
  evicting other idle resident chains can make up the deficits.  A prompt that starts so but whose deficits
  cannot be relieved raises \<open>ChainCapacityError\<close>; any other prompt raises \<open>ChainPrefixMismatchError\<close>, or
  \<open>OverflowError\<close> if one of its first \<open>n\<close> tokens does not fit in 64 bits.  The hash is assumed not to
  collide on the two prefixes.
\<close>

theorem finished_chain_resumes:
  assumes "chain_reachable sha H fp s" and "chain_at (index s) c = Some k" "fingerprint k = fp"
    and "prepare_processed_tokens sha c sid ts n (index s) = Inr p"
    and "runtime_chain_finish H c sid (pt_digest p) n s = (Inr a, t)"
    and "inj_on sha {packed_prefix n ts, packed_prefix n us}"
    and "r = fst (plan_admission sha c sid us fp slots rows rs rr (index t))"
    and "extends \<longleftrightarrow> n \<le> int (length us) \<and> take (nat n) us = take (nat n) ts"
  shows "((\<exists>plan. r = Inr plan \<and> status plan = Resumed \<and> reused_tokens plan = n) \<longleftrightarrow>
      extends \<and> relievable c slots rows (index t)) \<and>
    (extends \<and> \<not> relievable c slots rows (index t) \<longrightarrow> r = Inl ChainCapacityError) \<and>
    (\<not> extends \<longrightarrow> r = Inl (if int64 (take (nat n) us) then ChainPrefixMismatchError else OverflowError))"
proof -
  have p: "0 \<le> n" "stable_token_digest sha ts (Some n) = Inr (pt_digest p)"
    using assms(4) by (auto simp: prepare_processed_tokens_def prepare_token_history_def bindR_eq_Inr split: if_splits)
  have "runtime_inv {} s \<and> chain_at (index s) c = Some k" using reachable_inv [OF assms(1)] assms(2) by simp
  then obtain k' where k': "chain_at (index t) c = Some k'" "turned (pt_digest p) n k k'" "seq_id k = sid"
    using specD_Inr [OF runtime_chain_finish_spec _ assms(5)] by blast
  have idle: "state k' = IDLE" "seq_id k' = sid" "fingerprint k' = fp" and d: "processed_token_count k' = n" "processed_token_digest k' = pt_digest p"
    using k'(2,3) assms(3) by (simp_all add: turned_def)
  have "stable_token_digest sha us (Some (processed_token_count k')) = Inr (processed_token_digest k') \<longleftrightarrow> extends"
    unfolding d assms(8) by (rule digest_prefix [OF p assms(6)])
  note o = resume_outcome [OF k'(1) idle this assms(7), unfolded d]
  show ?thesis using o(1) o(2) o(3) by blast
qed

text \<open>Planned with a deficit of two slots, the finished chain itself being the only idle one.\<close>

theorem finished_chain_resumes_witness:
  "(\<exists>plan. fst (plan_admission id 7 1 [5, 6, 7, 8, 3, 2] [1] [0] 0 [2] 0 (index demo_finished)) = Inr plan \<and>
     status plan = Resumed \<and> reused_tokens plan = 4) \<and>
   fst (plan_admission id 7 1 [5, 6, 7, 8, 3, 2] [1] [2] 0 [2] 0 (index demo_finished)) = Inl ChainCapacityError \<and>
   fst (plan_admission id 7 1 [5, 6, 4, 8, 3, 2] [1] [0] 0 [2] 0 (index demo_finished)) = Inl ChainPrefixMismatchError"
proof -
  obtain k where k: "chain_at (index demo_created) 7 = Some k" "fingerprint k = [1]" using demo_values(3) by auto
  have fin: "runtime_chain_finish demo_hooks 7 1 (pt_digest demo_prepared) 4 demo_created = (Inr 0, demo_finished)"
    using demo_values(5) by (simp add: demo_finished_def prod_eq_iff)
  have inj: "inj_on id {packed_prefix 4 demo_tokens, packed_prefix 4 us}" for us by (simp add: inj_on_def)
  note r = finished_chain_resumes [OF demo_reachable(2) k demo_values(4) fin inj refl refl]
  have lru: "idle_resident_lru (index demo_finished) = [0]" "chain_id (heap (index demo_finished) 0) = 7" by code_simp+
  have "relievable 7 [0] 0 (index demo_finished)" "\<not> relievable 7 [2] 0 (index demo_finished)"
    unfolding relievable_def lru by (simp_all add: lru no_pressure_def)
  then show ?thesis
    using r [of "[5, 6, 7, 8, 3, 2]" "[0]" 0 "[2]" 0] r [of "[5, 6, 7, 8, 3, 2]" "[2]" 0 "[2]" 0]
      r [of "[5, 6, 4, 8, 3, 2]" "[0]" 0 "[2]" 0]
    by (simp add: demo_tokens_def int64_def)
qed

text \<open>
  C32. The ranks agree on a plan.  A rank that has the same chains as the driver up to the token histories,
  which only the driver stores, whose cache manager answers the planner's questions alike and that has
  host snapshots of the same sequences accepts the driver's plan, although it is sent only the prompt's
  length and the digest of the record instead of the tokens: \<open>validate_admission_plan\<close> returns the very
  same plan, and changes neither the index nor the manager of that rank.
\<close>

theorem plan_validates_on_replica:
  assumes "coordinator_plan_admission sha H fp c sid ts s = (Inr plan, t)"
    and "same_chains (index s) (index u)" "same_answers H (manager s) (manager u)" "snapshot_keys u = snapshot_keys s"
    and "status plan = Resumed \<Longrightarrow> map_option processed_token_digest (chain_at (index s) c) = Some d"
  shows "\<exists>v. validate_admission_plan sha H fp plan (int (length ts)) d u = (Inr plan, v) \<and> index v = index u \<and> manager v = manager u"
proof -
  let ?d = "decode_reserved_slots H (manager s)"
  have run: "coordinator_plan' sha H fp c sid (Tokens ts) ?d s = (Inr plan, t)"
    using assms(1) by (simp add: coordinator_plan_admission_def eff_simps)
  have ids: "plan_chain_id plan = c" "plan_seq_id plan = sid" "decode_reserved_slots_by_layer plan = ?d"
    using coordinator_plan_ids [OF run] by simp_all
  show ?thesis
    using coordinator_plan_agrees [OF assms(2-4) run assms(5)] by (auto simp: validate_admission_plan_def ids eff_simps)
qed

text \<open>
  The driver has stored the history of the finished turn, the other rank has not: their indexes differ,
  and the resumed turn is planned by the one and validated by the other.
\<close>

definition demo_driver :: "(int, unit) chain_runtime" where
  "demo_driver = demo_finished\<lparr>index := snd (remember_prepared_tokens demo_prepared (index demo_finished))\<rparr>"

theorem plan_validates_on_replica_witness:
  "\<exists>plan t v. coordinator_plan_admission id demo_hooks [1] 7 1 [5, 6, 7, 8, 3, 2] demo_driver = (Inr plan, t) \<and>
     status plan = Resumed \<and> token_history_tokens (index demo_driver) \<noteq> token_history_tokens (index demo_finished) \<and>
     validate_admission_plan id demo_hooks [1] plan 6 (pt_digest demo_prepared) demo_finished = (Inr plan, v)"
proof -
  let ?ts = "[5, 6, 7, 8, 3, 2] :: int list"
  have ok: "map_sum (\<lambda>e. ()) status (fst (coordinator_plan_admission id demo_hooks [1] 7 1 ?ts demo_driver)) = Inr Resumed"
    "map_option processed_token_digest (chain_at (index demo_driver) 7) = Some (pt_digest demo_prepared)"
    "token_history_tokens (index demo_driver) = 5" "token_history_tokens (index demo_finished) = 0" by code_simp+
  obtain r j where "remember_prepared_tokens demo_prepared (index demo_finished) = (r, j)" by fastforce
  then have same: "same_chains (index demo_driver) (index demo_finished)"
    using remember_same by (simp add: demo_driver_def)
  have rest: "same_answers demo_hooks (manager demo_driver) (manager demo_finished)"
    "snapshot_keys demo_finished = snapshot_keys demo_driver"
    by (simp_all add: demo_driver_def snapshot_keys_def)
  obtain r t where run: "coordinator_plan_admission id demo_hooks [1] 7 1 ?ts demo_driver = (r, t)" by fastforce
  then obtain plan where plan: "r = Inr plan" "status plan = Resumed" using ok(1) by (cases r) auto
  show ?thesis
    using plan_validates_on_replica [OF run [unfolded plan(1)] same rest ok(2)] run plan ok(3,4) by auto
qed

end
