(* ===== verification/Spec2Isabelle.thy ===== *)
theory Spec2Isabelle
  imports Page_Allocator Routing_Membership Scheduler_Examples Runtime_State Recurrent_Snapshots
    Head_Slot_Ledger Prefix_Properties Prefix_Prune Chain_Properties
begin

text \<open>
  Verification library for SparseEngine, an LLM inference engine with sparse key-value caches.  It
  models the engine's control plane, the Python code under \<open>src/src/sparseengine/\<close> that decides what
  runs and who owns which memory; paths below are relative to that directory.

  \<^bold>\<open>The program.\<close>  Requests (\<open>engine/sequence.py\<close>) wait in the queues of the scheduler
  (\<open>engine/scheduler.py\<close>), which forms prefill and decode batches under step limits and asks a
  memory oracle, \<open>engine/runtime_state.py\<close> over the cache managers, whether each choice fits.  Promised
  decode windows are booked in a ledger (\<open>engine/cache_manager/decode_reservation.py\<close>).  Memory belongs
  to allocators: physical pages (\<open>cache_manager/storage/page_allocator.py\<close>), slots per layer and head
  (\<open>cache_manager/head_slot_allocator.py\<close>), rows of recurrent state
  (\<open>engine/recurrent_state_manager.py\<close>).  Blocks of computed prefixes stay cached in an index
  (\<open>engine/prefix_cache.py\<close>) that evicts them, moves them between device and host, and exports
  snapshots to a router.  Methods whose caches cannot branch keep whole conversations instead
  (\<open>engine/chain_cache.py\<close>): a chain is created or resumed by a request, finished with its turn, and
  demoted to the host (\<open>cache_manager/chain_offload.py\<close>) or evicted under pressure.

  \<^bold>\<open>Conventions.\<close>  An operation on an object is a function of its state record that returns the
  outcome, an exception or a value, and the state the object is left in, also when it raises
  (\<open>('s, 'a) eff\<close> in Prelude); a pure fallible function returns \<open>result\<close>.  Python integers are
  \<open>int\<close>, bytes are \<open>8 word list\<close>, dicts association lists where their order matters, mutable objects
  with identity live in a store of the state record.  Effect_Logic has the control operators
  (\<open>try/finally\<close>, loops) and the rules to prove that operations keep an invariant.  A loop that is not
  structural carries fuel: one unit per element of its queue or work list plus one, or for the
  scheduler's retry loop one per request; running out is the outcome \<open>OutOfFuel\<close>, and the theorems that
  an operation returns exclude it.

  \<^bold>\<open>Requests and scheduling.\<close>
  \<^item> Sampling_Params: \<open>sampling_params.py\<close>; accepted parameters are in range.
  \<^item> Sequence_State: \<open>Sequence\<close>; replay after preemption feeds the accepted history, the compact form
    sent to workers keeps what they read, the penalty tensors are complete.
  \<^item> Decode_Reservation, Cost_Hooks: \<open>DecodeReservationLedger\<close> and the window cost hooks of the cache
    managers; no resource is promised twice, a shortened window is the longest that fits.  The locale
    \<open>window_costs\<close> states what a hook promises and is interpreted on every modelled one.
  \<^item> Scheduler (the model), Scheduler_Queues, Scheduler_Prefill, Scheduler_Decode (its properties),
    Scheduler_Examples: the oracle is a record of functions, and the properties hold for any oracle:
    requests are conserved, batches respect the step limits, a decode batch stays within the free slots
    and the step allocation budgets, and its preview selects what the decode loop selects.
  \<^item> Runtime_State, Runtime_Layout: the oracle's composition of the key-value and recurrent managers.

  \<^bold>\<open>Memory ownership.\<close>
  \<^item> Page_Allocator: \<open>PhysicalPageAllocator\<close>; the free list and the reference counts are exact, allocation
    never aliases, a rejected release changes nothing.
  \<^item> Head_Slots (model), Head_Slot_Ledger: \<open>HeadSlotAllocator\<close>; every slot has one owner, accepted plans
    apply, compaction keeps the selection, the advertised capacity is usable.
  \<^item> Recurrent_State (model), Recurrent_Snapshots: \<open>RecurrentStateManager\<close>; rows have one owner, writes
    reach no other sequence, and a prefix snapshot restores what was saved where no deferred payload is
    waiting; a deferred one is restored by the first read.

  \<^bold>\<open>The prefix cache\<close>, all of \<open>engine/prefix_cache.py\<close> but the fingerprint of a configuration.
  \<^item> Routing_Membership: the persistent AVL set of block ids; it refines a finite set.
  \<^item> Radix_Tree (model), Radix_Forest, Radix_Queries, Block_Forest: \<open>RadixTreeBackend\<close> on a heap of nodes
    refines a forest of blocks given by its parent map.  The locale \<open>block_forest\<close> is the contract the
    index relies on.
  \<^item> Prefix_Block: block ids, residency, routing snapshots and their matching.  Prefix_Index,
    Prefix_Eviction, Prefix_Control: the state and every operation of \<open>RadixPrefixIndex\<close>, and
    \<open>select_write_through_candidates\<close>.
  \<^item> Forest_Peeling: which blocks of a forest can go leaf by leaf, the counters that maintain this set,
    and the loops that compute it.
  \<^item> Prefix_Invariant, Prefix_Operations, Prefix_Views, Prefix_Insertion, Prefix_Removal: the invariant
    of the index (agreement of dict, tree, routing membership and freeable counters, residency closed
    towards the root, caches no newer than their epoch) and that the operations keep it.
  \<^item> Eviction_Order, Device_Demotion: greedy eviction and demotion as relations, and the heap loops that
    refine them; the locale \<open>eviction\<close> is interpreted on eviction from the index and from the host.
  \<^item> Subtree_Control, Write_Through: deletion and pinning of subtrees, and starting selected backups.
  \<^item> Prefix_Machine: the index as a step relation over all its operations; the invariant holds in
    every reachable state.  Prefix_Examples, Prefix_Routing, Prefix_Properties: the properties, on
    reachable states: consistency, exact capacity views, the order and yield of eviction and demotion,
    subtree deletion, write-through, rollback, block ids, routing snapshots.
  \<^item> Prefix_Prune: \<open>engine/prefix_prune.py\<close>; a prune request resolves to separated intervals that cover
    exactly its tokens, and the selection keeps the best scores, the protected tokens and whole blocks.

  \<^bold>\<open>The chain cache\<close>, \<open>engine/chain_cache.py\<close> but the fingerprint of a configuration, its offload
  controller, and the chain operations of \<open>RuntimeState\<close>.
  \<^item> Chain_Index: \<open>ChainCacheIndex\<close>, with records as objects of a store.  Chain_Lifecycle: its invariant,
    by the table of records that the operations change at one chain.
  \<^item> Chain_Offload: \<open>ChainOffloadController\<close> and its byte account.  Chain_Coordinator:
    \<open>ChainCacheCoordinator\<close> and the runtime's operations over index, controller and cache manager.
  \<^item> Chain_Runtime, Chain_Admission, Chain_Turns: the joint invariant, that an idle chain without device
    rows can be restored, through planning, demotion, admission with a failing restore, the end of a turn
    with its error path, reclaiming and invalidation.  Chain_Machine: the step relation of all calls, the
    end of a forward step and the reset after the warm-up included; a reset that raises ends the run.
  \<^item> Chain_Agreement, Chain_Properties: digests identify prefixes, and the properties on reachable states:
    consistency, safe demotion, the host account, minimal victims, resumption as far as room can be made,
    and that a rank with the same chains up to the driver's token histories validates the driver's plan.

  \<^bold>\<open>Parameters.\<close>  \<open>hashlib.sha256\<close>, the weight callback of eviction, the payloads of cached blocks,
  the tensors' contents, the device runtime and, in the scheduler, the memory oracle are arguments of
  the definitions, as is the sum of a block's scores in pruning; the chain cache calls the cache manager
  through the record \<open>chain_manager\<close>, about which nothing is assumed.

  \<^bold>\<open>Not modelled.\<close>  Kernels, models, layers and sparse-attention controllers, whose meaning is that of
  tensor libraries; storage layouts of the cache managers; the model runner and CUDA graphs; process
  management and I/O of the engine front end and the data-parallel engine; multimodal input; the
  publication of mixed payloads by the prefix-cache coordinator; log messages, timing metrics and the
  texts of exceptions.
\<close>

end
